(* ===== verification/Gb_Prelude.thy ===== *)
theory Gb_Prelude
  imports Main "HOL-Library.Word" "HOL-Library.Monad_Syntax"
begin

unbundle bit_operations_syntax

text \<open>
  Shared material: the C++ integer types of the code base as named widths, the fixed-width
  conversions the compiler inserts, and the generic facts on lists and options that the
  component theories use. Signed integers that the code computes with are \<open>int\<close> with the
  wrap-around of the conversion written out (\<open>i32\<close>, \<open>i64\<close>); bit patterns (bytes, hashes,
  entity ids, sequence numbers) are words.
\<close>

named_theorems width_simps \<open>conversions between fixed-width integer types\<close>

type_synonym byte = "8 word"
type_synonym u16 = "16 word"
type_synonym u32 = "32 word"
type_synonym u64 = "64 word"

section \<open>Conversions to fixed-width integers\<close>

text \<open>Conversion to \<^verbatim>\<open>int32_t\<close> and \<^verbatim>\<open>int64_t\<close> (two's complement).\<close>

definition i32 :: "int \<Rightarrow> int" where
  "i32 x = signed_take_bit 31 x"

definition i64 :: "int \<Rightarrow> int" where
  "i64 x = signed_take_bit 63 x"

lemma i32_id [width_simps]: "- (2 ^ 31) \<le> x \<Longrightarrow> x < 2 ^ 31 \<Longrightarrow> i32 x = x"
  unfolding i32_def by (rule signed_take_bit_int_eq_self)

lemma i64_id [width_simps]: "- (2 ^ 63) \<le> x \<Longrightarrow> x < 2 ^ 63 \<Longrightarrow> i64 x = x"
  unfolding i64_def by (rule signed_take_bit_int_eq_self)

lemma i32_range: "- (2 ^ 31) \<le> i32 x \<and> i32 x < 2 ^ 31"
  unfolding i32_def
  using signed_take_bit_int_greater_eq_minus_exp [of 31 x] signed_take_bit_int_less_exp [of 31 x]
  by simp

section \<open>Generic list facts\<close>

lemma take_drop_append_mid:
  "a + b \<le> length xs \<Longrightarrow> take b (drop a xs) @ take c (drop (a + b) xs) = take (b + c) (drop a xs)"
  by (simp add: take_add add.commute)

lemma take_drop_append_left: "a + b \<le> length xs \<Longrightarrow> take b (drop a (xs @ ys)) = take b (drop a xs)"
  by simp

lemma sum_list_map_nat_int: "int (sum_list xs) = sum_list (map int xs)"
  by (induction xs) auto

section \<open>Invariants of step relations\<close>

text \<open>
  What a component owes for its step relation: the invariant holds at the start and every step keeps it. Each component
  interprets this on its own steps.
\<close>

locale kept_invariant =
  fixes step :: "'s \<Rightarrow> 's \<Rightarrow> bool" and start :: 's and inv :: "'s \<Rightarrow> bool"
  assumes start_inv: "inv start"
    and step_inv: "step s s' \<Longrightarrow> inv s \<Longrightarrow> inv s'"
begin

lemma steps_inv: "step\<^sup>*\<^sup>* s s' \<Longrightarrow> inv s \<Longrightarrow> inv s'"
  by (induction rule: rtranclp_induct) (auto intro: step_inv)

lemma reach_inv: "step\<^sup>*\<^sup>* start s \<Longrightarrow> inv s"
  using steps_inv start_inv by blast

end

section \<open>Encodings\<close>

text \<open>An encoding that can be read back.\<close>

locale codec =
  fixes enc :: "'a \<Rightarrow> 'c" and dec :: "'c \<Rightarrow> 'a"
  assumes dec_enc: "dec (enc x) = x"
begin

lemma enc_inj: "enc x = enc y \<longleftrightarrow> x = y"
  by (metis dec_enc)

lemma map_dec_enc: "map (\<lambda>x. dec (enc x)) xs = xs"
  by (simp add: dec_enc)

end

end
