(* ===== verification/Atomics.thy ===== *)
theory Atomics
  imports Gb_Prelude
begin

text \<open>
  The atomic primitives of \<^verbatim>\<open>src/base/atomic.h\<close>. An atomic cell is its value; an operation
  returns the new value of the cell together with the value it returns. Each operation is one
  indivisible step of the model (they are single hardware read-modify-write instructions).
\<close>

definition atomic_comp_swap :: "'a \<Rightarrow> 'a \<Rightarrow> 'a \<Rightarrow> 'a \<times> 'a" where
  "atomic_comp_swap lockword exchange comperand =
     (if lockword = comperand then (exchange, comperand) else (lockword, lockword))"

definition atomic_swap :: "'a \<Rightarrow> 'a \<Rightarrow> 'a \<times> 'a" where
  "atomic_swap lockword value = (value, lockword)"

definition atomic_add_ret_old :: "int \<Rightarrow> int \<Rightarrow> int \<times> int" where
  "atomic_add_ret_old n v = (i32 (n + v), n)"

definition atomic_inc :: "int \<Rightarrow> int" where
  "atomic_inc n = fst (atomic_add_ret_old n 1)"

definition atomic_dec_ret_old :: "int \<Rightarrow> int \<times> int" where
  "atomic_dec_ret_old n = (i32 (n - 1), n)"

lemma comp_swap_returns_old [simp]: "snd (atomic_comp_swap a e c) = a"
  by (simp add: atomic_comp_swap_def)

lemma comp_swap_cell: "fst (atomic_comp_swap a e c) = (if a = c then e else a)"
  by (simp add: atomic_comp_swap_def)

end
