(* ===== verification/Flow_Control.thy ===== *)
theory Flow_Control
  imports Atomics
begin

text \<open>
  \<^verbatim>\<open>FlowController\<close> (\<^verbatim>\<open>src/message_stream/flow_controller.{h,cpp}\<close>): a read and a write quota,
  each an atomic 32-bit integer that several IO threads update with compare-and-swap loops.
  The operations are given twice: as the sequential function the caller sees, and as the
  individual atomic steps of the loop, run by any number of threads in any interleaving.
\<close>

section \<open>The controller and its operations\<close>

record flow_controller =
  read_no_limit :: bool
  read_quota :: int
  write_no_limit :: bool
  write_quota :: int

definition FlowController :: "bool \<Rightarrow> int \<Rightarrow> bool \<Rightarrow> int \<Rightarrow> flow_controller" where
  "FlowController rnl rq wnl wq =
     \<lparr>read_no_limit = rnl, read_quota = rq, write_no_limit = wnl, write_quota = wq\<rparr>"

definition reset_read_quota :: "bool \<Rightarrow> int \<Rightarrow> flow_controller \<Rightarrow> flow_controller" where
  "reset_read_quota nl quota fc = fc\<lparr>read_no_limit := nl, read_quota := quota\<rparr>"

definition reset_write_quota :: "bool \<Rightarrow> int \<Rightarrow> flow_controller \<Rightarrow> flow_controller" where
  "reset_write_quota nl quota fc = fc\<lparr>write_no_limit := nl, write_quota := quota\<rparr>"

text \<open>The value each loop computes from the value it loaded.\<close>

definition recharge_new :: "int \<Rightarrow> int \<Rightarrow> int" where
  "recharge_new quota old_quota = (if old_quota > 0 then quota else i32 (old_quota + quota))"

definition acquire_new :: "int \<Rightarrow> int \<Rightarrow> int" where
  "acquire_new quota old_quota =
     (if old_quota > 0 then i32 (old_quota - quota) else i32 (old_quota - 1))"

definition recharge_read_quota :: "int \<Rightarrow> flow_controller \<Rightarrow> flow_controller" where
  "recharge_read_quota quota fc =
     (if read_no_limit fc then fc
      else fc\<lparr>read_quota := fst (atomic_comp_swap (read_quota fc)
                (recharge_new quota (read_quota fc)) (read_quota fc))\<rparr>)"

definition recharge_write_quota :: "int \<Rightarrow> flow_controller \<Rightarrow> flow_controller" where
  "recharge_write_quota quota fc =
     (if write_no_limit fc then fc
      else fc\<lparr>write_quota := fst (atomic_comp_swap (write_quota fc)
                (recharge_new quota (write_quota fc)) (write_quota fc))\<rparr>)"

definition has_read_quota :: "flow_controller \<Rightarrow> bool" where
  "has_read_quota fc \<longleftrightarrow> read_no_limit fc \<or> read_quota fc > 0"

definition has_write_quota :: "flow_controller \<Rightarrow> bool" where
  "has_write_quota fc \<longleftrightarrow> write_no_limit fc \<or> write_quota fc > 0"

definition acquire_read_quota :: "int \<Rightarrow> flow_controller \<Rightarrow> int \<times> flow_controller" where
  "acquire_read_quota quota fc =
     (if read_no_limit fc then (1, fc)
      else let old_quota = read_quota fc;
               (cell, ret) = atomic_comp_swap (read_quota fc) (acquire_new quota old_quota) old_quota
           in (ret, fc\<lparr>read_quota := cell\<rparr>))"

definition acquire_write_quota :: "int \<Rightarrow> flow_controller \<Rightarrow> int \<times> flow_controller" where
  "acquire_write_quota quota fc =
     (if write_no_limit fc then (1, fc)
      else let old_quota = write_quota fc;
               (cell, ret) = atomic_comp_swap (write_quota fc) (acquire_new quota old_quota) old_quota
           in (ret, fc\<lparr>write_quota := cell\<rparr>))"

section \<open>The compare-and-swap loops, step by step\<close>

text \<open>
  One quota cell shared by threads. A thread that runs \<^verbatim>\<open>recharge\<close> or \<^verbatim>\<open>acquire\<close> first loads the
  cell, then tries to swap; when the swap sees another value it loads again. A finished
  operation remembers the old value it returned.
\<close>

datatype quota_op = Recharge int | Acquire int

fun quota_new :: "quota_op \<Rightarrow> int \<Rightarrow> int" where
  "quota_new (Recharge q) old = recharge_new q old"
| "quota_new (Acquire q) old = acquire_new q old"

datatype thread_pc =
    Start quota_op
  | Loaded quota_op int int   \<comment> \<open>operation, \<open>old_quota\<close>, \<open>new_quota\<close>\<close>
  | Finished quota_op int     \<comment> \<open>operation and the old value it swapped out\<close>

record quota_sys =
  cell :: int
  threads :: "nat \<rightharpoonup> thread_pc"
  history :: "(nat \<times> quota_op \<times> int) list"   \<comment> \<open>successful swaps, oldest first\<close>

inductive quota_step :: "quota_sys \<Rightarrow> quota_sys \<Rightarrow> bool" where
  call: "threads s t = None \<Longrightarrow> quota_step s (s\<lparr>threads := (threads s)(t \<mapsto> Start op)\<rparr>)"
| load: "threads s t = Some (Start op) \<Longrightarrow>
     quota_step s (s\<lparr>threads := (threads s)(t \<mapsto> Loaded op (cell s) (quota_new op (cell s)))\<rparr>)"
| swap_ok: "threads s t = Some (Loaded op old new) \<Longrightarrow>
     atomic_comp_swap (cell s) new old = (c, ret) \<Longrightarrow> ret = old \<Longrightarrow>
     quota_step s (s\<lparr>cell := c, threads := (threads s)(t \<mapsto> Finished op old),
                     history := history s @ [(t, op, old)]\<rparr>)"
| swap_fail: "threads s t = Some (Loaded op old new) \<Longrightarrow>
     atomic_comp_swap (cell s) new old = (c, ret) \<Longrightarrow> ret \<noteq> old \<Longrightarrow>
     quota_step s (s\<lparr>cell := c, threads := (threads s)(t \<mapsto> Start op)\<rparr>)"

inductive_cases quota_stepE: "quota_step s s'"

inductive quota_reach :: "int \<Rightarrow> quota_sys \<Rightarrow> bool" for q0 where
  init: "quota_reach q0 \<lparr>cell = q0, threads = Map.empty, history = []\<rparr>"
| step: "quota_reach q0 s \<Longrightarrow> quota_step s s' \<Longrightarrow> quota_reach q0 s'"

text \<open>The specification: the operations applied one after the other, each returning the value
  it found.\<close>

fun quota_run :: "int \<Rightarrow> (nat \<times> quota_op \<times> int) list \<Rightarrow> bool \<times> int" where
  "quota_run q [] = (True, q)"
| "quota_run q ((t, op, ret) # hs) =
     (let (ok, q') = quota_run (quota_new op q) hs in (ret = q \<and> ok, q'))"

text \<open>A sequence of write acquisitions, with the values returned; and the total they were granted.\<close>

fun acquire_writes :: "int list \<Rightarrow> flow_controller \<Rightarrow> int list \<times> flow_controller" where
  "acquire_writes [] fc = ([], fc)"
| "acquire_writes (q # qs) fc =
     (let (r, fc1) = acquire_write_quota q fc; (rs, fc2) = acquire_writes qs fc1 in (r # rs, fc2))"

fun granted :: "int list \<Rightarrow> int list \<Rightarrow> int" where
  "granted (q # qs) (r # rs) = (if r > 0 then q else 0) + granted qs rs"
| "granted _ _ = 0"

section \<open>Library lemmas\<close>

lemma acquire_read_eq:
  "acquire_read_quota q fc =
     (if read_no_limit fc then (1, fc)
      else (read_quota fc, fc\<lparr>read_quota := acquire_new q (read_quota fc)\<rparr>))"
  by (simp add: acquire_read_quota_def atomic_comp_swap_def Let_def)

lemma acquire_write_eq:
  "acquire_write_quota q fc =
     (if write_no_limit fc then (1, fc)
      else (write_quota fc, fc\<lparr>write_quota := acquire_new q (write_quota fc)\<rparr>))"
  by (simp add: acquire_write_quota_def atomic_comp_swap_def Let_def)

lemma quota_run_append:
  "quota_run q (hs @ [(t, op, ret)]) =
     (case quota_run q hs of (ok, q') \<Rightarrow> (ok \<and> ret = q', quota_new op q'))"
proof (induction hs arbitrary: q)
  case Nil
  then show ?case by simp
next
  case (Cons h hs)
  then show ?case by (cases h) (auto split: prod.splits)
qed

definition loaded_ok :: "quota_sys \<Rightarrow> bool" where
  "loaded_ok s \<longleftrightarrow>
     (\<forall>t op old new. threads s t = Some (Loaded op old new) \<longrightarrow> new = quota_new op old) \<and>
     (\<forall>t op old. threads s t = Some (Finished op old) \<longrightarrow> (t, op, old) \<in> set (history s))"

lemma quota_step_inv:
  assumes "quota_step s s'" and "loaded_ok s" and "quota_run q0 (history s) = (True, cell s)"
  shows "loaded_ok s' \<and> quota_run q0 (history s') = (True, cell s')"
  using assms
proof (cases rule: quota_step.cases)
  case (swap_ok t op old new c ret)
  from swap_ok(2) assms(2) have new: "new = quota_new op old"
    by (simp add: loaded_ok_def)
  from swap_ok(3,4) have "cell s = old" "c = new"
    by (auto simp: atomic_comp_swap_def split: if_splits)
  with swap_ok(1) assms new show ?thesis
    by (auto simp: loaded_ok_def quota_run_append)
next
  case (swap_fail t op old new c ret)
  then have "c = cell s"
    by (auto simp: atomic_comp_swap_def split: if_splits)
  with swap_fail assms show ?thesis
    by (auto simp: loaded_ok_def)
qed (auto simp: loaded_ok_def)

lemma quota_reach_inv: "quota_reach q0 s \<Longrightarrow> loaded_ok s \<and> quota_run q0 (history s) = (True, cell s)"
proof (induction rule: quota_reach.induct)
  case init
  show ?case by (simp add: loaded_ok_def)
next
  case (step s s')
  then show ?case using quota_step_inv by blast
qed

lemma acquire_new_nonpos: "q \<le> 0 \<Longrightarrow> - (2 ^ 31) < q \<Longrightarrow> acquire_new n q = q - 1"
  by (simp add: acquire_new_def width_simps)

lemma acquire_new_pos:
  "0 < q \<Longrightarrow> q < 2 ^ 31 \<Longrightarrow> 0 \<le> n \<Longrightarrow> n < 2 ^ 31 \<Longrightarrow> acquire_new n q = q - n"
  by (simp add: acquire_new_def width_simps)

lemma acquire_writes_exhausted:
  "\<not> write_no_limit fc \<Longrightarrow> write_quota fc \<le> 0 \<Longrightarrow>
   - (2 ^ 31) \<le> write_quota fc - int (length qs) \<Longrightarrow>
   fst (acquire_writes qs fc) = map (\<lambda>i. write_quota fc - int i) [0..<length qs]"
proof (induction qs arbitrary: fc)
  case Nil
  then show ?case by simp
next
  case (Cons q qs)
  let ?fc = "fc\<lparr>write_quota := write_quota fc - 1\<rparr>"
  have a: "acquire_write_quota q fc = (write_quota fc, ?fc)"
    using Cons.prems by (simp add: acquire_write_eq acquire_new_nonpos)
  have "fst (acquire_writes qs ?fc) = map (\<lambda>i. write_quota fc - 1 - int i) [0..<length qs]"
    using Cons.IH [of ?fc] Cons.prems by simp
  moreover have "[0..<length (q # qs)] = 0 # map Suc [0..<length qs]"
    by (simp add: upt_conv_Cons map_Suc_upt del: upt_Suc)
  ultimately show ?case
    by (simp add: a split_def del: upt_Suc)
qed

lemma granted_exhausted:
  "\<forall>r \<in> set rs. r \<le> 0 \<Longrightarrow> granted qs rs = 0"
  by (induction qs rs rule: granted.induct) auto

lemma granted_bound:
  "\<not> write_no_limit fc \<Longrightarrow> 0 < write_quota fc \<Longrightarrow> write_quota fc < 2 ^ 31 \<Longrightarrow>
   \<forall>q \<in> set qs. 0 \<le> q \<and> q \<le> m \<Longrightarrow> 0 \<le> m \<Longrightarrow> m + int (length qs) < 2 ^ 31 \<Longrightarrow>
   granted qs (fst (acquire_writes qs fc)) \<le> write_quota fc - 1 + m"
proof (induction qs arbitrary: fc)
  case Nil
  then show ?case by simp
next
  case (Cons q qs)
  let ?fc = "fc\<lparr>write_quota := write_quota fc - q\<rparr>"
  have a: "acquire_write_quota q fc = (write_quota fc, ?fc)"
    using Cons.prems by (simp add: acquire_write_eq acquire_new_pos)
  show ?case
  proof (cases "write_quota ?fc \<le> 0")
    case True
    have "fst (acquire_writes qs ?fc) = map (\<lambda>i. write_quota ?fc - int i) [0..<length qs]"
      by (rule acquire_writes_exhausted) (use True Cons.prems in auto)
    then have "granted qs (fst (acquire_writes qs ?fc)) = 0"
      using True by (intro granted_exhausted) auto
    with Cons.prems show ?thesis
      by (simp add: a split_def Let_def)
  next
    case False
    then have "granted qs (fst (acquire_writes qs ?fc)) \<le> write_quota ?fc - 1 + m"
      by (intro Cons.IH) (use Cons.prems in auto)
    with Cons.prems show ?thesis
      by (simp add: a split_def Let_def)
  qed
qed

section \<open>Properties\<close>

text \<open>
  C35. The compare-and-swap loops are linearizable: in every state that any interleaving of
  threads can reach, the quota cell holds the result of running the completed operations one
  after the other in the order of their successful swaps, each returned the value it found, and
  every thread that finished has its operation in that order exactly with the value it returned.
\<close>

theorem quota_linearizable:
  assumes "quota_reach q0 s"
  shows "quota_run q0 (history s) = (True, cell s) \<and>
    (\<forall>t op old. threads s t = Some (Finished op old) \<longrightarrow> (t, op, old) \<in> set (history s))"
  using quota_reach_inv [OF assms] by (auto simp: loaded_ok_def)

text \<open>A run in which thread 2 swaps between thread 1's load and its swap, so thread 1 retries.\<close>

definition contended_run :: quota_sys where
  "contended_run = \<lparr>cell = 2, threads = [1 \<mapsto> Start (Acquire 4), 2 \<mapsto> Finished (Acquire 8) 10],
     history = [(2, Acquire 8, 10)]\<rparr>"

lemma contended_run_reachable: "quota_reach 10 contended_run"
proof -
  let ?s0 = "\<lparr>cell = 10, threads = Map.empty, history = []\<rparr>"
  let ?s1 = "?s0\<lparr>threads := [1 \<mapsto> Start (Acquire 4)]\<rparr>"
  let ?s2 = "?s0\<lparr>threads := [1 \<mapsto> Start (Acquire 4), 2 \<mapsto> Start (Acquire 8)]\<rparr>"
  let ?s3 = "?s0\<lparr>threads := [1 \<mapsto> Loaded (Acquire 4) 10 6, 2 \<mapsto> Start (Acquire 8)]\<rparr>"
  let ?s4 = "?s0\<lparr>threads := [1 \<mapsto> Loaded (Acquire 4) 10 6, 2 \<mapsto> Loaded (Acquire 8) 10 2]\<rparr>"
  let ?s5 = "\<lparr>cell = 2, threads = [1 \<mapsto> Loaded (Acquire 4) 10 6, 2 \<mapsto> Finished (Acquire 8) 10],
               history = [(2, Acquire 8, 10)]\<rparr>"
  have "quota_step ?s0 ?s1" using quota_step.call [of ?s0 1 "Acquire 4"] by simp
  moreover have "quota_step ?s1 ?s2" using quota_step.call [of ?s1 2 "Acquire 8"] by simp
  moreover have "quota_step ?s2 ?s3"
    using quota_step.load [of ?s2 1 "Acquire 4"] by (simp add: acquire_new_def width_simps fun_upd_twist)
  moreover have "quota_step ?s3 ?s4"
    using quota_step.load [of ?s3 2 "Acquire 8"] by (simp add: acquire_new_def width_simps)
  moreover have "quota_step ?s4 ?s5"
    using quota_step.swap_ok [of ?s4 2 "Acquire 8" 10 2 2 10] by (simp add: atomic_comp_swap_def)
  moreover have "quota_step ?s5 contended_run"
    using quota_step.swap_fail [of ?s5 1 "Acquire 4" 10 6 2 2]
    by (simp add: atomic_comp_swap_def contended_run_def fun_upd_twist)
  ultimately show ?thesis
    using quota_reach.init [of 10] quota_reach.step by meson
qed

theorem quota_linearizable_witness:
  "quota_reach 10 contended_run \<and>
   quota_run 10 (history contended_run) = (True, cell contended_run)"
  using quota_linearizable [OF contended_run_reachable] contended_run_reachable by simp

text \<open>
  Once a limited write quota is used up, successive acquisitions fail with strictly decreasing
  values (the documented tokens: the closer to zero, the earlier the request), whatever they ask for.
\<close>

theorem exhausted_tokens_ordered:
  assumes "\<not> write_no_limit fc" and "write_quota fc \<le> 0"
    and "- (2 ^ 31) \<le> write_quota fc - int (length qs)"
  shows "fst (acquire_writes qs fc) = map (\<lambda>i. write_quota fc - int i) [0..<length qs]"
  using assms by (rule acquire_writes_exhausted)

theorem exhausted_tokens_ordered_witness:
  "fst (acquire_writes [100, 7, 50] (FlowController True 0 False (-2))) = [-2, -3, -4]"
  using exhausted_tokens_ordered [of "FlowController True 0 False (-2)" "[100, 7, 50]"]
  by (simp add: FlowController_def upt_rec)

text \<open>
  Flow control bounds the traffic between two recharges: requests of at most m bytes each are
  granted less than the quota plus m bytes in total, however many are made.
\<close>

theorem granted_within_quota:
  assumes "\<not> write_no_limit fc" and "0 < write_quota fc" and "write_quota fc < 2 ^ 31"
    and "\<forall>q \<in> set qs. 0 \<le> q \<and> q \<le> m" and "0 \<le> m" and "m + int (length qs) < 2 ^ 31"
  shows "granted qs (fst (acquire_writes qs fc)) < write_quota fc + m"
  using granted_bound [OF assms] by simp

theorem granted_within_quota_witness:
  "granted [60, 60, 60] (fst (acquire_writes [60, 60, 60] (FlowController True 0 False 100))) < 160"
  using granted_within_quota [of "FlowController True 0 False 100" "[60, 60, 60]" 60]
  by (simp add: FlowController_def)

end
