(* ===== verification/Route_Table.thy ===== *)
theory Route_Table
  imports Gb_Prelude "HOL-Library.Multiset"
begin

text \<open>
  \<^verbatim>\<open>LockFreeRouteTable\<close> (\<^verbatim>\<open>src/network/router/lock_free_route_table.h\<close>): a write buffer of
  half-open id intervals, a published snapshot that readers search, and the snapshot before it.
  \<open>pending\<close>, \<open>current\<close> and \<open>retired\<close> are the three tables the class points to (\<open>None\<close> is the
  null pointer). The \<^verbatim>\<open>for\<close> loop of \<^verbatim>\<open>Bind\<close> is \<open>bind_scan\<close>, the enclosing
  \<^verbatim>\<open>while (restart)\<close> loop is \<open>bind_loop\<close>, and \<open>std::upper_bound\<close> is the binary search
  \<open>upper_bound_loop\<close>. The assertions on the calling thread are compiled out in release builds
  and are not modelled.

  The specification is a partial map from entity ids to worker indices (\<open>route_of\<close>): binding
  overrides an interval, unbinding removes one id, and a lookup after a freeze reads the map.
\<close>

section \<open>The table and its operations\<close>

record entry =
  e_begin :: u64
  e_end :: u64
  worker_index :: u32

type_synonym table = "entry list"

record lf_route_table =
  pending :: table
  current :: "table option"
  retired :: "table option"

definition kInvalidWorker :: u32 where
  "kInvalidWorker = 0xFFFFFFFF"

definition LockFreeRouteTable :: lf_route_table where
  "LockFreeRouteTable = \<lparr>pending = [], current = None, retired = None\<rparr>"

text \<open>One pass of the scan: \<open>True\<close> when an entry was split and the scan has to start again.\<close>

fun bind_scan :: "u64 \<Rightarrow> u64 \<Rightarrow> table \<Rightarrow> bool \<times> table" where
  "bind_scan b e [] = (False, [])"
| "bind_scan b e (x # xs) =
     (if e_end x \<le> b \<or> e_begin x \<ge> e
      then (let (restart, ys) = bind_scan b e xs in (restart, x # ys))
      else if e_begin x < b \<and> e_end x > e
      then (True, x\<lparr>e_end := b\<rparr> #
                  \<lparr>e_begin = e, e_end = e_end x, worker_index = worker_index x\<rparr> # xs)
      else if e_begin x < b
      then (let (restart, ys) = bind_scan b e xs in (restart, x\<lparr>e_end := b\<rparr> # ys))
      else if e_end x > e
      then (let (restart, ys) = bind_scan b e xs in (restart, x\<lparr>e_begin := e\<rparr> # ys))
      else bind_scan b e xs)"

text \<open>The entries that strictly surround the new interval; every restart removes one of them.\<close>

fun surrounding :: "u64 \<Rightarrow> u64 \<Rightarrow> table \<Rightarrow> nat" where
  "surrounding b e [] = 0"
| "surrounding b e (x # xs) = (if e_begin x < b \<and> e_end x > e then 1 else 0) + surrounding b e xs"

lemma bind_scan_measure:
  "b < e \<Longrightarrow> bind_scan b e v = (r, v') \<Longrightarrow>
   surrounding b e v' + (if r then 1 else 0) \<le> surrounding b e v"
proof (induction v arbitrary: r v')
  case Nil
  then show ?case by simp
next
  case (Cons x xs)
  obtain s ys where sc: "bind_scan b e xs = (s, ys)" by fastforce
  have IH: "surrounding b e ys + (if s then 1 else 0) \<le> surrounding b e xs"
    using Cons.IH [OF Cons.prems(1) sc] .
  from Cons.prems sc IH show ?case
    by (auto simp: Let_def not_less not_le split: if_splits)
qed

function bind_loop :: "u64 \<Rightarrow> u64 \<Rightarrow> table \<Rightarrow> table" where
  "bind_loop b e v =
     (if b < e
      then (case bind_scan b e v of
              (restart, v') \<Rightarrow> if restart then bind_loop b e v' else v')
      else v)"
  by pat_completeness auto
termination
proof (relation "measure (\<lambda>(b, e, v). surrounding b e v)", goal_cases)
  case 1
  show ?case by simp
next
  case (2 b e v restart v')
  then show ?case using bind_scan_measure [of b e v restart v'] by auto
qed

declare bind_loop.simps [simp del]

definition Bind :: "u64 \<Rightarrow> u64 \<Rightarrow> u32 \<Rightarrow> lf_route_table \<Rightarrow> lf_route_table" where
  "Bind entity_begin entity_end w t =
     (if entity_begin \<ge> entity_end then t
      else t\<lparr>pending := bind_loop entity_begin entity_end (pending t) @
               [\<lparr>e_begin = entity_begin, e_end = entity_end, worker_index = w\<rparr>]\<rparr>)"

definition BindSingle :: "u64 \<Rightarrow> u32 \<Rightarrow> lf_route_table \<Rightarrow> lf_route_table" where
  "BindSingle entity_id w t = Bind entity_id (entity_id + 1) w t"

fun unbind_scan :: "u64 \<Rightarrow> table \<Rightarrow> table" where
  "unbind_scan k [] = []"
| "unbind_scan k (x # xs) =
     (if k \<ge> e_begin x \<and> k < e_end x
      then (if e_begin x = k \<and> e_end x = k + 1 then xs
            else if e_begin x = k then x\<lparr>e_begin := k + 1\<rparr> # xs
            else if e_end x = k + 1 then x\<lparr>e_end := k\<rparr> # xs
            else x\<lparr>e_end := k\<rparr> #
                 \<lparr>e_begin = k + 1, e_end = e_end x, worker_index = worker_index x\<rparr> # xs)
      else x # unbind_scan k xs)"

definition Unbind :: "u64 \<Rightarrow> lf_route_table \<Rightarrow> lf_route_table" where
  "Unbind entity_id t = t\<lparr>pending := unbind_scan entity_id (pending t)\<rparr>"

definition freeze_push :: "table \<Rightarrow> entry \<Rightarrow> table" where
  "freeze_push snapshot e =
     (if snapshot \<noteq> [] \<and> e_end (last snapshot) > e_begin e
      then butlast snapshot @
             [(last snapshot)\<lparr>worker_index := worker_index e,
                e_end := (if e_end (last snapshot) < e_end e then e_end e
                          else e_end (last snapshot))\<rparr>]
      else snapshot @ [e])"

definition Freeze :: "lf_route_table \<Rightarrow> lf_route_table" where
  "Freeze t =
     (let sorted_pending = sort_key e_begin (pending t);
          snapshot = foldl freeze_push [] sorted_pending
      in \<lparr>pending = sorted_pending, current = Some snapshot, retired = current t\<rparr>)"

text \<open>\<open>std::upper_bound\<close>: the first position whose \<open>begin\<close> is greater than the id, by halving.\<close>

function upper_bound_loop :: "u64 \<Rightarrow> table \<Rightarrow> nat \<Rightarrow> nat \<Rightarrow> nat" where
  "upper_bound_loop k tab first len =
     (if len = 0 then first
      else let half = len div 2; mid = first + half
           in if k < e_begin (tab ! mid) then upper_bound_loop k tab first half
              else upper_bound_loop k tab (mid + 1) (len - half - 1))"
  by pat_completeness auto
termination
  by (relation "measure (\<lambda>(k, tab, first, len). len)") auto

declare upper_bound_loop.simps [simp del]

definition upper_bound :: "u64 \<Rightarrow> table \<Rightarrow> nat" where
  "upper_bound k tab = upper_bound_loop k tab 0 (length tab)"

definition Lookup :: "u64 \<Rightarrow> lf_route_table \<Rightarrow> u32" where
  "Lookup entity_id t =
     (case current t of
        None \<Rightarrow> kInvalidWorker
      | Some tab \<Rightarrow>
          if tab = [] then kInvalidWorker
          else let it = upper_bound entity_id tab
               in if it = 0 then kInvalidWorker
                  else let x = tab ! (it - 1)
                       in if entity_id \<ge> e_begin x \<and> entity_id < e_end x then worker_index x
                          else kInvalidWorker)"

definition IsEmpty :: "lf_route_table \<Rightarrow> bool" where
  "IsEmpty t = (case current t of None \<Rightarrow> True | Some tab \<Rightarrow> tab = [])"

section \<open>Specification: intervals as a map\<close>

definition in_entry :: "u64 \<Rightarrow> entry \<Rightarrow> bool" where
  "in_entry k x \<longleftrightarrow> e_begin x \<le> k \<and> k < e_end x"

definition disj_entry :: "entry \<Rightarrow> entry \<Rightarrow> bool" where
  "disj_entry x y \<longleftrightarrow> e_end x \<le> e_begin y \<or> e_end y \<le> e_begin x"

definition table_inv :: "table \<Rightarrow> bool" where
  "table_inv v \<longleftrightarrow> (\<forall>x \<in> set v. e_begin x < e_end x) \<and> sorted_wrt disj_entry v"

fun route_of :: "table \<Rightarrow> u64 \<Rightarrow> u32 option" where
  "route_of [] k = None"
| "route_of (x # xs) k = (if in_entry k x then Some (worker_index x) else route_of xs k)"

definition override_interval :: "(u64 \<Rightarrow> u32 option) \<Rightarrow> u64 \<Rightarrow> u64 \<Rightarrow> u32 option \<Rightarrow> u64 \<Rightarrow> u32 option" where
  "override_interval m b e w k = (if b \<le> k \<and> k < e then w else m k)"

text \<open>Histories of calls by the main thread, and the two-map machine that specifies them.\<close>

datatype route_op = RBindSingle u64 u32 | RBind u64 u64 u32 | RUnbind u64 | RFreeze

fun apply_route_op :: "lf_route_table \<Rightarrow> route_op \<Rightarrow> lf_route_table" where
  "apply_route_op t (RBindSingle k w) = BindSingle k w t"
| "apply_route_op t (RBind b e w) = Bind b e w t"
| "apply_route_op t (RUnbind k) = Unbind k t"
| "apply_route_op t RFreeze = Freeze t"

type_synonym route_spec_state = "(u64 \<Rightarrow> u32 option) \<times> (u64 \<Rightarrow> u32 option)"

fun route_spec_op :: "route_spec_state \<Rightarrow> route_op \<Rightarrow> route_spec_state" where
  "route_spec_op (m, p) (RBindSingle k w) = (override_interval m k (k + 1) (Some w), p)"
| "route_spec_op (m, p) (RBind b e w) = (override_interval m b e (Some w), p)"
| "route_spec_op (m, p) (RUnbind k) = (m(k := None), p)"
| "route_spec_op (m, p) RFreeze = (m, m)"

section \<open>Library lemmas\<close>

text \<open>The invariant does not depend on the order of the entries.\<close>

lemma disj_entry_sym: "disj_entry x y = disj_entry y x"
  by (auto simp: disj_entry_def)

lemma disj_entry_irrefl: "e_begin x < e_end x \<Longrightarrow> \<not> disj_entry x x"
  by (simp add: disj_entry_def not_le)

lemma table_inv_Nil [simp]: "table_inv []"
  by (simp add: table_inv_def)

lemma table_inv_Cons:
  "table_inv (x # v) \<longleftrightarrow> e_begin x < e_end x \<and> (\<forall>y \<in> set v. disj_entry x y) \<and> table_inv v"
  by (auto simp: table_inv_def)

lemma table_inv_append:
  "table_inv (u @ v) \<longleftrightarrow> table_inv u \<and> table_inv v \<and> (\<forall>x \<in> set u. \<forall>y \<in> set v. disj_entry x y)"
  by (auto simp: table_inv_def sorted_wrt_append)

lemma table_inv_iff:
  "table_inv v \<longleftrightarrow> (\<forall>x \<in> set v. e_begin x < e_end x) \<and> distinct v \<and>
     (\<forall>x \<in> set v. \<forall>y \<in> set v. x \<noteq> y \<longrightarrow> disj_entry x y)"
proof (induction v)
  case Nil
  then show ?case by simp
next
  case (Cons x v)
  show ?case
    unfolding table_inv_Cons Cons.IH
    by (auto simp: disj_entry_sym dest: disj_entry_irrefl)
qed

lemma table_inv_perm:
  assumes "mset u = mset v"
  shows "table_inv u = table_inv v"
  using mset_eq_setD [OF assms] mset_eq_imp_distinct_iff [OF assms]
  unfolding table_inv_iff by simp

lemma in_disj_entry: "disj_entry x y \<Longrightarrow> in_entry k x \<Longrightarrow> \<not> in_entry k y"
  by (auto simp: disj_entry_def in_entry_def)

lemma route_of_None: "route_of v k = None \<longleftrightarrow> (\<forall>x \<in> set v. \<not> in_entry k x)"
  by (induction v) auto

lemma route_of_Some:
  "table_inv v \<Longrightarrow> route_of v k = Some w \<longleftrightarrow> (\<exists>x \<in> set v. in_entry k x \<and> worker_index x = w)"
  by (induction v) (auto simp: table_inv_Cons dest: in_disj_entry)

lemma route_of_perm:
  assumes "table_inv v" and "mset u = mset v"
  shows "route_of u = route_of v"
proof
  fix k
  have "table_inv u" and "set u = set v"
    using assms table_inv_perm [of u v] mset_eq_setD [of u v] by simp_all
  then have "route_of u k = Some w \<longleftrightarrow> route_of v k = Some w" for w
    using assms(1) by (simp add: route_of_Some)
  then show "route_of u k = route_of v k"
    by (metis not_Some_eq)
qed

lemma route_of_append:
  "route_of (u @ v) k = (case route_of u k of None \<Rightarrow> route_of v k | Some w \<Rightarrow> Some w)"
  by (induction u) auto

subsection \<open>Bind\<close>

definition within :: "entry \<Rightarrow> entry \<Rightarrow> bool" where
  "within y x \<longleftrightarrow> e_begin x \<le> e_begin y \<and> e_end y \<le> e_end x \<and> worker_index y = worker_index x"

lemma disj_within: "disj_entry x z \<Longrightarrow> within y x \<Longrightarrow> disj_entry y z"
  by (auto simp: disj_entry_def within_def)

lemma within_refl [simp]: "within x x"
  by (simp add: within_def)

lemma within_pieces [simp]:
  "b \<le> e_end x \<Longrightarrow> within (x\<lparr>e_end := b\<rparr>) x"
  "e_begin x \<le> e \<Longrightarrow> within (x\<lparr>e_begin := e\<rparr>) x"
  "e_begin x \<le> e \<Longrightarrow> within \<lparr>e_begin = e, e_end = e_end x, worker_index = worker_index x\<rparr> x"
  by (simp_all add: within_def)

lemma disj_pieces:
  "b \<le> e \<Longrightarrow> disj_entry (x\<lparr>e_end := b\<rparr>) \<lparr>e_begin = e, e_end = c, worker_index = w\<rparr>"
  by (simp add: disj_entry_def)

lemma bind_scan_within:
  "b < e \<Longrightarrow> bind_scan b e v = (r, v') \<Longrightarrow> y \<in> set v' \<Longrightarrow> \<exists>x \<in> set v. within y x"
proof (induction v arbitrary: r v')
  case Nil
  then show ?case by simp
next
  case (Cons x xs)
  obtain s ys where sc: "bind_scan b e xs = (s, ys)" by fastforce
  have IH: "y \<in> set ys \<Longrightarrow> \<exists>x \<in> set xs. within y x"
    using Cons.IH [OF Cons.prems(1) sc] .
  from Cons.prems sc IH show ?case
    by (auto simp: Let_def within_def split: if_splits)
qed

lemma bind_scan_inv:
  "b < e \<Longrightarrow> bind_scan b e v = (r, v') \<Longrightarrow> table_inv v \<Longrightarrow> table_inv v'"
proof (induction v arbitrary: r v')
  case Nil
  then show ?case by simp
next
  case (Cons x xs)
  obtain s ys where sc: "bind_scan b e xs = (s, ys)" by fastforce
  have ys: "table_inv ys"
    using Cons.IH [OF Cons.prems(1) sc] Cons.prems(3) by (simp add: table_inv_Cons)
  have sep: "disj_entry z y" if z: "within z x" and y: "y \<in> set ys" for z y
  proof -
    obtain u where "u \<in> set xs" "within y u"
      using bind_scan_within [OF Cons.prems(1) sc y] by blast
    with Cons.prems(3) z show ?thesis
      by (metis disj_entry_sym disj_within table_inv_Cons)
  qed
  have sep': "disj_entry z y" if "within z x" "y \<in> set xs" for z y
    using Cons.prems(3) that disj_within by (auto simp: table_inv_Cons)
  from Cons.prems ys sep sep' sc show ?case
    by (auto simp: table_inv_Cons Let_def not_le disj_pieces less_imp_le split: if_splits)
qed

lemma bind_scan_outside:
  "b < e \<Longrightarrow> bind_scan b e v = (r, v') \<Longrightarrow> \<not> (b \<le> k \<and> k < e) \<Longrightarrow> route_of v' k = route_of v k"
proof (induction v arbitrary: r v')
  case Nil
  then show ?case by simp
next
  case (Cons x xs)
  obtain s ys where sc: "bind_scan b e xs = (s, ys)" by fastforce
  have "route_of ys k = route_of xs k"
    using Cons.IH [OF Cons.prems(1) sc Cons.prems(3)] .
  with Cons.prems sc show ?case
    by (auto simp: in_entry_def Let_def not_le not_less split: if_splits)
qed

lemma bind_scan_clear:
  "b < e \<Longrightarrow> bind_scan b e v = (False, v') \<Longrightarrow> x \<in> set v' \<Longrightarrow> e_end x \<le> b \<or> e_begin x \<ge> e"
proof (induction v arbitrary: v')
  case Nil
  then show ?case by simp
next
  case (Cons y ys)
  obtain s zs where sc: "bind_scan b e ys = (s, zs)" by fastforce
  from Cons sc show ?case
    by (auto simp: Let_def split: if_splits)
qed

lemma bind_loop_correct:
  "b < e \<Longrightarrow> table_inv v \<Longrightarrow>
   table_inv (bind_loop b e v) \<and>
   (\<forall>x \<in> set (bind_loop b e v). e_end x \<le> b \<or> e_begin x \<ge> e) \<and>
   (\<forall>k. \<not> (b \<le> k \<and> k < e) \<longrightarrow> route_of (bind_loop b e v) k = route_of v k)"
proof (induction b e v rule: bind_loop.induct)
  case (1 b e v)
  obtain r v' where sc: "bind_scan b e v = (r, v')" by fastforce
  have v': "table_inv v'" "\<And>k. \<not> (b \<le> k \<and> k < e) \<Longrightarrow> route_of v' k = route_of v k"
    using bind_scan_inv bind_scan_outside 1 sc by blast+
  show ?case
  proof (cases r)
    case True
    with 1 sc v' show ?thesis
      by (auto simp: bind_loop.simps [of b e v])
  next
    case False
    with 1 sc v' bind_scan_clear [of b e v v'] show ?thesis
      by (auto simp: bind_loop.simps [of b e v])
  qed
qed

lemma Bind_correct:
  assumes "table_inv (pending t)"
  shows "table_inv (pending (Bind b e w t))"
    and "route_of (pending (Bind b e w t)) = override_interval (route_of (pending t)) b e (Some w)"
proof -
  show "table_inv (pending (Bind b e w t))"
    using assms bind_loop_correct [of b e "pending t"]
    by (auto simp: Bind_def table_inv_append table_inv_Cons disj_entry_def)
  show "route_of (pending (Bind b e w t)) = override_interval (route_of (pending t)) b e (Some w)"
  proof
    fix k
    have "route_of (bind_loop b e (pending t)) k = None" if "b < e" "b \<le> k" "k < e"
      using bind_loop_correct [OF that(1) assms] that
      by (force simp: route_of_None in_entry_def)
    then show "route_of (pending (Bind b e w t)) k =
        override_interval (route_of (pending t)) b e (Some w) k"
      using bind_loop_correct [of b e "pending t"] assms
      by (auto simp: Bind_def override_interval_def route_of_append in_entry_def split: option.split)
  qed
qed

subsection \<open>Unbind\<close>

lemma less_inc: "(k::u64) < m \<Longrightarrow> k < k + 1 \<and> k + 1 \<le> m"
  by uint_arith

lemma inc_le_iff: "(k::u64) < m \<Longrightarrow> k + 1 \<le> j \<longleftrightarrow> k < j"
  using less_inc [of k m] less_inc [of k j] by auto

lemma unbind_scan_within: "y \<in> set (unbind_scan k v) \<Longrightarrow> \<exists>x \<in> set v. within y x"
proof (induction v)
  case Nil
  then show ?case by simp
next
  case (Cons x xs)
  then show ?case
    using less_inc [of k "e_end x"]
    by (auto simp: within_def split: if_splits) (fastforce+)?
qed

lemma unbind_scan_inv: "table_inv v \<Longrightarrow> table_inv (unbind_scan k v)"
proof (induction v)
  case Nil
  then show ?case by simp
next
  case (Cons x xs)
  have sep: "disj_entry z y" if "within z x" "y \<in> set xs" for z y
    using Cons.prems that disj_within by (auto simp: table_inv_Cons)
  have sep': "disj_entry x y" if y: "y \<in> set (unbind_scan k xs)" for y
  proof -
    obtain u where "u \<in> set xs" "within y u"
      using unbind_scan_within [OF y] by blast
    with Cons.prems show ?thesis
      by (metis disj_entry_sym disj_within table_inv_Cons)
  qed
  show ?case
  proof (cases "in_entry k x")
    case True
    then have k: "e_begin x \<le> k" "k < e_end x" "k < k + 1" "k + 1 \<le> e_end x"
      using less_inc [of k "e_end x"] by (auto simp: in_entry_def)
    then have "k + 1 \<noteq> e_end x \<Longrightarrow> k + 1 < e_end x" "e_begin x \<noteq> k \<Longrightarrow> e_begin x < k"
      by auto
    with k Cons.prems sep show ?thesis
      by (auto simp: table_inv_Cons disj_pieces less_imp_le)
  next
    case False
    with Cons sep' show ?thesis
      by (auto simp: table_inv_Cons in_entry_def)
  qed
qed

lemma unbind_scan_route: "table_inv v \<Longrightarrow> route_of (unbind_scan k v) = (route_of v)(k := None)"
proof (induction v)
  case Nil
  then show ?case by (simp add: fun_eq_iff)
next
  case (Cons x xs)
  show ?case
  proof (cases "in_entry k x")
    case True
    then have k: "e_begin x \<le> k" "k < e_end x"
      by (auto simp: in_entry_def)
    have none: "route_of xs k = None"
      using Cons.prems True by (auto simp: table_inv_Cons route_of_None dest: in_disj_entry)
    show ?thesis
    proof
      fix j
      have "k + 1 \<le> j \<longleftrightarrow> k < j"
        by (rule inc_le_iff [OF k(2)])
      moreover from this have "j < k + 1 \<longleftrightarrow> j \<le> k"
        by (metis not_le)
      ultimately have j: "k + 1 \<le> j \<longleftrightarrow> k < j" "j < k + 1 \<longleftrightarrow> j \<le> k"
        by blast+
      have in_pieces: "in_entry j (x\<lparr>e_end := k\<rparr>) \<longleftrightarrow> e_begin x \<le> j \<and> j < k"
        "in_entry j (x\<lparr>e_begin := k + 1\<rparr>) \<longleftrightarrow> k < j \<and> j < e_end x"
        "in_entry j \<lparr>e_begin = k + 1, e_end = e_end x, worker_index = worker_index x\<rparr> \<longleftrightarrow> k < j \<and> j < e_end x"
        using j by (simp_all add: in_entry_def)
      have sub: "in_entry j x \<longleftrightarrow> e_begin x \<le> j \<and> j < k \<or> j = k \<or> k < j \<and> j < e_end x"
        using k by (auto simp: in_entry_def)
      show "route_of (unbind_scan k (x # xs)) j = ((route_of (x # xs))(k := None)) j"
      proof (cases "j = k")
        case True
        with k none in_pieces show ?thesis by simp
      next
        case False
        have "e_end x = k + 1 \<Longrightarrow> \<not> (k < j \<and> j < e_end x)" "e_begin x = k \<Longrightarrow> \<not> (e_begin x \<le> j \<and> j < k)"
          using j by auto
        with False k in_pieces sub show ?thesis
          by (cases "e_begin x = k"; cases "e_end x = k + 1") auto
      qed
    qed
  next
    case False
    with Cons show ?thesis
      by (auto simp: table_inv_Cons in_entry_def fun_eq_iff)
  qed
qed

subsection \<open>Freeze\<close>

lemma sorted_table_separated:
  "table_inv v \<Longrightarrow> sorted (map e_begin v) \<Longrightarrow> sorted_wrt (\<lambda>x y. e_end x \<le> e_begin y) v"
proof (induction v)
  case Nil
  then show ?case by simp
next
  case (Cons x v)
  then show ?case
    by (fastforce simp: table_inv_Cons disj_entry_def table_inv_def)
qed

lemma freeze_push_id:
  "sorted_wrt (\<lambda>x y. e_end x \<le> e_begin y) (u @ v) \<Longrightarrow> foldl freeze_push u v = u @ v"
proof (induction v arbitrary: u)
  case Nil
  then show ?case by simp
next
  case (Cons x v)
  have "u \<noteq> [] \<Longrightarrow> e_end (last u) \<le> e_begin x"
    using Cons.prems by (simp add: sorted_wrt_append)
  then have "freeze_push u x = u @ [x]"
    by (auto simp: freeze_push_def not_less)
  with Cons show ?case by simp
qed

lemma Freeze_eq:
  assumes "table_inv (pending t)"
  shows "Freeze t = \<lparr>pending = sort_key e_begin (pending t),
           current = Some (sort_key e_begin (pending t)), retired = current t\<rparr>"
proof -
  have "table_inv (sort_key e_begin (pending t))"
    using assms table_inv_perm mset_sort by metis
  then have "sorted_wrt (\<lambda>x y. e_end x \<le> e_begin y) (sort_key e_begin (pending t))"
    by (intro sorted_table_separated) simp_all
  then show ?thesis
    using freeze_push_id [of "[]"] by (simp add: Freeze_def Let_def)
qed

subsection \<open>Lookup\<close>

lemma upper_bound_loop_correct:
  "sorted (map e_begin tab) \<Longrightarrow> first + len \<le> length tab \<Longrightarrow>
   (\<forall>i < first. e_begin (tab ! i) \<le> k) \<Longrightarrow>
   (\<forall>i < length tab. first + len \<le> i \<longrightarrow> k < e_begin (tab ! i)) \<Longrightarrow>
   upper_bound_loop k tab first len \<le> length tab \<and>
   (\<forall>i < upper_bound_loop k tab first len. e_begin (tab ! i) \<le> k) \<and>
   (\<forall>i < length tab. upper_bound_loop k tab first len \<le> i \<longrightarrow> k < e_begin (tab ! i))"
proof (induction k tab first len rule: upper_bound_loop.induct)
  case (1 k tab first len)
  show ?case
  proof (cases "len = 0")
    case True
    with "1.prems" show ?thesis by (simp add: upper_bound_loop.simps [of k tab first 0])
  next
    case False
    define mid where "mid = first + len div 2"
    have mid: "first \<le> mid" "mid < length tab" "mid < first + len"
      using False "1.prems"(2) by (auto simp: mid_def)
    have mono: "e_begin (tab ! i) \<le> e_begin (tab ! j)" if "i \<le> j" "j < length tab" for i j
      using sorted_nth_mono [OF "1.prems"(1), of i j] that by simp
    show ?thesis
    proof (cases "k < e_begin (tab ! mid)")
      case True
      have hi: "\<forall>i < length tab. first + len div 2 \<le> i \<longrightarrow> k < e_begin (tab ! i)"
        using True mono less_le_trans unfolding mid_def by blast
      have eq: "upper_bound_loop k tab first len = upper_bound_loop k tab first (len div 2)"
        using False True by (simp add: upper_bound_loop.simps [of k tab first len] mid_def)
      show ?thesis
        unfolding eq
        by (rule "1.IH"(1) [OF False refl refl]) (use "1.prems" True hi in \<open>auto simp: mid_def\<close>)
    next
      case F: False
      have lo: "e_begin (tab ! i) \<le> k" if "i < first + len div 2 + 1" for i
        using F mono [of i mid] mid(2) that by (simp add: mid_def)
      have eq: "upper_bound_loop k tab first len =
          upper_bound_loop k tab (first + len div 2 + 1) (len - len div 2 - 1)"
        using False F by (simp add: upper_bound_loop.simps [of k tab first len] mid_def Let_def)
      show ?thesis
        unfolding eq
        by (rule "1.IH"(2) [OF False refl refl]) (use "1.prems" F lo mid in \<open>auto simp: mid_def\<close>)
    qed
  qed
qed

lemma upper_bound_correct:
  assumes "sorted (map e_begin tab)"
  shows "upper_bound k tab \<le> length tab"
    and "i < upper_bound k tab \<Longrightarrow> e_begin (tab ! i) \<le> k"
    and "i < length tab \<Longrightarrow> upper_bound k tab \<le> i \<Longrightarrow> k < e_begin (tab ! i)"
  using upper_bound_loop_correct [OF assms, of 0 "length tab" k]
  by (auto simp: upper_bound_def)

text \<open>The entry just before the upper bound is the only one that can hold the id.\<close>

lemma route_of_sorted:
  assumes inv: "table_inv tab" and srt: "sorted (map e_begin tab)"
  shows "route_of tab k =
    (let it = upper_bound k tab
     in if it = 0 then None
        else if in_entry k (tab ! (it - 1)) then Some (worker_index (tab ! (it - 1))) else None)"
proof -
  define it where "it = upper_bound k tab"
  have sep: "e_end (tab ! i) \<le> e_begin (tab ! j)" if "i < j" "j < length tab" for i j
    using sorted_table_separated [OF inv srt] that by (simp add: sorted_wrt_iff_nth_less)
  have only: "i = it - 1 \<and> it \<noteq> 0" if i: "i < length tab" and k: "in_entry k (tab ! i)" for i
  proof -
    have "i < it"
      using upper_bound_correct(3) [OF srt i, of k] k unfolding it_def in_entry_def
      by (meson leD leI)
    moreover have "e_begin (tab ! (it - 1)) \<le> k" if "it \<noteq> 0"
      using upper_bound_correct(2) [OF srt, of "it - 1" k] that by (simp add: it_def)
    moreover have "it \<le> length tab"
      unfolding it_def by (rule upper_bound_correct(1) [OF srt])
    ultimately have it: "i < it" "it \<noteq> 0" "it \<le> length tab" "e_begin (tab ! (it - 1)) \<le> k"
      by auto
    have "\<not> i < it - 1"
    proof
      assume "i < it - 1"
      then have "e_end (tab ! i) \<le> e_begin (tab ! (it - 1))"
        using sep it by simp
      with it(4) k show False
        by (auto simp: in_entry_def)
    qed
    with it show ?thesis by simp
  qed
  show ?thesis
  proof (cases "it = 0 \<or> \<not> in_entry k (tab ! (it - 1))")
    case True
    then have "\<forall>x \<in> set tab. \<not> in_entry k x"
      using only by (metis in_set_conv_nth)
    then have "route_of tab k = None"
      by (simp add: route_of_None)
    with True show ?thesis
      by (auto simp: it_def Let_def)
  next
    case False
    then have "tab ! (it - 1) \<in> set tab"
      using upper_bound_correct(1) [OF srt, of k] by (intro nth_mem) (auto simp: it_def)
    with False inv have "route_of tab k = Some (worker_index (tab ! (it - 1)))"
      by (auto simp: route_of_Some)
    with False show ?thesis
      by (simp add: it_def Let_def)
  qed
qed

definition published :: "lf_route_table \<Rightarrow> u64 \<Rightarrow> u32 option" where
  "published t = (case current t of None \<Rightarrow> Map.empty | Some tab \<Rightarrow> route_of tab)"

definition rt_inv :: "lf_route_table \<Rightarrow> bool" where
  "rt_inv t \<longleftrightarrow> table_inv (pending t) \<and>
     (\<forall>tab. current t = Some tab \<longrightarrow> table_inv tab \<and> sorted (map e_begin tab))"

lemma Lookup_published:
  assumes "rt_inv t"
  shows "Lookup k t = (case published t k of None \<Rightarrow> kInvalidWorker | Some w \<Rightarrow> w)"
proof (cases "current t")
  case None
  then show ?thesis by (simp add: Lookup_def published_def)
next
  case (Some tab)
  with assms have "table_inv tab" "sorted (map e_begin tab)"
    by (auto simp: rt_inv_def)
  note r = route_of_sorted [OF this, of k]
  show ?thesis
  proof (cases "tab = []")
    case True
    with Some show ?thesis by (simp add: Lookup_def published_def)
  next
    case False
    then show ?thesis
      unfolding Lookup_def published_def Some option.case r
      by (simp add: Let_def in_entry_def)
  qed
qed

section \<open>The interface the router relies on\<close>

text \<open>
  An entity route store keeps a working map and a published map: bindings change the working
  map only, a freeze publishes it, a lookup reads the published one.
\<close>

locale entity_route_store =
  fixes bind :: "u64 \<Rightarrow> u64 \<Rightarrow> u32 \<Rightarrow> 't \<Rightarrow> 't"
    and unbind :: "u64 \<Rightarrow> 't \<Rightarrow> 't"
    and publish :: "'t \<Rightarrow> 't"
    and lookup :: "u64 \<Rightarrow> 't \<Rightarrow> u32"
    and working :: "'t \<Rightarrow> u64 \<Rightarrow> u32 option"
    and visible :: "'t \<Rightarrow> u64 \<Rightarrow> u32 option"
    and invar :: "'t \<Rightarrow> bool"
  assumes invar_bind: "invar t \<Longrightarrow> invar (bind b e w t)"
    and invar_unbind: "invar t \<Longrightarrow> invar (unbind k t)"
    and invar_publish: "invar t \<Longrightarrow> invar (publish t)"
    and working_bind: "invar t \<Longrightarrow> working (bind b e w t) = override_interval (working t) b e (Some w)"
    and working_unbind: "invar t \<Longrightarrow> working (unbind k t) = (working t)(k := None)"
    and working_publish: "invar t \<Longrightarrow> working (publish t) = working t"
    and visible_bind: "invar t \<Longrightarrow> visible (bind b e w t) = visible t"
    and visible_unbind: "invar t \<Longrightarrow> visible (unbind k t) = visible t"
    and visible_publish: "invar t \<Longrightarrow> visible (publish t) = working t"
    and lookup_visible: "invar t \<Longrightarrow>
          lookup k t = (case visible t k of None \<Rightarrow> kInvalidWorker | Some w \<Rightarrow> w)"
begin

text \<open>A binding is seen by readers exactly from the next freeze on.\<close>

lemma bind_not_visible: "invar t \<Longrightarrow> lookup k (bind b e w t) = lookup k t"
  by (simp add: lookup_visible invar_bind visible_bind)

lemma bind_then_publish:
  "invar t \<Longrightarrow> lookup k (publish (bind b e w t)) =
     (if b \<le> k \<and> k < e then w
      else case working t k of None \<Rightarrow> kInvalidWorker | Some v \<Rightarrow> v)"
  by (simp add: lookup_visible invar_bind invar_publish visible_publish working_bind
      override_interval_def)

lemma unbind_then_publish:
  "invar t \<Longrightarrow> lookup k (publish (unbind j t)) =
     (if k = j then kInvalidWorker
      else case working t k of None \<Rightarrow> kInvalidWorker | Some v \<Rightarrow> v)"
  by (simp add: lookup_visible invar_unbind invar_publish visible_publish working_unbind)

lemma publish_twice: "invar t \<Longrightarrow> lookup k (publish (publish t)) = lookup k (publish t)"
  by (simp add: lookup_visible invar_publish visible_publish working_publish)

end

interpretation lf: entity_route_store Bind Unbind Freeze Lookup
  "\<lambda>t. route_of (pending t)" published rt_inv
proof unfold_locales
  fix t b e w k
  assume inv: "rt_inv t"
  then have p: "table_inv (pending t)"
    by (simp add: rt_inv_def)
  have perm: "mset (sort_key e_begin (pending t)) = mset (pending t)"
    by simp
  show "rt_inv (Bind b e w t)"
    using inv Bind_correct(1) [OF p] by (auto simp: rt_inv_def Bind_def)
  show "rt_inv (Unbind k t)"
    using inv unbind_scan_inv [OF p] by (simp add: rt_inv_def Unbind_def)
  show "rt_inv (Freeze t)"
    using p table_inv_perm [OF perm] by (simp add: rt_inv_def Freeze_eq)
  show "route_of (pending (Bind b e w t)) = override_interval (route_of (pending t)) b e (Some w)"
    by (rule Bind_correct(2) [OF p])
  show "route_of (pending (Unbind k t)) = (route_of (pending t))(k := None)"
    using unbind_scan_route [OF p] by (simp add: Unbind_def)
  show "route_of (pending (Freeze t)) = route_of (pending t)"
    using route_of_perm [OF p perm] p by (simp add: Freeze_eq)
  show "published (Bind b e w t) = published t"
    by (simp add: published_def Bind_def)
  show "published (Unbind k t) = published t"
    by (simp add: published_def Unbind_def)
  show "published (Freeze t) = route_of (pending t)"
    using route_of_perm [OF p perm] p by (simp add: published_def Freeze_eq)
  show "Lookup k t = (case published t k of None \<Rightarrow> kInvalidWorker | Some w \<Rightarrow> w)"
    by (rule Lookup_published [OF inv])
qed

lemma rt_inv_new [simp]: "rt_inv LockFreeRouteTable"
  by (simp add: rt_inv_def LockFreeRouteTable_def)

lemma apply_route_op_refines:
  "rt_inv t \<Longrightarrow> rt_inv (apply_route_op t op) \<and>
   (route_of (pending (apply_route_op t op)), published (apply_route_op t op)) =
     route_spec_op (route_of (pending t), published t) op"
  by (cases op)
     (simp_all add: BindSingle_def lf.invar_bind lf.invar_unbind lf.invar_publish lf.working_bind
       lf.working_unbind lf.working_publish lf.visible_bind lf.visible_unbind lf.visible_publish)

lemma route_history_refines:
  "rt_inv t \<Longrightarrow> rt_inv (foldl apply_route_op t ops) \<and>
   (route_of (pending (foldl apply_route_op t ops)), published (foldl apply_route_op t ops)) =
     foldl route_spec_op (route_of (pending t), published t) ops"
proof (induction ops arbitrary: t)
  case Nil
  then show ?case by simp
next
  case (Cons op ops)
  from apply_route_op_refines [OF Cons.prems, of op] Cons.IH [of "apply_route_op t op"]
  show ?case by simp
qed

lemma route_new_maps:
  "route_of (pending LockFreeRouteTable) = Map.empty" "published LockFreeRouteTable = Map.empty"
  by (simp_all add: LockFreeRouteTable_def published_def fun_eq_iff)

lemma single_interval:
  "k \<le> j \<and> j < k + 1 \<longleftrightarrow> j = k \<and> k \<noteq> (0xFFFFFFFFFFFFFFFF :: u64)"
proof (cases "k = 0xFFFFFFFFFFFFFFFF")
  case True
  then have "k = - 1" by simp
  then show ?thesis by simp
next
  case False
  have "(0xFFFFFFFFFFFFFFFF :: u64) = - 1" by simp
  with False have "k < - 1"
    using word_order.not_eq_extremum [of k] by metis
  from inc_le_iff [OF this, of j] show ?thesis
    using False by auto
qed

section \<open>Properties\<close>

text \<open>
  C33. The lock-free route table implements its contract: after any history of BindSingle, Bind,
  Unbind and Freeze calls on a new table, a Lookup of any entity id returns what the two-map
  specification gives - the worker of the latest binding that covers the id at the time of the
  last Freeze, or kInvalidWorker when there is none. Bindings not yet frozen stay invisible.
\<close>

theorem route_table_refines_map:
  "Lookup k (foldl apply_route_op LockFreeRouteTable ops) =
     (case snd (foldl route_spec_op (Map.empty, Map.empty) ops) k of
        None \<Rightarrow> kInvalidWorker | Some w \<Rightarrow> w)"
proof -
  let ?t = "foldl apply_route_op LockFreeRouteTable ops"
  have "rt_inv ?t"
    and "published ?t = snd (foldl route_spec_op (Map.empty, Map.empty) ops)"
    using route_history_refines [OF rt_inv_new, of ops] by (auto simp: route_new_maps prod_eq_iff)
  then show ?thesis
    using lf.lookup_visible by simp
qed

text \<open>
  The intervals of the write buffer stay non-empty and pairwise disjoint whatever the history,
  and the published snapshot is moreover sorted by its lower bounds - so the defensive merge of
  Freeze never changes an entry.
\<close>

theorem route_table_disjoint:
  "rt_inv (foldl apply_route_op LockFreeRouteTable ops) \<and>
   current (Freeze (foldl apply_route_op LockFreeRouteTable ops)) =
     Some (sort_key e_begin (pending (foldl apply_route_op LockFreeRouteTable ops)))"
proof -
  have inv: "rt_inv (foldl apply_route_op LockFreeRouteTable ops)"
    using route_history_refines [OF rt_inv_new] by blast
  then show ?thesis
    by (simp add: Freeze_eq rt_inv_def)
qed

text \<open>
  On a sorted snapshot the halving search returns the number of entries whose lower bound is at
  most the id, as a linear scan would.
\<close>

theorem upper_bound_linear:
  assumes "sorted (map e_begin tab)"
  shows "upper_bound k tab = length (takeWhile (\<lambda>x. e_begin x \<le> k) tab)"
proof -
  have "takeWhile (\<lambda>x. e_begin x \<le> k) tab = take (upper_bound k tab) tab"
    using upper_bound_correct(2,3) [OF assms]
    by (intro takeWhile_eq_take_P_nth) (auto simp: not_le)
  then show ?thesis
    using upper_bound_correct(1) [OF assms, of k] by simp
qed

theorem upper_bound_linear_witness:
  "upper_bound 7 [\<lparr>e_begin = 1, e_end = 5, worker_index = 1\<rparr>,
                  \<lparr>e_begin = 5, e_end = 9, worker_index = 2\<rparr>] = 2"
proof -
  have "sorted (map e_begin [\<lparr>e_begin = 1, e_end = 5, worker_index = 1\<rparr>,
                  \<lparr>e_begin = 5, e_end = 9, worker_index = 2\<rparr>])"
    by simp
  from upper_bound_linear [OF this, of 7] show ?thesis by simp
qed

text \<open>
  C40. BindSingle followed by Freeze makes exactly the given id route to the given worker and leaves
  every other id alone - except at the largest id, where the exclusive upper bound wraps to 0, Bind
  takes its empty-interval exit and nothing is bound.
\<close>

theorem bind_single_correct:
  assumes "rt_inv t"
  shows "Lookup j (Freeze (BindSingle k w t)) =
    (if j = k \<and> k \<noteq> 0xFFFFFFFFFFFFFFFF then w else Lookup j (Freeze t))"
  using assms lf.lookup_visible [OF lf.invar_publish [OF assms], of j]
  by (simp add: BindSingle_def lf.bind_then_publish single_interval lf.visible_publish)

theorem bind_single_correct_witness:
  "Lookup 7 (Freeze (BindSingle 7 3 LockFreeRouteTable)) = 3 \<and>
   Lookup 0xFFFFFFFFFFFFFFFF (Freeze (BindSingle 0xFFFFFFFFFFFFFFFF 3 LockFreeRouteTable)) = kInvalidWorker"
  using bind_single_correct [OF rt_inv_new, of 7 7 3]
    bind_single_correct [OF rt_inv_new, of "0xFFFFFFFFFFFFFFFF" "0xFFFFFFFFFFFFFFFF" 3]
  by (simp add: Freeze_def Lookup_def LockFreeRouteTable_def)

end
