(* ===== verification/Byte_Order.thy ===== *)
theory Byte_Order
  imports Gb_Prelude
begin

unbundle bit_operations_syntax

text \<open>
  Fixed-width integers as bytes: the big-endian shift loops of the serialiser, the little-endian memory
  layout of packed structs, and that each is the inverse of reading it back.
\<close>

section \<open>Definitions\<close>

text \<open>The loop \<^verbatim>\<open>for (i = n; i > 0; --i) emplace_back(uint8_t(v >> (8 * (i - 1)) & 0xff))\<close>.\<close>

fun be_bytes :: "nat \<Rightarrow> 'a::len word \<Rightarrow> byte list" where
  "be_bytes 0 v = []"
| "be_bytes (Suc i) v = ucast (drop_bit (8 * i) v AND 0xff) # be_bytes i v"

text \<open>The bytes of a value in memory order (little-endian).\<close>

definition le_bytes :: "nat \<Rightarrow> 'a::len word \<Rightarrow> byte list" where
  "le_bytes n v = rev (be_bytes n v)"

definition le_word :: "byte list \<Rightarrow> u64" where
  "le_word bs = foldr (\<lambda>b w. push_bit 8 w OR ucast b) bs 0"

section \<open>Values of byte strings\<close>

fun be_val :: "byte list \<Rightarrow> nat" where
  "be_val [] = 0"
| "be_val (b # bs) = unat b * 256 ^ length bs + be_val bs"

lemma shift_in_byte: "push_bit 8 w OR ucast (b :: byte) = (w :: u64) * 256 + ucast b"
proof -
  have "push_bit 8 w AND (ucast b :: u64) = 0"
    by (rule bit_word_eqI) (auto simp: bit_simps dest: bit_imp_le_length)
  then have "push_bit 8 w OR (ucast b :: u64) = push_bit 8 w + ucast b"
    by (rule disjunctive_add_eq_or [symmetric])
  then show ?thesis by (simp add: push_bit_eq_mult mult.commute)
qed

lemma length_be_bytes [simp]: "length (be_bytes n v) = n"
  by (induction n) auto

lemma unat_be_byte: "unat (ucast (drop_bit (8 * i) (v :: 'a::len word) AND 0xff) :: byte) = unat v div 256 ^ i mod 256"
proof -
  have m: "(0xff :: 'a word) = mask 8"
    by (simp add: mask_eq_exp_minus_1)
  have "(ucast (drop_bit (8 * i) v AND 0xff) :: byte) = ucast (drop_bit (8 * i) v)"
    unfolding m by (intro bit_word_eqI) (auto simp: bit_simps dest: bit_imp_le_length)
  then have "unat (ucast (drop_bit (8 * i) v AND 0xff) :: byte) = take_bit 8 (drop_bit (8 * i) (unat v))"
    by (simp only: unsigned_ucast_eq unat_drop_bit_eq) simp
  then show ?thesis
    by (simp only: drop_bit_eq_div take_bit_eq_mod power_mult) simp
qed

lemma be_val_be_bytes: "be_val (be_bytes n v) = unat v mod 256 ^ n"
proof (induction n)
  case 0
  then show ?case by simp
next
  case (Suc n)
  have "unat v mod 256 ^ Suc n = unat v div 256 ^ n mod 256 * 256 ^ n + unat v mod 256 ^ n"
    using mod_mult2_eq [of "unat v" "256 ^ n" 256] by (simp add: mult.commute)
  with Suc show ?case by (simp add: unat_be_byte)
qed

lemma be_val_append: "be_val (as @ bs) = be_val as * 256 ^ length bs + be_val bs"
  by (induction as) (simp_all add: algebra_simps power_add)

lemma be_val_less: "be_val bs < 256 ^ length bs"
proof (induction bs)
  case (Cons b bs)
  have "unat b < 2 ^ 8" using unsigned_less [of b] by simp
  then have "(unat b + 1) * 256 ^ length bs \<le> 256 * 256 ^ length bs" by (intro mult_right_mono) auto
  then have "unat b * 256 ^ length bs + 256 ^ length bs \<le> 256 * 256 ^ length bs"
    by (simp only: distrib_right mult_1)
  with Cons have "unat b * 256 ^ length bs + be_val bs < 256 * 256 ^ length bs" by linarith
  then show ?case by simp
qed simp

lemma le_word_eq: "le_word bs = of_nat (be_val (rev bs))"
proof (induction bs)
  case Nil
  then show ?case by (simp add: le_word_def)
next
  case (Cons b bs)
  have "le_word (b # bs) = push_bit 8 (le_word bs) OR ucast b"
    by (simp add: le_word_def)
  also have "\<dots> = of_nat (be_val (rev bs)) * 256 + of_nat (unat b)"
    unfolding shift_in_byte Cons by simp
  finally show ?case by (simp add: be_val_append)
qed

lemma length_le_bytes [simp]: "length (le_bytes n v) = n"
  by (simp add: le_bytes_def)

lemma le_word_le_bytes: "le_word (le_bytes n v) = of_nat (unat v mod 256 ^ n)"
  by (simp add: le_word_eq le_bytes_def be_val_be_bytes)

lemma le_word_le_bytes_64 [simp]: "le_word (le_bytes 8 (d :: u64)) = d"
proof -
  have "unat d < 256 ^ 8" using unsigned_less [of d] by simp
  then show ?thesis by (simp add: le_word_le_bytes)
qed

lemma le_word_le_bytes_32 [simp]: "ucast (le_word (le_bytes 4 (d :: u32))) = d"
proof -
  have "unat d < 256 ^ 4" using unsigned_less [of d] by simp
  then have "le_word (le_bytes 4 d) = ucast d" by (simp add: le_word_le_bytes)
  moreover have "ucast (ucast d :: u64) = d" by (rule bit_word_eqI) (simp add: bit_simps)
  ultimately show ?thesis by simp
qed

end
