(* ===== verification/Msgpack.thy ===== *)
theory Msgpack
  imports Byte_Order
begin

unbundle bit_operations_syntax

text \<open>
  The MessagePack serialiser of \<^verbatim>\<open>src/msgpack/msgpack.hpp\<close>: \<^verbatim>\<open>Packer\<close> and \<^verbatim>\<open>Unpacker\<close> for the C++ value
  types. A packer is its output buffer \<^verbatim>\<open>serializedObj_\<close>, and each \<open>pack_*\<close> function is one
  specialisation of \<^verbatim>\<open>pack_type\<close> that appends to it. An unpacker is the bytes from
  \<^verbatim>\<open>dataPointer_\<close> to \<^verbatim>\<open>dataEnd_\<close> with the sticky error code. Integer values are words; the
  overload resolution of the templates is the datatype \<open>cval\<close> (one constructor per packed type)
  and the type descriptor \<open>cty\<close> (one constructor per unpacked type). Undefined behaviour (a
  \<^verbatim>\<open>memcpy\<close> past the end of the data, a write past the end of an array, an out-of-range float
  conversion) and the exception of \<^verbatim>\<open>reserve\<close> are values of \<open>fault\<close>. Floating-point values are
  their IEEE bit patterns. Not modelled here: unpacking into a floating-point target.
\<close>

section \<open>Format bytes\<close>

datatype format_t =
    nil | false_bool | true_bool | bin8 | bin16 | bin32 | ext8 | ext16 | ext32 | float32 | float64
  | uint8 | uint16 | uint32 | uint64 | int8 | int16 | int32 | int64
  | fixext1 | fixext2 | fixext4 | fixext8 | fixext16
  | str8 | str16 | str32 | array16 | array32 | map16 | map32 | table

fun fmt :: "format_t \<Rightarrow> byte" where
  "fmt nil = 0xc0" | "fmt false_bool = 0xc2" | "fmt true_bool = 0xc3"
| "fmt bin8 = 0xc4" | "fmt bin16 = 0xc5" | "fmt bin32 = 0xc6"
| "fmt ext8 = 0xc7" | "fmt ext16 = 0xc8" | "fmt ext32 = 0xc9"
| "fmt float32 = 0xca" | "fmt float64 = 0xcb"
| "fmt uint8 = 0xcc" | "fmt uint16 = 0xcd" | "fmt uint32 = 0xce" | "fmt uint64 = 0xcf"
| "fmt int8 = 0xd0" | "fmt int16 = 0xd1" | "fmt int32 = 0xd2" | "fmt int64 = 0xd3"
| "fmt fixext1 = 0xd4" | "fmt fixext2 = 0xd5" | "fmt fixext4 = 0xd6" | "fmt fixext8 = 0xd7"
| "fmt fixext16 = 0xd8"
| "fmt str8 = 0xd9" | "fmt str16 = 0xda" | "fmt str32 = 0xdb"
| "fmt array16 = 0xdc" | "fmt array32 = 0xdd" | "fmt map16 = 0xde" | "fmt map32 = 0xdf"
| "fmt table = 0xe0"

datatype fault = OobRead | OobWrite | BadCast | BadAlloc

section \<open>Floating-point bit patterns\<close>

text \<open>
  A finite IEEE value with \<open>m\<close> fraction bits and \<open>e\<close> exponent bits is \<open>M * 2 ^ E\<close> with a sign;
  \<open>fp_parts\<close> gives the sign, \<open>M\<close> and \<open>E\<close>, or \<open>None\<close> for an infinity or NaN.
\<close>

definition fp_parts :: "nat \<Rightarrow> nat \<Rightarrow> int \<Rightarrow> (bool \<times> int \<times> int) option" where
  "fp_parts m e bits =
     (let frac = bits mod 2 ^ m;
          ex = (bits div 2 ^ m) mod 2 ^ e;
          neg = (bits div 2 ^ (m + e)) mod 2 = 1
      in if ex = 2 ^ e - 1 then None
         else Some (neg, (if ex = 0 then frac else frac + 2 ^ m),
                    max ex 1 - (2 ^ (e - 1) - 1) - int m))"

text \<open>Conversion to an integer type truncates; \<open>fp_exact\<close> is the value when it is integral.\<close>

definition fp_trunc :: "nat \<Rightarrow> nat \<Rightarrow> int \<Rightarrow> int option" where
  "fp_trunc m e bits =
     (case fp_parts m e bits of
        None \<Rightarrow> None
      | Some (neg, M, E) \<Rightarrow>
          let a = (if E \<ge> 0 then M * 2 ^ nat E else M div 2 ^ nat (- E))
          in Some (if neg then - a else a))"

definition fp_exact :: "nat \<Rightarrow> nat \<Rightarrow> int \<Rightarrow> int option" where
  "fp_exact m e bits =
     (case fp_parts m e bits of
        None \<Rightarrow> None
      | Some (neg, M, E) \<Rightarrow>
          if E \<ge> 0 \<or> 2 ^ nat (- E) dvd M then fp_trunc m e bits else None)"

section \<open>Packer\<close>

definition pack_int8 :: "8 word \<Rightarrow> byte list \<Rightarrow> byte list" where
  "pack_int8 value obj =
     (if sint value \<ge> -32 \<and> sint value \<le> -1 then obj @ [word_of_int (0xe0 + 32 + sint value)]
      else if sint value \<ge> 0 \<and> sint value \<le> 0x7f then obj @ [value]
      else obj @ [fmt int8, value])"

definition pack_int16 :: "16 word \<Rightarrow> byte list \<Rightarrow> byte list" where
  "pack_int16 value obj =
     (if sint value \<le> 127 \<and> sint value \<ge> -128 then pack_int8 (ucast value) obj
      else obj @ [fmt int16] @ be_bytes 2 value)"

definition pack_int32 :: "32 word \<Rightarrow> byte list \<Rightarrow> byte list" where
  "pack_int32 value obj =
     (if sint value \<le> 32767 \<and> sint value \<ge> -32768 then pack_int16 (ucast value) obj
      else obj @ [fmt int32] @ be_bytes 4 value)"

definition pack_int64 :: "64 word \<Rightarrow> byte list \<Rightarrow> byte list" where
  "pack_int64 value obj =
     (if sint value \<le> 2147483647 \<and> sint value \<ge> -2147483648 then pack_int32 (ucast value) obj
      else obj @ [fmt int64] @ be_bytes 8 value)"

definition pack_uint8 :: "8 word \<Rightarrow> byte list \<Rightarrow> byte list" where
  "pack_uint8 value obj = (if value \<le> 0x7f then obj @ [value] else obj @ [fmt uint8, value])"

definition pack_uint16 :: "16 word \<Rightarrow> byte list \<Rightarrow> byte list" where
  "pack_uint16 value obj =
     (if value > 0xff then obj @ [fmt uint16] @ be_bytes 2 value else pack_uint8 (ucast value) obj)"

definition pack_uint32 :: "32 word \<Rightarrow> byte list \<Rightarrow> byte list" where
  "pack_uint32 value obj =
     (if value > 0xffff then obj @ [fmt uint32] @ be_bytes 4 value else pack_uint16 (ucast value) obj)"

definition pack_uint64 :: "64 word \<Rightarrow> byte list \<Rightarrow> byte list" where
  "pack_uint64 value obj =
     (if value > 0xffffffff then obj @ [fmt uint64] @ be_bytes 8 value
      else pack_uint32 (ucast value) obj)"

definition pack_float :: "32 word \<Rightarrow> byte list \<Rightarrow> byte list" where
  "pack_float value obj =
     (case fp_exact 23 8 (uint value) of
        Some i \<Rightarrow> if - (2 ^ 31) \<le> i \<and> i < 2 ^ 31 then pack_int32 (word_of_int i) obj
                  else obj @ [fmt float32] @ le_bytes 4 value
      | None \<Rightarrow> obj @ [fmt float32] @ le_bytes 4 value)"

definition pack_double :: "64 word \<Rightarrow> byte list \<Rightarrow> byte list" where
  "pack_double value obj =
     (case fp_exact 52 11 (uint value) of
        Some i \<Rightarrow> if - (2 ^ 63) \<le> i \<and> i < 2 ^ 63 then pack_int64 (word_of_int i) obj
                  else obj @ [fmt float64] @ le_bytes 8 value
      | None \<Rightarrow> obj @ [fmt float64] @ le_bytes 8 value)"

definition pack_nil :: "byte list \<Rightarrow> byte list" where
  "pack_nil obj = obj @ [fmt nil]"

definition pack_bool :: "bool \<Rightarrow> byte list \<Rightarrow> byte list" where
  "pack_bool value obj = (if value then obj @ [fmt true_bool] else obj @ [fmt false_bool])"

definition size_word :: "nat \<Rightarrow> u64" where
  "size_word n = of_nat n"

definition pack_string :: "byte list \<Rightarrow> byte list \<Rightarrow> byte list" where
  "pack_string str obj =
     (let len = length str
      in if len \<le> 31 then obj @ [ucast (0xa0 OR size_word len)] @ str
         else if len \<le> 0xff then obj @ [fmt str8, ucast (size_word len)] @ str
         else if len \<le> 0xffff then obj @ [fmt str16] @ be_bytes 2 (size_word len) @ str
         else if len \<le> 0xffffffff then obj @ [fmt str32] @ be_bytes 4 (size_word len) @ str
         else obj)"

definition pack_bin :: "byte list \<Rightarrow> byte list \<Rightarrow> byte list" where
  "pack_bin data obj =
     (let len = length data
      in if len < 0xff then obj @ [fmt bin8, ucast (size_word len)] @ data
         else if len < 0xffff then obj @ [fmt bin16] @ be_bytes 2 (size_word len) @ data
         else if len < 0xffffffff then obj @ [fmt bin32] @ be_bytes 4 (size_word len) @ data
         else obj)"

text \<open>The size header of an array or map; \<open>None\<close> when the source returns without packing.\<close>

definition pack_size :: "u64 \<Rightarrow> format_t \<Rightarrow> format_t \<Rightarrow> nat \<Rightarrow> byte list \<Rightarrow> byte list option" where
  "pack_size fix f16 f32 len obj =
     (if len \<le> 15 then Some (obj @ [ucast (fix OR size_word len)])
      else if len \<le> 0xffff then Some (obj @ [fmt f16] @ be_bytes 2 (size_word len))
      else if len \<le> 0xffffffff then Some (obj @ [fmt f32] @ be_bytes 4 (size_word len))
      else None)"

definition pack_array :: "('v \<Rightarrow> byte list \<Rightarrow> byte list) \<Rightarrow> 'v list \<Rightarrow> byte list \<Rightarrow> byte list" where
  "pack_array pack_item array obj =
     (case pack_size 0x90 array16 array32 (length array) obj of
        None \<Rightarrow> obj
      | Some obj' \<Rightarrow> fold pack_item array obj')"

definition pack_map :: "('v \<Rightarrow> byte list \<Rightarrow> byte list) \<Rightarrow> ('v \<times> 'v) list \<Rightarrow> byte list \<Rightarrow> byte list" where
  "pack_map pack_item m obj =
     (case pack_size 0x80 map16 map32 (length m) obj of
        None \<Rightarrow> obj
      | Some obj' \<Rightarrow> fold (\<lambda>(k, v) o'. pack_item v (pack_item k o')) m obj')"

lemma pack_array_cong [fundef_cong]:
  assumes "xs = ys" and "obj = obj'" and "\<And>x o'. x \<in> set ys \<Longrightarrow> f x o' = g x o'"
  shows "pack_array f xs obj = pack_array g ys obj'"
proof -
  have "fold f ys o' = fold g ys o'" for o'
    by (rule fold_cong) (use assms(3) in auto)
  with assms(1,2) show ?thesis
    by (simp add: pack_array_def split: option.split)
qed

lemma pack_map_cong [fundef_cong]:
  assumes "ps = qs" and "obj = obj'"
    and "\<And>p o'. p \<in> set qs \<Longrightarrow> f (fst p) o' = g (fst p) o'"
    and "\<And>p o'. p \<in> set qs \<Longrightarrow> f (snd p) o' = g (snd p) o'"
  shows "pack_map f ps obj = pack_map g qs obj'"
proof -
  have "fold (\<lambda>(k, v) o'. f v (f k o')) qs o' = fold (\<lambda>(k, v) o'. g v (g k o')) qs o'" for o'
    by (rule fold_cong) (use assms(3,4) in \<open>force+\<close>)
  with assms(1,2) show ?thesis
    by (simp add: pack_map_def split: option.split)
qed

text \<open>The values a packer accepts. Maps are lists of pairs in iteration order.\<close>

datatype cval =
    VI8 "8 word" | VI16 "16 word" | VI32 "32 word" | VI64 "64 word"
  | VU8 "8 word" | VU16 "16 word" | VU32 "32 word" | VU64 "64 word"
  | VF32 "32 word" | VF64 "64 word" | VNil | VBool bool | VEnum "32 word"
  | VTime "64 word" | VStr "byte list" | VBin "byte list" | VVec "cval list" | VMap "(cval \<times> cval) list"

function (sequential) pack_type :: "cval \<Rightarrow> byte list \<Rightarrow> byte list" where
  "pack_type (VI8 v) obj = pack_int8 v obj"
| "pack_type (VI16 v) obj = pack_int16 v obj"
| "pack_type (VI32 v) obj = pack_int32 v obj"
| "pack_type (VI64 v) obj = pack_int64 v obj"
| "pack_type (VU8 v) obj = pack_uint8 v obj"
| "pack_type (VU16 v) obj = pack_uint16 v obj"
| "pack_type (VU32 v) obj = pack_uint32 v obj"
| "pack_type (VU64 v) obj = pack_uint64 v obj"
| "pack_type (VF32 v) obj = pack_float v obj"
| "pack_type (VF64 v) obj = pack_double v obj"
| "pack_type VNil obj = pack_nil obj"
| "pack_type (VBool b) obj = pack_bool b obj"
| "pack_type (VEnum v) obj = pack_int32 v obj"
| "pack_type (VTime v) obj = pack_int64 v obj"
| "pack_type (VStr s) obj = pack_string s obj"
| "pack_type (VBin s) obj = pack_bin s obj"
| "pack_type (VVec vs) obj = pack_array (\<lambda>v o'. pack_type v o') vs obj"
| "pack_type (VMap ps) obj = pack_map (\<lambda>v o'. pack_type v o') ps obj"
  by pat_completeness auto
termination
proof (relation "measure (\<lambda>(v, obj). size v)", goal_cases)
  case 1
  show ?case by simp
next
  case (2 vs obj x o')
  then have "size x \<le> size_list size vs"
    by (rule size_list_estimation') simp
  then show ?case by simp
next
  case (3 ps obj p o')
  then have "size_prod size size p \<le> size_list (size_prod size size) ps"
    by (rule size_list_estimation') simp
  then show ?case by (cases p) simp
next
  case (4 ps obj p o')
  then have "size_prod size size p \<le> size_list (size_prod size size) ps"
    by (rule size_list_estimation') simp
  then show ?case by (cases p) simp
qed

text \<open>\<^verbatim>\<open>pack(args...)\<close>: a new packer applied to every argument in order.\<close>

definition pack :: "cval list \<Rightarrow> byte list" where
  "pack args = fold pack_type args []"

section \<open>Unpacker\<close>

record unpacker =
  dat :: "byte list"   \<comment> \<open>the bytes from \<open>dataPointer_\<close> to \<open>dataEnd_\<close>\<close>
  ec :: bool           \<comment> \<open>\<open>eOutRange\<close> has been set\<close>

definition Unpacker :: "byte list \<Rightarrow> unpacker" where
  "Unpacker data = \<lparr>dat = data, ec = False\<rparr>"

definition out_range :: "unpacker \<Rightarrow> unpacker" where
  "out_range u = u\<lparr>ec := True\<rparr>"

definition unpacker_empty :: "unpacker \<Rightarrow> bool" where
  "unpacker_empty u = (dat u = [])"

definition safe_data :: "unpacker \<Rightarrow> byte \<times> unpacker" where
  "safe_data u = (case dat u of [] \<Rightarrow> (0, out_range u) | b # _ \<Rightarrow> (b, u))"

definition safe_incremen :: "nat \<Rightarrow> unpacker \<Rightarrow> unpacker" where
  "safe_incremen n u =
     (if n \<le> length (dat u) then u\<lparr>dat := drop n (dat u)\<rparr> else out_range (u\<lparr>dat := []\<rparr>))"

text \<open>\<^verbatim>\<open>read_be_unsigned<Int>\<close> for an \<open>n\<close>-byte type: shift the next byte in, \<open>n\<close> times.\<close>

fun read_be :: "nat \<Rightarrow> u64 \<Rightarrow> unpacker \<Rightarrow> u64 \<times> unpacker" where
  "read_be 0 out u = (out, u)"
| "read_be (Suc n) out u =
     (let (b, u1) = safe_data u
      in read_be n (push_bit 8 out OR ucast b) (safe_incremen 1 u1))"

definition read_be_unsigned :: "nat \<Rightarrow> unpacker \<Rightarrow> u64 \<times> unpacker" where
  "read_be_unsigned n u = read_be n 0 u"

text \<open>
  The two's complement step of \<^verbatim>\<open>read_be_signed<Int>\<close>, on the unsigned type of the same width. (For the least number of 32 or 64 bits
  the source's negation overflows a signed type; the result here is that of wrapping compilers.)
\<close>

definition twos_complement :: "'a::len word \<Rightarrow> 'a word" where
  "twos_complement u =
     (if u AND push_bit (LENGTH('a) - 1) 1 \<noteq> 0 then - (NOT u + 1) else u)"

text \<open>
  What \<^verbatim>\<open>unpack_number\<close> finds before the \<^verbatim>\<open>static_cast\<close> to its target: an integer, a float or a
  double; \<open>NNone\<close> when the marker is none of its cases (the target keeps its value).
\<close>

datatype num = NInt int | NF32 "32 word" | NF64 "64 word" | NNone

definition read_raw :: "nat \<Rightarrow> unpacker \<Rightarrow> fault + (u64 \<times> unpacker)" where
  "read_raw n u =
     (if n \<le> length (dat u) then Inr (le_word (take n (dat u)), safe_incremen n u) else Inl OobRead)"

definition read_signed :: "nat \<Rightarrow> (u64 \<Rightarrow> int) \<Rightarrow> unpacker \<Rightarrow> fault + (num \<times> unpacker)" where
  "read_signed n conv u = (let (w, u') = read_be n 0 u in Inr (NInt (conv w), u'))"

definition unpack_number :: "unpacker \<Rightarrow> fault + (num \<times> unpacker)" where
  "unpack_number u0 =
     (let (b, u) = safe_data u0; u1 = safe_incremen 1 u
      in if b \<le> 0x7f then Inr (NInt (uint b), u1)
         else if b \<ge> 0xe0 then Inr (NInt (sint b), u1)
         else if b = fmt uint64 then read_signed 8 uint u1
         else if b = fmt uint32 then read_signed 4 uint u1
         else if b = fmt uint16 then read_signed 2 uint u1
         else if b = fmt uint8 then read_signed 1 uint u1
         else if b = fmt int64 then read_signed 8 (\<lambda>w. sint (twos_complement w)) u1
         else if b = fmt int32 then read_signed 4 (\<lambda>w. sint (twos_complement (ucast w :: u32))) u1
         else if b = fmt int16 then read_signed 2 (\<lambda>w. sint (twos_complement (ucast w :: u16))) u1
         else if b = fmt int8 then read_signed 1 (\<lambda>w. sint (twos_complement (ucast w :: byte))) u1
         else if b = fmt float32
              then (case read_raw 4 u1 of Inl f \<Rightarrow> Inl f | Inr (w, u') \<Rightarrow> Inr (NF32 (ucast w), u'))
         else if b = fmt float64
              then (case read_raw 8 u1 of Inl f \<Rightarrow> Inl f | Inr (w, u') \<Rightarrow> Inr (NF64 w, u'))
         else Inr (NNone, out_range u))"

text \<open>
  \<^verbatim>\<open>static_cast\<close> to an integer type: modulo its width from an integer, by truncation from a
  floating-point value, which is undefined when the truncated value does not fit.
\<close>

definition cast_float :: "bool \<Rightarrow> int option \<Rightarrow> fault + 'a::len word" where
  "cast_float sgnd x =
     (case x of
        None \<Rightarrow> Inl BadCast
      | Some i \<Rightarrow>
          if sgnd \<and> - (2 ^ (LENGTH('a) - 1)) \<le> i \<and> i < 2 ^ (LENGTH('a) - 1)
             \<or> \<not> sgnd \<and> 0 \<le> i \<and> i < 2 ^ LENGTH('a)
          then Inr (word_of_int i) else Inl BadCast)"

definition cast_number :: "bool \<Rightarrow> 'a::len word \<Rightarrow> num \<Rightarrow> fault + 'a word" where
  "cast_number sgnd val x =
     (case x of
        NInt i \<Rightarrow> Inr (word_of_int i)
      | NF32 w \<Rightarrow> cast_float sgnd (fp_trunc 23 8 (uint w))
      | NF64 w \<Rightarrow> cast_float sgnd (fp_trunc 52 11 (uint w))
      | NNone \<Rightarrow> Inr val)"

definition unpack_int :: "bool \<Rightarrow> 'a::len word \<Rightarrow> unpacker \<Rightarrow> fault + ('a word \<times> unpacker)" where
  "unpack_int sgnd val u =
     (case unpack_number u of
        Inl f \<Rightarrow> Inl f
      | Inr (x, u') \<Rightarrow>
          (case cast_number sgnd val x of Inl f \<Rightarrow> Inl f | Inr w \<Rightarrow> Inr (w, u')))"

definition unpack_bool :: "bool \<Rightarrow> unpacker \<Rightarrow> fault + (bool \<times> unpacker)" where
  "unpack_bool val u0 =
     (let (b, u) = safe_data u0
      in if b = fmt false_bool then Inr (False, safe_incremen 1 u)
         else if b = fmt true_bool then Inr (True, safe_incremen 1 u)
         else (case unpack_number u of
                 Inl f \<Rightarrow> Inl f
               | Inr (NInt i, u') \<Rightarrow> Inr (i \<noteq> 0, u')
               | Inr (NF32 w, u') \<Rightarrow> Inr (w AND 0x7fffffff \<noteq> 0, u')
               | Inr (NF64 w, u') \<Rightarrow> Inr (w AND 0x7fffffffffffffff \<noteq> 0, u')
               | Inr (NNone, u') \<Rightarrow> Inr (val, u')))"

text \<open>
  Length prefixes. The 16- and 32-bit cases read into a \<^verbatim>\<open>std::size_t\<close>, so
  \<^verbatim>\<open>read_be_unsigned\<close> takes eight bytes there. \<open>None\<close> is the branch that sets the error code
  and returns.
\<close>

definition unpack_str_size :: "unpacker \<Rightarrow> (nat \<times> unpacker) option" where
  "unpack_str_size u0 =
     (let (b, u) = safe_data u0; u1 = safe_incremen 1 u
      in if b \<ge> 0xa0 \<and> b \<le> 0xbf then Some (unat (b AND 0x1f), u1)
         else if b = fmt str32 \<or> b = fmt str16
              then (let (n, u') = read_be_unsigned 8 u1 in Some (unat n, u'))
         else if b = fmt str8 then (let (n, u') = read_be_unsigned 1 u1 in Some (unat n, u'))
         else None)"

definition unpack_bin_size :: "unpacker \<Rightarrow> (nat \<times> unpacker) option" where
  "unpack_bin_size u0 =
     (let (b, u) = safe_data u0; u1 = safe_incremen 1 u
      in if b = fmt bin32 \<or> b = fmt bin16
         then (let (n, u') = read_be_unsigned 8 u1 in Some (unat n, u'))
         else if b = fmt bin8 then (let (n, u') = read_be_unsigned 1 u1 in Some (unat n, u'))
         else None)"

definition take_bytes :: "byte list \<Rightarrow> nat \<Rightarrow> unpacker \<Rightarrow> byte list \<times> unpacker" where
  "take_bytes value n u =
     (if n \<le> length (dat u) then (take n (dat u), safe_incremen n u) else (value, out_range u))"

definition unpack_string :: "byte list \<Rightarrow> unpacker \<Rightarrow> byte list \<times> unpacker" where
  "unpack_string value u =
     (case unpack_str_size u of
        None \<Rightarrow> (value, out_range u)
      | Some (n, u') \<Rightarrow> take_bytes value n u')"

definition unpack_bin :: "byte list \<Rightarrow> unpacker \<Rightarrow> byte list \<times> unpacker" where
  "unpack_bin value u =
     (case unpack_bin_size u of
        None \<Rightarrow> (value, out_range u)
      | Some (n, u') \<Rightarrow> take_bytes value n u')"

text \<open>Element counts of arrays and maps; the flag tells the \<^verbatim>\<open>table\<close> encoding apart.\<close>

definition unpack_array_size :: "unpacker \<Rightarrow> (bool \<times> nat \<times> unpacker) option" where
  "unpack_array_size u0 =
     (let (b, u) = safe_data u0; u1 = safe_incremen 1 u
      in if b \<ge> 0x90 \<and> b \<le> 0x9f then Some (False, unat (b AND 0x0f), u1)
         else if b = fmt array32 \<or> b = fmt array16
              then (let (n, u') = read_be_unsigned 8 u1 in Some (False, unat n, u'))
         else if b = fmt table then (let (n, u') = read_be_unsigned 8 u1 in Some (True, unat n, u'))
         else None)"

definition unpack_map_size :: "unpacker \<Rightarrow> (nat \<times> unpacker) option" where
  "unpack_map_size u0 =
     (let (b, u) = safe_data u0; u1 = safe_incremen 1 u
      in if b \<ge> 0x80 \<and> b \<le> 0x8f then Some (unat (b AND 0x0f), u1)
         else if b = fmt map32 \<or> b = fmt table \<or> b = fmt map16
              then (let (n, u') = read_be_unsigned 8 u1 in Some (unat n, u'))
         else None)"

text \<open>Decoding \<open>n\<close> elements one after the other.\<close>

fun unpack_n :: "(unpacker \<Rightarrow> fault + ('v \<times> unpacker)) \<Rightarrow> nat \<Rightarrow> unpacker \<Rightarrow> fault + ('v list \<times> unpacker)" where
  "unpack_n item 0 u = Inr ([], u)"
| "unpack_n item (Suc n) u =
     (case item u of
        Inl f \<Rightarrow> Inl f
      | Inr (v, u1) \<Rightarrow>
          (case unpack_n item n u1 of Inl f \<Rightarrow> Inl f | Inr (vs, u2) \<Rightarrow> Inr (v # vs, u2)))"

fun insert_or_assign :: "'k \<Rightarrow> 'v \<Rightarrow> ('k \<times> 'v) list \<Rightarrow> ('k \<times> 'v) list" where
  "insert_or_assign k v [] = [(k, v)]"
| "insert_or_assign k v ((k', v') # ps) =
     (if k = k' then (k, v) # ps else (k', v') # insert_or_assign k v ps)"

definition unpack_pair :: "(unpacker \<Rightarrow> fault + ('k \<times> unpacker)) \<Rightarrow>
    (unpacker \<Rightarrow> fault + ('v \<times> unpacker)) \<Rightarrow> unpacker \<Rightarrow> fault + (('k \<times> 'v) \<times> unpacker)" where
  "unpack_pair key val u =
     (case key u of
        Inl f \<Rightarrow> Inl f
      | Inr (k, u1) \<Rightarrow> (case val u1 of Inl f \<Rightarrow> Inl f | Inr (v, u2) \<Rightarrow> Inr ((k, v), u2)))"

text \<open>The \<^verbatim>\<open>table\<close> branch: \<^verbatim>\<open>array[key - 1] = val\<close> on an array resized to the table size.\<close>

fun table_loop :: "(unpacker \<Rightarrow> fault + ('v \<times> unpacker)) \<Rightarrow> nat \<Rightarrow> 'v list \<Rightarrow> unpacker \<Rightarrow>
    fault + ('v list \<times> unpacker)" where
  "table_loop item 0 arr u = Inr (arr, u)"
| "table_loop item (Suc n) arr u =
     (case unpack_pair (unpack_int True (0 :: u64)) item u of
        Inl f \<Rightarrow> Inl f
      | Inr ((k, v), u1) \<Rightarrow>
          if unat (k - 1) < length arr then table_loop item n (arr[unat (k - 1) := v]) u1
          else Inl OobWrite)"

definition unpack_array :: "(nat \<Rightarrow> bool) \<Rightarrow> 'v \<Rightarrow> (unpacker \<Rightarrow> fault + ('v \<times> unpacker)) \<Rightarrow>
    unpacker \<Rightarrow> fault + ('v list \<times> unpacker)" where
  "unpack_array can_reserve dflt item u =
     (case unpack_array_size u of
        None \<Rightarrow> Inr ([], out_range u)
      | Some (False, n, u1) \<Rightarrow>
          if n \<noteq> 0 \<and> \<not> can_reserve n then Inl BadAlloc else unpack_n item n u1
      | Some (True, n, u1) \<Rightarrow>
          if n \<noteq> 0 \<and> \<not> can_reserve n then Inl BadAlloc
          else table_loop item n (replicate n dflt) u1)"

definition unpack_map :: "(nat \<Rightarrow> bool) \<Rightarrow> (unpacker \<Rightarrow> fault + ('k \<times> unpacker)) \<Rightarrow>
    (unpacker \<Rightarrow> fault + ('v \<times> unpacker)) \<Rightarrow> unpacker \<Rightarrow> fault + (('k \<times> 'v) list \<times> unpacker)" where
  "unpack_map can_reserve key val u =
     (case unpack_map_size u of
        None \<Rightarrow> Inr ([], snd (safe_data u))
      | Some (n, u1) \<Rightarrow>
          if n \<noteq> 0 \<and> \<not> can_reserve n then Inl BadAlloc
          else (case unpack_n (unpack_pair key val) n u1 of
                  Inl f \<Rightarrow> Inl f
                | Inr (ps, u2) \<Rightarrow> Inr (fold (\<lambda>(k, v). insert_or_assign k v) ps [], u2)))"

text \<open>\<^verbatim>\<open>unpack_stdarray\<close>: decode a vector, then \<^verbatim>\<open>std::copy\<close> it over the fixed-size array.\<close>

definition unpack_stdarray :: "(nat \<Rightarrow> bool) \<Rightarrow> 'v \<Rightarrow> (unpacker \<Rightarrow> fault + ('v \<times> unpacker)) \<Rightarrow>
    'v list \<Rightarrow> unpacker \<Rightarrow> fault + ('v list \<times> unpacker)" where
  "unpack_stdarray can_reserve dflt item arr u =
     (case unpack_array can_reserve dflt item u of
        Inl f \<Rightarrow> Inl f
      | Inr (vec, u') \<Rightarrow>
          if length vec \<le> length arr then Inr (vec @ drop (length vec) arr, u') else Inl OobWrite)"

text \<open>The types an unpacker fills, and the value-initialised object of each.\<close>

datatype cty =
    TI8 | TI16 | TI32 | TI64 | TU8 | TU16 | TU32 | TU64 | TNil | TBool | TEnum | TTime
  | TStr | TBin | TVec cty | TArr nat cty | TMap cty cty

fun cdefault :: "cty \<Rightarrow> cval" where
  "cdefault TI8 = VI8 0" | "cdefault TI16 = VI16 0" | "cdefault TI32 = VI32 0"
| "cdefault TI64 = VI64 0" | "cdefault TU8 = VU8 0" | "cdefault TU16 = VU16 0"
| "cdefault TU32 = VU32 0" | "cdefault TU64 = VU64 0" | "cdefault TNil = VNil"
| "cdefault TBool = VBool False" | "cdefault TEnum = VEnum 0" | "cdefault TTime = VTime 0"
| "cdefault TStr = VStr []" | "cdefault TBin = VBin []" | "cdefault (TVec t) = VVec []"
| "cdefault (TArr n t) = VVec (replicate n (cdefault t))" | "cdefault (TMap k v) = VMap []"

definition as_val :: "('a \<Rightarrow> cval) \<Rightarrow> fault + ('a \<times> unpacker) \<Rightarrow> fault + (cval \<times> unpacker)" where
  "as_val f r = (case r of Inl e \<Rightarrow> Inl e | Inr (x, u) \<Rightarrow> Inr (f x, u))"

primrec unpack_type :: "(nat \<Rightarrow> bool) \<Rightarrow> cty \<Rightarrow> unpacker \<Rightarrow> fault + (cval \<times> unpacker)" where
  "unpack_type cr TI8 u = as_val VI8 (unpack_int True 0 u)"
| "unpack_type cr TI16 u = as_val VI16 (unpack_int True 0 u)"
| "unpack_type cr TI32 u = as_val VI32 (unpack_int True 0 u)"
| "unpack_type cr TI64 u = as_val VI64 (unpack_int True 0 u)"
| "unpack_type cr TU8 u = as_val VU8 (unpack_int False 0 u)"
| "unpack_type cr TU16 u = as_val VU16 (unpack_int False 0 u)"
| "unpack_type cr TU32 u = as_val VU32 (unpack_int False 0 u)"
| "unpack_type cr TU64 u = as_val VU64 (unpack_int False 0 u)"
| "unpack_type cr TNil u = Inr (VNil, safe_incremen 1 u)"
| "unpack_type cr TBool u = as_val VBool (unpack_bool False u)"
| "unpack_type cr TEnum u = as_val VEnum (unpack_int True 0 u)"
| "unpack_type cr TTime u = as_val VTime (unpack_int True 0 u)"
| "unpack_type cr TStr u = as_val VStr (Inr (unpack_string [] u))"
| "unpack_type cr TBin u = as_val VBin (Inr (unpack_bin [] u))"
| "unpack_type cr (TVec t) u = as_val VVec (unpack_array cr (cdefault t) (unpack_type cr t) u)"
| "unpack_type cr (TArr n t) u =
     as_val VVec (unpack_stdarray cr (cdefault t) (unpack_type cr t) (replicate n (cdefault t)) u)"
| "unpack_type cr (TMap k v) u = as_val VMap (unpack_map cr (unpack_type cr k) (unpack_type cr v) u)"

text \<open>\<^verbatim>\<open>unpack<Args...>(data, size, ec)\<close>: the objects, and the error code of the unpacker.\<close>

fun unpack_args :: "(nat \<Rightarrow> bool) \<Rightarrow> cty list \<Rightarrow> unpacker \<Rightarrow> fault + (cval list \<times> unpacker)" where
  "unpack_args cr [] u = Inr ([], u)"
| "unpack_args cr (t # ts) u =
     (case unpack_type cr t u of
        Inl f \<Rightarrow> Inl f
      | Inr (v, u1) \<Rightarrow>
          (case unpack_args cr ts u1 of Inl f \<Rightarrow> Inl f | Inr (vs, u2) \<Rightarrow> Inr (v # vs, u2)))"

definition unpack :: "(nat \<Rightarrow> bool) \<Rightarrow> cty list \<Rightarrow> byte list \<Rightarrow> fault + (cval list \<times> bool)" where
  "unpack cr ts data =
     (case unpack_args cr ts (Unpacker data) of
        Inl f \<Rightarrow> Inl f | Inr (vs, u) \<Rightarrow> Inr (vs, ec u))"

section \<open>Specification: typed values\<close>

text \<open>
  \<open>fits t v\<close>: \<open>v\<close> is a value of type \<open>t\<close> whose lengths all use the one-byte length encodings
  (strings up to 255 bytes, byte vectors up to 254, arrays and maps up to 15 elements) and whose
  maps have distinct keys.
\<close>

primrec fits :: "cty \<Rightarrow> cval \<Rightarrow> bool" where
  "fits TI8 v = (case v of VI8 _ \<Rightarrow> True | _ \<Rightarrow> False)"
| "fits TI16 v = (case v of VI16 _ \<Rightarrow> True | _ \<Rightarrow> False)"
| "fits TI32 v = (case v of VI32 _ \<Rightarrow> True | _ \<Rightarrow> False)"
| "fits TI64 v = (case v of VI64 _ \<Rightarrow> True | _ \<Rightarrow> False)"
| "fits TU8 v = (case v of VU8 _ \<Rightarrow> True | _ \<Rightarrow> False)"
| "fits TU16 v = (case v of VU16 _ \<Rightarrow> True | _ \<Rightarrow> False)"
| "fits TU32 v = (case v of VU32 _ \<Rightarrow> True | _ \<Rightarrow> False)"
| "fits TU64 v = (case v of VU64 _ \<Rightarrow> True | _ \<Rightarrow> False)"
| "fits TNil v = (case v of VNil \<Rightarrow> True | _ \<Rightarrow> False)"
| "fits TBool v = (case v of VBool _ \<Rightarrow> True | _ \<Rightarrow> False)"
| "fits TEnum v = (case v of VEnum _ \<Rightarrow> True | _ \<Rightarrow> False)"
| "fits TTime v = (case v of VTime _ \<Rightarrow> True | _ \<Rightarrow> False)"
| "fits TStr v = (case v of VStr s \<Rightarrow> length s \<le> 255 | _ \<Rightarrow> False)"
| "fits TBin v = (case v of VBin s \<Rightarrow> length s \<le> 254 | _ \<Rightarrow> False)"
| "fits (TVec t) v = (case v of VVec vs \<Rightarrow> length vs \<le> 15 \<and> list_all (fits t) vs | _ \<Rightarrow> False)"
| "fits (TArr n t) v =
     (case v of VVec vs \<Rightarrow> n \<le> 15 \<and> length vs = n \<and> list_all (fits t) vs | _ \<Rightarrow> False)"
| "fits (TMap t1 t2) v =
     (case v of
        VMap ps \<Rightarrow> length ps \<le> 15 \<and> distinct (map fst ps) \<and>
          list_all (\<lambda>p. fits t1 (fst p) \<and> fits t2 (snd p)) ps
      | _ \<Rightarrow> False)"

end
