(* ===== verification/Msgpack_Roundtrip.thy ===== *)
theory Msgpack_Roundtrip
  imports Msgpack
begin

unbundle bit_operations_syntax

text \<open>
  Round trips of the MessagePack serialiser: what a packer wrote, an unpacker of the same type reads
  back, for every integer width and for nested values with one-byte length prefixes; and the
  length prefixes that do not survive the trip.
\<close>

section \<open>Library lemmas\<close>

subsection \<open>Big-endian bytes\<close>

lemma twos_complement_id [simp]: "twos_complement u = u"
  by (simp add: twos_complement_def not_eq_complement)

lemma read_be_eq:
  "read_be (length bs) out \<lparr>dat = bs @ rest, ec = e\<rparr> =
     (out * 256 ^ length bs + of_nat (be_val bs), \<lparr>dat = rest, ec = e\<rparr>)"
proof (induction bs arbitrary: out)
  case Nil
  then show ?case by simp
next
  case (Cons b bs)
  have "(ucast b :: u64) = of_nat (unat b)"
    by simp
  then show ?case
    using Cons.IH [of "out * 256 + ucast b"]
    by (simp add: safe_data_def safe_incremen_def shift_in_byte algebra_simps)
qed

lemma read_be_be_bytes:
  assumes "k = n"
  shows "read_be k 0 \<lparr>dat = be_bytes n v @ rest, ec = e\<rparr> =
     (of_nat (unat v mod 256 ^ n), \<lparr>dat = rest, ec = e\<rparr>)"
  using read_be_eq [of "be_bytes n v" 0 rest e] assms by (simp add: be_val_be_bytes)


subsection \<open>Integers\<close>

lemma sint_eq_uint_if:
  "sint (w :: 'a::len word) = (if uint w < 2 ^ (LENGTH('a) - 1) then uint w else uint w - 2 ^ LENGTH('a))"
proof -
  obtain n where n: "LENGTH('a) = Suc n"
    by (metis len_not_eq_0 not0_implies_Suc)
  have b: "0 \<le> uint w" "uint w < 2 ^ Suc n"
    using uint_lt2p [of w] n by auto
  have "signed_take_bit n (uint w) = (uint w + 2 ^ n) mod 2 ^ Suc n - 2 ^ n"
    by (simp add: signed_take_bit_eq_take_bit_shift take_bit_eq_mod)
  moreover have "(uint w + 2 ^ n) mod 2 ^ Suc n = (if uint w < 2 ^ n then uint w + 2 ^ n else uint w - 2 ^ n)"
  proof (cases "uint w < 2 ^ n")
    case True
    with b show ?thesis by (simp add: mod_pos_pos_trivial)
  next
    case False
    have "(uint w + 2 ^ n) mod 2 ^ Suc n = (uint w - 2 ^ n + 2 ^ Suc n) mod 2 ^ Suc n"
      by (simp add: add.commute)
    also have "\<dots> = (uint w - 2 ^ n) mod 2 ^ Suc n"
      by (rule mod_add_self2)
    also have "\<dots> = uint w - 2 ^ n"
      using b False by (intro mod_pos_pos_trivial) auto
    finally show ?thesis using False by simp
  qed
  ultimately show ?thesis
    by (simp add: sint_uint n)
qed

lemma ucast_narrow:
  assumes "LENGTH('b) \<le> LENGTH('a)"
  shows "(ucast (v :: 'a::len word) :: 'b::len word) = word_of_int (sint v)"
proof (rule bit_word_eqI)
  fix n
  assume "n < LENGTH('b)"
  with assms show "bit (ucast v :: 'b word) n \<longleftrightarrow> bit (word_of_int (sint v) :: 'b word) n"
    by (cases "n = LENGTH('a) - 1") (auto simp: bit_simps min_def)
qed

lemma sint_ucast_narrow:
  assumes "LENGTH('b) \<le> LENGTH('a)" and "- (2 ^ (LENGTH('b) - 1)) \<le> sint v" and "sint v < 2 ^ (LENGTH('b) - 1)"
  shows "sint (ucast (v :: 'a::len word) :: 'b::len word) = sint v"
  unfolding ucast_narrow [OF assms(1)] signed_of_int
  using assms(2,3) by (simp add: signed_take_bit_int_eq_self)

lemma unpack_number_fixint:
  "b \<le> 0x7f \<Longrightarrow> unpack_number \<lparr>dat = b # rest, ec = e\<rparr> = Inr (NInt (uint b), \<lparr>dat = rest, ec = e\<rparr>)"
  "b \<ge> 0xe0 \<Longrightarrow> unpack_number \<lparr>dat = b # rest, ec = e\<rparr> = Inr (NInt (sint b), \<lparr>dat = rest, ec = e\<rparr>)"
proof -
  show "b \<le> 0x7f \<Longrightarrow> unpack_number \<lparr>dat = b # rest, ec = e\<rparr> = Inr (NInt (uint b), \<lparr>dat = rest, ec = e\<rparr>)"
    by (simp add: unpack_number_def safe_data_def safe_incremen_def Let_def)
  assume b: "b \<ge> 0xe0"
  then have "\<not> b \<le> 0x7f" by (auto simp: word_le_def)
  with b show "unpack_number \<lparr>dat = b # rest, ec = e\<rparr> = Inr (NInt (sint b), \<lparr>dat = rest, ec = e\<rparr>)"
    by (simp add: unpack_number_def safe_data_def safe_incremen_def Let_def)
qed

lemma unpack_number_marked:
  "unpack_number \<lparr>dat = fmt uint8 # w8 # rest, ec = e\<rparr> =
     Inr (NInt (uint (w8 :: byte)), \<lparr>dat = rest, ec = e\<rparr>)"
  "unpack_number \<lparr>dat = fmt uint16 # be_bytes 2 w16 @ rest, ec = e\<rparr> =
     Inr (NInt (uint (w16 :: u16)), \<lparr>dat = rest, ec = e\<rparr>)"
  "unpack_number \<lparr>dat = fmt uint32 # be_bytes 4 w32 @ rest, ec = e\<rparr> =
     Inr (NInt (uint (w32 :: u32)), \<lparr>dat = rest, ec = e\<rparr>)"
  "unpack_number \<lparr>dat = fmt uint64 # be_bytes 8 w64 @ rest, ec = e\<rparr> =
     Inr (NInt (uint (w64 :: u64)), \<lparr>dat = rest, ec = e\<rparr>)"
  "unpack_number \<lparr>dat = fmt int8 # w8 # rest, ec = e\<rparr> =
     Inr (NInt (sint w8), \<lparr>dat = rest, ec = e\<rparr>)"
  "unpack_number \<lparr>dat = fmt int16 # be_bytes 2 w16 @ rest, ec = e\<rparr> =
     Inr (NInt (sint w16), \<lparr>dat = rest, ec = e\<rparr>)"
  "unpack_number \<lparr>dat = fmt int32 # be_bytes 4 w32 @ rest, ec = e\<rparr> =
     Inr (NInt (sint w32), \<lparr>dat = rest, ec = e\<rparr>)"
  "unpack_number \<lparr>dat = fmt int64 # be_bytes 8 w64 @ rest, ec = e\<rparr> =
     Inr (NInt (sint w64), \<lparr>dat = rest, ec = e\<rparr>)"
proof -
  have s: "unat w8 < 256" "unat w16 < 65536" "unat w32 < 4294967296" "unat w64 < 18446744073709551616"
    using unsigned_less [of w8] unsigned_less [of w16] unsigned_less [of w32] unsigned_less [of w64] by simp_all
  have c: "(of_nat (unat w8) :: u64) = ucast w8" "(of_nat (unat w16) :: u64) = ucast w16"
    "(of_nat (unat w32) :: u64) = ucast w32" "(of_nat (unat w64) :: u64) = w64"
    by simp_all
  have u: "uint (ucast w8 :: u64) = uint w8" "uint (ucast w16 :: u64) = uint w16"
    "uint (ucast w32 :: u64) = uint w32"
    by (simp_all add: uint_up_ucast is_up)
  have d: "(ucast (ucast w8 :: u64) :: byte) = w8" "(ucast (ucast w16 :: u64) :: u16) = w16"
    "(ucast (ucast w32 :: u64) :: u32) = w32"
    by (rule bit_word_eqI, simp add: bit_simps)+
  note defs = unpack_number_def safe_data_def safe_incremen_def read_signed_def Let_def read_be_be_bytes
  show
    "unpack_number \<lparr>dat = fmt uint8 # w8 # rest, ec = e\<rparr> =
       Inr (NInt (uint (w8 :: byte)), \<lparr>dat = rest, ec = e\<rparr>)"
    "unpack_number \<lparr>dat = fmt uint16 # be_bytes 2 w16 @ rest, ec = e\<rparr> =
       Inr (NInt (uint (w16 :: u16)), \<lparr>dat = rest, ec = e\<rparr>)"
    "unpack_number \<lparr>dat = fmt uint32 # be_bytes 4 w32 @ rest, ec = e\<rparr> =
       Inr (NInt (uint (w32 :: u32)), \<lparr>dat = rest, ec = e\<rparr>)"
    "unpack_number \<lparr>dat = fmt uint64 # be_bytes 8 w64 @ rest, ec = e\<rparr> =
       Inr (NInt (uint (w64 :: u64)), \<lparr>dat = rest, ec = e\<rparr>)"
    "unpack_number \<lparr>dat = fmt int8 # w8 # rest, ec = e\<rparr> =
       Inr (NInt (sint w8), \<lparr>dat = rest, ec = e\<rparr>)"
    "unpack_number \<lparr>dat = fmt int16 # be_bytes 2 w16 @ rest, ec = e\<rparr> =
       Inr (NInt (sint w16), \<lparr>dat = rest, ec = e\<rparr>)"
    "unpack_number \<lparr>dat = fmt int32 # be_bytes 4 w32 @ rest, ec = e\<rparr> =
       Inr (NInt (sint w32), \<lparr>dat = rest, ec = e\<rparr>)"
    "unpack_number \<lparr>dat = fmt int64 # be_bytes 8 w64 @ rest, ec = e\<rparr> =
       Inr (NInt (sint w64), \<lparr>dat = rest, ec = e\<rparr>)"
    using s u d by (simp_all add: defs)
qed


lemma word_of_neg_fix:
  assumes "sint (v :: byte) < 0" and "- 32 \<le> sint v"
  shows "v \<ge> 0xe0" and "word_of_int (0xe0 + 32 + sint v) = v"
proof -
  have "sint v = uint v - 256"
    using assms(1) sint_eq_uint_if [of v] by (auto split: if_splits)
  with assms(2) show "v \<ge> 0xe0" by (simp add: word_le_def)
  have "(word_of_int (0xe0 + 32 + sint v) :: byte) = word_of_int (sint v)"
    by (simp flip: of_int_add add: of_int_add)
  then show "word_of_int (0xe0 + 32 + sint v) = v" by simp
qed

lemma pack_int8_neg:
  assumes "sint v < 0" and "- 32 \<le> sint v"
  shows "pack_int8 v [] = [v]"
proof -
  have "pack_int8 v [] = [word_of_int (0xe0 + 32 + sint v)]" using assms by (simp add: pack_int8_def)
  then show ?thesis unfolding word_of_neg_fix(2) [OF assms] .
qed

lemma nonneg_byte_le:
  assumes "0 \<le> sint (v :: byte)"
  shows "v \<le> 0x7f" and "uint v = sint v"
proof -
  show "uint v = sint v"
    using assms sint_eq_uint_if [of v] uint_lt2p [of v] by (auto split: if_splits)
  moreover have "sint v < 128"
    using sint_lt [of v] by simp
  ultimately show "v \<le> 0x7f"
    by (simp add: word_le_def)
qed

lemma unpack_pack_int8:
  "unpack_number \<lparr>dat = pack_int8 v [] @ rest, ec = e\<rparr> = Inr (NInt (sint v), \<lparr>dat = rest, ec = e\<rparr>)"
proof -
  consider "sint v < 0" "- 32 \<le> sint v" | "0 \<le> sint v" | "sint v < - 32" by linarith
  then show ?thesis
  proof cases
    case 1
    then show ?thesis using pack_int8_neg [OF 1] word_of_neg_fix(1) [OF 1] unpack_number_fixint(2) by simp
  next
    case 2
    moreover have "sint v \<le> 127" using sint_lt [of v] by simp
    ultimately show ?thesis
      using nonneg_byte_le [OF 2] unpack_number_fixint(1) by (simp add: pack_int8_def)
  next
    case 3
    then have "pack_int8 v [] @ rest = fmt int8 # v # rest" by (simp add: pack_int8_def)
    then show ?thesis using unpack_number_marked(5) by simp
  qed
qed

lemma unpack_pack_int16:
  "unpack_number \<lparr>dat = pack_int16 v [] @ rest, ec = e\<rparr> = Inr (NInt (sint v), \<lparr>dat = rest, ec = e\<rparr>)"
proof (cases "sint v \<le> 127 \<and> sint v \<ge> - 128")
  case True
  then have "sint (ucast v :: 8 word) = sint v" by (intro sint_ucast_narrow) auto
  with True show ?thesis using unpack_pack_int8 [of "ucast v"] by (simp add: pack_int16_def)
next
  case False
  then have "pack_int16 v [] @ rest = fmt int16 # be_bytes 2 v @ rest" by (auto simp: pack_int16_def)
  then show ?thesis using unpack_number_marked(6) by simp
qed

lemma unpack_pack_int32:
  "unpack_number \<lparr>dat = pack_int32 v [] @ rest, ec = e\<rparr> = Inr (NInt (sint v), \<lparr>dat = rest, ec = e\<rparr>)"
proof (cases "sint v \<le> 32767 \<and> sint v \<ge> - 32768")
  case True
  then have "sint (ucast v :: 16 word) = sint v" by (intro sint_ucast_narrow) auto
  with True show ?thesis using unpack_pack_int16 [of "ucast v"] by (simp add: pack_int32_def)
next
  case False
  then have "pack_int32 v [] @ rest = fmt int32 # be_bytes 4 v @ rest" by (auto simp: pack_int32_def)
  then show ?thesis using unpack_number_marked(7) by simp
qed

lemma unpack_pack_int64:
  "unpack_number \<lparr>dat = pack_int64 v [] @ rest, ec = e\<rparr> = Inr (NInt (sint v), \<lparr>dat = rest, ec = e\<rparr>)"
proof (cases "sint v \<le> 2147483647 \<and> sint v \<ge> - 2147483648")
  case True
  then have "sint (ucast v :: 32 word) = sint v" by (intro sint_ucast_narrow) auto
  with True show ?thesis using unpack_pack_int32 [of "ucast v"] by (simp add: pack_int64_def)
next
  case False
  then have "pack_int64 v [] @ rest = fmt int64 # be_bytes 8 v @ rest" by (auto simp: pack_int64_def)
  then show ?thesis using unpack_number_marked(8) by simp
qed

lemma uint_ucast_narrow:
  assumes "uint (v :: 'a::len word) < 2 ^ LENGTH('b)"
  shows "uint (ucast v :: 'b::len word) = uint v"
  using assms by (simp add: unsigned_ucast_eq take_bit_int_eq_self)

lemma unpack_pack_uint8:
  "unpack_number \<lparr>dat = pack_uint8 v [] @ rest, ec = e\<rparr> = Inr (NInt (uint v), \<lparr>dat = rest, ec = e\<rparr>)"
proof (cases "v \<le> 0x7f")
  case True
  then show ?thesis using unpack_number_fixint(1) by (simp add: pack_uint8_def)
next
  case False
  then have "pack_uint8 v [] @ rest = fmt uint8 # v # rest" by (simp add: pack_uint8_def)
  then show ?thesis using unpack_number_marked(1) by simp
qed

lemma unpack_pack_uint16:
  "unpack_number \<lparr>dat = pack_uint16 v [] @ rest, ec = e\<rparr> = Inr (NInt (uint v), \<lparr>dat = rest, ec = e\<rparr>)"
proof (cases "v > 0xff")
  case False
  then have "uint (ucast v :: 8 word) = uint v" by (intro uint_ucast_narrow) (simp add: word_less_def)
  with False show ?thesis using unpack_pack_uint8 [of "ucast v"] by (simp add: pack_uint16_def)
next
  case True
  then have "pack_uint16 v [] @ rest = fmt uint16 # be_bytes 2 v @ rest" by (simp add: pack_uint16_def)
  then show ?thesis using unpack_number_marked(2) by simp
qed

lemma unpack_pack_uint32:
  "unpack_number \<lparr>dat = pack_uint32 v [] @ rest, ec = e\<rparr> = Inr (NInt (uint v), \<lparr>dat = rest, ec = e\<rparr>)"
proof (cases "v > 0xffff")
  case False
  then have "uint (ucast v :: 16 word) = uint v" by (intro uint_ucast_narrow) (simp add: word_less_def)
  with False show ?thesis using unpack_pack_uint16 [of "ucast v"] by (simp add: pack_uint32_def)
next
  case True
  then have "pack_uint32 v [] @ rest = fmt uint32 # be_bytes 4 v @ rest" by (simp add: pack_uint32_def)
  then show ?thesis using unpack_number_marked(3) by simp
qed

lemma unpack_pack_uint64:
  "unpack_number \<lparr>dat = pack_uint64 v [] @ rest, ec = e\<rparr> = Inr (NInt (uint v), \<lparr>dat = rest, ec = e\<rparr>)"
proof (cases "v > 0xffffffff")
  case False
  then have "uint (ucast v :: 32 word) = uint v" by (intro uint_ucast_narrow) (simp add: word_less_def)
  with False show ?thesis using unpack_pack_uint32 [of "ucast v"] by (simp add: pack_uint64_def)
next
  case True
  then have "pack_uint64 v [] @ rest = fmt uint64 # be_bytes 8 v @ rest" by (simp add: pack_uint64_def)
  then show ?thesis using unpack_number_marked(4) by simp
qed

lemmas unpack_pack_number =
  unpack_pack_int8 unpack_pack_int16 unpack_pack_int32 unpack_pack_int64
  unpack_pack_uint8 unpack_pack_uint16 unpack_pack_uint32 unpack_pack_uint64


subsection \<open>Length prefixes\<close>

definition tag_ok :: "u64 \<Rightarrow> byte \<Rightarrow> byte \<Rightarrow> byte \<Rightarrow> nat \<Rightarrow> bool" where
  "tag_ok t lo hi msk n =
     (let b = (ucast (t OR size_word n) :: byte) in lo \<le> b \<and> b \<le> hi \<and> unat (b AND msk) = n)"

lemma tag_ok_enum:
  "list_all (tag_ok 0xa0 0xa0 0xbf 0x1f) [0..<32]"
  "list_all (tag_ok 0x90 0x90 0x9f 0x0f) [0..<16]"
  "list_all (tag_ok 0x80 0x80 0x8f 0x0f) [0..<16]"
  by code_simp+

lemma tag_ok:
  "n \<le> 31 \<Longrightarrow> tag_ok 0xa0 0xa0 0xbf 0x1f n"
  "n \<le> 15 \<Longrightarrow> tag_ok 0x90 0x90 0x9f 0x0f n"
  "n \<le> 15 \<Longrightarrow> tag_ok 0x80 0x80 0x8f 0x0f n"
  using tag_ok_enum by (simp_all add: list_all_iff)

lemma unat_size_word [simp]: "n < 2 ^ 64 \<Longrightarrow> unat (size_word n) = n"
  by (simp add: size_word_def unat_of_nat)

lemma unat_size_byte [simp]: "n \<le> 255 \<Longrightarrow> unat (ucast (size_word n) :: byte) = n"
  by (simp add: unsigned_ucast_eq take_bit_nat_eq_self)

lemma unat_widen: "unat (ucast (b :: byte) :: u64) = unat b"
proof -
  have "unat b < 2 ^ 8" using unsigned_less [of b] by simp
  then show ?thesis by (simp add: unsigned_ucast_eq take_bit_nat_eq_self)
qed

lemma read_one: "read_be_unsigned (Suc 0) \<lparr>dat = b # rest, ec = e\<rparr> = (ucast b, \<lparr>dat = rest, ec = e\<rparr>)"
  by (simp add: read_be_unsigned_def safe_data_def safe_incremen_def)

lemma unpack_str_size_pack:
  assumes "length s \<le> 255"
  shows "unpack_str_size \<lparr>dat = pack_string s [] @ rest, ec = e\<rparr> = Some (length s, \<lparr>dat = s @ rest, ec = e\<rparr>)"
proof (cases "length s \<le> 31")
  case True
  with tag_ok(1) [OF True] show ?thesis
    by (simp add: unpack_str_size_def pack_string_def Let_def tag_ok_def safe_data_def safe_incremen_def)
next
  case False
  have "\<not> fmt str8 \<le> 0xbf" by simp
  with False assms show ?thesis
    by (simp add: unpack_str_size_def pack_string_def Let_def safe_data_def safe_incremen_def read_one
        unat_widen)
qed

lemma unpack_string_pack:
  assumes "length s \<le> 255"
  shows "unpack_string v \<lparr>dat = pack_string s [] @ rest, ec = e\<rparr> = (s, \<lparr>dat = rest, ec = e\<rparr>)"
  using unpack_str_size_pack [OF assms] by (simp add: unpack_string_def take_bytes_def safe_incremen_def)

lemma unpack_bin_pack:
  assumes "length s \<le> 254"
  shows "unpack_bin v \<lparr>dat = pack_bin s [] @ rest, ec = e\<rparr> = (s, \<lparr>dat = rest, ec = e\<rparr>)"
  using assms
  by (simp add: unpack_bin_def unpack_bin_size_def pack_bin_def Let_def safe_data_def safe_incremen_def
      read_one unat_widen take_bytes_def)

lemma unpack_array_size_pack:
  assumes "n \<le> 15" and "pack_size 0x90 array16 array32 n [] = Some h"
  shows "unpack_array_size \<lparr>dat = h @ rest, ec = e\<rparr> = Some (False, n, \<lparr>dat = rest, ec = e\<rparr>)"
  using assms(2) tag_ok(2) [OF assms(1)] assms(1)
  by (auto simp: unpack_array_size_def pack_size_def Let_def tag_ok_def safe_data_def safe_incremen_def)

lemma unpack_map_size_pack:
  assumes "n \<le> 15" and "pack_size 0x80 map16 map32 n [] = Some h"
  shows "unpack_map_size \<lparr>dat = h @ rest, ec = e\<rparr> = Some (n, \<lparr>dat = rest, ec = e\<rparr>)"
  using assms(2) tag_ok(3) [OF assms(1)] assms(1)
  by (auto simp: unpack_map_size_def pack_size_def Let_def tag_ok_def safe_data_def safe_incremen_def)

subsection \<open>Packing only appends\<close>

lemma pack_int_append:
  "NO_MATCH [] obj \<Longrightarrow> pack_int8 a obj = obj @ pack_int8 a []" "NO_MATCH [] obj \<Longrightarrow> pack_int16 b obj = obj @ pack_int16 b []"
  "NO_MATCH [] obj \<Longrightarrow> pack_int32 c obj = obj @ pack_int32 c []" "NO_MATCH [] obj \<Longrightarrow> pack_int64 d obj = obj @ pack_int64 d []"
  "NO_MATCH [] obj \<Longrightarrow> pack_uint8 a obj = obj @ pack_uint8 a []" "NO_MATCH [] obj \<Longrightarrow> pack_uint16 b obj = obj @ pack_uint16 b []"
  "NO_MATCH [] obj \<Longrightarrow> pack_uint32 c obj = obj @ pack_uint32 c []" "NO_MATCH [] obj \<Longrightarrow> pack_uint64 d obj = obj @ pack_uint64 d []"
  by (simp_all add: pack_int8_def pack_int16_def pack_int32_def pack_int64_def
      pack_uint8_def pack_uint16_def pack_uint32_def pack_uint64_def)

lemma fold_appends:
  assumes "\<And>x o'. x \<in> set xs \<Longrightarrow> f x o' = o' @ f x []"
  shows "fold f xs obj = obj @ concat (map (\<lambda>x. f x []) xs)"
  using assms
proof (induction xs arbitrary: obj)
  case (Cons x xs)
  have "fold f (x # xs) obj = fold f xs (obj @ f x [])"
    by (simp only: fold.simps comp_apply Cons.prems [of x obj] list.set_intros)
  also have "\<dots> = (obj @ f x []) @ concat (map (\<lambda>x. f x []) xs)"
    by (rule Cons.IH) (rule Cons.prems, simp)
  finally show ?case by simp
qed simp

lemma pack_size_append:
  "pack_size fix f16 f32 n obj = map_option (\<lambda>h. obj @ h) (pack_size fix f16 f32 n [])"
  by (simp add: pack_size_def)

lemma pack_type_append: "pack_type v obj = obj @ pack_type v []"
proof (induction v arbitrary: obj)
  case (VF32 x)
  then show ?case
    by (auto simp: pack_float_def pack_int_append split: option.split)
next
  case (VF64 x)
  then show ?case
    by (auto simp: pack_double_def pack_int_append split: option.split)
next
  case (VVec vs)
  have "fold pack_type vs o' = o' @ concat (map (\<lambda>x. pack_type x []) vs)" for o'
    by (rule fold_appends) (rule VVec)
  then show ?case
    by (simp add: pack_array_def pack_size_append [of _ _ _ _ obj] split: option.split)
next
  case (VMap ps)
  have "fold (\<lambda>(k, v) o'. pack_type v (pack_type k o')) ps o' =
      o' @ concat (map (\<lambda>p. (case p of (k, v) \<Rightarrow> \<lambda>o'. pack_type v (pack_type k o')) []) ps)" for o'
  proof (rule fold_appends)
    fix p o'
    assume p: "p \<in> set ps"
    obtain k v where kv: "p = (k, v)" by (cases p)
    have "pack_type v (o' @ pack_type k []) = (o' @ pack_type k []) @ pack_type v []"
      "pack_type v (pack_type k []) = pack_type k [] @ pack_type v []"
      "pack_type k o' = o' @ pack_type k []"
      by (rule VMap [OF p]; simp add: kv)+
    with kv show "(case p of (k, v) \<Rightarrow> \<lambda>o'. pack_type v (pack_type k o')) o' =
        o' @ (case p of (k, v) \<Rightarrow> \<lambda>o'. pack_type v (pack_type k o')) []"
      by simp
  qed
  then show ?case
    by (simp add: pack_map_def pack_size_append [of _ _ _ _ obj] split: option.split)
qed (auto simp: pack_int_append pack_nil_def pack_bool_def pack_string_def pack_bin_def Let_def)

lemma fold_pack_type: "fold pack_type vs obj = obj @ concat (map (\<lambda>v. pack_type v []) vs)"
  by (rule fold_appends) (rule pack_type_append)

subsection \<open>Sequences of elements\<close>

lemma unpack_n_concat:
  assumes "\<And>x rest. x \<in> set xs \<Longrightarrow> item \<lparr>dat = g x @ rest, ec = e\<rparr> = Inr (x, \<lparr>dat = rest, ec = e\<rparr>)"
  shows "unpack_n item (length xs) \<lparr>dat = concat (map g xs) @ rest, ec = e\<rparr> = Inr (xs, \<lparr>dat = rest, ec = e\<rparr>)"
  using assms by (induction xs) simp_all

lemma insert_or_assign_new: "k \<notin> fst ` set ps \<Longrightarrow> insert_or_assign k v ps = ps @ [(k, v)]"
  by (induction ps) auto

lemma fold_insert_distinct:
  "distinct (map fst (acc @ ps)) \<Longrightarrow>
     fold (\<lambda>(k, v) m. insert_or_assign k v m) ps acc = acc @ ps"
proof (induction ps arbitrary: acc)
  case (Cons p ps)
  obtain k v where p: "p = (k, v)" by (cases p)
  with Cons.prems have "k \<notin> fst ` set acc" by auto
  then have "insert_or_assign k v acc = acc @ [p]" by (simp add: insert_or_assign_new p)
  with Cons p show ?case by simp
qed simp

lemma pack_size_small: "n \<le> 15 \<Longrightarrow> pack_size fix f16 f32 n [] = Some [ucast (fix OR size_word n)]"
  by (simp add: pack_size_def)

lemma unpack_array_pack:
  assumes "length vs \<le> 15" and "\<And>n. n \<le> 15 \<Longrightarrow> cr n"
    and "\<And>x rest. x \<in> set vs \<Longrightarrow>
           item \<lparr>dat = pack_type x [] @ rest, ec = e\<rparr> = Inr (x, \<lparr>dat = rest, ec = e\<rparr>)"
  shows "unpack_array cr d item \<lparr>dat = pack_type (VVec vs) [] @ rest, ec = e\<rparr> =
           Inr (vs, \<lparr>dat = rest, ec = e\<rparr>)"
  using assms(1,2) unpack_array_size_pack [OF assms(1) pack_size_small [OF assms(1)]]
    unpack_n_concat [where xs = vs and g = "\<lambda>x. pack_type x []", OF assms(3)]
  by (simp add: unpack_array_def pack_array_def pack_size_small fold_pack_type)

lemma fold_pack_pairs:
  "fold (\<lambda>(k, v) o'. pack_type v (pack_type k o')) ps obj =
     obj @ concat (map (\<lambda>p. pack_type (fst p) [] @ pack_type (snd p) []) ps)"
proof (induction ps arbitrary: obj)
  case (Cons p ps)
  have "pack_type v (pack_type k obj) = obj @ pack_type k [] @ pack_type v []" for k v
    unfolding pack_type_append [of k obj] pack_type_append [of v "obj @ pack_type k []"] by simp
  with Cons show ?case by (cases p) simp
qed simp

lemma unpack_map_pack:
  assumes "length ps \<le> 15" and "\<And>n. n \<le> 15 \<Longrightarrow> cr n" and "distinct (map fst ps)"
    and "\<And>p rest. p \<in> set ps \<Longrightarrow>
           key \<lparr>dat = pack_type (fst p) [] @ rest, ec = e\<rparr> = Inr (fst p, \<lparr>dat = rest, ec = e\<rparr>)"
    and "\<And>p rest. p \<in> set ps \<Longrightarrow>
           val \<lparr>dat = pack_type (snd p) [] @ rest, ec = e\<rparr> = Inr (snd p, \<lparr>dat = rest, ec = e\<rparr>)"
  shows "unpack_map cr key val \<lparr>dat = pack_type (VMap ps) [] @ rest, ec = e\<rparr> =
           Inr (ps, \<lparr>dat = rest, ec = e\<rparr>)"
proof -
  let ?g = "\<lambda>p. pack_type (fst p) [] @ pack_type (snd p) []"
  have "unpack_n (unpack_pair key val) (length ps) \<lparr>dat = concat (map ?g ps) @ rest, ec = e\<rparr> =
          Inr (ps, \<lparr>dat = rest, ec = e\<rparr>)"
    by (rule unpack_n_concat) (simp add: unpack_pair_def assms(4,5))
  then show ?thesis
    using assms(1-3) unpack_map_size_pack [OF assms(1) pack_size_small [OF assms(1)]]
      fold_insert_distinct [of "[]" ps]
    by (simp add: unpack_map_def pack_map_def pack_size_small fold_pack_pairs)
qed

section \<open>Round trips\<close>

lemma unpack_type_pack:
  assumes "fits t v" and "\<And>n. n \<le> 15 \<Longrightarrow> cr n"
  shows "unpack_type cr t \<lparr>dat = pack_type v [] @ rest, ec = e\<rparr> = Inr (v, \<lparr>dat = rest, ec = e\<rparr>)"
  using assms(1)
proof (induction t arbitrary: v rest)
  case TNil
  then show ?case
    by (auto split: cval.splits simp: pack_nil_def safe_incremen_def)
next
  case TBool
  then show ?case
    by (auto split: cval.splits simp: as_val_def unpack_bool_def pack_bool_def safe_data_def safe_incremen_def)
next
  case TStr
  then show ?case
    by (auto split: cval.splits simp: as_val_def unpack_string_pack)
next
  case TBin
  then show ?case
    by (auto split: cval.splits simp: as_val_def unpack_bin_pack)
next
  case (TVec t)
  then obtain vs where v: "v = VVec vs" "length vs \<le> 15" "\<And>x. x \<in> set vs \<Longrightarrow> fits t x"
    by (auto split: cval.splits simp: list_all_iff)
  show ?case
    using unpack_array_pack [OF v(2) assms(2) TVec.IH [OF v(3)]] by (simp add: v(1) as_val_def)
next
  case (TArr n t)
  then obtain vs where v: "v = VVec vs" "length vs \<le> 15" "length vs = n" "\<And>x. x \<in> set vs \<Longrightarrow> fits t x"
    by (auto split: cval.splits simp: list_all_iff)
  show ?case
    using unpack_array_pack [OF v(2) assms(2) TArr.IH [OF v(4)]]
    by (simp add: v(1,3) as_val_def unpack_stdarray_def)
next
  case (TMap t1 t2)
  then obtain ps where v: "v = VMap ps" "length ps \<le> 15" "distinct (map fst ps)"
    "\<And>p. p \<in> set ps \<Longrightarrow> fits t1 (fst p)" "\<And>p. p \<in> set ps \<Longrightarrow> fits t2 (snd p)"
    by (auto split: cval.splits simp: list_all_iff)
  show ?case
    using unpack_map_pack [OF v(2) assms(2) v(3) TMap.IH(1) [OF v(4)] TMap.IH(2) [OF v(5)]]
    by (simp add: v(1) as_val_def)
qed (auto split: cval.splits simp: as_val_def unpack_int_def cast_number_def unpack_pack_number)

lemma unpack_args_pack:
  assumes "list_all2 fits ts vs" and "\<And>n. n \<le> 15 \<Longrightarrow> cr n"
  shows "unpack_args cr ts \<lparr>dat = concat (map (\<lambda>v. pack_type v []) vs) @ rest, ec = e\<rparr> =
           Inr (vs, \<lparr>dat = rest, ec = e\<rparr>)"
  using assms(1) by (induction rule: list_all2_induct) (simp_all add: unpack_type_pack assms(2))

text \<open>
  C31. Unpacking what \<^verbatim>\<open>pack(args...)\<close> produced, at the types of the arguments, gives every argument
  back and leaves the error code clear: for integers of every width, booleans, enums, time points,
  strings up to 255 bytes, byte vectors up to 254 bytes, and vectors, arrays and maps of up to 15
  elements nested to any depth. The hypothesis on \<open>cr\<close> is that \<^verbatim>\<open>reserve\<close> succeeds for 15 elements.
\<close>

theorem msgpack_roundtrip:
  assumes "list_all2 fits ts vs" and "\<And>n. n \<le> 15 \<Longrightarrow> cr n"
  shows "unpack cr ts (pack vs) = Inr (vs, False)"
  using unpack_args_pack [OF assms, where rest = "[]" and e = False]
  by (simp add: unpack_def pack_def Unpacker_def fold_pack_type)

theorem msgpack_roundtrip_witness:
  "unpack (\<lambda>n. n < 1000) [TI64, TVec TStr, TMap TU8 TBool]
     (pack [VI64 (- 70000), VVec [VStr [104, 105], VStr []], VMap [(VU8 200, VBool True)]]) =
   Inr ([VI64 (- 70000), VVec [VStr [104, 105], VStr []], VMap [(VU8 200, VBool True)]], False)"
  by (rule msgpack_roundtrip) simp_all

section \<open>Length prefixes of more than one byte\<close>

text \<open>
  Reading a \<^verbatim>\<open>size_t\<close> where the packer wrote a \<open>k\<close>-byte length takes \<open>8 - k\<close> bytes of the payload,
  so the length read is at least the true one times \<open>256 ^ (8 - k)\<close>.
\<close>

lemma read_size_t:
  assumes "k \<le> 8" and "n < 256 ^ k" and "8 - k \<le> length body"
  shows "\<exists>m. read_be_unsigned 8 \<lparr>dat = be_bytes k (size_word n) @ body, ec = e\<rparr> =
             (m, \<lparr>dat = drop (8 - k) body, ec = e\<rparr>) \<and> n * 256 ^ (8 - k) \<le> unat m"
proof -
  let ?bs = "be_bytes k (size_word n) @ take (8 - k) body"
  have len: "length ?bs = 8" using assms by simp
  have "n < 256 ^ 8"
    using assms(1,2) power_increasing [of k 8 "256 :: nat"] by linarith
  then have "be_val (be_bytes k (size_word n)) = n"
    using assms(2) by (simp add: be_val_be_bytes)
  then have "n * 256 ^ (8 - k) \<le> be_val ?bs"
    using assms(3) by (simp add: be_val_append)
  moreover have "be_val ?bs < 256 ^ 8" using be_val_less [of ?bs] len by simp
  then have "unat (of_nat (be_val ?bs) :: u64) = be_val ?bs" by (simp add: unat_of_nat)
  moreover have "read_be_unsigned 8 \<lparr>dat = be_bytes k (size_word n) @ body, ec = e\<rparr> =
      (of_nat (be_val ?bs), \<lparr>dat = drop (8 - k) body, ec = e\<rparr>)"
    using read_be_eq [of ?bs 0 "drop (8 - k) body" e] len by (simp add: read_be_unsigned_def)
  ultimately show ?thesis by auto
qed

text \<open>
  A string of 256 bytes or more never survives the trip: its two- or four-byte length prefix is
  read as an eight-byte \<^verbatim>\<open>size_t\<close>, the length exceeds what is left, and the unpacker reports
  \<^verbatim>\<open>OutRange\<close> with an empty string.
\<close>

theorem long_string_lost:
  assumes "256 \<le> length s" and "length s < 2 ^ 32"
  shows "unpack cr [TStr] (pack [VStr s]) = Inr ([VStr []], True)"
proof -
  obtain k f where k: "k \<le> 4" "2 \<le> k" "length s < 256 ^ k" "f = fmt str32 \<or> f = fmt str16"
    "pack_string s [] = f # be_bytes k (size_word (length s)) @ s"
  proof (cases "length s \<le> 0xffff")
    case True
    with assms that [of 2 "fmt str16"] show ?thesis by (simp add: pack_string_def)
  next
    case False
    with assms that [of 4 "fmt str32"] show ?thesis by (simp add: pack_string_def)
  qed
  obtain m where m: "read_be_unsigned 8 \<lparr>dat = be_bytes k (size_word (length s)) @ s, ec = False\<rparr> =
      (m, \<lparr>dat = drop (8 - k) s, ec = False\<rparr>)" "length s * 256 ^ (8 - k) \<le> unat m"
  proof -
    have "8 - k \<le> length s" using assms(1) by simp
    then show ?thesis using read_size_t [of k "length s" s False] k(1,3) that by auto
  qed
  have "length s * 1 < length s * 256 ^ (8 - k)"
    using assms(1) k(1) one_less_power [of "256 :: nat" "8 - k"] by (intro mult_strict_left_mono) auto
  then have "length (drop (8 - k) s) < length s * 256 ^ (8 - k)" by (simp only: length_drop)
  with m(2) have "\<not> unat m \<le> length (drop (8 - k) s)" by linarith
  with k(4,5) m(1) show ?thesis
    by (auto simp: unpack_def pack_def Unpacker_def as_val_def unpack_string_def unpack_str_size_def
        safe_data_def safe_incremen_def Let_def take_bytes_def out_range_def)
qed

theorem long_string_lost_witness:
  "unpack (\<lambda>_. True) [TStr] (pack [VStr (replicate 300 65)]) = Inr ([VStr []], True)"
  by (rule long_string_lost) simp_all

lemma pack_nonempty: "fits t v \<Longrightarrow> pack_type v [] \<noteq> []"
  by (cases t; cases v)
    (auto simp: pack_int8_def pack_int16_def pack_int32_def pack_int64_def pack_uint8_def
      pack_uint16_def pack_uint32_def pack_uint64_def pack_nil_def pack_bool_def pack_string_def
      pack_bin_def pack_array_def pack_map_def pack_size_small Let_def fold_pack_type fold_pack_pairs
      split: if_splits)

lemma length_concat_pack:
  assumes "list_all (fits t) vs"
  shows "length vs \<le> length (concat (map (\<lambda>v. pack_type v []) vs))"
  using assms
proof (induction vs)
  case (Cons v vs)
  then have "pack_type v [] \<noteq> []" by (intro pack_nonempty [of t]) simp
  then have "1 \<le> length (pack_type v [])" by (cases "pack_type v []") simp_all
  with Cons show ?case by (simp del: length_concat)
qed simp

text \<open>
  A vector of 16 or more elements is read with an element count of at least \<open>16 * 2 ^ 32\<close>; an
  allocator that cannot reserve that many elements makes \<^verbatim>\<open>reserve\<close> throw out of the unpacker.
\<close>

theorem long_array_throws:
  assumes "16 \<le> length vs" and "length vs < 2 ^ 32" and "list_all (fits t) vs"
    and "\<And>n. 16 * 2 ^ 32 \<le> n \<Longrightarrow> \<not> cr n"
  shows "unpack cr [TVec t] (pack [VVec vs]) = Inl BadAlloc"
proof -
  let ?n = "length vs" and ?body = "concat (map (\<lambda>v. pack_type v []) vs)"
  obtain k f where k: "k \<le> 4" "2 \<le> k" "?n < 256 ^ k" "f = fmt array32 \<or> f = fmt array16"
    "pack_type (VVec vs) [] = f # be_bytes k (size_word ?n) @ ?body"
  proof (cases "?n \<le> 0xffff")
    case True
    with assms that [of 2 "fmt array16"] show ?thesis
      by (simp add: pack_array_def pack_size_def fold_pack_type)
  next
    case False
    with assms that [of 4 "fmt array32"] show ?thesis
      by (simp add: pack_array_def pack_size_def fold_pack_type)
  qed
  obtain m where m: "read_be_unsigned 8 \<lparr>dat = be_bytes k (size_word ?n) @ ?body, ec = False\<rparr> =
      (m, \<lparr>dat = drop (8 - k) ?body, ec = False\<rparr>)" "?n * 256 ^ (8 - k) \<le> unat m"
  proof -
    have "8 - k \<le> length ?body" using assms(1) length_concat_pack [OF assms(3)] by linarith
    then show ?thesis using read_size_t [of k ?n ?body False] k(1,3) that by auto
  qed
  have "(2 :: nat) ^ 32 \<le> 256 ^ (8 - k)"
    using k(1) power_increasing [of 4 "8 - k" "256 :: nat"] by simp
  then have "16 * 2 ^ 32 \<le> ?n * 256 ^ (8 - k)"
    using assms(1) by (intro mult_le_mono) auto
  with m(2) have "16 * 2 ^ 32 \<le> unat m" by simp
  with assms(4) have "\<not> cr (unat m)" "unat m \<noteq> 0" by auto
  with k(4,5) m(1) show ?thesis
    by (auto simp: unpack_def pack_def Unpacker_def as_val_def unpack_array_def unpack_array_size_def
        safe_data_def safe_incremen_def Let_def)
qed

theorem long_array_throws_witness:
  "unpack (\<lambda>n. n < 2 ^ 32) [TVec TU8] (pack [VVec (replicate 16 (VU8 1))]) = Inl BadAlloc"
  by (rule long_array_throws) (simp_all add: list_all_iff)

end
