(* ===== verification/Msgpack_Lua.thy ===== *)
theory Msgpack_Lua
  imports Msgpack_Roundtrip
begin

unbundle bit_operations_syntax

text \<open>
  The Lua side of the serialiser: \<^verbatim>\<open>Packer::pack_stack_proxy\<close> and \<^verbatim>\<open>pack_table\<close>,
  \<^verbatim>\<open>Unpacker::unpack_stack_proxy\<close> and \<^verbatim>\<open>unpack_table\<close> of \<^verbatim>\<open>src/msgpack/msgpack.hpp\<close>, and the
  \<^verbatim>\<open>pack\<close>/\<^verbatim>\<open>unpack\<close> loops of \<^verbatim>\<open>src/msgpack/msgpack.cpp\<close>. The Lua stack is a list with the top first.
  A table is the list of its pairs: in iteration order when it is packed, in the order of the
  \<^verbatim>\<open>lua_rawset\<close> and \<^verbatim>\<open>lua_rawseti\<close> calls when it is built. A call that the Lua API does not allow
  (no table at the index, too few values, a nil key) is a fault. Nesting is bounded by a fuel argument
  that starts at one more than the number of bytes left, which is always enough; the outer
  \<^verbatim>\<open>while (!unpacker.empty())\<close> loop is a \<open>partial_function\<close>, because it can run forever.
\<close>

section \<open>Values\<close>

text \<open>
  Integers and floats are 64-bit patterns. Userdata is \<open>Some\<close> the values its \<^verbatim>\<open>MsgPackBase::pack\<close>
  passes to the packer, or \<open>None\<close> when it is no \<^verbatim>\<open>MsgPackBase\<close>; \<open>LOther\<close> is any other type.
\<close>

datatype lval =
    LNil | LBool bool | LInt u64 | LNum u64 | LStr "byte list" | LTab "(lval \<times> lval) list"
  | LUser "cval list option" | LOther

datatype lfault = MsgFault fault | LuaApi | OutOfFuel

section \<open>Packing\<close>

text \<open>
  The count of \<^verbatim>\<open>pack_table\<close>: four placeholder bytes that are overwritten, at the same offset, once
  the pairs are packed.
\<close>

definition patch_count :: "nat \<Rightarrow> nat \<Rightarrow> byte list \<Rightarrow> byte list" where
  "patch_count index count obj =
     take index obj @ be_bytes 4 (size_word count) @ drop (index + 4) obj"

definition pack_table :: "(lval \<Rightarrow> byte list \<Rightarrow> byte list) \<Rightarrow> (lval \<times> lval) list \<Rightarrow> byte list \<Rightarrow> byte list" where
  "pack_table item ps obj =
     (let obj1 = obj @ [fmt table];
          index = length obj1;
          obj2 = obj1 @ replicate 4 0
      in patch_count index (length ps) (fold (\<lambda>(k, v) o'. item v (item k o')) ps obj2))"

lemma pack_table_cong [fundef_cong]:
  assumes "ps = qs" and "obj = obj'"
    and "\<And>p o'. p \<in> set qs \<Longrightarrow> f (fst p) o' = g (fst p) o'"
    and "\<And>p o'. p \<in> set qs \<Longrightarrow> f (snd p) o' = g (snd p) o'"
  shows "pack_table f ps obj = pack_table g qs obj'"
proof -
  have "fold (\<lambda>(k, v) o'. f v (f k o')) qs o' = fold (\<lambda>(k, v) o'. g v (g k o')) qs o'" for o'
    by (rule fold_cong) (use assms(3,4) in \<open>force+\<close>)
  with assms(1,2) show ?thesis by (simp add: pack_table_def)
qed

function (sequential) pack_stack_proxy :: "lval \<Rightarrow> byte list \<Rightarrow> byte list" where
  "pack_stack_proxy LNil obj = pack_nil obj"
| "pack_stack_proxy (LInt i) obj = pack_int64 i obj"
| "pack_stack_proxy (LNum d) obj = pack_double d obj"
| "pack_stack_proxy (LStr s) obj = pack_string s obj"
| "pack_stack_proxy (LBool b) obj = pack_bool b obj"
| "pack_stack_proxy (LTab ps) obj = pack_table (\<lambda>v o'. pack_stack_proxy v o') ps obj"
| "pack_stack_proxy (LUser (Some vs)) obj = fold pack_type vs obj"
| "pack_stack_proxy (LUser None) obj = obj"
| "pack_stack_proxy LOther obj = obj"
  by pat_completeness auto
termination
proof (relation "measure (\<lambda>(v, obj). size v)", goal_cases)
  case 1
  show ?case by simp
next
  case (2 ps obj p o')
  then have "size_prod size size p \<le> size_list (size_prod size size) ps"
    by (rule size_list_estimation') simp
  then show ?case by (cases p) simp
next
  case (3 ps obj p o')
  then have "size_prod size size p \<le> size_list (size_prod size size) ps"
    by (rule size_list_estimation') simp
  then show ?case by (cases p) simp
qed

text \<open>\<^verbatim>\<open>pack(sol::variadic_args)\<close>.\<close>

definition lua_pack :: "lval list \<Rightarrow> byte list" where
  "lua_pack args = fold pack_stack_proxy args []"

section \<open>Unpacking\<close>

record lstate =
  up :: unpacker
  stk :: "lval list"

definition lua_push :: "lval \<Rightarrow> unpacker \<Rightarrow> lstate \<Rightarrow> lstate" where
  "lua_push v u s = \<lparr>up = u, stk = v # stk s\<rparr>"

definition lua_rawset :: "lstate \<Rightarrow> lfault + lstate" where
  "lua_rawset s =
     (case stk s of
        v # k # LTab ps # st \<Rightarrow>
          if k = LNil then Inl LuaApi else Inr (s\<lparr>stk := LTab (ps @ [(k, v)]) # st\<rparr>)
      | _ \<Rightarrow> Inl LuaApi)"

definition lua_rawseti :: "nat \<Rightarrow> lstate \<Rightarrow> lfault + lstate" where
  "lua_rawseti n s =
     (case stk s of
        v # LTab ps # st \<Rightarrow> Inr (s\<lparr>stk := LTab (ps @ [(LInt (of_nat n), v)]) # st\<rparr>)
      | _ \<Rightarrow> Inl LuaApi)"

fun array_loop :: "(lstate \<Rightarrow> lfault + lstate) \<Rightarrow> nat \<Rightarrow> nat \<Rightarrow> lstate \<Rightarrow> lfault + lstate" where
  "array_loop item 0 i s = Inr s"
| "array_loop item (Suc n) i s =
     (case item s of
        Inl f \<Rightarrow> Inl f
      | Inr s1 \<Rightarrow> (case lua_rawseti (i + 1) s1 of Inl f \<Rightarrow> Inl f | Inr s2 \<Rightarrow> array_loop item n (i + 1) s2))"

fun map_loop :: "(lstate \<Rightarrow> lfault + lstate) \<Rightarrow> nat \<Rightarrow> lstate \<Rightarrow> lfault + lstate" where
  "map_loop item 0 s = Inr s"
| "map_loop item (Suc n) s =
     (case item s of
        Inl f \<Rightarrow> Inl f
      | Inr s1 \<Rightarrow>
          (case item s1 of
             Inl f \<Rightarrow> Inl f
           | Inr s2 \<Rightarrow> (case lua_rawset s2 of Inl f \<Rightarrow> Inl f | Inr s3 \<Rightarrow> map_loop item n s3)))"

text \<open>The size loops of \<^verbatim>\<open>unpack_table\<close> add \<open>n\<close> bytes up at their place values.\<close>

fun read_size :: "nat \<Rightarrow> nat \<Rightarrow> unpacker \<Rightarrow> nat \<times> unpacker" where
  "read_size 0 acc u = (acc, u)"
| "read_size (Suc i) acc u =
     (let (b, u1) = safe_data u in read_size i (acc + unat b * 256 ^ i) (safe_incremen 1 u1))"

definition unpack_table :: "(lstate \<Rightarrow> lfault + lstate) \<Rightarrow> lstate \<Rightarrow> lfault + lstate" where
  "unpack_table item s =
     (let (b, u) = safe_data (up s); u1 = safe_incremen 1 u
      in if b = fmt array32
         then (let (n, u2) = read_size 4 0 u1 in array_loop item n 0 (lua_push (LTab []) u2 s))
         else if b = fmt array16
         then (let (n, u2) = read_size 2 0 u1 in array_loop item n 0 (lua_push (LTab []) u2 s))
         else if b = fmt map32 \<or> b = fmt table
         then (let (n, u2) = read_size 4 0 u1 in map_loop item n (lua_push (LTab []) u2 s))
         else if b = fmt map16
         then (let (n, u2) = read_size 2 0 u1 in map_loop item n (lua_push (LTab []) u2 s))
         else if b \<ge> 0x90 \<and> b \<le> 0x9f
         then array_loop item (unat (b AND 0x0f)) 0 (lua_push (LTab []) u1 s)
         else if b \<ge> 0x80 \<and> b \<le> 0x8f
         then map_loop item (unat (b AND 0x0f)) (lua_push (LTab []) u1 s)
         else Inr (s\<lparr>up := out_range u\<rparr>))"

text \<open>Widening a \<^verbatim>\<open>float\<close> to the \<^verbatim>\<open>double\<close> that \<^verbatim>\<open>lua_pushnumber\<close> takes (NaN payloads kept).\<close>

function top_bit :: "nat \<Rightarrow> nat" where
  "top_bit n = (if n \<le> 1 then 0 else Suc (top_bit (n div 2)))"
  by pat_completeness auto
termination by (relation "measure id") auto

definition fp_widen :: "32 word \<Rightarrow> 64 word" where
  "fp_widen w =
     (let bits = unat w; sgn' = bits div 2 ^ 31; ex = bits div 2 ^ 23 mod 2 ^ 8; frac = bits mod 2 ^ 23;
          p = top_bit frac
      in of_nat (sgn' * 2 ^ 63 +
           (if ex = 255 then 2047 * 2 ^ 52 + frac * 2 ^ 29
            else if ex = 0
                 then (if frac = 0 then 0 else (p + 874) * 2 ^ 52 + (frac - 2 ^ p) * 2 ^ (52 - p))
                 else (ex + 896) * 2 ^ 52 + frac * 2 ^ 29)))"

definition lift_fault :: "fault + 'a \<Rightarrow> ('a \<Rightarrow> lstate) \<Rightarrow> lfault + lstate" where
  "lift_fault r k = (case r of Inl f \<Rightarrow> Inl (MsgFault f) | Inr x \<Rightarrow> Inr (k x))"

definition num_to_double :: "num \<Rightarrow> u64" where
  "num_to_double x = (case x of NF32 w \<Rightarrow> fp_widen w | NF64 w \<Rightarrow> w | _ \<Rightarrow> 0)"

fun unpack_stack_proxy :: "nat \<Rightarrow> lstate \<Rightarrow> lfault + lstate" where
  "unpack_stack_proxy 0 s = Inl OutOfFuel"
| "unpack_stack_proxy (Suc d) s =
     (let (b, u) = safe_data (up s); u1 = safe_incremen 1 u
      in if b = fmt nil then Inr (lua_push LNil u1 s)
         else if b = fmt false_bool then Inr (lua_push (LBool False) u1 s)
         else if b = fmt true_bool then Inr (lua_push (LBool True) u1 s)
         else if b = fmt bin8 \<or> b = fmt bin16 \<or> b = fmt bin32
              then (let (v, u') = unpack_bin [] u in Inr (lua_push (LStr v) u' s))
         else if b = fmt float32 \<or> b = fmt float64
              then lift_fault (unpack_number u) (\<lambda>(x, u'). lua_push (LNum (num_to_double x)) u' s)
         else if b = fmt uint8 \<or> b = fmt uint16 \<or> b = fmt uint32 \<or> b = fmt uint64
              then lift_fault (unpack_int False 0 u) (\<lambda>(w, u'). lua_push (LInt w) u' s)
         else if b = fmt int8 \<or> b = fmt int16 \<or> b = fmt int32 \<or> b = fmt int64
              then lift_fault (unpack_int True 0 u) (\<lambda>(w, u'). lua_push (LInt w) u' s)
         else if b = fmt str8 \<or> b = fmt str16 \<or> b = fmt str32
              then (let (v, u') = unpack_string [] u in Inr (lua_push (LStr v) u' s))
         else if b = fmt array16 \<or> b = fmt array32 \<or> b = fmt map16 \<or> b = fmt map32 \<or> b = fmt table
              then unpack_table (unpack_stack_proxy d) (s\<lparr>up := u\<rparr>)
         else if b \<le> 0x7f then Inr (lua_push (LInt (ucast b)) u1 s)
         else if b \<ge> 0xe0 then Inr (lua_push (LInt (scast b)) u1 s)
         else if b \<ge> 0x90 \<and> b \<le> 0x9f then unpack_table (unpack_stack_proxy d) (s\<lparr>up := u\<rparr>)
         else if b \<ge> 0x80 \<and> b \<le> 0x8f then unpack_table (unpack_stack_proxy d) (s\<lparr>up := u\<rparr>)
         else if b \<ge> 0xa0 \<and> b \<le> 0xbf
              then (let n = unat (b AND 0x1f)
                    in if n \<le> length (dat u1)
                       then Inr (lua_push (LStr (take n (dat u1))) (safe_incremen n u1) s)
                       else Inr (s\<lparr>up := out_range u1\<rparr>))
         else Inr (s\<lparr>up := out_range u\<rparr>))"

text \<open>
  \<^verbatim>\<open>while (!unpacker.empty()) { unpacker(state); i++; }\<close>; \<open>None\<close> when the loop does not end. The Lua stack is taken as large enough: the
  source pushes without \<^verbatim>\<open>lua_checkstack\<close>, so that more values than Lua reserves are undefined behaviour.
\<close>

partial_function (option) unpack_loop :: "lstate \<Rightarrow> nat \<Rightarrow> (lfault + (lstate \<times> nat)) option" where
  "unpack_loop s i =
     (if unpacker_empty (up s) then Some (Inr (s, i))
      else (case unpack_stack_proxy (Suc (length (dat (up s)))) s of
              Inl f \<Rightarrow> Some (Inl f)
            | Inr s' \<Rightarrow> unpack_loop s' (i + 1)))"

text \<open>\<^verbatim>\<open>unpack(state, data, ec)\<close>: the \<open>i\<close> values on top of the stack, lowest first, and the error code.\<close>

definition lua_unpack :: "lval list \<Rightarrow> byte list \<Rightarrow> (lfault + (lval list \<times> bool)) option" where
  "lua_unpack st data =
     (case unpack_loop \<lparr>up = Unpacker data, stk = st\<rparr> 0 of
        None \<Rightarrow> None
      | Some (Inl f) \<Rightarrow> Some (Inl f)
      | Some (Inr (s, i)) \<Rightarrow> Some (Inr (rev (take i (stk s)), ec (up s))))"

section \<open>The fuel is enough\<close>

abbreviation bytes_left :: "lstate \<Rightarrow> nat" where
  "bytes_left s \<equiv> length (dat (up s))"

text \<open>A step that never runs out of fuel and never gives bytes back.\<close>

definition safe_step :: "nat \<Rightarrow> (lstate \<Rightarrow> lfault + lstate) \<Rightarrow> bool" where
  "safe_step m item \<longleftrightarrow>
     (\<forall>s. bytes_left s \<le> m \<longrightarrow> item s \<noteq> Inl OutOfFuel \<and> (\<forall>s'. item s = Inr s' \<longrightarrow> bytes_left s' \<le> bytes_left s))"

lemma safe_stepD:
  assumes "safe_step m item" and "bytes_left s \<le> m"
  shows "item s \<noteq> Inl OutOfFuel" and "item s = Inr s' \<Longrightarrow> bytes_left s' \<le> bytes_left s"
  using assms by (auto simp: safe_step_def)

lemma lua_rawset_facts:
  "lua_rawset s \<noteq> Inl OutOfFuel" "lua_rawset s = Inr s' \<Longrightarrow> up s' = up s"
  "lua_rawseti n s \<noteq> Inl OutOfFuel" "lua_rawseti n s = Inr s' \<Longrightarrow> up s' = up s"
  by (auto simp: lua_rawset_def lua_rawseti_def split: list.splits lval.splits if_splits)

lemma array_loop_safe:
  assumes "safe_step m item" and "bytes_left s \<le> m"
  shows "array_loop item n i s \<noteq> Inl OutOfFuel"
    and "array_loop item n i s = Inr s' \<Longrightarrow> bytes_left s' \<le> bytes_left s"
proof -
  have "array_loop item n i s \<noteq> Inl OutOfFuel \<and>
      (\<forall>s'. array_loop item n i s = Inr s' \<longrightarrow> bytes_left s' \<le> bytes_left s)"
    using assms(2)
  proof (induction n arbitrary: i s)
    case (Suc n)
    show ?case
    proof (cases "item s")
      case (Inl f)
      with safe_stepD [OF assms(1) Suc.prems] show ?thesis by auto
    next
      case i: (Inr s1)
      then have le: "bytes_left s1 \<le> bytes_left s" using safe_stepD [OF assms(1) Suc.prems] by auto
      show ?thesis
      proof (cases "lua_rawseti (Suc i) s1")
        case (Inl f)
        with i lua_rawset_facts(3) [of "Suc i" s1] show ?thesis by auto
      next
        case (Inr s2)
        then have "up s2 = up s1" using lua_rawset_facts(4) by blast
        with Suc.IH [of s2 "Suc i"] Suc.prems le i Inr show ?thesis by force
      qed
    qed
  qed simp
  then show "array_loop item n i s \<noteq> Inl OutOfFuel"
    "array_loop item n i s = Inr s' \<Longrightarrow> bytes_left s' \<le> bytes_left s" by auto
qed

lemma map_loop_safe:
  assumes "safe_step m item" and "bytes_left s \<le> m"
  shows "map_loop item n s \<noteq> Inl OutOfFuel"
    and "map_loop item n s = Inr s' \<Longrightarrow> bytes_left s' \<le> bytes_left s"
proof -
  have "map_loop item n s \<noteq> Inl OutOfFuel \<and>
      (\<forall>s'. map_loop item n s = Inr s' \<longrightarrow> bytes_left s' \<le> bytes_left s)"
    using assms(2)
  proof (induction n arbitrary: s)
    case (Suc n)
    show ?case
    proof (cases "item s")
      case (Inl f)
      with safe_stepD [OF assms(1) Suc.prems] show ?thesis by auto
    next
      case i: (Inr s1)
      then have le1: "bytes_left s1 \<le> bytes_left s" using safe_stepD [OF assms(1) Suc.prems] by auto
      then have m1: "bytes_left s1 \<le> m" using Suc.prems by simp
      show ?thesis
      proof (cases "item s1")
        case (Inl f)
        with i safe_stepD [OF assms(1) m1] show ?thesis by auto
      next
        case j: (Inr s2)
        then have le2: "bytes_left s2 \<le> bytes_left s1" using safe_stepD [OF assms(1) m1] by auto
        show ?thesis
        proof (cases "lua_rawset s2")
          case (Inl f)
          with i j lua_rawset_facts(1) [of s2] show ?thesis by auto
        next
          case (Inr s3)
          then have "up s3 = up s2" using lua_rawset_facts(2) by blast
          with Suc.IH [of s3] Suc.prems le1 le2 i j Inr show ?thesis by force
        qed
      qed
    qed
  qed simp
  then show "map_loop item n s \<noteq> Inl OutOfFuel"
    "map_loop item n s = Inr s' \<Longrightarrow> bytes_left s' \<le> bytes_left s" by auto
qed

lemma safe_data_dat: "safe_data u = (b, u') \<Longrightarrow> dat u' = dat u \<and> (b \<noteq> 0 \<longrightarrow> dat u \<noteq> [])"
  by (auto simp: safe_data_def out_range_def split: list.splits)

lemma safe_incremen_dat: "dat (safe_incremen n u) = drop n (dat u)"
  by (simp add: safe_incremen_def out_range_def)

lemma read_size_dat: "read_size i acc u = (n, u') \<Longrightarrow> length (dat u') \<le> length (dat u)"
proof (induction i arbitrary: acc u)
  case (Suc i)
  obtain b u1 where "safe_data u = (b, u1)" by (cases "safe_data u")
  with Suc show ?case using safe_data_dat [of u b u1] by (fastforce simp: safe_incremen_dat)
qed simp

lemma read_be_dat: "read_be i acc u = (n, u') \<Longrightarrow> length (dat u') \<le> length (dat u)"
proof (induction i arbitrary: acc u)
  case (Suc i)
  obtain b u1 where "safe_data u = (b, u1)" by (cases "safe_data u")
  with Suc show ?case using safe_data_dat [of u b u1] by (fastforce simp: safe_incremen_dat)
qed simp

lemma unpack_table_safe:
  assumes "safe_step m item" and "bytes_left s \<le> Suc m"
  shows "unpack_table item s \<noteq> Inl OutOfFuel"
    and "unpack_table item s = Inr s' \<Longrightarrow> bytes_left s' \<le> bytes_left s"
proof -
  obtain b u where bu: "safe_data (up s) = (b, u)" by (cases "safe_data (up s)")
  note sd = safe_data_dat [OF bu]
  obtain n4 u4 n2 u2 where r: "read_size 4 0 (safe_incremen (Suc 0) u) = (n4, u4)"
    "read_size 2 0 (safe_incremen (Suc 0) u) = (n2, u2)" by (meson surj_pair)
  have le: "length (dat u4) \<le> bytes_left s - 1" "length (dat u2) \<le> bytes_left s - 1"
    using read_size_dat [OF r(1)] read_size_dat [OF r(2)] sd by (simp_all add: safe_incremen_dat)
  have p: "bytes_left (lua_push (LTab []) u4 s) \<le> m" "bytes_left (lua_push (LTab []) u2 s) \<le> m"
    "bytes_left (lua_push (LTab []) (safe_incremen (Suc 0) u) s) \<le> m"
    using le assms(2) sd by (simp_all add: lua_push_def safe_incremen_dat)
  have q: "bytes_left (lua_push v u' s) = length (dat u')" for v u'
    by (simp add: lua_push_def)
  note loops = array_loop_safe [OF assms(1)] map_loop_safe [OF assms(1)]
  show "unpack_table item s \<noteq> Inl OutOfFuel"
    using loops(1,3) p by (auto simp: unpack_table_def bu r Let_def)
  have l: "bytes_left s'' \<le> bytes_left s"
    if "array_loop item n 0 (lua_push (LTab []) u' s) = Inr s'' \<or> map_loop item n (lua_push (LTab []) u' s) = Inr s''"
      "length (dat u') \<le> bytes_left s - 1" "length (dat u') \<le> m" for u' n s''
  proof -
    have "bytes_left s'' \<le> length (dat u')"
      using that(1,3) loops(2) [of "lua_push (LTab []) u' s" n 0 s''] loops(4) [of "lua_push (LTab []) u' s" n s'']
      by (auto simp: q)
    with that(2) show ?thesis by linarith
  qed
  show "bytes_left s' \<le> bytes_left s" if "unpack_table item s = Inr s'"
    using that le p sd l [of n4 u4 s'] l [of n2 u2 s'] l [of "unat (b AND 15)" "safe_incremen (Suc 0) u" s']
    by (auto simp: unpack_table_def bu r q Let_def safe_incremen_dat out_range_def split: if_splits)
qed

lemma read_signed_dat: "read_signed n c u = Inr (x, u') \<Longrightarrow> length (dat u') \<le> length (dat u)"
  by (auto simp: read_signed_def split: prod.splits dest: read_be_dat)

lemma unpack_number_dat:
  assumes "unpack_number u = Inr (x, u')"
  shows "length (dat u') \<le> length (dat u)"
proof -
  obtain b v where bv: "safe_data u = (b, v)" by (cases "safe_data u")
  have k: "length (dat v') \<le> length (dat u)"
    if "read_signed n c (safe_incremen (Suc 0) v) = Inr (w, v')" for n c w v'
    using read_signed_dat [OF that] safe_data_dat [OF bv] by (simp add: safe_incremen_dat)
  show ?thesis
    using assms safe_data_dat [OF bv] unfolding unpack_number_def
    by (auto simp: bv read_raw_def safe_incremen_dat out_range_def Let_def
        split: if_splits sum.splits prod.splits dest: k)
qed

lemma unpack_string_dat:
  assumes "unpack_string x u = (v, u')"
  shows "length (dat u') \<le> length (dat u)"
proof -
  have "length (dat u2) \<le> length (dat u)" if "unpack_str_size u = Some (n, u2)" for n u2
    using that
    by (auto simp: unpack_str_size_def Let_def read_be_unsigned_def safe_incremen_dat
        split: if_splits prod.splits dest!: read_be_dat safe_data_dat)
  with assms show ?thesis
    by (fastforce simp: unpack_string_def take_bytes_def safe_incremen_dat out_range_def
        split: option.splits if_splits)
qed

lemma unpack_bin_dat:
  assumes "unpack_bin x u = (v, u')"
  shows "length (dat u') \<le> length (dat u)"
proof -
  have "length (dat u2) \<le> length (dat u)" if "unpack_bin_size u = Some (n, u2)" for n u2
    using that
    by (auto simp: unpack_bin_size_def Let_def read_be_unsigned_def safe_incremen_dat
        split: if_splits prod.splits dest!: read_be_dat safe_data_dat)
  with assms show ?thesis
    by (fastforce simp: unpack_bin_def take_bytes_def safe_incremen_dat out_range_def
        split: option.splits if_splits)
qed

lemma unpack_int_dat:
  "unpack_int sgnd x u = Inr (w, u') \<Longrightarrow> length (dat u') \<le> length (dat u)"
  by (auto simp: unpack_int_def split: sum.splits prod.splits dest: unpack_number_dat)

lemma lift_fault_safe:
  "lift_fault r k \<noteq> Inl OutOfFuel" "lift_fault r k = Inr s \<Longrightarrow> \<exists>x. r = Inr x \<and> s = k x"
  by (auto simp: lift_fault_def split: sum.splits)

definition within :: "nat \<Rightarrow> lfault + lstate \<Rightarrow> bool" where
  "within n r \<longleftrightarrow> r \<noteq> Inl OutOfFuel \<and> (\<forall>s'. r = Inr s' \<longrightarrow> bytes_left s' \<le> n)"

lemma within_if: "(c \<Longrightarrow> within n x) \<Longrightarrow> (\<not> c \<Longrightarrow> within n y) \<Longrightarrow> within n (if c then x else y)"
  by simp

lemma within_push: "length (dat u) \<le> n \<Longrightarrow> within n (Inr (lua_push v u s))"
  by (simp add: within_def lua_push_def)

lemma within_up: "length (dat u) \<le> n \<Longrightarrow> within n (Inr (s\<lparr>up := u\<rparr>))"
  by (simp add: within_def)

lemma within_number:
  "length (dat u) \<le> n \<Longrightarrow> within n (lift_fault (unpack_number u) (\<lambda>(x, u'). lua_push (f x) u' s))"
  by (auto simp: within_def lift_fault_safe(1) lua_push_def dest!: lift_fault_safe(2) unpack_number_dat)

lemma within_int:
  "length (dat u) \<le> n \<Longrightarrow> within n (lift_fault (unpack_int sgnd x u) (\<lambda>(w, u'). lua_push (f w) u' s))"
  by (auto simp: within_def lift_fault_safe(1) lua_push_def dest!: lift_fault_safe(2) unpack_int_dat)

lemma within_bin: "length (dat u) \<le> n \<Longrightarrow> within n (let (v, u') = unpack_bin x u in Inr (lua_push (f v) u' s))"
  by (auto simp: within_def lua_push_def split: prod.splits dest!: unpack_bin_dat)

lemma within_string:
  "length (dat u) \<le> n \<Longrightarrow> within n (let (v, u') = unpack_string x u in Inr (lua_push (f v) u' s))"
  by (auto simp: within_def lua_push_def split: prod.splits dest!: unpack_string_dat)

lemmas within_intros = within_if within_push within_up within_number within_int within_bin within_string

lemma unpack_stack_proxy_step_safe:
  assumes "\<And>s. bytes_left s \<le> m \<Longrightarrow> dat (up s) \<noteq> [] \<Longrightarrow>
             within (bytes_left s) (unpack_table (unpack_stack_proxy d) s)"
  shows "safe_step m (unpack_stack_proxy (Suc d))"
proof -
  have "within (bytes_left s) (unpack_stack_proxy (Suc d) s)" if s: "bytes_left s \<le> m" for s
  proof -
    obtain b u where bu: "safe_data (up s) = (b, u)" by (cases "safe_data (up s)")
    note sd = safe_data_dat [OF bu]
    have t: "within (bytes_left s) (unpack_table (unpack_stack_proxy d) (s\<lparr>up := u\<rparr>))" if "b \<noteq> 0"
      using assms [of "s\<lparr>up := u\<rparr>"] s sd that by simp
    have l: "length (dat u) \<le> bytes_left s" "length (dat (safe_incremen k u)) \<le> bytes_left s"
      "length (dat (safe_incremen k (safe_incremen j u))) \<le> bytes_left s"
      "length (dat (out_range u)) \<le> bytes_left s"
      "length (dat (out_range (safe_incremen k u))) \<le> bytes_left s" for k j
      using sd by (simp_all add: safe_incremen_dat out_range_def)
    show ?thesis
      unfolding unpack_stack_proxy.simps bu Let_def [of "(b, u)"] prod.case Let_def [of "safe_incremen _ _"] Let_def [of "unat _"]
      by (intro within_intros l t; auto)
  qed
  then show ?thesis by (simp add: safe_step_def within_def del: unpack_stack_proxy.simps)
qed

lemma unpack_stack_proxy_safe: "safe_step m (unpack_stack_proxy (Suc m))"
proof (induction m)
  case 0
  then show ?case by (rule unpack_stack_proxy_step_safe) simp
next
  case (Suc m)
  show ?case
  proof (rule unpack_stack_proxy_step_safe)
    fix s
    assume "bytes_left s \<le> Suc m"
    from unpack_table_safe [OF Suc.IH this]
    show "within (bytes_left s) (unpack_table (unpack_stack_proxy (Suc m)) s)"
      by (simp add: within_def del: unpack_stack_proxy.simps)
  qed
qed

lemma unpack_loop_fuel:
  assumes "unpack_loop s i = Some r"
  shows "r \<noteq> Inl OutOfFuel"
proof (rule unpack_loop.raw_induct [OF _ assms], goal_cases)
  case (1 loop s i r)
  then show ?case
    using safe_stepD(1) [OF unpack_stack_proxy_safe, of s "bytes_left s"]
    by (auto split: if_splits sum.splits simp del: unpack_stack_proxy.simps)
qed

section \<open>Round trip\<close>

text \<open>
  The values that survive: no integer \<open>-32\<close>, whose encoding is the \<^verbatim>\<open>table\<close> marker; no float that
  equals a 64-bit integer, which comes back as that integer; strings of at most 255 bytes; tables of
  fewer than \<open>2 ^ 32\<close> such pairs, with no nil key.
\<close>

fun lua_ok :: "lval \<Rightarrow> bool" where
  "lua_ok LNil = True"
| "lua_ok (LBool b) = True"
| "lua_ok (LInt i) = (sint i \<noteq> -32)"
| "lua_ok (LNum d) =
     (case fp_exact 52 11 (uint d) of None \<Rightarrow> True | Some i \<Rightarrow> \<not> (- (2 ^ 63) \<le> i \<and> i < 2 ^ 63))"
| "lua_ok (LStr s) = (length s \<le> 255)"
| "lua_ok (LTab ps) =
     (length ps < 2 ^ 32 \<and> list_all (\<lambda>p. fst p \<noteq> LNil \<and> lua_ok (fst p) \<and> lua_ok (snd p)) ps)"
| "lua_ok (LUser u) = False"
| "lua_ok LOther = False"

lemma pack_table_eq:
  assumes "\<And>p o'. p \<in> set ps \<Longrightarrow> item (fst p) o' = o' @ item (fst p) []"
    and "\<And>p o'. p \<in> set ps \<Longrightarrow> item (snd p) o' = o' @ item (snd p) []"
  shows "pack_table item ps obj = obj @ fmt table # be_bytes 4 (size_word (length ps)) @
    concat (map (\<lambda>p. item (fst p) [] @ item (snd p) []) ps)"
proof -
  have "fold (\<lambda>(k, v) o'. item v (item k o')) qs o' = o' @ concat (map (\<lambda>p. item (fst p) [] @ item (snd p) []) qs)"
    if "set qs \<subseteq> set ps" for qs o'
    using that
  proof (induction qs arbitrary: o')
    case (Cons p qs)
    then have "item (snd p) (item (fst p) o') = o' @ item (fst p) [] @ item (snd p) []"
      using assms(1) [of p o'] assms(2) [of p "o' @ item (fst p) []"] by simp
    with Cons show ?case by (cases p) simp
  qed simp
  then show ?thesis by (simp add: pack_table_def patch_count_def)
qed

lemma pack_stack_proxy_append: "pack_stack_proxy v obj = obj @ pack_stack_proxy v []"
proof (induction v arbitrary: obj)
  case (LNum d)
  then show ?case
    by (auto simp: pack_double_def pack_int_append split: option.split)
next
  case (LTab ps)
  have "pack_table (\<lambda>v o'. pack_stack_proxy v o') ps o' = o' @ fmt table # be_bytes 4 (size_word (length ps)) @
      concat (map (\<lambda>p. pack_stack_proxy (fst p) [] @ pack_stack_proxy (snd p) []) ps)" for o'
    by (rule pack_table_eq) (rule LTab, assumption, case_tac p, simp)+
  then show ?case by simp
next
  case (LUser u)
  then show ?case by (cases u) (simp_all add: fold_pack_type)
qed (auto simp: pack_int_append pack_nil_def pack_bool_def pack_string_def Let_def)

lemma pack_stack_proxy_table:
  "pack_stack_proxy (LTab ps) [] = fmt table # be_bytes 4 (size_word (length ps)) @
     concat (map (\<lambda>p. pack_stack_proxy (fst p) [] @ pack_stack_proxy (snd p) []) ps)"
proof -
  have "pack_table (\<lambda>v o'. pack_stack_proxy v o') ps [] = [] @ fmt table # be_bytes 4 (size_word (length ps)) @
     concat (map (\<lambda>p. pack_stack_proxy (fst p) [] @ pack_stack_proxy (snd p) []) ps)"
    by (rule pack_table_eq) (rule pack_stack_proxy_append)+
  then show ?thesis by simp
qed

lemma read_size_eq:
  "read_size (length bs) acc \<lparr>dat = bs @ rest, ec = e\<rparr> = (acc + be_val bs, \<lparr>dat = rest, ec = e\<rparr>)"
  by (induction bs arbitrary: acc) (simp_all add: safe_data_def safe_incremen_def)

lemma read_size_empty: "read_size n acc \<lparr>dat = [], ec = e\<rparr> = (acc, \<lparr>dat = [], ec = e \<or> n \<noteq> 0\<rparr>)"
  by (induction n arbitrary: acc e) (simp_all add: safe_data_def safe_incremen_def out_range_def)

lemma read_size_be_bytes:
  assumes "n < 256 ^ k" and "k \<le> 8"
  shows "read_size k 0 \<lparr>dat = be_bytes k (size_word n) @ rest, ec = e\<rparr> = (n, \<lparr>dat = rest, ec = e\<rparr>)"
proof -
  have "n < 256 ^ 8"
    using assms power_increasing [of k 8 "256 :: nat"] by linarith
  with assms(1) show ?thesis
    using read_size_eq [of "be_bytes k (size_word n)" 0 rest e] by (simp add: be_val_be_bytes)
qed

lemma pack_int64_shape:
  obtains (pos) b where "pack_int64 v [] = [b]" "b \<le> 0x7f"
  | (neg) b where "pack_int64 v [] = [b]" "b \<ge> 0xe0"
  | (wide) f bs where "pack_int64 v [] = f # bs" "f = fmt int8 \<or> f = fmt int16 \<or> f = fmt int32 \<or> f = fmt int64"
proof -
  have 8: "(\<exists>b. pack_int8 w [] = [b] \<and> b \<le> 0x7f) \<or> (\<exists>b. pack_int8 w [] = [b] \<and> b \<ge> 0xe0)
      \<or> pack_int8 w [] = [fmt int8, w]" for w
  proof (cases "sint w < 0 \<and> - 32 \<le> sint w")
    case True
    then show ?thesis using word_of_neg_fix(1) [of w] pack_int8_neg [of w] by auto
  next
    case False
    then show ?thesis
      using nonneg_byte_le(1) [of w] sint_lt [of w] by (auto simp: pack_int8_def)
  qed
  show thesis
  proof (cases "- 128 \<le> sint v \<and> sint v \<le> 127")
    case True
    then have "pack_int64 v [] = pack_int8 (ucast (ucast (ucast v :: u32) :: u16)) []"
      using sint_ucast_narrow [of v, where 'b = 32] sint_ucast_narrow [of "ucast v :: u32", where 'b = 16]
      by (simp add: pack_int64_def pack_int32_def pack_int16_def)
    with 8 pos neg wide show thesis by metis
  next
    case False
    show thesis
      by (rule wide [of "hd (pack_int64 v [])" "tl (pack_int64 v [])"])
        (use False in \<open>auto simp: pack_int64_def pack_int32_def pack_int16_def sint_ucast_narrow\<close>)
  qed
qed

text \<open>Decoding what was packed: the value is pushed and its bytes are consumed.\<close>

definition decodes :: "nat \<Rightarrow> lval \<Rightarrow> byte list \<Rightarrow> bool" where
  "decodes d v bs \<longleftrightarrow> (\<forall>rest e st. unpack_stack_proxy d \<lparr>up = \<lparr>dat = bs @ rest, ec = e\<rparr>, stk = st\<rparr> =
     Inr \<lparr>up = \<lparr>dat = rest, ec = e\<rparr>, stk = v # st\<rparr>)"

lemma decodes_int:
  assumes "sint v \<noteq> - 32"
  shows "decodes (Suc d) (LInt v) (pack_int64 v [])"
proof -
  have num: "unpack_number \<lparr>dat = pack_int64 v [] @ rest, ec = e\<rparr> = Inr (NInt (sint v), \<lparr>dat = rest, ec = e\<rparr>)" for rest e
    by (rule unpack_pack_int64)
  show ?thesis
  proof (cases v rule: pack_int64_shape)
    case (pos b)
    then have "sint v = uint b" using num unpack_number_fixint(1) [of b "[]" False] by (metis append_Cons append_Nil Inr_inject Pair_inject num.inject(1))
    moreover have "(ucast b :: u64) = word_of_int (uint b)" by simp
    moreover have "word_of_int (sint v) = v" by simp
    ultimately have "ucast b = v" by simp
    moreover have "b \<noteq> fmt f" for f using pos(2) by (cases f) auto
    ultimately show ?thesis
      using pos by (simp add: decodes_def safe_data_def safe_incremen_def lua_push_def del: fmt.simps)
  next
    case (neg b)
    then have s: "sint v = sint b" using num unpack_number_fixint(2) [of b "[]" False] by (metis append_Cons append_Nil Inr_inject Pair_inject num.inject(1))
    then have "(word_of_int (sint b) :: u64) = word_of_int (sint v)" by (simp only:)
    then have "scast b = v" by simp
    moreover have "b \<noteq> 0xe0" using s assms by auto
    then have "b \<noteq> fmt f" for f using neg(2) by (cases f) auto
    moreover have "\<not> b \<le> 0x7f" using neg(2) by (auto simp: word_le_def)
    ultimately show ?thesis
      using neg by (simp add: decodes_def safe_data_def safe_incremen_def lua_push_def del: fmt.simps)
  next
    case (wide f bs)
    then have "unpack_int True 0 \<lparr>dat = f # bs @ rest, ec = e\<rparr> = Inr (v, \<lparr>dat = rest, ec = e\<rparr>)" for rest e
      using num [of rest e] by (simp add: unpack_int_def cast_number_def)
    with wide show ?thesis
      by (auto simp: decodes_def safe_data_def lua_push_def lift_fault_def)
  qed
qed

lemma decodes_double:
  assumes "lua_ok (LNum d)"
  shows "decodes (Suc n) (LNum d) (pack_double d [])"
proof -
  have "pack_double d [] = fmt float64 # le_bytes 8 d"
    using assms by (auto simp: pack_double_def split: option.splits)
  then show ?thesis
    by (simp add: decodes_def safe_data_def safe_incremen_def lua_push_def lift_fault_def unpack_number_def
        read_raw_def num_to_double_def le_word_le_bytes_64 Let_def)
qed

lemma decodes_string:
  assumes "length s \<le> 255"
  shows "decodes (Suc n) (LStr s) (pack_string s [])"
proof (cases "length s \<le> 31")
  case True
  define b where "b = (ucast (0xa0 OR size_word (length s)) :: byte)"
  have b: "0xa0 \<le> b" "b \<le> 0xbf" "unat (b AND 0x1f) = length s"
    using tag_ok(1) [OF True] by (simp_all add: tag_ok_def b_def Let_def)
  have n: "\<not> b \<le> 0x7f" "\<not> 0xe0 \<le> b" "\<not> b \<le> 0x9f" "\<not> b \<le> 0x8f"
    using b(1,2) by (auto simp: word_le_def)
  have f: "b \<noteq> fmt f" for f using b(1,2) by (cases f) auto
  have "pack_string s [] = b # s" using True by (simp add: pack_string_def b_def)
  with b n f show ?thesis
    by (simp add: decodes_def safe_data_def safe_incremen_def lua_push_def del: fmt.simps)
next
  case False
  with assms have "pack_string s [] = fmt str8 # ucast (size_word (length s)) # s"
    by (simp add: pack_string_def)
  with assms show ?thesis
    using unpack_string_pack [OF assms, of "[]"] by (simp add: decodes_def safe_data_def lua_push_def)
qed

lemma map_loop_decodes:
  assumes "\<And>p. p \<in> set ps \<Longrightarrow> fst p \<noteq> LNil \<and> decodes d (fst p) (enc (fst p)) \<and> decodes d (snd p) (enc (snd p))"
  shows "map_loop (unpack_stack_proxy d) (length ps)
           \<lparr>up = \<lparr>dat = concat (map (\<lambda>p. enc (fst p) @ enc (snd p)) ps) @ rest, ec = e\<rparr>, stk = LTab acc # st\<rparr> =
         Inr \<lparr>up = \<lparr>dat = rest, ec = e\<rparr>, stk = LTab (acc @ ps) # st\<rparr>"
  using assms
proof (induction ps arbitrary: acc)
  case (Cons p ps)
  then have "fst p \<noteq> LNil" "decodes d (fst p) (enc (fst p))" "decodes d (snd p) (enc (snd p))" by auto
  with Cons show ?case by (simp add: decodes_def lua_rawset_def)
qed simp

lemma decodes_table:
  assumes "length ps < 2 ^ 32"
    and "\<And>p. p \<in> set ps \<Longrightarrow> fst p \<noteq> LNil \<and>
           decodes d (fst p) (pack_stack_proxy (fst p) []) \<and> decodes d (snd p) (pack_stack_proxy (snd p) [])"
  shows "decodes (Suc d) (LTab ps) (pack_stack_proxy (LTab ps) [])"
proof -
  let ?body = "concat (map (\<lambda>p. pack_stack_proxy (fst p) [] @ pack_stack_proxy (snd p) []) ps)"
  have "unpack_stack_proxy (Suc d) \<lparr>up = \<lparr>dat = pack_stack_proxy (LTab ps) [] @ rest, ec = e\<rparr>, stk = st\<rparr> =
      Inr \<lparr>up = \<lparr>dat = rest, ec = e\<rparr>, stk = LTab ps # st\<rparr>" for rest e st
  proof -
    have "read_size 4 0 \<lparr>dat = be_bytes 4 (size_word (length ps)) @ ?body @ rest, ec = e\<rparr> =
        (length ps, \<lparr>dat = ?body @ rest, ec = e\<rparr>)"
      by (rule read_size_be_bytes) (use assms(1) in simp_all)
    then have "unpack_stack_proxy (Suc d) \<lparr>up = \<lparr>dat = pack_stack_proxy (LTab ps) [] @ rest, ec = e\<rparr>, stk = st\<rparr> =
        map_loop (unpack_stack_proxy d) (length ps) \<lparr>up = \<lparr>dat = ?body @ rest, ec = e\<rparr>, stk = LTab [] # st\<rparr>"
      unfolding pack_stack_proxy_table
      by (simp add: safe_data_def safe_incremen_def unpack_table_def Let_def lua_push_def)
    also have "\<dots> = Inr \<lparr>up = \<lparr>dat = rest, ec = e\<rparr>, stk = LTab ([] @ ps) # st\<rparr>"
      by (rule map_loop_decodes) (rule assms(2))
    finally show ?thesis by simp
  qed
  then show ?thesis by (simp add: decodes_def del: unpack_stack_proxy.simps pack_stack_proxy.simps)
qed

lemma length_concat_mem: "x \<in> set xs \<Longrightarrow> length (f x) \<le> length (concat (map f xs))"
  by (induction xs) auto

lemma decodes_pack:
  assumes "lua_ok v" and "length (pack_stack_proxy v []) \<le> d"
  shows "decodes d v (pack_stack_proxy v [])"
  using assms
proof (induction v arbitrary: d)
  case LNil
  then show ?case
    by (cases d) (auto simp: pack_nil_def decodes_def safe_data_def safe_incremen_def lua_push_def)
next
  case (LBool b)
  then show ?case
    by (cases d) (auto simp: pack_bool_def decodes_def safe_data_def safe_incremen_def lua_push_def split: if_splits)
next
  case (LInt i)
  have "d \<noteq> 0" using LInt(2) by (cases i rule: pack_int64_shape) auto
  then show ?case using LInt decodes_int by (cases d) auto
next
  case (LNum x)
  then have "d \<noteq> 0" by (auto simp: pack_double_def split: option.splits if_splits)
  then show ?case using LNum decodes_double by (cases d) auto
next
  case (LStr s)
  then have "d \<noteq> 0" by (auto simp: pack_string_def Let_def split: if_splits)
  then show ?case using LStr decodes_string by (cases d) auto
next
  case (LTab ps)
  let ?f = "\<lambda>p. pack_stack_proxy (fst p) [] @ pack_stack_proxy (snd p) []"
  obtain m where d: "d = Suc m" "length (concat (map ?f ps)) \<le> m"
    using LTab.prems(2) by (cases d) (simp_all add: pack_stack_proxy_table del: pack_stack_proxy.simps length_concat)
  have "fst p \<noteq> LNil \<and> decodes m (fst p) (pack_stack_proxy (fst p) []) \<and> decodes m (snd p) (pack_stack_proxy (snd p) [])"
    if p: "p \<in> set ps" for p
  proof -
    have "length (?f p) \<le> m" using length_concat_mem [OF p, of ?f] d(2) by linarith
    moreover have "fst p \<noteq> LNil" "lua_ok (fst p)" "lua_ok (snd p)"
      using LTab.prems(1) p by (auto simp: list_all_iff)
    moreover have "fst p \<in> Basic_BNFs.fsts p" "snd p \<in> Basic_BNFs.snds p" by (cases p, simp)+
    ultimately show ?thesis using LTab.IH [OF p] by simp
  qed
  with LTab.prems(1) show ?case unfolding d(1) by (intro decodes_table) simp_all
qed simp_all

lemma pack_stack_proxy_nonempty: "lua_ok v \<Longrightarrow> pack_stack_proxy v [] \<noteq> []"
  using decodes_pack [of v 0] by (auto simp: decodes_def)

lemma unpack_loop_pack:
  assumes "list_all lua_ok vs"
  shows "unpack_loop \<lparr>up = \<lparr>dat = concat (map (\<lambda>v. pack_stack_proxy v []) vs), ec = e\<rparr>, stk = st\<rparr> i =
           Some (Inr (\<lparr>up = \<lparr>dat = [], ec = e\<rparr>, stk = rev vs @ st\<rparr>, i + length vs))"
  using assms
proof (induction vs arbitrary: st i)
  case Nil
  then show ?case by (subst unpack_loop.simps) (simp add: unpacker_empty_def)
next
  case (Cons v vs)
  let ?b = "pack_stack_proxy v []" and ?r = "concat (map (\<lambda>v. pack_stack_proxy v []) vs)"
  have "decodes (Suc (length (?b @ ?r))) v ?b"
    by (rule decodes_pack) (use Cons.prems in \<open>simp_all del: length_concat\<close>)
  then have "unpack_stack_proxy (Suc (length (?b @ ?r))) \<lparr>up = \<lparr>dat = ?b @ ?r, ec = e\<rparr>, stk = st\<rparr> =
      Inr \<lparr>up = \<lparr>dat = ?r, ec = e\<rparr>, stk = v # st\<rparr>"
    by (simp add: decodes_def del: unpack_stack_proxy.simps length_append)
  moreover have "?b @ ?r \<noteq> []" using pack_stack_proxy_nonempty Cons.prems by simp
  ultimately show ?case
    using Cons.IH [of "v # st" "Suc i"] Cons.prems
    by (subst unpack_loop.simps)
      (simp add: unpacker_empty_def del: unpack_stack_proxy.simps length_append length_concat append_is_Nil_conv)
qed

text \<open>
  The Lua values of \<open>lua_ok\<close> survive the trip through \<^verbatim>\<open>pack\<close> and \<^verbatim>\<open>unpack\<close>: on any Lua stack with room for them, the loop
  returns exactly the packed values in order, with the error code clear. (Not in \<open>lua_ok\<close>: the integer -32, floats with an integral
  value, strings of more than 255 bytes, user data.)
\<close>

theorem lua_roundtrip:
  assumes "list_all lua_ok vs"
  shows "lua_unpack st (lua_pack vs) = Some (Inr (vs, False))"
proof -
  have "fold pack_stack_proxy vs [] = [] @ concat (map (\<lambda>v. pack_stack_proxy v []) vs)"
    by (rule fold_appends) (rule pack_stack_proxy_append)
  then have "lua_pack vs = concat (map (\<lambda>v. pack_stack_proxy v []) vs)" by (simp add: lua_pack_def)
  then show ?thesis
    using unpack_loop_pack [OF assms, of False st 0] by (simp add: lua_unpack_def Unpacker_def)
qed

theorem lua_roundtrip_witness:
  "lua_unpack [] (lua_pack [LInt (-70000), LTab [(LStr [97], LTab [(LInt 1, LBool True)])], LNum 0x3fe0000000000000]) =
   Some (Inr ([LInt (-70000), LTab [(LStr [97], LTab [(LInt 1, LBool True)])], LNum 0x3fe0000000000000], False))"
  by (rule lua_roundtrip) (simp add: fp_exact_def fp_parts_def Let_def)

text \<open>
  A byte that starts no known encoding (\<open>0xc1\<close>, the \<^verbatim>\<open>ext\<close> and \<^verbatim>\<open>fixext\<close> markers) stops the
  unpacker from making progress: the error code is set, no byte is consumed and the
  \<^verbatim>\<open>while (!unpacker.empty())\<close> loop of \<^verbatim>\<open>unpack\<close> never returns.
\<close>

theorem lua_unpack_diverges:
  assumes "b \<in> {0xc1, 0xc7, 0xc8, 0xc9, 0xd4, 0xd5, 0xd6, 0xd7, 0xd8}"
  shows "lua_unpack st (b # rest) = None"
proof -
  have stuck: "unpack_stack_proxy (Suc d) s = Inr (s\<lparr>up := out_range (up s)\<rparr>)" if "dat (up s) = b # rest" for d s
    using assms that by (auto simp: safe_data_def)
  have nd: "dat (up s) \<noteq> b # rest" if "unpack_loop s i = Some r" for s i r
  proof (rule unpack_loop.raw_induct [OF _ that], goal_cases)
    case (1 loop s i r)
    show ?case
    proof
      assume eq: "dat (up s) = b # rest"
      have "dat (up (s\<lparr>up := out_range (up s)\<rparr>)) = b # rest" using eq by (simp add: out_range_def)
      with 1(1) [of "s\<lparr>up := out_range (up s)\<rparr>" "Suc i" r] 1(2) show False
        unfolding stuck [OF eq] by (simp add: unpacker_empty_def eq)
    qed
  qed
  have "unpack_loop \<lparr>up = Unpacker (b # rest), stk = st\<rparr> 0 = None"
    using nd [of "\<lparr>up = Unpacker (b # rest), stk = st\<rparr>" 0]
    by (cases "unpack_loop \<lparr>up = Unpacker (b # rest), stk = st\<rparr> 0") (simp_all add: Unpacker_def)
  then show ?thesis by (simp add: lua_unpack_def)
qed

theorem lua_unpack_diverges_witness: "lua_unpack [] [0xc1] = None"
  by (rule lua_unpack_diverges) simp

text \<open>
  The Lua integer \<open>-32\<close> is packed as the byte \<open>0xe0\<close>, which is also the \<^verbatim>\<open>table\<close> marker: alone
  in a message it comes back as an empty table with the error code set.
\<close>

theorem lua_minus_32: "lua_unpack st (lua_pack [LInt (-32)]) = Some (Inr ([LTab []], True))"
proof -
  have "lua_pack [LInt (-32)] = [0xe0]"
    by (simp add: lua_pack_def pack_int64_def pack_int32_def pack_int16_def pack_int8_def)
  moreover have "unpack_stack_proxy (Suc (Suc 0)) \<lparr>up = \<lparr>dat = [0xe0], ec = False\<rparr>, stk = st\<rparr> =
      Inr \<lparr>up = \<lparr>dat = [], ec = True\<rparr>, stk = LTab [] # st\<rparr>"
    by (simp add: safe_data_def safe_incremen_def out_range_def unpack_table_def Let_def lua_push_def
        read_size_empty)
  ultimately show ?thesis
    by (simp add: lua_unpack_def Unpacker_def unpack_loop.simps [of "\<lparr>up = _, stk = _\<rparr>"] unpacker_empty_def
        del: unpack_stack_proxy.simps)
qed

end
