(* ===== verification/Tran_Buf.thy ===== *)
theory Tran_Buf
  imports Gb_Prelude Atomics "HOL-Library.Multiset"
begin

text \<open>
  The reference-counted block pool of \<^verbatim>\<open>src/buffer/tran_buf_pool.h\<close>. The heap is explicit: a block
  has the size and reference count stored in front of its data, and its data bytes. A pointer to the
  data of a block is the block's number; a \<^verbatim>\<open>char*\<close> into a block is that number with an offset.
  \<^verbatim>\<open>::malloc\<close> gives a new block while \<open>avail\<close> bytes suffice, and null otherwise; its initial contents
  are arbitrary (\<open>junk\<close>). Access to a block that is not allocated, or outside its data, is \<open>None\<close>.
\<close>

section \<open>The heap\<close>

record block =
  blk_size :: int
  ref_count :: int
  payload :: "byte list"

record mem =
  blocks :: "nat \<Rightarrow> block option"
  next_ptr :: nat
  avail :: nat
  junk :: "nat \<Rightarrow> nat \<Rightarrow> byte"

definition TRAN_BUF_BLOCK_BASE_SIZE :: nat where
  "TRAN_BUF_BLOCK_BASE_SIZE = 64"

definition TRAN_BUF_BLOCK_MAX_FACTOR :: nat where
  "TRAN_BUF_BLOCK_MAX_FACTOR = 9"

text \<open>\<^verbatim>\<open>memcpy\<close> from and to the data of a block.\<close>

definition read_mem :: "mem \<Rightarrow> nat \<Rightarrow> int \<Rightarrow> int \<Rightarrow> byte list option" where
  "read_mem m p off n =
     (case blocks m p of
        None \<Rightarrow> None
      | Some b \<Rightarrow>
          if 0 \<le> off \<and> 0 \<le> n \<and> off + n \<le> int (length (payload b))
          then Some (take (nat n) (drop (nat off) (payload b))) else None)"

definition write_mem :: "mem \<Rightarrow> nat \<Rightarrow> int \<Rightarrow> byte list \<Rightarrow> mem option" where
  "write_mem m p off bs =
     (case blocks m p of
        None \<Rightarrow> None
      | Some b \<Rightarrow>
          if 0 \<le> off \<and> off + int (length bs) \<le> int (length (payload b))
          then Some (m\<lparr>blocks := (blocks m)(p \<mapsto>
                 b\<lparr>payload := take (nat off) (payload b) @ bs @ drop (nat off + length bs) (payload b)\<rparr>)\<rparr>)
          else None)"

section \<open>TranBufPool\<close>

text \<open>The factor is at most \<open>TRAN_BUF_BLOCK_MAX_FACTOR\<close> in every call of the source, so that the 32 bit shift does not overflow.\<close>

definition tb_malloc :: "nat \<Rightarrow> mem \<Rightarrow> nat option \<times> mem" where
  "tb_malloc factor m =
     (let n = TRAN_BUF_BLOCK_BASE_SIZE * 2 ^ factor; p = next_ptr m
      in if n \<le> avail m
         then (Some p,
               m\<lparr>blocks := (blocks m)(p \<mapsto>
                    \<lparr>blk_size = int n, ref_count = 1, payload = map (junk m p) [0..<n - 8]\<rparr>),
                 next_ptr := p + 1, avail := avail m - n\<rparr>)
         else (None, m))"

definition tb_block_size :: "nat \<Rightarrow> mem \<Rightarrow> int option" where
  "tb_block_size p m = map_option blk_size (blocks m p)"

definition tb_capacity :: "nat \<Rightarrow> mem \<Rightarrow> int option" where
  "tb_capacity p m = map_option (\<lambda>b. blk_size b - 8) (blocks m p)"

definition tb_add_ref :: "nat \<Rightarrow> mem \<Rightarrow> mem option" where
  "tb_add_ref p m =
     (case blocks m p of
        None \<Rightarrow> None
      | Some b \<Rightarrow> Some (m\<lparr>blocks := (blocks m)(p \<mapsto> b\<lparr>ref_count := atomic_inc (ref_count b)\<rparr>)\<rparr>))"

definition tb_free :: "nat \<Rightarrow> mem \<Rightarrow> mem option" where
  "tb_free p m =
     (case blocks m p of
        None \<Rightarrow> None
      | Some b \<Rightarrow>
          let (new, old) = atomic_dec_ret_old (ref_count b)
          in Some (if old = 1
                   then m\<lparr>blocks := (blocks m)(p := None), avail := avail m + nat (blk_size b)\<rparr>
                   else m\<lparr>blocks := (blocks m)(p \<mapsto> b\<lparr>ref_count := new\<rparr>)\<rparr>))"

fun tb_free_all :: "nat list \<Rightarrow> mem \<Rightarrow> mem option" where
  "tb_free_all [] m = Some m"
| "tb_free_all (p # ps) m = (case tb_free p m of None \<Rightarrow> None | Some m' \<Rightarrow> tb_free_all ps m')"

fun tb_add_ref_all :: "nat list \<Rightarrow> mem \<Rightarrow> mem option" where
  "tb_add_ref_all [] m = Some m"
| "tb_add_ref_all (p # ps) m = (case tb_add_ref p m of None \<Rightarrow> None | Some m' \<Rightarrow> tb_add_ref_all ps m')"

section \<open>Ownership\<close>

text \<open>
  \<open>heap_ok m owners\<close>: the reference count of every block is the number of its owners, every owned
  block is allocated and no other block is.
\<close>

definition block_ok :: "nat \<Rightarrow> nat \<Rightarrow> nat \<Rightarrow> block option \<Rightarrow> bool" where
  "block_ok n p c ob \<longleftrightarrow>
     (case ob of
        None \<Rightarrow> c = 0
      | Some b \<Rightarrow> 0 < c \<and> c < 2 ^ 31 \<and> ref_count b = int c \<and> blk_size b = int (length (payload b)) + 8 \<and> p < n)"

definition heap_ok :: "mem \<Rightarrow> nat multiset \<Rightarrow> bool" where
  "heap_ok m owners \<longleftrightarrow>
     (\<forall>p. block_ok (next_ptr m) p (count owners p) (blocks m p))"

lemma heap_ok_update:
  assumes "heap_ok m owners" and "blocks m' = (blocks m)(p := ob)" and "next_ptr m \<le> next_ptr m'"
    and "\<And>q. q \<noteq> p \<Longrightarrow> count owners' q = count owners q"
    and "block_ok (next_ptr m') p (count owners' p) ob"
  shows "heap_ok m' owners'"
proof -
  have "block_ok (next_ptr m') q (count owners' q) (blocks m' q)" for q
  proof (cases "q = p")
    case False
    have "block_ok (next_ptr m) q (count owners q) (blocks m q)"
      using assms(1) by (simp add: heap_ok_def)
    with False assms(2-4) show ?thesis by (auto simp: block_ok_def split: option.splits)
  qed (use assms(2,5) in simp)
  then show ?thesis by (simp add: heap_ok_def)
qed

text \<open>What readers of a block see: its size and its data, not its reference count.\<close>

definition view :: "mem \<Rightarrow> nat \<Rightarrow> (int \<times> byte list) option" where
  "view m p = map_option (\<lambda>b. (blk_size b, payload b)) (blocks m p)"

lemma view_None_iff: "view m p = None \<longleftrightarrow> blocks m p = None"
  by (simp add: view_def)

lemma view_Some: "blocks m p = Some b \<Longrightarrow> view m p = Some (blk_size b, payload b)"
  by (simp add: view_def)

lemma view_SomeE:
  assumes "view m p = Some (n, d)"
  obtains b where "blocks m p = Some b" "blk_size b = n" "payload b = d"
  using assms by (auto simp: view_def)

lemma tb_block_size_view: "tb_block_size p m = map_option fst (view m p)"
  by (simp add: tb_block_size_def view_def option.map_comp comp_def)

lemma tb_capacity_view: "tb_capacity p m = map_option (\<lambda>v. fst v - 8) (view m p)"
  by (simp add: tb_capacity_def view_def option.map_comp comp_def)

lemma read_mem_view:
  "read_mem m p off n =
     (case view m p of
        None \<Rightarrow> None
      | Some (_, d) \<Rightarrow> if 0 \<le> off \<and> 0 \<le> n \<and> off + n \<le> int (length d)
                       then Some (take (nat n) (drop (nat off) d)) else None)"
  by (simp add: read_mem_def view_def split: option.split)

lemma heap_okD:
  assumes "heap_ok m owners" and "p \<in># owners"
  obtains b where "blocks m p = Some b" "ref_count b = int (count owners p)"
    "blk_size b = int (length (payload b)) + 8" "p < next_ptr m" "count owners p < 2 ^ 31"
proof -
  have "block_ok (next_ptr m) p (count owners p) (blocks m p)" using assms(1) by (simp add: heap_ok_def)
  moreover have "0 < count owners p" using assms(2) by simp
  ultimately show thesis
    using that by (auto simp: block_ok_def simp del: count_greater_zero_iff split: option.splits)
qed

lemma heap_ok_view:
  assumes "heap_ok m owners" and "p \<in># owners"
  obtains d where "view m p = Some (int (length d) + 8, d)"
  using heap_okD [OF assms] by (metis view_Some)

lemma heap_ok_new: "heap_ok m owners \<Longrightarrow> next_ptr m \<notin># owners"
  by (auto elim: heap_okD)

lemma heap_ok_count: "heap_ok m owners \<Longrightarrow> p \<in># owners \<Longrightarrow> count owners p < 2 ^ 31"
  by (auto elim: heap_okD)

lemma malloc_ok:
  assumes "heap_ok m owners" and "tb_malloc f m = (Some p, m')"
  shows "heap_ok m' (add_mset p owners)" and "p \<notin># owners"
    and "\<exists>d. view m' p = Some (int (64 * 2 ^ f), d) \<and> int (length d) = 64 * 2 ^ f - 8"
    and "\<And>q. q \<noteq> p \<Longrightarrow> view m' q = view m q"
proof -
  let ?n = "64 * 2 ^ f :: nat"
  let ?b = "\<lparr>blk_size = int ?n, ref_count = 1, payload = map (junk m p) [0..<?n - 8]\<rparr>"
  have m': "p = next_ptr m" "m' = m\<lparr>blocks := (blocks m)(p \<mapsto> ?b), next_ptr := p + 1, avail := avail m - ?n\<rparr>"
    using assms(2) by (auto simp: tb_malloc_def TRAN_BUF_BLOCK_BASE_SIZE_def Let_def split: if_splits)
  have n: "8 \<le> ?n"
    using one_le_power [of "2 :: nat" f] by linarith
  show np: "p \<notin># owners" using heap_ok_new [OF assms(1)] m'(1) by simp
  then have "count owners p = 0" by (simp add: count_eq_zero_iff)
  then show "heap_ok m' (add_mset p owners)"
    by (intro heap_ok_update [OF assms(1), where p = p and ob = "Some ?b"])
      (use m' n in \<open>auto simp: block_ok_def\<close>)
  show "\<exists>d. view m' p = Some (int (64 * 2 ^ f), d) \<and> int (length d) = 64 * 2 ^ f - 8"
    using n m' by (simp add: view_def)
  show "view m' q = view m q" if "q \<noteq> p" for q
    using m' that by (simp add: view_def)
qed

lemma malloc_None: "tb_malloc f m = (None, m') \<Longrightarrow> m' = m"
  by (auto simp: tb_malloc_def Let_def split: if_splits)

lemma add_ref_ok:
  assumes "heap_ok m owners" and "p \<in># owners" and "count owners p < 2 ^ 31 - 1"
  obtains m' where "tb_add_ref p m = Some m'" "heap_ok m' (add_mset p owners)" "view m' = view m"
proof -
  obtain b where b: "blocks m p = Some b" "ref_count b = int (count owners p)"
    "blk_size b = int (length (payload b)) + 8" "p < next_ptr m"
    using heap_okD [OF assms(1,2)] .
  let ?m = "m\<lparr>blocks := (blocks m)(p \<mapsto> b\<lparr>ref_count := atomic_inc (ref_count b)\<rparr>)\<rparr>"
  from assms(3) b(2) have rc: "atomic_inc (ref_count b) = int (count (add_mset p owners) p)"
    by (simp add: atomic_inc_def atomic_add_ret_old_def i32_id)
  have "tb_add_ref p m = Some ?m" using b(1) by (simp add: tb_add_ref_def)
  moreover have "heap_ok ?m (add_mset p owners)"
    by (rule heap_ok_update [OF assms(1), where p = p])
      (use b rc assms(3) in \<open>auto simp: block_ok_def\<close>)
  moreover have "view ?m = view m"
    using b(1) by (intro ext) (simp add: view_def)
  ultimately show thesis by (rule that)
qed

lemma free_ok:
  assumes "heap_ok m owners" and "p \<in># owners"
  obtains m' where "tb_free p m = Some m'" "heap_ok m' (owners - {#p#})"
    "\<And>q. q \<in># owners - {#p#} \<Longrightarrow> view m' q = view m q"
proof -
  obtain b where b: "blocks m p = Some b" "ref_count b = int (count owners p)"
    "blk_size b = int (length (payload b)) + 8" "p < next_ptr m"
    using heap_okD [OF assms(1,2)] .
  from heap_ok_count [OF assms] b(2)
  have dec: "atomic_dec_ret_old (ref_count b) = (int (count owners p) - 1, int (count owners p))"
    using assms(2) by (simp add: atomic_dec_ret_old_def i32_id)
  have pos: "0 < count owners p" using assms(2) by simp
  have sz': "count owners p < 2 ^ 31" using heap_ok_count [OF assms] .
  show thesis
  proof (cases "count owners p = 1")
    case True
    let ?m = "m\<lparr>blocks := (blocks m)(p := None), avail := avail m + nat (blk_size b)\<rparr>"
    have g: "p \<notin># owners - {#p#}" using True by (simp add: count_eq_zero_iff [symmetric] not_in_iff)
    show thesis
    proof (rule that [of ?m])
      show "tb_free p m = Some ?m" using True b(1) dec by (simp add: tb_free_def)
      show "heap_ok ?m (owners - {#p#})"
        by (rule heap_ok_update [OF assms(1), where p = p])
          (use True sz' in \<open>auto simp: block_ok_def\<close>)
      show "view ?m q = view m q" if "q \<in># owners - {#p#}" for q
        using that g by (auto simp: view_def)
    qed
  next
    case False
    let ?m = "m\<lparr>blocks := (blocks m)(p \<mapsto> b\<lparr>ref_count := int (count owners p) - 1\<rparr>)\<rparr>"
    show thesis
    proof (rule that [of ?m])
      show "tb_free p m = Some ?m" using False b(1) dec by (simp add: tb_free_def)
      show "heap_ok ?m (owners - {#p#})"
        by (rule heap_ok_update [OF assms(1), where p = p])
          (use False b pos sz' in \<open>auto simp: block_ok_def simp del: count_greater_zero_iff\<close>)
      show "view ?m q = view m q" for q using b(1) by (simp add: view_def)
    qed
  qed
qed

lemma free_all_ok:
  assumes "heap_ok m (mset ps + owners)"
  obtains m' where "tb_free_all ps m = Some m'" "heap_ok m' owners" "\<And>q. q \<in># owners \<Longrightarrow> view m' q = view m q"
  using assms
proof (induction ps arbitrary: m thesis)
  case (Cons p ps)
  from Cons.prems(2) obtain m1 where m1: "tb_free p m = Some m1" "heap_ok m1 (mset ps + owners)"
    "\<And>q. q \<in># mset ps + owners \<Longrightarrow> view m1 q = view m q"
    using free_ok [of m "mset (p # ps) + owners" p] by auto
  from Cons.IH [OF _ m1(2)] obtain m2 where "tb_free_all ps m1 = Some m2" "heap_ok m2 owners"
    "\<And>q. q \<in># owners \<Longrightarrow> view m2 q = view m1 q"
    by blast
  with m1 Cons.prems(1) show thesis by simp
qed simp

lemma add_ref_all_ok:
  assumes "heap_ok m owners" and "set ps \<subseteq> set_mset owners" and "\<And>p. count owners p + count (mset ps) p < 2 ^ 31"
  obtains m' where "tb_add_ref_all ps m = Some m'" "heap_ok m' (mset ps + owners)" "view m' = view m"
  using assms
proof (induction ps arbitrary: m owners thesis)
  case (Cons p ps)
  from Cons.prems obtain m1 where m1: "tb_add_ref p m = Some m1" "heap_ok m1 (add_mset p owners)"
    "view m1 = view m"
    using add_ref_ok [of m owners p] Cons.prems(4) [of p] by auto
  have "set ps \<subseteq> set_mset (add_mset p owners)" using Cons.prems(3) by auto
  moreover have "count (add_mset p owners) q + count (mset ps) q < 2 ^ 31" for q
    using Cons.prems(4) [of q] by (auto split: if_splits)
  ultimately
  obtain m2 where "tb_add_ref_all ps m1 = Some m2"
    "heap_ok m2 (mset ps + add_mset p owners)" "view m2 = view m1"
    using Cons.IH [OF _ m1(2)] by blast
  with m1 Cons.prems(1) show thesis by simp
qed simp

definition overwrite :: "nat \<Rightarrow> 'a list \<Rightarrow> 'a list \<Rightarrow> 'a list" where
  "overwrite off bs d = take off d @ bs @ drop (off + length bs) d"

lemma length_overwrite: "off + length bs \<le> length d \<Longrightarrow> length (overwrite off bs d) = length d"
  by (simp add: overwrite_def)

lemma write_mem_ok:
  assumes "heap_ok m owners" and "p \<in># owners" and "view m p = Some (n, d)"
    and "off + length bs \<le> length d"
  obtains m' where "write_mem m p (int off) bs = Some m'" "heap_ok m' owners"
    "view m' p = Some (n, overwrite off bs d)" "\<And>q. q \<noteq> p \<Longrightarrow> view m' q = view m q"
proof -
  obtain b where b: "blocks m p = Some b" "blk_size b = n" "payload b = d"
    using assms(3) by (rule view_SomeE)
  obtain b' where b': "blocks m p = Some b'" "ref_count b' = int (count owners p)"
    "blk_size b' = int (length (payload b')) + 8" "p < next_ptr m"
    using heap_okD [OF assms(1,2)] .
  let ?m = "m\<lparr>blocks := (blocks m)(p \<mapsto> b\<lparr>payload := overwrite off bs d\<rparr>)\<rparr>"
  show thesis
  proof (rule that [of ?m])
    show "write_mem m p (int off) bs = Some ?m"
      using b assms(4) by (simp add: write_mem_def overwrite_def)
    show "heap_ok ?m owners"
      by (rule heap_ok_update [OF assms(1), where p = p])
        (use b b' assms(2,4) heap_ok_count [OF assms(1,2)] in \<open>auto simp: block_ok_def length_overwrite\<close>)
    show "view ?m p = Some (n, overwrite off bs d)" using b by (simp add: view_def)
    show "view ?m q = view m q" if "q \<noteq> p" for q using that by (simp add: view_def)
  qed
qed

text \<open>
  The owners of a block are counted exactly: a history of \<^verbatim>\<open>malloc\<close>, \<^verbatim>\<open>add_ref\<close> and \<^verbatim>\<open>free\<close> calls, in
  which only owners of a block add or drop references, never touches a dead block, and leaves no
  block allocated once every owner is gone.
\<close>

datatype pool_op = PMalloc nat | PAddRef nat | PFree nat

fun pool_exec :: "pool_op \<Rightarrow> mem \<Rightarrow> mem option" where
  "pool_exec (PMalloc f) m = Some (snd (tb_malloc f m))"
| "pool_exec (PAddRef p) m = tb_add_ref p m"
| "pool_exec (PFree p) m = tb_free p m"

fun pool_owners :: "pool_op \<Rightarrow> mem \<Rightarrow> nat multiset \<Rightarrow> nat multiset" where
  "pool_owners (PMalloc f) m o' = (case fst (tb_malloc f m) of None \<Rightarrow> o' | Some p \<Rightarrow> add_mset p o')"
| "pool_owners (PAddRef p) m o' = add_mset p o'"
| "pool_owners (PFree p) m o' = o' - {#p#}"

fun owner_op :: "pool_op \<Rightarrow> nat multiset \<Rightarrow> bool" where
  "owner_op (PMalloc f) o' = True"
| "owner_op (PAddRef p) o' = (p \<in># o' \<and> count o' p < 2 ^ 31 - 1)"
| "owner_op (PFree p) o' = (p \<in># o')"

text \<open>A run in which every reference that is added or dropped belongs to an owner.\<close>

inductive pool_run :: "mem \<Rightarrow> nat multiset \<Rightarrow> mem \<Rightarrow> nat multiset \<Rightarrow> bool" where
  pool_done: "pool_run m o' m o'"
| pool_step: "pool_run m o1 m1 o2 \<Longrightarrow> owner_op x o2 \<Longrightarrow>
    pool_exec x m1 = Some m2 \<Longrightarrow> pool_run m o1 m2 (pool_owners x m1 o2)"

lemma pool_exec_ok:
  assumes "heap_ok m o'" and "owner_op x o'"
  shows "\<exists>m'. pool_exec x m = Some m' \<and> heap_ok m' (pool_owners x m o')"
proof (cases x)
  case (PMalloc f)
  then show ?thesis
    using malloc_ok(1) [OF assms(1)] assms(1)
    by (cases "tb_malloc f m") (auto split: option.splits dest: malloc_None)
next
  case (PAddRef p)
  with assms(2) add_ref_ok [OF assms(1), of p] show ?thesis by auto
next
  case (PFree p)
  with assms(2) free_ok [OF assms(1), of p] show ?thesis by auto
qed

text \<open>
  C34. Along every run of the pool in which references are added and dropped only by owners, each
  live block's count is the number of its owners (fewer than \<open>2 ^ 31\<close>); the next call never faults; and when no owner is left
  no block is left either.
\<close>

theorem pool_counts_owners:
  assumes "pool_run m {#} m' o'" and "blocks m = (\<lambda>_. None)"
  shows "heap_ok m' o' \<and>
         (\<forall>x. owner_op x o' \<longrightarrow> pool_exec x m' \<noteq> None) \<and>
         (o' = {#} \<longrightarrow> blocks m' = (\<lambda>_. None))"
proof -
  have ok: "heap_ok m2 o2" if "pool_run m1 o1 m2 o2" "heap_ok m1 o1" for m1 o1 m2 o2
    using that
  proof (induction rule: pool_run.induct)
    case (pool_step m1 o1 m2 o2 x m3)
    then show ?case using pool_exec_ok [of m2 o2 x] by auto
  qed
  have "heap_ok m {#}" using assms(2) by (simp add: heap_ok_def block_ok_def)
  with ok assms(1) have h: "heap_ok m' o'" by blast
  moreover have "pool_exec x m' \<noteq> None" if "owner_op x o'" for x
    using pool_exec_ok [OF h that] by auto
  moreover have "blocks m' p = None" if "o' = {#}" for p
    using h that by (auto simp: heap_ok_def block_ok_def split: option.splits)
  ultimately show ?thesis by auto
qed

definition mem0 :: mem where
  "mem0 = \<lparr>blocks = (\<lambda>_. None), next_ptr = 0, avail = 10 ^ 6, junk = (\<lambda>_ _. 0)\<rparr>"

theorem pool_counts_owners_witness:
  "let m1 = snd (tb_malloc 0 mem0); m2 = the (tb_add_ref 0 m1); m3 = the (tb_free 0 m2); m4 = the (tb_free 0 m3)
   in pool_run mem0 {#} m4 {#} \<and> blocks m4 = (\<lambda>_. None) \<and> blocks m3 0 \<noteq> None"
proof -
  define m1 where "m1 = snd (tb_malloc 0 mem0)"
  define m2 where "m2 = the (tb_add_ref 0 m1)"
  define m3 where "m3 = the (tb_free 0 m2)"
  define m4 where "m4 = the (tb_free 0 m3)"
  note defs = m1_def m2_def m3_def m4_def tb_malloc_def tb_add_ref_def tb_free_def mem0_def
    TRAN_BUF_BLOCK_BASE_SIZE_def atomic_inc_def atomic_add_ret_old_def atomic_dec_ret_old_def i32_def
  have r1: "pool_run mem0 {#} m1 {#0#}"
    using pool_step [OF pool_done [of mem0 "{#}"], of "PMalloc 0"] by (simp add: defs)
  have r2: "pool_run mem0 {#} m2 {#0, 0#}"
    using pool_step [OF r1, of "PAddRef 0"] by (simp add: defs)
  have r3: "pool_run mem0 {#} m3 {#0#}"
    using pool_step [OF r2, of "PFree 0"] by (simp add: defs)
  have r4: "pool_run mem0 {#} m4 {#}"
    using pool_step [OF r3, of "PFree 0"] by (simp add: defs)
  have "blocks m3 0 \<noteq> None" by (simp add: defs)
  moreover have "blocks m4 = (\<lambda>_. None)"
    using pool_counts_owners [OF r4] by (simp add: mem0_def)
  ultimately show ?thesis
    using r4 by (simp add: Let_def m1_def m2_def m3_def m4_def)
qed

end
