(* ===== verification/Message_Header.thy ===== *)
theory Message_Header
  imports Byte_Order Tran_Buf
begin

text \<open>
  The 24-byte message header of \<^verbatim>\<open>src/message_stream/message_header.h\<close> in memory, and the framing it
  defines: a message on the wire is its header followed by \<^verbatim>\<open>message_size\<close> bytes. \<open>deframe\<close> is the
  specification of the receiver: it cuts a byte string into complete messages and what is left.
\<close>

section \<open>The header\<close>

record message_header =
  magic_str_value :: u32
  meta_size :: int
  data_size :: int
  message_size :: int

definition MESSAGE_HEAD_MAGIC :: u32 where
  "MESSAGE_HEAD_MAGIC = 322122"

definition MessageHeader :: message_header where
  "MessageHeader = \<lparr>magic_str_value = MESSAGE_HEAD_MAGIC, meta_size = 0, data_size = 0, message_size = 0\<rparr>"

definition CheckMagicString :: "message_header \<Rightarrow> bool" where
  "CheckMagicString h = (magic_str_value h = MESSAGE_HEAD_MAGIC)"

definition header_size :: nat where
  "header_size = 24"

text \<open>The object representation: four fields, little-endian, no padding.\<close>

definition header_bytes :: "message_header \<Rightarrow> byte list" where
  "header_bytes h =
     le_bytes 4 (magic_str_value h) @ le_bytes 4 (word_of_int (meta_size h) :: u32) @
     le_bytes 8 (word_of_int (data_size h) :: u64) @ le_bytes 8 (word_of_int (message_size h) :: u64)"

definition read_header :: "byte list \<Rightarrow> message_header" where
  "read_header bs =
     \<lparr>magic_str_value = ucast (le_word (take 4 bs)),
      meta_size = sint (ucast (le_word (take 4 (drop 4 bs))) :: u32),
      data_size = sint (le_word (take 8 (drop 8 bs))),
      message_size = sint (le_word (take 8 (drop 16 bs)))\<rparr>"

definition header_ok :: "message_header \<Rightarrow> bool" where
  "header_ok h \<longleftrightarrow> - (2 ^ 31) \<le> meta_size h \<and> meta_size h < 2 ^ 31 \<and>
     - (2 ^ 63) \<le> data_size h \<and> data_size h < 2 ^ 63 \<and> - (2 ^ 63) \<le> message_size h \<and> message_size h < 2 ^ 63"

lemma length_header_bytes [simp]: "length (header_bytes h) = header_size"
  by (simp add: header_bytes_def header_size_def)

lemma read_header_bytes: "header_ok h \<Longrightarrow> read_header (header_bytes h @ rest) = h"
  by (simp add: read_header_def header_bytes_def header_ok_def signed_of_int signed_take_bit_int_eq_self)

lemma message_size_range: "- (2 ^ 63) \<le> message_size (read_header bs)" "message_size (read_header bs) < 2 ^ 63"
  using sint_ge [of "le_word (take 8 (drop 16 bs))"] sint_lt [of "le_word (take 8 (drop 16 bs))"]
  by (simp_all add: read_header_def)

section \<open>Framing\<close>

text \<open>A received message: the two sizes its header announced and its bytes.\<close>

type_synonym frame = "int \<times> int \<times> byte list"

datatype deframed = Parsed "frame list" "byte list" | BadMagic | NegSize

definition add_frame :: "frame \<Rightarrow> deframed \<Rightarrow> deframed" where
  "add_frame f d = (case d of Parsed fs rest \<Rightarrow> Parsed (f # fs) rest | _ \<Rightarrow> d)"

function deframe :: "byte list \<Rightarrow> deframed" where
  "deframe bs =
     (if length bs < header_size then Parsed [] bs
      else let h = read_header bs; n = nat (message_size h)
           in if \<not> CheckMagicString h then BadMagic
              else if message_size h < 0 then NegSize
              else if length bs < header_size + n then Parsed [] bs
              else add_frame (meta_size h, data_size h, take n (drop header_size bs))
                     (deframe (drop (header_size + n) bs)))"
  by pat_completeness auto
termination
  by (relation "measure length") (auto simp: header_size_def)

declare deframe.simps [simp del]

lemma read_header_append: "header_size \<le> length bs \<Longrightarrow> read_header (bs @ cs) = read_header bs"
  by (simp add: read_header_def header_size_def)

lemma read_header_take: "header_size \<le> n \<Longrightarrow> read_header (take n bs) = read_header bs"
  by (simp add: read_header_def header_size_def take_drop min_def)

lemma deframe_append:
  assumes "deframe as = Parsed fs rest"
  shows "deframe (as @ bs) = (case deframe (rest @ bs) of Parsed gs r \<Rightarrow> Parsed (fs @ gs) r | x \<Rightarrow> x)"
  using assms
proof (induction "as" arbitrary: fs rest rule: deframe.induct)
  case (1 "as")
  let ?h = "read_header as" and ?n = "nat (message_size (read_header as))"
  show ?case
  proof (cases "length as < header_size \<or> length as < header_size + ?n")
    case True
    then have "fs = [] \<and> rest = as"
      using 1(2) by (auto simp: deframe.simps [of "as"] Let_def split: if_splits)
    then show ?thesis by (simp split: deframed.split)
  next
    case False
    then have ok: "CheckMagicString ?h" "\<not> message_size ?h < 0"
      using 1(2) by (auto simp: deframe.simps [of "as"] Let_def split: if_splits)
    obtain gs r where g: "deframe (drop (header_size + ?n) as) = Parsed gs r"
      "fs = (meta_size ?h, data_size ?h, take ?n (drop header_size as)) # gs" "rest = r"
      using 1(2) False ok
      by (auto simp: deframe.simps [of "as"] Let_def add_frame_def split: if_splits deframed.splits)
    have IH: "deframe (drop (header_size + ?n) as @ bs) =
        (case deframe (r @ bs) of Parsed gs' r' \<Rightarrow> Parsed (gs @ gs') r' | x \<Rightarrow> x)"
      using 1(1) [OF _ refl refl _ _ _ g(1)] False ok by simp
    have "deframe (as @ bs) = add_frame (meta_size ?h, data_size ?h, take ?n (drop header_size as))
        (deframe (drop (header_size + ?n) as @ bs))"
      using False ok by (subst deframe.simps) (simp add: Let_def read_header_append)
    with IH g show ?thesis by (simp add: add_frame_def split: deframed.split)
  qed
qed

lemma deframe_prefix:
  assumes "deframe (as @ bs) = Parsed fs rest"
  shows "\<exists>gs r. deframe as = Parsed gs r"
  using assms
proof (induction "as" arbitrary: fs rule: deframe.induct)
  case (1 "as")
  let ?h = "read_header as" and ?n = "nat (message_size (read_header as))"
  show ?case
  proof (cases "length as < header_size")
    case True
    then show ?thesis by (simp add: deframe.simps [of "as"])
  next
    case False
    have h: "read_header (as @ bs) = ?h" using False by (simp add: read_header_append)
    have ok: "CheckMagicString ?h" "\<not> message_size ?h < 0"
      using 1(2) False by (auto simp: deframe.simps [of "as @ bs"] Let_def h split: if_splits)
    show ?thesis
    proof (cases "length as < header_size + ?n")
      case True
      then show ?thesis using False ok by (simp add: deframe.simps [of "as"] Let_def)
    next
      case ge: False
      obtain gs where "deframe (drop (header_size + ?n) as @ bs) = Parsed gs rest"
        using 1(2) False ok ge
        by (auto simp: deframe.simps [of "as @ bs"] Let_def h add_frame_def split: if_splits deframed.splits)
      from 1(1) [OF False refl refl _ _ ge this] ok obtain gs' r where "deframe (drop (header_size + ?n) as) = Parsed gs' r"
        by auto
      then show ?thesis using False ok ge by (simp add: deframe.simps [of "as"] Let_def add_frame_def)
    qed
  qed
qed

text \<open>A well-formed message as a sender frames it.\<close>

definition frame_ok :: "frame \<Rightarrow> bool" where
  "frame_ok f = (case f of (ms, ds, body) \<Rightarrow>
     - (2 ^ 31) \<le> ms \<and> ms < 2 ^ 31 \<and> - (2 ^ 63) \<le> ds \<and> ds < 2 ^ 63 \<and> int (length body) < 2 ^ 63)"

definition enframe :: "frame \<Rightarrow> byte list" where
  "enframe f = (case f of (ms, ds, body) \<Rightarrow>
     header_bytes \<lparr>magic_str_value = MESSAGE_HEAD_MAGIC, meta_size = ms, data_size = ds,
                    message_size = int (length body)\<rparr> @ body)"

lemma deframe_enframe:
  assumes "frame_ok f"
  shows "deframe (enframe f @ rest) = add_frame f (deframe rest)"
proof -
  obtain ms ds body where f: "f = (ms, ds, body)" by (cases f)
  let ?h = "\<lparr>magic_str_value = MESSAGE_HEAD_MAGIC, meta_size = ms, data_size = ds, message_size = int (length body)\<rparr>"
  have "header_ok ?h" using assms f by (simp add: header_ok_def frame_ok_def)
  then have h: "read_header (enframe f @ rest) = ?h"
    using read_header_bytes [of ?h "body @ rest"] by (simp add: enframe_def f)
  have e: "enframe f @ rest = header_bytes ?h @ body @ rest" by (simp add: enframe_def f)
  show ?thesis
    unfolding deframe.simps [of "enframe f @ rest"] Let_def h
    unfolding e by (simp add: CheckMagicString_def f)
qed

lemma deframe_enframe_all:
  assumes "list_all frame_ok fs"
  shows "deframe (concat (map enframe fs)) = Parsed fs []"
  using assms
proof (induction fs)
  case Nil
  then show ?case by (simp add: deframe.simps header_size_def)
next
  case (Cons f fs)
  then show ?case by (simp add: deframe_enframe add_frame_def)
qed

end
