(* ===== verification/Buffers.thy ===== *)
theory Buffers
  imports Tran_Buf
begin

text \<open>
  The zero-copy buffers of \<^verbatim>\<open>src/buffer/buffer.h\<close> and \<^verbatim>\<open>src/buffer/buffer.cpp\<close>: \<^verbatim>\<open>ReadBuffer\<close> and
  \<^verbatim>\<open>WriteBuffer\<close> as lists of handles into the block heap of \<open>Tran_Buf\<close>. \<^verbatim>\<open>NET_CHECK\<close> only logs, so it
  does not appear. \<open>None\<close> is undefined behaviour (an access outside a block, a step before the first
  handle) or a loop that does not end. An output pointer of \<^verbatim>\<open>Next\<close> is a block, an offset and a size.
\<close>

section \<open>Handles and buffers\<close>

record buffer_handle =
  hdata :: nat
  hsize :: int
  hpos :: int   \<comment> \<open>the union: \<open>capacity\<close> in a write buffer, \<open>offset\<close> in a read buffer\<close>

record read_buffer =
  rbufs :: "buffer_handle list"
  rb_total_block_size :: int
  rb_total_bytes :: int
  rb_cur_it :: nat
  rb_cur_pos :: int
  rb_last_bytes :: int
  rb_read_bytes :: int

definition ReadBuffer :: read_buffer where
  "ReadBuffer = \<lparr>rbufs = [], rb_total_block_size = 0, rb_total_bytes = 0, rb_cur_it = 0,
                 rb_cur_pos = 0, rb_last_bytes = 0, rb_read_bytes = 0\<rparr>"

type_synonym chunk = "nat \<times> int \<times> int"

section \<open>ReadBuffer\<close>

definition rb_destroy :: "read_buffer \<Rightarrow> mem \<Rightarrow> mem option" where
  "rb_destroy rb m = tb_free_all (map hdata (rbufs rb)) m"

definition rb_append :: "buffer_handle \<Rightarrow> read_buffer \<Rightarrow> mem \<Rightarrow> (read_buffer \<times> mem) option" where
  "rb_append h rb m =
     (case tb_add_ref (hdata h) m of
        None \<Rightarrow> None
      | Some m1 \<Rightarrow>
          (case tb_block_size (hdata h) m1 of
             None \<Rightarrow> None
           | Some n \<Rightarrow>
               Some (rb\<lparr>rbufs := rbufs rb @ [h], rb_total_block_size := rb_total_block_size rb + n,
                        rb_total_bytes := rb_total_bytes rb + hsize h, rb_cur_it := 0\<rparr>, m1)))"

definition rb_append_buf :: "read_buffer \<Rightarrow> read_buffer \<Rightarrow> mem \<Rightarrow> (read_buffer \<times> mem) option" where
  "rb_append_buf other rb m =
     (case tb_add_ref_all (map hdata (rbufs other)) m of
        None \<Rightarrow> None
      | Some m1 \<Rightarrow>
          Some (rb\<lparr>rbufs := rbufs rb @ rbufs other,
                   rb_total_block_size := rb_total_block_size rb + rb_total_block_size other,
                   rb_total_bytes := rb_total_bytes rb + rb_total_bytes other, rb_cur_it := 0\<rparr>, m1))"

fun rb_concat :: "mem \<Rightarrow> buffer_handle list \<Rightarrow> byte list option" where
  "rb_concat m [] = Some []"
| "rb_concat m (h # hs) =
     (case read_mem m (hdata h) (hpos h) (hsize h) of
        None \<Rightarrow> None
      | Some d \<Rightarrow> map_option (\<lambda>ds. d @ ds) (rb_concat m hs))"

definition rb_to_string :: "mem \<Rightarrow> read_buffer \<Rightarrow> byte list option" where
  "rb_to_string m rb = rb_concat m (rbufs rb)"

definition rb_next :: "read_buffer \<Rightarrow> chunk option \<times> read_buffer" where
  "rb_next rb =
     (if rb_cur_it rb < length (rbufs rb)
      then (let h = rbufs rb ! rb_cur_it rb; sz = hsize h - rb_cur_pos rb
            in (Some (hdata h, hpos h + rb_cur_pos rb, sz),
                rb\<lparr>rb_cur_it := rb_cur_it rb + 1, rb_cur_pos := 0, rb_last_bytes := sz,
                   rb_read_bytes := rb_read_bytes rb + sz\<rparr>))
      else (None, rb\<lparr>rb_last_bytes := 0\<rparr>))"

definition rb_backup :: "int \<Rightarrow> read_buffer \<Rightarrow> read_buffer option" where
  "rb_backup cnt rb =
     (if cnt > 0
      then (if rb_cur_it rb = 0 \<or> length (rbufs rb) < rb_cur_it rb then None
            else let it = rb_cur_it rb - 1
                 in Some (rb\<lparr>rb_cur_it := it, rb_cur_pos := hsize (rbufs rb ! it) - cnt,
                             rb_last_bytes := 0, rb_read_bytes := rb_read_bytes rb - cnt\<rparr>))
      else Some (rb\<lparr>rb_last_bytes := 0, rb_read_bytes := rb_read_bytes rb - cnt\<rparr>))"

text \<open>The loop of \<^verbatim>\<open>Skip\<close>; a partial skip of a block sets the count to 0 and so ends the loop.\<close>

function rb_skip_loop :: "int \<Rightarrow> read_buffer \<Rightarrow> (int \<times> read_buffer) option" where
  "rb_skip_loop cnt rb =
     (if cnt > 0
      then (case rb_next rb of
              (None, rb1) \<Rightarrow> Some (cnt, rb1)
            | (Some (_, _, sz), rb1) \<Rightarrow>
                if sz > cnt then map_option (\<lambda>rb2. (0, rb2)) (rb_backup (sz - cnt) rb1)
                else rb_skip_loop (cnt - sz) rb1)
      else Some (cnt, rb))"
  by pat_completeness auto
termination
  by (relation "measure (\<lambda>(cnt, rb). length (rbufs rb) - rb_cur_it rb)")
    (auto simp: rb_next_def Let_def split: if_splits)

definition rb_skip :: "int \<Rightarrow> read_buffer \<Rightarrow> (bool \<times> read_buffer) option" where
  "rb_skip cnt rb =
     map_option (\<lambda>(c, rb'). (c = 0, rb'\<lparr>rb_last_bytes := 0\<rparr>)) (rb_skip_loop cnt rb)"

section \<open>WriteBuffer\<close>

record write_buffer =
  wbufs :: "buffer_handle list"
  wb_total_block_size :: int
  wb_total_capacity :: int
  wb_last_bytes :: int
  wb_write_bytes :: int
  wb_base_block_factor :: nat

definition WriteBuffer :: write_buffer where
  "WriteBuffer = \<lparr>wbufs = [], wb_total_block_size = 0, wb_total_capacity = 0, wb_last_bytes = 0,
                  wb_write_bytes = 0, wb_base_block_factor = 4\<rparr>"

definition wb_destroy :: "write_buffer \<Rightarrow> mem \<Rightarrow> mem option" where
  "wb_destroy w m = tb_free_all (map hdata (wbufs w)) m"

fun wb_drain :: "buffer_handle list \<Rightarrow> read_buffer \<Rightarrow> mem \<Rightarrow> (read_buffer \<times> mem) option" where
  "wb_drain [] rb m = Some (rb, m)"
| "wb_drain (h # hs) rb m =
     (case (if hsize h > 0 then rb_append (h\<lparr>hpos := 0\<rparr>) rb m else Some (rb, m)) of
        None \<Rightarrow> None
      | Some (rb1, m1) \<Rightarrow>
          (case tb_free (hdata h) m1 of None \<Rightarrow> None | Some m2 \<Rightarrow> wb_drain hs rb1 m2))"

definition wb_swap_out :: "write_buffer \<Rightarrow> read_buffer \<Rightarrow> mem \<Rightarrow> (write_buffer \<times> read_buffer \<times> mem) option" where
  "wb_swap_out w rb m =
     map_option (\<lambda>(rb', m'). (w\<lparr>wbufs := [], wb_total_block_size := 0, wb_total_capacity := 0,
                                 wb_last_bytes := 0, wb_write_bytes := 0\<rparr>, rb', m'))
       (wb_drain (wbufs w) rb m)"

definition wb_extend :: "write_buffer \<Rightarrow> mem \<Rightarrow> (bool \<times> write_buffer \<times> mem) option" where
  "wb_extend w m =
     (let current_factor = (length (wbufs w) + wb_base_block_factor w) mod 2 ^ 32
      in case tb_malloc (min TRAN_BUF_BLOCK_MAX_FACTOR current_factor) m of
           (None, m') \<Rightarrow> Some (False, w, m')
         | (Some p, m') \<Rightarrow>
             (case (tb_capacity p m', tb_block_size p m') of
                (Some c, Some n) \<Rightarrow>
                  Some (True, w\<lparr>wbufs := wbufs w @ [\<lparr>hdata = p, hsize = 0, hpos = c\<rparr>],
                                wb_total_block_size := wb_total_block_size w + n,
                                wb_total_capacity := wb_total_capacity w + c\<rparr>, m')
              | _ \<Rightarrow> None))"

text \<open>Filling the last block: the output of \<^verbatim>\<open>Next\<close> once the buffer has a block with room.\<close>

definition wb_fill :: "write_buffer \<Rightarrow> chunk \<times> write_buffer" where
  "wb_fill w =
     (let h = last (wbufs w); sz = hpos h - hsize h
      in ((hdata h, hsize h, sz),
          w\<lparr>wbufs := butlast (wbufs w) @ [h\<lparr>hsize := hpos h\<rparr>], wb_last_bytes := sz,
            wb_write_bytes := wb_write_bytes w + sz\<rparr>))"

definition wb_next :: "write_buffer \<Rightarrow> mem \<Rightarrow> (chunk option \<times> write_buffer \<times> mem) option" where
  "wb_next w m =
     (if wbufs w = [] \<or> hsize (last (wbufs w)) = hpos (last (wbufs w))
      then (case wb_extend w m of
              None \<Rightarrow> None
            | Some (False, w1, m1) \<Rightarrow> Some (None, w1\<lparr>wb_last_bytes := 0\<rparr>, m1)
            | Some (True, w1, m1) \<Rightarrow> (let (c, w2) = wb_fill w1 in Some (Some c, w2, m1)))
      else (let (c, w2) = wb_fill w in Some (Some c, w2, m)))"

definition wb_backup :: "int \<Rightarrow> write_buffer \<Rightarrow> write_buffer option" where
  "wb_backup cnt w =
     (if wbufs w = [] then None
      else let h = last (wbufs w)
           in Some (w\<lparr>wbufs := butlast (wbufs w) @ [h\<lparr>hsize := hsize h - cnt\<rparr>], wb_last_bytes := 0,
                      wb_write_bytes := wb_write_bytes w - cnt\<rparr>))"

partial_function (option) wb_reserve_loop :: "int \<Rightarrow> write_buffer \<Rightarrow> mem \<Rightarrow> (bool \<times> write_buffer \<times> mem) option" where
  "wb_reserve_loop cnt w m =
     (if cnt > 0
      then (case wb_next w m of
              None \<Rightarrow> None
            | Some (None, w1, m1) \<Rightarrow> Some (False, w1, m1)
            | Some (Some (_, _, sz), w1, m1) \<Rightarrow>
                if sz > cnt then map_option (\<lambda>w2. (True, w2, m1)) (wb_backup (sz - cnt) w1)
                else wb_reserve_loop (cnt - sz) w1 m1)
      else Some (True, w, m))"

definition wb_reserve :: "int \<Rightarrow> write_buffer \<Rightarrow> mem \<Rightarrow> (int \<times> write_buffer \<times> mem) option" where
  "wb_reserve cnt w m =
     (let head = wb_write_bytes w
      in map_option (\<lambda>(ok, w', m'). (if ok then head else -1, w', m')) (wb_reserve_loop cnt w m))"

text \<open>The two loops of \<^verbatim>\<open>SetData\<close>, on the handles from the iterator on.\<close>

fun wb_seek :: "buffer_handle list \<Rightarrow> int \<Rightarrow> (buffer_handle list \<times> int) option" where
  "wb_seek hs pos =
     (if pos > 0
      then (case hs of
              [] \<Rightarrow> None
            | h # hs' \<Rightarrow> if hsize h > pos then Some (h # hs', pos) else wb_seek hs' (pos - hsize h))
      else Some (hs, 0))"

fun wb_store :: "buffer_handle list \<Rightarrow> int \<Rightarrow> byte list \<Rightarrow> int \<Rightarrow> mem \<Rightarrow> mem option" where
  "wb_store hs off data sz m =
     (if sz > 0
      then (case hs of
              [] \<Rightarrow> None
            | h # hs' \<Rightarrow>
                let cur = hsize h - off
                in if cur > sz
                   then (if sz \<le> int (length data) then write_mem m (hdata h) off (take (nat sz) data) else None)
                   else if 0 \<le> cur \<and> cur \<le> int (length data)
                   then (case write_mem m (hdata h) off (take (nat cur) data) of
                           None \<Rightarrow> None
                         | Some m' \<Rightarrow> wb_store hs' 0 (drop (nat cur) data) (sz - cur) m')
                   else None)
      else Some m)"

definition wb_set_data :: "int \<Rightarrow> byte list \<Rightarrow> int \<Rightarrow> write_buffer \<Rightarrow> mem \<Rightarrow> mem option" where
  "wb_set_data pos data sz w m =
     (case wb_seek (wbufs w) pos of
        None \<Rightarrow> None
      | Some (hs, off) \<Rightarrow> wb_store hs off data sz m)"

definition wb_append :: "byte list \<Rightarrow> int \<Rightarrow> write_buffer \<Rightarrow> mem \<Rightarrow> (bool \<times> write_buffer \<times> mem) option" where
  "wb_append data sz w m =
     (if sz = 0 then Some (True, w, m)
      else (case wb_reserve sz w m of
              None \<Rightarrow> None
            | Some (head, w1, m1) \<Rightarrow>
                if head < 0 then Some (False, w1, m1)
                else map_option (\<lambda>m2. (True, w1, m2)) (wb_set_data head data sz w1 m1)))"

text \<open>\<^verbatim>\<open>Append(const std::string&)\<close>: the length is narrowed to \<^verbatim>\<open>int\<close>.\<close>

definition wb_append_string :: "byte list \<Rightarrow> write_buffer \<Rightarrow> mem \<Rightarrow> (bool \<times> write_buffer \<times> mem) option" where
  "wb_append_string data w m = wb_append data (i32 (int (length data))) w m"

end
