(* ===== verification/Buffers_Write.thy ===== *)
theory Buffers_Write
  imports Buffers
begin

text \<open>
  Correctness of \<^verbatim>\<open>WriteBuffer\<close> against a byte string: \<^verbatim>\<open>Reserve\<close> extends the contents, \<^verbatim>\<open>SetData\<close>
  overwrites a range, \<^verbatim>\<open>Append\<close> appends, \<^verbatim>\<open>SwapOut\<close> hands the blocks over to a \<^verbatim>\<open>ReadBuffer\<close> with one
  reference each; every operation returns and leaves the blocks of other owners as they are.
\<close>

declare wb_seek.simps [simp del] wb_store.simps [simp del] rb_skip_loop.simps [simp del]

section \<open>Contents\<close>

definition hbytes :: "mem \<Rightarrow> buffer_handle \<Rightarrow> byte list" where
  "hbytes m h = (case view m (hdata h) of None \<Rightarrow> [] | Some (_, d) \<Rightarrow> take (nat (hsize h)) d)"

definition hcont :: "mem \<Rightarrow> buffer_handle list \<Rightarrow> byte list" where
  "hcont m hs = concat (map (hbytes m) hs)"

definition wb_content :: "mem \<Rightarrow> write_buffer \<Rightarrow> byte list" where
  "wb_content m w = hcont m (wbufs w)"

text \<open>A handle into a block of its own, filled up to \<open>hsize\<close>.\<close>

definition whandle_ok :: "mem \<Rightarrow> buffer_handle \<Rightarrow> bool" where
  "whandle_ok m h \<longleftrightarrow>
     (case view m (hdata h) of
        None \<Rightarrow> False
      | Some (n, d) \<Rightarrow> hpos h = int (length d) \<and> 0 < hpos h \<and> 0 \<le> hsize h \<and> hsize h \<le> hpos h)"

text \<open>
  The invariant of a write buffer: handles to distinct good blocks that no other owner shares, all but
  the last full, and the byte count equal to the sum of the sizes.
\<close>

definition wb_inv :: "mem \<Rightarrow> nat multiset \<Rightarrow> write_buffer \<Rightarrow> bool" where
  "wb_inv m others w \<longleftrightarrow>
     heap_ok m (mset (map hdata (wbufs w)) + others) \<and>
     distinct (map hdata (wbufs w)) \<and>
     set (map hdata (wbufs w)) \<inter> set_mset others = {} \<and>
     (\<forall>h \<in> set (wbufs w). whandle_ok m h) \<and>
     (\<forall>h \<in> set (butlast (wbufs w)). hsize h = hpos h) \<and>
     wb_write_bytes w = sum_list (map hsize (wbufs w))"

lemma whandle_okE:
  assumes "whandle_ok m h"
  obtains n d where "view m (hdata h) = Some (n, d)" "hpos h = int (length d)" "0 < hpos h"
    "0 \<le> hsize h" "hsize h \<le> hpos h" "hbytes m h = take (nat (hsize h)) d"
  using assms by (auto simp: whandle_ok_def hbytes_def split: option.splits)

lemma length_hbytes: "whandle_ok m h \<Longrightarrow> int (length (hbytes m h)) = hsize h"
  by (auto elim!: whandle_okE)

lemma length_hcont: "\<forall>h \<in> set hs. whandle_ok m h \<Longrightarrow> int (length (hcont m hs)) = sum_list (map hsize hs)"
  by (induction hs) (simp_all add: hcont_def length_hbytes)

lemma hcont_simps [simp]:
  "hcont m [] = []" "hcont m (h # hs) = hbytes m h @ hcont m hs" "hcont m (hs @ hs') = hcont m hs @ hcont m hs'"
  by (simp_all add: hcont_def)

lemma hbytes_cong: "view m' (hdata h) = view m (hdata h) \<Longrightarrow> hbytes m' h = hbytes m h"
  by (simp add: hbytes_def)

lemma whandle_ok_cong: "view m' (hdata h) = view m (hdata h) \<Longrightarrow> whandle_ok m' h = whandle_ok m h"
  by (simp add: whandle_ok_def)

lemma hcont_cong: "(\<And>h. h \<in> set hs \<Longrightarrow> view m' (hdata h) = view m (hdata h)) \<Longrightarrow> hcont m' hs = hcont m hs"
  by (induction hs) (simp_all add: hbytes_cong [of m' _ m])

section \<open>Overwriting a range of a list\<close>

lemma overwrite_Nil [simp]: "overwrite off [] xs = xs"
  by (simp add: overwrite_def)

lemma overwrite_append_left:
  "off + length bs \<le> length xs \<Longrightarrow> overwrite off bs (xs @ ys) = overwrite off bs xs @ ys"
  by (simp add: overwrite_def)

lemma overwrite_across:
  "length xs = off + length b1 \<Longrightarrow> overwrite off (b1 @ b2) (xs @ ys) = take off xs @ b1 @ overwrite 0 b2 ys"
  by (simp add: overwrite_def)

lemma overwrite_shift: "overwrite (length xs + off) bs (xs @ ys) = xs @ overwrite off bs ys"
  by (simp add: overwrite_def add.assoc)

lemma take_overwrite:
  "off + length bs \<le> k \<Longrightarrow> k \<le> length d \<Longrightarrow> take k (overwrite off bs d) = overwrite off bs (take k d)"
proof (cases "k \<le> off")
  case True
  moreover assume "off + length bs \<le> k" "k \<le> length d"
  ultimately have "k = off" "length bs = 0" by linarith+
  then show ?thesis by simp
qed (simp add: overwrite_def min_def take_drop)

lemma overwrite_all: "length bs = length xs \<Longrightarrow> overwrite 0 bs xs = bs"
  by (simp add: overwrite_def)

section \<open>SetData\<close>

lemma wb_seek_ok:
  assumes "\<forall>h \<in> set hs. 0 \<le> hsize h" and "0 \<le> pos" and "pos \<le> sum_list (map hsize hs)"
  shows "\<exists>hs1 hs2 off. wb_seek hs pos = Some (hs2, int off) \<and> hs = hs1 @ hs2 \<and>
           pos = sum_list (map hsize hs1) + int off \<and> (off \<noteq> 0 \<longrightarrow> hs2 \<noteq> [] \<and> int off < hsize (hd hs2))"
  using assms
proof (induction hs arbitrary: pos)
  case Nil
  then show ?case by (simp add: wb_seek.simps)
next
  case (Cons h hs)
  consider "pos = 0" | "0 < pos" "pos < hsize h" | "0 < pos" "hsize h \<le> pos" using Cons.prems(2) by linarith
  then show ?case
  proof cases
    case 1
    then show ?thesis by (intro exI [of _ "[]"] exI [of _ "h # hs"] exI [of _ 0]) (simp add: wb_seek.simps)
  next
    case 2
    then show ?thesis
      by (intro exI [of _ "[]"] exI [of _ "h # hs"] exI [of _ "nat pos"]) (simp add: wb_seek.simps)
  next
    case 3
    then have "\<forall>h \<in> set hs. 0 \<le> hsize h" "0 \<le> pos - hsize h" "pos - hsize h \<le> sum_list (map hsize hs)"
      using Cons.prems by simp_all
    from Cons.IH [OF this] obtain hs1 hs2 off where
      "wb_seek hs (pos - hsize h) = Some (hs2, int off)" "hs = hs1 @ hs2"
      "pos - hsize h = sum_list (map hsize hs1) + int off" "off \<noteq> 0 \<longrightarrow> hs2 \<noteq> [] \<and> int off < hsize (hd hs2)"
      by blast
    with 3 have "wb_seek (h # hs) pos = Some (hs2, int off) \<and> h # hs = (h # hs1) @ hs2 \<and>
        pos = sum_list (map hsize (h # hs1)) + int off \<and> (off \<noteq> 0 \<longrightarrow> hs2 \<noteq> [] \<and> int off < hsize (hd hs2))"
      by (simp add: wb_seek.simps [of "h # hs1 @ hs2"])
    then show ?thesis by blast
  qed
qed

text \<open>Writing a piece into one block.\<close>

lemma write_handle:
  assumes "heap_ok m owners" and "hdata h \<in># owners" and "whandle_ok m h" and "int (off + length bs) \<le> hsize h"
  obtains m' where "write_mem m (hdata h) (int off) bs = Some m'" "heap_ok m' owners" "whandle_ok m' h"
    "hbytes m' h = overwrite off bs (hbytes m h)" "\<And>q. q \<noteq> hdata h \<Longrightarrow> view m' q = view m q"
proof -
  obtain n d where d: "view m (hdata h) = Some (n, d)" "hpos h = int (length d)" "0 < hpos h"
    "0 \<le> hsize h" "hsize h \<le> hpos h" "hbytes m h = take (nat (hsize h)) d"
    using assms(3) by (rule whandle_okE)
  have len: "off + length bs \<le> length d" using assms(4) d by linarith
  obtain m' where m': "write_mem m (hdata h) (int off) bs = Some m'" "heap_ok m' owners"
    "view m' (hdata h) = Some (n, overwrite off bs d)" "\<And>q. q \<noteq> hdata h \<Longrightarrow> view m' q = view m q"
    using write_mem_ok [OF assms(1,2) d(1) len] by metis
  have "hbytes m' h = overwrite off bs (hbytes m h)"
    using m'(3) d assms(4) by (simp add: hbytes_def take_overwrite)
  moreover have "whandle_ok m' h"
    using d m'(3) len by (simp add: whandle_ok_def length_overwrite)
  ultimately show thesis using that m' by blast
qed

lemma wb_store_ok:
  assumes "heap_ok m owners" and "set (map hdata hs) \<subseteq> set_mset owners" and "distinct (map hdata hs)"
    and "\<forall>h \<in> set hs. whandle_ok m h" and "off \<noteq> 0 \<longrightarrow> hs \<noteq> [] \<and> int off < hsize (hd hs)"
    and "off + length data \<le> length (hcont m hs)"
  shows "\<exists>m'. wb_store hs (int off) data (int (length data)) m = Some m' \<and> heap_ok m' owners \<and>
           hcont m' hs = overwrite off data (hcont m hs) \<and> (\<forall>h \<in> set hs. whandle_ok m' h) \<and>
           (\<forall>q. q \<notin> set (map hdata hs) \<longrightarrow> view m' q = view m q)"
  using assms
proof (induction hs arbitrary: m off data)
  case Nil
  then show ?case by (simp add: wb_store.simps)
next
  case (Cons h hs)
  have h: "hdata h \<in># owners" "whandle_ok m h" using Cons.prems by auto
  have lh: "int (length (hbytes m h)) = hsize h" by (rule length_hbytes [OF h(2)])
  have off: "int off \<le> hsize h" using Cons.prems(5) lh by (cases "off = 0") auto
  have sep: "view m' (hdata g) = view m (hdata g)"
    if "\<And>q. q \<noteq> hdata h \<Longrightarrow> view m' q = view m q" "g \<in> set hs" for m' g
  proof (rule that(1))
    show "hdata g \<noteq> hdata h" using that(2) Cons.prems(3) by (auto simp: image_iff)
  qed
  consider "data = []" | "data \<noteq> []" "int (off + length data) < hsize h"
    | "data \<noteq> []" "hsize h \<le> int (off + length data)" by force
  then show ?case
  proof cases
    case 1
    with Cons.prems show ?thesis by (auto simp: wb_store.simps)
  next
    case 2
    then have le: "int (off + length data) \<le> hsize h" by simp
    obtain m' where m': "write_mem m (hdata h) (int off) data = Some m'" "heap_ok m' owners" "whandle_ok m' h"
      "hbytes m' h = overwrite off data (hbytes m h)" "\<And>q. q \<noteq> hdata h \<Longrightarrow> view m' q = view m q"
      using write_handle [OF Cons.prems(1) h le] by metis
    have "hcont m' hs = hcont m hs" "\<forall>g \<in> set hs. whandle_ok m' g"
      using sep [OF m'(5)] Cons.prems(4) by (simp_all add: whandle_ok_cong [of m' _ m] hcont_cong [of hs m' m])
    moreover have "off + length data \<le> length (hbytes m h)" using le lh by linarith
    ultimately have "hcont m' (h # hs) = overwrite off data (hcont m (h # hs))"
      by (simp add: m'(4) overwrite_append_left)
    with m' \<open>\<forall>g \<in> set hs. whandle_ok m' g\<close> 2 show ?thesis
      by (intro exI [of _ m']) (auto simp: wb_store.simps Let_def)
  next
    case 3
    define k where "k = length (hbytes m h) - off"
    have k: "hsize h - int off = int k" "k \<le> length data" "length (hbytes m h) = off + k"
      using 3 lh off by (auto simp: k_def)
    then have le: "int (off + length (take k data)) \<le> hsize h" by simp
    obtain m1 where m1: "write_mem m (hdata h) (int off) (take k data) = Some m1" "heap_ok m1 owners" "whandle_ok m1 h"
      "hbytes m1 h = overwrite off (take k data) (hbytes m h)" "\<And>q. q \<noteq> hdata h \<Longrightarrow> view m1 q = view m q"
      using write_handle [OF Cons.prems(1) h le] by metis
    have c1: "hcont m1 hs = hcont m hs" "\<forall>g \<in> set hs. whandle_ok m1 g"
      using sep [OF m1(5)] Cons.prems(4) by (simp_all add: whandle_ok_cong [of m1 _ m] hcont_cong [of hs m1 m])
    have "0 + length (drop k data) \<le> length (hcont m1 hs)" using Cons.prems(6) k c1(1) by simp
    from Cons.IH [OF m1(2) _ _ c1(2) _ this] Cons.prems(2,3)
    obtain m2 where m2: "wb_store hs 0 (drop k data) (int (length (drop k data))) m1 = Some m2" "heap_ok m2 owners"
      "hcont m2 hs = overwrite 0 (drop k data) (hcont m1 hs)" "\<forall>g \<in> set hs. whandle_ok m2 g"
      "\<forall>q. q \<notin> set (map hdata hs) \<longrightarrow> view m2 q = view m1 q"
      by auto
    have v: "view m2 (hdata h) = view m1 (hdata h)" using m2(5) Cons.prems(3) by auto
    have "hcont m2 (h # hs) = overwrite off (take k data @ drop k data) (hcont m (h # hs))"
      using overwrite_across [of "hbytes m h" off "take k data" "drop k data" "hcont m hs"] k
      by (simp add: hbytes_cong [OF v] m1(4) m2(3) c1(1) overwrite_def)
    moreover have "wb_store (h # hs) (int off) data (int (length data)) m = Some m2"
      using 3 k m1(1) m2(1) by (simp add: wb_store.simps [of "h # hs"] Let_def of_nat_diff)
    moreover have "\<forall>g \<in> set (h # hs). whandle_ok m2 g"
      using m2(4) m1(3) whandle_ok_cong [OF v] by auto
    moreover have "\<forall>q. q \<notin> set (map hdata (h # hs)) \<longrightarrow> view m2 q = view m q"
      using m2(5) m1(5) by auto
    ultimately show ?thesis using m2(2) by auto
  qed
qed

text \<open>
  The outcome of an operation on a write buffer: the invariant holds and the other owners' blocks
  look the same.
\<close>

definition wb_frame :: "mem \<Rightarrow> nat multiset \<Rightarrow> mem \<Rightarrow> bool" where
  "wb_frame m others m' \<longleftrightarrow> (\<forall>q \<in># others. view m' q = view m q)"

lemma wb_frame_refl [simp]: "wb_frame m others m"
  by (simp add: wb_frame_def)

lemma wb_frame_trans: "wb_frame m others m1 \<Longrightarrow> wb_frame m1 others m2 \<Longrightarrow> wb_frame m others m2"
  by (simp add: wb_frame_def)

lemma wb_inv_len:
  assumes "wb_inv m others w"
  shows "wb_write_bytes w = int (length (wb_content m w))"
  using assms length_hcont [of "wbufs w" m] by (simp add: wb_inv_def wb_content_def)

lemma wb_set_data_ok:
  assumes "wb_inv m others w" and "pos + length data \<le> length (wb_content m w)"
  shows "\<exists>m'. wb_set_data (int pos) data (int (length data)) w m = Some m' \<and> wb_inv m' others w \<and>
           wb_content m' w = overwrite pos data (wb_content m w) \<and> wb_frame m others m'"
proof -
  let ?hs = "wbufs w"
  note inv = assms(1) [unfolded wb_inv_def]
  have hok: "\<forall>h \<in> set ?hs. whandle_ok m h" using inv by simp
  then have nn: "\<forall>h \<in> set ?hs. 0 \<le> hsize h" by (auto elim!: whandle_okE)
  have "int pos \<le> sum_list (map hsize ?hs)"
    using assms(2) length_hcont [OF hok] by (simp add: wb_content_def)
  from wb_seek_ok [OF nn of_nat_0_le_iff this] obtain hs1 hs2 off where seek: "wb_seek ?hs (int pos) = Some (hs2, int off)"
    "?hs = hs1 @ hs2" "int pos = sum_list (map hsize hs1) + int off"
    "off \<noteq> 0 \<longrightarrow> hs2 \<noteq> [] \<and> int off < hsize (hd hs2)"
    by blast
  have l1: "int (length (hcont m hs1)) = sum_list (map hsize hs1)"
    using hok seek(2) by (intro length_hcont) auto
  then have pos: "pos = length (hcont m hs1) + off" using seek(3) by linarith
  have h: "heap_ok m (mset (map hdata ?hs) + others)" using inv by simp
  have "set (map hdata hs2) \<subseteq> set_mset (mset (map hdata ?hs) + others)" using seek(2) by auto
  moreover have "distinct (map hdata hs2)" "\<forall>h \<in> set hs2. whandle_ok m h"
    using inv seek(2) by auto
  moreover have "off + length data \<le> length (hcont m hs2)"
    using assms(2) pos by (simp add: wb_content_def seek(2))
  ultimately obtain m' where m': "wb_store hs2 (int off) data (int (length data)) m = Some m'"
    "heap_ok m' (mset (map hdata ?hs) + others)" "hcont m' hs2 = overwrite off data (hcont m hs2)"
    "\<forall>h \<in> set hs2. whandle_ok m' h" "\<forall>q. q \<notin> set (map hdata hs2) \<longrightarrow> view m' q = view m q"
    using wb_store_ok [OF h _ _ _ seek(4)] by blast
  have v1: "view m' (hdata g) = view m (hdata g)" if "g \<in> set hs1" for g
    using m'(5) that inv seek(2) by auto
  have c1: "hcont m' hs1 = hcont m hs1" using v1 by (rule hcont_cong)
  have "wb_content m' w = overwrite pos data (wb_content m w)"
    unfolding pos by (simp add: wb_content_def seek(2) c1 m'(3) overwrite_shift)
  moreover have "\<forall>h \<in> set ?hs. whandle_ok m' h"
    using v1 hok m'(4) seek(2) by (auto simp: whandle_ok_cong [of m' _ m])
  moreover have "view m' q = view m q" if "q \<in># others" for q
  proof -
    have "q \<notin> set (map hdata ?hs)" using inv that by blast
    then show ?thesis using m'(5) seek(2) by simp
  qed
  ultimately show ?thesis
    using inv m'(1,2) seek(1) by (auto simp: wb_set_data_def wb_inv_def wb_frame_def)
qed

section \<open>Reserve and Append\<close>

text \<open>Changing the size of the last handle within its capacity.\<close>

lemma wb_resize_ok:
  assumes "wb_inv m others w" and "wbufs w = hs @ [h]" and "hsize h \<le> s" and "s \<le> hpos h"
    and "wbufs w' = hs @ [h\<lparr>hsize := s\<rparr>]" and "wb_write_bytes w' = wb_write_bytes w + (s - hsize h)"
  shows "wb_inv m others w' \<and> (\<exists>j. wb_content m w' = wb_content m w @ j \<and> int (length j) = s - hsize h)"
proof -
  have ok: "whandle_ok m h" using assms(1,2) by (simp add: wb_inv_def)
  then obtain n d where d: "view m (hdata h) = Some (n, d)" "hpos h = int (length d)" "0 < hpos h" "0 \<le> hsize h"
    "hbytes m h = take (nat (hsize h)) d"
    by (auto elim!: whandle_okE)
  have ok': "whandle_ok m (h\<lparr>hsize := s\<rparr>)" using d assms(3,4) by (simp add: whandle_ok_def)
  have b: "hbytes m (h\<lparr>hsize := s\<rparr>) = hbytes m h @ drop (nat (hsize h)) (take (nat s) d)"
  proof -
    have "nat (hsize h) \<le> nat s" using assms(3) by simp
    then have "take (nat s) d = take (nat (hsize h)) d @ drop (nat (hsize h)) (take (nat s) d)"
      by (metis append_take_drop_id min.absorb1 take_take)
    then show ?thesis using d by (simp add: hbytes_def)
  qed
  have "wb_inv m others w'"
    using assms(1,2,5,6) ok' by (auto simp: wb_inv_def butlast_append)
  moreover have "wb_content m w' = wb_content m w @ drop (nat (hsize h)) (take (nat s) d)"
    by (simp add: wb_content_def assms(2,5) b)
  moreover have "int (length (drop (nat (hsize h)) (take (nat s) d))) = s - hsize h"
    using d assms(3,4) by (auto simp: min_def)
  ultimately show ?thesis by blast
qed

lemma wb_extend_ok:
  assumes "wb_inv m others w" and "\<forall>h \<in> set (wbufs w). hsize h = hpos h"
  shows "wb_extend w m = Some (False, w, m) \<or>
     (\<exists>w' m' h. wb_extend w m = Some (True, w', m') \<and> wbufs w' = wbufs w @ [h] \<and> hsize h = 0 \<and> 0 < hpos h \<and>
        wb_inv m' others w' \<and> wb_content m' w' = wb_content m w \<and> wb_frame m others m')"
proof -
  let ?f = "min TRAN_BUF_BLOCK_MAX_FACTOR ((length (wbufs w) + wb_base_block_factor w) mod 2 ^ 32)"
  let ?o = "mset (map hdata (wbufs w)) + others"
  have h: "heap_ok m ?o" using assms(1) by (simp add: wb_inv_def)
  obtain r m' where r: "tb_malloc ?f m = (r, m')" by (cases "tb_malloc ?f m")
  show ?thesis
  proof (cases r)
    case None
    with r malloc_None show ?thesis by (auto simp: wb_extend_def Let_def)
  next
    case (Some p)
    note ok = malloc_ok [OF h r [unfolded Some]]
    obtain d where d: "view m' p = Some (64 * 2 ^ ?f, d)" "int (length d) = 64 * 2 ^ ?f - 8"
      using ok(3) by auto
    have pos: "0 < int (length d)"
      using d(2) one_le_power [of "2 :: int" ?f] by linarith
    define h' where "h' = \<lparr>hdata = p, hsize = 0, hpos = int (length d)\<rparr>"
    define w' where "w' = w\<lparr>wbufs := wbufs w @ [h'], wb_total_block_size := wb_total_block_size w + 64 * 2 ^ ?f,
      wb_total_capacity := wb_total_capacity w + int (length d)\<rparr>"
    have e: "wb_extend w m = Some (True, w', m')"
      using r Some d by (simp add: wb_extend_def Let_def tb_capacity_view tb_block_size_view w'_def h'_def)
    have new: "p \<notin> hdata ` set (wbufs w)" "p \<notin># others" using ok(2) by auto
    have v: "view m' (hdata g) = view m (hdata g)" if "g \<in> set (wbufs w)" for g
    proof (rule ok(4))
      show "hdata g \<noteq> p" using new(1) that by auto
    qed
    have c: "hcont m' (wbufs w) = hcont m (wbufs w)" using v by (rule hcont_cong)
    have "whandle_ok m' h'" using d pos by (simp add: whandle_ok_def h'_def)
    moreover have "\<forall>g \<in> set (wbufs w). whandle_ok m' g"
      using assms(1) v by (auto simp: wb_inv_def whandle_ok_cong [of m' _ m])
    ultimately have "wb_inv m' others w'"
      using assms ok(1) new by (auto simp: wb_inv_def w'_def h'_def)
    moreover have "wb_content m' w' = wb_content m w"
      using d by (simp add: wb_content_def w'_def c h'_def hbytes_def)
    moreover have "wb_frame m others m'" using ok(4) new(2) unfolding wb_frame_def by metis
    ultimately show ?thesis
      using e pos by (intro disjI2 exI [of _ w'] exI [of _ m'] exI [of _ h']) (auto simp: w'_def h'_def)
  qed
qed

text \<open>\<^verbatim>\<open>Next\<close> followed by \<^verbatim>\<open>BackUp\<close> of what is not needed.\<close>

lemma wb_fill_ok:
  assumes "wb_inv m others w" and "wbufs w = hs @ [h]" and "hsize h < hpos h" and "wb_fill w = (c, w')"
  shows "c = (hdata h, hsize h, hpos h - hsize h)"
    and "wb_inv m others w' \<and> (\<exists>j. wb_content m w' = wb_content m w @ j \<and> int (length j) = hpos h - hsize h)"
    and "0 < k \<Longrightarrow> k < hpos h - hsize h \<Longrightarrow>
           \<exists>w2 j. wb_backup (hpos h - hsize h - k) w' = Some w2 \<and> wb_inv m others w2 \<and>
             wb_content m w2 = wb_content m w @ j \<and> int (length j) = k"
proof -
  have w': "c = (hdata h, hsize h, hpos h - hsize h)" "wbufs w' = hs @ [h\<lparr>hsize := hpos h\<rparr>]"
    "wb_write_bytes w' = wb_write_bytes w + (hpos h - hsize h)"
    using assms(2,4) by (auto simp: wb_fill_def Let_def)
  then show "c = (hdata h, hsize h, hpos h - hsize h)" by simp
  show "wb_inv m others w' \<and> (\<exists>j. wb_content m w' = wb_content m w @ j \<and> int (length j) = hpos h - hsize h)"
    using wb_resize_ok [OF assms(1,2) _ _ w'(2,3)] assms(3) by simp
  assume k: "0 < k" "k < hpos h - hsize h"
  define w2 where "w2 = w'\<lparr>wbufs := hs @ [h\<lparr>hsize := hsize h + k\<rparr>], wb_last_bytes := 0,
    wb_write_bytes := wb_write_bytes w' - (hpos h - hsize h - k)\<rparr>"
  have "wb_backup (hpos h - hsize h - k) w' = Some w2"
    using w' by (simp add: wb_backup_def Let_def w2_def)
  moreover have "wb_inv m others w2 \<and> (\<exists>j. wb_content m w2 = wb_content m w @ j \<and> int (length j) = hsize h + k - hsize h)"
    by (rule wb_resize_ok [OF assms(1,2)]) (use k w' in \<open>auto simp: w2_def\<close>)
  ultimately show "\<exists>w2 j. wb_backup (hpos h - hsize h - k) w' = Some w2 \<and> wb_inv m others w2 \<and>
      wb_content m w2 = wb_content m w @ j \<and> int (length j) = k"
    by auto
qed

lemma wb_next_ok:
  assumes "wb_inv m others w"
  shows "(\<exists>w'. wb_next w m = Some (None, w', m) \<and> wb_inv m others w' \<and> wb_content m w' = wb_content m w) \<or>
     (\<exists>p off sz w' m'. wb_next w m = Some (Some (p, off, sz), w', m') \<and> 0 < sz \<and> wb_frame m others m' \<and>
        wb_inv m' others w' \<and> (\<exists>j. wb_content m' w' = wb_content m w @ j \<and> int (length j) = sz) \<and>
        (\<forall>k. 0 < k \<and> k < sz \<longrightarrow> (\<exists>w2 j. wb_backup (sz - k) w' = Some w2 \<and> wb_inv m' others w2 \<and>
             wb_content m' w2 = wb_content m w @ j \<and> int (length j) = k)))"
proof (cases "wbufs w = [] \<or> hsize (last (wbufs w)) = hpos (last (wbufs w))")
  case full: True
  have "\<forall>h \<in> set (wbufs w). hsize h = hpos h"
  proof (cases "wbufs w" rule: rev_cases)
    case (snoc hs h)
    with full assms show ?thesis by (auto simp: wb_inv_def)
  qed simp
  from wb_extend_ok [OF assms this] show ?thesis
  proof (elim disjE exE conjE)
    assume "wb_extend w m = Some (False, w, m)"
    then show ?thesis
      using full assms by (auto simp: wb_next_def wb_inv_def wb_content_def)
  next
    fix w1 m1 h
    assume e: "wb_extend w m = Some (True, w1, m1)" "wbufs w1 = wbufs w @ [h]" "hsize h = 0" "0 < hpos h"
      "wb_inv m1 others w1" "wb_content m1 w1 = wb_content m w" "wb_frame m others m1"
    obtain c w' where f: "wb_fill w1 = (c, w')" by (cases "wb_fill w1")
    have "hsize h < hpos h" using e(3,4) by simp
    note fill = wb_fill_ok [OF e(5,2) this f]
    have "wb_next w m = Some (Some c, w', m1)" using full e(1) f by (auto simp: wb_next_def)
    then show ?thesis
      using fill e(3,4,6,7) by (intro disjI2 exI [of _ "hdata h"] exI [of _ "hsize h"] exI [of _ "hpos h - hsize h"]
          exI [of _ w'] exI [of _ m1]) auto
  qed
next
  case False
  then obtain hs h where h: "wbufs w = hs @ [h]" "hsize h \<noteq> hpos h" by (cases "wbufs w" rule: rev_cases) auto
  with assms have lt: "hsize h < hpos h" by (auto simp: wb_inv_def elim!: whandle_okE)
  obtain c w' where f: "wb_fill w = (c, w')" by (cases "wb_fill w")
  note fill = wb_fill_ok [OF assms h(1) lt f]
  have "wb_next w m = Some (Some c, w', m)" using False f by (auto simp: wb_next_def)
  then show ?thesis
    using fill lt by (intro disjI2 exI [of _ "hdata h"] exI [of _ "hsize h"] exI [of _ "hpos h - hsize h"]
        exI [of _ w'] exI [of _ m]) auto
qed

lemma wb_reserve_loop_ok:
  assumes "wb_inv m others w"
  shows "\<exists>ok w' m' j. wb_reserve_loop (int n) w m = Some (ok, w', m') \<and> wb_inv m' others w' \<and>
     wb_content m' w' = wb_content m w @ j \<and> (ok \<longrightarrow> length j = n) \<and> wb_frame m others m'"
  using assms
proof (induction n arbitrary: w m rule: less_induct)
  case (less n)
  show ?case
  proof (cases "n = 0")
    case True
    then show ?thesis using less.prems by (auto simp: wb_reserve_loop.simps)
  next
    case False
    then have pos: "0 < int n" by simp
    from wb_next_ok [OF less.prems] show ?thesis
    proof (elim disjE exE conjE)
      fix w'
      assume "wb_next w m = Some (None, w', m)" "wb_inv m others w'" "wb_content m w' = wb_content m w"
      with pos show ?thesis by (subst wb_reserve_loop.simps) auto
    next
      fix p off sz w1 m1 j
      assume nx: "wb_next w m = Some (Some (p, off, sz), w1, m1)" "0 < sz" "wb_frame m others m1"
        "wb_inv m1 others w1" "wb_content m1 w1 = wb_content m w @ j" "int (length j) = sz"
        and bk: "\<forall>k. 0 < k \<and> k < sz \<longrightarrow> (\<exists>w2 j. wb_backup (sz - k) w1 = Some w2 \<and> wb_inv m1 others w2 \<and>
             wb_content m1 w2 = wb_content m w @ j \<and> int (length j) = k)"
      show ?thesis
      proof (cases "sz > int n")
        case True
        with bk pos obtain w2 j2 where "wb_backup (sz - int n) w1 = Some w2" "wb_inv m1 others w2"
          "wb_content m1 w2 = wb_content m w @ j2" "int (length j2) = int n" by blast
        with True pos nx show ?thesis by (subst wb_reserve_loop.simps) auto
      next
        case False
        define k where "k = n - length j"
        have k: "int n - sz = int k" "k < n" "n = length j + k" using False nx(2,6) by (auto simp: k_def)
        obtain ok w2 m2 j2 where IH: "wb_reserve_loop (int k) w1 m1 = Some (ok, w2, m2)" "wb_inv m2 others w2"
          "wb_content m2 w2 = wb_content m1 w1 @ j2" "ok \<longrightarrow> length j2 = k" "wb_frame m1 others m2"
          using less.IH [OF k(2) nx(4)] by blast
        have "wb_reserve_loop (int n) w m = Some (ok, w2, m2)"
          using pos nx(1) False IH(1) k(1) by (subst wb_reserve_loop.simps) simp
        moreover have "wb_content m2 w2 = wb_content m w @ (j @ j2)" using IH(3) nx(5) by simp
        ultimately show ?thesis
          using IH(2,4) k(3) wb_frame_trans [OF nx(3) IH(5)] by (metis length_append)
      qed
    qed
  qed
qed

lemma wb_append_ok:
  assumes "wb_inv m others w"
  shows "\<exists>ok w' m'. wb_append data (int (length data)) w m = Some (ok, w', m') \<and> wb_inv m' others w' \<and>
     wb_frame m others m' \<and> (ok \<longrightarrow> wb_content m' w' = wb_content m w @ data) \<and>
     (\<not> ok \<longrightarrow> (\<exists>j. wb_content m' w' = wb_content m w @ j))"
proof (cases "data = []")
  case True
  then show ?thesis using assms by (auto simp: wb_append_def)
next
  case False
  obtain ok w1 m1 j where r: "wb_reserve_loop (int (length data)) w m = Some (ok, w1, m1)" "wb_inv m1 others w1"
    "wb_content m1 w1 = wb_content m w @ j" "ok \<longrightarrow> length j = length data" "wb_frame m others m1"
    using wb_reserve_loop_ok [OF assms] by metis
  have head: "wb_write_bytes w = int (length (wb_content m w))" by (rule wb_inv_len [OF assms])
  show ?thesis
  proof (cases ok)
    case True
    with r(3,4) have "length (wb_content m w) + length data \<le> length (wb_content m1 w1)" by simp
    from wb_set_data_ok [OF r(2) this] obtain m2 where
      s: "wb_set_data (int (length (wb_content m w))) data (int (length data)) w1 m1 = Some m2" "wb_inv m2 others w1"
      "wb_content m2 w1 = overwrite (length (wb_content m w)) data (wb_content m1 w1)" "wb_frame m1 others m2"
      by blast
    have "wb_content m2 w1 = wb_content m w @ data"
      using r(3,4) True s(3) overwrite_shift [of "wb_content m w" 0 data j] by (simp add: overwrite_all)
    with s r True False head show ?thesis
      using wb_frame_trans [OF r(5) s(4)] by (auto simp: wb_append_def wb_reserve_def)
  next
    case notok: False
    with r False show ?thesis by (auto simp: wb_append_def wb_reserve_def)
  qed
qed

section \<open>Memory use\<close>

text \<open>A block takes at most 32768 bytes, so that much free memory per byte is always enough.\<close>

lemma write_mem_avail: "write_mem m p off bs = Some m' \<Longrightarrow> avail m' = avail m"
  by (auto simp: write_mem_def split: option.splits if_splits)

lemma wb_store_avail: "wb_store hs off data sz m = Some m' \<Longrightarrow> avail m' = avail m"
proof (induction hs arbitrary: off data sz m)
  case Nil
  then show ?case by (auto simp: wb_store.simps split: if_splits)
next
  case (Cons h hs)
  then show ?case
    by (auto simp: wb_store.simps [of "h # hs"] Let_def write_mem_avail split: if_splits option.splits)
qed

lemma wb_set_data_avail: "wb_set_data pos data sz w m = Some m' \<Longrightarrow> avail m' = avail m"
  by (auto simp: wb_set_data_def split: option.splits dest: wb_store_avail)

lemma malloc_avail:
  assumes "tb_malloc (min 9 f) m = (r, m')" and "32768 \<le> avail m"
  shows "r \<noteq> None \<and> avail m \<le> avail m' + 32768"
proof -
  have "(2 :: nat) ^ min 9 f \<le> 2 ^ 9" by (rule power_increasing) auto
  then show ?thesis
    using assms by (auto simp: tb_malloc_def TRAN_BUF_BLOCK_BASE_SIZE_def Let_def split: if_splits)
qed

lemma wb_next_avail:
  assumes "wb_next w m = Some (c, w', m')" and "32768 \<le> avail m"
  shows "c \<noteq> None \<and> avail m \<le> avail m' + 32768"
  using assms
  by (auto simp: wb_next_def wb_extend_def TRAN_BUF_BLOCK_MAX_FACTOR_def Let_def split: if_splits option.splits prod.splits
      dest: malloc_avail)

lemma wb_reserve_avail:
  assumes "wb_inv m others w" and "32768 * n \<le> avail m" and "wb_reserve_loop (int n) w m = Some (ok, w', m')"
  shows "ok \<and> avail m \<le> avail m' + 32768 * n"
  using assms
proof (induction n arbitrary: w m rule: less_induct)
  case (less n)
  show ?case
  proof (cases "n = 0")
    case True
    then show ?thesis using less.prems(3) by (subst (asm) wb_reserve_loop.simps) simp
  next
    case False
    then have av: "32768 \<le> avail m" using less.prems(2) by linarith
    from wb_next_ok [OF less.prems(1)] wb_next_avail [OF _ av] obtain p off sz w1 m1 j where
      nx: "wb_next w m = Some (Some (p, off, sz), w1, m1)" "0 < sz" "wb_inv m1 others w1"
      "wb_content m1 w1 = wb_content m w @ j" "int (length j) = sz"
      by blast
    have a1: "avail m \<le> avail m1 + 32768" using wb_next_avail [OF nx(1) av] by simp
    show ?thesis
    proof (cases "sz > int n")
      case True
      with less.prems(3) False nx(1) have "ok \<and> m' = m1"
        by (subst (asm) wb_reserve_loop.simps) auto
      with a1 False show ?thesis by simp
    next
      case ge: False
      define k where "k = n - length j"
      have k: "int n - sz = int k" "k < n" using ge nx(2,5) by (auto simp: k_def)
      have "wb_reserve_loop (int k) w1 m1 = Some (ok, w', m')"
        using less.prems(3) False nx(1) ge k(1) by (subst (asm) wb_reserve_loop.simps) simp
      moreover have "32768 * k \<le> avail m1" using a1 k(2) less.prems(2) by (simp add: less_eq_Suc_le)
      ultimately have "ok \<and> avail m1 \<le> avail m' + 32768 * k" using less.IH [OF k(2) nx(3)] by blast
      with a1 k(2) show ?thesis by (simp add: less_eq_Suc_le)
    qed
  qed
qed

lemma wb_append_roomy:
  assumes "wb_inv m others w" and "32768 * length data \<le> avail m"
  shows "\<exists>w' m'. wb_append data (int (length data)) w m = Some (True, w', m') \<and> wb_inv m' others w' \<and>
     wb_frame m others m' \<and> wb_content m' w' = wb_content m w @ data \<and> avail m \<le> avail m' + 32768 * length data"
proof -
  obtain ok w' m' where a: "wb_append data (int (length data)) w m = Some (ok, w', m')" "wb_inv m' others w'"
    "wb_frame m others m'" "ok \<longrightarrow> wb_content m' w' = wb_content m w @ data"
    using wb_append_ok [OF assms(1), of data] by blast
  have "ok \<and> avail m \<le> avail m' + 32768 * length data"
  proof (cases "data = []")
    case True
    with a(1) show ?thesis by (auto simp: wb_append_def)
  next
    case False
    obtain ok1 w1 m1 where r: "wb_reserve_loop (int (length data)) w m = Some (ok1, w1, m1)"
      using wb_reserve_loop_ok [OF assms(1)] by metis
    note av = wb_reserve_avail [OF assms r]
    have "0 \<le> wb_write_bytes w" using wb_inv_len [OF assms(1)] by simp
    then show ?thesis
      using a(1) r av False by (auto simp: wb_append_def wb_reserve_def dest: wb_set_data_avail)
  qed
  with a show ?thesis by auto
qed

section \<open>SwapOut\<close>

abbreviation filled :: "buffer_handle list \<Rightarrow> buffer_handle list" where
  "filled hs \<equiv> filter (\<lambda>h. hsize h > 0) hs"

lemma rb_append_ok:
  assumes "heap_ok m owners" and "hdata h \<in># owners" and "count owners (hdata h) < 2 ^ 31 - 1"
  obtains m' n where "rb_append h rb m = Some (rb\<lparr>rbufs := rbufs rb @ [h],
      rb_total_block_size := rb_total_block_size rb + n, rb_total_bytes := rb_total_bytes rb + hsize h,
      rb_cur_it := 0\<rparr>, m')"
    "heap_ok m' (add_mset (hdata h) owners)" "view m' = view m"
proof -
  obtain m' where m': "tb_add_ref (hdata h) m = Some m'" "heap_ok m' (add_mset (hdata h) owners)"
    "view m' = view m"
    using add_ref_ok [OF assms] by blast
  obtain d where "view m (hdata h) = Some (int (length d) + 8, d)" using heap_ok_view [OF assms(1,2)] .
  with m' have "rb_append h rb m = Some (rb\<lparr>rbufs := rbufs rb @ [h],
      rb_total_block_size := rb_total_block_size rb + (int (length d) + 8),
      rb_total_bytes := rb_total_bytes rb + hsize h, rb_cur_it := 0\<rparr>, m')"
    by (simp add: rb_append_def tb_block_size_view)
  with m'(2,3) that show thesis by blast
qed

lemma wb_drain_ok:
  assumes "heap_ok m (mset (map hdata hs) + owners)" and "distinct (map hdata hs)"
    and "set (map hdata hs) \<inter> set_mset owners = {}"
  shows "\<exists>rb' m'. wb_drain hs rb m = Some (rb', m') \<and>
     rbufs rb' = rbufs rb @ map (\<lambda>h. h\<lparr>hpos := 0\<rparr>) (filled hs) \<and>
     rb_total_bytes rb' = rb_total_bytes rb + sum_list (map hsize (filled hs)) \<and>
     rb_cur_it rb' = (if filled hs = [] then rb_cur_it rb else 0) \<and> rb_cur_pos rb' = rb_cur_pos rb \<and>
     rb_read_bytes rb' = rb_read_bytes rb \<and>
     heap_ok m' (mset (map hdata (filled hs)) + owners) \<and>
     (\<forall>q \<in># mset (map hdata (filled hs)) + owners. view m' q = view m q)"
  using assms
proof (induction hs arbitrary: rb m owners)
  case (Cons h hs)
  let ?o = "mset (map hdata (h # hs)) + owners"
  have "count owners (hdata h) = 0" "count (mset (map hdata hs)) (hdata h) = 0"
    using Cons.prems(2,3) by (auto simp: count_eq_zero_iff)
  then have cnt: "hdata h \<in># ?o" "count ?o (hdata h) < 2 ^ 31 - 1" by simp_all
  show ?case
  proof (cases "hsize h > 0")
    case True
    obtain m1 n where m1: "rb_append (h\<lparr>hpos := 0\<rparr>) rb m = Some (rb\<lparr>rbufs := rbufs rb @ [h\<lparr>hpos := 0\<rparr>],
        rb_total_block_size := rb_total_block_size rb + n, rb_total_bytes := rb_total_bytes rb + hsize h,
        rb_cur_it := 0\<rparr>, m1)" (is "_ = Some (?rb1, _)")
      "heap_ok m1 (add_mset (hdata h) ?o)" "view m1 = view m"
    proof -
      let ?h = "h\<lparr>hpos := 0\<rparr>"
      have "hdata ?h \<in># ?o" "count ?o (hdata ?h) < 2 ^ 31 - 1" using cnt by simp_all
      from rb_append_ok [OF Cons.prems(1) this, of rb] show thesis
        using that by simp metis
    qed
    obtain m2 where m2: "tb_free (hdata h) m1 = Some m2" "heap_ok m2 ?o"
      "\<And>q. q \<in># ?o \<Longrightarrow> view m2 q = view m1 q"
      using free_ok [OF m1(2), of "hdata h"] by auto
    have "heap_ok m2 (mset (map hdata hs) + add_mset (hdata h) owners)" using m2(2) by simp
    from Cons.IH [OF this, of ?rb1] Cons.prems(2,3) obtain rb' m' where
      "wb_drain hs ?rb1 m2 = Some (rb', m')"
      "rbufs rb' = rbufs ?rb1 @ map (\<lambda>h. h\<lparr>hpos := 0\<rparr>) (filled hs)"
      "rb_total_bytes rb' = rb_total_bytes ?rb1 + sum_list (map hsize (filled hs))"
      "rb_cur_it rb' = (if filled hs = [] then rb_cur_it ?rb1 else 0)" "rb_cur_pos rb' = rb_cur_pos ?rb1"
      "rb_read_bytes rb' = rb_read_bytes ?rb1"
      "heap_ok m' (mset (map hdata (filled hs)) + add_mset (hdata h) owners)"
      "\<forall>q \<in># mset (map hdata (filled hs)) + add_mset (hdata h) owners. view m' q = view m2 q"
      by auto
    with True m1(1,3) m2(1,3) show ?thesis by (auto simp: image_iff)
  next
    case False
    obtain m2 where m2: "tb_free (hdata h) m = Some m2" "heap_ok m2 (mset (map hdata hs) + owners)"
      "\<And>q. q \<in># mset (map hdata hs) + owners \<Longrightarrow> view m2 q = view m q"
      using free_ok [OF Cons.prems(1), of "hdata h"] cnt(1) by auto
    from Cons.IH [OF m2(2), of rb] Cons.prems(2,3) obtain rb' m' where
      "wb_drain hs rb m2 = Some (rb', m')"
      "rbufs rb' = rbufs rb @ map (\<lambda>h. h\<lparr>hpos := 0\<rparr>) (filled hs)"
      "rb_total_bytes rb' = rb_total_bytes rb + sum_list (map hsize (filled hs))"
      "rb_cur_it rb' = (if filled hs = [] then rb_cur_it rb else 0)" "rb_cur_pos rb' = rb_cur_pos rb"
      "rb_read_bytes rb' = rb_read_bytes rb"
      "heap_ok m' (mset (map hdata (filled hs)) + owners)"
      "\<forall>q \<in># mset (map hdata (filled hs)) + owners. view m' q = view m2 q"
      by auto
    with False m2(1,3) show ?thesis by (auto simp: image_iff)
  qed
qed simp

text \<open>The handles of a read buffer that can be read, each with at least one byte.\<close>

definition rhandle_ok :: "mem \<Rightarrow> buffer_handle \<Rightarrow> bool" where
  "rhandle_ok m h \<longleftrightarrow>
     (case view m (hdata h) of
        None \<Rightarrow> False
      | Some (_, d) \<Rightarrow> 0 < hsize h \<and> 0 \<le> hpos h \<and> hpos h + hsize h \<le> int (length d))"

definition rbytes :: "mem \<Rightarrow> buffer_handle \<Rightarrow> byte list" where
  "rbytes m h = (case view m (hdata h) of None \<Rightarrow> [] | Some (_, d) \<Rightarrow> take (nat (hsize h)) (drop (nat (hpos h)) d))"

lemma rb_concat_eq: "\<forall>h \<in> set hs. rhandle_ok m h \<Longrightarrow> rb_concat m hs = Some (concat (map (rbytes m) hs))"
  by (induction hs) (auto simp: rhandle_ok_def rbytes_def read_mem_view split: option.splits)

lemma length_rbytes: "rhandle_ok m h \<Longrightarrow> int (length (rbytes m h)) = hsize h"
  by (auto simp: rhandle_ok_def rbytes_def split: option.splits)

lemma concat_map_filter:
  assumes "\<And>x. x \<in> set xs \<Longrightarrow> P x \<Longrightarrow> f x = g x" and "\<And>x. x \<in> set xs \<Longrightarrow> \<not> P x \<Longrightarrow> g x = []"
  shows "concat (map f (filter P xs)) = concat (map g xs)"
  using assms by (induction xs) auto

lemma sum_filled: "\<forall>h \<in> set hs. whandle_ok m h \<Longrightarrow> sum_list (map hsize (filled hs)) = sum_list (map hsize hs)"
  by (induction hs) (auto elim!: whandle_okE)

lemma filled_reads:
  assumes "\<forall>h \<in> set hs. whandle_ok m h" and "\<forall>h \<in> set (filled hs). view m' (hdata h) = view m (hdata h)"
  shows "\<forall>h \<in> set (map (\<lambda>h. h\<lparr>hpos := 0\<rparr>) (filled hs)). rhandle_ok m' h"
    and "concat (map (rbytes m') (map (\<lambda>h. h\<lparr>hpos := 0\<rparr>) (filled hs))) = hcont m hs"
proof -
  have "rhandle_ok m' (h\<lparr>hpos := 0\<rparr>) \<and> rbytes m' (h\<lparr>hpos := 0\<rparr>) = hbytes m h" if "h \<in> set (filled hs)" for h
    using assms that by (auto simp: rhandle_ok_def rbytes_def hbytes_def elim!: whandle_okE)
  moreover have "hbytes m h = []" if "h \<in> set hs" "\<not> hsize h > 0" for h
    using assms(1) that by (auto elim!: whandle_okE)
  ultimately show "\<forall>h \<in> set (map (\<lambda>h. h\<lparr>hpos := 0\<rparr>) (filled hs)). rhandle_ok m' h"
    "concat (map (rbytes m') (map (\<lambda>h. h\<lparr>hpos := 0\<rparr>) (filled hs))) = hcont m hs"
    using concat_map_filter [of hs "\<lambda>h. hsize h > 0" "\<lambda>h. rbytes m' (h\<lparr>hpos := 0\<rparr>)" "hbytes m"]
    by (simp_all add: hcont_def comp_def)
qed

text \<open>A read buffer that nothing has been read from yet.\<close>

definition rb_fresh :: "mem \<Rightarrow> read_buffer \<Rightarrow> byte list \<Rightarrow> bool" where
  "rb_fresh m rb bs \<longleftrightarrow>
     (\<forall>h \<in> set (rbufs rb). rhandle_ok m h) \<and> concat (map (rbytes m) (rbufs rb)) = bs \<and>
     rb_total_bytes rb = int (length bs) \<and> rb_cur_it rb = 0 \<and> rb_cur_pos rb = 0 \<and> rb_read_bytes rb = 0"

lemma rb_fresh_to_string: "rb_fresh m rb bs \<Longrightarrow> rb_to_string m rb = Some bs"
  by (auto simp: rb_fresh_def rb_to_string_def rb_concat_eq)

lemma rb_fresh_new: "rb_fresh m ReadBuffer []"
  by (simp add: rb_fresh_def ReadBuffer_def)

lemma wb_swap_out_ok:
  assumes "wb_inv m others w"
  shows "\<exists>rb' m'. wb_swap_out w ReadBuffer m =
       Some (WriteBuffer\<lparr>wb_base_block_factor := wb_base_block_factor w\<rparr>, rb', m') \<and>
     rb_fresh m' rb' (wb_content m w) \<and> heap_ok m' (mset (map hdata (rbufs rb')) + others) \<and> wb_frame m others m'"
proof -
  let ?hs = "wbufs w"
  note inv = assms [unfolded wb_inv_def]
  have ok: "\<forall>h \<in> set ?hs. whandle_ok m h" using inv by simp
  obtain rb' m' where d: "wb_drain ?hs ReadBuffer m = Some (rb', m')"
    "rbufs rb' = map (\<lambda>h. h\<lparr>hpos := 0\<rparr>) (filled ?hs)"
    "rb_total_bytes rb' = sum_list (map hsize (filled ?hs))"
    "rb_cur_it rb' = 0" "rb_cur_pos rb' = 0" "rb_read_bytes rb' = 0"
    "heap_ok m' (mset (map hdata (filled ?hs)) + others)"
    "\<forall>q \<in># mset (map hdata (filled ?hs)) + others. view m' q = view m q"
    using wb_drain_ok [of m ?hs others ReadBuffer] inv by (auto simp: ReadBuffer_def)
  have v: "\<forall>h \<in> set (filled ?hs). view m' (hdata h) = view m (hdata h)" using d(8) by auto
  note reads = filled_reads [OF ok v]
  from sum_filled [OF ok] have "rb_total_bytes rb' = int (length (wb_content m w))"
    using d(3) length_hcont [OF ok] by (simp add: wb_content_def)
  then have "rb_fresh m' rb' (wb_content m w)"
    using reads d(2,4,5,6) by (simp add: rb_fresh_def wb_content_def)
  moreover have "wb_frame m others m'" using d(8) by (simp add: wb_frame_def)
  moreover have "mset (map hdata (rbufs rb')) = mset (map hdata (filled ?hs))"
    by (simp add: d(2) comp_def)
  ultimately show ?thesis
    using d(1,7) by (intro exI [of _ rb'] exI [of _ m']) (simp add: wb_swap_out_def WriteBuffer_def)
qed

section \<open>Sinks of bytes\<close>

text \<open>
  What a serialiser relies on when it writes into a buffer: an append returns, adds exactly its data on
  success, and never loses what was there.
\<close>

locale byte_sink =
  fixes inv :: "'s \<Rightarrow> bool"
    and content :: "'s \<Rightarrow> byte list"
    and app :: "byte list \<Rightarrow> 's \<Rightarrow> (bool \<times> 's) option"
  assumes app_law: "inv s \<Longrightarrow> \<exists>ok s'. app bs s = Some (ok, s') \<and> inv s' \<and>
    (ok \<longrightarrow> content s' = content s @ bs) \<and> (\<not> ok \<longrightarrow> (\<exists>j. content s' = content s @ j))"

fun app_all :: "(byte list \<Rightarrow> 's \<Rightarrow> (bool \<times> 's) option) \<Rightarrow> byte list list \<Rightarrow> 's \<Rightarrow> (bool \<times> 's) option" where
  "app_all app [] s = Some (True, s)"
| "app_all app (b # bs) s =
     (case app b s of
        None \<Rightarrow> None
      | Some (False, s') \<Rightarrow> Some (False, s')
      | Some (True, s') \<Rightarrow> app_all app bs s')"

context byte_sink
begin

lemma app_all_law:
  "inv s \<Longrightarrow> \<exists>ok s'. app_all app bss s = Some (ok, s') \<and> inv s' \<and> (ok \<longrightarrow> content s' = content s @ concat bss)"
proof (induction bss arbitrary: s)
  case (Cons bs bss)
  from app_law [OF Cons.prems, of bs] obtain ok s' where s': "app bs s = Some (ok, s')" "inv s'"
    "ok \<longrightarrow> content s' = content s @ bs"
    by blast
  with Cons.IH [OF s'(2)] show ?case by (cases ok) auto
qed auto

end

definition wb_app :: "byte list \<Rightarrow> mem \<times> write_buffer \<Rightarrow> (bool \<times> (mem \<times> write_buffer)) option" where
  "wb_app bs s = (case s of (m, w) \<Rightarrow>
     map_option (\<lambda>(ok, w', m'). (ok, (m', w'))) (wb_append bs (int (length bs)) w m))"

interpretation wbs: byte_sink
  "\<lambda>(m, w). wb_inv m others w \<and> wb_frame m0 others m" "\<lambda>(m, w). wb_content m w" wb_app
  for others m0
proof unfold_locales
  fix s :: "mem \<times> write_buffer" and bs
  obtain m w where s: "s = (m, w)" by (cases s)
  assume "case s of (m, w) \<Rightarrow> wb_inv m others w \<and> wb_frame m0 others m"
  with s have inv: "wb_inv m others w" "wb_frame m0 others m" by auto
  obtain ok w' m' where r: "wb_append bs (int (length bs)) w m = Some (ok, w', m')" "wb_inv m' others w'"
    "wb_frame m others m'" "ok \<longrightarrow> wb_content m' w' = wb_content m w @ bs"
    "\<not> ok \<longrightarrow> (\<exists>j. wb_content m' w' = wb_content m w @ j)"
    using wb_append_ok [OF inv(1), of bs] by blast
  show "\<exists>ok s'. wb_app bs s = Some (ok, s') \<and> (case s' of (m, w) \<Rightarrow> wb_inv m others w \<and> wb_frame m0 others m) \<and>
      (ok \<longrightarrow> (case s' of (m, w) \<Rightarrow> wb_content m w) = (case s of (m, w) \<Rightarrow> wb_content m w) @ bs) \<and>
      (\<not> ok \<longrightarrow> (\<exists>j. (case s' of (m, w) \<Rightarrow> wb_content m w) = (case s of (m, w) \<Rightarrow> wb_content m w) @ j))"
    using r wb_frame_trans [OF inv(2) r(3)] s by (intro exI [of _ ok] exI [of _ "(m', w')"]) (simp add: wb_app_def)
qed

text \<open>
  Serialising: appending any list of pieces to a new \<^verbatim>\<open>WriteBuffer\<close> returns, and if every append
  succeeded, \<^verbatim>\<open>SwapOut\<close> gives a \<^verbatim>\<open>ReadBuffer\<close> that holds exactly the concatenation of the pieces, owns
  each of its blocks once, and leaves the write buffer empty and every other owner's data as it was.
\<close>

theorem serialise_correct:
  assumes "heap_ok m others"
  shows "\<exists>ok m1 w1. app_all wb_app pieces (m, WriteBuffer) = Some (ok, (m1, w1)) \<and>
    (ok \<longrightarrow> (\<exists>rb m2. wb_swap_out w1 ReadBuffer m1 =
               Some (WriteBuffer\<lparr>wb_base_block_factor := wb_base_block_factor w1\<rparr>, rb, m2) \<and>
             rb_to_string m2 rb = Some (concat pieces) \<and> rb_total_bytes rb = int (length (concat pieces)) \<and>
             heap_ok m2 (mset (map hdata (rbufs rb)) + others) \<and> wb_frame m others m2))"
proof -
  have inv: "wb_inv m others WriteBuffer" "wb_content m WriteBuffer = []"
    using assms by (simp_all add: wb_inv_def WriteBuffer_def wb_content_def)
  obtain ok m1 w1 where a: "app_all wb_app pieces (m, WriteBuffer) = Some (ok, (m1, w1))" "wb_inv m1 others w1"
    "wb_frame m others m1" "ok \<longrightarrow> wb_content m1 w1 = concat pieces"
    using wbs.app_all_law [of others m "(m, WriteBuffer)" pieces] inv by auto
  obtain rb m2 where s: "wb_swap_out w1 ReadBuffer m1 =
      Some (WriteBuffer\<lparr>wb_base_block_factor := wb_base_block_factor w1\<rparr>, rb, m2)"
    "rb_fresh m2 rb (wb_content m1 w1)" "heap_ok m2 (mset (map hdata (rbufs rb)) + others)" "wb_frame m1 others m2"
    using wb_swap_out_ok [OF a(2)] by blast
  have "ok \<longrightarrow> rb_to_string m2 rb = Some (concat pieces) \<and> rb_total_bytes rb = int (length (concat pieces))"
    using rb_fresh_to_string [OF s(2)] s(2) a(4) by (simp add: rb_fresh_def)
  with a(1) s(1,3) wb_frame_trans [OF a(3) s(4)] show ?thesis by auto
qed

theorem serialise_correct_witness:
  "\<exists>ok m1 w1. app_all wb_app [[1, 2], [], [3]] (mem0, WriteBuffer) = Some (ok, (m1, w1)) \<and>
     (ok \<longrightarrow> (\<exists>rb m2. wb_swap_out w1 ReadBuffer m1 =
               Some (WriteBuffer\<lparr>wb_base_block_factor := wb_base_block_factor w1\<rparr>, rb, m2) \<and>
             rb_to_string m2 rb = Some [1, 2, 3] \<and> rb_total_bytes rb = 3))"
proof -
  have "heap_ok mem0 {#}" by (simp add: heap_ok_def block_ok_def mem0_def)
  from serialise_correct [OF this, of "[[1, 2], [], [3]]"] show ?thesis by auto
qed

text \<open>
  \<^verbatim>\<open>WriteBuffer::SetData\<close> replaces exactly the bytes at its range, across block boundaries, and
  touches nothing else.
\<close>

theorem set_data_correct:
  assumes "wb_inv m others w" and "pos + length data \<le> length (wb_content m w)"
  shows "\<exists>m'. wb_set_data (int pos) data (int (length data)) w m = Some m' \<and> wb_inv m' others w \<and>
           wb_content m' w = take pos (wb_content m w) @ data @ drop (pos + length data) (wb_content m w) \<and>
           (\<forall>q \<in># others. view m' q = view m q)"
  using wb_set_data_ok [OF assms] by (simp add: overwrite_def wb_frame_def)

theorem set_data_correct_witness:
  "\<exists>m' w m. wb_reserve 5 WriteBuffer mem0 = Some (0, w, m) \<and> wb_set_data 1 [7, 8] 2 w m = Some m' \<and>
     length (wb_content m' w) = 5 \<and> take 2 (drop 1 (wb_content m' w)) = [7, 8]"
proof -
  have inv: "wb_inv mem0 {#} WriteBuffer" "wb_content mem0 WriteBuffer = []"
    by (simp_all add: wb_inv_def WriteBuffer_def wb_content_def heap_ok_def block_ok_def mem0_def)
  from wb_reserve_loop_ok [OF inv(1), of 5] obtain ok w m j where
    r: "wb_reserve_loop 5 WriteBuffer mem0 = Some (ok, w, m)" "wb_inv m {#} w" "wb_content m w = j"
      "ok \<longrightarrow> length j = 5"
    using inv(2) by auto
  have ok: "ok"
    using r(1) by (subst (asm) wb_reserve_loop.simps)
      (simp add: wb_next_def wb_extend_def tb_malloc_def mem0_def WriteBuffer_def TRAN_BUF_BLOCK_BASE_SIZE_def
        TRAN_BUF_BLOCK_MAX_FACTOR_def tb_capacity_def tb_block_size_def wb_fill_def wb_backup_def)
  have "1 + length [7, 8 :: byte] \<le> length (wb_content m w)" using ok r(3,4) by simp
  from set_data_correct [OF r(2) this] obtain m' where
    "wb_set_data 1 [7, 8] 2 w m = Some m'" "wb_content m' w = take 1 j @ [7, 8] @ drop 3 j"
    using r(3) by (auto simp: numeral_3_eq_3)
  with r ok show ?thesis by (auto simp: wb_reserve_def WriteBuffer_def)
qed

end
