(* ===== verification/Buffers_Read.thy ===== *)
theory Buffers_Read
  imports Buffers_Write
begin

text \<open>
  \<^verbatim>\<open>ReadBuffer\<close> as a zero-copy input stream: the contract of \<^verbatim>\<open>Next\<close>, \<^verbatim>\<open>BackUp\<close> and \<^verbatim>\<open>Skip\<close> against the
  bytes that are still to be read, the laws of appending handles, and that a buffer may be dropped without
  touching the data of other owners.
\<close>

section \<open>The contract of an input stream\<close>

locale zero_copy_input =
  fixes inv :: "'s \<Rightarrow> bool"
    and rest :: "'s \<Rightarrow> byte list"
    and next_chunk :: "'s \<Rightarrow> byte list option \<times> 's"
    and back_up :: "nat \<Rightarrow> 's \<Rightarrow> 's option"
  assumes next_end: "inv s \<Longrightarrow> rest s = [] \<Longrightarrow> \<exists>s'. next_chunk s = (None, s') \<and> inv s' \<and> rest s' = []"
    and next_more: "inv s \<Longrightarrow> rest s \<noteq> [] \<Longrightarrow>
      \<exists>c s'. next_chunk s = (Some c, s') \<and> c \<noteq> [] \<and> inv s' \<and> rest s = c @ rest s' \<and>
        (\<forall>k \<le> length c. \<exists>s''. back_up k s' = Some s'' \<and> inv s'' \<and> rest s'' = drop (length c - k) c @ rest s')"

text \<open>Reading everything: the bytes of the chunks until the stream ends, in at most \<open>n\<close> steps.\<close>

fun read_chunks :: "('s \<Rightarrow> byte list option \<times> 's) \<Rightarrow> nat \<Rightarrow> 's \<Rightarrow> (byte list \<times> 's) option" where
  "read_chunks nx 0 s = None"
| "read_chunks nx (Suc n) s =
     (case nx s of
        (None, s') \<Rightarrow> Some ([], s')
      | (Some c, s') \<Rightarrow> map_option (\<lambda>(cs, s''). (c @ cs, s'')) (read_chunks nx n s'))"

text \<open>Skipping \<open>k\<close> bytes with \<^verbatim>\<open>Next\<close> and \<^verbatim>\<open>BackUp\<close>.\<close>

fun skip_chunks :: "('s \<Rightarrow> byte list option \<times> 's) \<Rightarrow> (nat \<Rightarrow> 's \<Rightarrow> 's option) \<Rightarrow> nat \<Rightarrow> nat \<Rightarrow> 's \<Rightarrow>
    (nat \<times> 's) option" where
  "skip_chunks nx bk 0 k s = None"
| "skip_chunks nx bk (Suc n) k s =
     (if k = 0 then Some (0, s)
      else (case nx s of
              (None, s') \<Rightarrow> Some (k, s')
            | (Some c, s') \<Rightarrow>
                if length c > k then map_option (\<lambda>s''. (0, s'')) (bk (length c - k) s')
                else skip_chunks nx bk n (k - length c) s'))"

context zero_copy_input
begin

lemma read_chunks_law:
  "inv s \<Longrightarrow> length (rest s) < n \<Longrightarrow> \<exists>s'. read_chunks next_chunk n s = Some (rest s, s') \<and> inv s' \<and> rest s' = []"
proof (induction n arbitrary: s)
  case (Suc n)
  show ?case
  proof (cases "rest s = []")
    case True
    then show ?thesis using next_end [OF Suc.prems(1)] by auto
  next
    case False
    with next_more [OF Suc.prems(1)] obtain c s' where
      c: "next_chunk s = (Some c, s')" "c \<noteq> []" "inv s'" "rest s = c @ rest s'"
      by blast
    have "length (rest s') < n" using c(2,4) Suc.prems(2) by (cases c) simp_all
    with Suc.IH [OF c(3)] c show ?thesis by auto
  qed
qed simp

lemma skip_chunks_law:
  "inv s \<Longrightarrow> length (rest s) + 1 < n \<Longrightarrow>
     \<exists>s'. skip_chunks next_chunk back_up n k s = Some (k - length (rest s), s') \<and> inv s' \<and> rest s' = drop k (rest s)"
proof (induction n arbitrary: s k)
  case (Suc n)
  show ?case
  proof (cases "k = 0 \<or> rest s = []")
    case True
    then show ?thesis using next_end [OF Suc.prems(1)] Suc.prems(1) by auto
  next
    case False
    with next_more [OF Suc.prems(1)] obtain c s' where
      c: "next_chunk s = (Some c, s')" "c \<noteq> []" "inv s'" "rest s = c @ rest s'"
      and bk: "\<forall>j \<le> length c. \<exists>s''. back_up j s' = Some s'' \<and> inv s'' \<and> rest s'' = drop (length c - j) c @ rest s'"
      by blast
    show ?thesis
    proof (cases "length c > k")
      case True
      with bk obtain s'' where "back_up (length c - k) s' = Some s''" "inv s''"
        "rest s'' = drop (length c - (length c - k)) c @ rest s'"
        by (metis diff_le_self)
      with c False True show ?thesis by auto
    next
      case k: False
      have "length (rest s') + 1 < n" using c(2,4) Suc.prems(2) by (cases c) simp_all
      with Suc.IH [OF c(3), of "k - length c"] c False k show ?thesis by auto
    qed
  qed
qed simp

end

section \<open>ReadBuffer\<close>

text \<open>The bytes after the read position.\<close>

definition rb_rest :: "mem \<Rightarrow> read_buffer \<Rightarrow> byte list" where
  "rb_rest m rb = drop (nat (rb_cur_pos rb)) (concat (map (rbytes m) (drop (rb_cur_it rb) (rbufs rb))))"

definition rb_inv :: "mem \<Rightarrow> read_buffer \<Rightarrow> bool" where
  "rb_inv m rb \<longleftrightarrow>
     (\<forall>h \<in> set (rbufs rb). rhandle_ok m h) \<and> rb_cur_it rb \<le> length (rbufs rb) \<and> 0 \<le> rb_cur_pos rb \<and>
     (if rb_cur_it rb < length (rbufs rb) then rb_cur_pos rb < hsize (rbufs rb ! rb_cur_it rb) else rb_cur_pos rb = 0)"

lemma rhandle_ok_pos: "rhandle_ok m h \<Longrightarrow> 0 < hsize h"
  by (auto simp: rhandle_ok_def split: option.splits)

lemma rb_inv_start:
  assumes "\<forall>h \<in> set (rbufs rb). rhandle_ok m h" and "rb_cur_it rb \<le> length (rbufs rb)" and "rb_cur_pos rb = 0"
  shows "rb_inv m rb"
  using assms by (auto simp: rb_inv_def intro: rhandle_ok_pos dest: nth_mem)

lemma rb_fresh_inv: "rb_fresh m rb bs \<Longrightarrow> rb_inv m rb \<and> rb_rest m rb = bs"
  by (auto simp: rb_fresh_def rb_rest_def intro: rb_inv_start)

lemma rb_rest_cons:
  assumes "rb_inv m rb" and "rb_cur_it rb < length (rbufs rb)"
  shows "rb_rest m rb = drop (nat (rb_cur_pos rb)) (rbytes m (rbufs rb ! rb_cur_it rb)) @
           concat (map (rbytes m) (drop (rb_cur_it rb + 1) (rbufs rb)))"
proof -
  let ?h = "rbufs rb ! rb_cur_it rb"
  have "rhandle_ok m ?h" "rb_cur_pos rb < hsize ?h" "0 \<le> rb_cur_pos rb"
    using assms by (auto simp: rb_inv_def)
  then have "nat (rb_cur_pos rb) \<le> length (rbytes m ?h)" using length_rbytes [of m ?h] by linarith
  then show ?thesis
    using assms(2) by (simp add: rb_rest_def Cons_nth_drop_Suc [symmetric] del: Cons_nth_drop_Suc)
qed

lemma read_chunk:
  assumes "rhandle_ok m h" and "0 \<le> k" and "k < hsize h"
  shows "read_mem m (hdata h) (hpos h + k) (hsize h - k) = Some (drop (nat k) (rbytes m h))"
proof -
  obtain n d where d: "view m (hdata h) = Some (n, d)" "0 < hsize h" "0 \<le> hpos h" "hpos h + hsize h \<le> int (length d)"
    using assms(1) by (auto simp: rhandle_ok_def split: option.splits)
  have "nat (hsize h - k) = nat (hsize h) - nat k" "nat (hpos h + k) = nat k + nat (hpos h)"
    using assms(2) d(3) by linarith+
  with d assms show ?thesis
    by (simp add: read_mem_view rbytes_def drop_take)
qed

text \<open>\<^verbatim>\<open>Next\<close> with the bytes it points to, and \<^verbatim>\<open>BackUp\<close>, on a heap and a buffer.\<close>

definition rb_next_bytes :: "mem \<times> read_buffer \<Rightarrow> byte list option \<times> (mem \<times> read_buffer)" where
  "rb_next_bytes s = (case s of (m, rb) \<Rightarrow>
     (case rb_next rb of
        (None, rb') \<Rightarrow> (None, (m, rb'))
      | (Some (p, off, sz), rb') \<Rightarrow> (read_mem m p off sz, (m, rb'))))"

definition rb_back_up :: "nat \<Rightarrow> mem \<times> read_buffer \<Rightarrow> (mem \<times> read_buffer) option" where
  "rb_back_up k s = (case s of (m, rb) \<Rightarrow> map_option (\<lambda>rb'. (m, rb')) (rb_backup (int k) rb))"

lemma rb_next_end:
  assumes "rb_inv m rb" and "rb_rest m rb = []"
  shows "rb_next rb = (None, rb\<lparr>rb_last_bytes := 0\<rparr>)"
proof (cases "rb_cur_it rb < length (rbufs rb)")
  case True
  let ?h = "rbufs rb ! rb_cur_it rb"
  have "rhandle_ok m ?h" "rb_cur_pos rb < hsize ?h" "0 \<le> rb_cur_pos rb"
    using assms(1) True by (auto simp: rb_inv_def)
  then have "nat (rb_cur_pos rb) < length (rbytes m ?h)" using length_rbytes [of m ?h] by linarith
  with rb_rest_cons [OF assms(1) True] assms(2) show ?thesis by simp
qed (simp add: rb_next_def)

lemma rb_next_more:
  assumes "rb_inv m rb" and "rb_rest m rb \<noteq> []"
  shows "\<exists>p off sz rb' c. rb_next rb = (Some (p, off, sz), rb') \<and> read_mem m p off sz = Some c \<and> c \<noteq> [] \<and>
     int (length c) = sz \<and> rb_inv m rb' \<and> rb_rest m rb = c @ rb_rest m rb' \<and>
     rb_read_bytes rb' = rb_read_bytes rb + sz \<and> rb_cur_it rb < rb_cur_it rb' \<and> rbufs rb' = rbufs rb \<and>
     (\<forall>k \<le> length c. \<exists>rb''. rb_backup (int k) rb' = Some rb'' \<and> rb_inv m rb'' \<and>
        rb_rest m rb'' = drop (length c - k) c @ rb_rest m rb' \<and> rb_read_bytes rb'' = rb_read_bytes rb' - int k)"
proof -
  have it: "rb_cur_it rb < length (rbufs rb)"
    using assms by (cases "rb_cur_it rb < length (rbufs rb)") (auto simp: rb_inv_def rb_rest_def)
  let ?h = "rbufs rb ! rb_cur_it rb" and ?k = "rb_cur_pos rb"
  have h: "rhandle_ok m ?h" "?k < hsize ?h" "0 \<le> ?k" using assms(1) it by (auto simp: rb_inv_def)
  define c where "c = drop (nat ?k) (rbytes m ?h)"
  define rb' where "rb' = rb\<lparr>rb_cur_it := rb_cur_it rb + 1, rb_cur_pos := 0, rb_last_bytes := hsize ?h - ?k,
    rb_read_bytes := rb_read_bytes rb + (hsize ?h - ?k)\<rparr>"
  have n: "rb_next rb = (Some (hdata ?h, hpos ?h + ?k, hsize ?h - ?k), rb')"
    using it by (simp add: rb_next_def Let_def rb'_def)
  have r: "read_mem m (hdata ?h) (hpos ?h + ?k) (hsize ?h - ?k) = Some c"
    using read_chunk [OF h(1) h(3,2)] by (simp add: c_def)
  have lc: "int (length c) = hsize ?h - ?k" using length_rbytes [OF h(1)] h(2,3) by (simp add: c_def)
  have inv': "rb_inv m rb'"
    by (rule rb_inv_start) (use assms(1) it in \<open>auto simp: rb_inv_def rb'_def\<close>)
  have rest': "rb_rest m rb' = concat (map (rbytes m) (drop (rb_cur_it rb + 1) (rbufs rb)))"
    by (simp add: rb_rest_def rb'_def)
  have rest: "rb_rest m rb = c @ rb_rest m rb'"
    using rb_rest_cons [OF assms(1) it] rest' by (simp add: c_def)
  have bk: "\<exists>rb''. rb_backup (int k) rb' = Some rb'' \<and> rb_inv m rb'' \<and>
      rb_rest m rb'' = drop (length c - k) c @ rb_rest m rb' \<and> rb_read_bytes rb'' = rb_read_bytes rb' - int k"
    if k: "k \<le> length c" for k
  proof (cases "k = 0")
    case True
    then show ?thesis using inv' by (auto simp: rb_backup_def rb_inv_def rb_rest_def)
  next
    case False
    define rb'' where "rb'' = rb'\<lparr>rb_cur_it := rb_cur_it rb, rb_cur_pos := hsize ?h - int k, rb_last_bytes := 0,
      rb_read_bytes := rb_read_bytes rb' - int k\<rparr>"
    have e: "rb_backup (int k) rb' = Some rb''"
      using False it by (simp add: rb_backup_def rb'_def rb''_def Let_def)
    have i: "rb_inv m rb''"
      using inv' it False k lc h(3) by (auto simp: rb_inv_def rb''_def rb'_def)
    have "rb_rest m rb'' = drop (nat (hsize ?h - int k)) (rbytes m ?h) @ rb_rest m rb'"
      using rb_rest_cons [OF i] it rest' by (simp add: rb''_def rb'_def)
    moreover have "nat (hsize ?h - int k) = length c - k + nat ?k" using lc h(3) k by linarith
    ultimately show ?thesis using e i by (simp add: c_def rb''_def)
  qed
  show ?thesis using n r lc inv' rest bk h(2)
    by (intro exI [of _ "hdata ?h"] exI [of _ "hpos ?h + ?k"] exI [of _ "hsize ?h - ?k"] exI [of _ rb'] exI [of _ c])
      (auto simp: rb'_def)
qed

interpretation rbs: zero_copy_input
  "\<lambda>(m, rb). rb_inv m rb" "\<lambda>(m, rb). rb_rest m rb" rb_next_bytes rb_back_up
proof unfold_locales
  fix s :: "mem \<times> read_buffer"
  obtain m rb where s: "s = (m, rb)" by (cases s)
  assume inv: "case s of (m, rb) \<Rightarrow> rb_inv m rb"
  {
    assume "(case s of (m, rb) \<Rightarrow> rb_rest m rb) = []"
    with inv s have "rb_next rb = (None, rb\<lparr>rb_last_bytes := 0\<rparr>)" by (intro rb_next_end) auto
    with inv s \<open>(case s of (m, rb) \<Rightarrow> rb_rest m rb) = []\<close>
    show "\<exists>s'. rb_next_bytes s = (None, s') \<and> (case s' of (m, rb) \<Rightarrow> rb_inv m rb) \<and>
        (case s' of (m, rb) \<Rightarrow> rb_rest m rb) = []"
      by (auto simp: rb_next_bytes_def rb_inv_def rb_rest_def)
  next
    assume "(case s of (m, rb) \<Rightarrow> rb_rest m rb) \<noteq> []"
    with inv s obtain p off sz rb' c where n: "rb_next rb = (Some (p, off, sz), rb')" "read_mem m p off sz = Some c"
      "c \<noteq> []" "rb_inv m rb'" "rb_rest m rb = c @ rb_rest m rb'"
      and bk: "\<forall>k \<le> length c. \<exists>rb''. rb_backup (int k) rb' = Some rb'' \<and> rb_inv m rb'' \<and>
        rb_rest m rb'' = drop (length c - k) c @ rb_rest m rb' \<and> rb_read_bytes rb'' = rb_read_bytes rb' - int k"
      using rb_next_more [of m rb] by auto
    have "\<exists>s''. rb_back_up k (m, rb') = Some s'' \<and> (case s'' of (m, rb) \<Rightarrow> rb_inv m rb) \<and>
        (case s'' of (m, rb) \<Rightarrow> rb_rest m rb) = drop (length c - k) c @ rb_rest m rb'" if "k \<le> length c" for k
      using bk that by (fastforce simp: rb_back_up_def)
    with n s show "\<exists>c s'. rb_next_bytes s = (Some c, s') \<and> c \<noteq> [] \<and> (case s' of (m, rb) \<Rightarrow> rb_inv m rb) \<and>
        (case s of (m, rb) \<Rightarrow> rb_rest m rb) = c @ (case s' of (m, rb) \<Rightarrow> rb_rest m rb) \<and>
        (\<forall>k \<le> length c. \<exists>s''. rb_back_up k s' = Some s'' \<and> (case s'' of (m, rb) \<Rightarrow> rb_inv m rb) \<and>
          (case s'' of (m, rb) \<Rightarrow> rb_rest m rb) = drop (length c - k) c @ (case s' of (m, rb) \<Rightarrow> rb_rest m rb))"
      by (intro exI [of _ c] exI [of _ "(m, rb')"]) (simp add: rb_next_bytes_def)
  }
qed

section \<open>Skip\<close>

lemma rb_skip_loop_ok:
  assumes "rb_inv m rb"
  shows "\<exists>rb'. rb_skip_loop (int n) rb = Some (int (n - length (rb_rest m rb)), rb') \<and> rb_inv m rb' \<and>
     rb_rest m rb' = drop n (rb_rest m rb) \<and>
     rb_read_bytes rb' = rb_read_bytes rb + int (min n (length (rb_rest m rb)))"
  using assms
proof (induction "length (rbufs rb) - rb_cur_it rb" arbitrary: rb n rule: less_induct)
  case less
  show ?case
  proof (cases "n = 0 \<or> rb_rest m rb = []")
    case True
    then show ?thesis
      using rb_next_end [OF less.prems] less.prems
      by (auto simp: rb_skip_loop.simps rb_inv_def rb_rest_def)
  next
    case False
    with rb_next_more [OF less.prems] obtain p off sz rb1 c where
      nx: "rb_next rb = (Some (p, off, sz), rb1)" "c \<noteq> []" "int (length c) = sz" "rb_inv m rb1"
        "rb_rest m rb = c @ rb_rest m rb1" "rb_read_bytes rb1 = rb_read_bytes rb + sz"
        "rb_cur_it rb < rb_cur_it rb1" "rbufs rb1 = rbufs rb"
      and bk: "\<forall>k \<le> length c. \<exists>rb''. rb_backup (int k) rb1 = Some rb'' \<and> rb_inv m rb'' \<and>
        rb_rest m rb'' = drop (length c - k) c @ rb_rest m rb1 \<and> rb_read_bytes rb'' = rb_read_bytes rb1 - int k"
      by blast
    have lt: "rb_cur_it rb < length (rbufs rb)"
      using nx(1) by (auto simp: rb_next_def Let_def split: if_splits)
    show ?thesis
    proof (cases "n < length c")
      case True
      with bk obtain rb2 where b: "rb_backup (int (length c - n)) rb1 = Some rb2" "rb_inv m rb2"
        "rb_rest m rb2 = drop (length c - (length c - n)) c @ rb_rest m rb1"
        "rb_read_bytes rb2 = rb_read_bytes rb1 - int (length c - n)"
        by (metis diff_le_self)
      moreover have "rb_skip_loop (int n) rb = Some (0, rb2)"
        using False True nx(1,3) b(1) by (subst rb_skip_loop.simps) (simp add: of_nat_diff)
      ultimately show ?thesis
        using True nx(3,5,6) by (auto simp: of_nat_diff)
    next
      case ge: False
      have "length (rbufs rb1) - rb_cur_it rb1 < length (rbufs rb) - rb_cur_it rb" using nx(7,8) lt by simp
      from less.hyps [OF this nx(4), of "n - length c"] obtain rb2 where
        "rb_skip_loop (int (n - length c)) rb1 = Some (int (n - length c - length (rb_rest m rb1)), rb2)"
        "rb_inv m rb2" "rb_rest m rb2 = drop (n - length c) (rb_rest m rb1)"
        "rb_read_bytes rb2 = rb_read_bytes rb1 + int (min (n - length c) (length (rb_rest m rb1)))"
        by blast
      moreover have "rb_skip_loop (int n) rb = rb_skip_loop (int (n - length c)) rb1"
        using False ge nx(1,3) by (subst rb_skip_loop.simps) (simp add: of_nat_diff)
      ultimately show ?thesis using ge nx(3,5,6) by auto
    qed
  qed
qed

text \<open>
  \<^verbatim>\<open>ReadBuffer::Skip(n)\<close> always returns; it drops exactly the next \<open>n\<close> bytes of the stream (all of
  them if fewer are left), reports whether there were enough, and counts what it consumed.
\<close>

theorem skip_correct:
  assumes "rb_inv m rb"
  shows "\<exists>rb'. rb_skip (int n) rb = Some (n \<le> length (rb_rest m rb), rb') \<and> rb_inv m rb' \<and>
     rb_rest m rb' = drop n (rb_rest m rb) \<and>
     rb_read_bytes rb' = rb_read_bytes rb + int (min n (length (rb_rest m rb)))"
proof -
  obtain rb1 where "rb_skip_loop (int n) rb = Some (int (n - length (rb_rest m rb)), rb1)" "rb_inv m rb1"
    "rb_rest m rb1 = drop n (rb_rest m rb)"
    "rb_read_bytes rb1 = rb_read_bytes rb + int (min n (length (rb_rest m rb)))"
    using rb_skip_loop_ok [OF assms] by blast
  then show ?thesis
    by (intro exI [of _ "rb1\<lparr>rb_last_bytes := 0\<rparr>"]) (auto simp: rb_skip_def rb_inv_def rb_rest_def)
qed

section \<open>Appending and dropping\<close>

lemma rbytes_cong: "view m' (hdata h) = view m (hdata h) \<Longrightarrow> rbytes m' h = rbytes m h"
  by (simp add: rbytes_def)

lemma rhandle_ok_cong: "view m' (hdata h) = view m (hdata h) \<Longrightarrow> rhandle_ok m' h = rhandle_ok m h"
  by (simp add: rhandle_ok_def)

lemma rb_fresh_cong:
  assumes "rb_fresh m rb bs" and "\<And>h. h \<in> set (rbufs rb) \<Longrightarrow> view m' (hdata h) = view m (hdata h)"
  shows "rb_fresh m' rb bs"
proof -
  have "map (rbytes m') (rbufs rb) = map (rbytes m) (rbufs rb)"
    using assms(2) by (simp add: rbytes_cong [of m' _ m])
  then have "concat (map (rbytes m') (rbufs rb)) = bs"
    using assms(1) by (simp only: rb_fresh_def)
  moreover have "\<forall>h \<in> set (rbufs rb). rhandle_ok m' h"
    using assms by (auto simp: rb_fresh_def rhandle_ok_cong [of m' _ m])
  ultimately show ?thesis using assms(1) by (simp add: rb_fresh_def)
qed

lemma rb_append_fresh:
  assumes "rb_fresh m rb bs" and "rhandle_ok m h" and "heap_ok m owners" and "hdata h \<in># owners"
    and "count owners (hdata h) < 2 ^ 31 - 1"
  obtains rb' m' where "rb_append h rb m = Some (rb', m')" "rb_fresh m' rb' (bs @ rbytes m h)"
    "heap_ok m' (add_mset (hdata h) owners)" "view m' = view m" "rbufs rb' = rbufs rb @ [h]"
proof -
  obtain m' n where a: "rb_append h rb m = Some (rb\<lparr>rbufs := rbufs rb @ [h],
      rb_total_block_size := rb_total_block_size rb + n, rb_total_bytes := rb_total_bytes rb + hsize h,
      rb_cur_it := 0\<rparr>, m')" (is "_ = Some (?rb, _)")
    "heap_ok m' (add_mset (hdata h) owners)" "view m' = view m"
    using rb_append_ok [OF assms(3-5), of rb] by blast
  have "rb_fresh m' ?rb (bs @ rbytes m h)"
    using assms(1,2) length_rbytes [OF assms(2)] a(3)
    by (auto simp: rb_fresh_def rhandle_ok_cong [of m' _ m] rbytes_cong [of m' _ m] cong: map_cong)
  with a that show thesis by simp
qed

lemma rb_destroy_ok:
  assumes "heap_ok m (mset (map hdata (rbufs rb)) + others)"
  shows "\<exists>m'. rb_destroy rb m = Some m' \<and> heap_ok m' others \<and> wb_frame m others m'"
proof -
  obtain m' where "tb_free_all (map hdata (rbufs rb)) m = Some m'" "heap_ok m' others"
    "\<And>q. q \<in># others \<Longrightarrow> view m' q = view m q"
    using free_all_ok [OF assms] by blast
  then show ?thesis by (simp add: rb_destroy_def wb_frame_def)
qed

lemma rb_append_buf_ok:
  assumes "rb_fresh m rb bs" and "rb_fresh m other cs" and "heap_ok m owners"
    and "set (map hdata (rbufs other)) \<subseteq> set_mset owners"
    and "\<And>p. count owners p + count (mset (map hdata (rbufs other))) p < 2 ^ 31"
  shows "\<exists>rb' m'. rb_append_buf other rb m = Some (rb', m') \<and> rb_fresh m' rb' (bs @ cs) \<and>
     heap_ok m' (mset (map hdata (rbufs other)) + owners) \<and> view m' = view m"
proof -
  obtain m' where m': "tb_add_ref_all (map hdata (rbufs other)) m = Some m'"
    "heap_ok m' (mset (map hdata (rbufs other)) + owners)" "view m' = view m"
    using add_ref_all_ok [OF assms(3-5)] by blast
  then show ?thesis
    using assms(1,2)
    by (auto simp: rb_append_buf_def rb_fresh_def rhandle_ok_cong [of m' _ m] rbytes_cong [of m' _ m] cong: map_cong)
qed

text \<open>
  Reading a fresh buffer with \<^verbatim>\<open>Next\<close> until it returns false delivers its bytes in order, each once,
  in non-empty chunks that can be read; and dropping the buffer afterwards releases its references and
  leaves every other owner's data unchanged.
\<close>

theorem read_all_then_drop:
  assumes "rb_fresh m rb bs" and "heap_ok m (mset (map hdata (rbufs rb)) + others)"
  shows "(\<exists>s'. read_chunks rb_next_bytes (Suc (length bs)) (m, rb) = Some (bs, s')) \<and>
         (\<exists>m'. rb_destroy rb m = Some m' \<and> heap_ok m' others \<and> (\<forall>q \<in># others. view m' q = view m q))"
  using rbs.read_chunks_law [of "(m, rb)" "Suc (length bs)"] rb_fresh_inv [OF assms(1)] rb_destroy_ok [OF assms(2)]
  by (auto simp: wb_frame_def)

definition rb_example :: read_buffer where
  "rb_example = \<lparr>rbufs = [\<lparr>hdata = 0, hsize = 2, hpos = 1\<rparr>, \<lparr>hdata = 0, hsize = 1, hpos = 5\<rparr>],
     rb_total_block_size = 32, rb_total_bytes = 3, rb_cur_it = 0, rb_cur_pos = 0, rb_last_bytes = 0, rb_read_bytes = 0\<rparr>"

definition mem_example :: mem where
  "mem_example = mem0\<lparr>blocks := (blocks mem0)(0 \<mapsto> \<lparr>blk_size = 16, ref_count = 2, payload = [10, 11, 12, 13, 14, 15, 16, 17]\<rparr>),
     next_ptr := 1\<rparr>"

theorem skip_correct_witness:
  "\<exists>rb'. rb_skip 2 rb_example = Some (True, rb') \<and> rb_rest mem_example rb' = [15] \<and> rb_read_bytes rb' = 2"
proof -
  have "rb_inv mem_example rb_example" "rb_rest mem_example rb_example = [11, 12, 15]" "rb_read_bytes rb_example = 0"
    by (simp_all add: rb_inv_def rb_rest_def rb_example_def mem_example_def mem0_def rhandle_ok_def rbytes_def view_def)
  with skip_correct [of mem_example rb_example 2] show ?thesis by auto
qed

theorem read_all_then_drop_witness:
  "(\<exists>s'. read_chunks rb_next_bytes 4 (mem_example, rb_example) = Some ([11, 12, 15], s')) \<and>
   (\<exists>m'. rb_destroy rb_example mem_example = Some m' \<and> heap_ok m' {#})"
proof -
  have "rb_fresh mem_example rb_example [11, 12, 15]"
    by (simp add: rb_fresh_def rb_example_def mem_example_def mem0_def rhandle_ok_def rbytes_def view_def)
  moreover have "heap_ok mem_example (mset (map hdata (rbufs rb_example)) + {#})"
    by (simp add: heap_ok_def block_ok_def rb_example_def mem_example_def mem0_def)
  ultimately show ?thesis using read_all_then_drop [of mem_example rb_example "[11, 12, 15]" "{#}"]
    by (simp add: numeral_eq_Suc)
qed

end
