(* ===== verification/Message_Receive.thy ===== *)
theory Message_Receive
  imports Message_Header Buffers_Read
begin

text \<open>
  The receiving half of \<^verbatim>\<open>src/message_stream/message_stream.cpp\<close>: the transfer buffer the socket reads
  into, \<^verbatim>\<open>identify_message_header\<close> and \<^verbatim>\<open>split_and_process_message\<close>, which cut the incoming bytes into
  messages that share the transfer buffer. The theorems relate them to \<open>deframe\<close>: however the stream is
  split into reads, the messages are the ones that were framed, and a delivered message keeps its bytes
  while the stream goes on receiving into the same block. The loop is a \<open>partial_function\<close>: a header
  with a negative size makes it run forever.
\<close>

section \<open>State and operations\<close>

record rx_state =
  receiving_message :: read_buffer
  received_message_size :: int
  receiving_header :: "byte list"   \<comment> \<open>the 24 bytes of the header object\<close>
  received_header_size :: int
  receiving_header_identified :: bool
  tran_buf :: "nat option"
  receiving_data :: int             \<comment> \<open>offset of \<open>_receiving_data\<close> in the transfer buffer\<close>
  receiving_size :: int

type_synonym received_item = "read_buffer \<times> int \<times> int"

definition rx_init :: rx_state where
  "rx_init = \<lparr>receiving_message = ReadBuffer, received_message_size = 0,
              receiving_header = header_bytes MessageHeader, received_header_size = 0,
              receiving_header_identified = False, tran_buf = None, receiving_data = 0, receiving_size = 0\<rparr>"

definition reset_receiving_env :: "rx_state \<Rightarrow> rx_state" where
  "reset_receiving_env rx =
     rx\<lparr>receiving_message := ReadBuffer, received_message_size := 0, received_header_size := 0,
        receiving_header_identified := False\<rparr>"

definition reset_tran_buf :: "nat \<Rightarrow> rx_state \<Rightarrow> mem \<Rightarrow> (bool \<times> rx_state \<times> mem) option" where
  "reset_tran_buf factor rx m =
     (case (case tran_buf rx of None \<Rightarrow> Some m | Some p \<Rightarrow> tb_free p m) of
        None \<Rightarrow> None
      | Some m1 \<Rightarrow>
          (case tb_malloc factor m1 of
             (None, m2) \<Rightarrow> Some (False, rx\<lparr>tran_buf := None\<rparr>, m2)
           | (Some p, m2) \<Rightarrow>
               (case tb_capacity p m2 of
                  None \<Rightarrow> None
                | Some c \<Rightarrow>
                    Some (True, rx\<lparr>tran_buf := Some p, receiving_data := 0, receiving_size := c\<rparr>, m2))))"

text \<open>The result code, the bytes consumed and the new state.\<close>

definition identify_message_header :: "nat \<Rightarrow> int \<Rightarrow> int \<Rightarrow> rx_state \<Rightarrow> mem \<Rightarrow> (int \<times> int \<times> rx_state) option" where
  "identify_message_header p data sz rx m =
     (let copy_size = min sz (int header_size - received_header_size rx)
      in case read_mem m p data copy_size of
           None \<Rightarrow> None
         | Some bs \<Rightarrow>
             let rx1 = rx\<lparr>receiving_header := overwrite (nat (received_header_size rx)) bs (receiving_header rx),
                          received_header_size := received_header_size rx + copy_size\<rparr>
             in Some (if received_header_size rx1 < int header_size then 0
                      else if \<not> CheckMagicString (read_header (receiving_header rx1)) then -1
                      else 1,
                      copy_size, rx1))"

text \<open>
  The first half of the loop body: \<open>Inl\<close> is a return from the function, \<open>Inr\<close> the data and size with
  which the second half goes on.
\<close>

definition split_header :: "nat \<Rightarrow> int \<Rightarrow> int \<Rightarrow> rx_state \<Rightarrow> mem \<Rightarrow> ((bool \<times> rx_state) + (int \<times> int \<times> rx_state)) option" where
  "split_header p data sz rx m =
     (if receiving_header_identified rx then Some (Inr (data, sz, rx))
      else (case identify_message_header p data sz rx m of
              None \<Rightarrow> None
            | Some (identify_result, consumed, rx1) \<Rightarrow>
                if identify_result > 0
                then (let rx2 = rx1\<lparr>receiving_header_identified := True\<rparr>
                      in if consumed = sz \<and> message_size (read_header (receiving_header rx2)) > 0
                         then Some (Inl (True, rx2))
                         else Some (Inr (data + consumed, sz - consumed, rx2)))
                else Some (Inl (identify_result = 0, rx1))))"

text \<open>
  The second half: \<open>Inl\<close> when the message is not complete yet, \<open>Inr\<close> when it has been pushed. (For a \<^verbatim>\<open>message_size\<close> close to
  \<open>- 2 ^ 63\<close> the source's subtraction overflows; the difference here is exact.)
\<close>

definition split_body :: "nat \<Rightarrow> int \<Rightarrow> int \<Rightarrow> rx_state \<Rightarrow> mem \<Rightarrow> received_item list \<Rightarrow>
    ((rx_state \<times> mem) + (int \<times> int \<times> rx_state \<times> mem \<times> received_item list)) option" where
  "split_body p data sz rx m items =
     (let h = read_header (receiving_header rx)
      in if received_message_size rx + sz < message_size h
         then map_option (\<lambda>(rb, m'). Inl (rx\<lparr>receiving_message := rb,
                            received_message_size := received_message_size rx + sz\<rparr>, m'))
                (rb_append \<lparr>hdata = p, hsize = sz, hpos = data\<rparr> (receiving_message rx) m)
         else (let consume_size = message_size h - received_message_size rx
               in case (if consume_size > 0
                        then rb_append \<lparr>hdata = p, hsize = i32 consume_size, hpos = data\<rparr> (receiving_message rx) m
                        else Some (receiving_message rx, m)) of
                    None \<Rightarrow> None
                  | Some (rb, m') \<Rightarrow>
                      Some (Inr (data + consume_size, i32 (sz - consume_size), reset_receiving_env rx, m',
                                 items @ [(rb, meta_size h, data_size h)]))))"

partial_function (option) split_and_process_message ::
  "nat \<Rightarrow> int \<Rightarrow> int \<Rightarrow> rx_state \<Rightarrow> mem \<Rightarrow> received_item list \<Rightarrow> (bool \<times> rx_state \<times> mem \<times> received_item list) option" where
  "split_and_process_message p data sz rx m items =
     (if sz > 0
      then (case split_header p data sz rx m of
              None \<Rightarrow> None
            | Some (Inl (b, rx1)) \<Rightarrow> Some (b, rx1, m, items)
            | Some (Inr (data1, sz1, rx1)) \<Rightarrow>
                (case split_body p data1 sz1 rx1 m items of
                   None \<Rightarrow> None
                 | Some (Inl (rx2, m2)) \<Rightarrow> Some (True, rx2, m2, items)
                 | Some (Inr (data2, sz2, rx2, m2, items2)) \<Rightarrow>
                     split_and_process_message p data2 sz2 rx2 m2 items2))
      else Some (True, rx, m, items))"

text \<open>The messages of a queue that is dropped when its owner returns.\<close>

fun destroy_items :: "received_item list \<Rightarrow> mem \<Rightarrow> mem option" where
  "destroy_items [] m = Some m"
| "destroy_items ((rb, _, _) # items) m =
     (case rb_destroy rb m of None \<Rightarrow> None | Some m' \<Rightarrow> destroy_items items m')"

text \<open>
  A completed read: the transport has put \<open>bs\<close> at \<^verbatim>\<open>_receiving_data\<close>; the bytes are split into messages and
  the buffer is replaced when it is full. The result is \<open>Inl\<close> the reason for which the stream is closed, or
  the received messages.
\<close>

definition receive_bytes :: "nat \<Rightarrow> byte list \<Rightarrow> rx_state \<Rightarrow> mem \<Rightarrow> ((string + received_item list) \<times> rx_state \<times> mem) option" where
  "receive_bytes factor bs rx m =
     (case tran_buf rx of
        None \<Rightarrow> None
      | Some p \<Rightarrow>
          (case write_mem m p (receiving_data rx) bs of
             None \<Rightarrow> None
           | Some m1 \<Rightarrow>
               (case split_and_process_message p (receiving_data rx) (int (length bs)) rx m1 [] of
                  None \<Rightarrow> None
                | Some (False, rx1, m2, items) \<Rightarrow>
                    map_option (\<lambda>m3. (Inl ''broken stream'', rx1, m3)) (destroy_items items m2)
                | Some (True, rx1, m2, items) \<Rightarrow>
                    (let rx2 = rx1\<lparr>receiving_data := receiving_data rx1 + int (length bs),
                                   receiving_size := receiving_size rx1 - int (length bs)\<rparr>
                     in if receiving_size rx2 = 0
                        then (case reset_tran_buf factor rx2 m2 of
                                None \<Rightarrow> None
                              | Some (False, rx3, m3) \<Rightarrow>
                                  map_option (\<lambda>m4. (Inl ''out of memory'', rx3, m4)) (destroy_items items m3)
                              | Some (True, rx3, m3) \<Rightarrow> Some (Inr items, rx3, m3))
                        else Some (Inr items, rx2, m2)))))"

text \<open>
  A transport that delivers the bytes of a stream in reads of its own choosing: each read fills at least
  one and at most \<^verbatim>\<open>_receiving_size\<close> bytes. The result is \<open>Inl\<close> a reason for closing or the messages
  received, with the bytes not delivered yet.
\<close>

fun receive_stream :: "nat \<Rightarrow> nat list \<Rightarrow> byte list \<Rightarrow> rx_state \<Rightarrow> mem \<Rightarrow>
    ((string + received_item list) \<times> byte list \<times> rx_state \<times> mem) option" where
  "receive_stream factor [] bytes rx m = Some (Inr [], bytes, rx, m)"
| "receive_stream factor (n # ns) bytes rx m =
     (if bytes = [] then Some (Inr [], bytes, rx, m)
      else (let k = min (max 1 n) (nat (receiving_size rx))
            in case receive_bytes factor (take k bytes) rx m of
                 None \<Rightarrow> None
               | Some (Inl reason, rx1, m1) \<Rightarrow> Some (Inl reason, drop k bytes, rx1, m1)
               | Some (Inr items, rx1, m1) \<Rightarrow>
                   (case receive_stream factor ns (drop k bytes) rx1 m1 of
                      None \<Rightarrow> None
                    | Some (Inl reason, rest, rx2, m2) \<Rightarrow> Some (Inl reason, rest, rx2, m2)
                    | Some (Inr items', rest, rx2, m2) \<Rightarrow> Some (Inr (items @ items'), rest, rx2, m2))))"

section \<open>Invariant\<close>

abbreviation handles_of :: "read_buffer \<Rightarrow> nat multiset" where
  "handles_of rb \<equiv> mset (map hdata (rbufs rb))"

text \<open>Messages that are still referenced, each with its bytes.\<close>

type_synonym live_msgs = "(read_buffer \<times> byte list) list"

definition live_handles :: "live_msgs \<Rightarrow> nat multiset" where
  "live_handles live = sum_list (map (\<lambda>(rb, _). handles_of rb) live)"

definition below :: "nat \<Rightarrow> int \<Rightarrow> read_buffer \<Rightarrow> bool" where
  "below p off rb \<longleftrightarrow> (\<forall>h \<in> set (rbufs rb). hdata h = p \<longrightarrow> hpos h + hsize h \<le> off)"

definition owners_of :: "nat \<Rightarrow> rx_state \<Rightarrow> live_msgs \<Rightarrow> nat multiset \<Rightarrow> nat multiset" where
  "owners_of p rx live others = add_mset p (handles_of (receiving_message rx) + live_handles live + others)"

definition msg_bytes :: "mem \<Rightarrow> read_buffer \<Rightarrow> byte list" where
  "msg_bytes m rb = concat (map (rbytes m) (rbufs rb))"

text \<open>
  The heap part: the transfer buffer is owned, the message in progress and the live messages can be read,
  and none of them reaches beyond offset \<open>off\<close> of the transfer buffer.
\<close>

definition rx_mem_ok :: "mem \<Rightarrow> nat \<Rightarrow> nat \<Rightarrow> rx_state \<Rightarrow> live_msgs \<Rightarrow> nat multiset \<Rightarrow> bool" where
  "rx_mem_ok m p off rx live others \<longleftrightarrow>
     tran_buf rx = Some p \<and> heap_ok m (owners_of p rx live others) \<and> p \<notin># others \<and>
     count (owners_of p rx live others) p \<le> 1 + off \<and> off < 2 ^ 30 \<and>
     rb_fresh m (receiving_message rx) (msg_bytes m (receiving_message rx)) \<and>
     below p (int off) (receiving_message rx) \<and>
     (\<forall>(rb, bs) \<in> set live. rb_fresh m rb bs \<and> below p (int off) rb)"

text \<open>The header part: how many header and body bytes have arrived, and that the message is not complete.\<close>

definition rx_hdr_ok :: "mem \<Rightarrow> rx_state \<Rightarrow> bool" where
  "rx_hdr_ok m rx \<longleftrightarrow>
     length (receiving_header rx) = header_size \<and> 0 \<le> received_header_size rx \<and>
     received_message_size rx = int (length (msg_bytes m (receiving_message rx))) \<and>
     (if receiving_header_identified rx
      then received_header_size rx = int header_size \<and> CheckMagicString (read_header (receiving_header rx)) \<and>
           received_message_size rx < message_size (read_header (receiving_header rx))
      else received_header_size rx < int header_size \<and> msg_bytes m (receiving_message rx) = [])"

definition rx_pending :: "mem \<Rightarrow> rx_state \<Rightarrow> byte list" where
  "rx_pending m rx =
     take (nat (received_header_size rx)) (receiving_header rx) @ msg_bytes m (receiving_message rx)"

lemma msg_bytes_new [simp]: "msg_bytes m ReadBuffer = []"
  by (simp add: msg_bytes_def ReadBuffer_def)

lemma rb_fresh_msg_bytes: "rb_fresh m rb bs \<Longrightarrow> msg_bytes m rb = bs"
  by (simp add: rb_fresh_def msg_bytes_def)

lemma below_mono: "below p off rb \<Longrightarrow> off \<le> off' \<Longrightarrow> below p off' rb"
  by (auto simp: below_def)

lemma rx_mem_ok_mono: "rx_mem_ok m p off rx live others \<Longrightarrow> off \<le> off' \<Longrightarrow> off' < 2 ^ 30 \<Longrightarrow> rx_mem_ok m p off' rx live others"
  unfolding rx_mem_ok_def using below_mono [of p "int off" _ "int off'"] by (auto simp: split_beta)

text \<open>The pending bytes do not hold a complete message.\<close>

lemma pending_incomplete:
  assumes "rx_hdr_ok m rx"
  shows "deframe (rx_pending m rx) = Parsed [] (rx_pending m rx)"
proof (cases "receiving_header_identified rx")
  case True
  let ?h = "read_header (receiving_header rx)" and ?b = "msg_bytes m (receiving_message rx)"
  have h: "length (receiving_header rx) = header_size" "CheckMagicString ?h"
    "int (length ?b) < message_size ?h" "received_header_size rx = int header_size"
    using assms True by (auto simp: rx_hdr_ok_def)
  then have p: "rx_pending m rx = receiving_header rx @ ?b" by (simp add: rx_pending_def)
  have "read_header (rx_pending m rx) = ?h" unfolding p using h(1) by (simp add: read_header_append)
  moreover have "\<not> message_size ?h < 0" "length (rx_pending m rx) < header_size + nat (message_size ?h)"
    using h p by auto
  ultimately show ?thesis using h p by (subst deframe.simps) (simp add: Let_def)
next
  case False
  then have "length (rx_pending m rx) < header_size"
    using assms by (auto simp: rx_hdr_ok_def rx_pending_def)
  then show ?thesis by (subst deframe.simps) simp
qed

text \<open>Appending a piece of the transfer buffer to the message in progress.\<close>

lemma rx_append:
  assumes "rx_mem_ok m p off rx live others" and "view m p = Some (n, d)" and "0 < k" and "off + k \<le> length d"
    and "off + k < 2 ^ 30"
  obtains rb m' where "rb_append \<lparr>hdata = p, hsize = int k, hpos = int off\<rparr> (receiving_message rx) m = Some (rb, m')"
    "view m' = view m" "rb_fresh m' rb (msg_bytes m (receiving_message rx) @ take k (drop off d))"
    "below p (int (off + k)) rb"
    "heap_ok m' (add_mset p (owners_of p rx live others))" "rbufs rb = rbufs (receiving_message rx) @ [\<lparr>hdata = p, hsize = int k, hpos = int off\<rparr>]"
proof -
  let ?h = "\<lparr>hdata = p, hsize = int k, hpos = int off\<rparr>" and ?o = "owners_of p rx live others"
  have h: "rhandle_ok m ?h" using assms(2-4) by (simp add: rhandle_ok_def)
  have r: "rbytes m ?h = take k (drop off d)" using assms(2) by (simp add: rbytes_def)
  note ok = assms(1) [unfolded rx_mem_ok_def]
  have fr: "rb_fresh m (receiving_message rx) (msg_bytes m (receiving_message rx))" and hp: "heap_ok m ?o"
    using ok by blast+
  have mem: "hdata ?h \<in># ?o" by (simp add: owners_of_def)
  have "count ?o p \<le> 1 + off" "off < 2 ^ 30" using ok by blast+
  then have cnt: "count ?o (hdata ?h) < 2 ^ 31 - 1" by simp
  obtain rb m' where a: "rb_append ?h (receiving_message rx) m = Some (rb, m')"
    "rb_fresh m' rb (msg_bytes m (receiving_message rx) @ rbytes m ?h)"
    "heap_ok m' (add_mset (hdata ?h) ?o)" "view m' = view m" "rbufs rb = rbufs (receiving_message rx) @ [?h]"
    by (rule rb_append_fresh [OF fr h hp mem cnt])
  have bl: "below p (int off) (receiving_message rx)" using ok by blast
  have "below p (int (off + k)) rb"
    using bl a(5) by (fastforce simp: below_def)
  with a r that show thesis by simp
qed

lemma live_handles_snoc [simp]: "live_handles (live @ [(rb, bs)]) = live_handles live + handles_of rb"
  by (simp add: live_handles_def)

lemma live_cong:
  assumes "\<forall>(rb, bs) \<in> set live. rb_fresh m rb bs \<and> below p off rb" and "view m' = view m" and "off \<le> off'"
  shows "\<forall>(rb, bs) \<in> set live. rb_fresh m' rb bs \<and> below p off' rb"
  using assms(1) rb_fresh_cong [of m _ _ m'] below_mono [OF _ assms(3)] assms(2) by fastforce

text \<open>A header that is complete and good, with the body still to come.\<close>

definition header_done :: "mem \<Rightarrow> rx_state \<Rightarrow> bool" where
  "header_done m rx \<longleftrightarrow>
     length (receiving_header rx) = header_size \<and> received_header_size rx = int header_size \<and>
     receiving_header_identified rx \<and> CheckMagicString (read_header (receiving_header rx)) \<and>
     received_message_size rx = int (length (msg_bytes m (receiving_message rx)))"

lemma split_body_partial:
  assumes ok: "rx_mem_ok m p off rx live others" and v: "view m p = Some (n, d)" and hd: "header_done m rx"
    and sz: "0 < sz" "off + sz \<le> length d" "off + sz < 2 ^ 30"
    and lt: "received_message_size rx + int sz < message_size (read_header (receiving_header rx))"
  shows "\<exists>rx' m'. split_body p (int off) (int sz) rx m items = Some (Inl (rx', m')) \<and> view m' = view m \<and>
     rx_mem_ok m' p (off + sz) rx' live others \<and> rx_hdr_ok m' rx' \<and>
     rx_pending m' rx' = rx_pending m rx @ take sz (drop off d)"
proof -
  obtain rb m' where a: "rb_append \<lparr>hdata = p, hsize = int sz, hpos = int off\<rparr> (receiving_message rx) m = Some (rb, m')"
    "view m' = view m" "rb_fresh m' rb (msg_bytes m (receiving_message rx) @ take sz (drop off d))"
    "below p (int (off + sz)) rb" "heap_ok m' (add_mset p (owners_of p rx live others))"
    "rbufs rb = rbufs (receiving_message rx) @ [\<lparr>hdata = p, hsize = int sz, hpos = int off\<rparr>]"
    by (rule rx_append [OF ok v sz])
  define rx' where "rx' = rx\<lparr>receiving_message := rb, received_message_size := received_message_size rx + int sz\<rparr>"
  have s: "split_body p (int off) (int sz) rx m items = Some (Inl (rx', m'))"
    using lt a(1) by (simp add: split_body_def Let_def rx'_def)
  have o': "owners_of p rx' live others = add_mset p (owners_of p rx live others)"
    by (simp add: owners_of_def rx'_def a(6))
  have mb: "msg_bytes m' rb = msg_bytes m (receiving_message rx) @ take sz (drop off d)"
    by (rule rb_fresh_msg_bytes [OF a(3)])
  note okd = ok [unfolded rx_mem_ok_def]
  have live: "\<forall>(rb, bs) \<in> set live. rb_fresh m' rb bs \<and> below p (int (off + sz)) rb"
    by (rule live_cong [of live m p "int off"]) (use okd a(2) in auto)
  have "tran_buf rx' = Some p" "p \<notin># others" "count (owners_of p rx live others) p \<le> 1 + off"
    using okd by (auto simp: rx'_def)
  with a(3-5) o' mb live sz have mem: "rx_mem_ok m' p (off + sz) rx' live others"
    by (simp add: rx_mem_ok_def rx'_def)
  have "length (take sz (drop off d)) = sz" using sz(2) by simp
  with hd lt mb have "rx_hdr_ok m' rx'" "rx_pending m' rx' = rx_pending m rx @ take sz (drop off d)"
    by (simp_all add: rx_hdr_ok_def rx_pending_def header_done_def rx'_def del: length_take length_drop)
  with s a(2) mem show ?thesis by blast
qed

lemma split_body_done:
  assumes ok: "rx_mem_ok m p off rx live others" and v: "view m p = Some (n, d)" and hd: "header_done m rx"
    and sz: "off + sz \<le> length d" "off + sz < 2 ^ 30" "k \<le> sz"
    and k: "received_message_size rx + int k = message_size (read_header (receiving_header rx))"
  shows "\<exists>rx' m' rb. split_body p (int off) (int sz) rx m items =
       Some (Inr (int (off + k), int (sz - k), rx', m',
         items @ [(rb, meta_size (read_header (receiving_header rx)), data_size (read_header (receiving_header rx)))])) \<and>
     view m' = view m \<and>
     rx_mem_ok m' p (off + k) rx' (live @ [(rb, msg_bytes m (receiving_message rx) @ take k (drop off d))]) others \<and>
     rx_hdr_ok m' rx' \<and> rx_pending m' rx' = []"
proof -
  let ?bs = "msg_bytes m (receiving_message rx) @ take k (drop off d)"
  note okd = ok [unfolded rx_mem_ok_def]
  have "\<exists>rb m'. (if int k > 0 then rb_append \<lparr>hdata = p, hsize = int k, hpos = int off\<rparr> (receiving_message rx) m
                 else Some (receiving_message rx, m)) = Some (rb, m') \<and> view m' = view m \<and> rb_fresh m' rb ?bs \<and>
      below p (int (off + k)) rb \<and> heap_ok m' (add_mset p (handles_of rb + live_handles live + others)) \<and>
      count (add_mset p (handles_of rb + live_handles live + others)) p \<le> 1 + (off + k)"
  proof (cases "k = 0")
    case True
    then show ?thesis using okd by (simp add: owners_of_def)
  next
    case False
    then have "0 < k" "off + k \<le> length d" "off + k < 2 ^ 30" using sz by auto
    then obtain rb m' where a: "rb_append \<lparr>hdata = p, hsize = int k, hpos = int off\<rparr> (receiving_message rx) m = Some (rb, m')"
      "view m' = view m" "rb_fresh m' rb ?bs" "below p (int (off + k)) rb"
      "heap_ok m' (add_mset p (owners_of p rx live others))"
      "rbufs rb = rbufs (receiving_message rx) @ [\<lparr>hdata = p, hsize = int k, hpos = int off\<rparr>]"
      by (rule rx_append [OF ok v])
    have "handles_of rb = add_mset p (handles_of (receiving_message rx))" by (simp add: a(6))
    moreover have "count (owners_of p rx live others) p \<le> 1 + off" using okd by blast
    ultimately show ?thesis using a False by (simp add: owners_of_def)
  qed
  then obtain rb m' where a: "(if int k > 0 then rb_append \<lparr>hdata = p, hsize = int k, hpos = int off\<rparr> (receiving_message rx) m
                 else Some (receiving_message rx, m)) = Some (rb, m')" "view m' = view m" "rb_fresh m' rb ?bs"
      "below p (int (off + k)) rb" "heap_ok m' (add_mset p (handles_of rb + live_handles live + others))"
      "count (add_mset p (handles_of rb + live_handles live + others)) p \<le> 1 + (off + k)"
    by blast
  let ?h = "read_header (receiving_header rx)"
  have c: "message_size ?h - received_message_size rx = int k" using k by linarith
  have i: "i32 (int k) = int k" "i32 (int sz - int k) = int sz - int k"
    using sz by (auto intro!: i32_id)
  have "split_body p (int off) (int sz) rx m items =
      Some (Inr (int (off + k), int (sz - k), reset_receiving_env rx, m', items @ [(rb, meta_size ?h, data_size ?h)]))"
    using a(1) k sz(3) i by (cases "k = 0") (simp_all add: split_body_def Let_def c of_nat_diff)
  moreover have live: "\<forall>(rb, bs) \<in> set live. rb_fresh m' rb bs \<and> below p (int (off + k)) rb"
    by (rule live_cong [of live m p "int off"]) (use okd a(2) in auto)
  have o': "owners_of p (reset_receiving_env rx) (live @ [(rb, ?bs)]) others =
      add_mset p (handles_of rb + live_handles live + others)"
    by (simp add: owners_of_def reset_receiving_env_def ReadBuffer_def)
  have "tran_buf rx = Some p" "p \<notin># others" "off + k < 2 ^ 30" using okd sz(2,3) by auto
  with live a(3-6) have "rx_mem_ok m' p (off + k) (reset_receiving_env rx) (live @ [(rb, ?bs)]) others"
    unfolding rx_mem_ok_def o'
    by (simp add: reset_receiving_env_def rb_fresh_new below_def ReadBuffer_def [THEN arg_cong [of _ _ rbufs]])
  moreover have "rx_hdr_ok m' (reset_receiving_env rx)" "rx_pending m' (reset_receiving_env rx) = []"
    using hd by (simp_all add: rx_hdr_ok_def rx_pending_def reset_receiving_env_def header_done_def header_size_def)
  ultimately show ?thesis using a(2) by blast
qed

text \<open>The outcome of the loop, for each outcome of the specification.\<close>

abbreviation item_of :: "read_buffer \<times> frame \<Rightarrow> received_item" where
  "item_of x \<equiv> (fst x, fst (snd x), fst (snd (snd x)))"

abbreviation live_of :: "read_buffer \<times> frame \<Rightarrow> read_buffer \<times> byte list" where
  "live_of x \<equiv> (fst x, snd (snd (snd x)))"

definition split_outcome :: "mem \<Rightarrow> nat \<Rightarrow> nat \<Rightarrow> live_msgs \<Rightarrow> nat multiset \<Rightarrow> received_item list \<Rightarrow> deframed \<Rightarrow>
    (bool \<times> rx_state \<times> mem \<times> received_item list) option \<Rightarrow> bool" where
  "split_outcome m p off' live others items dfr r \<longleftrightarrow>
     (dfr \<noteq> NegSize \<longrightarrow>
       (\<exists>b rx' m' news. r = Some (b, rx', m', items @ map item_of news) \<and> view m' = view m \<and>
          rx_mem_ok m' p off' rx' (live @ map live_of news) others \<and> length (receiving_header rx') = header_size \<and>
          (case dfr of
             Parsed fs rest \<Rightarrow> b \<and> map snd news = fs \<and> rx_hdr_ok m' rx' \<and> rx_pending m' rx' = rest
           | _ \<Rightarrow> \<not> b)))"

lemma deframe_step:
  assumes "length hdr = header_size" and "CheckMagicString (read_header hdr)"
    and "int (length body) = message_size (read_header hdr)"
  shows "deframe (hdr @ body @ rest) =
    add_frame (meta_size (read_header hdr), data_size (read_header hdr), body) (deframe rest)"
proof -
  have h: "read_header (hdr @ body @ rest) = read_header hdr" using assms(1) by (simp add: read_header_append)
  have n: "nat (message_size (read_header hdr)) = length body" "\<not> message_size (read_header hdr) < 0"
    using assms(3) by auto
  show ?thesis
    unfolding deframe.simps [of "hdr @ body @ rest"] Let_def h n using assms(1,2) n(2) by simp
qed

lemma split_outcome_cons:
  assumes "split_outcome m1 p off' (live @ [(rb, snd (snd f))]) others (items @ [(rb, fst f, fst (snd f))]) dfr r"
    and "view m1 = view m"
  shows "split_outcome m p off' live others items (add_frame f dfr) r"
proof (cases dfr)
  case (Parsed fs rest)
  from assms(1) Parsed obtain rx' m' news where
    o': "r = Some (True, rx', m', items @ [(rb, fst f, fst (snd f))] @ map item_of news)" "view m' = view m1"
    "rx_mem_ok m' p off' rx' ((live @ [(rb, snd (snd f))]) @ map live_of news) others" "map snd news = fs"
    "rx_hdr_ok m' rx'" "rx_pending m' rx' = rest" "length (receiving_header rx') = header_size"
    by (auto simp: split_outcome_def)
  then show ?thesis
    using Parsed assms(2) unfolding split_outcome_def add_frame_def
    by (intro impI exI [of _ True] exI [of _ rx'] exI [of _ m'] exI [of _ "(rb, f) # news"]) simp
next
  case BadMagic
  from assms(1) BadMagic obtain rx' m' news where
    o': "r = Some (False, rx', m', items @ [(rb, fst f, fst (snd f))] @ map item_of news)" "view m' = view m1"
    "rx_mem_ok m' p off' rx' ((live @ [(rb, snd (snd f))]) @ map live_of news) others"
    "length (receiving_header rx') = header_size"
    by (auto simp: split_outcome_def)
  then show ?thesis
    using BadMagic assms(2) unfolding split_outcome_def add_frame_def
    by (intro impI exI [of _ False] exI [of _ rx'] exI [of _ m'] exI [of _ "(rb, f) # news"]) simp
next
  case NegSize
  then show ?thesis by (simp add: split_outcome_def add_frame_def)
qed

text \<open>The second half of an iteration together with the iterations after it.\<close>

lemma split_body_outcome:
  assumes ok: "rx_mem_ok m p off rx live others" and v: "view m p = Some (n, d)" and hd: "header_done m rx"
    and sz: "off + sz \<le> length d" "off + sz < 2 ^ 30"
    and room: "received_message_size rx \<le> message_size (read_header (receiving_header rx))"
      "sz = 0 \<longrightarrow> received_message_size rx = message_size (read_header (receiving_header rx))"
    and IH: "\<And>k rx1 m1 live1 items1. k \<le> sz \<Longrightarrow>
      received_message_size rx + int k = message_size (read_header (receiving_header rx)) \<Longrightarrow> view m1 = view m \<Longrightarrow>
      rx_mem_ok m1 p (off + k) rx1 live1 others \<Longrightarrow> rx_hdr_ok m1 rx1 \<Longrightarrow> rx_pending m1 rx1 = [] \<Longrightarrow>
      split_outcome m1 p (off + sz) live1 others items1 (deframe (take (sz - k) (drop (off + k) d)))
        (split_and_process_message p (int (off + k)) (int (sz - k)) rx1 m1 items1)"
  shows "split_outcome m p (off + sz) live others items (deframe (rx_pending m rx @ take sz (drop off d)))
     (case split_body p (int off) (int sz) rx m items of
        None \<Rightarrow> None
      | Some (Inl (rx2, m2)) \<Rightarrow> Some (True, rx2, m2, items)
      | Some (Inr (data2, sz2, rx2, m2, items2)) \<Rightarrow> split_and_process_message p data2 sz2 rx2 m2 items2)"
proof -
  let ?h = "read_header (receiving_header rx)" and ?b = "msg_bytes m (receiving_message rx)"
  have p: "rx_pending m rx = receiving_header rx @ ?b" using hd by (simp add: rx_pending_def header_done_def)
  show ?thesis
  proof (cases "received_message_size rx + int sz < message_size ?h")
    case True
    then have "0 < sz" using room(2) by (cases sz) auto
    from split_body_partial [OF ok v hd this sz True, of items] obtain rx' m' where
      r: "split_body p (int off) (int sz) rx m items = Some (Inl (rx', m'))" "view m' = view m"
      "rx_mem_ok m' p (off + sz) rx' live others" "rx_hdr_ok m' rx'"
      "rx_pending m' rx' = rx_pending m rx @ take sz (drop off d)"
      by blast
    have "length (receiving_header rx') = header_size" using r(4) by (simp add: rx_hdr_ok_def)
    with r pending_incomplete [OF r(4)] show ?thesis
      by (auto simp: split_outcome_def intro!: exI [of _ "[] :: (read_buffer \<times> frame) list"])
  next
    case False
    define k where "k = nat (message_size ?h - received_message_size rx)"
    have k: "k \<le> sz" "received_message_size rx + int k = message_size ?h"
      using False room(1) by (auto simp: k_def)
    from split_body_done [OF ok v hd sz k, of items] obtain rx' m' rb where
      r: "split_body p (int off) (int sz) rx m items =
        Some (Inr (int (off + k), int (sz - k), rx', m', items @ [(rb, meta_size ?h, data_size ?h)]))"
      "view m' = view m" "rx_mem_ok m' p (off + k) rx' (live @ [(rb, ?b @ take k (drop off d))]) others"
      "rx_hdr_ok m' rx'" "rx_pending m' rx' = []"
      by blast
    have "deframe (rx_pending m rx @ take sz (drop off d)) =
        deframe (receiving_header rx @ (?b @ take k (drop off d)) @ take (sz - k) (drop (off + k) d))"
    proof -
      have "take sz (drop off d) = take k (drop off d) @ take (sz - k) (drop (off + k) d)"
        using k(1) by (simp add: take_add [symmetric] add.commute flip: drop_drop)
      then show ?thesis by (simp add: p)
    qed
    also have "\<dots> = add_frame (meta_size ?h, data_size ?h, ?b @ take k (drop off d))
        (deframe (take (sz - k) (drop (off + k) d)))"
      by (rule deframe_step) (use hd k sz in \<open>auto simp: header_done_def\<close>)
    finally have d: "deframe (rx_pending m rx @ take sz (drop off d)) =
        add_frame (meta_size ?h, data_size ?h, ?b @ take k (drop off d)) (deframe (take (sz - k) (drop (off + k) d)))" .
    have "split_outcome m p (off + sz) live others items
        (add_frame (meta_size ?h, data_size ?h, ?b @ take k (drop off d)) (deframe (take (sz - k) (drop (off + k) d))))
        (split_and_process_message p (int (off + k)) (int (sz - k)) rx' m' (items @ [(rb, meta_size ?h, data_size ?h)]))"
      by (rule split_outcome_cons [OF _ r(2), where rb = rb]) (use IH [OF k r(2,3,4,5)] in simp)
    then show ?thesis unfolding d r(1) by simp
  qed
qed

text \<open>Collecting header bytes.\<close>

lemma identify_ok:
  assumes v: "view m p = Some (n, d)" and hdr: "rx_hdr_ok m rx" and ni: "\<not> receiving_header_identified rx"
    and sz: "off + sz \<le> length d"
  defines "j \<equiv> nat (received_header_size rx)"
  defines "c \<equiv> min sz (header_size - j)"
  shows "\<exists>rx1. identify_message_header p (int off) (int sz) rx m =
      Some (if j + c < header_size then 0
            else if \<not> CheckMagicString (read_header (receiving_header rx1)) then -1 else 1, int c, rx1) \<and>
    rx1 = rx\<lparr>receiving_header := receiving_header rx1, received_header_size := int (j + c)\<rparr> \<and>
    length (receiving_header rx1) = header_size \<and>
    take (j + c) (receiving_header rx1) = rx_pending m rx @ take c (drop off d)"
proof -
  have j: "received_header_size rx = int j" "j < header_size" "length (receiving_header rx) = header_size"
    "msg_bytes m (receiving_message rx) = []"
    using hdr ni by (auto simp: rx_hdr_ok_def j_def)
  have c: "min (int sz) (int header_size - received_header_size rx) = int c" "j + c \<le> header_size"
    using j by (auto simp: c_def)
  let ?bs = "take c (drop off d)"
  have lbs: "length ?bs = c" using sz by (simp add: c_def)
  have rd: "read_mem m p (int off) (int c) = Some ?bs"
    using sz by (simp add: read_mem_view v c_def)
  define rx1 where "rx1 = rx\<lparr>receiving_header := overwrite j ?bs (receiving_header rx), received_header_size := int (j + c)\<rparr>"
  have "length (receiving_header rx1) = header_size"
    using j c(2) lbs by (simp add: rx1_def length_overwrite)
  moreover have "take (j + c) (receiving_header rx1) = rx_pending m rx @ ?bs"
    using j c(2) lbs by (simp add: rx1_def overwrite_def rx_pending_def)
  moreover have "identify_message_header p (int off) (int sz) rx m =
      Some (if j + c < header_size then 0
            else if \<not> CheckMagicString (read_header (receiving_header rx1)) then -1 else 1, int c, rx1)"
    using j(1) c rd by (simp add: identify_message_header_def Let_def rx1_def)
  ultimately show ?thesis
    by (intro exI [of _ rx1]) (simp add: rx1_def)
qed

lemma rx_mem_ok_header:
  assumes "rx_mem_ok m p off rx live others" and "tran_buf rx' = tran_buf rx" and "receiving_message rx' = receiving_message rx"
  shows "rx_mem_ok m p off rx' live others"
  using assms by (simp add: rx_mem_ok_def owners_of_def)

lemma split_outcome_now:
  assumes "dfr = (if b then Parsed [] (rx_pending m rx') else BadMagic)" and "b \<longrightarrow> rx_hdr_ok m rx'"
    and "rx_mem_ok m p off' rx' live others" and "length (receiving_header rx') = header_size"
  shows "split_outcome m p off' live others items dfr (Some (b, rx', m, items))"
  unfolding split_outcome_def
  by (intro impI exI [of _ b] exI [of _ rx'] exI [of _ m] exI [of _ "[]"]) (use assms in auto)

lemma split_ok:
  assumes "rx_mem_ok m p off rx live others" and "view m p = Some (n, d)" and "rx_hdr_ok m rx"
    and "off + sz \<le> length d" and "off + sz < 2 ^ 30"
  shows "split_outcome m p (off + sz) live others items (deframe (rx_pending m rx @ take sz (drop off d)))
     (split_and_process_message p (int off) (int sz) rx m items)"
  using assms
proof (induction sz arbitrary: off rx m live items rule: less_induct)
  case (less sz)
  note ok = less.prems(1) and v = less.prems(2) and hdr = less.prems(3) and sz = less.prems(4,5)
  have lh: "length (receiving_header rx) = header_size" using hdr by (simp add: rx_hdr_ok_def)
  have IH: "split_outcome m1 p (off + sz) live1 others items1 (deframe (take (sz - k) (drop (off + k) d)))
        (split_and_process_message p (int (off + k)) (int (sz - k)) rx1 m1 items1)"
    if "0 < k" "k \<le> sz" "view m1 = view m" "rx_mem_ok m1 p (off + k) rx1 live1 others" "rx_hdr_ok m1 rx1"
      "rx_pending m1 rx1 = []" for k rx1 m1 live1 items1
    using less.IH [of "sz - k" m1 "off + k" rx1 live1 items1] that v sz by simp
  show ?case
  proof (cases "sz = 0")
    case True
    then show ?thesis
      using ok hdr lh by (subst split_and_process_message.simps)
        (auto intro!: split_outcome_now simp: pending_incomplete)
  next
    case pos: False
    show ?thesis
    proof (cases "receiving_header_identified rx")
      case True
      have hd: "header_done m rx" using hdr True by (auto simp: rx_hdr_ok_def header_done_def)
      have lt: "received_message_size rx < message_size (read_header (receiving_header rx))"
        using hdr True by (simp add: rx_hdr_ok_def)
      have "split_and_process_message p (int off) (int sz) rx m items =
          (case split_body p (int off) (int sz) rx m items of
             None \<Rightarrow> None
           | Some (Inl (rx2, m2)) \<Rightarrow> Some (True, rx2, m2, items)
           | Some (Inr (data2, sz2, rx2, m2, items2)) \<Rightarrow> split_and_process_message p data2 sz2 rx2 m2 items2)"
        using pos True by (subst split_and_process_message.simps) (simp add: split_header_def)
      also have "split_outcome m p (off + sz) live others items (deframe (rx_pending m rx @ take sz (drop off d))) \<dots>"
      proof (rule split_body_outcome [OF ok v hd sz])
        show "split_outcome m1 p (off + sz) live1 others items1 (deframe (take (sz - k) (drop (off + k) d)))
            (split_and_process_message p (int (off + k)) (int (sz - k)) rx1 m1 items1)"
          if "k \<le> sz" "received_message_size rx + int k = message_size (read_header (receiving_header rx))"
            "view m1 = view m" "rx_mem_ok m1 p (off + k) rx1 live1 others" "rx_hdr_ok m1 rx1" "rx_pending m1 rx1 = []"
          for k rx1 m1 live1 items1
        proof -
          have "0 < k" using lt that(2) by linarith
          then show ?thesis using that by (intro IH)
        qed
      qed (use lt pos in auto)
      finally show ?thesis .
    next
      case ni: False
      define j where "j = nat (received_header_size rx)"
      define c where "c = min sz (header_size - j)"
      have j: "j < header_size" "msg_bytes m (receiving_message rx) = []" "length (rx_pending m rx) = j"
        using hdr ni lh by (auto simp: rx_hdr_ok_def j_def rx_pending_def)
      obtain rx1 where i: "identify_message_header p (int off) (int sz) rx m =
          Some (if j + c < header_size then 0
            else if \<not> CheckMagicString (read_header (receiving_header rx1)) then -1 else 1, int c, rx1)"
        "rx1 = rx\<lparr>receiving_header := receiving_header rx1, received_header_size := int (j + c)\<rparr>"
        "length (receiving_header rx1) = header_size"
        "take (j + c) (receiving_header rx1) = rx_pending m rx @ take c (drop off d)"
        using identify_ok [OF v hdr ni sz(1)] unfolding j_def c_def by blast
      have c: "0 < c" "c \<le> sz" "j + c \<le> header_size" using pos j(1) by (auto simp: c_def)
      have same: "tran_buf rx1 = tran_buf rx" "receiving_message rx1 = receiving_message rx"
        "received_header_size rx1 = int (j + c)" "received_message_size rx1 = received_message_size rx"
        "receiving_header_identified rx1 = False"
        using arg_cong [OF i(2), of tran_buf] arg_cong [OF i(2), of receiving_message]
          arg_cong [OF i(2), of received_header_size] arg_cong [OF i(2), of received_message_size]
          arg_cong [OF i(2), of receiving_header_identified] ni
        by simp_all
      have ok1: "rx_mem_ok m p (off + c') rx1 live others" if "off + c' < 2 ^ 30" for c'
        by (rule rx_mem_ok_header [OF rx_mem_ok_mono [OF ok]]) (use same that in auto)
      show ?thesis
      proof (cases "j + c < header_size")
        case True
        then have cs: "c = sz" by (auto simp: c_def)
        have p1: "rx_pending m rx1 = rx_pending m rx @ take sz (drop off d)"
        proof -
          have "rx_pending m rx1 = take (j + c) (receiving_header rx1)"
            unfolding rx_pending_def same j(2) by (simp add: nat_int_add)
          then show ?thesis using i(4) cs by simp
        qed
        have h1: "rx_hdr_ok m rx1" using hdr ni True same i(3) j(2) by (auto simp: rx_hdr_ok_def)
        have "split_and_process_message p (int off) (int sz) rx m items = Some (True, rx1, m, items)"
          using pos ni i(1) True by (subst split_and_process_message.simps) (simp add: split_header_def)
        then show ?thesis
          using split_outcome_now [of _ True m rx1 p "off + sz" live others items] pending_incomplete [OF h1] p1 h1
            ok1 [of sz] sz(2) i(3) by simp
      next
        case False
        then have jc: "j + c = header_size" using c(3) by simp
        let ?hdr = "receiving_header rx1" and ?h = "read_header (receiving_header rx1)"
        have hp: "rx_pending m rx @ take c (drop off d) = ?hdr" using i(3,4) jc by simp
        have "take sz (drop off d) = take c (drop off d) @ take (sz - c) (drop (off + c) d)"
          using c(2) by (simp add: take_add [symmetric] add.commute flip: drop_drop)
        then have stream: "rx_pending m rx @ take sz (drop off d) = ?hdr @ take (sz - c) (drop (off + c) d)"
          using hp by (metis append.assoc)
        have rh: "read_header (?hdr @ xs) = ?h" for xs using i(3) by (simp add: read_header_append)
        define rx2 where "rx2 = rx1\<lparr>receiving_header_identified := True\<rparr>"
        have mb2: "msg_bytes m (receiving_message rx2) = []" "received_message_size rx2 = 0"
          using hdr same j(2) by (simp_all add: rx2_def rx_hdr_ok_def)
        have p2: "rx_pending m rx2 = ?hdr" using mb2 same(3) jc i(3) by (simp add: rx_pending_def rx2_def)
        consider (bad) "\<not> CheckMagicString ?h" | (neg) "CheckMagicString ?h" "message_size ?h < 0"
          | (stop) "CheckMagicString ?h" "c = sz" "0 < message_size ?h"
          | (go) "CheckMagicString ?h" "0 \<le> message_size ?h" "\<not> (c = sz \<and> 0 < message_size ?h)"
          by linarith
        then show ?thesis
        proof cases
          case bad
          then have "split_and_process_message p (int off) (int sz) rx m items = Some (False, rx1, m, items)"
            using pos ni i(1) jc by (subst split_and_process_message.simps) (simp add: split_header_def)
          moreover have "deframe (rx_pending m rx @ take sz (drop off d)) = BadMagic"
            unfolding stream using bad i(3) by (subst deframe.simps) (simp add: rh Let_def)
          ultimately show ?thesis
            using split_outcome_now [of BadMagic False m rx1 p "off + sz" live others items] ok1 [of sz] sz(2) i(3) by simp
        next
          case neg
          then have "deframe (rx_pending m rx @ take sz (drop off d)) = NegSize"
            unfolding stream using i(3) by (subst deframe.simps) (simp add: rh Let_def)
          then show ?thesis by (simp add: split_outcome_def)
        next
          case stop
          then have "split_and_process_message p (int off) (int sz) rx m items = Some (True, rx2, m, items)"
            using pos ni i(1) jc by (subst split_and_process_message.simps) (simp add: split_header_def rx2_def Let_def)
          moreover have h2: "rx_hdr_ok m rx2"
            using stop mb2 same i(3) jc by (simp add: rx_hdr_ok_def rx2_def)
          moreover have "rx_mem_ok m p (off + sz) rx2 live others"
            using ok1 [of sz] sz(2) by (rule_tac rx_mem_ok_header) (auto simp: rx2_def)
          ultimately show ?thesis
            using split_outcome_now [of _ True m rx2 p "off + sz" live others items] pending_incomplete [OF h2] p2
              stream stop(2) i(3) by (simp add: rx2_def)
        next
          case go
          have hd: "header_done m rx2"
            using go(1) mb2 same i(3) jc by (simp add: header_done_def rx2_def)
          have ok2: "rx_mem_ok m p (off + c) rx2 live others"
            using ok1 [of c] sz(2) c(2) by (rule_tac rx_mem_ok_header) (auto simp: rx2_def)
          have sz2: "off + c + (sz - c) \<le> length d" "off + c + (sz - c) < 2 ^ 30" using sz c(2) by auto
          have "split_and_process_message p (int off) (int sz) rx m items =
            (case split_body p (int (off + c)) (int (sz - c)) rx2 m items of
               None \<Rightarrow> None
             | Some (Inl (rx2, m2)) \<Rightarrow> Some (True, rx2, m2, items)
             | Some (Inr (data2, sz2, rx2, m2, items2)) \<Rightarrow> split_and_process_message p data2 sz2 rx2 m2 items2)"
            using pos ni i(1) jc go c(2)
            by (subst split_and_process_message.simps) (auto simp: split_header_def rx2_def Let_def of_nat_diff)
          also have "split_outcome m p (off + c + (sz - c)) live others items
              (deframe (rx_pending m rx2 @ take (sz - c) (drop (off + c) d))) \<dots>"
          proof (rule split_body_outcome [OF ok2 v hd sz2])
            show "split_outcome m1 p (off + c + (sz - c)) live1 others items1
                (deframe (take (sz - c - k) (drop (off + c + k) d)))
                (split_and_process_message p (int (off + c + k)) (int (sz - c - k)) rx1 m1 items1)"
              if "k \<le> sz - c" "view m1 = view m" "rx_mem_ok m1 p (off + c + k) rx1 live1 others" "rx_hdr_ok m1 rx1"
                "rx_pending m1 rx1 = []" for k rx1 m1 live1 items1
              using IH [of "c + k" m1 rx1 live1 items1] that c(1,2) by (simp add: add.assoc diff_diff_add)
          qed (use go mb2 c(2) in \<open>auto simp: rx2_def\<close>)
          finally show ?thesis using stream p2 c(2) by simp
        qed
      qed
    qed
  qed
qed

section \<open>Reads\<close>

lemma split_keeps_window:
  assumes "split_and_process_message p data sz rx m items = Some (b, rx', m', items')"
  shows "receiving_data rx' = receiving_data rx \<and> receiving_size rx' = receiving_size rx"
proof -
  have h: "receiving_data rx2 = receiving_data rx1 \<and> receiving_size rx2 = receiving_size rx1"
    if "split_header p data sz rx1 m = Some (Inl (b, rx2)) \<or> split_header p data sz rx1 m = Some (Inr (d2, s2, rx2))"
    for p data sz rx1 m b rx2 d2 s2
    using that by (auto simp: split_header_def identify_message_header_def Let_def split: if_splits option.splits)
  have bd: "receiving_data rx2 = receiving_data rx1 \<and> receiving_size rx2 = receiving_size rx1"
    if "split_body p data sz rx1 m items = Some (Inl (rx2, m2)) \<or>
        split_body p data sz rx1 m items = Some (Inr (d2, s2, rx2, m2, items2))"
    for p data sz rx1 m items rx2 m2 d2 s2 items2
    using that by (auto simp: split_body_def reset_receiving_env_def Let_def split: if_splits option.splits)
  have "\<forall>b rx' m' items'. r = (b, rx', m', items') \<longrightarrow>
      receiving_data rx' = receiving_data rx \<and> receiving_size rx' = receiving_size rx"
    if "split_and_process_message p data sz rx m items = Some r" for r
  proof (rule split_and_process_message.raw_induct [OF _ that], goal_cases)
    case (1 loop p data sz rx m items r)
    then show ?case
      by (auto split: if_splits option.splits sum.splits prod.splits) (metis h bd)+
  qed
  with assms show ?thesis by blast
qed

text \<open>Between two reads: the window of the transfer buffer that is still free is not empty.\<close>

definition rx_inv :: "mem \<Rightarrow> rx_state \<Rightarrow> live_msgs \<Rightarrow> nat multiset \<Rightarrow> bool" where
  "rx_inv m rx live others \<longleftrightarrow>
     (\<exists>p n d off. view m p = Some (n, d) \<and> receiving_data rx = int off \<and> 0 < receiving_size rx \<and>
        int off + receiving_size rx = int (length d) \<and> length d < 2 ^ 30 \<and>
        rx_mem_ok m p off rx live others \<and> rx_hdr_ok m rx)"

text \<open>Writing past everything a message refers to leaves the message as it was.\<close>

lemma write_beyond:
  assumes "rb_fresh m rb bs" and "below p (int off) rb" and "view m p = Some (n, d)" and "off \<le> length d"
    and "view m' p = Some (n, overwrite off xs d)" and "\<And>q. q \<noteq> p \<Longrightarrow> view m' q = view m q"
    and "off + length xs \<le> length d"
  shows "rb_fresh m' rb bs"
proof -
  have h: "rhandle_ok m' h \<and> rbytes m' h = rbytes m h" if "h \<in> set (rbufs rb)" for h
  proof (cases "hdata h = p")
    case True
    have ok: "0 < hsize h" "0 \<le> hpos h" "hpos h + hsize h \<le> int off"
      using assms(1,2,3) that True by (auto simp: rb_fresh_def rhandle_ok_def below_def)
    then have le: "nat (hpos h) + nat (hsize h) \<le> off" by linarith
    have "take (nat (hsize h)) (drop (nat (hpos h)) (overwrite off xs d)) = take (nat (hsize h)) (drop (nat (hpos h)) d)"
      using le assms(4) by (simp add: take_drop overwrite_def add.commute)
    then show ?thesis
      using True assms(3-5,7) ok by (simp add: rhandle_ok_def rbytes_def length_overwrite)
  next
    case False
    then show ?thesis
      using assms(1) assms(6) [of "hdata h"] that
      by (auto simp: rb_fresh_def rhandle_ok_cong [of m' _ m] rbytes_cong [of m' _ m])
  qed
  then have "map (rbytes m') (rbufs rb) = map (rbytes m) (rbufs rb)" by simp
  then have "concat (map (rbytes m') (rbufs rb)) = bs" using assms(1) by (simp only: rb_fresh_def)
  with h assms(1) show ?thesis by (simp add: rb_fresh_def)
qed

lemma rx_write_ok:
  assumes ok: "rx_mem_ok m p off rx live others" and v: "view m p = Some (n, d)" and hdr: "rx_hdr_ok m rx"
    and len: "off + length xs \<le> length d"
  shows "\<exists>m'. write_mem m p (int off) xs = Some m' \<and> view m' p = Some (n, overwrite off xs d) \<and>
     rx_mem_ok m' p off rx live others \<and> rx_hdr_ok m' rx \<and> rx_pending m' rx = rx_pending m rx \<and> wb_frame m others m'"
proof -
  note okd = ok [unfolded rx_mem_ok_def]
  let ?o = "owners_of p rx live others"
  have hp: "heap_ok m ?o" and np: "p \<notin># others" using okd by blast+
  have po: "p \<in># ?o" by (simp add: owners_of_def)
  obtain m' where m': "write_mem m p (int off) xs = Some m'" "heap_ok m' ?o" "view m' p = Some (n, overwrite off xs d)"
    "\<And>q. q \<noteq> p \<Longrightarrow> view m' q = view m q"
    using write_mem_ok [OF hp po v len] by metis
  have keep: "rb_fresh m' rb bs" if "rb_fresh m rb bs" "below p (int off) rb" for rb bs
    by (rule write_beyond [OF that v _ m'(3,4) len]) (use len in simp)
  have rm: "rb_fresh m (receiving_message rx) (msg_bytes m (receiving_message rx))" "below p (int off) (receiving_message rx)"
    using okd by blast+
  have mb: "msg_bytes m' (receiving_message rx) = msg_bytes m (receiving_message rx)"
    by (rule rb_fresh_msg_bytes [OF keep [OF rm]])
  have "\<forall>(rb, bs) \<in> set live. rb_fresh m' rb bs \<and> below p (int off) rb"
    using okd keep by fast
  with okd m'(2) keep [OF rm] mb have "rx_mem_ok m' p off rx live others" by (simp add: rx_mem_ok_def)
  moreover have "rx_hdr_ok m' rx" "rx_pending m' rx = rx_pending m rx"
    using hdr mb by (auto simp: rx_hdr_ok_def rx_pending_def)
  moreover have "wb_frame m others m'" using m'(4) np unfolding wb_frame_def by metis
  ultimately show ?thesis using m'(1,3) by blast
qed

lemma below_other: "p \<notin># handles_of rb \<Longrightarrow> below p off rb"
  by (auto simp: below_def)

lemma live_handles_mem: "(rb, bs) \<in> set live \<Longrightarrow> q \<in># handles_of rb \<Longrightarrow> q \<in># live_handles live"
proof (induction live)
  case (Cons x live)
  have e: "live_handles (x # live) = handles_of (fst x) + live_handles live"
    by (simp add: live_handles_def split_beta)
  show ?case
  proof (cases "x = (rb, bs)")
    case True
    with Cons.prems show ?thesis unfolding e by simp
  next
    case False
    with Cons show ?thesis unfolding e by simp
  qed
qed simp

lemma reset_tran_buf_ok:
  assumes ok: "rx_mem_ok m p off rx live others" and hdr: "rx_hdr_ok m rx" and f: "f \<le> 9"
  shows "\<exists>b rx' m'. reset_tran_buf f rx m = Some (b, rx', m') \<and> wb_frame m others m' \<and>
     (b \<longrightarrow> rx_inv m' rx' live others \<and> rx_pending m' rx' = rx_pending m rx) \<and>
     heap_ok m' ((if b then {#the (tran_buf rx')#} else {#}) + handles_of (receiving_message rx) + live_handles live + others) \<and>
     (\<forall>q \<in># handles_of (receiving_message rx) + live_handles live + others. view m' q = view m q)"
proof -
  note okd = ok [unfolded rx_mem_ok_def]
  let ?r = "handles_of (receiving_message rx) + live_handles live + others"
  have o: "owners_of p rx live others = add_mset p ?r" by (simp add: owners_of_def)
  have "heap_ok m (add_mset p ?r)" using okd o by metis
  then obtain m1 where m1: "tb_free p m = Some m1" "heap_ok m1 ?r" "\<And>q. q \<in># ?r \<Longrightarrow> view m1 q = view m q"
    using free_ok [of m "add_mset p ?r" p] by auto
  have tb: "tran_buf rx = Some p" using okd by blast
  obtain r m2 where r: "tb_malloc f m1 = (r, m2)" by (cases "tb_malloc f m1")
  show ?thesis
  proof (cases r)
    case None
    then have "m2 = m1" using r malloc_None by blast
    with None r m1 tb show ?thesis
      by (auto simp: reset_tran_buf_def wb_frame_def)
  next
    case (Some q)
    note al = malloc_ok [OF m1(2) r [unfolded Some]]
    obtain d where d: "view m2 q = Some (64 * 2 ^ f, d)" "int (length d) = 64 * 2 ^ f - 8" using al(3) by auto
    have "(2 :: int) ^ f \<ge> 1" "(2 :: int) ^ f \<le> 512" using f power_increasing [of f 9 "2 :: int"] by auto
    then have "0 < int (length d)" "int (length d) < 1073741824" unfolding d(2) by linarith+
    then have ld: "0 < length d" "length d < 2 ^ 30" by simp_all
    have nq: "q \<notin># handles_of (receiving_message rx)" "q \<notin># live_handles live" "q \<notin># others" using al(2) by auto
    have vw: "view m2 x = view m x" if "x \<in># ?r" for x
      using al(2,4) m1(3) that by metis
    define rx' where "rx' = rx\<lparr>tran_buf := Some q, receiving_data := 0, receiving_size := int (length d)\<rparr>"
    have res: "reset_tran_buf f rx m = Some (True, rx', m2)"
      using tb m1(1) r Some d by (simp add: reset_tran_buf_def tb_capacity_view rx'_def)
    have rm: "rb_fresh m (receiving_message rx) (msg_bytes m (receiving_message rx))" using okd by blast
    have rm2: "rb_fresh m2 (receiving_message rx) (msg_bytes m (receiving_message rx))"
      by (rule rb_fresh_cong [OF rm]) (auto intro!: vw)
    have mb: "msg_bytes m2 (receiving_message rx) = msg_bytes m (receiving_message rx)"
      by (rule rb_fresh_msg_bytes [OF rm2])
    have lv: "rb_fresh m2 rb bs \<and> below q 0 rb" if "(rb, bs) \<in> set live" for rb bs
    proof
      have "rb_fresh m rb bs" using okd that by blast
      then show "rb_fresh m2 rb bs"
        by (rule rb_fresh_cong) (use live_handles_mem [OF that] in \<open>auto intro!: vw\<close>)
      show "below q 0 rb" using nq(2) live_handles_mem [OF that] by (intro below_other) blast
    qed
    have o2: "owners_of q rx' live others = add_mset q ?r" by (simp add: owners_of_def rx'_def)
    have "count ?r q = 0" using al(2) by (simp add: count_eq_zero_iff)
    then have "rx_mem_ok m2 q 0 rx' live others"
      unfolding rx_mem_ok_def o2 using al(1) nq rm2 mb lv by (auto simp: rx'_def below_other)
    moreover have "rx_hdr_ok m2 rx'" "rx_pending m2 rx' = rx_pending m rx"
      using hdr mb by (auto simp: rx_hdr_ok_def rx_pending_def rx'_def)
    ultimately have "rx_inv m2 rx' live others \<and> rx_pending m2 rx' = rx_pending m rx"
      using d(1) ld unfolding rx_inv_def
      by (intro conjI, rule_tac exI [of _ q], rule_tac exI [of _ "64 * 2 ^ f"], rule_tac exI [of _ d], rule_tac exI [of _ 0])
        (simp_all add: rx'_def)
    moreover have "wb_frame m others m2" using vw by (simp add: wb_frame_def)
    ultimately show ?thesis using res al(1) vw by (auto simp: rx'_def)
  qed
qed

lemma destroy_items_ok:
  assumes "heap_ok m (live_handles (map live_of news) + others)"
  shows "\<exists>m'. destroy_items (map item_of news) m = Some m' \<and> heap_ok m' others \<and> wb_frame m others m'"
  using assms
proof (induction news arbitrary: m)
  case Nil
  then show ?case by (simp add: live_handles_def)
next
  case (Cons x news)
  have "heap_ok m (handles_of (fst x) + (live_handles (map live_of news) + others))"
    using Cons.prems by (simp add: live_handles_def add.assoc)
  then obtain m1 where m1: "rb_destroy (fst x) m = Some m1" "heap_ok m1 (live_handles (map live_of news) + others)"
    "wb_frame m (live_handles (map live_of news) + others) m1"
    using rb_destroy_ok by blast
  from Cons.IH [OF m1(2)] obtain m2 where m2: "destroy_items (map item_of news) m1 = Some m2" "heap_ok m2 others"
    "wb_frame m1 others m2" by blast
  moreover have "wb_frame m others m1" using m1(3) by (simp add: wb_frame_def)
  ultimately show ?case using m1(1) wb_frame_trans by simp
qed

lemma live_handles_append: "live_handles (xs @ ys) = live_handles xs + live_handles ys"
  by (simp add: live_handles_def)

lemma receive_bytes_ok:
  assumes inv: "rx_inv m rx live others" and xs: "xs \<noteq> []" "int (length xs) \<le> receiving_size rx" and f: "f \<le> 9"
    and dfr: "deframe (rx_pending m rx @ xs) \<noteq> NegSize"
  shows "\<exists>r rx' m'. receive_bytes f xs rx m = Some (r, rx', m') \<and>
     (case deframe (rx_pending m rx @ xs) of
        Parsed fs rest \<Rightarrow>
          (case r of
             Inl reason \<Rightarrow> reason = ''out of memory''
           | Inr items \<Rightarrow> \<exists>news. items = map item_of news \<and> map snd news = fs \<and>
               rx_inv m' rx' (live @ map live_of news) others \<and> rx_pending m' rx' = rest \<and> wb_frame m others m')
      | _ \<Rightarrow> r = Inl ''broken stream'')"
proof -
  obtain p n d off where i: "view m p = Some (n, d)" "receiving_data rx = int off" "0 < receiving_size rx"
    "int off + receiving_size rx = int (length d)" "length d < 2 ^ 30" "rx_mem_ok m p off rx live others" "rx_hdr_ok m rx"
    using inv by (auto simp: rx_inv_def)
  let ?l = "length xs"
  have len: "off + ?l \<le> length d" "off + ?l < 2 ^ 30" using xs(2) i(4,5) by linarith+
  obtain m1 where w: "write_mem m p (int off) xs = Some m1" "view m1 p = Some (n, overwrite off xs d)"
    "rx_mem_ok m1 p off rx live others" "rx_hdr_ok m1 rx" "rx_pending m1 rx = rx_pending m rx" "wb_frame m others m1"
    using rx_write_ok [OF i(6,1,7) len(1)] by blast
  have tb: "tran_buf rx = Some p" using i(6) by (simp add: rx_mem_ok_def)
  have ch: "take ?l (drop off (overwrite off xs d)) = xs" using len(1) by (simp add: overwrite_def)
  have "off + ?l \<le> length (overwrite off xs d)" using len(1) by (simp add: length_overwrite)
  from split_ok [OF w(3,2,4) this len(2), of "[]"]
  have out: "split_outcome m1 p (off + ?l) live others [] (deframe (rx_pending m rx @ xs))
      (split_and_process_message p (int off) (int ?l) rx m1 [])"
    unfolding ch w(5) .
  then obtain b rx1 m2 news where
    s: "split_and_process_message p (int off) (int ?l) rx m1 [] = Some (b, rx1, m2, map item_of news)" "view m2 = view m1"
    "rx_mem_ok m2 p (off + ?l) rx1 (live @ map live_of news) others"
    and c: "case deframe (rx_pending m rx @ xs) of
       Parsed fs rest \<Rightarrow> b \<and> map snd news = fs \<and> rx_hdr_ok m2 rx1 \<and> rx_pending m2 rx1 = rest | _ \<Rightarrow> \<not> b"
    using dfr by (auto simp: split_outcome_def)
  have win: "receiving_data rx1 = int off" "receiving_size rx1 = receiving_size rx"
    using split_keeps_window [OF s(1)] i(2) by auto
  have fr2: "wb_frame m others m2" using w(6) s(2) by (simp add: wb_frame_def)
  show ?thesis
  proof (cases "deframe (rx_pending m rx @ xs)")
    case (Parsed fs rest)
    with c have c': "b" "map snd news = fs" "rx_hdr_ok m2 rx1" "rx_pending m2 rx1 = rest" by auto
    define rx2 where "rx2 = rx1\<lparr>receiving_data := int off + int ?l, receiving_size := receiving_size rx - int ?l\<rparr>"
    have m2: "rx_mem_ok m2 p (off + ?l) rx2 (live @ map live_of news) others"
      by (rule rx_mem_ok_header [OF s(3)]) (simp_all add: rx2_def)
    have h2: "rx_hdr_ok m2 rx2" "rx_pending m2 rx2 = rest" using c'(3,4) by (auto simp: rx2_def rx_hdr_ok_def rx_pending_def)
    have rb: "receive_bytes f xs rx m =
        (if receiving_size rx2 = 0
         then (case reset_tran_buf f rx2 m2 of
                 None \<Rightarrow> None
               | Some (False, rx3, m3) \<Rightarrow> map_option (\<lambda>m4. (Inl ''out of memory'', rx3, m4)) (destroy_items (map item_of news) m3)
               | Some (True, rx3, m3) \<Rightarrow> Some (Inr (map item_of news), rx3, m3))
         else Some (Inr (map item_of news), rx2, m2))"
      using tb i(2) w(1) s(1) c'(1) win by (simp add: receive_bytes_def Let_def rx2_def)
    show ?thesis
    proof (cases "receiving_size rx2 = 0")
      case False
      then have "receiving_size rx2 > 0" "int (off + ?l) + receiving_size rx2 = int (length (overwrite off xs d))"
        using xs(2) i(4) len(1) by (auto simp: rx2_def length_overwrite)
      then have "rx_inv m2 rx2 (live @ map live_of news) others"
        unfolding rx_inv_def
        using m2 h2 w(2) s(2) i(5) len(1)
        by (intro exI [of _ p] exI [of _ n] exI [of _ "overwrite off xs d"] exI [of _ "off + ?l"])
          (simp add: rx2_def length_overwrite)
      with rb False Parsed c' h2 fr2 show ?thesis by auto
    next
      case True
      obtain ok rx3 m3 where r: "reset_tran_buf f rx2 m2 = Some (ok, rx3, m3)" "wb_frame m2 others m3"
        "ok \<longrightarrow> rx_inv m3 rx3 (live @ map live_of news) others \<and> rx_pending m3 rx3 = rx_pending m2 rx2"
        "heap_ok m3 ((if ok then {#the (tran_buf rx3)#} else {#}) + handles_of (receiving_message rx2) +
           live_handles (live @ map live_of news) + others)"
        using reset_tran_buf_ok [OF m2 h2(1) f] by blast
      show ?thesis
      proof (cases ok)
        case ok: True
        with rb True r c' h2 Parsed wb_frame_trans [OF fr2 r(2)] show ?thesis by auto
      next
        case nok: False
        then have "heap_ok m3 (live_handles (map live_of news) + (handles_of (receiving_message rx2) + live_handles live + others))"
          using r(4) by (simp add: live_handles_append ac_simps)
        from destroy_items_ok [OF this] obtain m4 where "destroy_items (map item_of news) m3 = Some m4" by blast
        with rb True r nok Parsed show ?thesis by auto
      qed
    qed
  next
    case BadMagic
    with c have nb: "\<not> b" by simp
    have "heap_ok m2 (owners_of p rx1 (live @ map live_of news) others)" using s(3) by (simp add: rx_mem_ok_def)
    then have "heap_ok m2 (live_handles (map live_of news) + (add_mset p (handles_of (receiving_message rx1)) + live_handles live + others))"
      by (simp add: owners_of_def live_handles_append ac_simps)
    from destroy_items_ok [OF this] obtain m3 where "destroy_items (map item_of news) m2 = Some m3" by blast
    then have "receive_bytes f xs rx m = Some (Inl ''broken stream'', rx1, m3)"
      using tb i(2) w(1) s(1) nb by (simp add: receive_bytes_def)
    with BadMagic show ?thesis by simp
  next
    case NegSize
    with dfr show ?thesis by simp
  qed
qed

section \<open>Streams\<close>

lemma receive_stream_ok:
  assumes "rx_inv m rx live others" and "f \<le> 9" and "deframe (rx_pending m rx @ bytes) = Parsed fs rest"
  shows "\<exists>r left rx' m'. receive_stream f sizes bytes rx m = Some (r, left, rx', m') \<and>
     (case r of
        Inl reason \<Rightarrow> reason = ''out of memory''
      | Inr items \<Rightarrow> \<exists>news gs. items = map item_of news \<and> fs = map snd news @ gs \<and>
          rx_inv m' rx' (live @ map live_of news) others \<and>
          deframe (rx_pending m' rx' @ left) = Parsed gs rest \<and> wb_frame m others m')"
  using assms
proof (induction sizes arbitrary: bytes rx m live fs)
  case Nil
  then show ?case by (auto intro!: exI [of _ "[] :: (read_buffer \<times> frame) list"])
next
  case (Cons n ns)
  show ?case
  proof (cases "bytes = []")
    case True
    with Cons.prems show ?thesis by (auto intro!: exI [of _ "[] :: (read_buffer \<times> frame) list"])
  next
    case False
    define k where "k = min (max (Suc 0) n) (nat (receiving_size rx))"
    have pos: "0 < receiving_size rx" using Cons.prems(1) by (auto simp: rx_inv_def)
    then have k: "take k bytes \<noteq> []" "int (length (take k bytes)) \<le> receiving_size rx"
      using False by (auto simp: k_def)
    have split: "rx_pending m rx @ bytes = (rx_pending m rx @ take k bytes) @ drop k bytes" by simp
    obtain gs r where g: "deframe (rx_pending m rx @ take k bytes) = Parsed gs r"
      using deframe_prefix [of "rx_pending m rx @ take k bytes" "drop k bytes" fs rest] Cons.prems(3) by auto
    from deframe_append [OF g, of "drop k bytes"] Cons.prems(3)
    obtain hs where hs: "deframe (r @ drop k bytes) = Parsed hs rest" "fs = gs @ hs"
      by (auto split: deframed.splits)
    from receive_bytes_ok [OF Cons.prems(1) k Cons.prems(2)] g obtain res rx1 m1 where
      rb: "receive_bytes f (take k bytes) rx m = Some (res, rx1, m1)"
      "case res of Inl reason \<Rightarrow> reason = ''out of memory''
           | Inr items \<Rightarrow> \<exists>news. items = map item_of news \<and> map snd news = gs \<and>
               rx_inv m1 rx1 (live @ map live_of news) others \<and> rx_pending m1 rx1 = r \<and> wb_frame m others m1"
      by auto
    show ?thesis
    proof (cases res)
      case (Inl reason)
      with rb False show ?thesis by (auto simp: Let_def k_def [symmetric])
    next
      case (Inr items)
      with rb(2) obtain news where nw: "items = map item_of news" "map snd news = gs"
        "rx_inv m1 rx1 (live @ map live_of news) others" "rx_pending m1 rx1 = r" "wb_frame m others m1"
        by auto
      from Cons.IH [OF nw(3) Cons.prems(2), of "drop k bytes" hs] nw(4) hs(1) obtain res2 left rx2 m2 where
        IH: "receive_stream f ns (drop k bytes) rx1 m1 = Some (res2, left, rx2, m2)"
        "case res2 of Inl reason \<Rightarrow> reason = ''out of memory''
          | Inr items \<Rightarrow> \<exists>news' gs'. items = map item_of news' \<and> hs = map snd news' @ gs' \<and>
              rx_inv m2 rx2 ((live @ map live_of news) @ map live_of news') others \<and>
              deframe (rx_pending m2 rx2 @ left) = Parsed gs' rest \<and> wb_frame m1 others m2"
        by auto
      show ?thesis
      proof (cases res2)
        case (Inl reason)
        with IH rb(1) Inr False show ?thesis by (auto simp: Let_def k_def [symmetric])
      next
        case in2: (Inr items2)
        with IH(2) obtain news' gs' where n2: "items2 = map item_of news'" "hs = map snd news' @ gs'"
          "rx_inv m2 rx2 ((live @ map live_of news) @ map live_of news') others"
          "deframe (rx_pending m2 rx2 @ left) = Parsed gs' rest" "wb_frame m1 others m2"
          by auto
        have "receive_stream f (n # ns) bytes rx m = Some (Inr (map item_of (news @ news')), left, rx2, m2)"
          using IH(1) rb(1) Inr in2 False nw(1) n2(1) by (simp add: Let_def k_def [symmetric])
        moreover have "fs = map snd (news @ news') @ gs'" using hs(2) nw(2) n2(2) by simp
        moreover have "rx_inv m2 rx2 (live @ map live_of (news @ news')) others" using n2(3) by simp
        ultimately show ?thesis using n2(4) wb_frame_trans [OF nw(5) n2(5)] by (auto simp del: map_append)
      qed
    qed
  qed
qed

lemma stream_delivers:
  assumes "rx_inv m rx [] others" and "rx_pending m rx = []" and "f \<le> 9" and "list_all frame_ok fs"
  shows "\<exists>r left rx' m'. receive_stream f sizes (concat (map enframe fs)) rx m = Some (r, left, rx', m') \<and>
     (case r of
        Inl reason \<Rightarrow> reason = ''out of memory''
      | Inr items \<Rightarrow>
          (\<exists>gs. fs = map (\<lambda>(rb, ms, ds). (ms, ds, the (rb_to_string m' rb))) items @ gs \<and> (left = [] \<longrightarrow> gs = [])) \<and>
          (\<forall>(rb, ms, ds) \<in> set items. rb_to_string m' rb \<noteq> None))"
proof -
  have d: "deframe (rx_pending m rx @ concat (map enframe fs)) = Parsed fs []"
    using deframe_enframe_all [OF assms(4)] assms(2) by simp
  from receive_stream_ok [OF assms(1,3) d, of sizes, unfolded append_Nil] obtain r left rx' m' where
    rs: "receive_stream f sizes (concat (map enframe fs)) rx m = Some (r, left, rx', m')"
    "case r of Inl reason \<Rightarrow> reason = ''out of memory''
      | Inr items \<Rightarrow> \<exists>news gs. items = map item_of news \<and> fs = map snd news @ gs \<and>
          rx_inv m' rx' (map live_of news) others \<and> deframe (rx_pending m' rx' @ left) = Parsed gs [] \<and> wb_frame m others m'"
    by auto
  show ?thesis
  proof (cases r)
    case (Inl reason)
    with rs show ?thesis by auto
  next
    case (Inr items)
    with rs(2) obtain news gs where nw: "items = map item_of news" "fs = map snd news @ gs"
      "rx_inv m' rx' (map live_of news) others" "deframe (rx_pending m' rx' @ left) = Parsed gs []" by auto
    have str: "rb_to_string m' rb = Some body" if "(rb, ms, ds, body) \<in> set news" for rb ms ds body
    proof -
      have "(rb, body) \<in> set (map live_of news)" using that by force
      then have "rb_fresh m' rb body" using nw(3) by (auto simp: rx_inv_def rx_mem_ok_def)
      then show ?thesis by (rule rb_fresh_to_string)
    qed
    have "map (\<lambda>(rb, ms, ds). (ms, ds, the (rb_to_string m' rb))) items = map snd news"
      unfolding nw(1) using str by (auto simp: split_beta)
    moreover have "\<forall>(rb, ms, ds) \<in> set items. rb_to_string m' rb \<noteq> None"
      unfolding nw(1) using str by auto
    moreover have "gs = []" if "left = []"
    proof -
      have "rx_hdr_ok m' rx'" using nw(3) by (auto simp: rx_inv_def)
      with nw(4) that pending_incomplete [of m' rx'] show ?thesis by simp
    qed
    ultimately show ?thesis using rs(1) Inr nw(2) by auto
  qed
qed

text \<open>
  C2. Whatever reads the transport chooses, receiving the concatenation of well-formed frames always
  returns and either runs out of memory or delivers the framed messages: in order, each exactly once, with
  the sizes of their headers, all of them once all bytes have arrived; and every delivered message still
  reads as the bytes that were framed after all the later reads into the shared transfer buffers.
\<close>

theorem stream_delivers_frames:
  assumes "rx_inv m rx [] others" and "rx_pending m rx = []" and "f \<le> 9" and "list_all frame_ok fs"
  shows "\<exists>r left rx' m'. receive_stream f sizes (concat (map enframe fs)) rx m = Some (r, left, rx', m') \<and>
     (case r of
        Inl reason \<Rightarrow> reason = ''out of memory''
      | Inr items \<Rightarrow>
          (\<exists>gs. fs = map (\<lambda>(rb, ms, ds). (ms, ds, the (rb_to_string m' rb))) items @ gs \<and> (left = [] \<longrightarrow> gs = [])) \<and>
          (\<forall>(rb, ms, ds) \<in> set items. rb_to_string m' rb \<noteq> None))"
  by (rule stream_delivers [OF assms])

section \<open>A new connection\<close>

lemma rbufs_ReadBuffer: "rbufs ReadBuffer = []"
  by (simp add: ReadBuffer_def)

lemma rx_start:
  assumes "heap_ok m others" and "f \<le> 9" and "reset_tran_buf f (reset_receiving_env rx_init) m = Some (True, rx, m')"
  shows "rx_inv m' rx [] others \<and> rx_pending m' rx = [] \<and> wb_frame m others m'"
proof -
  let ?rx = "reset_receiving_env rx_init"
  obtain q where r: "tb_malloc f m = (Some q, m')"
    using assms(3) by (auto simp: reset_tran_buf_def reset_receiving_env_def rx_init_def split: prod.splits option.splits)
  note al = malloc_ok [OF assms(1) r]
  obtain d where d: "view m' q = Some (64 * 2 ^ f, d)" "int (length d) = 64 * 2 ^ f - 8" using al(3) by auto
  have "(2 :: int) ^ f \<ge> 1" "(2 :: int) ^ f \<le> 512" using assms(2) power_increasing [of f 9 "2 :: int"] by auto
  then have "0 < int (length d)" "int (length d) < 1073741824" unfolding d(2) by linarith+
  then have ld: "0 < length d" "length d < 2 ^ 30" by simp_all
  have rx: "rx = ?rx\<lparr>tran_buf := Some q, receiving_data := 0, receiving_size := int (length d)\<rparr>"
    using assms(3) r d by (simp add: reset_tran_buf_def tb_capacity_view reset_receiving_env_def rx_init_def)
  have rm: "receiving_message rx = ReadBuffer" by (simp add: rx reset_receiving_env_def)
  have "rx_mem_ok m' q 0 rx [] others"
    unfolding rx_mem_ok_def owners_of_def rm
    using al(1,2) by (simp add: rx rb_fresh_new below_def rbufs_ReadBuffer live_handles_def count_eq_zero_iff)
  moreover have "rx_hdr_ok m' rx" "rx_pending m' rx = []"
    by (simp_all add: rx_hdr_ok_def rx_pending_def rx reset_receiving_env_def rx_init_def header_size_def)
  moreover have "wb_frame m others m'" using al(2,4) unfolding wb_frame_def by metis
  ultimately show ?thesis
    using d(1) ld unfolding rx_inv_def
    by (intro conjI, rule_tac exI [of _ q], rule_tac exI [of _ "64 * 2 ^ f"], rule_tac exI [of _ d], rule_tac exI [of _ 0])
      (simp_all add: rx)
qed

lemma heap_ok_mem0: "heap_ok mem0 {#}"
  by (simp add: heap_ok_def block_ok_def mem0_def)

definition rx0 :: rx_state where
  "rx0 = (case reset_tran_buf 9 (reset_receiving_env rx_init) mem0 of Some (_, rx, _) \<Rightarrow> rx)"

definition mem1 :: mem where
  "mem1 = (case reset_tran_buf 9 (reset_receiving_env rx_init) mem0 of Some (_, _, m) \<Rightarrow> m)"

lemma rx0_mem1: "reset_tran_buf 9 (reset_receiving_env rx_init) mem0 = Some (True, rx0, mem1)"
  by (simp add: rx0_def mem1_def reset_tran_buf_def reset_receiving_env_def rx_init_def tb_malloc_def mem0_def
      TRAN_BUF_BLOCK_BASE_SIZE_def tb_capacity_def)

lemma rx0_inv: "rx_inv mem1 rx0 [] {#}" "rx_pending mem1 rx0 = []"
  using rx_start [OF heap_ok_mem0 _ rx0_mem1] by auto

theorem stream_delivers_frames_witness:
  "\<exists>r left rx' m'. receive_stream 9 [1, 30, 7] (concat (map enframe [(2, 1, [7, 8, 9]), (0, 0, [])])) rx0 mem1 =
       Some (r, left, rx', m') \<and>
     (case r of
        Inl reason \<Rightarrow> reason = ''out of memory''
      | Inr items \<Rightarrow>
          (\<exists>gs. [(2, 1, [7, 8, 9]), (0, 0, [])] = map (\<lambda>(rb, ms, ds). (ms, ds, the (rb_to_string m' rb))) items @ gs \<and>
             (left = [] \<longrightarrow> gs = [])) \<and>
          (\<forall>(rb, ms, ds) \<in> set items. rb_to_string m' rb \<noteq> None))"
  by (rule stream_delivers_frames [OF rx0_inv]) (simp_all add: frame_ok_def)

section \<open>Bad headers\<close>

text \<open>
  A header whose magic number is wrong closes the stream as broken, at whatever point of the stream it
  arrives and however it is split over reads.
\<close>

theorem bad_magic_closes:
  assumes "rx_inv m rx live others" and "xs \<noteq> []" and "int (length xs) \<le> receiving_size rx" and "f \<le> 9"
    and "deframe (rx_pending m rx @ xs) = BadMagic"
  shows "\<exists>rx' m'. receive_bytes f xs rx m = Some (Inl ''broken stream'', rx', m')"
  using receive_bytes_ok [OF assms(1-4)] assms(5) by auto

lemma be_val_zeros: "be_val (replicate n 0) = 0"
  by (induction n) simp_all

theorem bad_magic_closes_witness:
  "\<exists>rx' m'. receive_bytes 9 (enframe (1, 0, [5]) @ replicate 24 0) rx0 mem1 = Some (Inl ''broken stream'', rx', m')"
proof (rule bad_magic_closes [OF rx0_inv(1)])
  have "deframe (replicate 24 0 :: byte list) = BadMagic"
    by (subst deframe.simps)
      (simp add: header_size_def CheckMagicString_def read_header_def MESSAGE_HEAD_MAGIC_def le_word_eq Let_def
        be_val_zeros)
  then show "deframe (rx_pending mem1 rx0 @ enframe (1, 0, [5]) @ replicate 24 0) = BadMagic"
    using deframe_enframe [of "(1, 0, [5])" "replicate 24 0"] rx0_inv(2) by (simp add: frame_ok_def add_frame_def)
  have "receiving_size rx0 = 32760"
    by (simp add: rx0_def reset_tran_buf_def reset_receiving_env_def rx_init_def tb_malloc_def mem0_def
        TRAN_BUF_BLOCK_BASE_SIZE_def tb_capacity_def)
  then show "int (length (enframe (1, 0, [5]) @ replicate 24 0)) \<le> receiving_size rx0"
    by (simp add: enframe_def header_size_def)
qed simp_all

lemma split_negative_loops:
  assumes "split_and_process_message p data sz rx m items = Some r" and "24 \<le> sz" and "sz < 2 ^ 31"
    and "\<not> receiving_header_identified rx" and "received_header_size rx = 0" and "received_message_size rx = 0"
    and "length (receiving_header rx) = header_size"
    and "read_mem m p data 24 = Some hdr" and "CheckMagicString (read_header hdr)" and "message_size (read_header hdr) = -24"
  shows False
proof -
  have "\<not> (24 \<le> sz \<and> sz < 2 ^ 31 \<and> \<not> receiving_header_identified rx \<and> received_header_size rx = 0 \<and>
      received_message_size rx = 0 \<and> length (receiving_header rx) = header_size \<and>
      (\<exists>hdr. read_mem m p data 24 = Some hdr \<and> CheckMagicString (read_header hdr) \<and> message_size (read_header hdr) = -24))"
    if "split_and_process_message p data sz rx m items = Some r" for r
  proof (rule split_and_process_message.raw_induct [OF _ that], goal_cases)
    case (1 loop p data sz rx m items r)
    show ?case
    proof (rule notI, elim conjE exE)
      fix hdr
      assume a: "24 \<le> sz" "sz < 2 ^ 31" "\<not> receiving_header_identified rx" "received_header_size rx = 0"
        "received_message_size rx = 0" "length (receiving_header rx) = header_size" "read_mem m p data 24 = Some hdr"
        "CheckMagicString (read_header hdr)" "message_size (read_header hdr) = -24"
      have lh: "length hdr = 24" using a(7) by (auto simp: read_mem_view split: option.splits if_splits)
      then have ow: "overwrite 0 hdr (receiving_header rx) = hdr"
        using a(6) by (simp add: overwrite_def header_size_def)
      define rx2 where "rx2 = rx\<lparr>receiving_header := hdr, received_header_size := 24, receiving_header_identified := True\<rparr>"
      have h: "split_header p data sz rx m = Some (Inr (data + 24, sz - 24, rx2))"
        using a ow by (simp add: split_header_def identify_message_header_def Let_def header_size_def rx2_def)
      have b: "split_body p (data + 24) (sz - 24) rx2 m items =
          Some (Inr (data, sz, reset_receiving_env rx2, m, items @ [(receiving_message rx, meta_size (read_header hdr),
            data_size (read_header hdr))]))"
        using a(1,2,5,9) by (simp add: split_body_def Let_def rx2_def i32_id)
      have "loop p data sz (reset_receiving_env rx2) m (items @ [(receiving_message rx, meta_size (read_header hdr),
            data_size (read_header hdr))]) = Some r"
        using 1(2) a(1) h b by simp
      from 1(1) [OF this] a lh show False
        by (simp add: reset_receiving_env_def rx2_def header_size_def)
    qed
  qed
  with assms show False by blast
qed

text \<open>
  A header whose \<^verbatim>\<open>message_size\<close> is \<open>-24\<close> makes \<^verbatim>\<open>split_and_process_message\<close> step back over the header it has just read and
  start again in the same state: the handler of that read gives no result.
\<close>

theorem negative_size_hangs:
  assumes "rx_inv m rx live others" and "rx_pending m rx = []" and "24 \<le> receiving_size rx"
    and "header_ok h" and "CheckMagicString h" and "message_size h = -24"
  shows "receive_bytes f (header_bytes h) rx m = None"
proof -
  obtain p n d off where i: "view m p = Some (n, d)" "receiving_data rx = int off" "0 < receiving_size rx"
    "int off + receiving_size rx = int (length d)" "length d < 2 ^ 30" "rx_mem_ok m p off rx live others" "rx_hdr_ok m rx"
    using assms(1) by (auto simp: rx_inv_def)
  have len: "off + length (header_bytes h) \<le> length d" using assms(3) i(4) by (simp add: header_size_def)
  obtain m1 where w: "write_mem m p (int off) (header_bytes h) = Some m1"
    "view m1 p = Some (n, overwrite off (header_bytes h) d)" "rx_hdr_ok m1 rx" "rx_pending m1 rx = rx_pending m rx"
    using rx_write_ok [OF i(6,1,7) len] by blast
  have r24: "read_mem m1 p (int off) 24 = Some (header_bytes h)"
    using len by (simp add: read_mem_view w(2) overwrite_def header_size_def)
  have rh: "read_header (header_bytes h) = h" using read_header_bytes [OF assms(4), of "[]"] by simp
  have tb: "tran_buf rx = Some p" using i(6) by (simp add: rx_mem_ok_def)
  have st: "\<not> receiving_header_identified rx" "received_header_size rx = 0" "received_message_size rx = 0"
    "length (receiving_header rx) = header_size"
    using w(3,4) assms(2) by (auto simp: rx_hdr_ok_def rx_pending_def header_size_def split: if_splits)
  have "split_and_process_message p (int off) (int (length (header_bytes h))) rx m1 [] = None"
  proof (rule ccontr)
    assume "\<not> ?thesis"
    then obtain r where "split_and_process_message p (int off) (int (length (header_bytes h))) rx m1 [] = Some r" by auto
    then show False
      by (rule split_negative_loops [OF _ _ _ st r24]) (use rh assms(5,6) in \<open>simp_all add: header_size_def\<close>)
  qed
  then show ?thesis using tb i(2) w(1) by (simp add: receive_bytes_def)
qed

theorem negative_size_hangs_witness:
  "receive_bytes 9 (header_bytes (MessageHeader\<lparr>message_size := -24\<rparr>)) rx0 mem1 = None"
  by (rule negative_size_hangs [OF rx0_inv])
    (simp_all add: header_ok_def MessageHeader_def CheckMagicString_def rx0_def reset_tran_buf_def
      reset_receiving_env_def rx_init_def tb_malloc_def mem0_def TRAN_BUF_BLOCK_BASE_SIZE_def tb_capacity_def)

end
