(* ===== verification/Message_Meta.thy ===== *)
theory Message_Meta
  imports Gb_Prelude Byte_Order
begin

text \<open>
  The packed \<^verbatim>\<open>Meta\<close> block of \<^verbatim>\<open>src/network/io/message_meta.h\<close> that precedes the data of every message.
\<close>

section \<open>Meta\<close>

text \<open>\<^verbatim>\<open>MsgMode\<close>\<close>

definition Msg :: byte where "Msg = 0"
definition Request :: byte where "Request = 1"
definition Response :: byte where "Response = 2"

record meta =
  mode :: byte
  user_unique_id :: u64
  mtype :: u32
  compress :: byte
  rpc_method :: u64
  sequence :: u64

definition Meta :: meta where
  "Meta = \<lparr>mode = 0, user_unique_id = 0, mtype = 0, compress = 0, rpc_method = 0, sequence = 0\<rparr>"

text \<open>The packed object: 1 + 8 + 4 + 1 + 8 + 8 bytes.\<close>

definition sizeof_meta :: nat where
  "sizeof_meta = 30"

definition meta_bytes :: "meta \<Rightarrow> byte list" where
  "meta_bytes mt =
     [mode mt] @ le_bytes 8 (user_unique_id mt) @ le_bytes 4 (mtype mt) @ [compress mt] @
     le_bytes 8 (rpc_method mt) @ le_bytes 8 (sequence mt)"

definition bytes_meta :: "byte list \<Rightarrow> meta" where
  "bytes_meta bs =
     \<lparr>mode = bs ! 0, user_unique_id = le_word (take 8 (drop 1 bs)),
      mtype = ucast (le_word (take 4 (drop 9 bs))), compress = bs ! 13,
      rpc_method = le_word (take 8 (drop 14 bs)), sequence = le_word (take 8 (drop 22 bs))\<rparr>"

lemma length_meta_bytes [simp]: "length (meta_bytes mt) = sizeof_meta"
  by (simp add: meta_bytes_def sizeof_meta_def)

lemma bytes_meta_bytes: "bytes_meta (meta_bytes mt @ rest) = mt"
  by (simp add: bytes_meta_def meta_bytes_def nth_append)

end
