(* ===== verification/Session_Send.thy ===== *)
theory Session_Send
  imports Message_Receive Message_Meta
begin

text \<open>
  Building and opening messages: \<^verbatim>\<open>ReadMeta\<close> of \<^verbatim>\<open>src/network/io/message_meta.h\<close>, and
  the \<^verbatim>\<open>Session::Send\<close> overloads of \<^verbatim>\<open>src/network/io/session.cpp\<close> up to the call of
  \<^verbatim>\<open>async_send_message\<close>. The compressors are a parameter \<open>compress\<close>: what the compressed output stream
  gives for the length-prefixed data. The theorems: \<^verbatim>\<open>Send\<close> produces exactly one frame; \<^verbatim>\<open>ReadMeta\<close> gives the
  meta block back when it lies in the first chunk of the message, and leaves the stream short of its place
  when it does not.
\<close>

section \<open>Reading the meta block\<close>

text \<open>
  \<^verbatim>\<open>ReadMeta\<close>: one \<^verbatim>\<open>Next\<close>, a \<^verbatim>\<open>memcpy\<close> of \<open>n\<close> bytes from the chunk into the object, and a \<^verbatim>\<open>BackUp\<close>.
  The copy reads on after the end of the chunk when the chunk is shorter; \<open>None\<close> is a copy outside the block, a
  null source, or more bytes than the object holds.
\<close>

definition ReadMeta :: "mem \<Rightarrow> read_buffer \<Rightarrow> meta \<Rightarrow> nat \<Rightarrow> (meta \<times> read_buffer) option" where
  "ReadMeta m rb mt n =
     (case rb_next rb of
        (None, rb1) \<Rightarrow> if n = 0 then Some (mt, rb1) else None
      | (Some (p, off, sz), rb1) \<Rightarrow>
          (case read_mem m p off (int n) of
             None \<Rightarrow> None
           | Some bs \<Rightarrow>
               if n > sizeof_meta then None
               else let mt' = bytes_meta (overwrite 0 bs (meta_bytes mt))
                    in if sz > int n
                       then map_option (\<lambda>rb2. (mt', rb2)) (rb_backup (sz - int n) rb1)
                       else Some (mt', rb1)))"

section \<open>Session::Send\<close>

text \<open>The header is written last; the write buffer is then handed over to a new read buffer.\<close>

definition send_finish :: "int \<Rightarrow> message_header \<Rightarrow> write_buffer \<Rightarrow> mem \<Rightarrow> (read_buffer \<times> mem) option" where
  "send_finish header_pos header w m =
     (case wb_set_data header_pos (header_bytes header) (int header_size) w m of
        None \<Rightarrow> None
      | Some m1 \<Rightarrow>
          (case wb_swap_out w ReadBuffer m1 of
             None \<Rightarrow> None
           | Some (w', rb, m2) \<Rightarrow> Some (rb, m2)))"

text \<open>\<^verbatim>\<open>Send(const Meta*)\<close>; no meta is the heartbeat.\<close>

definition send_meta :: "meta option \<Rightarrow> mem \<Rightarrow> (read_buffer \<times> mem) option" where
  "send_meta mt m =
     (case wb_reserve (int header_size) WriteBuffer m of
        None \<Rightarrow> None
      | Some (header_pos, w, m1) \<Rightarrow>
          (case mt of
             None \<Rightarrow> send_finish header_pos MessageHeader w m1
           | Some mt \<Rightarrow>
               (case wb_append (meta_bytes mt) (int sizeof_meta) w m1 of
                  None \<Rightarrow> None
                | Some (_, w2, m2) \<Rightarrow>
                    let ms = i32 (wb_write_bytes w2 - header_pos - int header_size)
                    in send_finish header_pos (MessageHeader\<lparr>meta_size := ms, message_size := ms\<rparr>) w2 m2)))"

text \<open>
  \<^verbatim>\<open>Send(const Meta*, data)\<close> for a byte vector, a string view or a pointer and size: the appends' results are
  ignored, as in the code.
\<close>

definition send_data :: "(byte \<Rightarrow> byte list \<Rightarrow> byte list) \<Rightarrow> meta \<Rightarrow> byte list \<Rightarrow> mem \<Rightarrow> (read_buffer \<times> mem) option" where
  "send_data compressed mt data m =
     (case wb_reserve (int header_size) WriteBuffer m of
        None \<Rightarrow> None
      | Some (header_pos, w, m1) \<Rightarrow>
          (case wb_append (meta_bytes mt) (int sizeof_meta) w m1 of
             None \<Rightarrow> None
           | Some (_, w2, m2) \<Rightarrow>
               let ms = i32 (wb_write_bytes w2 - header_pos - int header_size);
                   body = (if compress mt = 0 then data else compressed (compress mt) data)
               in (case wb_append body (i32 (int (length body))) w2 m2 of
                     None \<Rightarrow> None
                   | Some (_, w3, m3) \<Rightarrow>
                       let ds = wb_write_bytes w3 - header_pos - int header_size - ms
                       in send_finish header_pos
                            (MessageHeader\<lparr>meta_size := ms, data_size := ds, message_size := ms + ds\<rparr>) w3 m3)))"

text \<open>The overloads for a string view and for a pointer and a size; reading past the pointed-to bytes is \<open>None\<close>.\<close>

definition send_view :: "(byte \<Rightarrow> byte list \<Rightarrow> byte list) \<Rightarrow> meta \<Rightarrow> byte list \<Rightarrow> mem \<Rightarrow> (read_buffer \<times> mem) option" where
  "send_view compressed mt data m = send_data compressed mt data m"

definition send_chars :: "(byte \<Rightarrow> byte list \<Rightarrow> byte list) \<Rightarrow> meta \<Rightarrow> byte list \<Rightarrow> nat \<Rightarrow> mem \<Rightarrow> (read_buffer \<times> mem) option" where
  "send_chars compressed mt data n m =
     (if n \<le> length data then send_data compressed mt (take n data) m else None)"

text \<open>
  \<^verbatim>\<open>Send(const Meta*, const google::protobuf::Message*)\<close>. The serialiser is a parameter: \<open>ser c w m\<close> is the
  message's \<^verbatim>\<open>SerializeToZeroCopyStream\<close> into the write buffer, through the compressed stream for \<open>c\<close> when \<open>c\<close> is not
  \<open>CompressTypeNone\<close>, with the flush. The result has no buffer when the function returns early; the write buffer is
  then destroyed.
\<close>

definition send_message :: "(byte \<Rightarrow> write_buffer \<Rightarrow> mem \<Rightarrow> (bool \<times> write_buffer \<times> mem) option) \<Rightarrow> meta option \<Rightarrow> mem \<Rightarrow>
    (read_buffer option \<times> mem) option" where
  "send_message ser mt m =
     (case mt of
        None \<Rightarrow> Some (None, m)
      | Some mt \<Rightarrow>
          (case wb_reserve (int header_size) WriteBuffer m of
             None \<Rightarrow> None
           | Some (header_pos, w, m1) \<Rightarrow>
               (case wb_append (meta_bytes mt) (int sizeof_meta) w m1 of
                  None \<Rightarrow> None
                | Some (_, w2, m2) \<Rightarrow>
                    let ms = i32 (wb_write_bytes w2 - header_pos - int header_size)
                    in (case ser (compress mt) w2 m2 of
                          None \<Rightarrow> None
                        | Some (False, w3, m3) \<Rightarrow> map_option (\<lambda>m4. (None, m4)) (wb_destroy w3 m3)
                        | Some (True, w3, m3) \<Rightarrow>
                            let ds = wb_write_bytes w3 - header_pos - int header_size - ms
                            in map_option (\<lambda>(rb, m4). (Some rb, m4))
                                 (send_finish header_pos
                                    (MessageHeader\<lparr>meta_size := ms, data_size := ds, message_size := ms + ds\<rparr>) w3 m3)))))"

text \<open>\<^verbatim>\<open>Send(const Meta*, const ReadBufferPtr&)\<close>.\<close>

definition send_buffer :: "(byte \<Rightarrow> byte list \<Rightarrow> byte list) \<Rightarrow> meta \<Rightarrow> read_buffer \<Rightarrow> mem \<Rightarrow> (read_buffer \<times> mem) option" where
  "send_buffer compressed mt data_buffer m =
     (case rb_to_string m data_buffer of None \<Rightarrow> None | Some data \<Rightarrow> send_data compressed mt data m)"

section \<open>Send produces one frame\<close>

lemma send_finish_ok:
  assumes "wb_inv m others w" and "wb_content m w = j @ body" and "length j = header_size"
  shows "\<exists>rb m'. send_finish 0 h w m = Some (rb, m') \<and> rb_fresh m' rb (header_bytes h @ body) \<and>
     heap_ok m' (mset (map hdata (rbufs rb)) + others) \<and> wb_frame m others m'"
proof -
  have "0 + length (header_bytes h) \<le> length (wb_content m w)" using assms(2,3) by simp
  from wb_set_data_ok [OF assms(1) this] obtain m1 where
    s: "wb_set_data 0 (header_bytes h) (int header_size) w m = Some m1" "wb_inv m1 others w"
    "wb_content m1 w = overwrite 0 (header_bytes h) (wb_content m w)" "wb_frame m others m1"
    by auto
  have c: "wb_content m1 w = header_bytes h @ body"
    using s(3) assms(2,3) by (simp add: overwrite_def)
  from wb_swap_out_ok [OF s(2)] obtain rb m2 where
    "wb_swap_out w ReadBuffer m1 = Some (WriteBuffer\<lparr>wb_base_block_factor := wb_base_block_factor w\<rparr>, rb, m2)"
    "rb_fresh m2 rb (wb_content m1 w)" "heap_ok m2 (mset (map hdata (rbufs rb)) + others)" "wb_frame m1 others m2"
    by blast
  with s c wb_frame_trans show ?thesis by (auto simp: send_finish_def)
qed

lemma reserve_header_ok:
  assumes "heap_ok m others" and "32768 * header_size \<le> avail m"
  shows "\<exists>w m' j. wb_reserve (int header_size) WriteBuffer m = Some (0, w, m') \<and> wb_inv m' others w \<and>
     wb_content m' w = j \<and> length j = header_size \<and> wb_frame m others m' \<and> avail m \<le> avail m' + 32768 * header_size"
proof -
  have inv: "wb_inv m others WriteBuffer" "wb_content m WriteBuffer = []"
    using assms(1) by (simp_all add: wb_inv_def WriteBuffer_def wb_content_def)
  from wb_reserve_loop_ok [OF inv(1), of header_size] obtain ok w m' j where
    r: "wb_reserve_loop (int header_size) WriteBuffer m = Some (ok, w, m')" "wb_inv m' others w"
    "wb_content m' w = j" "ok \<longrightarrow> length j = header_size" "wb_frame m others m'"
    using inv(2) by auto
  from wb_reserve_avail [OF inv(1) assms(2) r(1)] have "ok" "avail m \<le> avail m' + 32768 * header_size" by auto
  with r show ?thesis by (simp add: wb_reserve_def WriteBuffer_def)
qed

lemma meta_prefix_ok:
  assumes "heap_ok m others" and "32768 * (header_size + sizeof_meta) \<le> avail m"
  shows "\<exists>w1 m1 w2 m2 j. wb_reserve (int header_size) WriteBuffer m = Some (0, w1, m1) \<and>
     wb_append (meta_bytes mt) (int sizeof_meta) w1 m1 = Some (True, w2, m2) \<and> wb_inv m2 others w2 \<and>
     wb_frame m others m2 \<and> wb_content m2 w2 = j @ meta_bytes mt \<and> length j = header_size \<and>
     i32 (wb_write_bytes w2 - int header_size) = int sizeof_meta \<and>
     avail m \<le> avail m2 + 32768 * (header_size + sizeof_meta)"
proof -
  have "32768 * header_size \<le> avail m" using assms(2) by simp
  from reserve_header_ok [OF assms(1) this] obtain w1 m1 j where
    r1: "wb_reserve (int header_size) WriteBuffer m = Some (0, w1, m1)" "wb_inv m1 others w1"
    "wb_content m1 w1 = j" "length j = header_size" "wb_frame m others m1" "avail m \<le> avail m1 + 32768 * header_size"
    by blast
  have "32768 * length (meta_bytes mt) \<le> avail m1" using assms(2) r1(6) by simp
  from wb_append_roomy [OF r1(2) this] obtain w2 m2 where
    r2: "wb_append (meta_bytes mt) (int sizeof_meta) w1 m1 = Some (True, w2, m2)" "wb_inv m2 others w2"
    "wb_frame m1 others m2" "wb_content m2 w2 = j @ meta_bytes mt" "avail m1 \<le> avail m2 + 32768 * sizeof_meta"
    using r1(3) by auto
  have "i32 (wb_write_bytes w2 - int header_size) = int sizeof_meta"
    using wb_inv_len [OF r2(2)] r1(4) r2(4) by (simp add: i32_id sizeof_meta_def)
  moreover have "avail m \<le> avail m2 + 32768 * (header_size + sizeof_meta)" using r1(6) r2(5) by simp
  ultimately show ?thesis using r1(1,4) r2(1,2,4) wb_frame_trans [OF r1(5) r2(3)] by blast
qed

text \<open>The bytes that go on the wire after the header and the meta block.\<close>

definition send_body :: "(byte \<Rightarrow> byte list \<Rightarrow> byte list) \<Rightarrow> meta \<Rightarrow> byte list \<Rightarrow> byte list" where
  "send_body compressed mt data = (if compress mt = 0 then data else compressed (compress mt) data)"

lemma send_data_ok:
  assumes "heap_ok m others" and "32768 * (header_size + sizeof_meta + length (send_body compressed mt data)) \<le> avail m"
    and "int (length (send_body compressed mt data)) < 2 ^ 31"
  shows "\<exists>rb m'. send_data compressed mt data m = Some (rb, m') \<and>
     rb_fresh m' rb (enframe (int sizeof_meta, int (length (send_body compressed mt data)),
       meta_bytes mt @ send_body compressed mt data)) \<and>
     heap_ok m' (mset (map hdata (rbufs rb)) + others) \<and> wb_frame m others m'"
proof -
  let ?body = "send_body compressed mt data"
  have "32768 * (header_size + sizeof_meta) \<le> avail m" using assms(2) by simp
  from meta_prefix_ok [OF assms(1) this, of mt] obtain w1 m1 w2 m2 j where
    r1: "wb_reserve (int header_size) WriteBuffer m = Some (0, w1, m1)" and
    r2: "wb_append (meta_bytes mt) (int sizeof_meta) w1 m1 = Some (True, w2, m2)" "wb_inv m2 others w2"
    "wb_frame m others m2" "wb_content m2 w2 = j @ meta_bytes mt" "length j = header_size" and
    ms: "i32 (wb_write_bytes w2 - int header_size) = int sizeof_meta" and
    av: "avail m \<le> avail m2 + 32768 * (header_size + sizeof_meta)"
    by blast
  have "32768 * length ?body \<le> avail m2" using assms(2) av by simp
  from wb_append_roomy [OF r2(2) this] obtain w3 m3 where
    r3: "wb_append ?body (int (length ?body)) w2 m2 = Some (True, w3, m3)" "wb_inv m3 others w3"
    "wb_frame m2 others m3" "wb_content m3 w3 = j @ meta_bytes mt @ ?body"
    using r2(4) by auto
  have ds: "wb_write_bytes w3 - int header_size - int sizeof_meta = int (length ?body)"
    using wb_inv_len [OF r3(2)] r2(5) r3(4) by simp
  let ?h = "MessageHeader\<lparr>meta_size := int sizeof_meta, data_size := int (length ?body),
    message_size := int sizeof_meta + int (length ?body)\<rparr>"
  obtain rb m4 where f: "send_finish 0 ?h w3 m3 = Some (rb, m4)" "rb_fresh m4 rb (header_bytes ?h @ meta_bytes mt @ ?body)"
    "heap_ok m4 (mset (map hdata (rbufs rb)) + others)" "wb_frame m3 others m4"
    using send_finish_ok [OF r3(2,4) r2(5), of ?h] by blast
  have e: "header_bytes ?h @ meta_bytes mt @ ?body = enframe (int sizeof_meta, int (length ?body), meta_bytes mt @ ?body)"
    by (simp add: enframe_def MessageHeader_def)
  have "i32 (int (length ?body)) = int (length ?body)" by (rule i32_id) (use assms(3) in auto)
  with r1 r2(1) r3(1) f(1) have "send_data compressed mt data m = Some (rb, m4)"
    unfolding send_data_def send_body_def [symmetric] by (simp only: Let_def option.case prod.case diff_zero ms ds)
  with f e wb_frame_trans [OF r2(3) wb_frame_trans [OF r3(3) f(4)]] show ?thesis by metis
qed

text \<open>
  C29. With enough memory, \<^verbatim>\<open>Session::Send(meta, data)\<close> builds exactly one well-formed frame: the header
  announces the sizes of the meta block and the (possibly compressed) data, which follow it, and no other
  owner's blocks are touched.
\<close>

theorem send_builds_frame:
  assumes "heap_ok m others" and "32768 * (header_size + sizeof_meta + length (send_body compressed mt data)) \<le> avail m"
    and "int (length (send_body compressed mt data)) < 2 ^ 31"
  shows "\<exists>rb m'. send_data compressed mt data m = Some (rb, m') \<and>
     rb_to_string m' rb = Some (enframe (int sizeof_meta, int (length (send_body compressed mt data)),
       meta_bytes mt @ send_body compressed mt data)) \<and>
     heap_ok m' (mset (map hdata (rbufs rb)) + others) \<and> (\<forall>q \<in># others. view m' q = view m q)"
  using send_data_ok [OF assms] rb_fresh_to_string by (fastforce simp: wb_frame_def)

definition mem_big :: mem where
  "mem_big = mem0\<lparr>avail := 10 ^ 8\<rparr>"

lemma heap_ok_big: "heap_ok mem_big {#}"
  by (simp add: heap_ok_def block_ok_def mem_big_def mem0_def)

theorem send_builds_frame_witness:
  "\<exists>rb m'. send_data (\<lambda>_ d. d) (Meta\<lparr>mtype := 7\<rparr>) [1, 2, 3] mem_big = Some (rb, m') \<and>
     rb_to_string m' rb = Some (enframe (30, 3, meta_bytes (Meta\<lparr>mtype := 7\<rparr>) @ [1, 2, 3]))"
  using send_builds_frame [OF heap_ok_big, of "\<lambda>_ d. d" "Meta\<lparr>mtype := 7\<rparr>" "[1, 2, 3]"]
  by (auto simp: send_body_def Meta_def mem_big_def header_size_def sizeof_meta_def)

lemma wb_destroy_ok:
  assumes "wb_inv m others w"
  shows "\<exists>m'. wb_destroy w m = Some m' \<and> heap_ok m' others \<and> wb_frame m others m'"
  using rb_destroy_ok [of m "ReadBuffer\<lparr>rbufs := wbufs w\<rparr>" others] assms
  by (simp add: wb_inv_def wb_destroy_def rb_destroy_def)

text \<open>
  What the zero-copy contract promises of a serialiser that writes \<open>bs\<close>: it leaves a usable buffer, and if it
  reports success it has appended \<open>bs\<close>.
\<close>

definition serialises :: "(byte \<Rightarrow> write_buffer \<Rightarrow> mem \<Rightarrow> (bool \<times> write_buffer \<times> mem) option) \<Rightarrow> byte \<Rightarrow> byte list \<Rightarrow>
    nat multiset \<Rightarrow> bool" where
  "serialises ser c bs others \<longleftrightarrow> (\<forall>w m. wb_inv m others w \<longrightarrow>
     (\<exists>ok w' m'. ser c w m = Some (ok, w', m') \<and> wb_inv m' others w' \<and> wb_frame m others m' \<and>
        (ok \<longrightarrow> wb_content m' w' = wb_content m w @ bs)))"

text \<open>
  \<^verbatim>\<open>Send\<close> of a protobuf message, while there is memory for the header and the meta block and for any serialiser that keeps the
  zero-copy contract: either nothing is sent
  and every block of the write buffer is released, or one well-formed frame of the meta block and the serialised
  message is handed over. Blocks of other owners keep their contents.
\<close>

theorem send_message_frame_or_nothing:
  assumes "heap_ok m others" and "32768 * (header_size + sizeof_meta) \<le> avail m"
    and "serialises ser (compress mt) bs others"
  shows "\<exists>r m'. send_message ser (Some mt) m = Some (r, m') \<and> (\<forall>q \<in># others. view m' q = view m q) \<and>
     (case r of
        None \<Rightarrow> heap_ok m' others
      | Some rb \<Rightarrow> rb_to_string m' rb = Some (enframe (int sizeof_meta, int (length bs), meta_bytes mt @ bs)) \<and>
                   heap_ok m' (mset (map hdata (rbufs rb)) + others))"
proof -
  from meta_prefix_ok [OF assms(1,2), of mt] obtain w1 m1 w2 m2 j where
    r1: "wb_reserve (int header_size) WriteBuffer m = Some (0, w1, m1)" and
    r2: "wb_append (meta_bytes mt) (int sizeof_meta) w1 m1 = Some (True, w2, m2)" "wb_inv m2 others w2"
    "wb_frame m others m2" "wb_content m2 w2 = j @ meta_bytes mt" "length j = header_size" and
    ms: "i32 (wb_write_bytes w2 - int header_size) = int sizeof_meta"
    by blast
  obtain ok w3 m3 where r3: "ser (compress mt) w2 m2 = Some (ok, w3, m3)" "wb_inv m3 others w3" "wb_frame m2 others m3"
    "ok \<longrightarrow> wb_content m3 w3 = (j @ meta_bytes mt) @ bs"
    using assms(3) [unfolded serialises_def, rule_format, OF r2(2)] r2(4) by auto
  show ?thesis
  proof (cases ok)
    case False
    from wb_destroy_ok [OF r3(2)] obtain m4 where d: "wb_destroy w3 m3 = Some m4" "heap_ok m4 others"
      "wb_frame m3 others m4" by blast
    have "send_message ser (Some mt) m = Some (None, m4)"
      using r1 r2(1) r3(1) False d(1) by (simp add: send_message_def)
    moreover have "\<forall>q \<in># others. view m4 q = view m q"
      using wb_frame_trans [OF r2(3) wb_frame_trans [OF r3(3) d(3)]] by (simp add: wb_frame_def)
    ultimately show ?thesis using d(2) by (intro exI [of _ None] exI [of _ m4]) simp
  next
    case True
    have ct: "wb_content m3 w3 = j @ meta_bytes mt @ bs" using r3(4) True by simp
    have ds: "wb_write_bytes w3 - int header_size - int sizeof_meta = int (length bs)"
      using wb_inv_len [OF r3(2)] r2(5) ct by simp
    let ?h = "MessageHeader\<lparr>meta_size := int sizeof_meta, data_size := int (length bs),
      message_size := int sizeof_meta + int (length bs)\<rparr>"
    obtain rb m4 where f: "send_finish 0 ?h w3 m3 = Some (rb, m4)" "rb_fresh m4 rb (header_bytes ?h @ meta_bytes mt @ bs)"
      "heap_ok m4 (mset (map hdata (rbufs rb)) + others)" "wb_frame m3 others m4"
      using send_finish_ok [OF r3(2) ct r2(5), of ?h] by blast
    have e: "header_bytes ?h @ meta_bytes mt @ bs = enframe (int sizeof_meta, int (length bs), meta_bytes mt @ bs)"
      by (simp add: enframe_def MessageHeader_def)
    have "send_message ser (Some mt) m = Some (Some rb, m4)"
      unfolding send_message_def using r1 r2(1) r3(1) [unfolded iffD2 [OF eq_True True]] f(1)
      by (simp only: Let_def option.case prod.case bool.case diff_zero ms ds option.map)
    moreover have "\<forall>q \<in># others. view m4 q = view m q"
      using wb_frame_trans [OF r2(3) wb_frame_trans [OF r3(3) f(4)]] by (simp add: wb_frame_def)
    moreover have "rb_to_string m4 rb = Some (enframe (int sizeof_meta, int (length bs), meta_bytes mt @ bs))"
      using rb_fresh_to_string [OF f(2)] e by simp
    ultimately show ?thesis using f(3) by (intro exI [of _ "Some rb"] exI [of _ m4]) simp
  qed
qed

lemma wb_append_serialises: "serialises (\<lambda>_ w m. wb_append bs (int (length bs)) w m) c bs others"
  unfolding serialises_def using wb_append_ok by blast

theorem send_message_frame_or_nothing_witness:
  "\<exists>r m'. send_message (\<lambda>_ w m. wb_append [4, 5] (int (length [4, 5 :: byte])) w m) (Some Meta) mem_big = Some (r, m') \<and>
     (case r of None \<Rightarrow> heap_ok m' {#} | Some rb \<Rightarrow> rb_to_string m' rb = Some (enframe (30, 2, meta_bytes Meta @ [4, 5])))"
proof -
  have "32768 * (header_size + sizeof_meta) \<le> avail mem_big" by (simp add: mem_big_def header_size_def sizeof_meta_def)
  from send_message_frame_or_nothing [OF heap_ok_big this wb_append_serialises, where mt = Meta and bs = "[4, 5]"]
  show ?thesis by (elim ex_forward conjE, intro conjI) (auto simp: sizeof_meta_def split: option.splits)
qed

section \<open>ReadMeta\<close>

lemma overwrite_full: "length bs = length xs \<Longrightarrow> overwrite 0 bs xs = bs"
  by (simp add: overwrite_def)

text \<open>
  C30. When the first chunk of a message holds the whole meta block, \<^verbatim>\<open>ReadMeta\<close> returns the meta that was
  sent and leaves the stream at the first byte of the data.
\<close>

theorem read_meta_correct:
  assumes "rb_fresh m rb (meta_bytes mt @ body)" and "rbufs rb = h # hs" and "int sizeof_meta \<le> hsize h"
  shows "\<exists>rb'. ReadMeta m rb mt0 sizeof_meta = Some (mt, rb') \<and> rb_inv m rb' \<and> rb_rest m rb' = body"
proof -
  have inv: "rb_inv m rb" "rb_rest m rb = meta_bytes mt @ body" using rb_fresh_inv [OF assms(1)] by auto
  have "rb_rest m rb \<noteq> []" using inv(2) by (auto simp: meta_bytes_def)
  from rb_next_more [OF inv(1) this] obtain p off sz rb' c where
    nx: "rb_next rb = (Some (p, off, sz), rb')" "read_mem m p off sz = Some c" "int (length c) = sz" "rb_inv m rb'"
    "rb_rest m rb = c @ rb_rest m rb'"
    and bk: "\<forall>k \<le> length c. \<exists>rb''. rb_backup (int k) rb' = Some rb'' \<and> rb_inv m rb'' \<and>
        rb_rest m rb'' = drop (length c - k) c @ rb_rest m rb' \<and> rb_read_bytes rb'' = rb_read_bytes rb' - int k"
    by blast
  have sz: "sz = hsize h"
    using nx(1) assms(1,2) by (auto simp: rb_next_def rb_fresh_def Let_def)
  have lc: "sizeof_meta \<le> length c" using nx(3) sz assms(3) by linarith
  have rd: "read_mem m p off (int sizeof_meta) = Some (take sizeof_meta c)"
    using nx(2) lc assms(3) sz
    by (auto simp: read_mem_view min_def split: option.splits if_splits)
  have "take sizeof_meta (rb_rest m rb) = take sizeof_meta c" using nx(5) lc by simp
  then have tc: "take sizeof_meta c = meta_bytes mt" using inv(2) by simp
  have mt: "bytes_meta (overwrite 0 (take sizeof_meta c) (meta_bytes mt0)) = mt"
    using lc bytes_meta_bytes [of mt "[]"] by (simp add: overwrite_full tc)
  have body: "drop sizeof_meta c @ rb_rest m rb' = body"
    using inv(2) nx(5) lc by (metis append_eq_append_conv append_take_drop_id append.assoc length_meta_bytes tc)
  show ?thesis
  proof (cases "sz > int sizeof_meta")
    case True
    have "length c - sizeof_meta \<le> length c" by simp
    with bk obtain rb2 where b: "rb_backup (int (length c - sizeof_meta)) rb' = Some rb2" "rb_inv m rb2"
      "rb_rest m rb2 = drop (length c - (length c - sizeof_meta)) c @ rb_rest m rb'" by blast
    have "int (length c - sizeof_meta) = sz - int sizeof_meta" using lc nx(3) by (simp add: of_nat_diff)
    with b nx(1) rd True mt have "ReadMeta m rb mt0 sizeof_meta = Some (mt, rb2)"
      by (simp add: ReadMeta_def Let_def)
    moreover have "rb_rest m rb2 = body" using b(3) lc body by simp
    ultimately show ?thesis using b(2) by blast
  next
    case False
    then have "length c = sizeof_meta" using lc nx(3) by linarith
    with body have "rb_rest m rb' = body" by simp
    moreover have "ReadMeta m rb mt0 sizeof_meta = Some (mt, rb')"
      using nx(1) rd False mt by (simp add: ReadMeta_def Let_def)
    ultimately show ?thesis using nx(4) by blast
  qed
qed

text \<open>A received message of two chunks of one block, of \<open>n\<close> and the remaining bytes.\<close>

definition mem_meta :: mem where
  "mem_meta = mem0\<lparr>blocks := (blocks mem0)(0 \<mapsto>
     \<lparr>blk_size = 64, ref_count = 2, payload = meta_bytes (Meta\<lparr>mtype := 7\<rparr>) @ replicate 26 9\<rparr>), next_ptr := 1\<rparr>"

definition rb_meta :: "nat \<Rightarrow> read_buffer" where
  "rb_meta n = \<lparr>rbufs = [\<lparr>hdata = 0, hsize = int n, hpos = 0\<rparr>, \<lparr>hdata = 0, hsize = 32 - int n, hpos = int n\<rparr>],
     rb_total_block_size = 128, rb_total_bytes = 32, rb_cur_it = 0, rb_cur_pos = 0, rb_last_bytes = 0, rb_read_bytes = 0\<rparr>"

lemma rb_meta_fresh:
  assumes "0 < n" and "n < 32"
  shows "rb_fresh mem_meta (rb_meta n) (meta_bytes (Meta\<lparr>mtype := 7\<rparr>) @ [9, 9])"
proof -
  let ?b = "meta_bytes (Meta\<lparr>mtype := 7\<rparr>) @ replicate 26 9"
  have v: "view mem_meta 0 = Some (64, ?b)" by (simp add: mem_meta_def view_def)
  have "nat (32 - int n) = 32 - n" by simp
  then have "take n ?b @ take (nat (32 - int n)) (drop n ?b) = take 32 ?b"
    using take_add [of n "32 - n" ?b] assms by simp
  also have "take 32 ?b = meta_bytes (Meta\<lparr>mtype := 7\<rparr>) @ [9, 9]"
    by (simp add: sizeof_meta_def numeral_eq_Suc)
  finally show ?thesis using assms v
    by (simp add: rb_fresh_def rb_meta_def rhandle_ok_def rbytes_def sizeof_meta_def)
qed

theorem read_meta_correct_witness:
  "\<exists>rb'. ReadMeta mem_meta (rb_meta 31) Meta sizeof_meta = Some (Meta\<lparr>mtype := 7\<rparr>, rb') \<and> rb_rest mem_meta rb' = [9, 9]"
  using read_meta_correct [OF rb_meta_fresh, of 31 "\<lparr>hdata = 0, hsize = 31, hpos = 0\<rparr>" _ Meta]
  by (auto simp: rb_meta_def sizeof_meta_def)

text \<open>
  When the first chunk of a message is shorter than the meta block, as it is when a read ended inside the
  block, \<^verbatim>\<open>ReadMeta\<close> leaves the rest of the meta block in the stream: whoever reads the data next reads those bytes
  first.
\<close>

theorem read_meta_straddles:
  assumes "rb_fresh m rb (meta_bytes mt @ body)" and "rbufs rb = h # hs" and "hsize h < int sizeof_meta"
    and "ReadMeta m rb mt0 sizeof_meta = Some (mt', rb')"
  shows "rb_rest m rb' = drop (nat (hsize h)) (meta_bytes mt) @ body"
proof -
  have inv: "rb_inv m rb" "rb_rest m rb = meta_bytes mt @ body" using rb_fresh_inv [OF assms(1)] by auto
  have "rb_rest m rb \<noteq> []" using inv(2) by (auto simp: meta_bytes_def)
  from rb_next_more [OF inv(1) this] obtain p off sz rb1 c where
    nx: "rb_next rb = (Some (p, off, sz), rb1)" "int (length c) = sz" "rb_rest m rb = c @ rb_rest m rb1"
    by blast
  have sz: "sz = hsize h"
    using nx(1) assms(1,2) by (auto simp: rb_next_def rb_fresh_def Let_def)
  then have "rb' = rb1" using nx(1) assms(3,4) by (auto simp: ReadMeta_def Let_def split: option.splits if_splits)
  moreover have "rb_rest m rb1 = drop (length c) (meta_bytes mt @ body)" using inv(2) nx(3) by (metis append_eq_conv_conj)
  moreover have "nat (hsize h) = length c" "length c < sizeof_meta" using nx(2) sz assms(3) by linarith+
  ultimately show ?thesis by simp
qed

theorem read_meta_straddles_witness:
  "\<exists>mt' rb'. ReadMeta mem_meta (rb_meta 10) Meta sizeof_meta = Some (mt', rb') \<and>
     rb_rest mem_meta rb' = drop 10 (meta_bytes (Meta\<lparr>mtype := 7\<rparr>)) @ [9, 9]"
proof -
  have "\<exists>mt' rb'. ReadMeta mem_meta (rb_meta 10) Meta sizeof_meta = Some (mt', rb')"
    by (simp add: ReadMeta_def rb_meta_def rb_next_def mem_meta_def read_mem_def sizeof_meta_def Let_def)
  then obtain mt' rb' where r: "ReadMeta mem_meta (rb_meta 10) Meta sizeof_meta = Some (mt', rb')" by blast
  have "rb_rest mem_meta rb' = drop (nat 10) (meta_bytes (Meta\<lparr>mtype := 7\<rparr>)) @ [9, 9]"
    using read_meta_straddles [OF rb_meta_fresh _ _ r, of "\<lparr>hdata = 0, hsize = 10, hpos = 0\<rparr>"]
    by (simp add: rb_meta_def sizeof_meta_def)
  with r show ?thesis by auto
qed

end
