(* ===== verification/Message_Stream.thy ===== *)
theory Message_Stream
  imports Message_Receive Flow_Control
begin

text \<open>
  A connection: \<^verbatim>\<open>ByteStream\<close> (\<^verbatim>\<open>src/message_stream/byte_stream.cpp\<close>), \<^verbatim>\<open>MessageStream\<close>
  (\<^verbatim>\<open>src/message_stream/message_stream.cpp\<close>) and the overriders of \<^verbatim>\<open>Session\<close> (\<^verbatim>\<open>src/network/io/session.cpp\<close>) as
  one record, since \<^verbatim>\<open>Session\<close> is the only concrete class. Each handler is a function on the record. The
  transport is what the handlers ask of it: \<open>writes\<close> and \<open>reads\<close> are the asynchronous operations it has been given
  and not completed yet, \<open>events\<close> the calls it and the application have seen. The application's callbacks are
  the parameter \<open>cb\<close>, which may change the session. \<open>None\<close> is undefined behaviour or a loop that does not end.
\<close>

section \<open>State\<close>

datatype net_status = STATUS_INIT | STATUS_CONNECTING | STATUS_CONNECTED | STATUS_CLOSED

datatype net_type = NT_SERVER | NT_CLIENT | NT_NATS

datatype token = TOKEN_FREE | TOKEN_LOCK

text \<open>A pointer into a block, or null, and a size.\<close>

type_synonym io_range = "(nat \<times> int) option \<times> int"

datatype event =
    TransportConnect
  | TransportClose
  | ConnectTimer int
  | TimerCancel
  | HeartbeatTimer int
  | HeartbeatCancel
  | ConnectedCallback
  | ClosedCallback
  | SentCallback read_buffer
  | SendFailed string "read_buffer option"
  | ReceivedCallback received_item
  | Accepted read_buffer            \<comment> \<open>a message has entered the pending queue\<close>
  | Written io_range nat            \<comment> \<open>the transport has taken that many bytes of a write\<close>

record session =
  \<comment> \<open>\<^verbatim>\<open>ByteStream\<close>\<close>
  net_type :: net_type
  status :: net_status
  ticks :: int
  last_rw_ticks :: int
  no_delay :: bool
  read_buffer_base_block_factor :: nat
  write_buffer_base_block_factor :: nat
  connect_timeout :: int
  \<comment> \<open>\<^verbatim>\<open>MessageStream\<close>\<close>
  pending_calls :: "read_buffer list"
  pend_message_count :: int
  pend_data_size :: int
  pend_buffer_size :: int
  swapped_calls :: "read_buffer list"
  swapped_message_count :: int
  swapped_data_size :: int
  swapped_buffer_size :: int
  flow_ctl :: flow_controller
  max_pending_buffer_size :: int
  read_quota_token :: int
  write_quota_token :: int
  sending_message :: "read_buffer option"
  sent_size :: int
  sending_data :: "(nat \<times> int) option"
  sending_size :: int
  total_sent_count :: int
  total_sent_size :: int
  total_received_count :: int
  total_received_size :: int
  rx :: rx_state
  heap :: mem
  send_token :: token
  receive_token :: token
  \<comment> \<open>\<^verbatim>\<open>Session\<close>\<close>
  start_heartbeat :: bool
  heartbeat_duration :: int
  \<comment> \<open>the environment's view\<close>
  writes :: "io_range list"
  reads :: "io_range list"
  events :: "event list"

definition Session :: "net_type \<Rightarrow> mem \<Rightarrow> session" where
  "Session nt m =
     \<lparr>net_type = nt, status = STATUS_INIT, ticks = 0, last_rw_ticks = 0, no_delay = True,
      read_buffer_base_block_factor = TRAN_BUF_BLOCK_MAX_FACTOR, write_buffer_base_block_factor = 4,
      connect_timeout = -1000000000,
      pending_calls = [], pend_message_count = 0, pend_data_size = 0, pend_buffer_size = 0,
      swapped_calls = [], swapped_message_count = 0, swapped_data_size = 0, swapped_buffer_size = 0,
      flow_ctl = FlowController True (-1) True (-1), max_pending_buffer_size = 0,
      read_quota_token = 1, write_quota_token = 1,
      sending_message = None, sent_size = 0, sending_data = None, sending_size = 0,
      total_sent_count = 0, total_sent_size = 0, total_received_count = 0, total_received_size = 0,
      rx = rx_init, heap = m, send_token = TOKEN_FREE, receive_token = TOKEN_FREE,
      start_heartbeat = False, heartbeat_duration = 0, writes = [], reads = [], events = []\<rparr>"

type_synonym callbacks = "event \<Rightarrow> session \<Rightarrow> session"

definition emit :: "event \<Rightarrow> session \<Rightarrow> session" where
  "emit e s = s\<lparr>events := events s @ [e]\<rparr>"

definition call_back :: "callbacks \<Rightarrow> event \<Rightarrow> session \<Rightarrow> session" where
  "call_back cb e s = cb e (emit e s)"

section \<open>ByteStream\<close>

definition is_connecting :: "session \<Rightarrow> bool" where
  "is_connecting s \<longleftrightarrow> status s = STATUS_CONNECTING"

definition is_connected :: "session \<Rightarrow> bool" where
  "is_connected s \<longleftrightarrow> status s = STATUS_CONNECTED"

definition is_closed :: "session \<Rightarrow> bool" where
  "is_closed s \<longleftrightarrow> status s = STATUS_CLOSED"

text \<open>\<^verbatim>\<open>Session::on_closed\<close>.\<close>

definition on_closed :: "callbacks \<Rightarrow> session \<Rightarrow> session" where
  "on_closed cb s = call_back cb ClosedCallback (emit HeartbeatCancel (s\<lparr>start_heartbeat := False\<rparr>))"

definition close_stream :: "callbacks \<Rightarrow> string \<Rightarrow> session \<Rightarrow> session" where
  "close_stream cb reason s =
     (let (st, old) = atomic_swap (status s) STATUS_CLOSED; s1 = s\<lparr>status := st\<rparr>
      in if old \<noteq> STATUS_CLOSED then on_closed cb (emit TransportClose s1) else s1)"

definition reset_ticks :: "int \<Rightarrow> bool \<Rightarrow> session \<Rightarrow> session" where
  "reset_ticks t update_last_rw_ticks s =
     (let s1 = s\<lparr>ticks := t\<rparr> in if update_last_rw_ticks then s1\<lparr>last_rw_ticks := t\<rparr> else s1)"

text \<open>Nanoseconds in the \<^verbatim>\<open>steady_clock\<close>'s duration per millisecond of the argument.\<close>

definition set_connect_timeout :: "int \<Rightarrow> session \<Rightarrow> session" where
  "set_connect_timeout timeout s = s\<lparr>connect_timeout := i64 (timeout * 1000000)\<rparr>"

definition async_connect :: "session \<Rightarrow> session" where
  "async_connect s =
     (let s1 = emit TransportConnect (s\<lparr>last_rw_ticks := ticks s, status := STATUS_CONNECTING\<rparr>)
      in if connect_timeout s1 > 0 then emit (ConnectTimer (connect_timeout s1)) s1 else s1)"

definition on_connect_timeout :: "callbacks \<Rightarrow> bool \<Rightarrow> session \<Rightarrow> session" where
  "on_connect_timeout cb aborted s =
     (if status s \<noteq> STATUS_CONNECTING then s
      else if aborted then s
      else close_stream cb ''connect timeout'' s)"

definition async_read_some :: "io_range \<Rightarrow> session \<Rightarrow> session" where
  "async_read_some r s = s\<lparr>reads := reads s @ [r]\<rparr>"

definition async_write_some :: "io_range \<Rightarrow> session \<Rightarrow> session" where
  "async_write_some r s = s\<lparr>writes := writes s @ [r]\<rparr>"

section \<open>The pending queue\<close>

definition pending_message_count :: "session \<Rightarrow> int" where
  "pending_message_count s = pend_message_count s + swapped_message_count s"

definition pending_data_size :: "session \<Rightarrow> int" where
  "pending_data_size s = pend_data_size s + swapped_data_size s"

definition pending_buffer_size :: "session \<Rightarrow> int" where
  "pending_buffer_size s = pend_buffer_size s + swapped_buffer_size s"

definition put_into_pending_queue :: "read_buffer \<Rightarrow> session \<Rightarrow> session" where
  "put_into_pending_queue message s =
     s\<lparr>pending_calls := pending_calls s @ [message],
       pend_message_count := pend_message_count s + 1,
       pend_data_size := pend_data_size s + rb_total_bytes message,
       pend_buffer_size := pend_buffer_size s + rb_total_block_size message\<rparr>"

definition insert_into_pending_queue :: "read_buffer \<Rightarrow> session \<Rightarrow> session" where
  "insert_into_pending_queue message s =
     s\<lparr>swapped_calls := message # swapped_calls s,
       swapped_message_count := swapped_message_count s + 1,
       swapped_data_size := swapped_data_size s + rb_total_bytes message,
       swapped_buffer_size := swapped_buffer_size s + rb_total_block_size message\<rparr>"

text \<open>The first half of \<^verbatim>\<open>get_from_pending_queue\<close>: the two queues are exchanged.\<close>

definition swap_pending :: "session \<Rightarrow> session" where
  "swap_pending s =
     (if swapped_calls s = [] \<and> pend_message_count s > 0 \<and> pending_calls s \<noteq> []
      then s\<lparr>swapped_calls := pending_calls s, pending_calls := swapped_calls s,
             swapped_message_count := pend_message_count s, swapped_data_size := pend_data_size s,
             swapped_buffer_size := pend_buffer_size s,
             pend_message_count := 0, pend_data_size := 0, pend_buffer_size := 0\<rparr>
      else s)"

definition get_from_pending_queue :: "session \<Rightarrow> read_buffer option \<times> session" where
  "get_from_pending_queue s =
     (let s1 = swap_pending s
      in case swapped_calls s1 of
           [] \<Rightarrow> (None, s1)
         | message # rest \<Rightarrow>
             (Some message,
              s1\<lparr>swapped_calls := rest, swapped_message_count := swapped_message_count s1 - 1,
                 swapped_data_size := swapped_data_size s1 - rb_total_bytes message,
                 swapped_buffer_size := swapped_buffer_size s1 - rb_total_block_size message\<rparr>))"

definition clear_sending_env :: "session \<Rightarrow> session" where
  "clear_sending_env s = s\<lparr>sending_message := None, sent_size := 0, sending_data := None, sending_size := 0\<rparr>"

section \<open>Starting transfers\<close>

definition free_send_token :: "session \<Rightarrow> session" where
  "free_send_token s = s\<lparr>send_token := fst (atomic_comp_swap (send_token s) TOKEN_FREE TOKEN_LOCK)\<rparr>"

definition free_receive_token :: "session \<Rightarrow> session" where
  "free_receive_token s = s\<lparr>receive_token := fst (atomic_comp_swap (receive_token s) TOKEN_FREE TOKEN_LOCK)\<rparr>"

definition try_start_receive :: "session \<Rightarrow> bool \<times> session" where
  "try_start_receive s =
     (if receive_token s = TOKEN_LOCK then (False, s)
      else if read_quota_token s \<le> 0 then (False, s)
      else if net_type s = NT_SERVER \<and> pending_buffer_size s > max_pending_buffer_size s then (False, s)
      else if is_connected s
      then (let (tok, old) = atomic_comp_swap (receive_token s) TOKEN_LOCK TOKEN_FREE; s1 = s\<lparr>receive_token := tok\<rparr>
            in if old = TOKEN_FREE
               then (let (q, fc) = acquire_read_quota (i32 (receiving_size (rx s1))) (flow_ctl s1);
                         s2 = s1\<lparr>read_quota_token := q, flow_ctl := fc\<rparr>
                     in if q \<le> 0 then (False, free_receive_token s2)
                        else (True, async_read_some (map_option (\<lambda>p. (p, receiving_data (rx s2))) (tran_buf (rx s2)),
                                                     receiving_size (rx s2)) s2))
               else (False, s1))
      else (False, s))"

text \<open>\<^verbatim>\<open>Session::on_sending\<close> accepts every message.\<close>

definition on_sending :: "read_buffer \<Rightarrow> session \<Rightarrow> bool" where
  "on_sending message s = True"

text \<open>\<^verbatim>\<open>_sending_message->Next(&_sending_data, &_sending_size)\<close>: the result is whether there was another chunk.\<close>

definition next_chunk :: "read_buffer \<Rightarrow> session \<Rightarrow> bool \<times> session" where
  "next_chunk message s =
     (case rb_next message of
        (Some (p, off, sz), message') \<Rightarrow>
          (True, s\<lparr>sending_message := Some message', sending_data := Some (p, off), sending_size := sz\<rparr>)
      | (None, message') \<Rightarrow> (False, s\<lparr>sending_message := Some message'\<rparr>))"

text \<open>One turn of the loop of \<^verbatim>\<open>try_start_send\<close> that holds the token: \<open>Some\<close> is a \<^verbatim>\<open>break\<close> with the value of \<^verbatim>\<open>started\<close>.\<close>

definition send_turn :: "session \<Rightarrow> bool option \<times> session" where
  "send_turn s =
     (case get_from_pending_queue s of
        (Some message, s1) \<Rightarrow>
          (let s2 = s1\<lparr>sending_message := Some message\<rparr>
           in if \<not> on_sending message s2
              then (Some False, free_send_token (clear_sending_env
                      (emit (SendFailed ''on_sending() return false'' (Some message)) s2)))
              else (let (q, fc) = acquire_write_quota (i32 (rb_total_bytes message)) (flow_ctl s2);
                        s3 = s2\<lparr>write_quota_token := q, flow_ctl := fc\<rparr>
                    in if q \<le> 0
                       then (Some False, free_send_token (clear_sending_env (insert_into_pending_queue message s3)))
                       else (let s4 = snd (next_chunk message (s3\<lparr>sent_size := 0\<rparr>))
                             in (Some True, async_write_some (sending_data s4, sending_size s4) s4))))
      | (None, s1) \<Rightarrow>
          (let s2 = free_send_token s1
           in (if pend_message_count s2 = 0 then Some False else None, s2)))"

partial_function (option) send_loop :: "session \<Rightarrow> (bool \<times> session) option" where
  "send_loop s =
     (if is_connected s
      then (let (tok, old) = atomic_comp_swap (send_token s) TOKEN_LOCK TOKEN_FREE; s1 = s\<lparr>send_token := tok\<rparr>
            in if old = TOKEN_FREE
               then (case send_turn s1 of
                       (Some started, s2) \<Rightarrow> Some (started, s2)
                     | (None, s2) \<Rightarrow> send_loop s2)
               else Some (False, s1))
      else Some (False, s))"

definition try_start_send :: "session \<Rightarrow> (bool \<times> session) option" where
  "try_start_send s =
     (if send_token s = TOKEN_LOCK then Some (False, s)
      else if write_quota_token s \<le> 0 then Some (False, s)
      else send_loop s)"

definition trigger_receive :: "session \<Rightarrow> bool \<times> session" where
  "trigger_receive s = try_start_receive (s\<lparr>read_quota_token := 1\<rparr>)"

definition trigger_send :: "session \<Rightarrow> (bool \<times> session) option" where
  "trigger_send s = try_start_send (s\<lparr>write_quota_token := 1\<rparr>)"

definition async_send_message :: "read_buffer \<Rightarrow> session \<Rightarrow> session option" where
  "async_send_message message s =
     (if is_closed s then Some (emit (SendFailed ''status is close'' (Some message)) s)
      else map_option snd (try_start_send (emit (Accepted message) (put_into_pending_queue message s))))"

section \<open>Connecting\<close>

text \<open>\<^verbatim>\<open>MessageStream::on_connected\<close> and the overrider of \<^verbatim>\<open>Session\<close>, which drops its result.\<close>

definition ms_on_connected :: "callbacks \<Rightarrow> session \<Rightarrow> (bool \<times> session) option" where
  "ms_on_connected cb s =
     (case reset_tran_buf (read_buffer_base_block_factor s) (reset_receiving_env (rx s)) (heap s) of
        None \<Rightarrow> None
      | Some (ok, rx', m) \<Rightarrow>
          (let s1 = s\<lparr>rx := rx', heap := m\<rparr>
           in Some (if ok then (True, s1) else (False, close_stream cb ''out of memory'' s1))))"

definition on_connected :: "callbacks \<Rightarrow> session \<Rightarrow> (bool \<times> session) option" where
  "on_connected cb s =
     map_option (\<lambda>(_, s1). (True, call_back cb ConnectedCallback s1)) (ms_on_connected cb s)"

text \<open>
  \<^verbatim>\<open>TcpTransport::set_connected_options\<close>: the parameter is whether setting the option and reading the local
  endpoint succeed; a failure closes the stream.
\<close>

definition set_connected_options :: "callbacks \<Rightarrow> bool \<Rightarrow> session \<Rightarrow> bool \<times> session" where
  "set_connected_options cb ok s =
     (if ok then (True, s) else (False, close_stream cb ''set no_delay option failed: '' s))"

definition set_socket_connected :: "callbacks \<Rightarrow> bool \<Rightarrow> session \<Rightarrow> session option" where
  "set_socket_connected cb options_ok s =
     (let s1 = emit TimerCancel (s\<lparr>last_rw_ticks := ticks s\<rparr>); (ok, s2) = set_connected_options cb options_ok s1
      in if \<not> ok then Some s2
         else (case on_connected cb s2 of
                 None \<Rightarrow> None
               | Some (False, s3) \<Rightarrow> Some (close_stream cb ''call on_connected() failed'' s3)
               | Some (True, s3) \<Rightarrow>
                   map_option snd (trigger_send (snd (trigger_receive (s3\<lparr>status := STATUS_CONNECTED\<rparr>))))))"

text \<open>\<^verbatim>\<open>TcpTransport::on_connect\<close>: the completion of the asynchronous connect.\<close>

definition on_connect :: "callbacks \<Rightarrow> bool \<Rightarrow> bool \<Rightarrow> session \<Rightarrow> session option" where
  "on_connect cb failed options_ok s =
     (if \<not> is_connecting s then Some s
      else if failed then Some (close_stream cb ''on_connect(): connect error:'' s)
      else set_socket_connected cb options_ok s)"

section \<open>Completions\<close>

text \<open>The loop that hands the received messages to \<^verbatim>\<open>Session::on_received\<close>.\<close>

fun deliver :: "callbacks \<Rightarrow> received_item list \<Rightarrow> session \<Rightarrow> session" where
  "deliver cb [] s = s"
| "deliver cb (item # items) s =
     (if is_closed s then s else deliver cb items (call_back cb (ReceivedCallback item) s))"

text \<open>A completed read: an error (its message), or the bytes the transport has put at \<^verbatim>\<open>_receiving_data\<close>.\<close>

definition on_read_some :: "callbacks \<Rightarrow> string + byte list \<Rightarrow> session \<Rightarrow> session option" where
  "on_read_some cb result s0 =
     (let s = s0\<lparr>reads := tl (reads s0)\<rparr>
      in if \<not> is_connected s then Some s
         else case result of
           Inl message \<Rightarrow> Some (close_stream cb message s)
         | Inr bs \<Rightarrow>
             (let s1 = s\<lparr>last_rw_ticks := ticks s, total_received_count := total_received_count s + 1,
                         total_received_size := total_received_size s + int (length bs)\<rparr>
              in case receive_bytes (read_buffer_base_block_factor s1) bs (rx s1) (heap s1) of
                   None \<Rightarrow> None
                 | Some (Inl reason, rx', m) \<Rightarrow> Some (close_stream cb reason (s1\<lparr>rx := rx', heap := m\<rparr>))
                 | Some (Inr items, rx', m) \<Rightarrow>
                     Some (deliver cb items
                       (snd (try_start_receive (free_receive_token (s1\<lparr>rx := rx', heap := m\<rparr>)))))))"

text \<open>\<^verbatim>\<open>Session::on_sent\<close> for a message that has been written completely, and what follows it.\<close>

definition message_done :: "callbacks \<Rightarrow> read_buffer \<Rightarrow> session \<Rightarrow> session option" where
  "message_done cb message s =
     (case try_start_send (free_send_token (call_back cb (SentCallback message) s)) of
        None \<Rightarrow> None
      | Some (_, s1) \<Rightarrow> Some (if net_type s1 = NT_SERVER then snd (try_start_receive s1) else s1))"

text \<open>A completed write: an error, or the number of bytes taken.\<close>

definition on_write_some :: "callbacks \<Rightarrow> string + nat \<Rightarrow> session \<Rightarrow> session option" where
  "on_write_some cb result s0 =
     (let s = s0\<lparr>writes := tl (writes s0)\<rparr>
      in if \<not> is_connected s then Some s
         else case result of
           Inl message \<Rightarrow>
             Some (close_stream cb message (clear_sending_env (emit (SendFailed message (sending_message s)) s)))
         | Inr n \<Rightarrow>
             (let s1 = emit (Written (hd (writes s0)) n)
                    (s\<lparr>last_rw_ticks := ticks s, sent_size := sent_size s + int n,
                       total_sent_count := total_sent_count s + 1,
                       total_sent_size := total_sent_size s + int n\<rparr>)
              in if i32 (int n) = sending_size s1
                 then (case sending_message s1 of
                         None \<Rightarrow> None
                       | Some message \<Rightarrow>
                           (case next_chunk message s1 of
                              (True, s2) \<Rightarrow> Some (async_write_some (sending_data s2, sending_size s2) s2)
                            | (False, s2) \<Rightarrow> message_done cb (the (sending_message s2)) s2))
                 else (case sending_data s1 of
                         None \<Rightarrow> None
                       | Some (p, off) \<Rightarrow>
                           (let s2 = s1\<lparr>sending_data := Some (p, off + int n), sending_size := sending_size s1 - int n\<rparr>
                            in Some (async_write_some (sending_data s2, sending_size s2) s2)))))"

section \<open>Session\<close>

definition ShutDown :: "callbacks \<Rightarrow> session \<Rightarrow> session" where
  "ShutDown cb s = close_stream cb ''shutdonw'' (emit HeartbeatCancel (s\<lparr>start_heartbeat := False\<rparr>))"

definition ScheduleHeartbeatWait :: "session \<Rightarrow> session" where
  "ScheduleHeartbeatWait s =
     (if start_heartbeat s then emit (HeartbeatTimer (heartbeat_duration s)) s else s)"

definition StartHeartbeat :: "int \<Rightarrow> session \<Rightarrow> session" where
  "StartHeartbeat d s =
     ScheduleHeartbeatWait ((emit HeartbeatCancel (s\<lparr>heartbeat_duration := d\<rparr>))\<lparr>start_heartbeat := True\<rparr>)"

text \<open>\<^verbatim>\<open>~MessageStream\<close>.\<close>

definition destroy_stream :: "session \<Rightarrow> mem option" where
  "destroy_stream s = (case tran_buf (rx s) of None \<Rightarrow> Some (heap s) | Some p \<Rightarrow> tb_free p (heap s))"

end
