(* ===== verification/Stream_Safety.thy ===== *)
theory Stream_Safety
  imports Message_Stream
begin

text \<open>
  What a connection keeps: the counters of the pending queues, at most one asynchronous read and one
  write in flight, and that the bytes given to the transport are those of the accepted messages, in order. A byte
  is named by its block and offset, so that the statement does not depend on the memory.
\<close>

section \<open>Addresses of a message\<close>

type_synonym addr = "nat \<times> int"

definition span :: "nat \<Rightarrow> int \<Rightarrow> int \<Rightarrow> addr list" where
  "span p off n = map (\<lambda>i. (p, off + int i)) [0..<nat n]"

definition haddrs :: "buffer_handle \<Rightarrow> addr list" where
  "haddrs h = span (hdata h) (hpos h) (hsize h)"

definition rb_addrs :: "read_buffer \<Rightarrow> addr list" where
  "rb_addrs rb = concat (map haddrs (rbufs rb))"

text \<open>What is left after the chunks that \<^verbatim>\<open>Next\<close> has given out.\<close>

definition rb_left :: "read_buffer \<Rightarrow> addr list" where
  "rb_left rb = concat (map haddrs (drop (rb_cur_it rb) (rbufs rb)))"

definition rb_ok :: "read_buffer \<Rightarrow> bool" where
  "rb_ok rb \<longleftrightarrow> (\<forall>h \<in> set (rbufs rb). 0 < hsize h \<and> hsize h < 2 ^ 31) \<and> rb_cur_pos rb = 0"

definition fresh_msg :: "read_buffer \<Rightarrow> bool" where
  "fresh_msg rb \<longleftrightarrow> rb_ok rb \<and> rb_cur_it rb = 0 \<and> rbufs rb \<noteq> []"

lemma length_span [simp]: "length (span p off n) = nat n"
  by (simp add: span_def)

lemma span_split: "0 \<le> k \<Longrightarrow> k \<le> n \<Longrightarrow> span p off n = span p off k @ span p (off + k) (n - k)"
proof -
  assume k: "0 \<le> k" "k \<le> n"
  then have "nat n = nat k + nat (n - k)" by simp
  then have "[0..<nat n] = [0..<nat k] @ map (\<lambda>i. i + nat k) [0..<nat (n - k)]"
    by (metis add.left_neutral le_add2 map_add_upt upt_add_eq_append add.commute)
  with k show ?thesis by (simp add: span_def algebra_simps)
qed

lemma rb_next_addrs:
  assumes "rb_ok rb"
  shows "(case rb_next rb of
            (None, rb') \<Rightarrow> rb_left rb = [] \<and> rb_ok rb'
          | (Some (p, off, sz), rb') \<Rightarrow> rb_left rb = span p off sz @ rb_left rb' \<and> rb_ok rb' \<and> 0 < sz \<and> sz < 2 ^ 31)"
  using assms
  by (auto simp: rb_next_def rb_left_def rb_ok_def Let_def haddrs_def Cons_nth_drop_Suc [symmetric])

lemma fresh_msg_next:
  assumes "fresh_msg rb"
  shows "\<exists>p off sz rb'. rb_next rb = (Some (p, off, sz), rb') \<and> rb_addrs rb = span p off sz @ rb_left rb' \<and>
     rb_ok rb' \<and> 0 < sz \<and> sz < 2 ^ 31"
proof -
  have "rb_cur_it rb < length (rbufs rb)" "rb_left rb = rb_addrs rb" "rb_ok rb"
    using assms by (auto simp: fresh_msg_def rb_left_def rb_addrs_def)
  with rb_next_addrs [of rb] show ?thesis by (auto simp: rb_next_def Let_def)
qed

section \<open>The invariant\<close>

definition queue_ok :: "read_buffer list \<Rightarrow> int \<Rightarrow> int \<Rightarrow> int \<Rightarrow> bool" where
  "queue_ok q n data buffer \<longleftrightarrow>
     (\<forall>rb \<in> set q. fresh_msg rb) \<and> n = int (length q) \<and> data = sum_list (map rb_total_bytes q) \<and>
     buffer = sum_list (map rb_total_block_size q)"

fun accepted :: "event list \<Rightarrow> addr list" where
  "accepted [] = []"
| "accepted (Accepted rb # es) = rb_addrs rb @ accepted es"
| "accepted (_ # es) = accepted es"

fun wire :: "event list \<Rightarrow> addr list" where
  "wire [] = []"
| "wire (Written (Some (p, off), sz) n # es) = span p off (int n) @ wire es"
| "wire (_ # es) = wire es"

definition in_flight :: "io_range list \<Rightarrow> read_buffer option \<Rightarrow> addr list" where
  "in_flight ws sm =
     (case (ws, sm) of ((Some (p, off), sz) # _, Some rb) \<Rightarrow> span p off sz @ rb_left rb | _ \<Rightarrow> [])"

definition outstanding :: "session \<Rightarrow> addr list" where
  "outstanding s = in_flight (writes s) (sending_message s) @ concat (map rb_addrs (swapped_calls s)) @
     concat (map rb_addrs (pending_calls s))"

definition write_ok :: "session \<Rightarrow> bool" where
  "write_ok s \<longleftrightarrow> writes s = [] \<or>
     (\<exists>p off rb. writes s = [(Some (p, off), sending_size s)] \<and> sending_data s = Some (p, off) \<and>
        sending_message s = Some rb \<and> rb_ok rb \<and> 0 < sending_size s \<and> sending_size s < 2 ^ 31 \<and>
        send_token s = TOKEN_LOCK \<and> (status s = STATUS_CONNECTED \<or> status s = STATUS_CLOSED))"

definition read_ok :: "session \<Rightarrow> bool" where
  "read_ok s \<longleftrightarrow> length (reads s) \<le> 1 \<and> (reads s \<noteq> [] \<longrightarrow> receive_token s = TOKEN_LOCK)"

definition never_closed :: "session \<Rightarrow> bool" where
  "never_closed s \<longleftrightarrow> TransportClose \<notin> set (events s)"

definition sess_inv :: "session \<Rightarrow> bool" where
  "sess_inv s \<longleftrightarrow>
     queue_ok (pending_calls s) (pend_message_count s) (pend_data_size s) (pend_buffer_size s) \<and>
     queue_ok (swapped_calls s) (swapped_message_count s) (swapped_data_size s) (swapped_buffer_size s) \<and>
     write_ok s \<and> read_ok s \<and> (never_closed s \<longrightarrow> status s \<noteq> STATUS_CLOSED) \<and>
     (never_closed s \<longrightarrow> accepted (events s) = wire (events s) @ outstanding s)"

lemma accepted_append [simp]: "accepted (xs @ ys) = accepted xs @ accepted ys"
  by (induction xs rule: accepted.induct) simp_all

lemma wire_append [simp]: "wire (xs @ ys) = wire xs @ wire ys"
  by (induction xs rule: wire.induct) simp_all

lemma sess_inv_new: "sess_inv (Session nt m)"
  by (simp add: sess_inv_def Session_def queue_ok_def write_ok_def read_ok_def never_closed_def outstanding_def
      in_flight_def)

text \<open>Events that say nothing about the transfers.\<close>

definition quiet :: "event \<Rightarrow> bool" where
  "quiet e \<longleftrightarrow> (case e of Accepted _ \<Rightarrow> False | Written _ _ \<Rightarrow> False | _ \<Rightarrow> True)"

lemma quiet_log: "quiet e \<Longrightarrow> accepted [e] = []" "quiet e \<Longrightarrow> wire [e] = []"
  by (cases e; simp add: quiet_def)+

text \<open>
  Most of a session does not matter to the invariant: it depends on the queues, the transfers, the tokens, the
  status and the log.
\<close>

definition same_core :: "session \<Rightarrow> session \<Rightarrow> bool" where
  "same_core s t \<longleftrightarrow>
     pending_calls t = pending_calls s \<and> pend_message_count t = pend_message_count s \<and>
     pend_data_size t = pend_data_size s \<and> pend_buffer_size t = pend_buffer_size s \<and>
     swapped_calls t = swapped_calls s \<and> swapped_message_count t = swapped_message_count s \<and>
     swapped_data_size t = swapped_data_size s \<and> swapped_buffer_size t = swapped_buffer_size s \<and>
     writes t = writes s \<and> sending_data t = sending_data s \<and> sending_size t = sending_size s \<and>
     sending_message t = sending_message s \<and> send_token t = send_token s \<and> reads t = reads s \<and>
     receive_token t = receive_token s \<and> status t = status s \<and> events t = events s"

lemma sess_inv_core: "same_core s t \<Longrightarrow> sess_inv t = sess_inv s"
  by (simp add: same_core_def sess_inv_def write_ok_def read_ok_def never_closed_def outstanding_def)

lemma emit_inv: "quiet e \<Longrightarrow> sess_inv s \<Longrightarrow> sess_inv (emit e s)"
  by (cases "e = TransportClose")
    (auto simp: sess_inv_def emit_def write_ok_def read_ok_def never_closed_def outstanding_def quiet_log)

section \<open>Callbacks\<close>

text \<open>At rest, that is between two handlers, the send token is held only while a write is in flight.\<close>

definition rest_ok :: "session \<Rightarrow> bool" where
  "rest_ok s \<longleftrightarrow> (never_closed s \<and> send_token s = TOKEN_LOCK \<longrightarrow> writes s \<noteq> [])"

text \<open>
  What the application may do to a session: keep the invariant, leave a transfer it does not own alone and not
  rewrite history. The public operations do so.
\<close>

definition callbacks_ok :: "callbacks \<Rightarrow> bool" where
  "callbacks_ok cb \<longleftrightarrow> (\<forall>e s. sess_inv s \<longrightarrow> sess_inv (cb e s) \<and>
     (send_token s = TOKEN_LOCK \<longrightarrow> send_token (cb e s) = TOKEN_LOCK \<and> writes (cb e s) = writes s) \<and>
     (rest_ok s \<longrightarrow> rest_ok (cb e s)) \<and> (never_closed (cb e s) \<longrightarrow> never_closed s))"

lemma call_back_inv:
  assumes "callbacks_ok cb" and "quiet e" and "sess_inv s"
  shows "sess_inv (call_back cb e s)"
  using assms emit_inv [OF assms(2,3)] by (simp add: call_back_def callbacks_ok_def)

lemma never_closed_emit [simp]: "never_closed (emit e s) \<longleftrightarrow> never_closed s \<and> e \<noteq> TransportClose"
  by (auto simp: never_closed_def emit_def)

lemma rest_ok_emit: "rest_ok s \<Longrightarrow> rest_ok (emit e s)"
  by (simp add: rest_ok_def) (simp add: emit_def)

lemma call_back_rest:
  assumes "callbacks_ok cb" and "quiet e" and "sess_inv s" and "rest_ok s"
  shows "rest_ok (call_back cb e s)"
  using assms(1) emit_inv [OF assms(2,3)] rest_ok_emit [OF assms(4)] by (simp add: call_back_def callbacks_ok_def)

lemma call_back_never_closed:
  assumes "callbacks_ok cb" and "quiet e" and "sess_inv s" and "never_closed (call_back cb e s)"
  shows "never_closed s"
proof -
  have "never_closed (emit e s)"
    using assms emit_inv [OF assms(2,3)] by (simp add: call_back_def callbacks_ok_def del: never_closed_emit)
  then show ?thesis by simp
qed

lemma call_back_send_lock:
  assumes "callbacks_ok cb" and "quiet e" and "sess_inv s" and "send_token s = TOKEN_LOCK"
  shows "send_token (call_back cb e s) = TOKEN_LOCK \<and> writes (call_back cb e s) = writes s"
proof -
  have "send_token (emit e s) = TOKEN_LOCK" "writes (emit e s) = writes s" using assms(4) by (simp_all add: emit_def)
  with assms(1) emit_inv [OF assms(2,3)] show ?thesis by (simp add: call_back_def callbacks_ok_def)
qed

lemma callbacks_ok_id: "callbacks_ok (\<lambda>_ s. s)"
  by (simp add: callbacks_ok_def)

section \<open>Closing\<close>

lemma quiet_simps [simp]:
  "quiet TransportConnect" "quiet TransportClose" "quiet (ConnectTimer d)" "quiet TimerCancel" "quiet (HeartbeatTimer d)"
  "quiet HeartbeatCancel" "quiet ConnectedCallback" "quiet ClosedCallback" "quiet (SentCallback rb)"
  "quiet (SendFailed r sm)" "quiet (ReceivedCallback i)"
  by (simp_all add: quiet_def)

text \<open>Closing needs only what does not speak of the bytes under way, which it gives up.\<close>

definition core_inv :: "session \<Rightarrow> bool" where
  "core_inv s \<longleftrightarrow>
     queue_ok (pending_calls s) (pend_message_count s) (pend_data_size s) (pend_buffer_size s) \<and>
     queue_ok (swapped_calls s) (swapped_message_count s) (swapped_data_size s) (swapped_buffer_size s) \<and>
     write_ok s \<and> read_ok s \<and> (never_closed s \<longrightarrow> status s \<noteq> STATUS_CLOSED)"

lemma sess_inv_iff: "sess_inv s \<longleftrightarrow> core_inv s \<and> (never_closed s \<longrightarrow> accepted (events s) = wire (events s) @ outstanding s)"
  by (auto simp: sess_inv_def core_inv_def)

lemma close_stream_core:
  assumes "callbacks_ok cb" and "core_inv s"
  shows "sess_inv (close_stream cb reason s) \<and> \<not> never_closed (close_stream cb reason s)"
proof (cases "status s = STATUS_CLOSED")
  case True
  then have c: "\<not> never_closed s" using assms(2) by (auto simp: core_inv_def)
  then have "sess_inv s" using assms(2) by (simp add: sess_inv_iff)
  with True c show ?thesis using sess_inv_core [of s "s\<lparr>status := STATUS_CLOSED\<rparr>"]
    by (simp add: close_stream_def atomic_swap_def same_core_def never_closed_def)
next
  case False
  let ?s = "emit HeartbeatCancel ((emit TransportClose (s\<lparr>status := STATUS_CLOSED\<rparr>))\<lparr>start_heartbeat := False\<rparr>)"
  have c: "\<not> never_closed ?s" by (simp add: never_closed_def emit_def)
  moreover have i: "sess_inv ?s"
    using assms(2) by (auto simp: sess_inv_def core_inv_def emit_def write_ok_def read_ok_def never_closed_def)
  ultimately have "sess_inv (call_back cb ClosedCallback ?s) \<and> \<not> never_closed (call_back cb ClosedCallback ?s)"
    using call_back_inv [OF assms(1)] call_back_never_closed [OF assms(1) _ i, of ClosedCallback] by auto
  then show ?thesis using False by (simp add: close_stream_def atomic_swap_def on_closed_def)
qed

lemma close_stream_inv:
  "callbacks_ok cb \<Longrightarrow> sess_inv s \<Longrightarrow> sess_inv (close_stream cb reason s) \<and> \<not> never_closed (close_stream cb reason s)"
  using close_stream_core [of cb s reason] by (simp add: sess_inv_iff [of s])

lemma on_connect_timeout_inv:
  "callbacks_ok cb \<Longrightarrow> sess_inv s \<Longrightarrow> sess_inv (on_connect_timeout cb aborted s)"
  by (simp add: on_connect_timeout_def close_stream_inv)

lemma async_connect_inv:
  assumes "sess_inv s" and "status s = STATUS_INIT"
  shows "sess_inv (async_connect s)"
proof -
  have "writes s = []" using assms by (auto simp: sess_inv_def write_ok_def)
  then have "sess_inv (s\<lparr>last_rw_ticks := ticks s, status := STATUS_CONNECTING\<rparr>)"
    using assms by (simp add: sess_inv_def write_ok_def read_ok_def never_closed_def outstanding_def)
  then show ?thesis by (simp add: async_connect_def Let_def emit_inv)
qed

section \<open>The queue\<close>

lemma queue_ok_snoc: "queue_ok q n d b \<Longrightarrow> fresh_msg rb \<Longrightarrow>
    queue_ok (q @ [rb]) (n + 1) (d + rb_total_bytes rb) (b + rb_total_block_size rb)"
  by (auto simp: queue_ok_def)

lemma queue_ok_cons: "queue_ok q n d b \<Longrightarrow> fresh_msg rb \<Longrightarrow>
    queue_ok (rb # q) (n + 1) (d + rb_total_bytes rb) (b + rb_total_block_size rb)"
  by (auto simp: queue_ok_def)

lemma queue_ok_tl: "queue_ok (rb # q) n d b \<Longrightarrow>
    fresh_msg rb \<and> queue_ok q (n - 1) (d - rb_total_bytes rb) (b - rb_total_block_size rb)"
  by (auto simp: queue_ok_def)

lemma queue_ok_Nil [simp]: "queue_ok [] n d b \<longleftrightarrow> n = 0 \<and> d = 0 \<and> b = 0"
  by (simp add: queue_ok_def)

lemma queue_ok_empty: "queue_ok q n d b \<Longrightarrow> 0 < n \<longleftrightarrow> q \<noteq> []"
  by (auto simp: queue_ok_def)

lemma put_inv:
  assumes "sess_inv s" and "fresh_msg rb"
  shows "sess_inv (emit (Accepted rb) (put_into_pending_queue rb s))"
  using assms queue_ok_snoc [of "pending_calls s" _ _ _ rb]
  by (simp add: sess_inv_def put_into_pending_queue_def emit_def write_ok_def read_ok_def never_closed_def outstanding_def)

lemma swap_pending_eq:
  assumes "sess_inv s"
  shows "sess_inv (swap_pending s)" and "outstanding (swap_pending s) = outstanding s"
    and "swapped_calls (swap_pending s) = [] \<Longrightarrow> pend_message_count (swap_pending s) = 0"
proof -
  have q: "queue_ok (pending_calls s) (pend_message_count s) (pend_data_size s) (pend_buffer_size s)"
    using assms by (simp add: sess_inv_def)
  show "sess_inv (swap_pending s)" "outstanding (swap_pending s) = outstanding s"
    using assms by (auto simp: swap_pending_def sess_inv_def write_ok_def read_ok_def never_closed_def outstanding_def)
  show "swapped_calls (swap_pending s) = [] \<Longrightarrow> pend_message_count (swap_pending s) = 0"
    using q by (auto simp: swap_pending_def queue_ok_def split: if_splits)
qed

text \<open>Taking a message out, while nothing is in flight.\<close>

lemma get_inv:
  assumes "sess_inv s" and "writes s = []"
  shows "case get_from_pending_queue s of
      (None, s1) \<Rightarrow> sess_inv s1 \<and> pend_message_count s1 = 0
    | (Some rb, s1) \<Rightarrow> fresh_msg rb \<and> sess_inv (insert_into_pending_queue rb s1)"
proof (cases "swapped_calls (swap_pending s)")
  case Nil
  then show ?thesis using swap_pending_eq [OF assms(1)] by (simp add: get_from_pending_queue_def Let_def)
next
  case (Cons rb rest)
  let ?s = "swap_pending s"
  have inv: "sess_inv ?s" by (rule swap_pending_eq [OF assms(1)])
  then have "fresh_msg rb" using queue_ok_tl Cons by (auto simp: sess_inv_def)
  moreover have "sess_inv (insert_into_pending_queue rb (?s\<lparr>swapped_calls := rest,
      swapped_message_count := swapped_message_count ?s - 1,
      swapped_data_size := swapped_data_size ?s - rb_total_bytes rb,
      swapped_buffer_size := swapped_buffer_size ?s - rb_total_block_size rb\<rparr>))"
    using inv Cons
    by (simp add: insert_into_pending_queue_def sess_inv_def write_ok_def read_ok_def never_closed_def outstanding_def)
  ultimately show ?thesis using Cons by (simp add: get_from_pending_queue_def Let_def)
qed

lemma get_frame:
  "get_from_pending_queue s = (r, s1) \<Longrightarrow> writes s1 = writes s \<and> send_token s1 = send_token s \<and> status s1 = status s \<and>
     reads s1 = reads s \<and> receive_token s1 = receive_token s \<and> events s1 = events s \<and> flow_ctl s1 = flow_ctl s \<and> net_type s1 = net_type s"
  by (auto simp: get_from_pending_queue_def swap_pending_def Let_def split: list.splits if_splits)

section \<open>Starting a send\<close>

lemma free_send_token_inv: "sess_inv s \<Longrightarrow> writes s = [] \<Longrightarrow> sess_inv (free_send_token s)"
  by (simp add: free_send_token_def sess_inv_def write_ok_def read_ok_def never_closed_def outstanding_def)

lemma clear_sending_inv: "sess_inv s \<Longrightarrow> writes s = [] \<Longrightarrow> sess_inv (clear_sending_env s)"
  by (simp add: clear_sending_env_def sess_inv_def write_ok_def read_ok_def never_closed_def outstanding_def in_flight_def)

lemma start_write_inv:
  assumes "sess_inv (insert_into_pending_queue rb s)" and "fresh_msg rb" and "writes s = []"
    and "send_token s = TOKEN_LOCK" and "status s = STATUS_CONNECTED"
  shows "let s4 = snd (next_chunk rb s) in sess_inv (async_write_some (sending_data s4, sending_size s4) s4)"
proof -
  obtain p off sz rb' where nx: "rb_next rb = (Some (p, off, sz), rb')" "rb_addrs rb = span p off sz @ rb_left rb'"
    "rb_ok rb'" "0 < sz" "sz < 2 ^ 31"
    using fresh_msg_next [OF assms(2)] by blast
  have q: "queue_ok (rb # swapped_calls s) (swapped_message_count s + 1) (swapped_data_size s + rb_total_bytes rb)
      (swapped_buffer_size s + rb_total_block_size rb)"
    using assms(1) by (simp add: sess_inv_def insert_into_pending_queue_def)
  then have "queue_ok (swapped_calls s) (swapped_message_count s) (swapped_data_size s) (swapped_buffer_size s)"
    using queue_ok_tl [OF q] by simp
  with assms nx show ?thesis
    by (simp add: next_chunk_def Let_def async_write_some_def insert_into_pending_queue_def sess_inv_def write_ok_def
        read_ok_def never_closed_def outstanding_def in_flight_def)
qed

text \<open>What starting a send leaves alone.\<close>

definition send_frame :: "session \<Rightarrow> session \<Rightarrow> bool" where
  "send_frame s s' \<longleftrightarrow> reads s' = reads s \<and> receive_token s' = receive_token s \<and> events s' = events s \<and>
     status s' = status s \<and> net_type s' = net_type s"

text \<open>A turn that holds the token always ends the loop, and leaves the token free or one write in flight.\<close>

lemma send_turn_ok:
  assumes inv: "sess_inv s" and w: "writes s = []" and tok: "send_token s = TOKEN_LOCK" and st: "status s = STATUS_CONNECTED"
  shows "\<exists>b s'. send_turn s = (Some b, s') \<and> sess_inv s' \<and> (send_token s' = TOKEN_LOCK \<longleftrightarrow> writes s' \<noteq> []) \<and>
     send_frame s s'"
proof -
  obtain r s1 where g: "get_from_pending_queue s = (r, s1)" by fastforce
  note gf = get_frame [OF g]
  show ?thesis
  proof (cases r)
    case None
    then have "sess_inv s1" "pend_message_count s1 = 0" using get_inv [OF inv w] g by auto
    with gf w tok None g show ?thesis
      using free_send_token_inv [of s1]
      by (intro exI [of _ False]) (simp add: send_turn_def Let_def free_send_token_def comp_swap_cell send_frame_def)
  next
    case (Some rb)
    then have f: "fresh_msg rb" "sess_inv (insert_into_pending_queue rb s1)" using get_inv [OF inv w] g by auto
    obtain q fc where a: "acquire_write_quota (i32 (rb_total_bytes rb)) (flow_ctl s1) = (q, fc)" by fastforce
    let ?s3 = "s1\<lparr>sending_message := Some rb, write_quota_token := q, flow_ctl := fc\<rparr>"
    have ins: "sess_inv (insert_into_pending_queue rb ?s3)" "sess_inv (insert_into_pending_queue rb (?s3\<lparr>sent_size := 0\<rparr>))"
      using f(2) gf w by (simp_all add: insert_into_pending_queue_def sess_inv_def write_ok_def read_ok_def never_closed_def
          outstanding_def in_flight_def)
    show ?thesis
    proof (cases "q \<le> 0")
      case True
      have "sess_inv (free_send_token (clear_sending_env (insert_into_pending_queue rb ?s3)))"
        using ins(1) gf w
        by (intro free_send_token_inv clear_sending_inv) (simp_all add: insert_into_pending_queue_def clear_sending_env_def)
      with True a g Some gf w tok show ?thesis
        by (intro exI [of _ False]) (simp add: send_turn_def on_sending_def Let_def free_send_token_def clear_sending_env_def
            insert_into_pending_queue_def comp_swap_cell send_frame_def)
    next
      case False
      have "let s4 = snd (next_chunk rb (?s3\<lparr>sent_size := 0\<rparr>))
          in sess_inv (async_write_some (sending_data s4, sending_size s4) s4)"
        by (rule start_write_inv [OF ins(2) f(1)]) (use gf w tok st in simp_all)
      moreover have "\<exists>p off sz rb'. rb_next rb = (Some (p, off, sz), rb')" using fresh_msg_next [OF f(1)] by blast
      ultimately show ?thesis using False a g Some gf w tok
        by (auto simp: send_turn_def on_sending_def Let_def next_chunk_def async_write_some_def send_frame_def)
    qed
  qed
qed

lemma try_start_send_ok:
  assumes inv: "sess_inv s"
  shows "\<exists>b s'. try_start_send s = Some (b, s') \<and> sess_inv s' \<and>
     (send_token s = TOKEN_LOCK \<longrightarrow> s' = s) \<and> (send_token s = TOKEN_FREE \<longrightarrow> (send_token s' = TOKEN_LOCK \<longleftrightarrow> writes s' \<noteq> [])) \<and>
     send_frame s s'"
proof -
  have rest: "send_token s = TOKEN_FREE \<longrightarrow> writes s = []" using inv by (auto simp: sess_inv_def write_ok_def)
  show ?thesis
proof (cases "send_token s = TOKEN_LOCK \<or> write_quota_token s \<le> 0 \<or> \<not> is_connected s")
  case True
  then show ?thesis using inv rest
    by (cases "send_token s") (auto simp: try_start_send_def send_loop.simps send_frame_def)
next
  case False
  then have t: "send_token s = TOKEN_FREE" "status s = STATUS_CONNECTED" "writes s = []"
    using rest by (cases "send_token s"; simp add: is_connected_def)+
  let ?s = "s\<lparr>send_token := TOKEN_LOCK\<rparr>"
  have "sess_inv ?s" using inv t(3)
    by (simp add: sess_inv_def write_ok_def read_ok_def never_closed_def outstanding_def)
  from send_turn_ok [OF this] t obtain b s' where "send_turn ?s = (Some b, s')" "sess_inv s'"
    "send_token s' = TOKEN_LOCK \<longleftrightarrow> writes s' \<noteq> []" "send_frame s s'"
    by (auto simp: send_frame_def)
  with False t show ?thesis
    by (simp add: try_start_send_def send_loop.simps [of s] atomic_comp_swap_def)
qed
qed

end
