(* ===== verification/Stream_Run.thy ===== *)
theory Stream_Run
  imports Stream_Safety
begin

text \<open>
  Runs of a connection: its handlers called in any order by the transport, the timers and the application. The
  theorems: at most one read and one write in flight, the pending counters are right, and what the transport
  has taken is a prefix of what was accepted.
\<close>

section \<open>Receiving\<close>

lemma try_start_receive_ok:
  assumes "sess_inv s"
  shows "\<exists>b s'. try_start_receive s = (b, s') \<and> sess_inv s' \<and> send_token s' = send_token s \<and> writes s' = writes s \<and>
     events s' = events s \<and> status s' = status s"
proof (cases "receive_token s = TOKEN_LOCK")
  case True
  then show ?thesis using assms by (intro exI [of _ False] exI [of _ s]) (simp add: try_start_receive_def)
next
  case False
  then have t: "receive_token s = TOKEN_FREE" by (cases "receive_token s") auto
  obtain q fc where a: "acquire_read_quota (i32 (receiving_size (rx s))) (flow_ctl s) = (q, fc)" by fastforce
  have "reads s = []" using assms t by (auto simp: sess_inv_def read_ok_def)
  with assms t a show ?thesis
    by (auto simp: try_start_receive_def Let_def atomic_comp_swap_def free_receive_token_def async_read_some_def
        sess_inv_def write_ok_def read_ok_def never_closed_def outstanding_def)
qed

lemma rest_ok_cong:
  "rest_ok s \<Longrightarrow> send_token s' = send_token s \<Longrightarrow> writes s' = writes s \<Longrightarrow> events s' = events s \<Longrightarrow> rest_ok s'"
  by (simp add: rest_ok_def never_closed_def)

lemma deliver_ok:
  assumes "callbacks_ok cb"
  shows "sess_inv s \<Longrightarrow> rest_ok s \<Longrightarrow> sess_inv (deliver cb items s) \<and> rest_ok (deliver cb items s)"
  by (induction items arbitrary: s) (auto simp: call_back_inv [OF assms] call_back_rest [OF assms])

lemma close_stream_rest:
  "callbacks_ok cb \<Longrightarrow> sess_inv s \<Longrightarrow> sess_inv (close_stream cb reason s) \<and> rest_ok (close_stream cb reason s)"
  using close_stream_inv [of cb s reason] by (simp add: rest_ok_def)

lemma on_read_some_ok:
  assumes cb: "callbacks_ok cb" and inv: "sess_inv s" "rest_ok s" and r: "on_read_some cb result s = Some s'"
  shows "sess_inv s' \<and> rest_ok s'"
proof -
  let ?s = "s\<lparr>reads := tl (reads s)\<rparr>"
  have i: "sess_inv ?s" "rest_ok ?s"
    using inv by (auto simp: sess_inv_def write_ok_def read_ok_def never_closed_def outstanding_def rest_ok_def)
  show ?thesis
  proof (cases "is_connected ?s")
    case False
    then show ?thesis using i r by (simp add: on_read_some_def)
  next
    case True
    show ?thesis
    proof (cases result)
      case (Inl msg)
      then show ?thesis using True r close_stream_rest [OF cb i(1)] by (auto simp: on_read_some_def)
    next
      case (Inr bs)
      let ?t = "?s\<lparr>last_rw_ticks := ticks s, total_received_count := total_received_count s + 1,
        total_received_size := total_received_size s + int (length bs)\<rparr>"
      have core: "same_core ?s (?t\<lparr>rx := r, heap := m\<rparr>)" for r m by (simp add: same_core_def)
      from r True Inr obtain res rx' m where
        rb: "receive_bytes (read_buffer_base_block_factor s) bs (rx s) (heap s) = Some (res, rx', m)"
        "case res of Inl reason \<Rightarrow> s' = close_stream cb reason (?t\<lparr>rx := rx', heap := m\<rparr>)
          | Inr items \<Rightarrow> s' = deliver cb items (snd (try_start_receive (free_receive_token (?t\<lparr>rx := rx', heap := m\<rparr>))))"
        by (auto simp: on_read_some_def Let_def split: option.splits sum.splits)
      let ?u = "?t\<lparr>rx := rx', heap := m\<rparr>"
      have u: "sess_inv ?u" using sess_inv_core [OF core] i(1) by blast
      show ?thesis
      proof (cases res)
        case (Inl reason)
        then show ?thesis using rb(2) close_stream_rest [OF cb u] by simp
      next
        case (Inr items)
        have "tl (reads s) = []" using inv(1) by (cases "reads s") (auto simp: sess_inv_def read_ok_def)
        then have fr: "sess_inv (free_receive_token ?u)"
          using u by (auto simp: sess_inv_def free_receive_token_def write_ok_def read_ok_def never_closed_def outstanding_def)
        obtain b v where v: "try_start_receive (free_receive_token ?u) = (b, v)" "sess_inv v"
          "send_token v = send_token (free_receive_token ?u)" "writes v = writes (free_receive_token ?u)"
          "events v = events (free_receive_token ?u)"
          using try_start_receive_ok [OF fr] by blast
        have "rest_ok v" by (rule rest_ok_cong [OF i(2)]) (use v(3-5) in \<open>simp_all add: free_receive_token_def\<close>)
        with v(1,2) rb(2) Inr deliver_ok [OF cb] show ?thesis by simp
      qed
    qed
  qed
qed

section \<open>Sending\<close>

lemma try_start_send_rest:
  assumes "sess_inv s" and "rest_ok s"
  shows "\<exists>b s'. try_start_send s = Some (b, s') \<and> sess_inv s' \<and> rest_ok s' \<and> send_frame s s'"
  using try_start_send_ok [OF assms(1)] assms(2)
  by (cases "send_token s") (auto simp: rest_ok_def never_closed_def send_frame_def)

lemma async_send_message_ok:
  assumes "sess_inv s" and "rest_ok s" and "fresh_msg rb"
  shows "\<exists>s'. async_send_message rb s = Some s' \<and> sess_inv s' \<and> rest_ok s'"
proof (cases "is_closed s")
  case True
  then show ?thesis using assms emit_inv [of "SendFailed ''status is close'' (Some rb)" s] rest_ok_emit [OF assms(2)]
    by (simp add: async_send_message_def)
next
  case False
  have "rest_ok (emit (Accepted rb) (put_into_pending_queue rb s))"
    using assms(2) by (simp add: rest_ok_def emit_def never_closed_def put_into_pending_queue_def)
  from try_start_send_rest [OF put_inv [OF assms(1,3)] this] False show ?thesis
    by (auto simp: async_send_message_def)
qed

lemma message_done_ok:
  assumes cb: "callbacks_ok cb" and inv: "sess_inv s" and w: "writes s = []" and tok: "send_token s = TOKEN_LOCK"
  shows "\<exists>s'. message_done cb message s = Some s' \<and> sess_inv s' \<and> rest_ok s'"
proof -
  let ?s = "call_back cb (SentCallback message) s"
  have i: "sess_inv ?s" "send_token ?s = TOKEN_LOCK" "writes ?s = []"
    using call_back_inv [OF cb _ inv] call_back_send_lock [OF cb _ inv tok] w by auto
  have f: "sess_inv (free_send_token ?s)" by (rule free_send_token_inv [OF i(1,3)])
  have "rest_ok (free_send_token ?s)" using i(2) by (simp add: rest_ok_def free_send_token_def comp_swap_cell)
  from try_start_send_rest [OF f this] obtain b s1 where
    s1: "try_start_send (free_send_token ?s) = Some (b, s1)" "sess_inv s1" "rest_ok s1" by blast
  obtain b2 s2 where "try_start_receive s1 = (b2, s2)" "sess_inv s2" "send_token s2 = send_token s1" "writes s2 = writes s1"
    "events s2 = events s1"
    using try_start_receive_ok [OF s1(2)] by blast
  with s1 rest_ok_cong [OF s1(3), of s2] show ?thesis by (simp add: message_done_def)
qed

text \<open>A completed write: the transport has taken at most what it was given.\<close>

lemma on_write_some_ok:
  assumes cb: "callbacks_ok cb" and inv: "sess_inv s" "rest_ok s" and w: "writes s \<noteq> []"
    and n: "case result of Inl _ \<Rightarrow> True | Inr n \<Rightarrow> int n \<le> snd (hd (writes s))"
  shows "\<exists>s'. on_write_some cb result s = Some s' \<and> sess_inv s' \<and> rest_ok s'"
proof -
  let ?s = "s\<lparr>writes := tl (writes s)\<rparr>"
  obtain p off rb where io: "writes s = [(Some (p, off), sending_size s)]" "sending_data s = Some (p, off)"
    "sending_message s = Some rb" "rb_ok rb" "0 < sending_size s" "sending_size s < 2 ^ 31" "send_token s = TOKEN_LOCK"
    using inv(1) w by (auto simp: sess_inv_def write_ok_def)
  show ?thesis
  proof (cases "is_connected ?s")
    case False
    then have "\<not> never_closed s"
      using inv(1) io by (auto simp: sess_inv_def write_ok_def is_connected_def)
    then have "sess_inv ?s \<and> rest_ok ?s"
      using inv(1) io(1) by (auto simp: sess_inv_def write_ok_def read_ok_def never_closed_def rest_ok_def)
    with False show ?thesis by (simp add: on_write_some_def)
  next
    case True
    then have st: "status s = STATUS_CONNECTED" by (simp add: is_connected_def)
    show ?thesis
    proof (cases result)
      case (Inl msg)
      let ?t = "clear_sending_env (emit (SendFailed msg (sending_message s)) ?s)"
      have "on_write_some cb result s = Some (close_stream cb msg ?t)"
        using True Inl by (simp add: on_write_some_def Let_def is_connected_def emit_def)
      moreover have "sess_inv (close_stream cb msg ?t) \<and> rest_ok (close_stream cb msg ?t)"
      proof -
        have "core_inv ?t" using inv(1) io(1) st
          by (simp add: sess_inv_def core_inv_def clear_sending_env_def emit_def write_ok_def read_ok_def never_closed_def)
        then show ?thesis using close_stream_core [OF cb] by (simp add: rest_ok_def)
      qed
      ultimately show ?thesis by simp
    next
      case (Inr k)
      let ?t = "emit (Written (hd (writes s)) k) (?s\<lparr>last_rw_ticks := ticks s, sent_size := sent_size s + int k,
        total_sent_count := total_sent_count s + 1, total_sent_size := total_sent_size s + int k\<rparr>)"
      have k: "int k \<le> sending_size s" "i32 (int k) = int k" using n Inr io by (simp_all add: i32_id)
      show ?thesis
      proof (cases "int k = sending_size s")
        case False
        let ?u = "?t\<lparr>sending_data := Some (p, off + int k), sending_size := sending_size s - int k\<rparr>"
        have sp: "span p off (sending_size s) = span p off (int k) @ span p (off + int k) (sending_size s - int k)"
          by (rule span_split) (use k(1) in simp_all)
        have "on_write_some cb result s = Some (async_write_some (sending_data ?u, sending_size ?u) ?u)"
          using True Inr False k(2) io(2) by (simp add: on_write_some_def Let_def is_connected_def emit_def)
        moreover have "sess_inv (async_write_some (sending_data ?u, sending_size ?u) ?u)"
          using inv(1) io st False k(1) sp
          by (simp add: sess_inv_def async_write_some_def emit_def write_ok_def read_ok_def never_closed_def outstanding_def
              in_flight_def)
        moreover have "rest_ok (async_write_some (sending_data ?u, sending_size ?u) ?u)"
          by (simp add: rest_ok_def async_write_some_def)
        ultimately show ?thesis by blast
      next
        case eq: True
        obtain c rb' where nx: "rb_next rb = (c, rb')" by fastforce
        show ?thesis
        proof (cases c)
          case (Some ch)
          obtain q o2 sz where ch: "ch = (q, o2, sz)" by (cases ch)
          have a: "rb_left rb = span q o2 sz @ rb_left rb'" "rb_ok rb'" "0 < sz" "sz < 2 ^ 31"
            using rb_next_addrs [OF io(4)] nx Some ch by auto
          let ?u = "?t\<lparr>sending_message := Some rb', sending_data := Some (q, o2), sending_size := sz\<rparr>"
          have "on_write_some cb result s = Some (async_write_some (sending_data ?u, sending_size ?u) ?u)"
            using True Inr eq k(2) io(3) nx Some ch
            by (simp add: on_write_some_def Let_def is_connected_def emit_def next_chunk_def)
          moreover have "sess_inv (async_write_some (sending_data ?u, sending_size ?u) ?u)"
            using inv(1) io st eq a
            by (simp add: sess_inv_def async_write_some_def emit_def write_ok_def read_ok_def never_closed_def outstanding_def
                in_flight_def)
          moreover have "rest_ok (async_write_some (sending_data ?u, sending_size ?u) ?u)"
            by (simp add: rest_ok_def async_write_some_def)
          ultimately show ?thesis by blast
        next
          case None
          have a: "rb_left rb = []" using rb_next_addrs [OF io(4)] nx None by auto
          let ?u = "?t\<lparr>sending_message := Some rb'\<rparr>"
          have "on_write_some cb result s = message_done cb rb' ?u"
            using True Inr eq k(2) io(3) nx None
            by (simp add: on_write_some_def Let_def is_connected_def emit_def next_chunk_def)
          moreover have "sess_inv ?u"
            using inv(1) io st eq a
            by (simp add: sess_inv_def emit_def write_ok_def read_ok_def never_closed_def outstanding_def in_flight_def)
          moreover have "writes ?u = []" "send_token ?u = TOKEN_LOCK" using io by (simp_all add: emit_def)
          ultimately show ?thesis using message_done_ok [OF cb, of ?u rb'] by auto
        qed
      qed
    qed
  qed
qed

section \<open>Connecting\<close>

lemma quiet_update_ok:
  "same_core s t \<Longrightarrow> sess_inv s \<Longrightarrow> rest_ok s \<Longrightarrow> sess_inv t \<and> rest_ok t"
  using sess_inv_core [of s t] by (simp add: same_core_def rest_ok_def never_closed_def)

lemma trigger_receive_ok:
  assumes "sess_inv s" and "rest_ok s"
  shows "sess_inv (snd (trigger_receive s)) \<and> rest_ok (snd (trigger_receive s))"
proof -
  have "sess_inv (s\<lparr>read_quota_token := 1\<rparr>) \<and> rest_ok (s\<lparr>read_quota_token := 1\<rparr>)"
    by (rule quiet_update_ok [OF _ assms]) (simp add: same_core_def)
  then have "sess_inv (s\<lparr>read_quota_token := 1\<rparr>)" by simp
  from try_start_receive_ok [OF this] obtain b s' where t: "try_start_receive (s\<lparr>read_quota_token := 1\<rparr>) = (b, s')"
    "sess_inv s'" "send_token s' = send_token s" "writes s' = writes s" "events s' = events s" by auto
  with rest_ok_cong [OF assms(2), of s'] show ?thesis by (simp add: trigger_receive_def)
qed

lemma trigger_send_ok:
  assumes "sess_inv s" and "rest_ok s"
  shows "\<exists>b s'. trigger_send s = Some (b, s') \<and> sess_inv s' \<and> rest_ok s'"
proof -
  have "sess_inv (s\<lparr>write_quota_token := 1\<rparr>) \<and> rest_ok (s\<lparr>write_quota_token := 1\<rparr>)"
    by (rule quiet_update_ok [OF _ assms]) (simp add: same_core_def)
  then show ?thesis using try_start_send_rest unfolding trigger_send_def by blast
qed

lemma on_connected_ok:
  assumes cb: "callbacks_ok cb" and "sess_inv s" and "rest_ok s" and "on_connected cb s = Some (b, s')"
  shows "sess_inv s' \<and> rest_ok s'"
proof -
  obtain ok rx' m where r: "reset_tran_buf (read_buffer_base_block_factor s) (reset_receiving_env (rx s)) (heap s) = Some (ok, rx', m)"
    and e: "s' = call_back cb ConnectedCallback
        (if ok then s\<lparr>rx := rx', heap := m\<rparr> else close_stream cb ''out of memory'' (s\<lparr>rx := rx', heap := m\<rparr>))"
    using assms(4) by (auto simp: on_connected_def ms_on_connected_def Let_def split: option.splits if_splits)
  let ?s = "s\<lparr>rx := rx', heap := m\<rparr>"
  have "sess_inv ?s \<and> rest_ok ?s" by (rule quiet_update_ok [OF _ assms(2,3)]) (simp add: same_core_def)
  then have i: "sess_inv ?s" and rs: "rest_ok ?s" by auto
  let ?t = "if ok then ?s else close_stream cb ''out of memory'' ?s"
  have "sess_inv ?t" "rest_ok ?t" using i rs close_stream_rest [OF cb i] by auto
  then show ?thesis using e call_back_inv [OF cb, of ConnectedCallback] call_back_rest [OF cb, of ConnectedCallback]
    by simp
qed

lemma set_socket_connected_ok:
  assumes cb: "callbacks_ok cb" and inv: "sess_inv s" "rest_ok s" and r: "set_socket_connected cb ok s = Some s'"
  shows "sess_inv s' \<and> rest_ok s'"
proof -
  let ?s = "emit TimerCancel (s\<lparr>last_rw_ticks := ticks s\<rparr>)"
  have "sess_inv (s\<lparr>last_rw_ticks := ticks s\<rparr>) \<and> rest_ok (s\<lparr>last_rw_ticks := ticks s\<rparr>)"
    by (rule quiet_update_ok [OF _ inv]) (simp add: same_core_def)
  then have i: "sess_inv ?s" "rest_ok ?s"
    using emit_inv [of TimerCancel "s\<lparr>last_rw_ticks := ticks s\<rparr>"] rest_ok_emit by auto
  show ?thesis
  proof (cases ok)
    case False
    then show ?thesis using r close_stream_rest [OF cb i(1)]
      by (auto simp: set_socket_connected_def set_connected_options_def Let_def)
  next
    case True
    with r obtain b s3 where oc: "on_connected cb ?s = Some (b, s3)"
      by (auto simp: set_socket_connected_def set_connected_options_def Let_def split: option.splits)
    have i3: "sess_inv s3" "rest_ok s3" using on_connected_ok [OF cb i oc] by auto
    have b: b using oc by (auto simp: on_connected_def)
    let ?c = "s3\<lparr>status := STATUS_CONNECTED\<rparr>"
    have "sess_inv ?c" "rest_ok ?c"
      using i3 by (auto simp: sess_inv_def write_ok_def read_ok_def never_closed_def outstanding_def rest_ok_def)
    from trigger_receive_ok [OF this] have tr: "sess_inv (snd (trigger_receive ?c))" "rest_ok (snd (trigger_receive ?c))"
      by auto
    from trigger_send_ok [OF this] obtain b4 s4 where "trigger_send (snd (trigger_receive ?c)) = Some (b4, s4)"
      "sess_inv s4" "rest_ok s4" by blast
    with r oc b True show ?thesis by (simp add: set_socket_connected_def set_connected_options_def Let_def)
  qed
qed

lemma on_connect_ok:
  "callbacks_ok cb \<Longrightarrow> sess_inv s \<Longrightarrow> rest_ok s \<Longrightarrow> on_connect cb failed ok s = Some s' \<Longrightarrow> sess_inv s' \<and> rest_ok s'"
  using close_stream_rest [of cb s] set_socket_connected_ok [of cb s ok s']
  by (auto simp: on_connect_def split: if_splits)

section \<open>Runs\<close>

text \<open>
  What happens to a connection, in any order; a client's is connected by \<^verbatim>\<open>on_connect\<close>, a server's by the listener that has accepted it
  (\<^verbatim>\<open>src/network/io/listener.cpp\<close>).
\<close>

inductive sess_step :: "callbacks \<Rightarrow> session \<Rightarrow> session \<Rightarrow> bool" for cb where
  send: "fresh_msg rb \<Longrightarrow> async_send_message rb s = Some s' \<Longrightarrow> sess_step cb s s'"
| connect: "status s = STATUS_INIT \<Longrightarrow> sess_step cb s (async_connect s)"
| connected: "on_connect cb failed ok s = Some s' \<Longrightarrow> sess_step cb s s'"
| by_listener: "status s = STATUS_INIT \<Longrightarrow> set_socket_connected cb ok s = Some s' \<Longrightarrow> sess_step cb s s'"
| timeout: "sess_step cb s (on_connect_timeout cb aborted s)"
| read_done: "reads s \<noteq> [] \<Longrightarrow> on_read_some cb result s = Some s' \<Longrightarrow> sess_step cb s s'"
| write_done: "writes s \<noteq> [] \<Longrightarrow> (case result of Inl _ \<Rightarrow> True | Inr n \<Rightarrow> int n \<le> snd (hd (writes s))) \<Longrightarrow>
     on_write_some cb result s = Some s' \<Longrightarrow> sess_step cb s s'"
| refill_read: "trigger_receive (s\<lparr>flow_ctl := fc\<rparr>) = (b, s') \<Longrightarrow> sess_step cb s s'"
| refill_write: "trigger_send (s\<lparr>flow_ctl := fc\<rparr>) = Some (b, s') \<Longrightarrow> sess_step cb s s'"
| tick: "sess_step cb s (reset_ticks t u s)"
| shutdown: "sess_step cb s (ShutDown cb s)"
| close: "sess_step cb s (close_stream cb reason s)"
| heartbeat: "sess_step cb s (StartHeartbeat d s)"

inductive sess_reach :: "callbacks \<Rightarrow> session \<Rightarrow> bool" for cb where
  new: "sess_reach cb (Session nt m)"
| step: "sess_reach cb s \<Longrightarrow> sess_step cb s s' \<Longrightarrow> sess_reach cb s'"

inductive_cases sess_stepE: "sess_step cb s s'"

lemma heartbeat_ok: "sess_inv s \<Longrightarrow> rest_ok s \<Longrightarrow> sess_inv (StartHeartbeat d s) \<and> rest_ok (StartHeartbeat d s)"
proof -
  assume i: "sess_inv s" "rest_ok s"
  have "sess_inv (s\<lparr>heartbeat_duration := d\<rparr>) \<and> rest_ok (s\<lparr>heartbeat_duration := d\<rparr>)"
    by (rule quiet_update_ok [OF _ i]) (simp add: same_core_def)
  then have e: "sess_inv (emit HeartbeatCancel (s\<lparr>heartbeat_duration := d\<rparr>))"
    "rest_ok (emit HeartbeatCancel (s\<lparr>heartbeat_duration := d\<rparr>))"
    using emit_inv rest_ok_emit by auto
  let ?t = "(emit HeartbeatCancel (s\<lparr>heartbeat_duration := d\<rparr>))\<lparr>start_heartbeat := True\<rparr>"
  have "sess_inv ?t \<and> rest_ok ?t" by (rule quiet_update_ok [OF _ e]) (simp add: same_core_def)
  then have "sess_inv (emit (HeartbeatTimer d) ?t) \<and> rest_ok (emit (HeartbeatTimer d) ?t)"
    using emit_inv [of "HeartbeatTimer d" ?t] rest_ok_emit [of ?t] by simp
  moreover have "StartHeartbeat d s = emit (HeartbeatTimer d) ?t"
    by (simp add: StartHeartbeat_def ScheduleHeartbeatWait_def emit_def)
  ultimately show ?thesis by simp
qed

lemma sess_step_ok:
  assumes cb: "callbacks_ok cb" and "sess_step cb s s'" and i: "sess_inv s" "rest_ok s"
  shows "sess_inv s' \<and> rest_ok s'"
  using assms(2)
proof cases
  case (send rb)
  then show ?thesis using async_send_message_ok [OF i, of rb] by auto
next
  case connect
  then show ?thesis using async_connect_inv [OF i(1)] i
    by (auto simp: rest_ok_def async_connect_def Let_def emit_def never_closed_def sess_inv_def write_ok_def)
next
  case (connected failed ok)
  then show ?thesis by (rule on_connect_ok [OF cb i])
next
  case (by_listener ok)
  then show ?thesis using set_socket_connected_ok [OF cb i] by blast
next
  case (timeout aborted)
  then show ?thesis using i close_stream_rest [OF cb i(1)] by (simp add: on_connect_timeout_def)
next
  case (read_done result)
  then show ?thesis using on_read_some_ok [OF cb i] by blast
next
  case (write_done result)
  then show ?thesis using on_write_some_ok [OF cb i write_done(1,2)] by auto
next
  case (refill_read fc b)
  have "sess_inv (s\<lparr>flow_ctl := fc\<rparr>) \<and> rest_ok (s\<lparr>flow_ctl := fc\<rparr>)"
    by (rule quiet_update_ok [OF _ i]) (simp add: same_core_def)
  then show ?thesis using trigger_receive_ok [of "s\<lparr>flow_ctl := fc\<rparr>"] refill_read by simp
next
  case (refill_write fc b)
  have "sess_inv (s\<lparr>flow_ctl := fc\<rparr>) \<and> rest_ok (s\<lparr>flow_ctl := fc\<rparr>)"
    by (rule quiet_update_ok [OF _ i]) (simp add: same_core_def)
  then show ?thesis using trigger_send_ok [of "s\<lparr>flow_ctl := fc\<rparr>"] refill_write by auto
next
  case (tick t u)
  have "same_core s (reset_ticks t u s)" by (simp add: same_core_def reset_ticks_def Let_def)
  then show ?thesis using quiet_update_ok [OF _ i] tick by simp
next
  case shutdown
  have "sess_inv (s\<lparr>start_heartbeat := False\<rparr>) \<and> rest_ok (s\<lparr>start_heartbeat := False\<rparr>)"
    by (rule quiet_update_ok [OF _ i]) (simp add: same_core_def)
  then have "sess_inv (emit HeartbeatCancel (s\<lparr>start_heartbeat := False\<rparr>))" using emit_inv by simp
  then show ?thesis using shutdown close_stream_rest [OF cb] by (simp add: ShutDown_def)
next
  case (close reason)
  then show ?thesis using close_stream_rest [OF cb i(1)] by simp
next
  case (heartbeat d)
  then show ?thesis using heartbeat_ok [OF i] by simp
qed

lemma sess_reach_ok: "sess_reach cb s \<Longrightarrow> callbacks_ok cb \<Longrightarrow> sess_inv s \<and> rest_ok s"
proof (induction rule: sess_reach.induct)
  case (new nt m)
  then show ?case using sess_inv_new [of nt m] by (simp add: rest_ok_def Session_def)
next
  case (step s s')
  then show ?case using sess_step_ok by blast
qed

text \<open>
  C5. However the transport, the timers and the application interleave the handlers of a connection, at most
  one asynchronous write and one asynchronous read are in flight, and a transfer in flight holds its token.
\<close>

theorem one_transfer_in_flight:
  assumes "callbacks_ok cb" and "sess_reach cb s"
  shows "length (writes s) \<le> 1 \<and> (writes s \<noteq> [] \<longrightarrow> send_token s = TOKEN_LOCK) \<and>
         length (reads s) \<le> 1 \<and> (reads s \<noteq> [] \<longrightarrow> receive_token s = TOKEN_LOCK)"
  using sess_reach_ok [OF assms(2,1)] by (auto simp: sess_inv_def write_ok_def read_ok_def)

text \<open>
  C3. While a connection has not been closed, the bytes the transport has taken, followed by those of the write in
  flight and of the queued messages, are exactly the bytes of the accepted messages in the order they were accepted:
  nothing is lost, repeated or reordered.
\<close>

theorem wire_is_prefix_of_accepted:
  assumes "callbacks_ok cb" and "sess_reach cb s" and "never_closed s"
  shows "accepted (events s) = wire (events s) @ outstanding s"
  using sess_reach_ok [OF assms(2,1)] assms(3) by (simp add: sess_inv_def)

text \<open>
  The pending statistics are right in every reachable state: the message count, the data size and the buffer
  size are those of the messages in the two queues.
\<close>

theorem pending_statistics:
  assumes "callbacks_ok cb" and "sess_reach cb s"
  shows "pending_message_count s = int (length (swapped_calls s @ pending_calls s)) \<and>
         pending_data_size s = sum_list (map rb_total_bytes (swapped_calls s @ pending_calls s)) \<and>
         pending_buffer_size s = sum_list (map rb_total_block_size (swapped_calls s @ pending_calls s))"
  using sess_reach_ok [OF assms(2,1)]
  by (simp add: sess_inv_def queue_ok_def pending_message_count_def pending_data_size_def pending_buffer_size_def)

text \<open>
  Sending a message and completing a write always return: the loop of \<^verbatim>\<open>try_start_send\<close> does not spin and no
  handler touches a null message, in any reachable state.
\<close>

theorem send_handlers_return:
  assumes "callbacks_ok cb" and "sess_reach cb s"
  shows "(fresh_msg rb \<longrightarrow> (\<exists>s'. async_send_message rb s = Some s')) \<and>
         (writes s \<noteq> [] \<and> int n \<le> snd (hd (writes s)) \<longrightarrow> (\<exists>s'. on_write_some cb (Inr n) s = Some s')) \<and>
         (\<exists>r. trigger_send s = Some r)"
  using sess_reach_ok [OF assms(2,1)] async_send_message_ok [of s rb] on_write_some_ok [OF assms(1), of s "Inr n"]
    trigger_send_ok [of s] by auto

section \<open>Everything is sent\<close>

text \<open>Unlimited write quota: a message that waits is never left waiting.\<close>

definition flowing :: "session \<Rightarrow> bool" where
  "flowing s \<longleftrightarrow> status s = STATUS_CONNECTED \<and> never_closed s \<and> write_no_limit (flow_ctl s) \<and> 0 < write_quota_token s"

definition conserving :: "session \<Rightarrow> bool" where
  "conserving s \<longleftrightarrow> (writes s = [] \<longrightarrow> swapped_calls s = [] \<and> pending_calls s = [])"

lemma get_None_empty:
  assumes "sess_inv s" and "get_from_pending_queue s = (None, s1)"
  shows "swapped_calls s1 = [] \<and> pending_calls s1 = []"
proof -
  have s1: "s1 = swap_pending s" "swapped_calls s1 = []"
    using assms(2) by (auto simp: get_from_pending_queue_def Let_def split: list.splits)
  then have "pend_message_count s1 = 0" "sess_inv s1" using swap_pending_eq [OF assms(1)] by auto
  with s1 show ?thesis by (auto simp: sess_inv_def queue_ok_def)
qed

lemma send_turn_flows:
  assumes "sess_inv s" and "flowing s" and "writes s = []"
  shows "\<exists>b s'. send_turn s = (Some b, s') \<and> flowing s' \<and> conserving s'"
proof -
  obtain r s1 where g: "get_from_pending_queue s = (r, s1)" by fastforce
  have q1: "write_quota_token s1 = write_quota_token s"
    using g by (auto simp: get_from_pending_queue_def swap_pending_def Let_def split: list.splits if_splits)
  note gf = get_frame [OF g]
  show ?thesis
  proof (cases r)
    case None
    have "swapped_calls s1 = [] \<and> pending_calls s1 = []" "pend_message_count s1 = 0"
      using get_None_empty [OF assms(1)] get_inv [OF assms(1,3)] g None by auto
    with None g gf assms(2) q1 show ?thesis
      by (intro exI [of _ False])
        (simp add: send_turn_def Let_def free_send_token_def flowing_def conserving_def never_closed_def)
  next
    case (Some rb)
    then have "fresh_msg rb" using get_inv [OF assms(1,3)] g by auto
    from fresh_msg_next [OF this] obtain p off sz rb' where "rb_next rb = (Some (p, off, sz), rb')" by blast
    moreover have "acquire_write_quota (i32 (rb_total_bytes rb)) (flow_ctl s1) = (1, flow_ctl s1)"
      using assms(2) gf by (simp add: flowing_def acquire_write_quota_def)
    ultimately show ?thesis using Some g gf assms(2)
      by (intro exI [of _ True])
        (simp add: send_turn_def on_sending_def Let_def next_chunk_def async_write_some_def flowing_def conserving_def
          never_closed_def)
  qed
qed

lemma try_start_send_flows:
  assumes "sess_inv s" and "flowing s" and "send_token s = TOKEN_FREE"
  shows "\<exists>b s'. try_start_send s = Some (b, s') \<and> flowing s' \<and> conserving s'"
proof -
  let ?s = "s\<lparr>send_token := TOKEN_LOCK\<rparr>"
  have w: "writes s = []" using assms(1,3) by (auto simp: sess_inv_def write_ok_def)
  have "sess_inv ?s" "flowing ?s" using assms w
    by (simp_all add: sess_inv_def write_ok_def read_ok_def never_closed_def outstanding_def flowing_def)
  from send_turn_flows [OF this] w obtain b s' where "send_turn ?s = (Some b, s')" "flowing s'" "conserving s'" by auto
  with assms show ?thesis
    by (simp add: try_start_send_def send_loop.simps [of s] atomic_comp_swap_def is_connected_def flowing_def)
qed

lemma try_start_receive_frame:
  "try_start_receive s = (b, s') \<Longrightarrow> writes s' = writes s \<and> swapped_calls s' = swapped_calls s \<and>
     pending_calls s' = pending_calls s \<and> write_no_limit (flow_ctl s') = write_no_limit (flow_ctl s) \<and>
     write_quota_token s' = write_quota_token s \<and> events s' = events s \<and> status s' = status s \<and>
     send_token s' = send_token s"
  by (auto simp: try_start_receive_def acquire_read_quota_def free_receive_token_def async_read_some_def Let_def
      split: if_splits prod.splits)

text \<open>A completion takes its bytes off what is outstanding.\<close>

lemma write_done_flows:
  assumes inv: "sess_inv s" "rest_ok s" and fl: "flowing s" and cb: "\<And>rb t. cb (SentCallback rb) t = t"
    and w: "writes s \<noteq> []" and k: "int k \<le> snd (hd (writes s))"
    and r: "on_write_some cb (Inr k) s = Some s'"
  shows "flowing s' \<and> conserving s' \<and> accepted (events s') = accepted (events s) \<and>
     length (wire (events s')) = length (wire (events s)) + k"
proof -
  let ?s = "s\<lparr>writes := tl (writes s)\<rparr>"
  obtain p off rb where io: "writes s = [(Some (p, off), sending_size s)]" "sending_data s = Some (p, off)"
    "sending_message s = Some rb" "rb_ok rb" "sending_size s < 2 ^ 31" "send_token s = TOKEN_LOCK"
    using inv(1) w by (auto simp: sess_inv_def write_ok_def)
  have k2: "i32 (int k) = int k" using k io by (simp add: i32_id)
  let ?t = "emit (Written (hd (writes s)) k) (?s\<lparr>last_rw_ticks := ticks s, sent_size := sent_size s + int k,
    total_sent_count := total_sent_count s + 1, total_sent_size := total_sent_size s + int k\<rparr>)"
  obtain c rb' where nx: "rb_next rb = (c, rb')" by fastforce
  have st: "status s = STATUS_CONNECTED" using fl by (simp add: flowing_def)
  consider "int k \<noteq> sending_size s" | ch where "int k = sending_size s" "c = Some ch" | "int k = sending_size s" "c = None"
    by (cases c) auto
  then show ?thesis
  proof cases
    case 1
    then have "s' = async_write_some (Some (p, off + int k), sending_size s - int k)
        (?t\<lparr>sending_data := Some (p, off + int k), sending_size := sending_size s - int k\<rparr>)"
      using r st io(2) k2 by (simp add: on_write_some_def Let_def is_connected_def emit_def)
    then show ?thesis using fl io(1)
      by (simp add: async_write_some_def emit_def flowing_def conserving_def never_closed_def)
  next
    case 2
    obtain q o2 sz where ch: "ch = (q, o2, sz)" by (cases ch)
    have "s' = async_write_some (Some (q, o2), sz)
        (?t\<lparr>sending_message := Some rb', sending_data := Some (q, o2), sending_size := sz\<rparr>)"
      using r st io(3) k2 2 nx ch by (simp add: on_write_some_def Let_def is_connected_def emit_def next_chunk_def)
    then show ?thesis using fl io(1)
      by (simp add: async_write_some_def emit_def flowing_def conserving_def never_closed_def)
  next
    case True: 3
    let ?u = "free_send_token (emit (SentCallback rb') (?t\<lparr>sending_message := Some rb'\<rparr>))"
    have d: "message_done cb rb' (?t\<lparr>sending_message := Some rb'\<rparr>) = Some s'"
      using r st io nx k2 True
      by (simp add: on_write_some_def Let_def is_connected_def emit_def next_chunk_def)
    have "rb_left rb = []" using rb_next_addrs [OF io(4)] nx True by auto
    then have iu: "sess_inv ?u" using inv(1) io True
      by (simp add: sess_inv_def free_send_token_def emit_def write_ok_def read_ok_def never_closed_def outstanding_def
          in_flight_def)
    have fu: "flowing ?u" "send_token ?u = TOKEN_FREE" using fl io
      by (auto simp: flowing_def free_send_token_def emit_def never_closed_def comp_swap_cell)
    from try_start_send_flows [OF iu fu] try_start_send_ok [OF iu] fu(2) obtain b s1 where
      s1: "try_start_send ?u = Some (b, s1)" "flowing s1" "conserving s1" "events s1 = events ?u"
      by (auto simp: send_frame_def)
    have "s' = (if net_type s1 = NT_SERVER then snd (try_start_receive s1) else s1)"
      using d s1(1) cb by (simp add: message_done_def call_back_def)
    then have "flowing s' \<and> conserving s' \<and> events s' = events s1"
      using s1 try_start_receive_frame [of s1] by (cases "try_start_receive s1") (auto simp: flowing_def conserving_def never_closed_def)
    with s1(4) io show ?thesis by (simp add: free_send_token_def emit_def)
  qed
qed

text \<open>A transport that completes the writes it is given, each by at least one byte.\<close>

fun complete_writes :: "callbacks \<Rightarrow> nat list \<Rightarrow> session \<Rightarrow> session option" where
  "complete_writes cb [] s = Some s"
| "complete_writes cb (k # ks) s =
     (case writes s of
        [] \<Rightarrow> Some s
      | w # _ \<Rightarrow>
          (case on_write_some cb (Inr (min (max 1 k) (nat (snd w)))) s of
             None \<Rightarrow> None
           | Some s' \<Rightarrow> complete_writes cb ks s'))"

lemma complete_writes_ok:
  assumes ok: "callbacks_ok cb" and cb: "\<And>rb t. cb (SentCallback rb) t = t"
  shows "sess_inv s \<Longrightarrow> rest_ok s \<Longrightarrow> flowing s \<Longrightarrow> conserving s \<Longrightarrow> length (outstanding s) \<le> length ks \<Longrightarrow>
     \<exists>s'. complete_writes cb ks s = Some s' \<and> outstanding s' = [] \<and> wire (events s') = accepted (events s)"
proof (induction ks arbitrary: s)
  case Nil
  then show ?case by (simp add: sess_inv_def flowing_def)
next
  case (Cons k ks)
  show ?case
  proof (cases "writes s")
    case Nil
    then have "outstanding s = []" using Cons.prems(4) by (simp add: conserving_def outstanding_def in_flight_def)
    with Nil Cons.prems show ?thesis by (simp add: sess_inv_def flowing_def)
  next
    case w: (Cons io ws)
    let ?n = "min (max 1 k) (nat (snd io))"
    have pos: "0 < snd io" using Cons.prems(1) w by (auto simp: sess_inv_def write_ok_def)
    have n: "int ?n \<le> snd (hd (writes s))" "1 \<le> ?n" using pos by (simp_all add: w)
    have ne: "writes s \<noteq> []" using w by simp
    from on_write_some_ok [OF ok Cons.prems(1,2) ne, of "Inr ?n"] n(1) obtain s1 where
      s1: "on_write_some cb (Inr ?n) s = Some s1" "sess_inv s1" "rest_ok s1" by auto
    have f1: "flowing s1" "conserving s1" "accepted (events s1) = accepted (events s)"
      "length (wire (events s1)) = length (wire (events s)) + ?n"
      using write_done_flows [OF Cons.prems(1-3) cb ne n(1) s1(1)] by auto
    have "accepted (events s) = wire (events s) @ outstanding s" "accepted (events s1) = wire (events s1) @ outstanding s1"
      using Cons.prems(1,3) s1(2) f1(1) by (auto simp: sess_inv_def flowing_def)
    then have "length (accepted (events s)) = length (wire (events s)) + length (outstanding s)"
      "length (accepted (events s1)) = length (wire (events s1)) + length (outstanding s1)" by simp_all
    then have "length (outstanding s1) + ?n = length (outstanding s)" unfolding f1(3,4) by linarith
    then have "length (outstanding s1) \<le> length ks" using Cons.prems(5) n(2) by simp
    from Cons.IH [OF s1(2,3) f1(1,2) this] obtain s' where
      "complete_writes cb ks s1 = Some s'" "outstanding s' = []" "wire (events s') = accepted (events s)"
      unfolding f1(3) by blast
    moreover have "complete_writes cb (k # ks) s = complete_writes cb ks s1"
      using s1(1) w by (simp only: complete_writes.simps list.case option.case)
    ultimately show ?thesis by simp
  qed
qed

lemma conserving_reach_empty:
  assumes "sess_inv s" and "flowing s" and "send_token s = TOKEN_FREE" and "fresh_msg rb"
  shows "\<exists>s'. async_send_message rb s = Some s' \<and> flowing s' \<and> conserving s'"
proof -
  let ?s = "emit (Accepted rb) (put_into_pending_queue rb s)"
  have "flowing ?s" "send_token ?s = TOKEN_FREE" using assms(2,3)
    by (simp_all add: flowing_def emit_def put_into_pending_queue_def never_closed_def)
  from try_start_send_flows [OF put_inv [OF assms(1,4)] this] assms(2) show ?thesis
    by (auto simp: async_send_message_def is_closed_def flowing_def)
qed

section \<open>Gates and failures\<close>

text \<open>
  A read is started exactly when none is in flight, the read quota allows it, the connection is open and, on a
  server, the unsent messages do not exceed the configured buffer size; otherwise nothing is asked of the transport.
\<close>

theorem receive_gate:
  "let (started, s') = try_start_receive s
   in (started \<longleftrightarrow> receive_token s = TOKEN_FREE \<and> 0 < read_quota_token s \<and> status s = STATUS_CONNECTED \<and>
         (case net_type s of NT_SERVER \<Rightarrow> pending_buffer_size s \<le> max_pending_buffer_size s | _ \<Rightarrow> True) \<and>
         has_read_quota (flow_ctl s)) \<and>
      reads s' = reads s @ (if started then [(map_option (\<lambda>p. (p, receiving_data (rx s))) (tran_buf (rx s)), receiving_size (rx s))] else [])"
  by (cases "receive_token s")
    (auto simp: try_start_receive_def is_connected_def acquire_read_eq has_read_quota_def Let_def atomic_comp_swap_def
      async_read_some_def free_receive_token_def split: if_splits net_type.splits)

text \<open>
  C39. When the transfer buffer cannot be allocated as a connection is established, the stream is closed, the
  application is told so, and yet the connection ends up in the connected state and starts a read through a
  null pointer: \<^verbatim>\<open>Session::on_connected\<close> drops the result of \<^verbatim>\<open>MessageStream::on_connected\<close>.
\<close>

theorem closed_connection_revived:
  assumes "avail m < 32768"
  shows "\<exists>s'. on_connect (\<lambda>_ t. t) False True (async_connect (Session NT_CLIENT m)) = Some s' \<and> status s' = STATUS_CONNECTED \<and>
     events s' = [TransportConnect, TimerCancel, TransportClose, HeartbeatCancel, ClosedCallback, ConnectedCallback] \<and>
     reads s' = [(None, 0)]"
proof -
  have "reset_tran_buf TRAN_BUF_BLOCK_MAX_FACTOR (reset_receiving_env rx_init) m =
      Some (False, (reset_receiving_env rx_init)\<lparr>tran_buf := None\<rparr>, m)"
    using assms by (simp add: reset_tran_buf_def reset_receiving_env_def rx_init_def tb_malloc_def Let_def
        TRAN_BUF_BLOCK_BASE_SIZE_def TRAN_BUF_BLOCK_MAX_FACTOR_def)
  then show ?thesis
    by (simp add: Session_def async_connect_def on_connect_def is_connecting_def set_socket_connected_def
        set_connected_options_def on_connected_def ms_on_connected_def close_stream_def on_closed_def atomic_swap_def
        call_back_def emit_def trigger_receive_def try_start_receive_def is_connected_def acquire_read_eq FlowController_def
        atomic_comp_swap_def async_read_some_def Let_def trigger_send_def try_start_send_def send_loop.simps send_turn_def
        get_from_pending_queue_def swap_pending_def free_send_token_def)
      (simp add: reset_receiving_env_def rx_init_def)
qed

theorem closed_connection_revived_witness:
  "\<exists>s'. on_connect (\<lambda>_ t. t) False True (async_connect (Session NT_CLIENT (mem0\<lparr>avail := 1000\<rparr>))) = Some s' \<and>
     status s' = STATUS_CONNECTED \<and> ClosedCallback \<in> set (events s')"
  using closed_connection_revived [of "mem0\<lparr>avail := 1000\<rparr>"] by auto

lemma complete_writes_reach:
  "complete_writes cb ks s = Some s' \<Longrightarrow> callbacks_ok cb \<Longrightarrow> sess_reach cb s \<Longrightarrow> sess_reach cb s'"
proof (induction ks arbitrary: s)
  case (Cons k ks)
  show ?case
  proof (cases "writes s")
    case Nil
    then show ?thesis using Cons.prems by simp
  next
    case w: (Cons io ws)
    let ?n = "min (max 1 k) (nat (snd io))"
    have pos: "0 < snd io" using sess_reach_ok [OF Cons.prems(3,2)] w by (auto simp: sess_inv_def write_ok_def)
    from Cons.prems(1) w obtain s1 where s1: "on_write_some cb (Inr ?n) s = Some s1" "complete_writes cb ks s1 = Some s'"
      by (auto split: option.splits)
    have "sess_step cb s s1" by (rule sess_step.write_done [OF _ _ s1(1)]) (use w pos in auto)
    then show ?thesis by (rule Cons.IH [OF s1(2) Cons.prems(2) sess_reach.step [OF Cons.prems(3)]])
  qed
qed simp

lemma complete_writes_flowing:
  "complete_writes cb ks s = Some s' \<Longrightarrow> callbacks_ok cb \<Longrightarrow> (\<And>rb t. cb (SentCallback rb) t = t) \<Longrightarrow>
     sess_inv s \<Longrightarrow> rest_ok s \<Longrightarrow> flowing s \<Longrightarrow> flowing s' \<and> accepted (events s') = accepted (events s)"
proof (induction ks arbitrary: s)
  case (Cons k ks)
  show ?case
  proof (cases "writes s")
    case Nil
    then show ?thesis using Cons.prems by simp
  next
    case w: (Cons io ws)
    let ?n = "min (max 1 k) (nat (snd io))"
    have pos: "0 < snd io" using Cons.prems(4) w by (auto simp: sess_inv_def write_ok_def)
    from Cons.prems(1) w obtain s1 where s1: "on_write_some cb (Inr ?n) s = Some s1" "complete_writes cb ks s1 = Some s'"
      by (auto split: option.splits)
    have n: "writes s \<noteq> []" "int ?n \<le> snd (hd (writes s))" using w pos by auto
    have "sess_inv s1" "rest_ok s1"
      using on_write_some_ok [OF Cons.prems(2,4,5) n(1), of "Inr ?n"] n(2) s1(1) by auto
    moreover have "flowing s1" "accepted (events s1) = accepted (events s)"
      using write_done_flows [OF Cons.prems(4,5,6,3) n s1(1)] by auto
    ultimately show ?thesis using Cons.IH [OF s1(2) Cons.prems(2,3)] by simp
  qed
qed simp

section \<open>A run\<close>

text \<open>A client connects and sends a message of two chunks.\<close>

definition demo_connected :: session where
  "demo_connected = the (on_connect (\<lambda>_ t. t) False True (async_connect (Session NT_CLIENT mem0)))"

definition demo_send_of :: "read_buffer \<Rightarrow> session" where
  "demo_send_of rb = the (async_send_message rb demo_connected)"

abbreviation demo_sending :: session where
  "demo_sending \<equiv> demo_send_of rb_example"

lemma demo_connect: "on_connect (\<lambda>_ t. t) False True (async_connect (Session NT_CLIENT mem0)) = Some demo_connected"
  and demo_connected_flows: "flowing demo_connected" "send_token demo_connected = TOKEN_FREE" "pending_calls demo_connected = []"
    "swapped_calls demo_connected = []" "accepted (events demo_connected) = []"
proof -
  have r: "reset_tran_buf TRAN_BUF_BLOCK_MAX_FACTOR (reset_receiving_env rx_init) mem0 = Some (True, rx0, mem1)"
    using rx0_mem1 by (simp add: TRAN_BUF_BLOCK_MAX_FACTOR_def)
  have "\<exists>s. on_connect (\<lambda>_ t. t) False True (async_connect (Session NT_CLIENT mem0)) = Some s \<and> flowing s \<and>
      send_token s = TOKEN_FREE \<and> pending_calls s = [] \<and> swapped_calls s = [] \<and> accepted (events s) = []"
    using r by (simp add: Session_def async_connect_def on_connect_def is_connecting_def set_socket_connected_def
        set_connected_options_def on_connected_def ms_on_connected_def
        call_back_def emit_def trigger_receive_def try_start_receive_def is_connected_def acquire_read_eq FlowController_def
        atomic_comp_swap_def async_read_some_def Let_def trigger_send_def try_start_send_def send_loop.simps send_turn_def
        get_from_pending_queue_def swap_pending_def free_send_token_def flowing_def never_closed_def)
  then show "on_connect (\<lambda>_ t. t) False True (async_connect (Session NT_CLIENT mem0)) = Some demo_connected"
    "flowing demo_connected" "send_token demo_connected = TOKEN_FREE" "pending_calls demo_connected = []"
    "swapped_calls demo_connected = []" "accepted (events demo_connected) = []"
    unfolding demo_connected_def by auto
qed

lemma fresh_example: "fresh_msg rb_example" "length (rb_addrs rb_example) = 3"
  by (simp_all add: fresh_msg_def rb_ok_def rb_example_def rb_addrs_def haddrs_def)

lemma demo_reach: "sess_reach (\<lambda>_ t. t) demo_connected"
proof -
  have "sess_reach (\<lambda>_ t. t) (async_connect (Session NT_CLIENT mem0))"
    by (rule sess_reach.step [OF sess_reach.new sess_step.connect]) (simp add: Session_def)
  then show ?thesis by (rule sess_reach.step) (rule sess_step.connected [OF demo_connect])
qed

lemma demo_send:
  assumes "fresh_msg rb"
  shows "async_send_message rb demo_connected = Some (demo_send_of rb)" "flowing (demo_send_of rb)" "conserving (demo_send_of rb)"
proof -
  have "sess_inv demo_connected" using sess_reach_ok [OF demo_reach callbacks_ok_id] by simp
  from conserving_reach_empty [OF this demo_connected_flows(1,2) assms]
  show "async_send_message rb demo_connected = Some (demo_send_of rb)" "flowing (demo_send_of rb)"
    "conserving (demo_send_of rb)"
    unfolding demo_send_of_def by auto
qed

lemma demo_send_reach: "fresh_msg rb \<Longrightarrow> sess_reach (\<lambda>_ t. t) (demo_send_of rb)"
  by (rule sess_reach.step [OF demo_reach sess_step.send [OF _ demo_send(1)]])

lemma demo_accepted:
  assumes "fresh_msg rb"
  shows "accepted (events (demo_send_of rb)) = rb_addrs rb"
proof -
  let ?s = "emit (Accepted rb) (put_into_pending_queue rb demo_connected)"
  have i: "sess_inv ?s" using put_inv [OF _ assms] sess_reach_ok [OF demo_reach callbacks_ok_id] by simp
  from try_start_send_ok [OF i] obtain b s' where t: "try_start_send ?s = Some (b, s')" "events s' = events ?s"
    by (auto simp: send_frame_def)
  have "\<not> is_closed demo_connected" using demo_connected_flows(1) by (simp add: flowing_def is_closed_def)
  with t(1) have "demo_send_of rb = s'" using demo_send(1) [OF assms] by (simp add: async_send_message_def)
  with t(2) demo_connected_flows(5) show ?thesis by (simp add: emit_def put_into_pending_queue_def)
qed

text \<open>A message that has been sent completely.\<close>

lemma demo_sent:
  assumes "fresh_msg rb"
  shows "\<exists>s. sess_reach (\<lambda>_ t. t) s \<and> never_closed s \<and> outstanding s = [] \<and> accepted (events s) = rb_addrs rb"
proof -
  let ?s = "demo_send_of rb" and ?n = "replicate (length (outstanding (demo_send_of rb))) 1"
  note r = sess_reach_ok [OF demo_send_reach [OF assms] callbacks_ok_id]
  obtain s' where c: "complete_writes (\<lambda>_ t. t) ?n ?s = Some s'" "outstanding s' = []"
    using complete_writes_ok [OF callbacks_ok_id, of ?s ?n] r demo_send(2,3) [OF assms] by auto
  have "flowing s'" "accepted (events s') = rb_addrs rb"
    using complete_writes_flowing [OF c(1) callbacks_ok_id] r demo_send(2) [OF assms] demo_accepted [OF assms] by auto
  with c complete_writes_reach [OF c(1) callbacks_ok_id demo_send_reach [OF assms]] show ?thesis by (auto simp: flowing_def)
qed

lemmas demo_sending_reach = demo_send_reach [OF fresh_example(1)]

lemma demo_outstanding: "length (outstanding demo_sending) \<le> 3"
proof -
  have "sess_inv demo_sending" using sess_reach_ok [OF demo_sending_reach callbacks_ok_id] by simp
  moreover have "never_closed demo_sending" using demo_send(2) [OF fresh_example(1)] by (simp add: flowing_def)
  ultimately have "rb_addrs rb_example = wire (events demo_sending) @ outstanding demo_sending"
    using demo_accepted [OF fresh_example(1)] by (simp add: sess_inv_def)
  then have "length (rb_addrs rb_example) = length (wire (events demo_sending)) + length (outstanding demo_sending)" by simp
  then show ?thesis using fresh_example(2) by simp
qed

theorem one_transfer_in_flight_witness:
  "sess_reach (\<lambda>_ t. t) demo_sending \<and> length (writes demo_sending) \<le> 1 \<and> length (reads demo_sending) \<le> 1"
  using one_transfer_in_flight [OF callbacks_ok_id demo_sending_reach] demo_sending_reach by simp

theorem wire_is_prefix_of_accepted_witness:
  "rb_addrs rb_example = wire (events demo_sending) @ outstanding demo_sending"
  using wire_is_prefix_of_accepted [OF callbacks_ok_id demo_sending_reach] demo_send(2) [OF fresh_example(1)]
    demo_accepted [OF fresh_example(1)]
  by (simp add: flowing_def)

theorem pending_statistics_witness:
  "pending_message_count demo_sending = int (length (swapped_calls demo_sending @ pending_calls demo_sending))"
  using pending_statistics [OF callbacks_ok_id demo_sending_reach] by simp

theorem send_handlers_return_witness:
  "\<exists>s'. async_send_message rb_example demo_sending = Some s'"
  using send_handlers_return [OF callbacks_ok_id demo_sending_reach, of rb_example] fresh_example(1) by simp

end
