(* ===== verification/Stream_Liveness.thy ===== *)
theory Stream_Liveness
  imports Stream_Run
begin

text \<open>
  What a connection (\<^verbatim>\<open>src/message_stream/message_stream.cpp\<close>) accepts is sent. In every reachable state of a connection
  without write limit no message waits while the send token is free: a handler that queues a message or frees the token starts the next
  write itself. So, whatever the handlers did before, a transport that completes the writes it is given takes every accepted byte.
\<close>

section \<open>No message waits for a free token\<close>

definition unlimited :: "session \<Rightarrow> bool" where
  "unlimited s \<longleftrightarrow> (never_closed s \<longrightarrow> write_no_limit (flow_ctl s) \<and> 0 < write_quota_token s)"

definition lively :: "session \<Rightarrow> bool" where
  "lively s \<longleftrightarrow> unlimited s \<and>
     (never_closed s \<and> status s = STATUS_CONNECTED \<and> send_token s = TOKEN_FREE \<longrightarrow> swapped_calls s = [] \<and> pending_calls s = [])"

text \<open>
  What is asked of the application's callbacks: they do not undo what has happened, a connected session stays connected unless they close
  it, they leave no message waiting for a free token, and they do not close the connection when told of a sent message.
\<close>

definition callbacks_live :: "callbacks \<Rightarrow> bool" where
  "callbacks_live cb \<longleftrightarrow> (\<forall>e s. sess_inv s \<longrightarrow> (\<exists>es. events (cb e s) = events s @ es) \<and> (lively s \<longrightarrow> lively (cb e s)) \<and>
     (never_closed (cb e s) \<and> status s = STATUS_CONNECTED \<longrightarrow> status (cb e s) = STATUS_CONNECTED) \<and>
     (\<forall>rb. e = SentCallback rb \<and> never_closed s \<longrightarrow> never_closed (cb e s)))"

lemma callbacks_live_id: "callbacks_live (\<lambda>_ s. s)"
  by (simp add: callbacks_live_def)

lemma lively_closed: "\<not> never_closed s \<Longrightarrow> lively s"
  by (simp add: lively_def unlimited_def)

lemma lively_cong:
  assumes "lively s" and "swapped_calls t = swapped_calls s" and "pending_calls t = pending_calls s"
    and "write_no_limit (flow_ctl t) = write_no_limit (flow_ctl s)" and "write_quota_token t = write_quota_token s"
    and "status t = status s" and "send_token t = send_token s" and "never_closed t \<Longrightarrow> never_closed s"
  shows "lively t"
  using assms by (auto simp: lively_def unlimited_def)

lemma lively_emit: "lively s \<Longrightarrow> lively (emit e s)"
  by (erule lively_cong) (simp_all add: emit_def never_closed_def)

lemma lively_call_back:
  assumes "callbacks_live cb" and "quiet e" and "sess_inv s" and "lively s"
  shows "lively (call_back cb e s)"
  using assms emit_inv [OF assms(2,3)] lively_emit [OF assms(4)] by (simp add: call_back_def callbacks_live_def)

lemma lively_receive:
  assumes "lively s"
  shows "lively (snd (try_start_receive s))"
proof -
  obtain b s' where t: "try_start_receive s = (b, s')" by fastforce
  from try_start_receive_frame [OF t] show ?thesis unfolding t snd_conv
    by (intro lively_cong [OF assms]) (simp_all add: never_closed_def)
qed

lemma lively_send:
  assumes inv: "sess_inv s" and u: "unlimited s" and t: "try_start_send s = Some (b, s')"
  shows "lively s'"
proof -
  from try_start_send_ok [OF inv] t have s': "sess_inv s'" "send_token s = TOKEN_LOCK \<longrightarrow> s' = s" "events s' = events s" "status s' = status s"
    by (auto simp: send_frame_def)
  have w: "send_token s' = TOKEN_FREE \<longrightarrow> writes s' = []" using s'(1) by (auto simp: sess_inv_def write_ok_def)
  consider "\<not> never_closed s" | "never_closed s" "send_token s = TOKEN_LOCK" | "never_closed s" "status s \<noteq> STATUS_CONNECTED" "send_token s = TOKEN_FREE"
    | "never_closed s" "status s = STATUS_CONNECTED" "send_token s = TOKEN_FREE"
    by (cases "send_token s") auto
  then show ?thesis
  proof cases
    case 1
    then show ?thesis using s'(3) by (simp add: lively_closed never_closed_def)
  next
    case 2
    then show ?thesis using s'(2) u by (simp add: lively_def)
  next
    case 3
    then have "s' = s" using t by (auto simp: try_start_send_def send_loop.simps [of s] is_connected_def split: if_splits)
    then show ?thesis using u 3 by (simp add: lively_def)
  next
    case 4
    then have "flowing s" using u by (simp add: flowing_def unlimited_def)
    from try_start_send_flows [OF inv this 4(3)] t have "flowing s'" "conserving s'" by auto
    then show ?thesis using w by (auto simp: lively_def unlimited_def flowing_def conserving_def)
  qed
qed

section \<open>Every handler keeps it\<close>

lemma lively_async_send:
  assumes inv: "sess_inv s" "lively s" and f: "fresh_msg rb" and r: "async_send_message rb s = Some s'"
  shows "lively s'"
proof (cases "is_closed s")
  case True
  then show ?thesis using r lively_emit [OF inv(2)] by (auto simp: async_send_message_def)
next
  case False
  let ?s = "emit (Accepted rb) (put_into_pending_queue rb s)"
  have "unlimited ?s" using inv(2) by (simp add: lively_def unlimited_def put_into_pending_queue_def never_closed_def emit_def)
  from lively_send [OF put_inv [OF inv(1) f] this] False r show ?thesis by (auto simp: async_send_message_def)
qed

text \<open>An application that answers every message it receives satisfies what is asked of callbacks.\<close>

definition answering :: "read_buffer \<Rightarrow> callbacks" where
  "answering rb e s = (case e of ReceivedCallback _ \<Rightarrow> (case async_send_message rb s of Some s' \<Rightarrow> s' | None \<Rightarrow> s) | _ \<Rightarrow> s)"

lemma async_send_keeps:
  assumes "sess_inv s" and "fresh_msg rb"
  shows "\<exists>s' e. async_send_message rb s = Some s' \<and> sess_inv s' \<and> events s' = events s @ [e] \<and> e \<noteq> TransportClose \<and>
     status s' = status s \<and> (send_token s = TOKEN_LOCK \<longrightarrow> send_token s' = TOKEN_LOCK \<and> writes s' = writes s)"
proof (cases "is_closed s")
  case True
  then show ?thesis using emit_inv [of "SendFailed ''status is close'' (Some rb)" s] assms(1)
    by (auto simp: async_send_message_def emit_def)
next
  case False
  let ?s = "emit (Accepted rb) (put_into_pending_queue rb s)"
  have f: "send_token ?s = send_token s" "writes ?s = writes s" "status ?s = status s" "events ?s = events s @ [Accepted rb]"
    by (simp_all add: emit_def put_into_pending_queue_def)
  from try_start_send_ok [OF put_inv [OF assms]] obtain b s' where
    "try_start_send ?s = Some (b, s')" "sess_inv s'" "send_token ?s = TOKEN_LOCK \<longrightarrow> s' = ?s" "events s' = events ?s" "status s' = status ?s"
    by (auto simp: send_frame_def)
  with False f show ?thesis by (auto simp: async_send_message_def)
qed

lemma answering_ok:
  assumes "fresh_msg rb"
  shows "callbacks_ok (answering rb) \<and> callbacks_live (answering rb)"
proof -
  have "sess_inv t \<and> (\<exists>es. events t = events s @ es) \<and> (never_closed t \<longrightarrow> never_closed s) \<and> (status s = STATUS_CONNECTED \<longrightarrow> status t = STATUS_CONNECTED) \<and>
      (send_token s = TOKEN_LOCK \<longrightarrow> send_token t = TOKEN_LOCK \<and> writes t = writes s) \<and> (rest_ok s \<longrightarrow> rest_ok t) \<and> (lively s \<longrightarrow> lively t) \<and>
      (\<forall>m. e = SentCallback m \<and> never_closed s \<longrightarrow> never_closed t)"
    if i: "sess_inv s" and t: "t = answering rb e s" for e s t
  proof (cases "\<exists>m. e = ReceivedCallback m")
    case False
    then have "t = s" using t by (cases e) (auto simp: answering_def)
    then show ?thesis using i by simp
  next
    case True
    from async_send_keeps [OF i assms] obtain u e' where u: "async_send_message rb s = Some u" "sess_inv u" "events u = events s @ [e']"
      "e' \<noteq> TransportClose" "status u = status s" "send_token s = TOKEN_LOCK \<longrightarrow> send_token u = TOKEN_LOCK \<and> writes u = writes s"
      by blast
    have "t = u" using t True u(1) by (auto simp: answering_def)
    moreover have "rest_ok s \<longrightarrow> rest_ok u" using async_send_message_ok [OF i _ assms] u(1) by auto
    moreover have "lively s \<longrightarrow> lively u" using lively_async_send [OF i _ assms u(1)] by simp
    ultimately show ?thesis using u True by (auto simp: never_closed_def)
  qed
  then show ?thesis unfolding callbacks_ok_def callbacks_live_def by blast
qed

lemma close_stream_lively: "callbacks_ok cb \<Longrightarrow> sess_inv s \<Longrightarrow> lively (close_stream cb reason s)"
  using close_stream_inv [of cb s reason] by (simp add: lively_closed)

lemma trigger_send_lively:
  assumes "sess_inv s" and "write_no_limit (flow_ctl s)" and "trigger_send s = Some (b, s')"
  shows "lively s'"
proof -
  have "sess_inv (s\<lparr>write_quota_token := 1\<rparr>)"
    using sess_inv_core [of s "s\<lparr>write_quota_token := 1\<rparr>"] assms(1) by (simp add: same_core_def)
  with assms(2,3) lively_send [of "s\<lparr>write_quota_token := 1\<rparr>"] show ?thesis by (simp add: trigger_send_def unlimited_def)
qed

lemma trigger_send_lively_or_closed:
  assumes "sess_inv s" and "unlimited s" and "trigger_send s = Some (b, s')"
  shows "lively s'"
proof (cases "never_closed s")
  case True
  then show ?thesis using trigger_send_lively [OF assms(1) _ assms(3)] assms(2) by (simp add: unlimited_def)
next
  case False
  have "sess_inv (s\<lparr>write_quota_token := 1\<rparr>)"
    using sess_inv_core [of s "s\<lparr>write_quota_token := 1\<rparr>"] assms(1) by (simp add: same_core_def)
  from try_start_send_ok [OF this] assms(3) False show ?thesis
    by (auto simp: trigger_send_def send_frame_def never_closed_def intro!: lively_closed)
qed

lemma message_done_lively:
  assumes cb: "callbacks_ok cb" "callbacks_live cb" and inv: "sess_inv s" "unlimited s" and w: "writes s = []"
    and tok: "send_token s = TOKEN_LOCK" and r: "message_done cb m s = Some s'"
  shows "lively s'"
proof -
  let ?s = "call_back cb (SentCallback m) s"
  have l: "lively ?s" by (rule lively_call_back [OF cb(2) _ inv(1)]) (use inv(2) tok in \<open>simp_all add: lively_def\<close>)
  have i: "sess_inv ?s" "writes ?s = []" using call_back_inv [OF cb(1) _ inv(1)] call_back_send_lock [OF cb(1) _ inv(1) tok] w by auto
  have "unlimited (free_send_token ?s)" using l by (simp add: lively_def unlimited_def free_send_token_def never_closed_def)
  then have "lively s1" if "try_start_send (free_send_token ?s) = Some (b, s1)" for b s1
    using lively_send [OF free_send_token_inv [OF i] _ that] by simp
  with r lively_receive show ?thesis by (auto simp: message_done_def split: option.splits if_splits)
qed

text \<open>A completed write either goes on with the next bytes of its message or is done with it.\<close>

definition written_to :: "session \<Rightarrow> nat \<Rightarrow> session \<Rightarrow> bool" where
  "written_to s k t \<longleftrightarrow> events t = events s @ [Written (hd (writes s)) k] \<and> status t = status s \<and> send_token t = TOKEN_LOCK \<and>
     flow_ctl t = flow_ctl s \<and> write_quota_token t = write_quota_token s"

lemma on_write_some_goes:
  assumes inv: "sess_inv s" and w: "writes s \<noteq> []" and k: "int k \<le> snd (hd (writes s))"
    and st: "status s = STATUS_CONNECTED" and r: "on_write_some cb (Inr k) s = Some s'"
  shows "\<exists>t. written_to s k t \<and> ((\<exists>x. s' = async_write_some x t) \<or> (\<exists>m. message_done cb m t = Some s' \<and> sess_inv t \<and> writes t = []))"
proof -
  let ?s = "s\<lparr>writes := tl (writes s)\<rparr>"
  let ?t = "emit (Written (hd (writes s)) k) (?s\<lparr>last_rw_ticks := ticks s, sent_size := sent_size s + int k,
    total_sent_count := total_sent_count s + 1, total_sent_size := total_sent_size s + int k\<rparr>)"
  obtain p off rb where io: "writes s = [(Some (p, off), sending_size s)]" "sending_data s = Some (p, off)"
    "sending_message s = Some rb" "rb_ok rb" "sending_size s < 2 ^ 31" "send_token s = TOKEN_LOCK"
    using inv w by (auto simp: sess_inv_def write_ok_def)
  have k2: "i32 (int k) = int k" using k io by (simp add: i32_id)
  obtain c rb' where nx: "rb_next rb = (c, rb')" by fastforce
  consider "int k \<noteq> sending_size s" | ch where "int k = sending_size s" "c = Some ch" | "int k = sending_size s" "c = None"
    by (cases c) auto
  then show ?thesis
  proof cases
    case 1
    let ?u = "?t\<lparr>sending_data := Some (p, off + int k), sending_size := sending_size s - int k\<rparr>"
    have "s' = async_write_some (Some (p, off + int k), sending_size s - int k) ?u"
      using r st io(2) k2 1 by (simp add: on_write_some_def Let_def is_connected_def emit_def)
    moreover have "written_to s k ?u" using io(6) by (simp add: written_to_def emit_def)
    ultimately show ?thesis by blast
  next
    case 2
    obtain q o2 sz where ch: "ch = (q, o2, sz)" by (cases ch)
    let ?u = "?t\<lparr>sending_message := Some rb', sending_data := Some (q, o2), sending_size := sz\<rparr>"
    have "s' = async_write_some (Some (q, o2), sz) ?u"
      using r st io(3) k2 2 nx ch by (simp add: on_write_some_def Let_def is_connected_def emit_def next_chunk_def)
    moreover have "written_to s k ?u" using io(6) by (simp add: written_to_def emit_def)
    ultimately show ?thesis by blast
  next
    case 3
    let ?u = "?t\<lparr>sending_message := Some rb'\<rparr>"
    have "message_done cb rb' ?u = Some s'"
      using r st io nx k2 3 by (simp add: on_write_some_def Let_def is_connected_def emit_def next_chunk_def)
    moreover have "rb_left rb = []" using rb_next_addrs [OF io(4)] nx 3 by auto
    then have "sess_inv ?u" using inv io st 3
      by (simp add: sess_inv_def emit_def write_ok_def read_ok_def never_closed_def outstanding_def in_flight_def)
    moreover have "written_to s k ?u" "writes ?u = []" using io(1,6) by (simp_all add: written_to_def emit_def)
    ultimately show ?thesis by blast
  qed
qed

lemma write_lively:
  assumes cb: "callbacks_ok cb" "callbacks_live cb" and inv: "sess_inv s" "lively s" and w: "writes s \<noteq> []"
    and n: "case result of Inl _ \<Rightarrow> True | Inr n \<Rightarrow> int n \<le> snd (hd (writes s))"
    and r: "on_write_some cb result s = Some s'"
  shows "lively s'"
proof -
  let ?s = "s\<lparr>writes := tl (writes s)\<rparr>"
  have io: "tl (writes s) = []" "send_token s = TOKEN_LOCK" using inv(1) w by (auto simp: sess_inv_def write_ok_def)
  have u: "unlimited s" using inv(2) by (simp add: lively_def)
  show ?thesis
  proof (cases "status s = STATUS_CONNECTED")
    case False
    then show ?thesis using r u io(2) by (auto simp: on_write_some_def is_connected_def lively_def unlimited_def never_closed_def)
  next
    case st: True
    show ?thesis
    proof (cases result)
      case (Inl msg)
      let ?t = "clear_sending_env (emit (SendFailed msg (sending_message s)) ?s)"
      have "core_inv ?t" using inv(1) io(1) st
        by (simp add: sess_inv_def core_inv_def clear_sending_env_def emit_def write_ok_def read_ok_def never_closed_def)
      then have "\<not> never_closed (close_stream cb msg ?t)" using close_stream_core [OF cb(1)] by blast
      moreover have "s' = close_stream cb msg ?t" using r st Inl by (simp add: on_write_some_def Let_def is_connected_def emit_def)
      ultimately show ?thesis by (simp add: lively_closed)
    next
      case (Inr k)
      then obtain t where t: "written_to s k t" "(\<exists>x. s' = async_write_some x t) \<or> (\<exists>m. message_done cb m t = Some s' \<and> sess_inv t \<and> writes t = [])"
        using on_write_some_goes [OF inv(1) w _ st, of k cb s'] n r by auto
      have tok: "send_token t = TOKEN_LOCK" and ut: "unlimited t"
        using t(1) u by (auto simp: written_to_def unlimited_def never_closed_def)
      have "lively (async_write_some x t)" for x
        using tok ut by (simp add: lively_def unlimited_def async_write_some_def never_closed_def)
      then show ?thesis using t(2) message_done_lively [OF cb _ ut _ tok] by blast
    qed
  qed
qed

lemma deliver_lively:
  assumes "callbacks_ok cb" and "callbacks_live cb"
  shows "sess_inv s \<Longrightarrow> lively s \<Longrightarrow> lively (deliver cb items s)"
  by (induction items arbitrary: s) (simp_all add: call_back_inv [OF assms(1)] lively_call_back [OF assms(2)])

lemma read_lively:
  assumes cb: "callbacks_ok cb" "callbacks_live cb" and inv: "sess_inv s" "rest_ok s" "lively s" and r: "on_read_some cb result s = Some s'"
  shows "lively s'"
proof -
  let ?s = "s\<lparr>reads := tl (reads s)\<rparr>"
  have i: "sess_inv ?s" "lively ?s" using inv(1) lively_cong [OF inv(3), of ?s]
    by (auto simp: sess_inv_def write_ok_def read_ok_def never_closed_def outstanding_def)
  show ?thesis
  proof (cases "is_connected ?s")
    case False
    then show ?thesis using i r by (simp add: on_read_some_def)
  next
    case True
    show ?thesis
    proof (cases result)
      case (Inl msg)
      then show ?thesis using True r close_stream_lively [OF cb(1) i(1)] by (auto simp: on_read_some_def)
    next
      case (Inr bs)
      let ?t = "?s\<lparr>last_rw_ticks := ticks s, total_received_count := total_received_count s + 1,
        total_received_size := total_received_size s + int (length bs)\<rparr>"
      from r True Inr obtain res rx' m where
        rb: "receive_bytes (read_buffer_base_block_factor s) bs (rx s) (heap s) = Some (res, rx', m)"
          "case res of Inl reason \<Rightarrow> s' = close_stream cb reason (?t\<lparr>rx := rx', heap := m\<rparr>)
          | Inr items \<Rightarrow> s' = deliver cb items (snd (try_start_receive (free_receive_token (?t\<lparr>rx := rx', heap := m\<rparr>))))"
        by (auto simp: on_read_some_def Let_def split: option.splits sum.splits)
      let ?u = "?t\<lparr>rx := rx', heap := m\<rparr>"
      have u: "sess_inv ?u" using sess_inv_core [of ?s ?u] i(1) by (simp add: same_core_def)
      have lu: "lively (free_receive_token ?u)" by (rule lively_cong [OF i(2)]) (simp_all add: free_receive_token_def never_closed_def)
      have "tl (reads s) = []" using inv(1) by (cases "reads s") (auto simp: sess_inv_def read_ok_def)
      then have fr: "sess_inv (free_receive_token ?u)"
        using u by (auto simp: sess_inv_def free_receive_token_def write_ok_def read_ok_def never_closed_def outstanding_def)
      then have "sess_inv (snd (try_start_receive (free_receive_token ?u)))" using try_start_receive_ok [OF fr] by auto
      then show ?thesis using rb(2) close_stream_lively [OF cb(1) u] deliver_lively [OF cb _ lively_receive [OF lu]]
        by (auto split: sum.splits)
    qed
  qed
qed

lemma connected_lively:
  assumes cb: "callbacks_ok cb" "callbacks_live cb" and inv: "sess_inv s" "rest_ok s" "lively s" and r: "set_socket_connected cb ok s = Some s'"
  shows "lively s'"
proof -
  let ?s = "emit TimerCancel (s\<lparr>last_rw_ticks := ticks s\<rparr>)"
  have "sess_inv (s\<lparr>last_rw_ticks := ticks s\<rparr>) \<and> rest_ok (s\<lparr>last_rw_ticks := ticks s\<rparr>)"
    by (rule quiet_update_ok [OF _ inv(1,2)]) (simp add: same_core_def)
  then have i: "sess_inv ?s" "rest_ok ?s" using emit_inv [of TimerCancel "s\<lparr>last_rw_ticks := ticks s\<rparr>"] rest_ok_emit by auto
  have l: "lively ?s" by (rule lively_cong [OF inv(3)]) (simp_all add: emit_def never_closed_def)
  show ?thesis
  proof (cases ok)
    case False
    then show ?thesis using r close_stream_lively [OF cb(1) i(1)]
      by (auto simp: set_socket_connected_def set_connected_options_def Let_def)
  next
    case True
    with r obtain b s3 where oc: "on_connected cb ?s = Some (b, s3)"
      by (auto simp: set_socket_connected_def set_connected_options_def Let_def split: option.splits)
    have i3: "sess_inv s3" "rest_ok s3" using on_connected_ok [OF cb(1) i oc] by auto
    have b: b using oc by (auto simp: on_connected_def)
    obtain res rx' m where "reset_tran_buf (read_buffer_base_block_factor ?s) (reset_receiving_env (rx ?s)) (heap ?s) = Some (res, rx', m)"
      and e: "s3 = call_back cb ConnectedCallback
        (if res then ?s\<lparr>rx := rx', heap := m\<rparr> else close_stream cb ''out of memory'' (?s\<lparr>rx := rx', heap := m\<rparr>))"
      using oc by (auto simp: on_connected_def ms_on_connected_def Let_def split: option.splits if_splits)
    let ?m = "?s\<lparr>rx := rx', heap := m\<rparr>"
    have im: "sess_inv ?m" using quiet_update_ok [OF _ i, of ?m] by (simp add: same_core_def)
    have lm: "lively ?m" by (rule lively_cong [OF l]) (simp_all add: never_closed_def)
    have u3: "unlimited s3"
      using lively_call_back [OF cb(2) _ im lm] close_stream_inv [OF cb(1) im] close_stream_lively [OF cb(1) im] lively_call_back [OF cb(2)] e
      by (auto simp: lively_def)
    let ?c = "s3\<lparr>status := STATUS_CONNECTED\<rparr>"
    have c: "sess_inv ?c" "rest_ok ?c" "unlimited ?c"
      using i3 u3 by (auto simp: sess_inv_def write_ok_def read_ok_def never_closed_def outstanding_def rest_ok_def unlimited_def)
    have "sess_inv (snd (trigger_receive ?c))" using trigger_receive_ok [OF c(1,2)] by simp
    moreover have "unlimited (snd (trigger_receive ?c))"
      using c(3) try_start_receive_frame [of "?c\<lparr>read_quota_token := 1\<rparr>"]
      by (cases "trigger_receive ?c") (auto simp: trigger_receive_def unlimited_def never_closed_def)
    ultimately show ?thesis using r oc b True trigger_send_lively_or_closed
      by (auto simp: set_socket_connected_def set_connected_options_def Let_def)
  qed
qed

lemma send_turn_limit:
  assumes "send_turn s = (r, s')"
  shows "write_no_limit (flow_ctl s') = write_no_limit (flow_ctl s)"
proof -
  obtain o1 s1 where g: "get_from_pending_queue s = (o1, s1)" by fastforce
  have a: "write_no_limit (snd (acquire_write_quota n fc)) = write_no_limit fc" for n fc
    by (simp add: acquire_write_quota_def Let_def split: prod.splits)
  have nx: "flow_ctl (snd (next_chunk m t)) = flow_ctl t" for m t by (auto simp: next_chunk_def split: prod.splits option.splits)
  obtain q fc where q: "acquire_write_quota (i32 (rb_total_bytes (the o1))) (flow_ctl s1) = (q, fc)" by fastforce
  have "write_no_limit fc = write_no_limit (flow_ctl s)" using a [of "i32 (rb_total_bytes (the o1))" "flow_ctl s1"] q get_frame [OF g] by simp
  with assms g q get_frame [OF g] show ?thesis
    by (cases o1) (auto simp: send_turn_def on_sending_def Let_def free_send_token_def clear_sending_env_def insert_into_pending_queue_def
        async_write_some_def nx split: if_splits)
qed

lemma try_start_send_limit:
  assumes "sess_inv s" and "try_start_send s = Some (b, s')"
  shows "write_no_limit (flow_ctl s') = write_no_limit (flow_ctl s)"
proof (cases "send_token s = TOKEN_LOCK \<or> write_quota_token s \<le> 0 \<or> \<not> is_connected s")
  case True
  then show ?thesis using assms(2) by (auto simp: try_start_send_def send_loop.simps [of s] split: if_splits)
next
  case False
  then have t: "send_token s = TOKEN_FREE" "status s = STATUS_CONNECTED" by (cases "send_token s"; simp add: is_connected_def)+
  then have w: "writes s = []" using assms(1) by (auto simp: sess_inv_def write_ok_def)
  let ?s = "s\<lparr>send_token := TOKEN_LOCK\<rparr>"
  have "sess_inv ?s" using assms(1) w by (simp add: sess_inv_def write_ok_def read_ok_def never_closed_def outstanding_def)
  from send_turn_ok [OF this] t w obtain b' u where "send_turn ?s = (Some b', u)" by auto
  moreover from this assms(2) False t have "u = s'" by (simp add: try_start_send_def send_loop.simps [of s] atomic_comp_swap_def)
  ultimately show ?thesis using send_turn_limit [of ?s] by simp
qed

lemma sess_step_lively:
  assumes cb: "callbacks_ok cb" "callbacks_live cb" and step: "sess_step cb s s'" and nl: "write_no_limit (flow_ctl s')"
    and i: "sess_inv s" "rest_ok s" "lively s"
  shows "lively s'"
  using step
proof cases
  case (send rb)
  then show ?thesis using lively_async_send [OF i(1,3)] by blast
next
  case connect
  then show ?thesis using i(3) by (auto simp: async_connect_def Let_def lively_def unlimited_def emit_def never_closed_def)
next
  case (connected failed ok)
  then show ?thesis using i(3) close_stream_lively [OF cb(1) i(1)] connected_lively [OF cb i]
    by (auto simp: on_connect_def split: if_splits)
next
  case (by_listener ok)
  then show ?thesis using connected_lively [OF cb i] by blast
next
  case (timeout aborted)
  then show ?thesis using i(3) close_stream_lively [OF cb(1) i(1)] by (simp add: on_connect_timeout_def)
next
  case (read_done result)
  then show ?thesis using read_lively [OF cb i] by blast
next
  case (write_done result)
  then show ?thesis using write_lively [OF cb i(1,3)] by blast
next
  case (refill_read fc b)
  then have "write_no_limit fc" using nl try_start_receive_frame by (fastforce simp: trigger_receive_def)
  then have "lively (s\<lparr>flow_ctl := fc, read_quota_token := 1\<rparr>)" using i(3) by (simp add: lively_def unlimited_def never_closed_def)
  from lively_receive [OF this] refill_read show ?thesis by (simp add: trigger_receive_def)
next
  case (refill_write fc b)
  let ?s = "s\<lparr>flow_ctl := fc, write_quota_token := 1\<rparr>"
  have inv: "sess_inv ?s" using sess_inv_core [of s ?s] i(1) by (simp add: same_core_def)
  have "try_start_send ?s = Some (b, s')" using refill_write by (simp add: trigger_send_def)
  moreover have "write_no_limit fc" using nl try_start_send_limit [OF inv calculation] by simp
  ultimately show ?thesis using lively_send [OF inv] by (simp add: unlimited_def)
next
  case (tick t u)
  then show ?thesis using i(3) by (simp add: reset_ticks_def Let_def lively_def unlimited_def never_closed_def)
next
  case shutdown
  have "sess_inv (s\<lparr>start_heartbeat := False\<rparr>)" using sess_inv_core [of s "s\<lparr>start_heartbeat := False\<rparr>"] i(1) by (simp add: same_core_def)
  then have "sess_inv (emit HeartbeatCancel (s\<lparr>start_heartbeat := False\<rparr>))" using emit_inv by simp
  then show ?thesis using shutdown close_stream_lively [OF cb(1)] by (simp add: ShutDown_def)
next
  case (close reason)
  then show ?thesis using close_stream_lively [OF cb(1) i(1)] by simp
next
  case (heartbeat d)
  then show ?thesis using lively_cong [OF i(3), of s']
    by (simp add: StartHeartbeat_def ScheduleHeartbeatWait_def emit_def never_closed_def)
qed

text \<open>The runs of a connection whose flow controller never limits writes.\<close>

inductive unlimited_reach :: "callbacks \<Rightarrow> session \<Rightarrow> bool" for cb where
  new: "unlimited_reach cb (Session nt m)"
| step: "unlimited_reach cb s \<Longrightarrow> sess_step cb s s' \<Longrightarrow> write_no_limit (flow_ctl s') \<Longrightarrow> unlimited_reach cb s'"

lemma unlimited_reach_ok:
  "unlimited_reach cb s \<Longrightarrow> callbacks_ok cb \<Longrightarrow> callbacks_live cb \<Longrightarrow> sess_inv s \<and> rest_ok s \<and> lively s"
proof (induction rule: unlimited_reach.induct)
  case (new nt m)
  then show ?case using sess_inv_new [of nt m]
    by (simp add: rest_ok_def lively_def unlimited_def Session_def FlowController_def)
next
  case (step s s')
  then show ?case using sess_step_ok sess_step_lively by blast
qed

section \<open>Everything is sent\<close>

text \<open>A completion puts its bytes on the wire and leaves the connection open; the application may queue more messages.\<close>

lemma write_progress:
  assumes cb: "callbacks_ok cb" "callbacks_live cb" and inv: "sess_inv s" "rest_ok s" "lively s" "never_closed s" "status s = STATUS_CONNECTED"
    and w: "writes s \<noteq> []" and k: "int k \<le> snd (hd (writes s))" and r: "on_write_some cb (Inr k) s = Some s'"
  shows "never_closed s' \<and> status s' = STATUS_CONNECTED \<and> (\<exists>xs. accepted (events s') = accepted (events s) @ xs) \<and>
     length (wire (events s)) + k \<le> length (wire (events s'))"
proof -
  obtain t where t: "written_to s k t" "(\<exists>x. s' = async_write_some x t) \<or> (\<exists>m. message_done cb m t = Some s' \<and> sess_inv t \<and> writes t = [])"
    using on_write_some_goes [OF inv(1) w k inv(5) r] by blast
  obtain p off where "hd (writes s) = (Some (p, off), sending_size s)"
    using inv(1) w by (auto simp: sess_inv_def write_ok_def)
  then have log: "never_closed t" "status t = STATUS_CONNECTED" "accepted (events t) = accepted (events s)"
    "length (wire (events t)) = length (wire (events s)) + k"
    using t(1) inv(4,5) by (auto simp: written_to_def never_closed_def)
  from t(2) show ?thesis
  proof
    assume "\<exists>x. s' = async_write_some x t"
    then show ?thesis using log by (auto simp: async_write_some_def never_closed_def)
  next
    assume "\<exists>m. message_done cb m t = Some s' \<and> sess_inv t \<and> writes t = []"
    then obtain m where m: "message_done cb m t = Some s'" "sess_inv t" "writes t = []" by blast
    let ?e = "emit (SentCallback m) t" and ?u = "call_back cb (SentCallback m) t"
    have tok: "send_token t = TOKEN_LOCK" using t(1) by (simp add: written_to_def)
    have i: "sess_inv ?u" "writes ?u = []"
      using call_back_inv [OF cb(1) _ m(2)] call_back_send_lock [OF cb(1) _ m(2) tok] m(3) by auto
    have "sess_inv ?e" "never_closed ?e" using emit_inv m(2) log(1) by simp_all
    moreover have "status ?e = STATUS_CONNECTED" using log(2) by (simp add: emit_def)
    ultimately obtain es where "events ?u = events ?e @ es" "never_closed ?u" "status ?u = STATUS_CONNECTED"
      using cb(2) by (fastforce simp: callbacks_live_def call_back_def)
    then have u: "never_closed ?u" "status ?u = STATUS_CONNECTED" "accepted (events ?u) = accepted (events t) @ accepted es"
      "length (wire (events t)) \<le> length (wire (events ?u))" by (simp_all add: emit_def)
    have "sess_inv (free_send_token ?u)" by (rule free_send_token_inv [OF i])
    from try_start_send_ok [OF this] obtain b s1 where
      s1: "try_start_send (free_send_token ?u) = Some (b, s1)" "events s1 = events ?u" "status s1 = status ?u"
      by (auto simp: send_frame_def free_send_token_def)
    have "s' = (if net_type s1 = NT_SERVER then snd (try_start_receive s1) else s1)" using m(1) s1(1) by (simp add: message_done_def)
    then have "events s' = events ?u" "status s' = status ?u"
      using s1(2,3) try_start_receive_frame [of s1] by (cases "try_start_receive s1"; auto)+
    then show ?thesis using u log by (auto simp: never_closed_def)
  qed
qed

lemma complete_writes_sends:
  assumes cb: "callbacks_ok cb" "callbacks_live cb"
  shows "sess_inv s \<Longrightarrow> rest_ok s \<Longrightarrow> lively s \<Longrightarrow> never_closed s \<Longrightarrow> status s = STATUS_CONNECTED \<Longrightarrow>
     accepted (events s) = goal @ xs \<Longrightarrow> length goal \<le> length (wire (events s)) + length ks \<Longrightarrow>
     \<exists>s' ys. complete_writes cb ks s = Some s' \<and> never_closed s' \<and> wire (events s') = goal @ ys"
proof (induction ks arbitrary: s xs)
  case Nil
  then have "goal @ xs = wire (events s) @ outstanding s" by (simp add: sess_inv_def)
  moreover have "length goal \<le> length (wire (events s))" using Nil.prems(7) by simp
  ultimately have "wire (events s) = goal @ drop (length goal) (wire (events s))"
    by (metis append_eq_append_conv_if append_take_drop_id)
  then show ?case using Nil.prems(4) by auto
next
  case (Cons k ks)
  show ?case
  proof (cases "writes s")
    case Nil
    then have "send_token s = TOKEN_FREE" using Cons.prems(2,4) by (cases "send_token s") (auto simp: rest_ok_def)
    then have "outstanding s = []" using Nil Cons.prems(3-5) by (simp add: lively_def outstanding_def in_flight_def)
    then have "wire (events s) = goal @ xs" using Cons.prems(1,4,6) by (simp add: sess_inv_def)
    with Nil Cons.prems(4) show ?thesis by simp
  next
    case w: (Cons io ws)
    let ?n = "min (max 1 k) (nat (snd io))"
    have pos: "0 < snd io" using Cons.prems(1) w by (auto simp: sess_inv_def write_ok_def)
    have n: "int ?n \<le> snd (hd (writes s))" "1 \<le> ?n" using pos by (simp_all add: w)
    have ne: "writes s \<noteq> []" using w by simp
    from on_write_some_ok [OF cb(1) Cons.prems(1,2) ne, of "Inr ?n"] n(1) obtain s1 where
      s1: "on_write_some cb (Inr ?n) s = Some s1" "sess_inv s1" "rest_ok s1" by auto
    have l1: "lively s1" using write_lively [OF cb Cons.prems(1,3) ne _ s1(1)] n(1) by simp
    from write_progress [OF cb Cons.prems(1-5) ne n(1) s1(1)] obtain zs where
      p: "never_closed s1" "status s1 = STATUS_CONNECTED" "accepted (events s1) = goal @ xs @ zs"
        "length (wire (events s)) + ?n \<le> length (wire (events s1))"
      using Cons.prems(6) by auto
    have "length goal \<le> length (wire (events s1)) + length ks" using Cons.prems(7) p(4) n(2) by simp
    from Cons.IH [OF s1(2,3) l1 p(1-3) this] show ?thesis using s1(1) w by (simp only: complete_writes.simps list.case option.case)
  qed
qed

text \<open>
  C4. Whatever a connection without write limit has been through, while it is open and connected every byte it has accepted reaches the
  wire: if the transport keeps completing the writes it is given, in pieces of any size, then after at most as many completions as bytes
  are outstanding the wire holds all of them, also when the application queues more messages meanwhile. The callbacks act on the
  session only as its public operations do (\<open>callbacks_ok\<close>, \<open>callbacks_live\<close>) and do not close it when told of a sent message.
\<close>

theorem everything_is_sent:
  assumes "callbacks_ok cb" and "callbacks_live cb" and "unlimited_reach cb s" and "never_closed s"
    and "status s = STATUS_CONNECTED" and "length (outstanding s) \<le> length sizes"
  shows "\<exists>s' ys. complete_writes cb sizes s = Some s' \<and> never_closed s' \<and> wire (events s') = accepted (events s) @ ys"
proof -
  have ok: "sess_inv s" "rest_ok s" "lively s" using unlimited_reach_ok [OF assms(3,1,2)] by auto
  then have "length (accepted (events s)) \<le> length (wire (events s)) + length sizes" using assms(4,6) by (simp add: sess_inv_def)
  then show ?thesis using complete_writes_sends [OF assms(1,2) ok assms(4,5), of "accepted (events s)" "[]"] by simp
qed

lemma demo_unlimited: "unlimited_reach (\<lambda>_ t. t) demo_sending"
proof -
  have "unlimited_reach (\<lambda>_ t. t) (async_connect (Session NT_CLIENT mem0))"
    by (rule unlimited_reach.step [OF unlimited_reach.new sess_step.connect])
      (simp_all add: Session_def async_connect_def emit_def FlowController_def)
  then have "unlimited_reach (\<lambda>_ t. t) demo_connected"
    by (rule unlimited_reach.step [OF _ sess_step.connected [OF demo_connect]]) (use demo_connected_flows(1) in \<open>simp add: flowing_def\<close>)
  then show ?thesis
    by (rule unlimited_reach.step [OF _ sess_step.send [OF fresh_example(1) demo_send(1) [OF fresh_example(1)]]])
      (use demo_send(2) [OF fresh_example(1)] in \<open>simp add: flowing_def\<close>)
qed

theorem everything_is_sent_witness:
  "\<exists>s' ys. complete_writes (\<lambda>_ t. t) [1, 0, 7] demo_sending = Some s' \<and> wire (events s') = rb_addrs rb_example @ ys"
proof -
  have "never_closed demo_sending" "status demo_sending = STATUS_CONNECTED" using demo_send(2) [OF fresh_example(1)] by (simp_all add: flowing_def)
  from everything_is_sent [OF callbacks_ok_id callbacks_live_id demo_unlimited this, of "[1, 0, 7]"] demo_outstanding
    demo_accepted [OF fresh_example(1)]
  show ?thesis by (auto simp del: complete_writes.simps)
qed

end
