(* ===== verification/Send_Race.thy ===== *)
theory Send_Race
  imports Atomics
begin

text \<open>
  \<^verbatim>\<open>MessageStream::try_start_send\<close> (\<^verbatim>\<open>src/message_stream/message_stream.cpp\<close>) as several threads run it at
  once: any thread may send, the transport's thread completes writes, the maintenance thread refills the quota.
  A step is one access to shared state: the send token, the quota token, the status, the counter, or a queue under
  its mutex. The theorems: one thread at a time owns the transfer, messages leave in the order they were put in, and no
  message is left behind, unless the quota is refilled at the wrong moment.
\<close>

section \<open>The threads\<close>

datatype send_pc =
    Idle
  | CheckToken      \<comment> \<open>\<^verbatim>\<open>if (_send_token == TOKEN_LOCK) return false\<close>\<close>
  | CheckQuota      \<comment> \<open>\<^verbatim>\<open>if (_write_quota_token <= 0) return false\<close>\<close>
  | CheckStatus     \<comment> \<open>\<^verbatim>\<open>while (is_connected() && ...\<close>\<close>
  | TakeToken       \<comment> \<open>\<^verbatim>\<open>atomic_comp_swap(&_send_token, TOKEN_LOCK, TOKEN_FREE)\<close>\<close>
  | GetCheck        \<comment> \<open>\<^verbatim>\<open>if (_swapped_calls.empty() && _pending_message_count > 0)\<close>\<close>
  | GetSwap         \<comment> \<open>the exchange of the queues under the mutex\<close>
  | GetPop          \<comment> \<open>the rest of \<^verbatim>\<open>get_from_pending_queue\<close>\<close>
  | AskQuota        \<comment> \<open>\<^verbatim>\<open>acquire_write_quota\<close>\<close>
  | PutBack         \<comment> \<open>\<^verbatim>\<open>insert_into_pending_queue\<close> and \<^verbatim>\<open>clear_sending_env\<close>\<close>
  | FreeAndStop     \<comment> \<open>the token is freed, then \<^verbatim>\<open>break\<close>\<close>
  | StartWrite      \<comment> \<open>\<^verbatim>\<open>async_write_some\<close>, then \<^verbatim>\<open>break\<close>\<close>
  | FreeAndCheck    \<comment> \<open>the token is freed after an empty queue was seen\<close>
  | CheckCount      \<comment> \<open>\<^verbatim>\<open>if (_pending_message_count == 0) break\<close>\<close>
  | FreeAfterSent   \<comment> \<open>in \<^verbatim>\<open>on_write_some\<close>, after the last byte\<close>

record race =
  pending :: "nat list"
  pend_count :: int
  swapped :: "nat list"
  locked :: bool                 \<comment> \<open>\<^verbatim>\<open>_send_token == TOKEN_LOCK\<close>\<close>
  quota_token :: int
  connected :: bool
  sending :: "nat option"        \<comment> \<open>\<^verbatim>\<open>_sending_message\<close>, while it is not sent\<close>
  writing :: bool
  pcs :: "nat \<Rightarrow> send_pc"
  put_log :: "nat list"
  sent_log :: "nat list"

definition race_init :: race where
  "race_init = \<lparr>pending = [], pend_count = 0, swapped = [], locked = False, quota_token = 1, connected = True,
     sending = None, writing = False, pcs = (\<lambda>_. Idle), put_log = [], sent_log = []\<rparr>"

definition goto :: "nat \<Rightarrow> send_pc \<Rightarrow> race \<Rightarrow> race" where
  "goto t p s = s\<lparr>pcs := (pcs s)(t := p)\<rparr>"

text \<open>What a thread does at each point; \<open>q\<close> is what the flow controller returns when it is asked.\<close>

fun run_pc :: "int \<Rightarrow> nat \<Rightarrow> send_pc \<Rightarrow> race \<Rightarrow> race" where
  "run_pc q t Idle s = s"
| "run_pc q t CheckToken s = goto t (if locked s then Idle else CheckQuota) s"
| "run_pc q t CheckQuota s = goto t (if quota_token s \<le> 0 then Idle else CheckStatus) s"
| "run_pc q t CheckStatus s = goto t (if connected s then TakeToken else Idle) s"
| "run_pc q t TakeToken s =
     (let (cell, old) = atomic_comp_swap (locked s) True False
      in goto t (if old then Idle else GetCheck) (s\<lparr>locked := cell\<rparr>))"
| "run_pc q t GetCheck s = goto t (if swapped s = [] \<and> pend_count s > 0 then GetSwap else GetPop) s"
| "run_pc q t GetSwap s =
     goto t GetPop (if pending s \<noteq> [] then s\<lparr>swapped := pending s, pending := swapped s, pend_count := 0\<rparr> else s)"
| "run_pc q t GetPop s =
     (case swapped s of
        [] \<Rightarrow> goto t FreeAndCheck s
      | m # ms \<Rightarrow> goto t AskQuota (s\<lparr>swapped := ms, sending := Some m\<rparr>))"
| "run_pc q t AskQuota s = goto t (if q \<le> 0 then PutBack else StartWrite) (s\<lparr>quota_token := q\<rparr>)"
| "run_pc q t PutBack s = goto t FreeAndStop (s\<lparr>swapped := the (sending s) # swapped s, sending := None\<rparr>)"
| "run_pc q t FreeAndStop s = goto t Idle (s\<lparr>locked := fst (atomic_comp_swap (locked s) False True)\<rparr>)"
| "run_pc q t StartWrite s = goto t Idle (s\<lparr>writing := True\<rparr>)"
| "run_pc q t FreeAndCheck s = goto t CheckCount (s\<lparr>locked := fst (atomic_comp_swap (locked s) False True)\<rparr>)"
| "run_pc q t CheckCount s = goto t (if pend_count s = 0 then Idle else CheckStatus) s"
| "run_pc q t FreeAfterSent s = goto t CheckToken (s\<lparr>locked := fst (atomic_comp_swap (locked s) False True)\<rparr>)"

text \<open>
  Besides running on, an idle thread may send a message or, as the transport's thread, report that the message has been
  written; the connection may be closed; and if \<open>refill\<close> is set, an idle thread may run \<^verbatim>\<open>trigger_send\<close>.
\<close>

inductive race_step :: "bool \<Rightarrow> race \<Rightarrow> race \<Rightarrow> bool" for refill where
  run: "pcs s t \<noteq> Idle \<Longrightarrow> race_step refill s (run_pc q t (pcs s t) s)"
| put: "pcs s t = Idle \<Longrightarrow>
     race_step refill s (goto t CheckToken (s\<lparr>pending := pending s @ [m], pend_count := pend_count s + 1,
       put_log := put_log s @ [m]\<rparr>))"
| written: "pcs s t = Idle \<Longrightarrow> writing s \<Longrightarrow> connected s \<Longrightarrow>
     race_step refill s (goto t FreeAfterSent (s\<lparr>writing := False, sending := None,
       sent_log := sent_log s @ [the (sending s)]\<rparr>))"
| close: "race_step refill s (s\<lparr>connected := False\<rparr>)"
| trigger: "refill \<Longrightarrow> pcs s t = Idle \<Longrightarrow> race_step refill s (goto t CheckToken (s\<lparr>quota_token := 1\<rparr>))"

inductive race_reach :: "bool \<Rightarrow> race \<Rightarrow> bool" for refill where
  init: "race_reach refill race_init"
| step: "race_reach refill s \<Longrightarrow> race_step refill s s' \<Longrightarrow> race_reach refill s'"

section \<open>Ownership and order\<close>

fun owns :: "send_pc \<Rightarrow> bool" where
  "owns GetCheck = True" | "owns GetSwap = True" | "owns GetPop = True" | "owns AskQuota = True" | "owns PutBack = True"
| "owns FreeAndStop = True" | "owns StartWrite = True" | "owns FreeAndCheck = True" | "owns FreeAfterSent = True"
| "owns _ = False"

fun carries :: "send_pc \<Rightarrow> bool" where
  "carries AskQuota = True" | "carries PutBack = True" | "carries StartWrite = True"
| "carries _ = False"

text \<open>Who owns the transfer: nobody, a thread, or the transport while a write is in flight.\<close>

datatype owner = Nobody | Thread nat | Transport

fun owner_ok :: "owner \<Rightarrow> race \<Rightarrow> bool" where
  "owner_ok Nobody s \<longleftrightarrow> \<not> locked s \<and> \<not> writing s \<and> sending s = None \<and> (\<forall>t. \<not> owns (pcs s t))"
| "owner_ok Transport s \<longleftrightarrow> locked s \<and> writing s \<and> sending s \<noteq> None \<and> (\<forall>t. \<not> owns (pcs s t))"
| "owner_ok (Thread u) s \<longleftrightarrow>
     locked s \<and> \<not> writing s \<and> owns (pcs s u) \<and> (\<forall>t. t \<noteq> u \<longrightarrow> \<not> owns (pcs s t)) \<and>
     (sending s \<noteq> None \<longleftrightarrow> carries (pcs s u)) \<and> (pcs s u = GetSwap \<or> pcs s u = FreeAndCheck \<longrightarrow> swapped s = [])"

definition queue_inv :: "race \<Rightarrow> bool" where
  "queue_inv s \<longleftrightarrow> pend_count s = int (length (pending s)) \<and>
     put_log s = sent_log s @ (case sending s of None \<Rightarrow> [] | Some m \<Rightarrow> [m]) @ swapped s @ pending s"

lemma goto_simps [simp]:
  "pcs (goto t p s) = (pcs s)(t := p)" "pending (goto t p s) = pending s" "pend_count (goto t p s) = pend_count s"
  "swapped (goto t p s) = swapped s" "locked (goto t p s) = locked s" "quota_token (goto t p s) = quota_token s"
  "connected (goto t p s) = connected s" "sending (goto t p s) = sending s" "writing (goto t p s) = writing s"
  "put_log (goto t p s) = put_log s" "sent_log (goto t p s) = sent_log s"
  by (simp_all add: goto_def)

lemma owner_is:
  assumes "owner_ok w s" and "owns (pcs s t)"
  shows "w = Thread t"
proof (cases w)
  case (Thread u)
  then show ?thesis using assms by (cases "u = t") auto
qed (use assms in auto)

text \<open>A thread that does not own the transfer changes nothing but its place, or becomes the owner.\<close>

lemma bystander_moves: "owner_ok w s \<Longrightarrow> \<not> owns (pcs s t) \<Longrightarrow> \<not> owns p \<Longrightarrow> owner_ok w (goto t p s)"
  by (cases w) auto

lemma bystander_step:
  assumes w: "owner_ok w s" and "\<not> owns (pcs s t)"
  shows "\<exists>w'. owner_ok w' (run_pc q t (pcs s t) s)"
proof (cases "pcs s t = TakeToken \<and> \<not> locked s")
  case True
  then have "w = Nobody" using w by (cases w) auto
  then have "owner_ok (Thread t) (run_pc q t (pcs s t) s)" using w True by (simp add: atomic_comp_swap_def)
  then show ?thesis ..
next
  case False
  have "owner_ok w (run_pc q t (pcs s t) s)"
  proof (cases "pcs s t = TakeToken")
    case True
    with False have "locked s" by simp
    with True show ?thesis using w by (cases w) (auto simp: atomic_comp_swap_def)
  next
    case False
    then show ?thesis using assms bystander_moves [OF assms] by (cases "pcs s t") simp_all
  qed
  then show ?thesis ..
qed

lemma owner_step:
  assumes w: "owner_ok (Thread t) s" and "owns (pcs s t)"
  shows "\<exists>w'. owner_ok w' (run_pc q t (pcs s t) s)"
proof -
  let ?s = "run_pc q t (pcs s t) s"
  have "owner_ok (if pcs s t = StartWrite then Transport
      else if pcs s t = FreeAndStop \<or> pcs s t = FreeAndCheck \<or> pcs s t = FreeAfterSent then Nobody else Thread t) ?s"
    using assms by (cases "pcs s t") (auto simp: atomic_comp_swap_def split: list.splits)
  then show ?thesis ..
qed

lemma run_queue:
  assumes w: "owner_ok w s" and "queue_inv s"
  shows "queue_inv (run_pc q t (pcs s t) s)"
proof -
  have "owns (pcs s t) \<Longrightarrow> w = Thread t" by (rule owner_is [OF w])
  then show ?thesis using assms
    by (cases "pcs s t") (auto simp: queue_inv_def Let_def split: list.splits option.splits prod.splits)
qed

lemma race_step_ok:
  assumes "race_step refill s s'" and w: "owner_ok w s" and "queue_inv s"
  shows "(\<exists>w'. owner_ok w' s') \<and> queue_inv s'"
  using assms(1)
proof cases
  case (run t q)
  show ?thesis
  proof (cases "owns (pcs s t)")
    case True
    then show ?thesis using run owner_step [of t s q] owner_is [OF w] w run_queue [OF w assms(3)] by auto
  next
    case False
    then show ?thesis using run bystander_step [OF w False] run_queue [OF w assms(3)] by auto
  qed
next
  case (put t m)
  then have "owner_ok w s'" using w by (cases w) auto
  then show ?thesis using put assms(3) by (auto simp: queue_inv_def)
next
  case (written t)
  then have "w = Transport" using w by (cases w) auto
  then have "owner_ok (Thread t) s'" using written w by auto
  moreover have "queue_inv s'" using written assms(3) w \<open>w = Transport\<close> by (auto simp: queue_inv_def)
  ultimately show ?thesis by blast
next
  case close
  then have "owner_ok w s'" using w by (cases w) auto
  then show ?thesis using close assms(3) by (auto simp: queue_inv_def)
next
  case (trigger t)
  then have "owner_ok w s'" using w by (cases w) auto
  then show ?thesis using trigger assms(3) by (auto simp: queue_inv_def)
qed

lemma race_reach_ok: "race_reach refill s \<Longrightarrow> (\<exists>w. owner_ok w s) \<and> queue_inv s"
proof (induction rule: race_reach.induct)
  case init
  have "owner_ok Nobody race_init" by (simp add: race_init_def)
  moreover have "queue_inv race_init" by (simp add: queue_inv_def race_init_def)
  ultimately show ?case by blast
next
  case (step s s')
  then show ?case using race_step_ok by blast
qed

text \<open>
  C14. Whatever the threads do, at most one of them owns the transfer, none while a write is in flight; and what
  has been sent, the message in hand, and the two queues together are always the messages in the order in which
  they were put in.
\<close>

theorem send_queue_is_fifo:
  assumes "race_reach refill s"
  shows "(\<forall>t t'. owns (pcs s t) \<and> owns (pcs s t') \<longrightarrow> t = t') \<and> (writing s \<longrightarrow> (\<forall>t. \<not> owns (pcs s t))) \<and>
     put_log s = sent_log s @ (case sending s of None \<Rightarrow> [] | Some m \<Rightarrow> [m]) @ swapped s @ pending s"
proof -
  obtain w where w: "owner_ok w s" and q: "queue_inv s" using race_reach_ok [OF assms] by blast
  have "\<forall>t t'. owns (pcs s t) \<and> owns (pcs s t') \<longrightarrow> t = t'" using owner_is [OF w] by blast
  moreover have "writing s \<longrightarrow> (\<forall>t. \<not> owns (pcs s t))" using w by (cases w) auto
  ultimately show ?thesis using q by (simp add: queue_inv_def)
qed

section \<open>No message is left behind\<close>

text \<open>Threads that are about to look at the queue; those at \<open>CheckCount\<close> look only at the pending one.\<close>

fun looks :: "send_pc \<Rightarrow> bool" where
  "looks CheckToken = True" | "looks CheckQuota = True" | "looks CheckStatus = True" | "looks TakeToken = True"
| "looks _ = False"

definition wake_inv :: "race \<Rightarrow> bool" where
  "wake_inv s \<longleftrightarrow>
     (\<forall>t. pcs s t = PutBack \<or> pcs s t = FreeAndStop \<longrightarrow> quota_token s \<le> 0) \<and>
     (connected s \<and> 0 < quota_token s \<longrightarrow>
        (swapped s \<noteq> [] \<longrightarrow> locked s \<or> (\<exists>t. looks (pcs s t))) \<and>
        (pending s \<noteq> [] \<longrightarrow> locked s \<or> (\<exists>t. looks (pcs s t) \<or> pcs s t = CheckCount)))"

lemma wake_locked: "(\<forall>t. pcs s t = PutBack \<or> pcs s t = FreeAndStop \<longrightarrow> quota_token s \<le> 0) \<Longrightarrow> locked s \<Longrightarrow> wake_inv s"
  by (simp add: wake_inv_def)

lemma wake_stopped:
  "(\<forall>t. pcs s t = PutBack \<or> pcs s t = FreeAndStop \<longrightarrow> quota_token s \<le> 0) \<Longrightarrow> quota_token s \<le> 0 \<or> \<not> connected s \<Longrightarrow> wake_inv s"
  by (auto simp: wake_inv_def)

lemma wake_looks:
  "(\<forall>t. pcs s t = PutBack \<or> pcs s t = FreeAndStop \<longrightarrow> quota_token s \<le> 0) \<Longrightarrow> looks (pcs s t) \<Longrightarrow> wake_inv s"
  by (auto simp: wake_inv_def)

lemma bystander_wakes:
  assumes "queue_inv s" and wi: "wake_inv s" and nb: "\<not> owns (pcs s t)"
  shows "wake_inv (run_pc q t (pcs s t) s)"
proof -
  have st: "\<forall>u. pcs s u = PutBack \<or> pcs s u = FreeAndStop \<longrightarrow> quota_token s \<le> 0" using wi by (simp add: wake_inv_def)
  show ?thesis
  proof (cases "pcs s t")
    case CheckToken
    show ?thesis
    proof (cases "locked s")
      case True
      with st CheckToken show ?thesis by (auto intro!: wake_locked split: if_splits)
    next
      case False
      with st CheckToken show ?thesis by (auto intro!: wake_looks [of _ t] split: if_splits)
    qed
  next
    case CheckQuota
    show ?thesis
    proof (cases "quota_token s \<le> 0")
      case True
      with st CheckQuota show ?thesis by (auto intro!: wake_stopped split: if_splits)
    next
      case False
      with st CheckQuota show ?thesis by (auto intro!: wake_looks [of _ t] split: if_splits)
    qed
  next
    case CheckStatus
    show ?thesis
    proof (cases "connected s")
      case True
      with st CheckStatus show ?thesis by (auto intro!: wake_looks [of _ t] split: if_splits)
    next
      case False
      with st CheckStatus show ?thesis by (auto intro!: wake_stopped split: if_splits)
    qed
  next
    case TakeToken
    with st show ?thesis by (auto simp: atomic_comp_swap_def intro!: wake_locked split: if_splits)
  next
    case CheckCount
    show ?thesis
    proof (cases "pend_count s = 0")
      case True
      have "looks (pcs s u) \<Longrightarrow> looks (((pcs s)(t := Idle)) u)" for u using CheckCount by auto
      moreover have "pending s = []" using True assms(1) by (simp add: queue_inv_def)
      moreover have "\<forall>u. ((pcs s)(t := Idle)) u = PutBack \<or> ((pcs s)(t := Idle)) u = FreeAndStop \<longrightarrow> quota_token s \<le> 0"
        using st by simp
      ultimately show ?thesis using True CheckCount wi
        by (simp add: wake_inv_def del: fun_upd_apply) blast
    next
      case False
      with st CheckCount show ?thesis by (auto intro!: wake_looks [of _ t] split: if_splits)
    qed
  qed (use nb wi in auto)
qed

lemma owner_wakes:
  assumes w: "owner_ok (Thread t) s" and wi: "wake_inv s" and ow: "owns (pcs s t)"
  shows "wake_inv (run_pc q t (pcs s t) s)"
proof -
  have st: "\<forall>u. pcs s u = PutBack \<or> pcs s u = FreeAndStop \<longrightarrow> quota_token s \<le> 0" using wi by (simp add: wake_inv_def)
  have other: "\<forall>u. u \<noteq> t \<longrightarrow> pcs s u \<noteq> PutBack \<and> pcs s u \<noteq> FreeAndStop" using w by auto
  have l: "locked s" using w by simp
  show ?thesis
  proof (cases "pcs s t")
    case FreeAndStop
    with st other show ?thesis by (auto intro!: wake_stopped split: if_splits)
  next
    case FreeAndCheck
    with w have "swapped s = []" by simp
    with FreeAndCheck st other show ?thesis by (auto simp: wake_inv_def)
  next
    case FreeAfterSent
    with st other show ?thesis by (auto intro!: wake_looks [of _ t] split: if_splits)
  qed (use l st other ow in \<open>auto intro!: wake_locked split: list.splits if_splits\<close>)
qed

lemma race_step_wakes:
  assumes "race_step False s s'" and w: "owner_ok w s" and q: "queue_inv s" and wi: "wake_inv s"
  shows "wake_inv s'"
proof -
  have st: "\<forall>u. pcs s u = PutBack \<or> pcs s u = FreeAndStop \<longrightarrow> quota_token s \<le> 0" using wi by (simp add: wake_inv_def)
  from assms(1) show ?thesis
  proof cases
    case (run t r)
    then show ?thesis
      using owner_wakes [OF _ wi, of t r] owner_is [OF w, of t] w bystander_wakes [OF q wi, of t r]
      by (cases "owns (pcs s t)") auto
  next
    case (put t m)
    with st show ?thesis by (auto intro!: wake_looks [of _ t] split: if_splits)
  next
    case (written t)
    then have "locked s" using w by (cases w) auto
    with written st show ?thesis by (auto intro!: wake_locked split: if_splits)
  next
    case close
    with st show ?thesis by (auto intro!: wake_stopped split: if_splits)
  qed simp
qed

lemma race_reach_wakes: "race_reach False s \<Longrightarrow> wake_inv s"
proof (induction rule: race_reach.induct)
  case init
  then show ?case by (simp add: wake_inv_def race_init_def)
next
  case (step s s')
  then show ?case using race_step_wakes race_reach_ok by blast
qed

text \<open>
  C15. No lost wake-up: in a run in which nobody refills the quota, whenever the connection is open, has quota left and no asynchronous
  write in flight, and every thread has returned from \<^verbatim>\<open>try_start_send\<close>, every message put in has been sent. (The check of the counter after the token is
  freed is what makes this so.)
\<close>

theorem no_message_left_behind:
  assumes "race_reach False s" and "\<forall>t. pcs s t = Idle" and "connected s" and "0 < quota_token s" and "\<not> writing s"
  shows "sent_log s = put_log s"
proof -
  obtain w where w: "owner_ok w s" and q: "queue_inv s" using race_reach_ok [OF assms(1)] by blast
  have "w = Nobody" using w assms(2,5) by (cases w) auto
  then have "\<not> locked s" "sending s = None" using w by auto
  moreover have "swapped s = []" "pending s = []"
    using race_reach_wakes [OF assms(1)] assms calculation by (auto simp: wake_inv_def)
  ultimately show ?thesis using q by (simp add: queue_inv_def)
qed

text \<open>A schedule: the threads that run, one after the other, with what the flow controller answers.\<close>

fun run_sched :: "(nat \<times> int) list \<Rightarrow> race \<Rightarrow> race" where
  "run_sched [] s = s"
| "run_sched ((t, q) # ts) s = run_sched ts (run_pc q t (pcs s t) s)"

lemma run_sched_reach: "race_reach r s \<Longrightarrow> race_reach r (run_sched ts s)"
proof (induction ts arbitrary: s)
  case (Cons tq ts)
  obtain t q where tq: "tq = (t, q)" by (cases tq)
  have "race_reach r (run_pc q t (pcs s t) s)"
    using Cons.prems race_reach.step [OF Cons.prems race_step.run [of s t r q]] by (cases "pcs s t = Idle") auto
  then show ?case using Cons.IH tq by simp
qed simp

definition race_put :: race where
  "race_put = goto 0 CheckToken (race_init\<lparr>pending := [7], pend_count := 1, put_log := [7]\<rparr>)"

lemma race_put_reach: "race_reach r race_put"
  using race_reach.step [OF race_reach.init race_step.put [of race_init 0 r 7]]
  by (simp add: race_put_def race_init_def)

text \<open>One message sent by one thread, up to the last return.\<close>

definition race_sent :: race where
  "race_sent =
     (let s = run_sched (replicate 9 (0, 1)) race_put
      in run_sched (replicate 9 (0, 1)) (goto 0 FreeAfterSent (s\<lparr>writing := False, sending := None,
           sent_log := sent_log s @ [the (sending s)]\<rparr>)))"

theorem no_message_left_behind_witness:
  "race_reach False race_sent \<and> sent_log race_sent = [7]"
proof -
  let ?s = "run_sched (replicate 9 (0, 1)) race_put"
  have s: "pcs ?s 0 = Idle" "writing ?s" "connected ?s"
    by (simp_all add: numeral_eq_Suc race_put_def race_init_def goto_def atomic_comp_swap_def)
  have r: "race_reach False race_sent"
    unfolding race_sent_def Let_def
    by (rule run_sched_reach [OF race_reach.step [OF run_sched_reach [OF race_put_reach] race_step.written [OF s]]])
  have e: "\<forall>t. pcs race_sent t = Idle" "connected race_sent" "0 < quota_token race_sent" "\<not> writing race_sent"
    "put_log race_sent = [7]"
    by (simp_all add: race_sent_def Let_def numeral_eq_Suc race_put_def race_init_def goto_def atomic_comp_swap_def)
  show ?thesis using no_message_left_behind [OF r e(1-4)] r e(5) by simp
qed

theorem send_queue_is_fifo_witness:
  "race_reach True race_put \<and> put_log race_put = sent_log race_put @ swapped race_put @ pending race_put"
  using send_queue_is_fifo [OF race_put_reach [of True]] race_put_reach [of True]
  by (simp add: race_put_def race_init_def)

text \<open>
  Refilling the quota at the wrong moment strands a message: a run in which \<^verbatim>\<open>trigger_send\<close> sets the quota token
  between another thread's refused request and the release of the send token ends with every thread returned, an open
  connection, a free token, quota left, and a message in the queue that nobody is going to send. The
  maintenance timer does not help either: it triggers only sessions whose quota token is not positive.
\<close>

theorem refill_race_strands_message:
  "\<exists>s. race_reach True s \<and> (\<forall>t. pcs s t = Idle) \<and> connected s \<and> \<not> locked s \<and> \<not> writing s \<and> 0 < quota_token s \<and>
       swapped s = [7] \<and> sent_log s = []"
proof -
  let ?a = "run_sched (replicate 8 (0, 0)) race_put"
  let ?b = "goto 1 CheckToken (?a\<lparr>quota_token := 1\<rparr>)"
  let ?s = "run_sched [(1, 1), (0, 0), (0, 0)] ?b"
  have a: "pcs ?a 1 = Idle"
    by (simp add: numeral_eq_Suc race_put_def race_init_def goto_def atomic_comp_swap_def)
  have "race_reach True ?s"
    by (rule run_sched_reach [OF race_reach.step [OF run_sched_reach [OF race_put_reach] race_step.trigger [OF TrueI a]]])
  moreover have "(\<forall>t. pcs ?s t = Idle) \<and> connected ?s \<and> \<not> locked ?s \<and> \<not> writing ?s \<and> 0 < quota_token ?s \<and>
       swapped ?s = [7] \<and> sent_log ?s = []"
    by (simp add: numeral_eq_Suc race_put_def race_init_def goto_def atomic_comp_swap_def)
  ultimately show ?thesis by blast
qed

end
