(* ===== verification/Timer_Manager.thy ===== *)
theory Timer_Manager
  imports Gb_Prelude "HOL-Library.Product_Lexorder"
begin

text \<open>
  The frame timers of \<^verbatim>\<open>src/timer/timer.cpp\<close> and \<^verbatim>\<open>src/timer/timer_manager.cpp\<close>. A timer object is its
  entry in \<^verbatim>\<open>all_timers_\<close>; the two priority queues hold pointers, here ids, ordered by the timers' end time and
  id. The clocks are a parameter: \<open>clk n\<close> is the \<open>n\<close>-th reading. What a timer calls is the parameter
  \<open>cb\<close>, which may use the manager; \<open>fired\<close> records the calls. \<open>None\<close> is a dangling pointer or an update that does not
  end.
\<close>

section \<open>Timers\<close>

text \<open>Times and durations are in nanoseconds, the tick of both clocks; \<^verbatim>\<open>RemainingTime\<close> casts to milliseconds.\<close>

record timer =
  active :: bool
  is_loop :: bool
  duration :: int
  end_time :: int

datatype timer_kind = Steady | System

text \<open>\<^verbatim>\<open>SteadyTimer::IsExpired\<close> is strict, \<^verbatim>\<open>SystemTimer::IsExpired\<close> is not.\<close>

fun IsExpired :: "timer_kind \<Rightarrow> int \<Rightarrow> timer \<Rightarrow> bool" where
  "IsExpired Steady now t \<longleftrightarrow> now > end_time t"
| "IsExpired System now t \<longleftrightarrow> now \<ge> end_time t"

definition RemainingTime :: "int \<Rightarrow> timer \<Rightarrow> int" where
  "RemainingTime now t = (let remaining = (end_time t - now) div 1000000 in if remaining > 0 then remaining else 0)"

definition Reset :: "int \<Rightarrow> timer \<Rightarrow> timer" where
  "Reset now t = t\<lparr>end_time := now + duration t\<rparr>"

definition Cancel :: "timer \<Rightarrow> timer" where
  "Cancel t = t\<lparr>active := False\<rparr>"

section \<open>The manager\<close>

record timer_manager =
  steady_timers :: "int list"
  system_timers :: "int list"
  all_timers :: "int \<rightharpoonup> timer"
  kind_of :: "int \<Rightarrow> timer_kind"    \<comment> \<open>the dynamic type of the object\<close>
  generate_timer_id :: int
  shutting_down :: bool
  fired :: "int list"

definition TimerManager :: timer_manager where
  "TimerManager = \<lparr>steady_timers = [], system_timers = [], all_timers = Map.empty, kind_of = (\<lambda>_. Steady),
     generate_timer_id = 0, shutting_down = False, fired = []\<rparr>"

fun queue :: "timer_kind \<Rightarrow> timer_manager \<Rightarrow> int list" where
  "queue Steady m = steady_timers m"
| "queue System m = system_timers m"

fun set_queue :: "timer_kind \<Rightarrow> int list \<Rightarrow> timer_manager \<Rightarrow> timer_manager" where
  "set_queue Steady q m = m\<lparr>steady_timers := q\<rparr>"
| "set_queue System q m = m\<lparr>system_timers := q\<rparr>"

text \<open>The order of \<^verbatim>\<open>SteadyCompare\<close> and \<^verbatim>\<open>SystemCompare\<close>: the element that compares greatest is the least key.\<close>

definition timer_key :: "(int \<rightharpoonup> timer) \<Rightarrow> int \<Rightarrow> int \<times> int" where
  "timer_key all i = (case all i of Some t \<Rightarrow> (end_time t, i) | None \<Rightarrow> (0, i))"

fun pq_top :: "(int \<rightharpoonup> timer) \<Rightarrow> int list \<Rightarrow> int option" where
  "pq_top all [] = None"
| "pq_top all (i # q) =
     (case pq_top all q of
        None \<Rightarrow> Some i
      | Some j \<Rightarrow> Some (if timer_key all j < timer_key all i then j else i))"

definition erase_timer :: "int \<Rightarrow> timer_manager \<Rightarrow> timer_manager" where
  "erase_timer i m = m\<lparr>all_timers := (all_timers m)(i := None)\<rparr>"

definition pop_timer :: "timer_kind \<Rightarrow> int \<Rightarrow> timer_manager \<Rightarrow> timer_manager" where
  "pop_timer k i m = set_queue k (remove1 i (queue k m)) m"

definition push_timer :: "timer_kind \<Rightarrow> int \<Rightarrow> timer_manager \<Rightarrow> timer_manager" where
  "push_timer k i m = set_queue k (queue k m @ [i]) m"

text \<open>\<^verbatim>\<open>(*timer)()\<close>: an active timer calls its function (timers are registered with a function that is not empty).\<close>

definition fire_timer :: "(int \<Rightarrow> timer_manager \<Rightarrow> timer_manager) \<Rightarrow> int \<Rightarrow> timer \<Rightarrow> timer_manager \<Rightarrow> timer_manager" where
  "fire_timer cb i t m = (if active t then cb i (m\<lparr>fired := fired m @ [i]\<rparr>) else m)"

text \<open>One of the two loops of \<^verbatim>\<open>Update\<close>; the result counts the clock readings.\<close>

partial_function (option) update_loop :: "timer_kind \<Rightarrow> (int \<Rightarrow> timer_manager \<Rightarrow> timer_manager) \<Rightarrow> (nat \<Rightarrow> int) \<Rightarrow> nat \<Rightarrow>
    timer_manager \<Rightarrow> (nat \<times> timer_manager) option" where
  "update_loop k cb clk n m =
     (case pq_top (all_timers m) (queue k m) of
        None \<Rightarrow> Some (n, m)
      | Some i \<Rightarrow>
          (case all_timers m i of
             None \<Rightarrow> None
           | Some t \<Rightarrow>
               if \<not> active t then update_loop k cb clk n (erase_timer i (pop_timer k i m))
               else if IsExpired k (clk n) t
               then (let m1 = fire_timer cb i t (pop_timer k i m)
                     in case all_timers m1 i of
                          None \<Rightarrow> None
                        | Some t1 \<Rightarrow>
                            if is_loop t1
                            then update_loop k cb clk (n + 2)
                                   (push_timer k i (m1\<lparr>all_timers := (all_timers m1)(i \<mapsto> Reset (clk (n + 1)) t1)\<rparr>))
                            else update_loop k cb clk (n + 1) (erase_timer i m1))
               else Some (n + 1, m)))"

definition Update :: "(int \<Rightarrow> timer_manager \<Rightarrow> timer_manager) \<Rightarrow> (nat \<Rightarrow> int) \<Rightarrow> (nat \<Rightarrow> int) \<Rightarrow> timer_manager \<Rightarrow> timer_manager option" where
  "Update cb steady_clk system_clk m =
     (case update_loop Steady cb steady_clk 0 m of
        None \<Rightarrow> None
      | Some (_, m1) \<Rightarrow> map_option snd (update_loop System cb system_clk 0 m1))"

definition register_kind :: "timer_kind \<Rightarrow> int \<Rightarrow> int \<Rightarrow> bool \<Rightarrow> timer_manager \<Rightarrow> int \<times> timer_manager" where
  "register_kind k now time loop m =
     (if shutting_down m then (-1, m)
      else let i = generate_timer_id m + 1;
               t = \<lparr>active = True, is_loop = loop, duration = time, end_time = now + time\<rparr>;
               m1 = push_timer k i (m\<lparr>generate_timer_id := i\<rparr>)
           in (i, m1\<lparr>all_timers := (all_timers m1)(i \<mapsto> t), kind_of := (kind_of m1)(i := k)\<rparr>))"

definition RegisterTimer :: "int \<Rightarrow> int \<Rightarrow> bool \<Rightarrow> timer_manager \<Rightarrow> int \<times> timer_manager" where
  "RegisterTimer now time loop m = register_kind Steady now time loop m"

definition RegisterSystemTimer :: "int \<Rightarrow> int \<Rightarrow> bool \<Rightarrow> timer_manager \<Rightarrow> int \<times> timer_manager" where
  "RegisterSystemTimer now time loop m = register_kind System now time loop m"

definition UnRegisterTimer :: "int \<Rightarrow> timer_manager \<Rightarrow> timer_manager" where
  "UnRegisterTimer i m =
     (case all_timers m i of None \<Rightarrow> m | Some t \<Rightarrow> m\<lparr>all_timers := (all_timers m)(i \<mapsto> Cancel t)\<rparr>)"

definition GetTimer :: "int \<Rightarrow> timer_manager \<Rightarrow> timer option" where
  "GetTimer i m = all_timers m i"

text \<open>The clock readings of the loop are given per timer.\<close>

definition EnterShutdownMode :: "(int \<Rightarrow> int) \<Rightarrow> timer_manager \<Rightarrow> timer_manager" where
  "EnterShutdownMode now m =
     m\<lparr>shutting_down := True,
       all_timers := (\<lambda>i. map_option (\<lambda>t. if \<not> IsExpired (kind_of m i) (now i) t \<and> active t then Cancel t else t)
                                     (all_timers m i))\<rparr>"

section \<open>Invariant\<close>

text \<open>Every pointer in a queue points to a live object of that kind, once.\<close>

definition tm_inv :: "timer_manager \<Rightarrow> bool" where
  "tm_inv m \<longleftrightarrow> distinct (steady_timers m) \<and> distinct (system_timers m) \<and>
     (\<forall>i \<in> set (steady_timers m). all_timers m i \<noteq> None \<and> kind_of m i = Steady) \<and>
     (\<forall>i \<in> set (system_timers m). all_timers m i \<noteq> None \<and> kind_of m i = System) \<and>
     (\<forall>i. all_timers m i \<noteq> None \<longrightarrow> i \<le> generate_timer_id m)"

lemma pq_top_None [simp]: "pq_top all q = None \<longleftrightarrow> q = []"
  by (cases q) (auto split: option.splits)

lemma pq_top_least:
  "pq_top all q = Some i \<Longrightarrow> i \<in> set q \<and> (\<forall>j \<in> set q. timer_key all i \<le> timer_key all j)"
proof (induction q arbitrary: i)
  case (Cons a q)
  show ?case
  proof (cases "pq_top all q")
    case None
    then show ?thesis using Cons.prems by (simp add: pq_top_None)
  next
    case (Some j)
    then have "j \<in> set q" "\<forall>b \<in> set q. timer_key all j \<le> timer_key all b" using Cons.IH by auto
    then show ?thesis using Cons.prems Some by (auto split: if_splits dest: order_trans [of "timer_key all a"])
  qed
qed simp

lemma queue_set_queue [simp]: "queue k (set_queue k q m) = q" "all_timers (set_queue k q m) = all_timers m"
  "fired (set_queue k q m) = fired m" "kind_of (set_queue k q m) = kind_of m"
  "generate_timer_id (set_queue k q m) = generate_timer_id m"
  by (cases k; simp)+

lemma queue_other: "k' \<noteq> k \<Longrightarrow> queue k' (set_queue k q m) = queue k' m"
  by (cases k; cases k'; simp)

lemma queue_update [simp]: "queue k (m\<lparr>all_timers := a\<rparr>) = queue k m" "queue k (m\<lparr>fired := f\<rparr>) = queue k m"
  "queue k (m\<lparr>kind_of := g\<rparr>) = queue k m" "queue k (m\<lparr>generate_timer_id := n\<rparr>) = queue k m" "queue k (m\<lparr>shutting_down := b\<rparr>) = queue k m"
  by (cases k; simp)+

lemma tm_inv_kind:
  "tm_inv m \<longleftrightarrow> (\<forall>k. distinct (queue k m) \<and> (\<forall>i \<in> set (queue k m). all_timers m i \<noteq> None \<and> kind_of m i = k)) \<and>
     (\<forall>i. all_timers m i \<noteq> None \<longrightarrow> i \<le> generate_timer_id m)"
proof -
  have "(\<forall>k. P k) \<longleftrightarrow> P Steady \<and> P System" for P by (metis timer_kind.exhaust)
  then show ?thesis by (auto simp: tm_inv_def)
qed

lemma tm_inv_changed:
  assumes "tm_inv m" "kind_of m2 = kind_of m" "generate_timer_id m2 = generate_timer_id m"
    and "\<And>k'. k' \<noteq> k \<Longrightarrow> queue k' m2 = queue k' m" "distinct (queue k m2)" "set (queue k m2) \<subseteq> set (queue k m)"
    and "\<And>j k'. j \<in> set (queue k' m2) \<Longrightarrow> all_timers m2 j \<noteq> None"
    and "\<And>j. all_timers m2 j \<noteq> None \<Longrightarrow> all_timers m j \<noteq> None"
  shows "tm_inv m2"
proof -
  have "distinct (queue k' m2) \<and> set (queue k' m2) \<subseteq> set (queue k' m)" for k'
    using assms(1,4-6) by (cases "k' = k") (auto simp: tm_inv_kind)
  then show ?thesis using assms(1-3,7,8) unfolding tm_inv_kind by (metis subsetD)
qed

lemma fresh_timer_id:
  assumes "tm_inv m"
  shows "all_timers m (generate_timer_id m + 1) = None" and "generate_timer_id m + 1 \<notin> set (queue k m)"
  using assms unfolding tm_inv_kind by force+

section \<open>What an update fires\<close>

text \<open>The timers of a queue that are active and expired at a time.\<close>

definition due :: "timer_kind \<Rightarrow> int \<Rightarrow> timer_manager \<Rightarrow> int set" where
  "due k now m = {i \<in> set (queue k m). \<exists>t. all_timers m i = Some t \<and> active t \<and> IsExpired k now t}"

lemma due_iff: "j \<in> due k now m \<longleftrightarrow>
    j \<in> set (queue k m) \<and> (case all_timers m j of Some t \<Rightarrow> active t \<and> IsExpired k now t | None \<Rightarrow> False)"
  by (auto simp: due_def split: option.splits)

lemma due_cong:
  assumes "\<And>j. j \<noteq> i \<Longrightarrow> (j \<in> set (queue k m2) \<longleftrightarrow> j \<in> set (queue k m)) \<and> all_timers m2 j = all_timers m j"
    and "i \<notin> due k now m2" "gone = {i} \<or> gone = {} \<and> i \<notin> due k now m"
  shows "due k now m2 = due k now m - gone"
proof (rule set_eqI)
  fix j show "j \<in> due k now m2 \<longleftrightarrow> j \<in> due k now m - gone"
    using assms by (cases "j = i") (auto simp: due_iff)
qed

lemma expired_mono: "IsExpired k now t \<Longrightarrow> now \<le> now' \<Longrightarrow> end_time t' \<le> end_time t \<Longrightarrow> IsExpired k now' t'"
  by (cases k) auto

definition unhandled :: "timer_kind \<Rightarrow> int \<Rightarrow> timer_manager \<Rightarrow> nat" where
  "unhandled k late m = length (queue k m) +
     card {i \<in> set (queue k m). case all_timers m i of Some t \<Rightarrow> end_time t \<le> late | None \<Rightarrow> False}"

definition frame :: "timer_kind \<Rightarrow> timer_manager \<Rightarrow> timer_manager \<Rightarrow> bool" where
  "frame k m m2 \<longleftrightarrow>
     (\<forall>k'. k' \<noteq> k \<longrightarrow> queue k' m2 = queue k' m \<and> (\<forall>j \<in> set (queue k' m). all_timers m2 j = all_timers m j))"

lemma frame_trans: "frame k m1 m2 \<Longrightarrow> frame k m2 m3 \<Longrightarrow> frame k m1 m3"
  unfolding frame_def by metis

lemma frameI:
  assumes "tm_inv m" "i \<in> set (queue k m)" "\<And>k'. k' \<noteq> k \<Longrightarrow> queue k' m2 = queue k' m"
    and "\<And>j. j \<noteq> i \<Longrightarrow> all_timers m2 j = all_timers m j"
  shows "frame k m m2"
  using assms unfolding frame_def tm_inv_kind by metis

text \<open>The three ways in which the loop goes on; \<open>m\<close> is the state before and \<open>m2\<close> the state after a turn.\<close>

definition turned :: "timer_kind \<Rightarrow> int \<Rightarrow> int \<Rightarrow> int set \<Rightarrow> timer_manager \<Rightarrow> timer_manager \<Rightarrow> bool" where
  "turned k early late gone m m2 \<longleftrightarrow>
     tm_inv m2 \<and> unhandled k late m2 < unhandled k late m \<and> frame k m m2 \<and>
     (\<forall>now. early \<le> now \<and> now \<le> late \<longrightarrow> due k now m2 = due k now m - gone) \<and>
     (\<forall>i t. i \<in> set (queue k m2) \<and> all_timers m2 i = Some t \<and> is_loop t \<longrightarrow> late - early < duration t) \<and>
     (\<forall>i. i \<in> set (queue k m) \<and> i \<notin> gone \<longrightarrow>
        (\<exists>t. all_timers m i = Some t \<and> \<not> active t) \<or> i \<in> set (queue k m2) \<and> all_timers m2 i = all_timers m i)"

lemma unhandled_finite: "finite {i \<in> set (queue k m). P i}"
  by simp

lemma remove_turned:
  assumes inv: "tm_inv m" and i: "i \<in> set (queue k m)" and t: "all_timers m i = Some t"
    and loops: "\<forall>i t. i \<in> set (queue k m) \<and> all_timers m i = Some t \<and> is_loop t \<longrightarrow> late - early < duration t"
    and gone: "gone = (if active t then {i} else {})" and f: "fired m2 = fs"
    and m2: "m2 = erase_timer i (pop_timer k i m)\<lparr>fired := fs\<rparr>"
  shows "turned k early late gone m m2"
proof -
  have d: "distinct (queue k m)" using inv by (simp add: tm_inv_kind)
  have q: "queue k m2 = remove1 i (queue k m)" "set (queue k m2) = set (queue k m) - {i}"
    using d by (simp_all add: m2 erase_timer_def pop_timer_def set_remove1_eq)
  have a: "all_timers m2 = (all_timers m)(i := None)" by (simp add: m2 erase_timer_def pop_timer_def)
  have q': "queue k' m2 = queue k' m" if "k' \<noteq> k" for k' using that by (simp add: m2 erase_timer_def pop_timer_def queue_other)
  have none: "i \<notin> set (queue k' m2)" for k'
  proof (cases "k' = k")
    case False
    then show ?thesis using inv i q' unfolding tm_inv_kind by metis
  qed (use q(2) in simp)
  have some: "all_timers m j \<noteq> None" if "j \<in> set (queue k' m2)" for j k'
    using inv that q(2) q' by (cases "k' = k") (auto simp: tm_inv_kind)
  have "tm_inv m2"
    by (rule tm_inv_changed [OF inv, of _ k])
      (use a q q' d none some in \<open>auto simp: m2 erase_timer_def pop_timer_def split: if_splits\<close>)
  moreover have "unhandled k late m2 < unhandled k late m"
  proof -
    have "{j \<in> set (queue k m2). case all_timers m2 j of Some t \<Rightarrow> end_time t \<le> late | None \<Rightarrow> False}
        \<subseteq> {j \<in> set (queue k m). case all_timers m j of Some t \<Rightarrow> end_time t \<le> late | None \<Rightarrow> False}"
      using q(2) a by auto
    then have "card {j \<in> set (queue k m2). case all_timers m2 j of Some t \<Rightarrow> end_time t \<le> late | None \<Rightarrow> False}
        \<le> card {j \<in> set (queue k m). case all_timers m j of Some t \<Rightarrow> end_time t \<le> late | None \<Rightarrow> False}"
      by (intro card_mono) simp_all
    moreover have "length (queue k m2) < length (queue k m)" using q(1) i length_pos_if_in_set [OF i] by (simp add: length_remove1)
    ultimately show ?thesis by (simp add: unhandled_def)
  qed
  moreover have "frame k m m2" by (rule frameI [OF inv i q']) (simp_all add: a)
  moreover have "\<forall>now. early \<le> now \<and> now \<le> late \<longrightarrow> due k now m2 = due k now m - gone"
  proof (intro allI impI)
    show "due k now m2 = due k now m - gone" for now
      by (rule due_cong [of i]) (use q(2) a gone t in \<open>simp_all add: due_iff\<close>)
  qed
  moreover have "\<forall>j t. j \<in> set (queue k m2) \<and> all_timers m2 j = Some t \<and> is_loop t \<longrightarrow> late - early < duration t"
  proof (intro allI impI)
    fix j u
    assume "j \<in> set (queue k m2) \<and> all_timers m2 j = Some u \<and> is_loop u"
    then have "j \<in> set (queue k m)" "all_timers m j = Some u" "is_loop u" using q(2) a by (auto split: if_splits)
    then show "late - early < duration u" using loops by blast
  qed
  moreover have "\<forall>j. j \<in> set (queue k m) \<and> j \<notin> gone \<longrightarrow> (\<exists>t. all_timers m j = Some t \<and> \<not> active t) \<or>
      j \<in> set (queue k m2) \<and> all_timers m2 j = all_timers m j"
    using q(2) a gone t by auto
  ultimately show ?thesis unfolding turned_def by (intro conjI) assumption+
qed

lemma reload_turned:
  assumes inv: "tm_inv m" and i: "i \<in> set (queue k m)" and t: "all_timers m i = Some t" "active t" "is_loop t" "IsExpired k now t"
    and loops: "\<forall>i t. i \<in> set (queue k m) \<and> all_timers m i = Some t \<and> is_loop t \<longrightarrow> late - early < duration t"
    and now: "now \<le> late" and reset: "early \<le> reset"
    and m2: "m2 = push_timer k i (((pop_timer k i m)\<lparr>fired := fs\<rparr>)\<lparr>all_timers := (all_timers m)(i \<mapsto> Reset reset t)\<rparr>)"
  shows "turned k early late {i} m m2"
proof -
  have d: "distinct (queue k m)" using inv by (simp add: tm_inv_kind)
  have q: "queue k m2 = remove1 i (queue k m) @ [i]" "set (queue k m2) = set (queue k m)"
    using d i by (auto simp: m2 push_timer_def pop_timer_def set_remove1_eq)
  have a: "all_timers m2 = (all_timers m)(i \<mapsto> Reset reset t)" by (simp add: m2 push_timer_def)
  have q': "queue k' m2 = queue k' m" if "k' \<noteq> k" for k'
    using that by (simp add: m2 push_timer_def pop_timer_def queue_other)
  have late: "late < reset + duration t"
  proof -
    have "late - early < duration t" using loops i t(1,3) by blast
    then show ?thesis using reset by linarith
  qed
  have "distinct (queue k m2)" using d q(1) by (auto simp: set_remove1_eq)
  have other: "kind_of m2 = kind_of m" "generate_timer_id m2 = generate_timer_id m"
    by (simp_all add: m2 push_timer_def pop_timer_def)
  have some: "all_timers m j \<noteq> None" if "j \<in> set (queue k' m2)" for j k'
    using inv that q(2) q' by (cases "k' = k") (auto simp: tm_inv_kind)
  have "tm_inv m2"
  proof (rule tm_inv_changed [OF inv other q'])
    show "all_timers m2 j \<noteq> None" if "j \<in> set (queue k' m2)" for j k' using some [OF that] a by simp
    show "all_timers m j \<noteq> None" if "all_timers m2 j \<noteq> None" for j using that a t(1) by (simp split: if_splits)
  qed (use q(2) \<open>distinct (queue k m2)\<close> in auto)
  moreover have "unhandled k late m2 < unhandled k late m"
  proof -
    let ?S = "\<lambda>m. {j \<in> set (queue k m). case all_timers m j of Some t \<Rightarrow> end_time t \<le> late | None \<Rightarrow> False}"
    have "end_time t \<le> late" using t(4) now by (cases k) auto
    then have "i \<in> ?S m" using t(1) i by simp
    moreover have eq: "?S m2 = ?S m - {i}" using q(2) a late by (auto simp: Reset_def split: if_splits)
    ultimately have "card (?S m2) < card (?S m)" unfolding eq by (intro card_Diff1_less) simp_all
    moreover have "length (queue k m2) = length (queue k m)" using q(1) i length_pos_if_in_set [OF i] by (simp add: length_remove1)
    ultimately show ?thesis by (simp add: unhandled_def)
  qed
  moreover have "frame k m m2" by (rule frameI [OF inv i q']) (simp_all add: a)
  moreover have "\<forall>u. early \<le> u \<and> u \<le> late \<longrightarrow> due k u m2 = due k u m - {i}"
  proof (intro allI impI)
    fix u assume "early \<le> u \<and> u \<le> late"
    then have "\<not> IsExpired k u (Reset reset t)" using late by (cases k) (auto simp: Reset_def)
    then show "due k u m2 = due k u m - {i}"
      by (intro due_cong [of i]) (use q(2) a in \<open>simp_all add: due_iff\<close>)
  qed
  moreover have "\<forall>j t. j \<in> set (queue k m2) \<and> all_timers m2 j = Some t \<and> is_loop t \<longrightarrow> late - early < duration t"
  proof (intro allI impI)
    fix j u
    assume "j \<in> set (queue k m2) \<and> all_timers m2 j = Some u \<and> is_loop u"
    then have "j \<in> set (queue k m)" "j = i \<and> u = Reset reset t \<or> all_timers m j = Some u" "is_loop u"
      using q(2) a by (auto split: if_splits)
    moreover have "late - early < duration t" using loops i t(1,3) by blast
    ultimately show "late - early < duration u" using loops by (auto simp: Reset_def)
  qed
  moreover have "\<forall>j. j \<in> set (queue k m) \<and> j \<notin> {i} \<longrightarrow> (\<exists>t. all_timers m j = Some t \<and> \<not> active t) \<or>
      j \<in> set (queue k m2) \<and> all_timers m2 j = all_timers m j"
    using q(2) a by auto
  ultimately show ?thesis unfolding turned_def by (intro conjI) assumption+
qed

lemma turned_same:
  assumes "turned k early late gone m m2" "j \<in> due k late m2" "early \<le> late"
  shows "j \<in> set (queue k m) \<and> j \<notin> gone \<and> all_timers m2 j = all_timers m j"
proof -
  have "due k late m2 = due k late m - gone" using assms unfolding turned_def by blast
  then have "j \<in> due k late m" "j \<notin> gone" using assms(2) by auto
  moreover obtain t where "j \<in> set (queue k m)" "all_timers m j = Some t" "active t"
    using \<open>j \<in> due k late m\<close> by (auto simp: due_def)
  moreover have "(\<exists>t. all_timers m j = Some t \<and> \<not> active t) \<or> all_timers m2 j = all_timers m j"
    if "j \<in> set (queue k m)" "j \<notin> gone" using assms(1) that unfolding turned_def by metis
  ultimately show ?thesis by auto
qed

text \<open>What the loop promises for callbacks that leave the manager alone.\<close>

definition update_ok :: "timer_kind \<Rightarrow> int \<Rightarrow> int \<Rightarrow> timer_manager \<Rightarrow> timer_manager \<Rightarrow> int list \<Rightarrow> bool" where
  "update_ok k early late m m' fs \<longleftrightarrow> tm_inv m' \<and> frame k m m' \<and> fired m' = fired m @ fs \<and> distinct fs \<and>
     due k early m \<subseteq> set fs \<and> set fs \<subseteq> due k late m \<and> sorted (map (timer_key (all_timers m)) fs)"

lemma update_ok_step:
  assumes turn: "turned k early late gone m m2" and ok: "update_ok k early late m2 m' fs" and le: "early \<le> late"
    and gone: "set g = gone" "length g \<le> 1" "gone \<subseteq> due k late m" and f: "fired m2 = fired m @ g"
    and least: "\<forall>i \<in> gone. \<forall>j \<in> set (queue k m). timer_key (all_timers m) i \<le> timer_key (all_timers m) j"
  shows "update_ok k early late m m' (g @ fs)"
proof -
  have due: "due k early m2 = due k early m - gone" "due k late m2 = due k late m - gone"
    using turn le unfolding turned_def by auto
  have fs: "\<forall>j \<in> set fs. j \<in> set (queue k m) \<and> j \<notin> gone \<and> all_timers m2 j = all_timers m j"
    using ok turned_same [OF turn _ le] unfolding update_ok_def by blast
  have keys: "map (timer_key (all_timers m2)) fs = map (timer_key (all_timers m)) fs"
    using fs by (auto simp: timer_key_def)
  have g: "g = [] \<or> (\<exists>i. g = [i])" using gone(2) by (cases g) auto
  then have "sorted (map (timer_key (all_timers m)) (g @ fs))"
    using ok keys fs least gone(1) unfolding update_ok_def by auto
  moreover have "distinct (g @ fs)" using ok g fs gone(1) unfolding update_ok_def by auto
  moreover have "frame k m m'" using turn ok frame_trans unfolding turned_def update_ok_def by blast
  ultimately show ?thesis using ok due gone f unfolding update_ok_def by auto
qed

lemma update_loop_ok:
  assumes clock: "\<And>n. early \<le> clk n \<and> clk n \<le> late"
  shows "tm_inv m \<Longrightarrow> \<forall>i t. i \<in> set (queue k m) \<and> all_timers m i = Some t \<and> is_loop t \<longrightarrow> late - early < duration t \<Longrightarrow>
    \<exists>n' m' fs. update_loop k (\<lambda>i m. m) clk n m = Some (n', m') \<and> update_ok k early late m m' fs"
proof (induction "unhandled k late m" arbitrary: m n rule: less_induct)
  case less
  have le: "early \<le> late" using clock order_trans by blast
  have again: "\<exists>n' m' fs. update_loop k (\<lambda>i m. m) clk n2 m2 = Some (n', m') \<and> update_ok k early late m m' fs"
    if "turned k early late gone m m2" "set g = gone" "length g \<le> 1" "gone \<subseteq> due k late m" "fired m2 = fired m @ g"
      "\<forall>i \<in> gone. \<forall>j \<in> set (queue k m). timer_key (all_timers m) i \<le> timer_key (all_timers m) j" for n2 m2 g gone
  proof -
    have "unhandled k late m2 < unhandled k late m" "tm_inv m2"
      "\<forall>i t. i \<in> set (queue k m2) \<and> all_timers m2 i = Some t \<and> is_loop t \<longrightarrow> late - early < duration t"
      using that(1) unfolding turned_def by blast+
    from less.hyps [OF this] obtain n' m' fs
      where "update_loop k (\<lambda>i m. m) clk n2 m2 = Some (n', m')" "update_ok k early late m2 m' fs" by blast
    then show ?thesis using update_ok_step [OF that(1) _ le that(2-6)] by blast
  qed
  show ?case
  proof (cases "pq_top (all_timers m) (queue k m)")
    case None
    then have "due k now m = {}" for now by (simp add: due_def)
    then have "update_ok k early late m m []" using less.prems(1) by (simp add: update_ok_def frame_def)
    then show ?thesis using None by (subst update_loop.simps) auto
  next
    case (Some i)
    then have i: "i \<in> set (queue k m)" and least: "\<forall>j \<in> set (queue k m). timer_key (all_timers m) i \<le> timer_key (all_timers m) j"
      using pq_top_least by blast+
    obtain t where t: "all_timers m i = Some t" using i less.prems(1) unfolding tm_inv_kind by (metis not_None_eq)
    consider "\<not> active t" | "active t" "IsExpired k (clk n) t" | "active t" "\<not> IsExpired k (clk n) t" by blast
    then show ?thesis
    proof cases
      case 1
      have f: "fired (erase_timer i (pop_timer k i m)) = fired m" by (simp add: erase_timer_def pop_timer_def)
      have "turned k early late {} m (erase_timer i (pop_timer k i m))"
        by (rule remove_turned [OF less.prems(1) i t less.prems(2)])
          (use 1 f in \<open>cases k; simp add: erase_timer_def pop_timer_def\<close>)+
      then show ?thesis
        using again [of "{}" "erase_timer i (pop_timer k i m)" "[]" n] f Some t 1 by (subst update_loop.simps) simp
    next
      case 2
      have due: "{i} \<subseteq> due k late m" using i t 2 clock expired_mono [of k "clk n" t late t] by (auto simp: due_iff)
      show ?thesis
      proof (cases "is_loop t")
        case True
        let ?m = "push_timer k i (((pop_timer k i m)\<lparr>fired := fired m @ [i]\<rparr>)\<lparr>all_timers := (all_timers m)(i \<mapsto> Reset (clk (n + 1)) t)\<rparr>)"
        have turn: "turned k early late {i} m ?m"
          by (rule reload_turned [OF less.prems(1) i t 2(1) True 2(2) less.prems(2)]) (use clock in simp_all)
        have "fired ?m = fired m @ [i]" by (simp add: push_timer_def)
        then show ?thesis
          using again [OF turn _ _ due, of "[i]" "n + 2"] least Some t 2 True
          by (subst update_loop.simps) (simp add: fire_timer_def pop_timer_def Let_def)
      next
        case False
        let ?m = "erase_timer i (pop_timer k i m)\<lparr>fired := fired m @ [i]\<rparr>"
        have turn: "turned k early late {i} m ?m"
          by (rule remove_turned [OF less.prems(1) i t less.prems(2)]) (use 2 in simp_all)
        have "fired ?m = fired m @ [i]" by simp
        moreover have "erase_timer i (m1\<lparr>fired := f\<rparr>) = erase_timer i m1\<lparr>fired := f\<rparr>" for m1 f by (simp add: erase_timer_def)
        ultimately show ?thesis
          using again [OF turn _ _ due, of "[i]" "n + 1"] least Some t 2 False
          by (subst update_loop.simps) (simp add: fire_timer_def pop_timer_def Let_def)
      qed
    next
      case 3
      have "due k early m = {}"
      proof (rule equals0I)
        fix j assume "j \<in> due k early m"
        then obtain u where u: "j \<in> set (queue k m)" "all_timers m j = Some u" "IsExpired k early u" by (auto simp: due_def)
        then have "end_time t \<le> end_time u" using least t by (fastforce simp: timer_key_def less_eq_prod_def)
        then show False using u(3) 3(2) clock expired_mono by blast
      qed
      then have "update_ok k early late m m []" using less.prems(1) by (simp add: update_ok_def frame_def)
      then show ?thesis using Some t 3 by (subst update_loop.simps) auto
    qed
  qed
qed

section \<open>Properties\<close>

definition loops_longer :: "int \<Rightarrow> timer_manager \<Rightarrow> bool" where
  "loops_longer d m \<longleftrightarrow>
     (\<forall>k i t. i \<in> set (queue k m) \<and> all_timers m i = Some t \<and> is_loop t \<longrightarrow> d < duration t)"

text \<open>
  C20. When the timers' callbacks leave the manager alone (they register and cancel nothing) and every looping timer has a duration longer
  than the time the update takes, one \<^verbatim>\<open>TimerManager::Update\<close> returns, and each of its two loops calls every timer that was due at the
  earliest clock reading, no timer that is not due at the latest, each once, in the order of end times and ids; the queues keep pointing
  to live timers. (Without the second condition a looping timer can make the update run for ever.)
\<close>

theorem update_fires_due_once:
  assumes "tm_inv m" and "loops_longer (late - early) m"
    and "\<And>n. early \<le> steady_clk n \<and> steady_clk n \<le> late" and "\<And>n. early' \<le> system_clk n \<and> system_clk n \<le> late'"
    and "late' - early' \<le> late - early"
  shows "\<exists>m1 m' fs gs. Update (\<lambda>i m. m) steady_clk system_clk m = Some m' \<and> fired m' = fired m @ fs @ gs \<and>
    update_ok Steady early late m m1 fs \<and> update_ok System early' late' m1 m' gs \<and>
    due System late' m1 = due System late' m \<and> due System early' m1 = due System early' m"
proof -
  have st: "\<forall>i t. i \<in> set (queue Steady m) \<and> all_timers m i = Some t \<and> is_loop t \<longrightarrow> late - early < duration t"
    using assms(2) unfolding loops_longer_def by blast
  obtain n1 m1 fs where u1: "update_loop Steady (\<lambda>i m. m) steady_clk 0 m = Some (n1, m1)" "update_ok Steady early late m m1 fs"
    using update_loop_ok [of early steady_clk late m Steady 0, OF assms(3,1) st] by blast
  then have inv1: "tm_inv m1" and same: "queue System m1 = queue System m"
      "\<And>j. j \<in> set (queue System m) \<Longrightarrow> all_timers m1 j = all_timers m j"
    unfolding update_ok_def frame_def by blast+
  have sy: "\<forall>i t. i \<in> set (queue System m1) \<and> all_timers m1 i = Some t \<and> is_loop t \<longrightarrow> late' - early' < duration t"
  proof (intro allI impI)
    fix i t assume "i \<in> set (queue System m1) \<and> all_timers m1 i = Some t \<and> is_loop t"
    then have "i \<in> set (queue System m) \<and> all_timers m i = Some t \<and> is_loop t" using same by metis
    then have "late - early < duration t" using assms(2) unfolding loops_longer_def by blast
    then show "late' - early' < duration t" using assms(5) by linarith
  qed
  obtain n2 m' gs where u2: "update_loop System (\<lambda>i m. m) system_clk 0 m1 = Some (n2, m')" "update_ok System early' late' m1 m' gs"
    using update_loop_ok [of early' system_clk late' m1 System 0, OF assms(4) inv1 sy] by blast
  have "due System now m1 = due System now m" for now
    by (rule set_eqI) (use same in \<open>auto simp: due_iff simp del: queue.simps\<close>)
  moreover have "fired m' = fired m @ fs @ gs" using u1(2) u2(2) by (simp add: update_ok_def)
  moreover have "Update (\<lambda>i m. m) steady_clk system_clk m = Some m'" using u1(1) u2(1) by (simp add: Update_def)
  ultimately show ?thesis using u1(2) u2(2) by blast
qed

text \<open>A manager with a timer of each kind, the steady one looping.\<close>

definition demo_timers :: timer_manager where
  "demo_timers = snd (RegisterSystemTimer 0 5 False (snd (RegisterTimer 0 10 True TimerManager)))"

lemma demo_timers_eq:
  "demo_timers = \<lparr>steady_timers = [1], system_timers = [2],
     all_timers = [1 \<mapsto> \<lparr>active = True, is_loop = True, duration = 10, end_time = 10\<rparr>,
                   2 \<mapsto> \<lparr>active = True, is_loop = False, duration = 5, end_time = 5\<rparr>],
     kind_of = (\<lambda>_. Steady)(1 := Steady, 2 := System), generate_timer_id = 2, shutting_down = False, fired = []\<rparr>"
  by (simp add: demo_timers_def RegisterSystemTimer_def RegisterTimer_def register_kind_def TimerManager_def push_timer_def Let_def)

lemma demo_timers_ok: "tm_inv demo_timers" "loops_longer 2 demo_timers"
proof -
  show "tm_inv demo_timers" by (auto simp: tm_inv_def demo_timers_eq)
  have "i \<in> set (queue k demo_timers) \<Longrightarrow> all_timers demo_timers i = Some t \<Longrightarrow> is_loop t \<Longrightarrow> 2 < duration t" for k i t
    by (cases k) (auto simp: demo_timers_eq split: if_splits)
  then show "loops_longer 2 demo_timers" unfolding loops_longer_def by blast
qed

theorem update_fires_due_once_witness:
  "\<exists>m1 m' fs gs. Update (\<lambda>i m. m) (\<lambda>n. if n = 0 then 11 else 13) (\<lambda>_. 6) demo_timers = Some m' \<and> fired m' = fired demo_timers @ fs @ gs \<and>
    update_ok Steady 11 13 demo_timers m1 fs \<and> update_ok System 6 6 m1 m' gs \<and>
    due System 6 m1 = due System 6 demo_timers \<and> due System 6 m1 = due System 6 demo_timers"
  by (rule update_fires_due_once) (simp_all add: demo_timers_ok)

text \<open>
  C36. The queues never hold a dangling pointer: the fresh manager has none, and registering a timer of either kind, cancelling
  one and entering shutdown mode keep it so. Outside shutdown mode a registration of either kind returns a fresh id, under which
  \<^verbatim>\<open>GetTimer\<close> finds the new timer; in shutdown mode both return -1 and change nothing.
\<close>

theorem timer_operations_keep_queues:
  assumes "tm_inv m"
  shows "tm_inv TimerManager \<and> tm_inv (snd (RegisterTimer now time loop m)) \<and> tm_inv (snd (RegisterSystemTimer now time loop m)) \<and>
    tm_inv (UnRegisterTimer i m) \<and> tm_inv (EnterShutdownMode nows m) \<and>
    (\<forall>register \<in> {RegisterTimer, RegisterSystemTimer}.
       (\<not> shutting_down m \<longrightarrow> fst (register now time loop m) = generate_timer_id m + 1 \<and> GetTimer (generate_timer_id m + 1) m = None \<and>
          GetTimer (generate_timer_id m + 1) (snd (register now time loop m))
            = Some \<lparr>active = True, is_loop = loop, duration = time, end_time = now + time\<rparr>) \<and>
       (shutting_down m \<longrightarrow> register now time loop m = (-1, m)))"
proof (intro conjI)
  note fresh = fresh_timer_id [OF assms]
  show "tm_inv TimerManager" by (simp add: tm_inv_def TimerManager_def)
  show "tm_inv (snd (RegisterTimer now time loop m))" "tm_inv (snd (RegisterSystemTimer now time loop m))"
    using assms fresh(2) [of Steady] fresh(2) [of System]
    by (force simp: tm_inv_def RegisterTimer_def RegisterSystemTimer_def register_kind_def push_timer_def Let_def)+
  show "tm_inv (UnRegisterTimer i m)" using assms by (auto simp: tm_inv_def UnRegisterTimer_def split: option.splits)
  show "tm_inv (EnterShutdownMode nows m)" using assms by (auto simp: tm_inv_def EnterShutdownMode_def)
qed (use fresh_timer_id(1) [OF assms] in \<open>simp_all add: GetTimer_def RegisterTimer_def RegisterSystemTimer_def register_kind_def
    push_timer_def Let_def\<close>)

theorem timer_operations_keep_queues_witness:
  "tm_inv TimerManager \<and> tm_inv (snd (RegisterTimer 3 4 True demo_timers)) \<and> tm_inv (snd (RegisterSystemTimer 3 4 True demo_timers)) \<and>
    tm_inv (UnRegisterTimer 1 demo_timers) \<and> tm_inv (EnterShutdownMode (\<lambda>_. 9) demo_timers)"
  using timer_operations_keep_queues [OF demo_timers_ok(1), of 3 4 True 1 "\<lambda>_. 9"] by blast

text \<open>
  In shutdown mode a registration returns -1 and changes nothing, and what remains due, at any later time, is exactly what was
  active and expired when the mode was entered.
\<close>

theorem shutdown_leaves_current_timers:
  assumes "tm_inv m" and "\<And>i. nows i \<le> later"
  shows "RegisterTimer now time loop (EnterShutdownMode nows m) = (-1, EnterShutdownMode nows m) \<and>
    RegisterSystemTimer now time loop (EnterShutdownMode nows m) = (-1, EnterShutdownMode nows m) \<and>
    due k later (EnterShutdownMode nows m) = {i. i \<in> due k (nows i) m}"
proof (intro conjI)
  show "RegisterTimer now time loop (EnterShutdownMode nows m) = (-1, EnterShutdownMode nows m)"
    "RegisterSystemTimer now time loop (EnterShutdownMode nows m) = (-1, EnterShutdownMode nows m)"
    by (simp_all add: RegisterTimer_def RegisterSystemTimer_def register_kind_def EnterShutdownMode_def)
  have "i \<in> due k later (EnterShutdownMode nows m) \<longleftrightarrow> i \<in> due k (nows i) m" for i
  proof (cases "i \<in> set (queue k m)")
    case True
    then obtain t where t: "all_timers m i = Some t" "kind_of m i = k" using assms(1) unfolding tm_inv_kind by blast
    show ?thesis using True t assms(2) [of i] expired_mono [of k "nows i" t later t]
      by (auto simp: due_iff EnterShutdownMode_def Cancel_def)
  qed (simp add: due_iff EnterShutdownMode_def)
  then show "due k later (EnterShutdownMode nows m) = {i. i \<in> due k (nows i) m}" by blast
qed

theorem shutdown_leaves_current_timers_witness:
  "due System 8 (EnterShutdownMode (\<lambda>_. 6) demo_timers) = {i. i \<in> due System 6 demo_timers}"
  using shutdown_leaves_current_timers [OF demo_timers_ok(1), of "\<lambda>_. 6" 8 0 0 True System] by simp

text \<open>
  A looping timer that is due when the mode is entered is not cancelled: it fires in that frame, is reset, and fires again in
  a later one, although the mode is documented to complete the timers of the current frame and cancel the others.
\<close>

theorem shutdown_keeps_due_loop:
  "\<exists>m1 m2. Update (\<lambda>i m. m) (\<lambda>_. 12) (\<lambda>_. 0) (EnterShutdownMode (\<lambda>_. 11) demo_timers) = Some m1 \<and> fired m1 = [1] \<and>
     Update (\<lambda>i m. m) (\<lambda>_. 23) (\<lambda>_. 0) m1 = Some m2 \<and> fired m2 = [1, 1] \<and> shutting_down m2"
  by (simp add: demo_timers_eq Update_def EnterShutdownMode_def update_loop.simps pop_timer_def push_timer_def fire_timer_def Reset_def Let_def
      Cancel_def erase_timer_def timer_key_def)

text \<open>
  A looping system timer whose duration is not positive, e.g. \<^verbatim>\<open>RegisterSystemTimer(0, f, true)\<close>, makes \<^verbatim>\<open>Update\<close> run forever:
  \<^verbatim>\<open>SystemTimer::IsExpired\<close> is not strict, so the reset timer is due again at once.
\<close>

lemma system_loop_diverges:
  assumes "update_loop System (\<lambda>i m. m) clk n m = Some r" and "\<And>n. clk n \<le> clk (Suc n)"
    and "system_timers m = [i]" "all_timers m i = Some t" "active t" "is_loop t" "duration t \<le> 0" "end_time t \<le> clk n"
  shows False
proof -
  have "\<not> (k = System \<and> cb = (\<lambda>i m. m) \<and> (\<forall>n. c n \<le> c (Suc n)) \<and>
      (\<exists>t. system_timers m = [i] \<and> all_timers m i = Some t \<and> active t \<and> is_loop t \<and> duration t \<le> 0 \<and> end_time t \<le> c n))"
    if "update_loop k cb c n m = Some r" for k cb c n m r
  proof (rule update_loop.raw_induct [OF _ that], goal_cases)
    case (1 loop k cb c n m r)
    show ?case
    proof (rule notI, elim conjE exE)
      fix t
      assume a: "k = System" "cb = (\<lambda>i m. m)" "\<forall>n. c n \<le> c (Suc n)" "system_timers m = [i]" "all_timers m i = Some t" "active t"
        "is_loop t" "duration t \<le> 0" "end_time t \<le> c n"
      let ?m = "push_timer System i ((pop_timer System i m)\<lparr>fired := fired m @ [i], all_timers := (all_timers m)(i \<mapsto> Reset (c (n + 1)) t)\<rparr>)"
      have "loop System (\<lambda>i m. m) c (n + 2) ?m = Some r"
        using 1(2) a by (simp add: fire_timer_def pop_timer_def Let_def)
      moreover have "c (n + 1) + duration t \<le> c (n + 2)" using a(8) a(3) [rule_format, of "n + 1"] by simp
      ultimately show False
        using 1(1) [of System "\<lambda>i m. m" c "n + 2" ?m r] a by (auto simp: push_timer_def pop_timer_def Reset_def)
    qed
  qed
  then show False using assms by blast
qed

theorem system_loop_timer_hangs:
  assumes "time \<le> 0" and "\<And>n. system_clk n \<le> system_clk (Suc n)" and "now \<le> system_clk 0" and "steady_timers m = []"
    and "system_timers m = []" and "\<not> shutting_down m"
  shows "Update (\<lambda>i m. m) steady_clk system_clk (snd (RegisterSystemTimer now time True m)) = None"
proof -
  let ?m = "snd (RegisterSystemTimer now time True m)"
  have reg: "steady_timers ?m = []" "system_timers ?m = [generate_timer_id m + 1]"
    "all_timers ?m (generate_timer_id m + 1) = Some \<lparr>active = True, is_loop = True, duration = time, end_time = now + time\<rparr>"
    using assms(4-6) by (simp_all add: RegisterSystemTimer_def register_kind_def push_timer_def Let_def)
  have "update_loop System (\<lambda>i m. m) system_clk 0 ?m = None"
  proof (rule ccontr)
    assume "update_loop System (\<lambda>i m. m) system_clk 0 ?m \<noteq> None"
    then obtain r where "update_loop System (\<lambda>i m. m) system_clk 0 ?m = Some r" by blast
    then show False by (rule system_loop_diverges [of system_clk 0 ?m r, OF _ assms(2) reg(2,3)]) (use assms(1,3) in simp_all)
  qed
  moreover have "update_loop Steady (\<lambda>i m. m) steady_clk 0 ?m = Some (0, ?m)" using reg(1) by (subst update_loop.simps) simp
  ultimately show ?thesis by (simp add: Update_def)
qed

theorem system_loop_timer_hangs_witness:
  "Update (\<lambda>i m. m) (\<lambda>_. 0) (\<lambda>n. int n) (snd (RegisterSystemTimer 0 0 True TimerManager)) = None"
  by (rule system_loop_timer_hangs) (simp_all add: TimerManager_def)

end
