(* ===== verification/Workers.thy ===== *)
theory Workers
  imports Gb_Prelude
begin

text \<open>
  The workers: \<^verbatim>\<open>src/worker/worker.cpp\<close> and \<^verbatim>\<open>src/worker/worker_manager.cpp\<close>. A worker is one thread that runs frames: its
  timers, the tasks in its queue, its logic. The queue is \<^verbatim>\<open>moodycamel::ConcurrentQueue\<close>, modelled by its contract: one FIFO
  per producing thread, \<^verbatim>\<open>try_dequeue\<close> takes the head of any of them and fails when all are empty. First the operations one
  by one, then the worker thread and its producers as interleaved steps.
\<close>

section \<open>Worker\<close>

datatype worker_type = NORMAL | MAIN

datatype ServiceWorkerType = SWT_Normal | SWT_AI | SWT_Navigation | SWT_Count

text \<open>A task is opaque, an empty \<^verbatim>\<open>std::function\<close> is \<open>None\<close>; a producer is the number of a thread; a pending call is a pointer.\<close>

record 't worker =
  worker_type :: worker_type
  service_type :: ServiceWorkerType
  index :: "32 word"
  thread_id :: "32 word"
  executor :: bool              \<comment> \<open>\<^verbatim>\<open>executor_\<close> has been made, with no inline fallback\<close>
  running :: bool
  shutting_down :: bool
  events :: "nat \<Rightarrow> 't list"
  frame_duration :: int
  rpc_seq_counter :: "32 word"
  pending_rpcs :: "32 word \<rightharpoonup> nat"

definition Worker :: "worker_type \<Rightarrow> 't worker" where
  "Worker ty = \<lparr>worker_type = ty, service_type = SWT_Normal, index = 0, thread_id = 0, executor = False, running = False, shutting_down = False,
     events = (\<lambda>_. []), frame_duration = 16, rpc_seq_counter = 1, pending_rpcs = Map.empty\<rparr>"

definition Init :: "32 word \<Rightarrow> nat \<Rightarrow> 't worker \<Rightarrow> 't worker" where
  "Init tid i w = w\<lparr>thread_id := tid, index := word_of_nat i, executor := True\<rparr>"

definition OnStart :: "'t worker \<Rightarrow> 't worker" where
  "OnStart w = w\<lparr>running := True\<rparr>"

definition SetFrameRate :: "int \<Rightarrow> 't worker \<Rightarrow> 't worker" where
  "SetFrameRate fps w = (if fps > 0 then w\<lparr>frame_duration := 1000 div fps\<rparr> else w)"

definition Stop :: "'t worker \<Rightarrow> 't worker" where
  "Stop w = w\<lparr>running := False\<rparr>"

definition EnterShutdownMode :: "'t worker \<Rightarrow> 't worker" where
  "EnterShutdownMode w = w\<lparr>shutting_down := True\<rparr>"

definition enqueue :: "nat \<Rightarrow> 't \<Rightarrow> 't worker \<Rightarrow> 't worker" where
  "enqueue p t w = w\<lparr>events := (events w)(p := events w p @ [t])\<rparr>"

definition EnqueueTask :: "nat \<Rightarrow> 't option \<Rightarrow> bool \<Rightarrow> 't worker \<Rightarrow> bool \<times> 't worker" where
  "EnqueueTask p handler force w =
     (case handler of
        None \<Rightarrow> (False, w)
      | Some t \<Rightarrow>
          if \<not> force \<and> shutting_down w then (False, w)
          else if \<not> running w then (False, w)
          else (True, enqueue p t w))"

definition Post :: "nat \<Rightarrow> 't option \<Rightarrow> 't worker \<Rightarrow> 't worker" where
  "Post p handler w = snd (EnqueueTask p handler False w)"

definition try_dequeue :: "nat \<Rightarrow> 't worker \<Rightarrow> ('t \<times> 't worker) option" where
  "try_dequeue p w = (case events w p of [] \<Rightarrow> None | t # ts \<Rightarrow> Some (t, w\<lparr>events := (events w)(p := ts)\<rparr>))"

definition AllocRpcSeq :: "'t worker \<Rightarrow> 32 word \<times> 't worker" where
  "AllocRpcSeq w = (rpc_seq_counter w, w\<lparr>rpc_seq_counter := rpc_seq_counter w + 1\<rparr>)"

definition StorePendingRpc :: "32 word \<Rightarrow> nat \<Rightarrow> 't worker \<Rightarrow> 't worker" where
  "StorePendingRpc local_seq call w = w\<lparr>pending_rpcs := (pending_rpcs w)(local_seq \<mapsto> call)\<rparr>"

definition TakePendingRpc :: "32 word \<Rightarrow> 't worker \<Rightarrow> nat option \<times> 't worker" where
  "TakePendingRpc local_seq w =
     (case pending_rpcs w local_seq of
        None \<Rightarrow> (None, w)
      | Some call \<Rightarrow> (Some call, w\<lparr>pending_rpcs := (pending_rpcs w)(local_seq := None)\<rparr>))"

text \<open>\<^verbatim>\<open>CleanupInWorkerThread\<close> before it waits: it returns at once or waits for the future of the task it has enqueued.\<close>

datatype cleanup = Returns bool | Waits

definition OnCleanup :: "'t worker \<Rightarrow> 't worker" where
  "OnCleanup w = Stop w"

definition CleanupInWorkerThread :: "nat \<Rightarrow> 't \<Rightarrow> 't worker \<Rightarrow> cleanup \<times> 't worker" where
  "CleanupInWorkerThread p cleanup_task w =
     (if worker_type w = MAIN then (Returns True, OnCleanup w)
      else if \<not> running w then (Returns True, w)
      else let (ok, w') = EnqueueTask p (Some cleanup_task) True w
           in if ok then (Waits, w') else (Returns False, w'))"

section \<open>Worker manager\<close>

record 't worker_manager =
  main_worker :: "'t worker option"
  workers :: "'t worker list"

definition WorkerManager :: "'t worker_manager" where
  "WorkerManager = \<lparr>main_worker = None, workers = []\<rparr>"

definition InitMainWorker :: "32 word \<Rightarrow> 't worker_manager \<Rightarrow> 't worker_manager" where
  "InitMainWorker tid m =
     (case main_worker m of
        Some w \<Rightarrow> m
      | None \<Rightarrow> m\<lparr>main_worker := Some (OnStart (Init tid 0 (Worker MAIN)))\<rparr>)"

text \<open>\<^verbatim>\<open>CreateWorker\<close> adds the worker and starts its thread, which runs \<^verbatim>\<open>Init\<close> and \<^verbatim>\<open>OnStart\<close> when it is scheduled.\<close>

definition CreateWorker :: "ServiceWorkerType \<Rightarrow> 't worker_manager \<Rightarrow> nat \<times> 't worker_manager" where
  "CreateWorker st m = (length (workers m) + 1, m\<lparr>workers := workers m @ [(Worker NORMAL)\<lparr>service_type := st\<rparr>]\<rparr>)"

definition thread_begin :: "32 word \<Rightarrow> nat \<Rightarrow> 't worker_manager \<Rightarrow> 't worker_manager" where
  "thread_begin tid i m = m\<lparr>workers := (workers m)[i - 1 := OnStart (Init tid i (workers m ! (i - 1)))]\<rparr>"

definition Size :: "'t worker_manager \<Rightarrow> nat" where
  "Size m = length (workers m) + (if main_worker m \<noteq> None then 1 else 0)"

definition GetWorker :: "nat \<Rightarrow> 't worker_manager \<Rightarrow> 't worker option" where
  "GetWorker i m =
     (if i = 0 then main_worker m
      else if i > length (workers m) then None
      else Some (workers m ! (i - 1)))"

text \<open>A worker is reached through a pointer: to change it is to change the manager's entry.\<close>

definition upd_worker :: "nat \<Rightarrow> ('t worker \<Rightarrow> 't worker) \<Rightarrow> 't worker_manager \<Rightarrow> 't worker_manager" where
  "upd_worker i f m =
     (if i = 0 then m\<lparr>main_worker := map_option f (main_worker m)\<rparr>
      else if i > length (workers m) then m
      else m\<lparr>workers := (workers m)[i - 1 := f (workers m ! (i - 1))]\<rparr>)"

definition PostToWorker :: "nat \<Rightarrow> nat \<Rightarrow> 't option \<Rightarrow> 't worker_manager \<Rightarrow> bool \<times> 't worker_manager" where
  "PostToWorker p i handler m =
     (if GetWorker i m = None \<or> handler = None then (False, m) else (True, upd_worker i (Post p handler) m))"

definition PostToMain :: "nat \<Rightarrow> 't option \<Rightarrow> 't worker_manager \<Rightarrow> bool \<times> 't worker_manager" where
  "PostToMain p handler m =
     (if main_worker m = None \<or> handler = None then (False, m) else (True, upd_worker 0 (Post p handler) m))"

text \<open>The dispatcher is posted to every worker but the main one; \<open>task\<close> is the closure made for a worker.\<close>

definition BroadcastToWorkers :: "nat \<Rightarrow> (nat \<Rightarrow> 't) option \<Rightarrow> 't worker_manager \<Rightarrow> 't worker_manager" where
  "BroadcastToWorkers p dispatcher m =
     (case dispatcher of
        None \<Rightarrow> m
      | Some task \<Rightarrow> fold (\<lambda>i. upd_worker i (Post p (Some (task i)))) [1..<length (workers m) + 1] m)"

section \<open>The worker thread and its producers\<close>

text \<open>Where \<^verbatim>\<open>Worker::Run\<close> is, and how far a producer is in \<^verbatim>\<open>EnqueueTask\<close>, whose tests and enqueue are separate accesses.\<close>

datatype frame_pc = Top | Timers | Draining | Logic | Tick | FrameWait | Exited

datatype 't enqueue_pc =
    Outside
  | ShutdownTested 't    \<comment> \<open>past \<^verbatim>\<open>if (!force && shutting_down_.load())\<close>\<close>
  | RunningTested 't     \<comment> \<open>past \<^verbatim>\<open>if (!runing_.load())\<close>\<close>

record 't worker_run =
  self :: "'t worker"
  pc :: frame_pc
  producers :: "nat \<Rightarrow> 't enqueue_pc"
  accepted :: "(nat \<times> 't) list"
  executed :: "(nat \<times> 't) list"

definition run_init :: "'t worker \<Rightarrow> 't worker_run" where
  "run_init w = \<lparr>self = OnStart w, pc = Top, producers = (\<lambda>_. Outside), accepted = [], executed = []\<rparr>"

definition at :: "frame_pc \<Rightarrow> 't worker_run \<Rightarrow> 't worker_run" where
  "at l s = s\<lparr>pc := l\<rparr>"

text \<open>The task at the head of a producer's queue is taken and called.\<close>

definition execute :: "nat \<Rightarrow> 't worker_run \<Rightarrow> 't worker_run" where
  "execute p s =
     (case try_dequeue p (self s) of
        None \<Rightarrow> s
      | Some (t, w) \<Rightarrow> s\<lparr>self := w, executed := executed s @ [(p, t)]\<rparr>)"

text \<open>A step of the worker's own thread; \<open>p\<close> is the producer whose queue \<^verbatim>\<open>try_dequeue\<close> serves.\<close>

inductive thread_step :: "'t worker_run \<Rightarrow> 't worker_run \<Rightarrow> bool" where
  frame: "pc s = Top \<Longrightarrow> running (self s) \<Longrightarrow> thread_step s (at Timers s)"
| timers: "pc s = Timers \<Longrightarrow> thread_step s (at Draining s)"
| run_task: "pc s = Draining \<Longrightarrow> events (self s) p \<noteq> [] \<Longrightarrow> thread_step s (execute p s)"
| drained: "pc s = Draining \<Longrightarrow> \<forall>p. events (self s) p = [] \<Longrightarrow> thread_step s (at Logic s)"
| logic: "pc s = Logic \<Longrightarrow> thread_step s (at Tick s)"
| tick: "pc s = Tick \<Longrightarrow> thread_step s (at FrameWait s)"
| wake: "pc s = FrameWait \<Longrightarrow> thread_step s (at Top s)"
| run_last: "pc s = Top \<Longrightarrow> \<not> running (self s) \<Longrightarrow> events (self s) p \<noteq> [] \<Longrightarrow> thread_step s (execute p s)"
| exit: "pc s = Top \<Longrightarrow> \<not> running (self s) \<Longrightarrow> \<forall>p. events (self s) p = [] \<Longrightarrow> thread_step s (at Exited s)"

definition set_producer :: "nat \<Rightarrow> 't enqueue_pc \<Rightarrow> 't worker_run \<Rightarrow> 't worker_run" where
  "set_producer p e s = s\<lparr>producers := (producers s)(p := e)\<rparr>"

definition push_task :: "nat \<Rightarrow> 't \<Rightarrow> 't worker_run \<Rightarrow> 't worker_run" where
  "push_task p t s = set_producer p Outside (s\<lparr>self := enqueue p t (self s), accepted := accepted s @ [(p, t)]\<rparr>)"

inductive worker_step :: "'t worker_run \<Rightarrow> 't worker_run \<Rightarrow> bool" where
  thread: "thread_step s s' \<Longrightarrow> worker_step s s'"
| test_shutdown: "producers s p = Outside \<Longrightarrow> force \<or> \<not> shutting_down (self s) \<Longrightarrow> worker_step s (set_producer p (ShutdownTested t) s)"
| test_running: "producers s p = ShutdownTested t \<Longrightarrow>
    worker_step s (set_producer p (if running (self s) then RunningTested t else Outside) s)"
| push: "producers s p = RunningTested t \<Longrightarrow> worker_step s (push_task p t s)"
| stop: "worker_step s (s\<lparr>self := Stop (self s)\<rparr>)"
| shutdown: "worker_step s (s\<lparr>self := EnterShutdownMode (self s)\<rparr>)"

inductive worker_reach :: "'t worker_run \<Rightarrow> bool" where
  init: "\<forall>p. events w p = [] \<Longrightarrow> worker_reach (run_init w)"
| step: "worker_reach s \<Longrightarrow> worker_step s s' \<Longrightarrow> worker_reach s'"

inductive_cases thread_stepE: "thread_step s s'"
inductive_cases worker_stepE: "worker_step s s'"

definition tasks_of :: "nat \<Rightarrow> (nat \<times> 't) list \<Rightarrow> 't list" where
  "tasks_of p xs = map snd (filter (\<lambda>(q, t). q = p) xs)"

definition in_flight :: "'t enqueue_pc \<Rightarrow> nat" where
  "in_flight e = (case e of RunningTested t \<Rightarrow> 1 | _ \<Rightarrow> 0)"

definition fifo_inv :: "'t worker_run \<Rightarrow> bool" where
  "fifo_inv s \<longleftrightarrow> (\<forall>p. tasks_of p (executed s) @ events (self s) p = tasks_of p (accepted s))"

definition exit_inv :: "'t worker_run \<Rightarrow> bool" where
  "exit_inv s \<longleftrightarrow> (pc s = Exited \<longrightarrow> \<not> running (self s) \<and>
     (\<forall>p. length (events (self s) p) + in_flight (producers s p) \<le> 1))"

lemma run_simps [simp]:
  "self (at l s) = self s" "pc (at l s) = l" "producers (at l s) = producers s" "accepted (at l s) = accepted s"
  "executed (at l s) = executed s" "self (set_producer p e s) = self s" "pc (set_producer p e s) = pc s"
  "producers (set_producer p e s) = (producers s)(p := e)" "accepted (set_producer p e s) = accepted s"
  "executed (set_producer p e s) = executed s"
  by (simp_all add: at_def set_producer_def)

lemma tasks_of_simps [simp]:
  "tasks_of p [] = []" "tasks_of p (xs @ ys) = tasks_of p xs @ tasks_of p ys"
  "tasks_of p ((q, t) # xs) = (if q = p then t # tasks_of p xs else tasks_of p xs)"
  by (simp_all add: tasks_of_def)

lemma execute_facts:
  assumes "events (self s) p = t # ts"
  shows "self (execute p s) = (self s)\<lparr>events := (events (self s))(p := ts)\<rparr>" and "executed (execute p s) = executed s @ [(p, t)]"
    and "pc (execute p s) = pc s" and "producers (execute p s) = producers s" and "accepted (execute p s) = accepted s"
  using assms by (simp_all add: execute_def try_dequeue_def)

lemma execute_fifo: "fifo_inv s \<Longrightarrow> events (self s) p \<noteq> [] \<Longrightarrow> fifo_inv (execute p s)"
  by (cases "events (self s) p") (auto simp: fifo_inv_def execute_facts dest: spec [of _ p])

lemma thread_step_fifo: "thread_step s s' \<Longrightarrow> fifo_inv s \<Longrightarrow> fifo_inv s'"
  by (erule thread_stepE) (simp_all add: execute_fifo, simp_all add: fifo_inv_def)

lemma execute_pc [simp]: "pc (execute p s) = pc s"
  by (simp add: execute_def split: option.splits prod.splits)

lemma thread_step_exit: "thread_step s s' \<Longrightarrow> exit_inv s'"
  by (erule thread_stepE) (auto simp: exit_inv_def in_flight_def split: enqueue_pc.splits)

lemma worker_step_inv:
  assumes "worker_step s s'" and "fifo_inv s" and "exit_inv s"
  shows "fifo_inv s' \<and> exit_inv s'"
  using assms(1)
proof (cases rule: worker_step.cases)
  case thread
  then show ?thesis using assms thread_step_fifo thread_step_exit by blast
next
  case (push p t)
  then show ?thesis using assms(2,3)
    by (auto simp: fifo_inv_def exit_inv_def push_task_def enqueue_def in_flight_def split: if_splits dest: spec [of _ p])
next
  case (test_running p t)
  then show ?thesis using assms(2,3)
    by (auto simp: fifo_inv_def exit_inv_def in_flight_def split: if_splits dest: spec [of _ p])
next
  case (test_shutdown p force t)
  then show ?thesis using assms(2,3)
    by (auto simp: fifo_inv_def exit_inv_def in_flight_def split: if_splits dest: spec [of _ p])
qed (use assms(2,3) in \<open>auto simp: fifo_inv_def exit_inv_def Stop_def EnterShutdownMode_def\<close>)

lemma worker_reach_inv: "worker_reach s \<Longrightarrow> fifo_inv s \<and> exit_inv s"
  by (induction rule: worker_reach.induct)
    (auto simp: worker_step_inv, simp_all add: fifo_inv_def exit_inv_def run_init_def OnStart_def)

text \<open>
  C12. Tasks run in the order each producer had them accepted, each once: what a producer's accepted tasks are made of is
  what has been executed of them, followed by what is still queued.
\<close>

theorem worker_runs_tasks_in_order:
  assumes "worker_reach s"
  shows "tasks_of p (executed s) @ events (self s) p = tasks_of p (accepted s)"
  using worker_reach_inv [OF assms] by (simp add: fifo_inv_def)

text \<open>
  A worker that has left \<^verbatim>\<open>Run\<close> has executed every accepted task of a producer but at most the last one.
\<close>

theorem exited_worker_drained:
  assumes "worker_reach s" and "pc s = Exited"
  shows "tasks_of p (executed s) = tasks_of p (accepted s) \<or> tasks_of p (executed s) = butlast (tasks_of p (accepted s))"
proof -
  have "length (events (self s) p) \<le> 1" using worker_reach_inv [OF assms(1)] assms(2) by (auto simp: exit_inv_def dest: add_leD1)
  then have "events (self s) p = [] \<or> (\<exists>t. events (self s) p = [t])" by (cases "events (self s) p") auto
  then show ?thesis using worker_reach_inv [OF assms(1)] unfolding fifo_inv_def by (metis append_Nil2 butlast_snoc)
qed

definition lost_run :: "nat worker_run" where
  "lost_run =
     (let s1 = set_producer 0 (RunningTested 7) (set_producer 0 (ShutdownTested 7) (run_init (Worker NORMAL)));
          s2 = at Exited (s1\<lparr>self := Stop (self s1)\<rparr>)
      in push_task 0 7 s2)"

lemma exited_stays: "worker_step s s' \<Longrightarrow> pc s = Exited \<Longrightarrow> pc s' = Exited \<and> executed s' = executed s"
  by (auto elim!: worker_stepE thread_stepE simp: push_task_def)

lemma lost_run_reach: "worker_reach lost_run"
proof -
  let ?s0 = "run_init (Worker NORMAL) :: nat worker_run"
  let ?s1 = "set_producer 0 (ShutdownTested 7) ?s0" and ?s2 = "set_producer 0 (RunningTested 7) (set_producer 0 (ShutdownTested 7) ?s0)"
  let ?s3 = "?s2\<lparr>self := Stop (self ?s2)\<rparr>"
  have "worker_reach ?s0" by (rule worker_reach.init) (simp add: Worker_def)
  then have "worker_reach ?s1"
  proof (rule worker_reach.step)
    show "worker_step ?s0 ?s1" by (rule worker_step.test_shutdown [of _ _ True]) (simp_all add: run_init_def)
  qed
  then have "worker_reach ?s2"
  proof (rule worker_reach.step)
    show "worker_step ?s1 ?s2"
    using worker_step.test_running [of ?s1 0 7] by (simp add: run_init_def OnStart_def)
  qed
  then have "worker_reach ?s3" by (rule worker_reach.step) (rule worker_step.stop)
  then have "worker_reach (at Exited ?s3)"
  proof (rule worker_reach.step)
    show "worker_step ?s3 (at Exited ?s3)"
      by (rule worker_step.thread, rule thread_step.exit) (simp_all add: run_init_def Stop_def OnStart_def Worker_def)
  qed
  then have "worker_reach (push_task 0 7 (at Exited ?s3))"
    by (rule worker_reach.step) (rule worker_step.push, simp)
  then show ?thesis by (simp add: lost_run_def Let_def)
qed

text \<open>
  The last one can be lost: a producer that has passed the tests of \<^verbatim>\<open>EnqueueTask\<close> when the worker is stopped enqueues
  its task, and is told so, after the worker has left \<^verbatim>\<open>Run\<close>; whatever happens then, the task never runs.
\<close>

theorem late_task_never_runs:
  assumes "worker_step\<^sup>*\<^sup>* lost_run s"
  shows "worker_reach lost_run \<and> accepted lost_run = [(0, 7)] \<and> pc s = Exited \<and> executed s = []"
proof -
  have lost: "pc lost_run = Exited" "executed lost_run = []" "accepted lost_run = [(0, 7)]"
    by (simp_all add: lost_run_def push_task_def run_init_def)
  have "pc s = Exited \<and> executed s = executed lost_run"
    using assms
  proof (induction rule: rtranclp_induct)
    case base
    then show ?case using lost(1) by blast
  next
    case (step y z)
    then show ?case using exited_stays by metis
  qed
  then show ?thesis using lost lost_run_reach by metis
qed

theorem late_task_never_runs_witness:
  "worker_reach lost_run \<and> accepted lost_run = [(0, 7)] \<and> executed lost_run = []"
  using late_task_never_runs [of lost_run] by blast

fun steps_left :: "frame_pc \<Rightarrow> nat" where
  "steps_left Exited = 0" | "steps_left Top = 1" | "steps_left FrameWait = 2" | "steps_left Tick = 3"
| "steps_left Logic = 4" | "steps_left Draining = 5" | "steps_left Timers = 6"

definition tasks_left :: "'t worker_run \<Rightarrow> nat" where
  "tasks_left s = (\<Sum>p \<in> fst ` set (accepted s). length (events (self s) p))"

lemma execute_tasks_left:
  assumes "fifo_inv s" and "events (self s) p \<noteq> []"
  shows "Suc (tasks_left (execute p s)) = tasks_left s"
proof -
  obtain t ts where e: "events (self s) p = t # ts" using assms(2) by (cases "events (self s) p") auto
  have "tasks_of p (accepted s) \<noteq> []" using assms unfolding fifo_inv_def by (metis append_is_Nil_conv)
  then have p: "p \<in> fst ` set (accepted s)" by (force simp: tasks_of_def filter_empty_conv)
  show ?thesis
    using e by (simp add: tasks_left_def execute_facts [OF e] sum.remove [OF _ p])
qed

lemma stopped_thread_step:
  assumes "thread_step s s'" and "fifo_inv s" and "\<not> running (self s)"
  shows "\<not> running (self s') \<and> fifo_inv s' \<and> steps_left (pc s') + tasks_left s' < steps_left (pc s) + tasks_left s"
proof -
  have run: "\<not> running (self (execute p s))" for p
    using assms(3) by (simp add: execute_def try_dequeue_def split: option.splits prod.splits list.splits)
  show ?thesis using assms(1)
  proof (cases rule: thread_step.cases)
    case (run_task p)
    then show ?thesis using run execute_fifo [OF assms(2)] execute_tasks_left [OF assms(2), of p] by auto
  next
    case (run_last p)
    then show ?thesis using run execute_fifo [OF assms(2)] execute_tasks_left [OF assms(2), of p] by auto
  qed (use assms(2,3) in \<open>auto simp: fifo_inv_def tasks_left_def\<close>)
qed

lemma thread_not_stuck:
  assumes "pc s \<noteq> Exited"
  shows "\<exists>s'. thread_step s s'"
proof (cases "\<exists>p. events (self s) p \<noteq> []")
  case True
  then show ?thesis using assms by (cases "pc s") (blast intro: thread_step.intros)+
next
  case False
  then show ?thesis using assms by (cases "pc s") (blast intro: thread_step.intros)+
qed

lemma stopped_worker_steps:
  "(thread_step ^^ n) s s' \<Longrightarrow> fifo_inv s \<Longrightarrow> \<not> running (self s) \<Longrightarrow>
     n + steps_left (pc s') + tasks_left s' \<le> steps_left (pc s) + tasks_left s \<and> fifo_inv s' \<and> \<not> running (self s')"
proof (induction n arbitrary: s')
  case (Suc n)
  then obtain y where y: "(thread_step ^^ n) s y" "thread_step y s'" by auto
  then show ?case using Suc stopped_thread_step [OF y(2)] by fastforce
qed simp

text \<open>
  C13. A worker that has been stopped leaves \<^verbatim>\<open>Run\<close>: whatever queue it serves first, its thread takes at most as many steps
  as there are queued tasks and places left in the frame, and it can stop nowhere but after \<^verbatim>\<open>Run\<close>.
\<close>

theorem stopped_worker_exits:
  assumes "worker_reach s" and "\<not> running (self s)"
  shows "((thread_step ^^ n) s s' \<longrightarrow> n \<le> steps_left (pc s) + tasks_left s) \<and>
    ((\<nexists>s''. thread_step s' s'') \<longrightarrow> pc s' = Exited)"
  using stopped_worker_steps [of n s s'] worker_reach_inv [OF assms(1)] assms(2) thread_not_stuck [of s'] by auto

section \<open>Witnesses\<close>

definition demo_run :: "nat worker_run" where
  "demo_run = push_task 3 8 (set_producer 3 (RunningTested 8) (set_producer 3 (ShutdownTested 8) (run_init (Worker NORMAL))))"

lemma demo_run_reach: "worker_reach demo_run"
proof -
  let ?s0 = "run_init (Worker NORMAL) :: nat worker_run"
  have "worker_reach ?s0" by (rule worker_reach.init) (simp add: Worker_def)
  then have "worker_reach (set_producer 3 (ShutdownTested 8) ?s0)"
    by (rule worker_reach.step) (rule worker_step.test_shutdown [of _ _ True], simp_all add: run_init_def)
  then have "worker_reach (set_producer 3 (RunningTested 8) (set_producer 3 (ShutdownTested 8) ?s0))"
    by (rule worker_reach.step)
      (use worker_step.test_running [of "set_producer 3 (ShutdownTested 8) ?s0" 3 8] in \<open>simp add: run_init_def OnStart_def\<close>)
  then show ?thesis unfolding demo_run_def by (rule worker_reach.step) (rule worker_step.push, simp)
qed

theorem worker_runs_tasks_in_order_witness:
  "tasks_of 3 (executed demo_run) @ events (self demo_run) 3 = tasks_of 3 (accepted demo_run) \<and> accepted demo_run = [(3, 8)]"
  using worker_runs_tasks_in_order [OF demo_run_reach, of 3] by (simp add: demo_run_def push_task_def run_init_def)

theorem exited_worker_drained_witness:
  "tasks_of 0 (executed lost_run) = tasks_of 0 (accepted lost_run) \<or>
   tasks_of 0 (executed lost_run) = butlast (tasks_of 0 (accepted lost_run))"
proof -
  have "pc lost_run = Exited" by (simp add: lost_run_def push_task_def)
  then show ?thesis by (rule exited_worker_drained [OF lost_run_reach])
qed

theorem stopped_worker_exits_witness:
  "(let s = demo_run\<lparr>self := Stop (self demo_run)\<rparr> in thread_step s (execute 3 s) \<and> 1 \<le> steps_left (pc s) + tasks_left s)"
proof -
  let ?s = "demo_run\<lparr>self := Stop (self demo_run)\<rparr>"
  have r: "worker_reach ?s" by (rule worker_reach.step [OF demo_run_reach]) (rule worker_step.stop)
  have s: "thread_step ?s (execute 3 ?s)"
    by (rule thread_step.run_last) (simp_all add: demo_run_def push_task_def run_init_def Stop_def enqueue_def)
  then have "(thread_step ^^ 1) ?s (execute 3 ?s)" by (simp add: eq_OO)
  then show ?thesis using s stopped_worker_exits [OF r, of 1 "execute 3 ?s"] by (simp add: Let_def Stop_def)
qed

section \<open>Lookup and posting\<close>

text \<open>The states of the manager: workers are created and started in any order, and the tasks change them through their pointers.\<close>

definition harmless :: "('t worker \<Rightarrow> 't worker) \<Rightarrow> bool" where
  "harmless f \<longleftrightarrow> (\<forall>w. index (f w) = index w \<and> (running (f w) \<longrightarrow> running w))"

inductive manager_reach :: "'t worker_manager \<Rightarrow> bool" where
  new: "manager_reach WorkerManager"
| init_main: "manager_reach m \<Longrightarrow> manager_reach (InitMainWorker tid m)"
| create: "manager_reach m \<Longrightarrow> manager_reach (snd (CreateWorker st m))"
| begin_thread: "manager_reach m \<Longrightarrow> 1 \<le> i \<Longrightarrow> i \<le> length (workers m) \<Longrightarrow> manager_reach (thread_begin tid i m)"
| change: "manager_reach m \<Longrightarrow> harmless f \<Longrightarrow> manager_reach (upd_worker i f m)"

lemma worker_operations_harmless:
  "harmless (Post p h)" "harmless Stop" "harmless EnterShutdownMode" "harmless (SetFrameRate fps)" "harmless (StorePendingRpc q c)"
  "harmless (\<lambda>w. snd (TakePendingRpc q w))" "harmless (\<lambda>w. snd (AllocRpcSeq w))"
  "harmless (\<lambda>w. snd (EnqueueTask p h force w))"
  by (auto simp: harmless_def Post_def EnqueueTask_def enqueue_def Stop_def EnterShutdownMode_def SetFrameRate_def
      StorePendingRpc_def TakePendingRpc_def AllocRpcSeq_def split: option.splits)

lemma GetWorker_upd_worker: "GetWorker j (upd_worker i f m) = (if j = i then map_option f (GetWorker j m) else GetWorker j m)"
  by (auto simp: GetWorker_def upd_worker_def nth_list_update)

lemma GetWorker_InitMainWorker: "GetWorker j (InitMainWorker tid m) =
    (if j = 0 \<and> main_worker m = None then Some (OnStart (Init tid 0 (Worker MAIN))) else GetWorker j m)"
  by (auto simp: GetWorker_def InitMainWorker_def split: option.splits)

lemma GetWorker_CreateWorker: "GetWorker j (snd (CreateWorker st m)) =
    (if j = length (workers m) + 1 then Some ((Worker NORMAL)\<lparr>service_type := st\<rparr>) else GetWorker j m)"
  by (auto simp: GetWorker_def CreateWorker_def nth_append)

lemma GetWorker_thread_begin: "1 \<le> i \<Longrightarrow> i \<le> length (workers m) \<Longrightarrow> GetWorker j (thread_begin tid i m) =
    (if j = i then map_option (\<lambda>w. OnStart (Init tid i w)) (GetWorker j m) else GetWorker j m)"
  by (auto simp: GetWorker_def thread_begin_def nth_list_update)

lemma started_index [simp]: "index (OnStart (Init tid i w)) = word_of_nat i"
  by (simp add: OnStart_def Init_def)

lemma new_worker_idle [simp]: "\<not> running ((Worker ty)\<lparr>service_type := st\<rparr>)"
  by (simp add: Worker_def)

definition indexed :: "'t worker_manager \<Rightarrow> bool" where
  "indexed m \<longleftrightarrow> (\<forall>i w. GetWorker i m = Some w \<longrightarrow> running w \<longrightarrow> index w = word_of_nat i)"

lemma manager_reach_indexed: "manager_reach m \<Longrightarrow> indexed m"
proof (induction rule: manager_reach.induct)
  case new
  then show ?case by (simp add: indexed_def GetWorker_def WorkerManager_def)
next
  case (init_main m tid)
  have "index (OnStart (Init tid 0 (Worker MAIN))) = word_of_nat 0" by simp
  then show ?case using init_main unfolding indexed_def GetWorker_InitMainWorker by (metis option.inject)
next
  case (create m st)
  then show ?case unfolding indexed_def GetWorker_CreateWorker by (metis option.inject new_worker_idle)
next
  case (begin_thread m i tid)
  show ?case unfolding indexed_def
  proof (intro allI impI)
    fix j w assume w: "GetWorker j (thread_begin tid i m) = Some w" "running w"
    show "index w = word_of_nat j"
    proof (cases "j = i")
      case True
      then have "\<exists>v. w = OnStart (Init tid i v)" using w(1) begin_thread.hyps by (auto simp: GetWorker_thread_begin)
      then show ?thesis using True by (metis started_index)
    next
      case False
      then show ?thesis using w begin_thread by (simp add: GetWorker_thread_begin indexed_def)
    qed
  qed
next
  case (change m f i)
  show ?case unfolding indexed_def
  proof (intro allI impI)
    fix j w assume w: "GetWorker j (upd_worker i f m) = Some w" "running w"
    show "index w = word_of_nat j"
    proof (cases "j = i")
      case True
      then obtain v where "GetWorker j m = Some v" "w = f v" using w(1) by (auto simp: GetWorker_upd_worker)
      moreover have "running v" "index (f v) = index v"
        using change.hyps(2) w(2) \<open>w = f v\<close> unfolding harmless_def by blast+
      ultimately show ?thesis using change.IH unfolding indexed_def by metis
    next
      case False
      then show ?thesis using w change.IH by (simp add: GetWorker_upd_worker indexed_def)
    qed
  qed
qed

text \<open>
  A running worker is found under its own index, so the index a request carries leads back to the worker that made it.
\<close>

theorem worker_found_by_index:
  assumes "manager_reach m" and "GetWorker i m = Some w" and "running w" and "length (workers m) < 2 ^ 32"
  shows "GetWorker (unat (index w)) m = Some w"
proof -
  have "i \<le> length (workers m)" using assms(2) by (auto simp: GetWorker_def split: if_splits)
  then have "unat (word_of_nat i :: 32 word) = i" using assms(4) by (simp add: unat_of_nat)
  then show ?thesis using manager_reach_indexed [OF assms(1)] assms(2,3) by (simp add: indexed_def)
qed

text \<open>
  \<^verbatim>\<open>PostToWorker\<close> puts the task at the end of the poster's queue at that worker and changes no other; when the worker is
  stopped or shutting down it drops the task and still returns true.
\<close>

theorem post_to_worker:
  assumes "GetWorker i m = Some w"
  shows "fst (PostToWorker p i (Some t) m) \<and>
    GetWorker j (snd (PostToWorker p i (Some t) m)) =
      (if j = i then Some (if running w \<and> \<not> shutting_down w then enqueue p t w else w) else GetWorker j m)"
  using assms by (auto simp: PostToWorker_def GetWorker_upd_worker Post_def EnqueueTask_def)

lemma fold_upd_worker:
  "distinct is \<Longrightarrow> GetWorker j (fold (\<lambda>i. upd_worker i (f i)) is m) =
     (if j \<in> set is then map_option (f j) (GetWorker j m) else GetWorker j m)"
  by (induction "is" arbitrary: m) (auto simp: GetWorker_upd_worker)

text \<open>
  \<^verbatim>\<open>BroadcastToWorkers\<close> enqueues the dispatcher once at every worker that runs and is not shutting down, and never at the
  main worker.
\<close>

theorem broadcast_reaches_workers:
  "GetWorker j (BroadcastToWorkers p (Some task) m) =
     (if 1 \<le> j \<and> j \<le> length (workers m)
      then map_option (\<lambda>w. if running w \<and> \<not> shutting_down w then enqueue p (task j) w else w) (GetWorker j m)
      else GetWorker j m)"
proof -
  have "Post p (Some t) = (\<lambda>w. if running w \<and> \<not> shutting_down w then enqueue p t w else w)" for t :: 'a
    by (auto simp: Post_def EnqueueTask_def)
  then show ?thesis by (simp add: BroadcastToWorkers_def fold_upd_worker del: upt_Suc)
qed

definition demo_manager :: "'t worker_manager" where
  "demo_manager = thread_begin 5 1 (snd (CreateWorker SWT_AI (InitMainWorker 4 WorkerManager)))"

lemma demo_manager_reach: "manager_reach demo_manager"
  unfolding demo_manager_def
  by (intro manager_reach.intros) (simp_all add: CreateWorker_def)

lemma demo_manager_worker:
  "GetWorker 1 demo_manager = Some (OnStart (Init 5 1 ((Worker NORMAL)\<lparr>service_type := SWT_AI\<rparr>)))" "length (workers demo_manager) = 1"
  by (simp_all add: demo_manager_def GetWorker_def thread_begin_def CreateWorker_def InitMainWorker_def WorkerManager_def)

theorem worker_found_by_index_witness:
  "GetWorker (unat (index (the (GetWorker 1 (demo_manager :: nat worker_manager))))) (demo_manager :: nat worker_manager) = GetWorker 1 demo_manager"
proof -
  have "running (the (GetWorker 1 (demo_manager :: nat worker_manager)))" by (subst demo_manager_worker(1)) (simp add: OnStart_def)
  then show ?thesis
    using worker_found_by_index [OF demo_manager_reach, of 1 "the (GetWorker 1 (demo_manager :: nat worker_manager))"]
    by (simp add: demo_manager_worker del: One_nat_def)
qed

theorem post_to_worker_witness:
  "fst (PostToWorker 0 1 (Some (9 :: nat)) demo_manager) \<and>
   (\<exists>w. GetWorker 1 (snd (PostToWorker 0 1 (Some (9 :: nat)) demo_manager)) = Some w \<and> events w 0 = [9])"
  using post_to_worker [OF demo_manager_worker(1), of 0 "9 :: nat" 1]
  by (simp add: OnStart_def Init_def Worker_def enqueue_def)

end
