(* ===== verification/Routing.thy ===== *)
theory Routing
  imports Route_Table Workers Message_Meta
begin

text \<open>
  How a received message finds the thread that handles it: \<^verbatim>\<open>RouteTable\<close> (\<^verbatim>\<open>src/network/router/route_table.h\<close>), \<^verbatim>\<open>Router\<close>
  (\<^verbatim>\<open>src/network/router/router.cpp\<close>), \<^verbatim>\<open>WorkerExecutor\<close> (\<^verbatim>\<open>src/network/rpc/executor.h\<close>) and the handler maps and \<^verbatim>\<open>Dispatch\<close> of
  \<^verbatim>\<open>NetworkManager\<close> (\<^verbatim>\<open>src/network/manager/network_manager.cpp\<close>). A \<^verbatim>\<open>WorkerWeakPtr\<close> is the worker's place in the manager;
  it has expired when \<open>GetWorker\<close> finds nothing there.
\<close>

section \<open>Route table\<close>

type_synonym message_type = "32 word"

record frozen_snapshot =
  f_resolver :: "(message_type \<Rightarrow> ServiceWorkerType) option"
  f_workers :: "ServiceWorkerType \<Rightarrow> nat list option"

record route_table =
  rt_workers :: "ServiceWorkerType \<Rightarrow> nat list"
  service_type_resolver :: "(message_type \<Rightarrow> ServiceWorkerType) option"
  frozen :: "frozen_snapshot option"

definition RouteTable :: route_table where
  "RouteTable = \<lparr>rt_workers = (\<lambda>_. []), service_type_resolver = None, frozen = None\<rparr>"

definition RegisterWorker :: "ServiceWorkerType \<Rightarrow> nat \<Rightarrow> route_table \<Rightarrow> route_table" where
  "RegisterWorker st w r =
     (if st = SWT_Count then r else r\<lparr>rt_workers := (rt_workers r)(st := rt_workers r st @ [w])\<rparr>)"

definition SetServiceTypeResolver :: "(message_type \<Rightarrow> ServiceWorkerType) option \<Rightarrow> route_table \<Rightarrow> route_table" where
  "SetServiceTypeResolver f r = r\<lparr>service_type_resolver := f\<rparr>"

definition FreezeTable :: "route_table \<Rightarrow> route_table" where
  "FreezeTable r =
     r\<lparr>frozen := Some \<lparr>f_resolver = service_type_resolver r,
         f_workers = (\<lambda>st. if st \<noteq> SWT_Count \<and> rt_workers r st \<noteq> [] then Some (rt_workers r st) else None)\<rparr>\<rparr>"

definition IsFrozen :: "route_table \<Rightarrow> bool" where
  "IsFrozen r \<longleftrightarrow> frozen r \<noteq> None"

definition GetWorkers :: "ServiceWorkerType \<Rightarrow> route_table \<Rightarrow> nat list" where
  "GetWorkers st r =
     (if IsFrozen r \<and> st \<noteq> SWT_Count
      then (case f_workers (the (frozen r)) st of Some ws \<Rightarrow> ws | None \<Rightarrow> [])
      else if st = SWT_Count then [] else rt_workers r st)"

definition GetWorkerRef :: "ServiceWorkerType \<Rightarrow> route_table \<Rightarrow> nat list option" where
  "GetWorkerRef st r =
     (case frozen r of
        None \<Rightarrow> None
      | Some f \<Rightarrow> if st \<noteq> SWT_Count then f_workers f st else None)"

definition ResolveServiceWorkerType :: "message_type \<Rightarrow> route_table \<Rightarrow> ServiceWorkerType" where
  "ResolveServiceWorkerType mt r =
     (case (case frozen r of None \<Rightarrow> None | Some f \<Rightarrow> f_resolver f) of
        Some f \<Rightarrow> f mt
      | None \<Rightarrow> (case service_type_resolver r of Some f \<Rightarrow> f mt | None \<Rightarrow> SWT_Normal))"

section \<open>Router\<close>

datatype policy = Stateful | Stateless

type_synonym key_selector = "message_type \<Rightarrow> u64 \<Rightarrow> u64"
type_synonym index_selector = "nat list \<Rightarrow> message_type \<Rightarrow> u64 \<Rightarrow> nat"

record router =
  router_policy :: policy
  routes :: route_table
  route_key_selector :: "key_selector option"
  worker_index_selector :: "index_selector option"
  entity_routes :: lf_route_table
  frozen_strategy :: "(key_selector option \<times> index_selector option) option"

definition Router :: router where
  "Router = \<lparr>router_policy = Stateless, routes = RouteTable, route_key_selector = None, worker_index_selector = None,
     entity_routes = LockFreeRouteTable, frozen_strategy = None\<rparr>"

definition FreezeRouter :: "router \<Rightarrow> router" where
  "FreezeRouter r = r\<lparr>routes := FreezeTable (routes r), frozen_strategy := Some (route_key_selector r, worker_index_selector r)\<rparr>"

definition SetRouteKeySelector :: "key_selector option \<Rightarrow> router \<Rightarrow> router" where
  "SetRouteKeySelector f r = r\<lparr>route_key_selector := f\<rparr>"

definition SetWorkerIndexSelector :: "index_selector option \<Rightarrow> router \<Rightarrow> router" where
  "SetWorkerIndexSelector f r = r\<lparr>worker_index_selector := f\<rparr>"

definition pick :: "key_selector option \<Rightarrow> index_selector option \<Rightarrow> nat list \<Rightarrow> message_type \<Rightarrow> u64 \<Rightarrow> nat option" where
  "pick key ind ws mt rid =
     (case ind of
        Some f \<Rightarrow> (let i = f ws mt rid in if i < length ws then Some (ws ! i) else None)
      | None \<Rightarrow>
          (let k = (case key of Some f \<Rightarrow> f mt rid | None \<Rightarrow> rid)
           in Some (ws ! (unat k mod length ws))))"

definition PickWorker :: "router \<Rightarrow> nat list \<Rightarrow> message_type \<Rightarrow> u64 \<Rightarrow> nat option" where
  "PickWorker r ws mt rid =
     (if ws = [] then None
      else case frozen_strategy r of
             Some (key, ind) \<Rightarrow> pick key ind ws mt rid
           | None \<Rightarrow> pick (route_key_selector r) (worker_index_selector r) ws mt rid)"

text \<open>
  An executor holds a worker, or the two functions that \<^verbatim>\<open>WorkerExecutor::Main\<close> gives it while there is no main worker, or
  nothing.
\<close>

record executor =
  target :: "nat option"
  dispatch_to_main :: bool
  inline_fallback :: bool

definition WorkerExecutor :: executor where
  "WorkerExecutor = \<lparr>target = None, dispatch_to_main = False, inline_fallback = True\<rparr>"

definition worker_executor :: "nat option \<Rightarrow> bool \<Rightarrow> executor" where
  "worker_executor w inl = \<lparr>target = w, dispatch_to_main = False, inline_fallback = inl\<rparr>"

definition MainExecutor :: "'t worker_manager \<Rightarrow> bool \<Rightarrow> executor" where
  "MainExecutor m inl =
     (if main_worker m \<noteq> None then worker_executor (Some 0) inl
      else \<lparr>target = None, dispatch_to_main = True, inline_fallback = inl\<rparr>)"

text \<open>What \<^verbatim>\<open>GetExecutor\<close> of a worker gives, else an executor made for it on the spot.\<close>

definition executor_of :: "nat \<Rightarrow> 't worker \<Rightarrow> executor" where
  "executor_of i w = (if executor w then worker_executor (Some i) False else worker_executor (Some i) True)"

definition GetExecutor :: "'t worker_manager \<Rightarrow> router \<Rightarrow> message_type \<Rightarrow> u64 \<Rightarrow> executor" where
  "GetExecutor m r mt uid =
     (if uid = 0
      then (case GetWorker 0 m of Some w \<Rightarrow> executor_of 0 w | None \<Rightarrow> WorkerExecutor)
      else case router_policy r of
        Stateful \<Rightarrow>
          (let wi = Lookup uid (entity_routes r)
           in if wi \<noteq> kInvalidWorker
              then (case GetWorker (unat wi) m of Some w \<Rightarrow> executor_of (unat wi) w | None \<Rightarrow> WorkerExecutor)
              else WorkerExecutor)
      | Stateless \<Rightarrow>
          (case GetWorkerRef (ResolveServiceWorkerType mt (routes r)) (routes r) of
             None \<Rightarrow> WorkerExecutor
           | Some ws \<Rightarrow>
               if ws = [] then WorkerExecutor
               else (case PickWorker r ws mt uid of
                       None \<Rightarrow> WorkerExecutor
                     | Some i \<Rightarrow> (case GetWorker i m of Some w \<Rightarrow> executor_of i w | None \<Rightarrow> WorkerExecutor))))"

section \<open>Dispatching to an executor\<close>

text \<open>Where the task went: it was run on the calling thread, put in a worker's queue, or nothing was done with it.\<close>

datatype outcome = RunInline | PostedTo nat | NotRun

text \<open>The calling thread: its number as a producer, the worker it runs, and whether it is the main thread.\<close>

record caller =
  producer :: nat
  current_worker :: "nat option"
  is_main_thread :: bool

definition IsCurrent :: "'t worker_manager \<Rightarrow> caller \<Rightarrow> executor \<Rightarrow> bool" where
  "IsCurrent m c ex =
     (case Option.bind (target ex) (\<lambda>i. GetWorker i m) of
        Some w \<Rightarrow> (case Option.bind (current_worker c) (\<lambda>i. GetWorker i m) of None \<Rightarrow> False | Some cur \<Rightarrow> index cur = index w)
      | None \<Rightarrow> dispatch_to_main ex \<and> is_main_thread c)"

definition Dispatch :: "executor \<Rightarrow> 't option \<Rightarrow> caller \<Rightarrow> 't worker_manager \<Rightarrow> bool \<times> outcome \<times> 't worker_manager" where
  "Dispatch ex fn c m =
     (if fn = None then (False, NotRun, m)
      else if Option.bind (target ex) (\<lambda>i. GetWorker i m) \<noteq> None
      then (if IsCurrent m c ex then (True, RunInline, m)
            else (let i = the (target ex) in (True, PostedTo i, upd_worker i (Post (producer c) fn) m)))
      else if dispatch_to_main ex
      then (if IsCurrent m c ex then (True, RunInline, m)
            else (True, PostedTo 0, snd (PostToMain (producer c) fn m)))
      else if inline_fallback ex then (True, RunInline, m)
      else (False, NotRun, m))"

section \<open>Network manager\<close>

text \<open>Handlers are opaque; \<^verbatim>\<open>MD5::MD5Hash64\<close> of the method name is computed by the caller of these operations.\<close>

record 'h network_manager =
  nm_router :: router
  listen_function_map :: "u32 \<rightharpoonup> 'h"
  rpc_interface_map :: "u64 \<rightharpoonup> 'h"
  frozen_listen_map :: "(u32 \<rightharpoonup> 'h) option"
  frozen_rpc_interface_map :: "(u64 \<rightharpoonup> 'h) option"

definition NetworkManager :: "'h network_manager" where
  "NetworkManager = \<lparr>nm_router = Router, listen_function_map = Map.empty, rpc_interface_map = Map.empty,
     frozen_listen_map = None, frozen_rpc_interface_map = None\<rparr>"

definition ListenOption :: "u32 \<Rightarrow> 'h \<Rightarrow> 'h network_manager \<Rightarrow> 'h network_manager" where
  "ListenOption ty f n = n\<lparr>listen_function_map := (listen_function_map n)(ty \<mapsto> f)\<rparr>"

definition UnListen :: "u32 \<Rightarrow> 'h network_manager \<Rightarrow> 'h network_manager" where
  "UnListen ty n = n\<lparr>listen_function_map := (listen_function_map n)(ty := None)\<rparr>"

text \<open>\<^verbatim>\<open>insert\<close> keeps the handler that is already there.\<close>

definition RegisterOption :: "u64 \<Rightarrow> 'h \<Rightarrow> 'h network_manager \<Rightarrow> 'h network_manager" where
  "RegisterOption key f n =
     (if rpc_interface_map n key = None then n\<lparr>rpc_interface_map := (rpc_interface_map n)(key \<mapsto> f)\<rparr> else n)"

definition UnRegister :: "u64 \<Rightarrow> 'h network_manager \<Rightarrow> 'h network_manager" where
  "UnRegister key n = n\<lparr>rpc_interface_map := (rpc_interface_map n)(key := None)\<rparr>"

definition FindListenFunction :: "u32 \<Rightarrow> 'h network_manager \<Rightarrow> 'h option" where
  "FindListenFunction ty n = (case frozen_listen_map n of Some f \<Rightarrow> f ty | None \<Rightarrow> listen_function_map n ty)"

definition FindRpcFunction :: "u64 \<Rightarrow> 'h network_manager \<Rightarrow> 'h option" where
  "FindRpcFunction key n = (case frozen_rpc_interface_map n of Some f \<Rightarrow> f key | None \<Rightarrow> rpc_interface_map n key)"

definition FreezeNetwork :: "'h network_manager \<Rightarrow> 'h network_manager" where
  "FreezeNetwork n =
     n\<lparr>frozen_listen_map := Some (listen_function_map n), listen_function_map := Map.empty,
       frozen_rpc_interface_map := Some (rpc_interface_map n), rpc_interface_map := Map.empty,
       nm_router := FreezeRouter (nm_router n)\<rparr>"

text \<open>
  The closures that \<^verbatim>\<open>Dispatch\<close> makes, and the other tasks that workers get: \<open>x\<close> is the captured session, buffer and sizes,
  \<open>TimeoutTask\<close> is the closure of a call's expired timer.
\<close>

datatype ('h, 'x) task =
    HandlerTask 'h meta 'x
  | ResponseTask u32 meta 'x
  | TimeoutTask nat
  | OtherTask nat

definition seq_index :: "u64 \<Rightarrow> u32" where
  "seq_index v = ucast v"

definition seq_seq :: "u64 \<Rightarrow> u32" where
  "seq_seq v = ucast (drop_bit 32 v)"

definition SequenceId :: "u32 \<Rightarrow> u32 \<Rightarrow> u64" where
  "SequenceId i s = ucast i OR push_bit 32 (ucast s)"

fun to_executor :: "'h option \<Rightarrow> meta \<Rightarrow> 'x \<Rightarrow> executor \<Rightarrow> caller \<Rightarrow> ('h, 'x) task worker_manager \<Rightarrow>
    outcome \<times> ('h, 'x) task worker_manager" where
  "to_executor None mt x ex c m = (NotRun, m)"
| "to_executor (Some f) mt x ex c m = snd (Dispatch ex (Some (HandlerTask f mt x)) c m)"

definition NetworkDispatch :: "'h network_manager \<Rightarrow> meta \<Rightarrow> 'x \<Rightarrow> caller \<Rightarrow> ('h, 'x) task worker_manager \<Rightarrow>
    outcome \<times> ('h, 'x) task worker_manager" where
  "NetworkDispatch n mt x c m =
     (if mode mt = Msg
      then to_executor (FindListenFunction (mtype mt) n) mt x (GetExecutor m (nm_router n) (mtype mt) (user_unique_id mt)) c m
      else if mode mt = Request
      then to_executor (FindRpcFunction (rpc_method mt) n) mt x (GetExecutor m (nm_router n) (mtype mt) (user_unique_id mt)) c m
      else if mode mt = Response
      then (let wi = seq_index (sequence mt); s = seq_seq (sequence mt)
            in case GetWorker (unat wi) m of
                 None \<Rightarrow> (NotRun, m)
               | Some w \<Rightarrow> (PostedTo (unat wi), upd_worker (unat wi) (Post (producer c) (Some (ResponseTask s mt x))) m))
      else (NotRun, m))"

section \<open>Properties\<close>

lemma sequence_id_parts [simp]: "seq_index (SequenceId i s) = i" "seq_seq (SequenceId i s) = s"
  unfolding seq_index_def seq_seq_def SequenceId_def
  by (rule bit_word_eqI; auto simp: bit_simps dest: bit_imp_le_length)+

lemma sequence_id_split: "SequenceId (seq_index v) (seq_seq v) = v"
  unfolding seq_index_def seq_seq_def SequenceId_def
  by (rule bit_word_eqI) (auto simp: bit_simps)

text \<open>Dispatching changes queues only, so it does not change where later messages go.\<close>

definition same_workers :: "'t worker_manager \<Rightarrow> 't worker_manager \<Rightarrow> bool" where
  "same_workers m m' \<longleftrightarrow> (\<forall>j. case GetWorker j m of
     None \<Rightarrow> GetWorker j m' = None
   | Some w \<Rightarrow> \<exists>q. GetWorker j m' = Some (w\<lparr>events := q\<rparr>))"

lemma same_but_events [simp]: "\<exists>q. w = w\<lparr>events := q\<rparr>"
  by (rule exI [of _ "events w"]) simp

lemma same_workers_post: "same_workers m (upd_worker i (Post p h) m)"
  by (auto simp: same_workers_def GetWorker_upd_worker Post_def EnqueueTask_def enqueue_def split: option.splits
)

lemma same_workers_executor:
  assumes "same_workers m m'"
  shows "(case GetWorker i m' of Some w \<Rightarrow> executor_of i w | None \<Rightarrow> WorkerExecutor) =
    (case GetWorker i m of Some w \<Rightarrow> executor_of i w | None \<Rightarrow> WorkerExecutor)"
  using assms unfolding same_workers_def
  by (cases "GetWorker i m") (auto simp: executor_of_def dest!: spec [of _ i])

lemma same_workers_GetExecutor: "same_workers m m' \<Longrightarrow> GetExecutor m' r mt uid = GetExecutor m r mt uid"
  unfolding GetExecutor_def by (simp only: same_workers_executor)

lemma dispatch_posts:
  assumes "target ex = Some i" and "GetWorker i m = Some w" and "\<not> IsCurrent m c ex"
  shows "Dispatch ex (Some t) c m = (True, PostedTo i, upd_worker i (Post (producer c) (Some t)) m)"
  using assms by (simp add: Dispatch_def Let_def)

lemma dispatch_message:
  assumes "mode mt = Msg" and "FindListenFunction (mtype mt) n = Some f"
    and "target (GetExecutor m (nm_router n) (mtype mt) (user_unique_id mt)) = Some i"
    and "GetWorker i m = Some w" and "running w" and "\<not> shutting_down w" and "current_worker c = None"
  shows "NetworkDispatch n mt x c m =
    (PostedTo i, upd_worker i (\<lambda>_. enqueue (producer c) (HandlerTask f mt x) w) m)"
proof -
  let ?ex = "GetExecutor m (nm_router n) (mtype mt) (user_unique_id mt)"
  have "\<not> IsCurrent m c ?ex" using assms(3,4,7) by (simp add: IsCurrent_def)
  moreover have "upd_worker i (Post (producer c) (Some t)) m = upd_worker i (\<lambda>_. enqueue (producer c) t w) m" for t
    using assms(4-6) by (auto simp: upd_worker_def GetWorker_def Post_def EnqueueTask_def split: if_splits)
  ultimately show ?thesis using assms by (simp add: NetworkDispatch_def dispatch_posts)
qed

definition dispatch_all :: "'h network_manager \<Rightarrow> caller \<Rightarrow> (meta \<times> 'x) list \<Rightarrow> ('h, 'x) task worker_manager \<Rightarrow>
    ('h, 'x) task worker_manager" where
  "dispatch_all n c = fold (\<lambda>(mt, x) m. snd (NetworkDispatch n mt x c m))"

text \<open>
  C10. Let one receiving thread, which is no worker's thread, dispatch messages of mode \<open>Msg\<close>, all of one entity and one type, for which
  a handler is registered and whose route succeeds and leads to a worker that runs and is not shutting down. Then a handler task for
  each of them joins, in the order of their arrival, that worker's queue of that thread, and no other worker is touched. (Messages
  without a route run on the receiving thread, and each receiving thread has a queue of its own.)
\<close>

theorem entity_messages_in_order:
  assumes "\<forall>(mt, x) \<in> set msgs. mode mt = Msg \<and> mtype mt = ty \<and> user_unique_id mt = uid"
    and "FindListenFunction ty n = Some f" and "target (GetExecutor m (nm_router n) ty uid) = Some i"
    and "GetWorker i m = Some w" and "running w" and "\<not> shutting_down w" and "current_worker c = None"
  shows "\<exists>w'. GetWorker i (dispatch_all n c msgs m) = Some w' \<and>
    events w' = (events w)(producer c := events w (producer c) @ map (\<lambda>(mt, x). HandlerTask f mt x) msgs) \<and>
    (\<forall>j \<in> - {i}. GetWorker j (dispatch_all n c msgs m) = GetWorker j m)"
  using assms
proof (induction msgs arbitrary: m w)
  case Nil
  then show ?case by (simp add: dispatch_all_def)
next
  case (Cons msg msgs)
  obtain mt x where msg: "msg = (mt, x)" by (cases msg)
  let ?w = "enqueue (producer c) (HandlerTask f mt x) w"
  let ?m = "upd_worker i (\<lambda>_. ?w) m"
  have d: "NetworkDispatch n mt x c m = (PostedTo i, ?m)"
    by (rule dispatch_message) (use Cons.prems msg in auto)
  have "same_workers m ?m"
    using Cons.prems(4) by (auto simp: same_workers_def GetWorker_upd_worker enqueue_def split: option.splits)
  then have t: "target (GetExecutor ?m (nm_router n) ty uid) = Some i" using Cons.prems(3) same_workers_GetExecutor by metis
  have g: "GetWorker i ?m = Some ?w" using Cons.prems(4) by (simp add: GetWorker_upd_worker)
  have r: "running ?w" and s: "\<not> shutting_down ?w" using Cons.prems(5,6) by (simp_all add: enqueue_def)
  have all: "\<forall>(mt, x) \<in> set msgs. mode mt = Msg \<and> mtype mt = ty \<and> user_unique_id mt = uid" using Cons.prems(1) by simp
  from Cons.IH [OF all Cons.prems(2) t g r s Cons.prems(7)] obtain w' where w': "GetWorker i (dispatch_all n c msgs ?m) = Some w'"
      "events w' = (events ?w)(producer c := events ?w (producer c) @ map (\<lambda>(mt, x). HandlerTask f mt x) msgs)"
      "\<forall>j \<in> - {i}. GetWorker j (dispatch_all n c msgs ?m) = GetWorker j ?m"
    by blast
  moreover have "dispatch_all n c (msg # msgs) m = dispatch_all n c msgs ?m" using d msg by (simp add: dispatch_all_def)
  ultimately show ?case using msg by (auto simp: enqueue_def GetWorker_upd_worker)
qed

text \<open>
  C11. Under the stateful policy a message goes to the worker its entity was bound to last before the last freeze of the entity
  routes, whatever the history of bindings.
\<close>

theorem stateful_follows_binding:
  assumes "router_policy r = Stateful" and "entity_routes r = foldl apply_route_op LockFreeRouteTable ops"
    and "snd (foldl route_spec_op (Map.empty, Map.empty) ops) uid = Some wi" and "wi \<noteq> kInvalidWorker"
    and "uid \<noteq> 0" and "GetWorker (unat wi) m = Some w"
  shows "target (GetExecutor m r ty uid) = Some (unat wi)"
proof -
  have "rt_inv (entity_routes r)" "published (entity_routes r) uid = Some wi"
    using route_history_refines [OF rt_inv_new, of ops] assms(2,3) by (auto simp: route_new_maps prod_eq_iff)
  then have "Lookup uid (entity_routes r) = wi" by (simp add: lf.lookup_visible)
  then show ?thesis using assms(1,4-6) by (simp add: GetExecutor_def executor_of_def worker_executor_def Let_def)
qed

text \<open>
  Under the stateless policy a frozen router without selectors sends a message to the registered worker of its type at the place
  given by its id modulo their number, so all messages of an id go to one worker.
\<close>

theorem stateless_hash_route:
  assumes "router_policy r = Stateless" and "uid \<noteq> 0" and "route_key_selector r = None" and "worker_index_selector r = None"
    and "st = (case service_type_resolver (routes r) of Some f \<Rightarrow> f ty | None \<Rightarrow> SWT_Normal)" and "st \<noteq> SWT_Count"
    and "rt_workers (routes r) st = ws" and "ws \<noteq> []" and "\<forall>i \<in> set ws. GetWorker i m \<noteq> None"
  shows "target (GetExecutor m (FreezeRouter r) ty uid) = Some (ws ! (unat uid mod length ws))"
proof -
  have st: "ResolveServiceWorkerType ty (routes (FreezeRouter r)) = st"
    using assms(5) by (auto simp: ResolveServiceWorkerType_def FreezeRouter_def FreezeTable_def split: option.splits)
  have ref: "GetWorkerRef st (routes (FreezeRouter r)) = Some ws"
    using assms(6-8) by (simp add: GetWorkerRef_def FreezeRouter_def FreezeTable_def)
  have pick: "PickWorker (FreezeRouter r) ws ty uid = Some (ws ! (unat uid mod length ws))"
    using assms(3,4,8) by (simp add: PickWorker_def FreezeRouter_def pick_def Let_def)
  have "ws ! (unat uid mod length ws) \<in> set ws" using assms(8) by (intro nth_mem) simp
  then obtain w where "GetWorker (ws ! (unat uid mod length ws)) m = Some w" using assms(9) by blast
  then show ?thesis
    using assms(1,2,8) st ref pick by (simp add: GetExecutor_def executor_of_def worker_executor_def FreezeRouter_def)
qed

text \<open>
  A message that the router cannot place is documented to be dropped, but the executor returned for it has its inline
  fallback on, so the handler runs on the receiving thread, beside the workers.
\<close>

theorem unrouted_runs_inline:
  assumes "router_policy (nm_router n) = Stateful" and "user_unique_id mt \<noteq> 0"
    and "Lookup (user_unique_id mt) (entity_routes (nm_router n)) = kInvalidWorker"
    and "mode mt = Msg" and "FindListenFunction (mtype mt) n = Some f"
  shows "NetworkDispatch n mt x c m = (RunInline, m)"
  using assms by (simp add: NetworkDispatch_def GetExecutor_def Dispatch_def WorkerExecutor_def Let_def Option.bind_def)

text \<open>
  After \<^verbatim>\<open>Freeze\<close> the handlers found are those registered before it, whatever is registered or removed later; a second
  \<^verbatim>\<open>Freeze\<close>, however, finds the emptied maps and publishes only what was registered in between.
\<close>

datatype 'h handler_op = Listen u32 'h | Unlisten u32 | Register u64 'h | Unregister u64

fun apply_handler_op :: "'h handler_op \<Rightarrow> 'h network_manager \<Rightarrow> 'h network_manager" where
  "apply_handler_op (Listen ty f) n = ListenOption ty f n"
| "apply_handler_op (Unlisten ty) n = UnListen ty n"
| "apply_handler_op (Register key f) n = RegisterOption key f n"
| "apply_handler_op (Unregister key) n = UnRegister key n"

lemma handler_ops_keep_frozen:
  "frozen_listen_map (fold apply_handler_op ops n) = frozen_listen_map n \<and>
   frozen_rpc_interface_map (fold apply_handler_op ops n) = frozen_rpc_interface_map n"
proof (induction ops arbitrary: n)
  case (Cons op ops)
  then show ?case by (cases op) (simp_all add: ListenOption_def UnListen_def RegisterOption_def UnRegister_def)
qed simp

theorem freeze_fixes_handlers:
  assumes "frozen_listen_map n = None" and "frozen_rpc_interface_map n = None"
  shows "FindListenFunction ty (fold apply_handler_op ops (FreezeNetwork n)) = FindListenFunction ty n \<and>
    FindRpcFunction key (fold apply_handler_op ops (FreezeNetwork n)) = FindRpcFunction key n \<and>
    FindListenFunction ty (FreezeNetwork (FreezeNetwork n)) = None"
  using assms handler_ops_keep_frozen [of ops "FreezeNetwork n"]
  by (simp add: FindListenFunction_def FindRpcFunction_def FreezeNetwork_def)

section \<open>Witnesses\<close>

text \<open>A main worker, one worker, entity 7 bound to it; the receiving thread is no worker.\<close>

definition demo_router :: "policy \<Rightarrow> router" where
  "demo_router p = Router\<lparr>router_policy := p, routes := RegisterWorker SWT_Normal 1 RouteTable,
     entity_routes := foldl apply_route_op LockFreeRouteTable [RBindSingle 7 1, RFreeze]\<rparr>"

definition demo_network :: "nat network_manager" where
  "demo_network = ListenOption 3 11 (NetworkManager\<lparr>nm_router := demo_router Stateful\<rparr>)"

definition demo_caller :: caller where
  "demo_caller = \<lparr>producer = 2, current_worker = None, is_main_thread = False\<rparr>"

lemma demo_binding:
  "snd (foldl route_spec_op (Map.empty, Map.empty) [RBindSingle 7 1, RFreeze]) (7 :: u64) = Some 1"
  "snd (foldl route_spec_op (Map.empty, Map.empty) [RBindSingle 7 1, RFreeze]) (8 :: u64) = None"
  by (simp_all add: override_interval_def)

lemma demo_stateful: "target (GetExecutor (demo_manager :: (nat, nat) task worker_manager) (demo_router Stateful) ty 7) = Some 1"
proof -
  have "GetExecutor m (demo_router Stateful) ty 7 =
      (case GetWorker (unat (1 :: u32)) m of Some w \<Rightarrow> executor_of (unat (1 :: u32)) w | None \<Rightarrow> WorkerExecutor)"
    for m :: "(nat, nat) task worker_manager"
  proof -
    have "rt_inv (entity_routes (demo_router Stateful))" "published (entity_routes (demo_router Stateful)) 7 = Some 1"
      using route_history_refines [OF rt_inv_new, of "[RBindSingle 7 1, RFreeze]"] demo_binding(1)
      by (auto simp: demo_router_def route_new_maps prod_eq_iff simp del: route_spec_op.simps apply_route_op.simps foldl.simps)
    then show ?thesis by (simp add: lf.lookup_visible GetExecutor_def demo_router_def kInvalidWorker_def Let_def)
  qed
  moreover have "GetWorker (unat (1 :: u32)) (demo_manager :: (nat, nat) task worker_manager) \<noteq> None"
    by (simp add: demo_manager_worker(1) [unfolded One_nat_def])
  ultimately show ?thesis by (auto simp: executor_of_def worker_executor_def)
qed

theorem stateful_follows_binding_witness:
  "target (GetExecutor (demo_manager :: (nat, nat) task worker_manager) (demo_router Stateful) 3 7) = Some (unat (1 :: u32))"
  by (rule stateful_follows_binding [OF _ _ demo_binding(1)])
    (simp_all add: demo_router_def kInvalidWorker_def demo_manager_worker(1) [unfolded One_nat_def])

theorem stateless_hash_route_witness:
  "target (GetExecutor (demo_manager :: (nat, nat) task worker_manager) (FreezeRouter (demo_router Stateless)) 3 7) = Some ([1] ! (unat (7 :: u64) mod length [1 :: nat]))"
  by (rule stateless_hash_route [of _ _ SWT_Normal])
    (simp_all add: demo_router_def Router_def RouteTable_def RegisterWorker_def demo_manager_worker(1) [unfolded One_nat_def])

theorem entity_messages_in_order_witness:
  "\<exists>w'. GetWorker 1 (dispatch_all demo_network demo_caller
        [(Meta\<lparr>mtype := 3, user_unique_id := 7\<rparr>, 20), (Meta\<lparr>mtype := 3, user_unique_id := 7, sequence := 1\<rparr>, 21 :: nat)] demo_manager) = Some w' \<and>
     map (\<lambda>t. case t of HandlerTask f mt x \<Rightarrow> x | _ \<Rightarrow> 0) (events w' 2) = [20, 21]"
proof -
  let ?msgs = "[(Meta\<lparr>mtype := 3, user_unique_id := 7\<rparr>, 20), (Meta\<lparr>mtype := 3, user_unique_id := 7, sequence := 1\<rparr>, 21 :: nat)]"
  have "\<forall>(mt, x) \<in> set ?msgs. mode mt = Msg \<and> mtype mt = 3 \<and> user_unique_id mt = 7" by (simp add: Meta_def Msg_def)
  moreover have "FindListenFunction 3 demo_network = Some 11"
    by (simp add: FindListenFunction_def demo_network_def ListenOption_def NetworkManager_def)
  moreover have "nm_router demo_network = demo_router Stateful" by (simp add: demo_network_def ListenOption_def)
  ultimately show ?thesis
    using entity_messages_in_order [of ?msgs 3 7 demo_network 11 demo_manager 1 _ demo_caller] demo_stateful [of 3] demo_manager_worker(1)
    by (fastforce simp: demo_caller_def OnStart_def Init_def Worker_def)
qed

theorem unrouted_runs_inline_witness:
  "NetworkDispatch demo_network (Meta\<lparr>mtype := 3, user_unique_id := 8\<rparr>) (0 :: nat) demo_caller demo_manager = (RunInline, demo_manager)"
proof (rule unrouted_runs_inline)
  have r: "nm_router demo_network = demo_router Stateful" by (simp add: demo_network_def ListenOption_def)
  have "rt_inv (entity_routes (demo_router Stateful))" "published (entity_routes (demo_router Stateful)) 8 = None"
    using route_history_refines [OF rt_inv_new, of "[RBindSingle 7 1, RFreeze]"] demo_binding(2)
    by (auto simp: demo_router_def route_new_maps prod_eq_iff simp del: route_spec_op.simps apply_route_op.simps foldl.simps)
  then show "Lookup (user_unique_id (Meta\<lparr>mtype := 3, user_unique_id := 8\<rparr>)) (entity_routes (nm_router demo_network)) = kInvalidWorker"
    by (simp add: r lf.lookup_visible)
qed (simp_all add: demo_network_def demo_router_def ListenOption_def NetworkManager_def FindListenFunction_def Meta_def Msg_def)

theorem freeze_fixes_handlers_witness:
  "FindListenFunction 3 (fold apply_handler_op [Unlisten 3] (FreezeNetwork demo_network)) = Some 11"
  using freeze_fixes_handlers [of demo_network 3 "[Unlisten 3]" 0]
  by (simp add: demo_network_def ListenOption_def NetworkManager_def FindListenFunction_def)

end
