(* ===== verification/Rpc.thy ===== *)
theory Rpc
  imports Routing "HOL-Library.Multiset"
begin

text \<open>
  Remote calls: \<^verbatim>\<open>RpcCall\<close> (\<^verbatim>\<open>src/network/rpc/rpc_call.cpp\<close>), \<^verbatim>\<open>NetworkManager::CallImpl\<close> and the way of a response back
  (\<^verbatim>\<open>src/network/manager/network_manager.cpp\<close>). A call object is shared by the worker that made it, the IO thread that runs its
  timer and whoever cancels it; they race for its state, which leaves \<^verbatim>\<open>Pending\<close> by one compare-and-swap. Pointers to calls
  and sessions are numbers. A handler is one step here: besides that compare-and-swap it touches only data of its own thread
  or puts a task in a worker's queue.
\<close>

section \<open>Call objects\<close>

datatype RpcErrorCode = NoError | TimeoutError | CancelError | InvalidRequestError

datatype RpcState = Pending | Completed | Timeout | Cancelled | InvalidRequest

text \<open>
  \<open>timer_armed\<close>: an \<^verbatim>\<open>async_wait\<close> is outstanding; \<open>timer_queued\<close>: expired timers whose handler has not run, which
  \<^verbatim>\<open>cancel\<close> no longer reaches. \<open>results\<close> records the calls of \<^verbatim>\<open>result_callback_\<close>.
\<close>

record rpc_call =
  rpc_id :: u64
  worker_index_of :: u32
  local_seq :: u32
  timer_handle :: bool
  timer_armed :: bool
  timer_queued :: nat
  call_timeout :: int
  rpc_state :: RpcState
  call_session :: "nat option"
  results :: "RpcErrorCode list"

definition RpcCall :: rpc_call where
  "RpcCall = \<lparr>rpc_id = 0, worker_index_of = 0, local_seq = 0, timer_handle = False, timer_armed = False, timer_queued = 0,
     call_timeout = 5000, rpc_state = Pending, call_session = None, results = []\<rparr>"

fun ErrorCode :: "rpc_call \<Rightarrow> RpcErrorCode" where
  "ErrorCode c = (case rpc_state c of
     Timeout \<Rightarrow> TimeoutError | Cancelled \<Rightarrow> CancelError | InvalidRequest \<Rightarrow> InvalidRequestError | _ \<Rightarrow> NoError)"

definition IsError :: "rpc_call \<Rightarrow> bool" where
  "IsError c \<longleftrightarrow> ErrorCode c \<noteq> NoError"

text \<open>\<open>alive s\<close> is whether session \<open>s\<close> is connected and not closed.\<close>

definition HasSession :: "(nat \<Rightarrow> bool) \<Rightarrow> rpc_call \<Rightarrow> bool" where
  "HasSession alive c = (case call_session c of None \<Rightarrow> False | Some s \<Rightarrow> alive s)"

definition SetTimeout :: "(nat \<Rightarrow> bool) \<Rightarrow> int \<Rightarrow> rpc_call \<Rightarrow> rpc_call" where
  "SetTimeout alive t c =
     (let c1 = c\<lparr>call_timeout := t\<rparr>
      in if \<not> timer_handle c1 \<and> HasSession alive c1 then c1\<lparr>timer_handle := True\<rparr> else c1)"

definition SetSession :: "nat option \<Rightarrow> rpc_call \<Rightarrow> rpc_call" where
  "SetSession s c =
     (let c1 = c\<lparr>call_session := s\<rparr>
      in if \<not> timer_handle c1 \<and> s \<noteq> None then c1\<lparr>timer_handle := True\<rparr> else c1)"

text \<open>The compare-and-swap from \<^verbatim>\<open>Pending\<close>.\<close>

definition claim :: "RpcState \<Rightarrow> rpc_call \<Rightarrow> rpc_call option" where
  "claim st c = (if rpc_state c = Pending then Some (c\<lparr>rpc_state := st\<rparr>) else None)"

text \<open>Releasing the handle cancels its timer.\<close>

definition StopTimer :: "rpc_call \<Rightarrow> rpc_call" where
  "StopTimer c = (if timer_handle c then c\<lparr>timer_handle := False, timer_armed := False\<rparr> else c)"

definition call_back :: "RpcErrorCode \<Rightarrow> rpc_call \<Rightarrow> rpc_call" where
  "call_back e c = c\<lparr>results := results c @ [e]\<rparr>"

section \<open>The system\<close>

text \<open>
  \<open>requests\<close> records the metas given to \<^verbatim>\<open>Session::Send\<close>. The remaining fields count, per call: the times its state became
  pending, those of them that found it pending already, and the timeouts that the worker refused; and they hold the timeout
  tasks that were queued and that were run, with the worker and the producer.
\<close>

record ('h, 'x) rpc_sys =
  mgr :: "('h, 'x) task worker_manager"
  calls :: "nat \<Rightarrow> rpc_call"
  requests :: "(nat \<times> meta) list"
  opened :: "nat \<Rightarrow> nat"
  reopened :: "nat \<Rightarrow> nat"
  refused :: "nat \<Rightarrow> nat"
  timeouts_posted :: "(nat \<times> nat \<times> nat) multiset"
  timeouts_run :: "(nat \<times> nat \<times> nat) multiset"

definition upd_call :: "nat \<Rightarrow> (rpc_call \<Rightarrow> rpc_call) \<Rightarrow> ('h, 'x) rpc_sys \<Rightarrow> ('h, 'x) rpc_sys" where
  "upd_call c f s = s\<lparr>calls := (calls s)(c := f (calls s c))\<rparr>"

text \<open>\<^verbatim>\<open>if (_worker) _worker->TakePendingRpc(local_seq_)\<close>\<close>

definition drop_pending :: "nat \<Rightarrow> ('h, 'x) rpc_sys \<Rightarrow> ('h, 'x) rpc_sys" where
  "drop_pending c s = s\<lparr>mgr := upd_worker (unat (worker_index_of (calls s c))) (\<lambda>w. snd (TakePendingRpc (local_seq (calls s c)) w)) (mgr s)\<rparr>"

text \<open>What the winner of the compare-and-swap does: the pending entry, the timer, the callback.\<close>

definition conclude :: "RpcErrorCode \<Rightarrow> nat \<Rightarrow> ('h, 'x) rpc_sys \<Rightarrow> ('h, 'x) rpc_sys" where
  "conclude e c s = upd_call c (\<lambda>r. call_back e (StopTimer r)) (drop_pending c s)"

definition Cancel :: "nat \<Rightarrow> ('h, 'x) rpc_sys \<Rightarrow> ('h, 'x) rpc_sys" where
  "Cancel c s =
     (case claim Cancelled (calls s c) of
        None \<Rightarrow> s
      | Some r \<Rightarrow> conclude CancelError c (upd_call c (\<lambda>_. r) s))"

definition Done :: "nat \<Rightarrow> ('h, 'x) rpc_sys \<Rightarrow> ('h, 'x) rpc_sys" where
  "Done c s =
     (case claim Completed (calls s c) of
        None \<Rightarrow> s
      | Some r \<Rightarrow> upd_call c (\<lambda>_. call_back NoError (StopTimer r)) s)"

definition StartTimer :: "nat \<Rightarrow> ('h, 'x) rpc_sys \<Rightarrow> ('h, 'x) rpc_sys" where
  "StartTimer c s =
     (if call_session (calls s c) = None \<or> \<not> timer_handle (calls s c)
      then (case claim InvalidRequest (calls s c) of
              None \<Rightarrow> s
            | Some r \<Rightarrow> conclude InvalidRequestError c (upd_call c (\<lambda>_. r) s))
      else upd_call c (\<lambda>r. r\<lparr>timer_armed := True\<rparr>) s)"

definition Call :: "meta \<Rightarrow> nat \<Rightarrow> ('h, 'x) rpc_sys \<Rightarrow> ('h, 'x) rpc_sys" where
  "Call mt c s =
     (let s1 = upd_call c (\<lambda>r. r\<lparr>rpc_state := Pending\<rparr>) s\<lparr>opened := (opened s)(c := opened s c + 1),
                 reopened := (reopened s)(c := reopened s c + (if rpc_state (calls s c) = Pending then 1 else 0))\<rparr>;
          s2 = StartTimer c s1
      in case call_session (calls s2 c) of
           None \<Rightarrow> s2
         | Some ses \<Rightarrow> s2\<lparr>requests := requests s2 @ [(ses, mt)]\<rparr>)"

text \<open>\<^verbatim>\<open>CallImpl\<close> on the thread of worker \<open>cur\<close>; without a worker it only logs.\<close>

definition CallImpl :: "meta \<Rightarrow> nat \<Rightarrow> nat option \<Rightarrow> ('h, 'x) rpc_sys \<Rightarrow> ('h, 'x) rpc_sys" where
  "CallImpl mt c cur s =
     (case Option.bind cur (\<lambda>i. map_option (\<lambda>w. (i, w)) (GetWorker i (mgr s))) of
        None \<Rightarrow> s
      | Some (i, w) \<Rightarrow>
          (let (sq, w1) = AllocRpcSeq w;
               sid = SequenceId (index w) sq;
               s1 = s\<lparr>mgr := upd_worker i (\<lambda>_. StorePendingRpc sq c w1) (mgr s)\<rparr>;
               s2 = upd_call c (\<lambda>r. r\<lparr>rpc_id := sid, worker_index_of := index w, local_seq := sq\<rparr>) s1
           in Call (mt\<lparr>sequence := sid\<rparr>) c s2))"

text \<open>The timer of a call expires; then its handler runs on the IO thread, a producer for the workers.\<close>

definition expire :: "nat \<Rightarrow> ('h, 'x) rpc_sys \<Rightarrow> ('h, 'x) rpc_sys" where
  "expire c s = upd_call c (\<lambda>r. r\<lparr>timer_armed := False, timer_queued := timer_queued r + 1\<rparr>) s"

definition timeout_handler :: "nat \<Rightarrow> nat \<Rightarrow> ('h, 'x) rpc_sys \<Rightarrow> ('h, 'x) rpc_sys" where
  "timeout_handler p c s =
     (let s0 = upd_call c (\<lambda>r. r\<lparr>timer_queued := timer_queued r - 1\<rparr>) s
      in case claim Timeout (calls s0 c) of
           None \<Rightarrow> s0
         | Some r \<Rightarrow>
             (let s1 = upd_call c (\<lambda>_. r) s0; i = unat (worker_index_of r)
              in case GetWorker i (mgr s1) of
                   None \<Rightarrow> s1\<lparr>refused := (refused s1)(c := refused s1 c + 1)\<rparr>
                 | Some w \<Rightarrow>
                     (case EnqueueTask p (Some (TimeoutTask c)) False w of
                        (True, w') \<Rightarrow> s1\<lparr>mgr := upd_worker i (\<lambda>_. w') (mgr s1), timeouts_posted := add_mset (i, p, c) (timeouts_posted s1)\<rparr>
                      | (False, w') \<Rightarrow> s1\<lparr>refused := (refused s1)(c := refused s1 c + 1)\<rparr>)))"

text \<open>Worker \<open>i\<close> takes the next task of producer \<open>p\<close> and runs it; handlers and other tasks do nothing to calls by themselves.\<close>

fun run_task :: "nat \<Rightarrow> nat \<Rightarrow> ('h, 'x) task \<Rightarrow> ('h, 'x) rpc_sys \<Rightarrow> ('h, 'x) rpc_sys" where
  "run_task i p (ResponseTask sq mt x) s =
     (case GetWorker i (mgr s) of
        None \<Rightarrow> s
      | Some w \<Rightarrow>
          (case TakePendingRpc sq w of
             (None, w') \<Rightarrow> s
           | (Some c, w') \<Rightarrow> Done c (s\<lparr>mgr := upd_worker i (\<lambda>_. w') (mgr s)\<rparr>)))"
| "run_task i p (TimeoutTask c) s = conclude TimeoutError c (s\<lparr>timeouts_run := add_mset (i, p, c) (timeouts_run s)\<rparr>)"
| "run_task i p (HandlerTask f mt x) s = s"
| "run_task i p (OtherTask n) s = s"

definition work :: "nat \<Rightarrow> nat \<Rightarrow> ('h, 'x) rpc_sys \<Rightarrow> ('h, 'x) rpc_sys" where
  "work i p s =
     (case Option.bind (GetWorker i (mgr s)) (try_dequeue p) of
        None \<Rightarrow> s
      | Some (t, w) \<Rightarrow> run_task i p t (s\<lparr>mgr := upd_worker i (\<lambda>_. w) (mgr s)\<rparr>))"

definition deliver :: "'h network_manager \<Rightarrow> meta \<Rightarrow> 'x \<Rightarrow> caller \<Rightarrow> ('h, 'x) rpc_sys \<Rightarrow> ('h, 'x) rpc_sys" where
  "deliver n mt x c s = s\<lparr>mgr := snd (NetworkDispatch n mt x c (mgr s))\<rparr>"

section \<open>Runs\<close>

fun is_timeout :: "('h, 'x) task \<Rightarrow> bool" where
  "is_timeout (TimeoutTask c) = True" | "is_timeout _ = False"

definition rpc_init :: "('h, 'x) task worker_manager \<Rightarrow> ('h, 'x) rpc_sys" where
  "rpc_init m = \<lparr>mgr = m, calls = (\<lambda>_. RpcCall), requests = [], opened = (\<lambda>_. 1), reopened = (\<lambda>_. 0), refused = (\<lambda>_. 0),
     timeouts_posted = {#}, timeouts_run = {#}\<rparr>"

text \<open>Any order of the handlers; \<open>post\<close> stands for the other tasks that are posted, \<open>flags\<close> for a worker being stopped or shut down.\<close>

inductive rpc_step :: "('h, 'x) rpc_sys \<Rightarrow> ('h, 'x) rpc_sys \<Rightarrow> bool" where
  set_session: "rpc_step s (upd_call c (SetSession ses) s)"
| set_timeout: "rpc_step s (upd_call c (SetTimeout alive t) s)"
| call: "rpc_step s (CallImpl mt c cur s)"
| cancel: "rpc_step s (Cancel c s)"
| expired: "timer_armed (calls s c) \<Longrightarrow> rpc_step s (expire c s)"
| timed_out: "0 < timer_queued (calls s c) \<Longrightarrow> rpc_step s (timeout_handler p c s)"
| receive: "rpc_step s (deliver n mt x cl s)"
| work: "rpc_step s (work i p s)"
| post: "\<not> is_timeout t \<Longrightarrow> rpc_step s (s\<lparr>mgr := upd_worker i (Post p (Some t)) (mgr s)\<rparr>)"
| flags: "f = Stop \<or> f = EnterShutdownMode \<Longrightarrow> rpc_step s (s\<lparr>mgr := upd_worker i f (mgr s)\<rparr>)"

inductive rpc_reach :: "('h, 'x) rpc_sys \<Rightarrow> bool" where
  init: "\<forall>i w p. GetWorker i m = Some w \<longrightarrow> (\<forall>t \<in> set (events w p). \<not> is_timeout t) \<Longrightarrow> rpc_reach (rpc_init m)"
| step: "rpc_reach s \<Longrightarrow> rpc_step s s' \<Longrightarrow> rpc_reach s'"

section \<open>Every outcome is accounted for\<close>

definition of_call :: "nat \<Rightarrow> (nat \<times> nat \<times> nat) multiset \<Rightarrow> nat" where
  "of_call c M = size {#x \<in># M. snd (snd x) = c#}"

definition pending_one :: "rpc_call \<Rightarrow> nat" where
  "pending_one r = (if rpc_state r = Pending then 1 else 0)"

definition balance :: "nat \<Rightarrow> ('h, 'x) rpc_sys \<Rightarrow> int" where
  "balance c s = int (length (results (calls s c))) + int (of_call c (timeouts_posted s)) + int (refused s c) +
     int (pending_one (calls s c)) + int (reopened s c) - int (opened s c) - int (of_call c (timeouts_run s))"

definition in_queue :: "nat \<Rightarrow> nat \<Rightarrow> nat \<Rightarrow> ('h, 'x) task worker_manager \<Rightarrow> nat" where
  "in_queue i p c m = (case GetWorker i m of None \<Rightarrow> 0 | Some w \<Rightarrow> count_list (events w p) (TimeoutTask c))"

definition slack :: "nat \<Rightarrow> nat \<Rightarrow> nat \<Rightarrow> ('h, 'x) rpc_sys \<Rightarrow> int" where
  "slack i p c s = int (count (timeouts_posted s) (i, p, c)) - int (count (timeouts_run s) (i, p, c)) - int (in_queue i p c (mgr s))"

lemma of_call_simps [simp]:
  "of_call c {#} = 0" "of_call c (add_mset (i, p, d) M) = of_call c M + (if d = c then 1 else 0)"
  by (simp_all add: of_call_def)

lemma upd_call_simps [simp]:
  "mgr (upd_call c f s) = mgr s" "calls (upd_call c f s) = (calls s)(c := f (calls s c))" "requests (upd_call c f s) = requests s"
  "opened (upd_call c f s) = opened s" "reopened (upd_call c f s) = reopened s" "refused (upd_call c f s) = refused s"
  "timeouts_posted (upd_call c f s) = timeouts_posted s" "timeouts_run (upd_call c f s) = timeouts_run s"
  by (simp_all add: upd_call_def)

lemma drop_pending_simps [simp]:
  "calls (drop_pending c s) = calls s" "requests (drop_pending c s) = requests s"
  "opened (drop_pending c s) = opened s" "reopened (drop_pending c s) = reopened s" "refused (drop_pending c s) = refused s"
  "timeouts_posted (drop_pending c s) = timeouts_posted s" "timeouts_run (drop_pending c s) = timeouts_run s"
  by (simp_all add: drop_pending_def)

lemma conclude_simps [simp]:
  "mgr (conclude e c s) = mgr (drop_pending c s)" "calls (conclude e c s) = (calls s)(c := call_back e (StopTimer (calls s c)))"
  "requests (conclude e c s) = requests s" "opened (conclude e c s) = opened s" "reopened (conclude e c s) = reopened s"
  "refused (conclude e c s) = refused s" "timeouts_posted (conclude e c s) = timeouts_posted s"
  "timeouts_run (conclude e c s) = timeouts_run s"
  by (simp_all add: conclude_def)

lemma call_facts [simp]:
  "results (StopTimer r) = results r" "rpc_state (StopTimer r) = rpc_state r" "results (call_back e r) = results r @ [e]"
  "rpc_state (call_back e r) = rpc_state r" "call_session (StopTimer r) = call_session r" "call_session (call_back e r) = call_session r"
  by (simp_all add: StopTimer_def call_back_def)

lemma in_queue_upd [simp]:
  "(\<And>w. events (f w) = events w) \<Longrightarrow> in_queue i p c (upd_worker j f m) = in_queue i p c m"
  by (auto simp: in_queue_def GetWorker_upd_worker split: option.splits)

lemma take_pending_events [simp]: "events (snd (TakePendingRpc sq w)) = events w"
  by (simp add: TakePendingRpc_def split: option.splits)

lemma in_queue_drop_pending [simp]: "in_queue i p c (mgr (drop_pending d s)) = in_queue i p c (mgr s)"
  by (simp add: drop_pending_def)

lemma in_queue_post: "\<not> is_timeout t \<Longrightarrow> in_queue i p c (upd_worker j (Post q (Some t)) m) = in_queue i p c m"
  by (auto simp: in_queue_def GetWorker_upd_worker Post_def EnqueueTask_def enqueue_def count_list_append split: option.splits)

definition accounted :: "('h, 'x) rpc_sys \<Rightarrow> bool" where
  "accounted s \<longleftrightarrow> (\<forall>c. balance c s = 0) \<and> (\<forall>i p c. slack i p c s = 0)"

definition balanced :: "('h, 'x) rpc_sys \<Rightarrow> ('h, 'x) rpc_sys \<Rightarrow> bool" where
  "balanced s s' \<longleftrightarrow> (\<forall>c. balance c s' = balance c s) \<and> (\<forall>i p c. slack i p c s' = slack i p c s)"

lemma balanced_accounted: "balanced s s' \<Longrightarrow> accounted s \<Longrightarrow> accounted s'"
  by (simp add: balanced_def accounted_def)

lemma balanced_trans: "balanced s s1 \<Longrightarrow> balanced s1 s2 \<Longrightarrow> balanced s s2"
  by (simp add: balanced_def)

lemmas ledger_defs = balanced_def balance_def slack_def pending_one_def

lemma balanced_upd_call:
  "(\<And>r. results (f r) = results r \<and> rpc_state (f r) = rpc_state r) \<Longrightarrow> balanced s (upd_call c f s)"
  by (simp add: ledger_defs)

lemma balanced_mgr:
  "(\<And>i p c. in_queue i p c m = in_queue i p c (mgr s)) \<Longrightarrow> balanced s (s\<lparr>mgr := m\<rparr>)"
  by (simp add: ledger_defs)

lemma balanced_Cancel: "balanced s (Cancel c s)"
  by (simp add: ledger_defs Cancel_def claim_def)

lemma balanced_Done: "balanced s (Done c s)"
  by (simp add: ledger_defs Done_def claim_def)

lemma balanced_StartTimer: "balanced s (StartTimer c s)"
  by (simp add: ledger_defs StartTimer_def claim_def)

lemma balanced_Call: "balanced s (Call mt c s)"
proof -
  let ?s1 = "upd_call c (\<lambda>r. r\<lparr>rpc_state := Pending\<rparr>) s\<lparr>opened := (opened s)(c := opened s c + 1),
                 reopened := (reopened s)(c := reopened s c + (if rpc_state (calls s c) = Pending then 1 else 0))\<rparr>"
  have "balanced s ?s1" by (simp add: ledger_defs)
  moreover have "balanced ?s1 (StartTimer c ?s1)" by (rule balanced_StartTimer)
  moreover have "balanced (StartTimer c ?s1) (Call mt c s)" by (simp add: Call_def Let_def ledger_defs split: option.splits)
  ultimately show ?thesis using balanced_trans by blast
qed

lemma balanced_CallImpl: "balanced s (CallImpl mt c cur s)"
proof (cases "Option.bind cur (\<lambda>i. map_option (\<lambda>w. (i, w)) (GetWorker i (mgr s)))")
  case None
  then show ?thesis by (simp add: CallImpl_def balanced_def)
next
  case (Some iw)
  obtain i w where iw: "iw = (i, w)" by (cases iw)
  then have w: "GetWorker i (mgr s) = Some w" using Some by (auto simp: bind_eq_Some_conv)
  let ?s1 = "s\<lparr>mgr := upd_worker i (\<lambda>_. StorePendingRpc (rpc_seq_counter w) c (snd (AllocRpcSeq w))) (mgr s)\<rparr>"
  let ?f = "\<lambda>r. r\<lparr>rpc_id := SequenceId (index w) (rpc_seq_counter w), worker_index_of := index w, local_seq := rpc_seq_counter w\<rparr>"
  have "balanced s ?s1"
    by (rule balanced_mgr)
      (use w in \<open>auto simp: in_queue_def GetWorker_upd_worker StorePendingRpc_def AllocRpcSeq_def split: option.splits\<close>)
  moreover have "balanced ?s1 (upd_call c ?f ?s1)" by (rule balanced_upd_call) simp
  moreover have "balanced (upd_call c ?f ?s1) (CallImpl mt c cur s)"
    using Some iw balanced_Call by (simp add: CallImpl_def AllocRpcSeq_def Let_def)
  ultimately show ?thesis using balanced_trans by blast
qed

lemma balanced_timeout_handler: "balanced s (timeout_handler p c s)"
proof -
  let ?s0 = "upd_call c (\<lambda>r. r\<lparr>timer_queued := timer_queued r - 1\<rparr>) s"
  have 0: "balanced s ?s0" by (rule balanced_upd_call) simp
  show ?thesis
  proof (cases "rpc_state (calls s c) = Pending")
    case False
    then show ?thesis using 0 by (simp add: timeout_handler_def claim_def)
  next
    case True
    let ?i = "unat (worker_index_of (calls s c))"
    show ?thesis
    proof (cases "GetWorker ?i (mgr s)")
      case None
      then show ?thesis using True by (simp add: timeout_handler_def claim_def ledger_defs)
    next
      case (Some w)
      then show ?thesis using True
        by (simp add: timeout_handler_def claim_def ledger_defs EnqueueTask_def Let_def)
          (auto simp: in_queue_def GetWorker_upd_worker enqueue_def count_list_append split: option.splits)
    qed
  qed
qed

lemma try_dequeue_count:
  assumes "GetWorker i (mgr s) = Some w" and "try_dequeue p w = Some (t, w')"
  shows "in_queue i p c (mgr s) = in_queue i p c (upd_worker i (\<lambda>_. w') (mgr s)) + (if t = TimeoutTask c then 1 else 0)"
    and "j \<noteq> i \<or> q \<noteq> p \<Longrightarrow> in_queue j q c (upd_worker i (\<lambda>_. w') (mgr s)) = in_queue j q c (mgr s)"
  using assms by (auto simp: in_queue_def GetWorker_upd_worker try_dequeue_def split: list.splits option.splits)

lemma balanced_work: "balanced s (work i p s)"
proof (cases "Option.bind (GetWorker i (mgr s)) (try_dequeue p)")
  case None
  then show ?thesis by (simp add: work_def balanced_def)
next
  case (Some tw)
  obtain t w' where tw: "tw = (t, w')" by (cases tw)
  obtain w where w: "GetWorker i (mgr s) = Some w" "try_dequeue p w = Some (t, w')"
    using Some tw by (auto simp: bind_eq_Some_conv)
  let ?s1 = "s\<lparr>mgr := upd_worker i (\<lambda>_. w') (mgr s)\<rparr>"
  note count = try_dequeue_count [OF w]
  have work: "work i p s = run_task i p t ?s1" using Some tw by (simp add: work_def)
  have plain: "balanced s ?s1" if "\<not> is_timeout t"
  proof (rule balanced_mgr)
    fix j q c
    show "in_queue j q c (upd_worker i (\<lambda>_. w') (mgr s)) = in_queue j q c (mgr s)"
      using count(1) [of c] count(2) [of j q c] that by (cases "j = i \<and> q = p") auto
  qed
  show ?thesis
  proof (cases t)
    case (ResponseTask sq mt x)
    then have "balanced s ?s1" using plain by simp
    moreover have "balanced ?s1 (run_task i p t ?s1)"
    proof (cases "GetWorker i (mgr ?s1)")
      case (Some v)
      obtain r v' where v: "TakePendingRpc sq v = (r, v')" by fastforce
      have "balanced ?s1 (?s1\<lparr>mgr := upd_worker i (\<lambda>_. v') (mgr ?s1)\<rparr>)"
        by (rule balanced_mgr)
          (use Some v in \<open>auto simp: in_queue_def GetWorker_upd_worker TakePendingRpc_def split: option.splits\<close>)
      then show ?thesis
        using ResponseTask Some v balanced_trans [OF _ balanced_Done] by (auto simp: balanced_def split: option.splits)
    qed (simp add: ResponseTask balanced_def)
    ultimately show ?thesis using work balanced_trans by metis
  next
    case (TimeoutTask c)
    have "slack j q d (run_task i p t ?s1) = slack j q d s" for j q d
      using count(1) [of d] count(2) [of j q d] TimeoutTask by (cases "j = i \<and> q = p") (auto simp: slack_def)
    moreover have "balance d (run_task i p t ?s1) = balance d s" for d
      using TimeoutTask by (simp add: balance_def pending_one_def)
    ultimately show ?thesis using work by (simp add: balanced_def)
  qed (use work plain in auto)
qed

lemma network_dispatch_posts:
  obtains "snd (NetworkDispatch n mt x cl m) = m"
  | i p t where "snd (NetworkDispatch n mt x cl m) = upd_worker i (Post p (Some t)) m" "\<not> is_timeout t"
proof -
  have d: "snd (snd (Dispatch ex (Some (HandlerTask f mt x)) cl m)) = m \<or>
      (\<exists>i p. snd (snd (Dispatch ex (Some (HandlerTask f mt x)) cl m)) = upd_worker i (Post p (Some (HandlerTask f mt x))) m)" for ex f
    by (auto simp: Dispatch_def Let_def PostToMain_def)
  have e: "snd (to_executor h mt x ex cl m) = m \<or>
      (\<exists>i p t. snd (to_executor h mt x ex cl m) = upd_worker i (Post p (Some t)) m \<and> \<not> is_timeout t)" for h ex
    using d by (cases h) (auto, metis is_timeout.simps(2))
  have "snd (NetworkDispatch n mt x cl m) = m \<or>
      (\<exists>i p t. snd (NetworkDispatch n mt x cl m) = upd_worker i (Post p (Some t)) m \<and> \<not> is_timeout t)"
    unfolding NetworkDispatch_def Let_def
    using e by (auto split: option.splits) (metis is_timeout.simps(3))+
  then show ?thesis using that by blast
qed

lemma balanced_deliver: "balanced s (deliver n mt x cl s)"
  unfolding deliver_def
  by (rule balanced_mgr, rule network_dispatch_posts [of n mt x cl "mgr s"]) (simp_all add: in_queue_post)

lemma rpc_step_balanced: "rpc_step s s' \<Longrightarrow> balanced s s'"
proof (induction rule: rpc_step.induct)
  case (set_session s c ses)
  show ?case by (rule balanced_upd_call) (simp add: SetSession_def Let_def)
next
  case (set_timeout s c alive t)
  show ?case by (rule balanced_upd_call) (simp add: SetTimeout_def Let_def)
next
  case (expired s c)
  show ?case unfolding expire_def by (rule balanced_upd_call) simp
next
  case (post t s i p)
  show ?case by (rule balanced_mgr) (simp add: in_queue_post post)
next
  case (flags f s i)
  then show ?case by (intro balanced_mgr in_queue_upd) (auto simp: Stop_def EnterShutdownMode_def)
qed (simp_all add: balanced_CallImpl balanced_Cancel balanced_timeout_handler balanced_deliver balanced_work)

lemma rpc_reach_accounted: "rpc_reach s \<Longrightarrow> accounted s"
proof (induction rule: rpc_reach.induct)
  case (init m)
  have "in_queue i p c m = 0" for i p c
    using init by (force simp: in_queue_def count_list_0_iff split: option.splits)
  then show ?case by (simp add: accounted_def balance_def slack_def rpc_init_def RpcCall_def pending_one_def)
next
  case (step s s')
  then show ?case using rpc_step_balanced balanced_accounted by blast
qed

lemma timeouts_run_posted: "accounted s \<Longrightarrow> timeouts_run s \<subseteq># timeouts_posted s"
proof (rule mset_subset_eqI)
  fix x :: "nat \<times> nat \<times> nat" assume "accounted s"
  moreover obtain i p c where "x = (i, p, c)" by (cases x)
  ultimately have "slack i p c s = 0" "x = (i, p, c)" by (simp_all add: accounted_def)
  then show "count (timeouts_run s) x \<le> count (timeouts_posted s) x" by (simp add: slack_def)
qed

lemma of_call_mono: "M \<subseteq># N \<Longrightarrow> of_call c M \<le> of_call c N"
  unfolding of_call_def by (intro size_mset_mono multiset_filter_mono)

section \<open>Properties\<close>

text \<open>
  C8. However calls, cancellations, responses and timers interleave, each time a call becomes pending it gets at most one result:
  the callback runs at most as often as the call was opened, and once less while it is pending. Every opening is accounted
  for: the call is pending, its callback has run, its timeout is queued at a worker, a worker refused the timeout, or the call was
  started again while pending.
\<close>

theorem rpc_at_most_one_result:
  assumes "rpc_reach s"
  shows "length (results (calls s c)) + pending_one (calls s c) \<le> opened s c \<and>
    opened s c = length (results (calls s c)) + pending_one (calls s c) + refused s c + reopened s c +
      (of_call c (timeouts_posted s) - of_call c (timeouts_run s))"
proof -
  have acc: "accounted s" by (rule rpc_reach_accounted [OF assms])
  then have "of_call c (timeouts_run s) \<le> of_call c (timeouts_posted s)" using timeouts_run_posted of_call_mono by blast
  moreover have "balance c s = 0" using acc by (simp add: accounted_def)
  ultimately show ?thesis by (simp add: balance_def)
qed

text \<open>The call waits at worker \<open>i\<close> under the sequence number \<open>sq\<close>: the response that carries it finds it there.\<close>

definition call_waits :: "nat \<Rightarrow> nat \<Rightarrow> u32 \<Rightarrow> ('h, 'x) rpc_sys \<Rightarrow> bool" where
  "call_waits i c sq s \<longleftrightarrow> (\<exists>w. GetWorker i (mgr s) = Some w \<and> pending_rpcs w sq = Some c) \<and> rpc_state (calls s c) = Pending"

definition queue_of :: "nat \<Rightarrow> nat \<Rightarrow> ('h, 'x) rpc_sys \<Rightarrow> ('h, 'x) task list" where
  "queue_of i p s = (case GetWorker i (mgr s) of None \<Rightarrow> [] | Some w \<Rightarrow> events w p)"

lemma queue_of_upd: "(\<And>w. events (f w) = events w) \<Longrightarrow> queue_of i p (s\<lparr>mgr := upd_worker j f (mgr s)\<rparr>) = queue_of i p s"
  by (simp add: queue_of_def GetWorker_upd_worker split: option.splits)

lemma queue_of_cong: "mgr s = mgr t \<Longrightarrow> queue_of i p s = queue_of i p t"
  by (simp add: queue_of_def)

lemma queue_of_drop_pending: "queue_of i p (drop_pending c s) = queue_of i p s"
  by (simp add: drop_pending_def queue_of_upd)

lemma queue_of_run_task: "queue_of i p (run_task j q t s) = queue_of i p s"
proof (cases t)
  case (ResponseTask sq mt x)
  show ?thesis
  proof (cases "GetWorker j (mgr s)")
    case (Some w)
    obtain r w' where w': "TakePendingRpc sq w = (r, w')" by fastforce
    then have "events w' = events w" using take_pending_events [of sq w] by simp
    then have "queue_of i p (s\<lparr>mgr := upd_worker j (\<lambda>_. w') (mgr s)\<rparr>) = queue_of i p s"
      using Some by (simp add: queue_of_def GetWorker_upd_worker)
    moreover have "queue_of i p (Done c u) = queue_of i p u" for c and u :: "('a, 'b) rpc_sys"
      by (rule queue_of_cong) (simp add: Done_def split: option.splits)
    ultimately show ?thesis using ResponseTask Some w' by (simp split: option.splits)
  qed (simp add: ResponseTask)
next
  case (TimeoutTask c)
  then show ?thesis
    using queue_of_cong [of "conclude TimeoutError c (s\<lparr>timeouts_run := add_mset (j, q, c) (timeouts_run s)\<rparr>)"
        "drop_pending c (s\<lparr>timeouts_run := add_mset (j, q, c) (timeouts_run s)\<rparr>)" i p]
      queue_of_cong [of "s\<lparr>timeouts_run := add_mset (j, q, c) (timeouts_run s)\<rparr>" s i p]
    by (simp add: queue_of_drop_pending)
qed simp_all

text \<open>Each round of the worker takes the first task off the queue.\<close>

lemma queue_of_work: "queue_of i p (work i p s) = tl (queue_of i p s)"
proof (cases "GetWorker i (mgr s)")
  case (Some w)
  show ?thesis
  proof (cases "events w p")
    case (Cons t ts)
    let ?s = "s\<lparr>mgr := upd_worker i (\<lambda>_. w\<lparr>events := (events w)(p := ts)\<rparr>) (mgr s)\<rparr>"
    have "work i p s = run_task i p t ?s" using Some Cons by (simp add: work_def try_dequeue_def)
    moreover have "queue_of i p ?s = ts" using Some by (simp add: queue_of_def GetWorker_upd_worker)
    ultimately show ?thesis using Some Cons by (simp add: queue_of_run_task) (simp add: queue_of_def)
  qed (use Some in \<open>simp add: work_def try_dequeue_def queue_of_def\<close>)
qed (simp add: work_def queue_of_def)

lemma queue_of_works: "queue_of i p ((work i p ^^ n) s) = drop n (queue_of i p s)"
  by (induction n) (simp_all add: queue_of_work drop_Suc [symmetric] tl_drop)

text \<open>The worker that takes the response of a call that waits completes it.\<close>

lemma work_completes:
  assumes "call_waits i c sq s" and "queue_of i p s = [ResponseTask sq mt x]"
  shows "results (calls (work i p s) c) = results (calls s c) @ [NoError] \<and> rpc_state (calls (work i p s) c) = Completed \<and>
    (\<forall>d \<in> - {c}. calls (work i p s) d = calls s d)"
proof -
  obtain w where w: "GetWorker i (mgr s) = Some w" "pending_rpcs w sq = Some c" "rpc_state (calls s c) = Pending"
    using assms(1) by (auto simp: call_waits_def)
  then have "events w p = [ResponseTask sq mt x]" using assms(2) by (simp add: queue_of_def)
  then show ?thesis using w
    by (simp add: work_def try_dequeue_def GetWorker_upd_worker TakePendingRpc_def Done_def claim_def)
qed


text \<open>
  A timeout is lost when the worker that made the call is stopped or shutting down: the call's state becomes \<^verbatim>\<open>Timeout\<close>, the
  posted task is refused, and no later response or cancellation runs the callback.
\<close>

theorem rpc_timeout_dropped:
  assumes "rpc_state (calls s c) = Pending" and "GetWorker (unat (worker_index_of (calls s c))) (mgr s) = Some w"
    and "shutting_down w \<or> \<not> running w"
  shows "let s1 = timeout_handler p c s
    in rpc_state (calls s1 c) = Timeout \<and> results (calls s1 c) = results (calls s c) \<and> mgr s1 = mgr s \<and>
       Cancel c s1 = s1 \<and> Done c s1 = s1"
  using assms by (auto simp: timeout_handler_def claim_def EnqueueTask_def Let_def Cancel_def Done_def)

text \<open>
  Without a timer, as when a finished call object is used again, \<^verbatim>\<open>Call\<close> reports an invalid request and then sends it all the
  same; the response finds no pending call.
\<close>

theorem invalid_request_still_sent:
  assumes "GetWorker i (mgr s) = Some w" and "index w = word_of_nat i" and "i < 2 ^ 32"
    and "call_session (calls s c) = Some ses" and "\<not> timer_handle (calls s c)"
  shows "let s1 = CallImpl mt c (Some i) s
    in results (calls s1 c) = results (calls s c) @ [InvalidRequestError] \<and>
       requests s1 = requests s @ [(ses, mt\<lparr>sequence := SequenceId (index w) (rpc_seq_counter w)\<rparr>)] \<and>
       map_option (\<lambda>w. pending_rpcs w (rpc_seq_counter w - 1)) (GetWorker i (mgr s1)) = Some None"
proof -
  have "unat (word_of_nat i :: 32 word) = i" using assms(3) by (simp add: unat_of_nat)
  then show ?thesis
    using assms
    by (simp add: CallImpl_def AllocRpcSeq_def Call_def StartTimer_def claim_def Let_def drop_pending_def GetWorker_upd_worker
        TakePendingRpc_def StorePendingRpc_def)
qed

section \<open>Witnesses\<close>

definition demo_rpc :: "(nat, nat) rpc_sys" where
  "demo_rpc = upd_call 0 (SetSession (Some 5)) (rpc_init demo_manager)"

lemma demo_rpc_reach: "rpc_reach demo_rpc"
proof -
  have "\<not> is_timeout t" if g: "GetWorker i demo_manager = Some w" and t: "t \<in> set (events w p)"
    for i p t and w :: "(nat, nat) task worker"
  proof -
    have "events w p = []" using g
      by (auto simp: demo_manager_def thread_begin_def CreateWorker_def InitMainWorker_def WorkerManager_def GetWorker_def
          OnStart_def Init_def Worker_def split: if_splits)
    then show ?thesis using t by simp
  qed
  then have "rpc_reach (rpc_init demo_manager :: (nat, nat) rpc_sys)" by (intro rpc_reach.init) blast
  then show ?thesis unfolding demo_rpc_def by (rule rpc_reach.step) (rule rpc_step.set_session)
qed

theorem rpc_at_most_one_result_witness:
  "length (results (calls (Cancel 0 demo_rpc) 0)) = 1 \<and> opened (Cancel 0 demo_rpc) 0 = 1 \<and>
   length (results (calls (Cancel 0 demo_rpc) 0)) + pending_one (calls (Cancel 0 demo_rpc) 0) \<le> opened (Cancel 0 demo_rpc) 0"
proof -
  have "rpc_reach (Cancel 0 demo_rpc)" by (rule rpc_reach.step [OF demo_rpc_reach]) (rule rpc_step.cancel)
  from rpc_at_most_one_result [OF this, of 0] show ?thesis
    by (simp add: Cancel_def claim_def demo_rpc_def rpc_init_def SetSession_def RpcCall_def Let_def)
qed

lemma demo_rpc_worker:
  "GetWorker (Suc 0) (mgr demo_rpc) = Some (OnStart (Init 5 1 ((Worker NORMAL)\<lparr>service_type := SWT_AI\<rparr>)))"
  by (simp add: demo_rpc_def rpc_init_def demo_manager_worker(1) [unfolded One_nat_def])

lemma demo_rpc_call: "calls demo_rpc 0 = RpcCall\<lparr>call_session := Some 5, timer_handle := True\<rparr>"
  by (simp add: demo_rpc_def rpc_init_def SetSession_def RpcCall_def Let_def)


definition stopping_rpc :: "(nat, nat) rpc_sys" where
  "stopping_rpc = (let s = CallImpl Meta 0 (Some 1) demo_rpc in expire 0 (s\<lparr>mgr := upd_worker 1 EnterShutdownMode (mgr s)\<rparr>))"

theorem rpc_timeout_dropped_witness:
  "rpc_state (calls (timeout_handler 2 0 stopping_rpc) 0) = Timeout \<and> results (calls (timeout_handler 2 0 stopping_rpc) 0) = []"
proof -
  have c: "rpc_state (calls stopping_rpc 0) = Pending" "worker_index_of (calls stopping_rpc 0) = 1" "results (calls stopping_rpc 0) = []"
    by (simp_all add: stopping_rpc_def expire_def CallImpl_def demo_rpc_worker demo_rpc_call AllocRpcSeq_def Call_def StartTimer_def
        Let_def OnStart_def Init_def RpcCall_def)
  have "\<exists>w. GetWorker 1 (mgr stopping_rpc) = Some w \<and> shutting_down w"
    by (simp add: stopping_rpc_def expire_def CallImpl_def demo_rpc_worker demo_rpc_call AllocRpcSeq_def Call_def StartTimer_def
        Let_def GetWorker_upd_worker EnterShutdownMode_def)
  then show ?thesis using rpc_timeout_dropped [of stopping_rpc 0 _ 2] c by (auto simp: Let_def)
qed

theorem invalid_request_still_sent_witness:
  "results (calls (CallImpl Meta 0 (Some 1) (upd_call 0 StopTimer demo_rpc)) 0) = [InvalidRequestError] \<and>
   length (requests (CallImpl Meta 0 (Some 1) (upd_call 0 StopTimer demo_rpc))) = 1"
  using invalid_request_still_sent [of 1 "upd_call 0 StopTimer demo_rpc" "OnStart (Init 5 1 ((Worker NORMAL)\<lparr>service_type := SWT_AI\<rparr>))" 0 5 Meta]
    demo_rpc_worker demo_rpc_call
  by (simp add: StopTimer_def OnStart_def Init_def Let_def RpcCall_def) (simp add: demo_rpc_def rpc_init_def)

section \<open>Timer pool\<close>

text \<open>\<^verbatim>\<open>RpcTimerPool\<close> (\<^verbatim>\<open>src/network/rpc/rpc_timer_pool.cpp\<close>): the pool of one thread; the counters are \<^verbatim>\<open>size_t\<close>.\<close>

record timer_pool =
  available :: "(nat \<times> u64) list"    \<comment> \<open>IO service and id of each handle; the last is taken first\<close>
  pool_size :: u64
  in_use :: u64
  next_id :: u64

definition RpcTimerPool :: timer_pool where
  "RpcTimerPool = \<lparr>available = [], pool_size = 0, in_use = 0, next_id = 0\<rparr>"

definition Acquire :: "nat \<Rightarrow> timer_pool \<Rightarrow> (nat \<times> u64) \<times> timer_pool" where
  "Acquire ios pl =
     (let handle = (ios, next_id pl);
          p1 = (if available pl = [] then pl\<lparr>pool_size := pool_size pl + 1\<rparr> else pl\<lparr>available := butlast (available pl)\<rparr>)
      in (handle, p1\<lparr>next_id := next_id pl + 1, in_use := in_use pl + 1\<rparr>))"

definition Release :: "(nat \<times> u64) option \<Rightarrow> timer_pool \<Rightarrow> timer_pool" where
  "Release handle pl =
     (case handle of None \<Rightarrow> pl | Some h \<Rightarrow> pl\<lparr>available := available pl @ [h], in_use := in_use pl - 1\<rparr>)"

definition PreWarm :: "nat \<Rightarrow> nat \<Rightarrow> timer_pool \<Rightarrow> timer_pool" where
  "PreWarm ios n pl =
     pl\<lparr>available := available pl @ map (\<lambda>i. (ios, next_id pl + of_nat i)) [0..<n], next_id := next_id pl + of_nat n,
       pool_size := pool_size pl + of_nat n\<rparr>"

lemma pool_counts:
  assumes "pool_size pl = of_nat (length (available pl)) + in_use pl"
  shows "pool_size (snd (Acquire ios pl)) = of_nat (length (available (snd (Acquire ios pl)))) + in_use (snd (Acquire ios pl))"
    and "pool_size (Release h pl) = of_nat (length (available (Release h pl))) + in_use (Release h pl)"
    and "pool_size (PreWarm ios n pl) = of_nat (length (available (PreWarm ios n pl))) + in_use (PreWarm ios n pl)"
  using assms by (auto simp: Acquire_def Release_def PreWarm_def Let_def of_nat_diff length_greater_0_conv [symmetric] Suc_leI
      simp del: length_greater_0_conv split: option.splits)

text \<open>A handle acquired on one thread and released on another makes the second pool count a use less than none.\<close>

lemma cross_thread_release: "in_use (Release (Some (fst (Acquire ios pl))) RpcTimerPool) = - 1"
  by (simp add: Release_def RpcTimerPool_def)

end
