(* ===== verification/Server_Sessions.thy ===== *)
theory Server_Sessions
  imports Message_Stream
begin

text \<open>
  \<^verbatim>\<open>ServerImpl\<close> (\<^verbatim>\<open>src/network/io/server.cpp\<close>): the set of accepted sessions, the connection limit, keep-alive and the
  quotas that the maintenance timer recharges. A \<^verbatim>\<open>SessionPtr\<close> is a number, the address that orders \<^verbatim>\<open>std::set\<close>; the session
  objects are those of the connection state machine, and all of them use the server's one flow controller. Binding, resolving
  and listening are given by their results.
\<close>

section \<open>State\<close>

record server_options =
  max_connection_count :: int
  keep_alive_time :: int
  opt_pending_buffer_size :: int
  max_throughput_in :: int
  max_throughput_out :: int
  io_service_pool_size :: nat
  opt_write_factor :: nat
  opt_read_factor :: nat
  opt_no_delay :: bool
  opt_kcp :: bool                \<comment> \<open>\<^verbatim>\<open>transport_type == TRANSPORT_TYPE::KCP\<close>\<close>

definition ServerOptions :: server_options where
  "ServerOptions = \<lparr>max_connection_count = -1, keep_alive_time = -1, opt_pending_buffer_size = 100, max_throughput_in = -1,
     max_throughput_out = -1, io_service_pool_size = 4, opt_write_factor = 4, opt_read_factor = 9, opt_no_delay = True, opt_kcp = False\<rparr>"

datatype user_call = UserConnected nat | UserClosed nat | UserReceived nat

record server =
  options :: server_options
  is_running :: bool
  slice_count :: int
  slice_quota_in :: int
  slice_quota_out :: int
  srv_max_pending_buffer_size :: int
  keep_alive_ticks :: int
  last_maintain_ticks :: int
  last_restart_listen_ticks :: int
  restart_listen_interval_ticks :: int
  controller :: "flow_controller option"
  listener_closed :: bool       \<comment> \<open>what \<^verbatim>\<open>is_close()\<close> of the listener returns\<close>
  accepting :: bool             \<comment> \<open>whether its acceptor listens\<close>
  session_set :: "nat list"
  sessions :: "nat \<Rightarrow> session"
  user_calls :: "user_call list"

definition MAINTAIN_INTERVAL_IN_MS :: int where "MAINTAIN_INTERVAL_IN_MS = 100"

definition quota_of :: "int \<Rightarrow> int \<Rightarrow> int" where
  "quota_of throughput slices = (if throughput = -1 then -1 else max 0 (throughput * 1024 * 1024) div slices)"

definition keep_alive_of :: "int \<Rightarrow> int" where
  "keep_alive_of t = (if t = -1 then -1 else max 1 t)"

definition ServerImpl :: "server_options \<Rightarrow> (nat \<Rightarrow> session) \<Rightarrow> server" where
  "ServerImpl opts ss =
     (let slices = max 1 (1000 div MAINTAIN_INTERVAL_IN_MS)
      in \<lparr>options = opts, is_running = False, slice_count = slices, slice_quota_in = quota_of (max_throughput_in opts) slices,
          slice_quota_out = quota_of (max_throughput_out opts) slices,
          srv_max_pending_buffer_size = max 0 (opt_pending_buffer_size opts * 1024 * 1024),
          keep_alive_ticks = keep_alive_of (keep_alive_time opts), last_maintain_ticks = 0, last_restart_listen_ticks = 0,
          restart_listen_interval_ticks = 3, controller = None, listener_closed = True, accepting = False, session_set = [], sessions = ss,
          user_calls = []\<rparr>)"

definition upd_session :: "nat \<Rightarrow> (session \<Rightarrow> session) \<Rightarrow> server \<Rightarrow> server" where
  "upd_session i f v = v\<lparr>sessions := (sessions v)(i := f (sessions v i))\<rparr>"

text \<open>\<^verbatim>\<open>std::set\<close>\<close>

definition set_insert :: "nat \<Rightarrow> server \<Rightarrow> server" where
  "set_insert i v = v\<lparr>session_set := insort_insert i (session_set v)\<rparr>"

definition set_erase :: "nat \<Rightarrow> server \<Rightarrow> server" where
  "set_erase i v = v\<lparr>session_set := remove1 i (session_set v)\<rparr>"

section \<open>Sessions coming and going\<close>

definition ConnectionCount :: "server \<Rightarrow> int" where
  "ConnectionCount v = int (length (session_set v))"

definition GetPendingStat :: "server \<Rightarrow> int \<times> int \<times> int" where
  "GetPendingStat v =
     fold (\<lambda>i (mc, bs, ds). (mc + pending_message_count (sessions v i), bs + pending_buffer_size (sessions v i),
        ds + pending_data_size (sessions v i))) (session_set v) (0, 0, 0)"

definition OnCreated :: "nat \<Rightarrow> server \<Rightarrow> server" where
  "OnCreated i v = upd_session i (\<lambda>s. case controller v of Some fc \<Rightarrow> s\<lparr>flow_ctl := fc\<rparr> | None \<Rightarrow> s) v"

definition OnClosed :: "nat \<Rightarrow> server \<Rightarrow> server" where
  "OnClosed i v = (if \<not> is_running v then v else set_erase i (v\<lparr>user_calls := user_calls v @ [UserClosed i]\<rparr>))"

definition OnReceived :: "nat \<Rightarrow> server \<Rightarrow> server" where
  "OnReceived i v = (if \<not> is_running v then v else v\<lparr>user_calls := user_calls v @ [UserReceived i]\<rparr>)"

text \<open>\<^verbatim>\<open>session->close\<close>: the first close of a session calls the server's \<^verbatim>\<open>OnClosed\<close>.\<close>

definition close_session :: "string \<Rightarrow> nat \<Rightarrow> server \<Rightarrow> server" where
  "close_session reason i v =
     (let v1 = upd_session i (close_stream (\<lambda>_ t. t) reason) v in if is_closed (sessions v i) then v1 else OnClosed i v1)"

text \<open>\<^verbatim>\<open>OnAccepted\<close> up to its test of the limit, whose result decides between the two halves.\<close>

definition accept_setup :: "nat \<Rightarrow> server \<Rightarrow> server" where
  "accept_setup i v =
     upd_session i (\<lambda>s. s\<lparr>read_buffer_base_block_factor := min (opt_read_factor (options v)) TRAN_BUF_BLOCK_MAX_FACTOR,
       write_buffer_base_block_factor := min (opt_write_factor (options v)) TRAN_BUF_BLOCK_MAX_FACTOR,
       no_delay := opt_no_delay (options v)\<rparr>) v"

definition limit_reached :: "server \<Rightarrow> bool" where
  "limit_reached v \<longleftrightarrow> max_connection_count (options v) \<noteq> -1 \<and> ConnectionCount v \<ge> max_connection_count (options v)"

definition accept_session :: "int \<Rightarrow> nat \<Rightarrow> server \<Rightarrow> server" where
  "accept_session now_ticks i v =
     (let v1 = upd_session i (\<lambda>s. reset_ticks now_ticks True (s\<lparr>max_pending_buffer_size := srv_max_pending_buffer_size v\<rparr>)) v;
          v2 = set_insert i v1
      in v2\<lparr>user_calls := user_calls v2 @ [UserConnected i]\<rparr>)"

definition OnAccepted :: "int \<Rightarrow> nat \<Rightarrow> server \<Rightarrow> server" where
  "OnAccepted now_ticks i v =
     (if \<not> is_running v then close_session ''server not runing'' i v
      else let v1 = accept_setup i v
           in if limit_reached v1 then close_session ''exceed max connection count'' i v1
              else accept_session now_ticks i v1)"

definition StopSession :: "server \<Rightarrow> server" where
  "StopSession v = fold (\<lambda>i v. let v1 = upd_session i (ShutDown (\<lambda>_ t. t)) v
     in if is_closed (sessions v i) then v1 else OnClosed i v1) (session_set v) v"

definition ClearSession :: "server \<Rightarrow> server" where
  "ClearSession v = v\<lparr>session_set := []\<rparr>"

section \<open>Start, stop and options\<close>

definition Start :: "bool \<Rightarrow> bool \<Rightarrow> server \<Rightarrow> bool \<times> server" where
  "Start resolved listening v =
     (if is_running v then (False, v)
      else let v1 = v\<lparr>controller := Some (FlowController (slice_quota_in v = -1) (slice_quota_in v) (slice_quota_out v = -1) (slice_quota_out v))\<rparr>
           in if \<not> resolved then (False, v1\<lparr>controller := None\<rparr>)
              else if \<not> listening then (False, v1\<lparr>controller := None\<rparr>)
              else (True, v1\<lparr>listener_closed := False, accepting := True, is_running := True\<rparr>))"

definition StopServer :: "server \<Rightarrow> server" where
  "StopServer v =
     (if \<not> is_running v then v
      else (ClearSession (StopSession (v\<lparr>is_running := False, listener_closed := True, accepting := False\<rparr>)))\<lparr>controller := None\<rparr>)"

text \<open>\<open>None\<close> is the use of the null flow controller of a server that has not been started.\<close>

definition ResetOptions :: "server_options \<Rightarrow> server \<Rightarrow> server option" where
  "ResetOptions opts v =
     (let v1 = v\<lparr>options := (options v)\<lparr>max_throughput_in := max_throughput_in opts, max_throughput_out := max_throughput_out opts,
                  opt_pending_buffer_size := opt_pending_buffer_size opts, keep_alive_time := keep_alive_time opts,
                  max_connection_count := max_connection_count opts\<rparr>,
                slice_quota_in := quota_of (max_throughput_in opts) (slice_count v),
                slice_quota_out := quota_of (max_throughput_out opts) (slice_count v),
                srv_max_pending_buffer_size := max 0 (opt_pending_buffer_size opts * 1024 * 1024),
                keep_alive_ticks := keep_alive_of (keep_alive_time opts)\<rparr>;
          v2 = (if srv_max_pending_buffer_size v1 \<noteq> srv_max_pending_buffer_size v
                then fold (\<lambda>i. upd_session i (\<lambda>s. s\<lparr>max_pending_buffer_size := srv_max_pending_buffer_size v1\<rparr>)) (session_set v1) v1
                else v1);
          reset_in = (\<lambda>v3. if slice_quota_in v3 = slice_quota_in v then Some v3
             else map_option (\<lambda>fc. v3\<lparr>controller := Some (reset_read_quota (slice_quota_in v3 = -1) (slice_quota_in v3) fc)\<rparr>) (controller v3));
          reset_out = (\<lambda>v3. if slice_quota_out v3 = slice_quota_out v then Some v3
             else map_option (\<lambda>fc. v3\<lparr>controller := Some (reset_write_quota (slice_quota_out v3 = -1) (slice_quota_out v3) fc)\<rparr>) (controller v3))
      in Option.bind (reset_in v2) reset_out)"

definition IsListening :: "server \<Rightarrow> bool" where
  "IsListening v \<longleftrightarrow> is_running v \<and> \<not> listener_closed v"

text \<open>A new \<^verbatim>\<open>Listener\<close> says that it is not closed whether or not \<^verbatim>\<open>start_listen\<close> succeeds, a new \<^verbatim>\<open>KcpListener\<close> when it does.\<close>

definition ReStartListen :: "bool \<Rightarrow> server \<Rightarrow> bool \<times> server" where
  "ReStartListen listening v =
     (if \<not> is_running v then (False, v) else (listening, v\<lparr>listener_closed := opt_kcp (options v) \<and> \<not> listening, accepting := listening\<rparr>))"

text \<open>An error of \<^verbatim>\<open>async_accept\<close> closes the listener (\<^verbatim>\<open>Listener::on_accept\<close>).\<close>

definition accept_failed :: "server \<Rightarrow> server" where
  "accept_failed v = v\<lparr>listener_closed := True, accepting := False\<rparr>"

section \<open>Maintenance\<close>

definition keep_alive_one :: "int \<Rightarrow> nat \<Rightarrow> server \<Rightarrow> server" where
  "keep_alive_one now_ticks i v =
     (if is_closed (sessions v i) then v
      else if now_ticks - last_rw_ticks (sessions v i) \<ge> keep_alive_ticks v then close_session ''keep alive timeout'' i v
      else upd_session i (reset_ticks now_ticks False) v)"

text \<open>A session's operation uses the shared flow controller; \<open>None\<close> is a null controller or an operation that does not return.\<close>

definition with_controller :: "nat \<Rightarrow> (session \<Rightarrow> session option) \<Rightarrow> server \<Rightarrow> server option" where
  "with_controller i f v =
     (case controller v of
        None \<Rightarrow> None
      | Some fc \<Rightarrow> map_option (\<lambda>s. v\<lparr>sessions := (sessions v)(i := s), controller := Some (flow_ctl s)\<rparr>)
                     (f ((sessions v i)\<lparr>flow_ctl := fc\<rparr>)))"

text \<open>\<^verbatim>\<open>FlowControlItem\<close>: tokens nearer to zero first. \<^verbatim>\<open>std::sort\<close> leaves the order of equal tokens open; here they keep theirs.\<close>

definition trigger_list :: "(session \<Rightarrow> int) \<Rightarrow> nat list \<Rightarrow> server \<Rightarrow> nat list" where
  "trigger_list token ss v =
     sort_key (\<lambda>i. - token (sessions v i)) (filter (\<lambda>i. \<not> is_closed (sessions v i) \<and> token (sessions v i) \<le> 0) ss)"

fun trigger_all :: "(session \<Rightarrow> session option) \<Rightarrow> nat list \<Rightarrow> server \<Rightarrow> server option" where
  "trigger_all f [] v = Some v"
| "trigger_all f (i # is) v = Option.bind (with_controller i f v) (trigger_all f is)"

definition recharge_in :: "nat list \<Rightarrow> server \<Rightarrow> server option" where
  "recharge_in ss v =
     (if slice_quota_in v = -1 then Some v
      else case controller v of
             None \<Rightarrow> None
           | Some fc \<Rightarrow>
               (let v1 = v\<lparr>controller := Some (recharge_read_quota (slice_quota_in v) fc)\<rparr>
                in trigger_all (\<lambda>s. Some (snd (trigger_receive s))) (trigger_list read_quota_token ss v1) v1))"

definition recharge_out :: "nat list \<Rightarrow> server \<Rightarrow> server option" where
  "recharge_out ss v =
     (if slice_quota_out v = -1 then Some v
      else case controller v of
             None \<Rightarrow> None
           | Some fc \<Rightarrow>
               (let v1 = v\<lparr>controller := Some (recharge_write_quota (slice_quota_out v) fc)\<rparr>
                in trigger_all (\<lambda>s. map_option snd (trigger_send s)) (trigger_list write_quota_token ss v1) v1))"

definition TimerMaintain :: "int \<Rightarrow> bool \<Rightarrow> server \<Rightarrow> server option" where
  "TimerMaintain now_ticks listening v =
     (let v1 = (if listener_closed v \<and> now_ticks - last_restart_listen_ticks v \<ge> restart_listen_interval_ticks v
                then snd (ReStartListen listening (v\<lparr>last_restart_listen_ticks := now_ticks\<rparr>)) else v);
          ss = session_set v1;
          v2 = (if keep_alive_ticks v1 \<noteq> -1 then fold (keep_alive_one now_ticks) ss v1 else v1)
      in map_option (\<lambda>v3. v3\<lparr>last_maintain_ticks := now_ticks\<rparr>)
           (if keep_alive_ticks v1 \<noteq> -1 \<or> slice_quota_in v1 \<noteq> -1 \<or> slice_quota_out v1 \<noteq> -1
            then Option.bind (recharge_in ss v2) (recharge_out ss) else Some v1))"

section \<open>IO service pool\<close>

text \<open>
  \<^verbatim>\<open>IoServicePool\<close> (\<^verbatim>\<open>src/network/io/io_service_pool.cpp\<close>): \<open>pool_workers\<close> IO threads, handed out in turn. The index of
  \<^verbatim>\<open>GetWorker\<close> is compared as a \<^verbatim>\<open>size_t\<close>; \<open>Inl\<close> is the exception of \<^verbatim>\<open>at\<close>.
\<close>

record io_service_pool =
  pool_workers :: nat
  next_service :: u64

definition IoServicePool :: "nat \<Rightarrow> io_service_pool" where
  "IoServicePool n = \<lparr>pool_workers = n, next_service = 0\<rparr>"

definition GetIoService :: "io_service_pool \<Rightarrow> nat \<times> io_service_pool" where
  "GetIoService pl = (unat (next_service pl) mod pool_workers pl, pl\<lparr>next_service := next_service pl + 1\<rparr>)"

definition GetIoWorker :: "int \<Rightarrow> io_service_pool \<Rightarrow> string + nat option" where
  "GetIoWorker index pl =
     (if uint (word_of_int index :: u64) > int (pool_workers pl) \<or> index < 0 then Inr None
      else if nat index < pool_workers pl then Inr (Some (nat index))
      else Inl ''out_of_range'')"

lemma io_services_in_turn:
  assumes "0 < pool_workers pl" and "next_service pl \<noteq> - 1"
  shows "fst (GetIoService pl) < pool_workers pl \<and>
    fst (GetIoService (snd (GetIoService pl))) = (fst (GetIoService pl) + 1) mod pool_workers pl"
proof -
  have "1 + next_service pl \<noteq> 0" using assms(2) by (metis add.commute add_eq_0_iff2)
  then have "unat (1 + next_service pl) = Suc (unat (next_service pl))" by (rule unatSuc)
  then show ?thesis using assms(1) by (simp add: GetIoService_def mod_Suc_eq add.commute)
qed

lemma io_worker_out_of_range: "n < 2 ^ 31 \<Longrightarrow> GetIoWorker (int n) (IoServicePool n) = Inl ''out_of_range''"
proof -
  assume "n < 2 ^ 31"
  then have "take_bit 64 (int n) = int n" by (simp add: take_bit_int_eq_self)
  then have "uint (word_of_nat n :: u64) = int n" by (simp add: unsigned_of_nat flip: of_nat_take_bit)
  then show ?thesis by (simp add: GetIoWorker_def IoServicePool_def)
qed

section \<open>The connection limit\<close>

text \<open>Runs of a server whose options stay as they are, with one acceptor: \<^verbatim>\<open>OnAccepted\<close> is not interleaved with itself.\<close>

inductive server_reach :: "server_options \<Rightarrow> server \<Rightarrow> bool" for opts where
  init: "server_reach opts (ServerImpl opts ss)"
| start: "server_reach opts v \<Longrightarrow> server_reach opts (snd (Start resolved listening v))"
| stop: "server_reach opts v \<Longrightarrow> server_reach opts (StopServer v)"
| created: "server_reach opts v \<Longrightarrow> server_reach opts (OnCreated i v)"
| accepted: "server_reach opts v \<Longrightarrow> server_reach opts (OnAccepted now i v)"
| received: "server_reach opts v \<Longrightarrow> server_reach opts (OnReceived i v)"
| closed: "server_reach opts v \<Longrightarrow> server_reach opts (close_session reason i v)"
| session_works: "server_reach opts v \<Longrightarrow> server_reach opts (upd_session i f v)"
| accept_error: "server_reach opts v \<Longrightarrow> server_reach opts (accept_failed v)"
| maintain: "server_reach opts v \<Longrightarrow> TimerMaintain now listening v = Some v' \<Longrightarrow> server_reach opts v'"

definition same_set :: "server \<Rightarrow> server \<Rightarrow> bool" where
  "same_set v v' \<longleftrightarrow> options v' = options v \<and> accepting v' = accepting v \<and> listener_closed v' = listener_closed v \<and> (distinct (session_set v) \<longrightarrow> distinct (session_set v')) \<and> length (session_set v') \<le> length (session_set v)"

lemma same_set_refl [simp]: "same_set v v"
  by (simp add: same_set_def)

lemma same_set_trans: "same_set u v \<Longrightarrow> same_set v w \<Longrightarrow> same_set u w"
  by (auto simp: same_set_def)

lemma upd_session_simps [simp]:
  "options (upd_session i f v) = options v" "session_set (upd_session i f v) = session_set v"
  "is_running (upd_session i f v) = is_running v" "user_calls (upd_session i f v) = user_calls v"
  "sessions (upd_session i f v) = (sessions v)(i := f (sessions v i))" "controller (upd_session i f v) = controller v"
  "keep_alive_ticks (upd_session i f v) = keep_alive_ticks v" "slice_quota_in (upd_session i f v) = slice_quota_in v"
  "slice_quota_out (upd_session i f v) = slice_quota_out v" "accepting (upd_session i f v) = accepting v"
  "listener_closed (upd_session i f v) = listener_closed v"
  by (simp_all add: upd_session_def)

lemma same_set_OnClosed [simp]: "same_set v (OnClosed i v)"
  by (auto simp: same_set_def OnClosed_def set_erase_def length_remove1)

lemma same_set_upd_session [simp]: "same_set v (upd_session i f v)"
  by (simp add: same_set_def)

lemma same_set_close [simp]: "same_set v (close_session reason i v)"
  unfolding close_session_def Let_def
  using same_set_trans [OF same_set_upd_session same_set_OnClosed] by simp

lemma same_set_fold: "(\<And>i v. same_set v (f i v)) \<Longrightarrow> same_set v (fold f is v)"
  by (induction "is" arbitrary: v) (auto intro: same_set_trans)

lemma same_set_keep_alive: "same_set v (keep_alive_one now i v)"
  by (simp add: keep_alive_one_def)

lemma same_set_trigger_all: "trigger_all f is v = Some v' \<Longrightarrow> same_set v v'"
proof (induction "is" arbitrary: v)
  case (Cons i "is")
  then obtain v1 where v1: "with_controller i f v = Some v1" "trigger_all f is v1 = Some v'" by (auto simp: bind_eq_Some_conv)
  have "same_set v v1" using v1(1) by (auto simp: with_controller_def same_set_def split: option.splits)
  then show ?case using Cons.IH [OF v1(2)] same_set_trans by blast
qed simp

lemma same_set_recharge:
  "recharge_in ss v = Some v' \<Longrightarrow> same_set v v'" "recharge_out ss v = Some v' \<Longrightarrow> same_set v v'"
  by (auto simp: recharge_in_def recharge_out_def Let_def same_set_def split: if_splits option.splits dest!: same_set_trigger_all)

lemma same_set_TimerMaintain:
  assumes "TimerMaintain now listening v = Some v'"
  obtains v1 where "same_set v1 v'" "options v1 = options v" "session_set v1 = session_set v" "\<not> listener_closed v \<Longrightarrow> v1 = v"
proof -
  define v1 where "v1 = (if listener_closed v \<and> now - last_restart_listen_ticks v \<ge> restart_listen_interval_ticks v
                then snd (ReStartListen listening (v\<lparr>last_restart_listen_ticks := now\<rparr>)) else v)"
  define v2 where "v2 = (if keep_alive_ticks v1 \<noteq> -1 then fold (keep_alive_one now) (session_set v1) v1 else v1)"
  have 1: "options v1 = options v" "session_set v1 = session_set v" "\<not> listener_closed v \<Longrightarrow> v1 = v"
    by (simp_all add: v1_def ReStartListen_def)
  have 2: "same_set v1 v2" by (simp add: v2_def same_set_fold same_set_keep_alive)
  obtain v3 where v3: "v' = v3\<lparr>last_maintain_ticks := now\<rparr>"
      "(if keep_alive_ticks v1 \<noteq> -1 \<or> slice_quota_in v1 \<noteq> -1 \<or> slice_quota_out v1 \<noteq> -1
        then Option.bind (recharge_in (session_set v1) v2) (recharge_out (session_set v1)) else Some v1) = Some v3"
    using assms unfolding TimerMaintain_def Let_def v1_def [symmetric] v2_def [symmetric] by auto
  have "same_set v1 v3"
    using v3(2) 2 same_set_recharge same_set_trans by (auto split: if_splits simp: bind_eq_Some_conv) (metis same_set_trans)+
  then have "same_set v1 v'" using v3(1) by (simp add: same_set_def)
  then show ?thesis using that 1 by blast
qed

definition limit_ok :: "server_options \<Rightarrow> server \<Rightarrow> bool" where
  "limit_ok opts v \<longleftrightarrow> options v = opts \<and> distinct (session_set v) \<and>
     (0 \<le> max_connection_count opts \<longrightarrow> ConnectionCount v \<le> max_connection_count opts)"

lemma limit_ok_same: "limit_ok opts v \<Longrightarrow> same_set v v' \<Longrightarrow> limit_ok opts v'"
  by (auto simp: limit_ok_def same_set_def ConnectionCount_def)

lemma limit_ok_accepted: "limit_ok opts v \<Longrightarrow> limit_ok opts (OnAccepted now i v)"
proof -
  assume ok: "limit_ok opts v"
  have "same_set v (accept_setup i v)" by (simp add: accept_setup_def)
  then have set_up: "limit_ok opts (accept_setup i v)" by (rule limit_ok_same [OF ok])
  have "limit_ok opts (accept_session now i u)" if "limit_ok opts u" "\<not> limit_reached u" for u
    using that by (auto simp: limit_ok_def accept_session_def set_insert_def limit_reached_def ConnectionCount_def Let_def
        insort_insert_key_def distinct_insort)
  then show ?thesis unfolding OnAccepted_def Let_def using ok set_up limit_ok_same [OF _ same_set_close] by auto
qed

lemma server_reach_limit: "server_reach opts v \<Longrightarrow> limit_ok opts v"
proof (induction rule: server_reach.induct)
  case (init ss)
  then show ?case by (simp add: limit_ok_def ServerImpl_def ConnectionCount_def Let_def)
next
  case (start v resolved listening)
  then show ?case by (simp add: Start_def limit_ok_def ConnectionCount_def Let_def)
next
  case (stop v)
  have "same_set (v\<lparr>is_running := False, listener_closed := True, accepting := False\<rparr>) (StopSession u)"
    if "u = v\<lparr>is_running := False, listener_closed := True, accepting := False\<rparr>" for u
    unfolding StopSession_def Let_def that
    by (rule same_set_fold) (use same_set_trans [OF same_set_upd_session same_set_OnClosed] in simp)
  then show ?case using stop
    by (auto simp: StopServer_def ClearSession_def limit_ok_def same_set_def ConnectionCount_def)
next
  case (maintain v now listening v')
  obtain v1 where "same_set v1 v'" "options v1 = options v" "session_set v1 = session_set v"
    by (rule same_set_TimerMaintain [OF maintain.hyps(2)])
  then show ?case using maintain.IH limit_ok_same [of opts v1 v'] by (simp add: limit_ok_def ConnectionCount_def)
next
  case (accepted v now i)
  then show ?case by (rule_tac limit_ok_accepted)
next
  case (closed v reason i)
  then show ?case using limit_ok_same [OF _ same_set_close] by blast
next
  case (session_works v i f)
  then show ?case using limit_ok_same [OF _ same_set_upd_session] by blast
qed (auto simp: OnCreated_def OnReceived_def accept_failed_def limit_ok_def ConnectionCount_def)

text \<open>
  C16. As long as its options stay the same and sessions are accepted one after the other, a server never holds more sessions than
  \<^verbatim>\<open>max_connection_count\<close>, and none twice.
\<close>

theorem connection_limit_kept:
  assumes "server_reach opts v" and "0 \<le> max_connection_count opts"
  shows "ConnectionCount v \<le> max_connection_count opts \<and> distinct (session_set v)"
  using server_reach_limit [OF assms(1)] assms(2) by (simp add: limit_ok_def)

text \<open>
  With an SSL or KCP transport \<^verbatim>\<open>OnAccepted\<close> runs on the sessions' own IO threads. Its test of the limit and its insertion are
  not one step: when two threads test before either inserts, the limit is exceeded.
\<close>

theorem concurrent_accepts_exceed_limit:
  assumes "is_running v" and "max_connection_count (options v) = ConnectionCount v + 1" and "i \<noteq> j"
    and "i \<notin> set (session_set v)" and "j \<notin> set (session_set v)"
  shows "\<not> limit_reached (accept_setup i v) \<and> \<not> limit_reached (accept_setup j v) \<and>
    ConnectionCount (accept_session now j (accept_session now i (accept_setup j (accept_setup i v))))
      = max_connection_count (options v) + 1"
  using assms
  by (simp add: limit_reached_def ConnectionCount_def accept_setup_def accept_session_def set_insert_def Let_def
      insort_insert_key_def set_insort_key)

section \<open>Keep-alive\<close>

lemma closed_after_close [simp]: "is_closed (close_stream (\<lambda>_ t. t) reason s)"
  by (simp add: close_stream_def is_closed_def atomic_swap_def on_closed_def call_back_def emit_def Let_def)

lemma reset_ticks_status [simp]: "status (reset_ticks t b s) = status s"
  by (simp add: reset_ticks_def Let_def)

definition idle :: "int \<Rightarrow> server \<Rightarrow> nat \<Rightarrow> bool" where
  "idle now v i \<longleftrightarrow> \<not> is_closed (sessions v i) \<and> now - last_rw_ticks (sessions v i) \<ge> keep_alive_ticks v"

lemma OnClosed_simps [simp]:
  "sessions (OnClosed i v) = sessions v" "is_running (OnClosed i v) = is_running v" "keep_alive_ticks (OnClosed i v) = keep_alive_ticks v"
  "slice_quota_in (OnClosed i v) = slice_quota_in v" "slice_quota_out (OnClosed i v) = slice_quota_out v"
  by (simp_all add: OnClosed_def set_erase_def)

lemma keep_alive_one_facts:
  assumes "is_running v" and "distinct (session_set v)"
  shows "is_running (keep_alive_one now i v) \<and> distinct (session_set (keep_alive_one now i v)) \<and>
    keep_alive_ticks (keep_alive_one now i v) = keep_alive_ticks v \<and> slice_quota_in (keep_alive_one now i v) = slice_quota_in v \<and>
    slice_quota_out (keep_alive_one now i v) = slice_quota_out v \<and>
    set (session_set (keep_alive_one now i v)) = set (session_set v) - (if idle now v i then {i} else {}) \<and>
    sessions (keep_alive_one now i v) i = (if is_closed (sessions v i) then sessions v i
      else if idle now v i then close_stream (\<lambda>_ t. t) ''keep alive timeout'' (sessions v i) else reset_ticks now False (sessions v i)) \<and>
    (\<forall>j. j \<noteq> i \<longrightarrow> sessions (keep_alive_one now i v) j = sessions v j)"
  using assms
  by (auto simp: keep_alive_one_def close_session_def idle_def Let_def OnClosed_def set_erase_def)

lemma keep_alive_fold:
  assumes "is_running v" and "distinct (session_set v)" and "distinct is"
  shows "is_running (fold (keep_alive_one now) is v) \<and> slice_quota_in (fold (keep_alive_one now) is v) = slice_quota_in v \<and>
    slice_quota_out (fold (keep_alive_one now) is v) = slice_quota_out v \<and>
    set (session_set (fold (keep_alive_one now) is v)) = {i \<in> set (session_set v). i \<in> set is \<longrightarrow> \<not> idle now v i} \<and>
    (\<forall>i. sessions (fold (keep_alive_one now) is v) i =
       (if i \<notin> set is \<or> is_closed (sessions v i) then sessions v i
        else if idle now v i then close_stream (\<lambda>_ t. t) ''keep alive timeout'' (sessions v i) else reset_ticks now False (sessions v i)))"
  using assms
proof (induction "is" arbitrary: v)
  case Nil
  then show ?case by simp
next
  case (Cons a "is")
  let ?u = "keep_alive_one now a v"
  note f = keep_alive_one_facts [OF Cons.prems(1,2), of now a]
  have idle: "idle now ?u i = idle now v i" if "i \<noteq> a" for i using f that by (simp add: idle_def)
  have IH: "is_running (fold (keep_alive_one now) is ?u) \<and> slice_quota_in (fold (keep_alive_one now) is ?u) = slice_quota_in ?u \<and>
    slice_quota_out (fold (keep_alive_one now) is ?u) = slice_quota_out ?u \<and>
    set (session_set (fold (keep_alive_one now) is ?u)) = {i \<in> set (session_set ?u). i \<in> set is \<longrightarrow> \<not> idle now ?u i} \<and>
    (\<forall>i. sessions (fold (keep_alive_one now) is ?u) i =
       (if i \<notin> set is \<or> is_closed (sessions ?u i) then sessions ?u i
        else if idle now ?u i then close_stream (\<lambda>_ t. t) ''keep alive timeout'' (sessions ?u i) else reset_ticks now False (sessions ?u i)))"
    by (rule Cons.IH) (use f Cons.prems(3) in auto)
  have a: "a \<notin> set is" using Cons.prems(3) by simp
  have "set (session_set (fold (keep_alive_one now) (a # is) v)) = {i \<in> set (session_set v). i \<in> set (a # is) \<longrightarrow> \<not> idle now v i}"
  proof (rule set_eqI)
    fix j
    have "j \<in> set (session_set (fold (keep_alive_one now) is ?u)) \<longleftrightarrow> j \<in> set (session_set ?u) \<and> (j \<in> set is \<longrightarrow> \<not> idle now ?u j)"
      using IH by blast
    then show "j \<in> set (session_set (fold (keep_alive_one now) (a # is) v)) \<longleftrightarrow>
        j \<in> {i \<in> set (session_set v). i \<in> set (a # is) \<longrightarrow> \<not> idle now v i}"
      using f idle [of j] a by (cases "j = a") simp_all
  qed
  moreover have "sessions (fold (keep_alive_one now) (a # is) v) i =
       (if i \<notin> set (a # is) \<or> is_closed (sessions v i) then sessions v i
        else if idle now v i then close_stream (\<lambda>_ t. t) ''keep alive timeout'' (sessions v i) else reset_ticks now False (sessions v i))" for i
    using IH f idle a by (cases "i = a") simp_all
  ultimately show ?case using IH f by simp
qed

text \<open>
  C17. One maintenance run of a running server without throughput quotas, whose keep-alive is on and whose listener is open, closes exactly
  the open sessions that have been idle for the keep-alive time, takes them out of the set and tells the application of each; the other
  open ones get the current time and stay. (The callbacks leave the sessions alone.)
\<close>

theorem keep_alive_closes_idle:
  assumes "is_running v" and "distinct (session_set v)" and "keep_alive_ticks v \<noteq> -1" and "slice_quota_in v = -1" and "slice_quota_out v = -1"
    and "\<not> listener_closed v"
  shows "\<exists>v'. TimerMaintain now listening v = Some v' \<and> set (session_set v') = {i \<in> set (session_set v). \<not> idle now v i} \<and>
    (\<forall>i. sessions v' i = (if i \<notin> set (session_set v) \<or> is_closed (sessions v i) then sessions v i
        else if idle now v i then close_stream (\<lambda>_ t. t) ''keep alive timeout'' (sessions v i) else reset_ticks now False (sessions v i)))"
  using keep_alive_fold [OF assms(1,2,2), of now] assms(3-6)
  by (auto simp: TimerMaintain_def recharge_in_def recharge_out_def Let_def)

section \<open>Options and restarts\<close>

text \<open>
  \<^verbatim>\<open>ResetOptions\<close> uses a null flow controller exactly when the server is not started and a throughput limit changes.
\<close>

theorem reset_options_faults:
  "ResetOptions opts v = None \<longleftrightarrow>
     controller v = None \<and> (quota_of (max_throughput_in opts) (slice_count v) \<noteq> slice_quota_in v \<or>
       quota_of (max_throughput_out opts) (slice_count v) \<noteq> slice_quota_out v)"
proof -
  have fold: "controller (fold (\<lambda>i. upd_session i f) is u) = controller u \<and> slice_quota_in (fold (\<lambda>i. upd_session i f) is u) = slice_quota_in u \<and>
      slice_quota_out (fold (\<lambda>i. upd_session i f) is u) = slice_quota_out u" for f "is" u
    by (induction "is" arbitrary: u) auto
  show ?thesis by (cases "controller v") (auto simp: ResetOptions_def Let_def fold)
qed

text \<open>
  A listener that fails to listen again stays so: \<^verbatim>\<open>IsListening\<close> says that the server listens, and no later maintenance run tries again.
\<close>

theorem failed_relisten_is_final:
  assumes "is_running v" and "listener_closed v" and "\<not> opt_kcp (options v)"
    and "snd (ReStartListen False v) = v1" and "TimerMaintain now listening v1 = Some v2"
  shows "IsListening v1 \<and> \<not> accepting v1 \<and> \<not> accepting v2 \<and> listener_closed v2 = False"
proof -
  have "IsListening v1" "\<not> accepting v1" "\<not> listener_closed v1"
    using assms(1,3,4) by (auto simp: ReStartListen_def IsListening_def)
  moreover obtain u where "same_set u v2" "\<not> listener_closed v1 \<Longrightarrow> u = v1"
    using same_set_TimerMaintain [OF assms(5)] by metis
  ultimately show ?thesis by (simp add: same_set_def)
qed

section \<open>Witnesses\<close>

definition demo_options :: server_options where
  "demo_options = ServerOptions\<lparr>max_connection_count := 1, keep_alive_time := 30\<rparr>"

definition demo_server :: server where
  "demo_server = OnAccepted 5 8 (snd (Start True True (ServerImpl demo_options (\<lambda>_. Session NT_SERVER mem0))))"

lemma demo_server_facts:
  "is_running demo_server" "session_set demo_server = [8]" "keep_alive_ticks demo_server = 30" "slice_quota_in demo_server = -1"
  "slice_quota_out demo_server = -1" "\<not> listener_closed demo_server" "options demo_server = demo_options"
  "\<not> is_closed (sessions demo_server 8)" "last_rw_ticks (sessions demo_server 8) = 5"
  by (simp_all add: demo_server_def OnAccepted_def limit_reached_def ConnectionCount_def accept_session_def accept_setup_def set_insert_def
      Start_def ServerImpl_def demo_options_def ServerOptions_def keep_alive_of_def quota_of_def Let_def Session_def is_closed_def
      insort_insert_key_def reset_ticks_def)

theorem connection_limit_kept_witness:
  "ConnectionCount (OnAccepted 6 9 demo_server) \<le> max_connection_count demo_options \<and> distinct (session_set (OnAccepted 6 9 demo_server))"
proof (rule connection_limit_kept)
  show "server_reach demo_options (OnAccepted 6 9 demo_server)"
    unfolding demo_server_def by (intro server_reach.accepted server_reach.start server_reach.init)
qed (simp add: demo_options_def ServerOptions_def)

theorem concurrent_accepts_exceed_limit_witness:
  "let v = demo_server\<lparr>session_set := []\<rparr> in
     ConnectionCount (accept_session 6 3 (accept_session 6 2 (accept_setup 3 (accept_setup 2 v)))) = max_connection_count demo_options + 1"
  using concurrent_accepts_exceed_limit [of "demo_server\<lparr>session_set := []\<rparr>" 2 3 6] demo_server_facts
  by (simp add: ConnectionCount_def demo_options_def ServerOptions_def Let_def)

theorem keep_alive_closes_idle_witness:
  "\<exists>v'. TimerMaintain 40 True demo_server = Some v' \<and> session_set v' = [] \<and> is_closed (sessions v' 8)"
proof -
  have idle: "idle 40 demo_server 8" using demo_server_facts by (simp add: idle_def)
  obtain v' where v': "TimerMaintain 40 True demo_server = Some v'"
      "set (session_set v') = {i \<in> set (session_set demo_server). \<not> idle 40 demo_server i}"
      "\<forall>i. sessions v' i = (if i \<notin> set (session_set demo_server) \<or> is_closed (sessions demo_server i) then sessions demo_server i
        else if idle 40 demo_server i then close_stream (\<lambda>_ t. t) ''keep alive timeout'' (sessions demo_server i)
        else reset_ticks 40 False (sessions demo_server i))"
    using keep_alive_closes_idle [of demo_server 40 True] demo_server_facts by auto
  have "set (session_set v') = {}" using v'(2) idle demo_server_facts(2) by auto
  moreover have "is_closed (sessions v' 8)" using v'(3) idle demo_server_facts(2,8) by simp
  ultimately show ?thesis using v'(1) by auto
qed

theorem failed_relisten_is_final_witness:
  "IsListening (snd (ReStartListen False (accept_failed demo_server))) \<and> \<not> accepting (snd (ReStartListen False (accept_failed demo_server)))"
proof -
  let ?v1 = "snd (ReStartListen False (accept_failed demo_server))"
  have v1: "\<not> listener_closed ?v1" "is_running ?v1" "session_set ?v1 = [8]" "keep_alive_ticks ?v1 = 30" "slice_quota_in ?v1 = -1"
      "slice_quota_out ?v1 = -1"
    using demo_server_facts by (simp_all add: ReStartListen_def accept_failed_def demo_options_def ServerOptions_def)
  then obtain v2 where "TimerMaintain 9 True ?v1 = Some v2" using keep_alive_closes_idle [of ?v1 9 True] by auto
  then show ?thesis
    using failed_relisten_is_final [of "accept_failed demo_server" ?v1 9 True v2] demo_server_facts
    by (simp add: accept_failed_def demo_options_def ServerOptions_def)
qed

end
