(* ===== verification/Server_Stop.thy ===== *)
theory Server_Stop
  imports Main
begin

text \<open>
  \<^verbatim>\<open>ServerImpl::Stop\<close> against the maintenance thread (\<^verbatim>\<open>src/network/io/server.cpp\<close>, \<^verbatim>\<open>src/network/io/timer_worker.cpp\<close>,
  \<^verbatim>\<open>src/network/io/io_service_pool.cpp\<close>): one thread stops the server while the other runs \<^verbatim>\<open>TimerMaintain\<close>, which takes the same
  mutex when it restarts a closed listener. A step is one access to the mutex, a flag, the listener or the thread.
\<close>

datatype stop_pc =
    BeforeStop
  | StopLock          \<comment> \<open>\<^verbatim>\<open>lock_guard _lock(_start_stop_mutex)\<close>\<close>
  | StopTest          \<comment> \<open>\<^verbatim>\<open>if (!_is_runing) return; _is_runing = false\<close>\<close>
  | StopTimer         \<comment> \<open>\<^verbatim>\<open>_timer_worker->stop()\<close>\<close>
  | CloseListener
  | StopContext       \<comment> \<open>\<^verbatim>\<open>m_ioContext_.stop()\<close> in \<^verbatim>\<open>GracefulStop\<close> of the maintenance thread\<close>
  | JoinThread        \<comment> \<open>\<^verbatim>\<open>m_threadPtr_->join()\<close>\<close>
  | StopUnlock
  | Stopped

datatype maintain_pc =
    InContext
  | MaintainTest      \<comment> \<open>\<^verbatim>\<open>listener_closed && now_ticks - _last_restart_listen_ticks >= ...\<close>\<close>
  | RestartLock       \<comment> \<open>\<^verbatim>\<open>lock_guard\<close> in \<^verbatim>\<open>ReStartListen\<close>\<close>
  | Restart
  | RestartUnlock
  | MaintainRest
  | ThreadExited

datatype thread_name = Stopper | Maintainer

record stopping =
  stopper :: stop_pc
  maintainer :: maintain_pc
  mutex :: "thread_name option"
  server_running :: bool
  timer_running :: bool
  listener_is_closed :: bool
  context_stopped :: bool

definition started :: stopping where
  "started = \<lparr>stopper = BeforeStop, maintainer = InContext, mutex = None, server_running = True, timer_running = True,
     listener_is_closed = False, context_stopped = False\<rparr>"

text \<open>Steps of \<^verbatim>\<open>Stop\<close>.\<close>

inductive stop_step :: "stopping \<Rightarrow> stopping \<Rightarrow> bool" where
  call_stop: "stopper s = BeforeStop \<Longrightarrow> stop_step s (s\<lparr>stopper := StopLock\<rparr>)"
| lock: "stopper s = StopLock \<Longrightarrow> mutex s = None \<Longrightarrow> stop_step s (s\<lparr>stopper := StopTest, mutex := Some Stopper\<rparr>)"
| test: "stopper s = StopTest \<Longrightarrow>
    stop_step s (if server_running s then s\<lparr>stopper := StopTimer, server_running := False\<rparr> else s\<lparr>stopper := StopUnlock\<rparr>)"
| timer: "stopper s = StopTimer \<Longrightarrow> stop_step s (s\<lparr>stopper := CloseListener, timer_running := False\<rparr>)"
| close: "stopper s = CloseListener \<Longrightarrow> stop_step s (s\<lparr>stopper := StopContext, listener_is_closed := True\<rparr>)"
| stop_context: "stopper s = StopContext \<Longrightarrow> stop_step s (s\<lparr>stopper := JoinThread, context_stopped := True\<rparr>)"
| join: "stopper s = JoinThread \<Longrightarrow> maintainer s = ThreadExited \<Longrightarrow> stop_step s (s\<lparr>stopper := StopUnlock\<rparr>)"
| unlock: "stopper s = StopUnlock \<Longrightarrow> stop_step s (s\<lparr>stopper := Stopped, mutex := None\<rparr>)"

text \<open>Steps of the maintenance thread; \<open>late\<close> is whether the interval since the last restart has passed, \<open>ok\<close> whether listening succeeds.\<close>

inductive maintain_step :: "stopping \<Rightarrow> stopping \<Rightarrow> bool" where
  tick: "maintainer s = InContext \<Longrightarrow> timer_running s \<Longrightarrow> \<not> context_stopped s \<Longrightarrow> maintain_step s (s\<lparr>maintainer := MaintainTest\<rparr>)"
| accept_error: "maintainer s = InContext \<Longrightarrow> \<not> context_stopped s \<Longrightarrow> maintain_step s (s\<lparr>listener_is_closed := True\<rparr>)"
| leave: "maintainer s = InContext \<Longrightarrow> context_stopped s \<Longrightarrow> maintain_step s (s\<lparr>maintainer := ThreadExited\<rparr>)"
| test_listener: "maintainer s = MaintainTest \<Longrightarrow>
    maintain_step s (s\<lparr>maintainer := if listener_is_closed s \<and> late then RestartLock else MaintainRest\<rparr>)"
| lock_restart: "maintainer s = RestartLock \<Longrightarrow> mutex s = None \<Longrightarrow>
    maintain_step s (s\<lparr>maintainer := Restart, mutex := Some Maintainer\<rparr>)"
| restart: "maintainer s = Restart \<Longrightarrow>
    maintain_step s (s\<lparr>maintainer := RestartUnlock, listener_is_closed := (if server_running s then \<not> ok else listener_is_closed s)\<rparr>)"
| unlock_restart: "maintainer s = RestartUnlock \<Longrightarrow> maintain_step s (s\<lparr>maintainer := MaintainRest, mutex := None\<rparr>)"
| rest: "maintainer s = MaintainRest \<Longrightarrow> maintain_step s (s\<lparr>maintainer := InContext\<rparr>)"

inductive stopping_step :: "stopping \<Rightarrow> stopping \<Rightarrow> bool" where
  by_stopper: "stop_step s s' \<Longrightarrow> stopping_step s s'"
| by_maintainer: "maintain_step s s' \<Longrightarrow> stopping_step s s'"

inductive stopping_reach :: "stopping \<Rightarrow> bool" where
  init: "stopping_reach started"
| step: "stopping_reach s \<Longrightarrow> stopping_step s s' \<Longrightarrow> stopping_reach s'"

inductive_cases stop_stepE: "stop_step s s'"
inductive_cases maintain_stepE: "maintain_step s s'"

definition stop_owns :: "stop_pc \<Rightarrow> bool" where
  "stop_owns p \<longleftrightarrow> p \<noteq> BeforeStop \<and> p \<noteq> StopLock \<and> p \<noteq> Stopped"

definition mutex_ok :: "stopping \<Rightarrow> bool" where
  "mutex_ok s \<longleftrightarrow> (mutex s = Some Stopper \<longleftrightarrow> stop_owns (stopper s)) \<and>
     (mutex s = Some Maintainer \<longleftrightarrow> maintainer s = Restart \<or> maintainer s = RestartUnlock) \<and>
     (stopper s = Stopped \<or> stopper s = JoinThread \<longrightarrow> context_stopped s) \<and>
     (context_stopped s \<longrightarrow> stopper s = JoinThread \<or> stopper s = StopUnlock \<or> stopper s = Stopped) \<and>
     (stopper s = StopTest \<longrightarrow> server_running s) \<and> (stopper s = BeforeStop \<or> stopper s = StopLock \<longrightarrow> server_running s) \<and>
     (stopper s = StopUnlock \<longrightarrow> context_stopped s \<and> maintainer s = ThreadExited) \<and>
     (stopper s = Stopped \<longrightarrow> maintainer s = ThreadExited)"

lemma stopping_reach_mutex: "stopping_reach s \<Longrightarrow> mutex_ok s"
proof (induction rule: stopping_reach.induct)
  case init
  then show ?case by (simp add: mutex_ok_def started_def stop_owns_def)
next
  case (step s s')
  from step.hyps(2) show ?case
  proof (cases rule: stopping_step.cases)
    case by_stopper
    then show ?thesis using step.IH by (cases rule: stop_step.cases) (auto simp: mutex_ok_def stop_owns_def)
  next
    case by_maintainer
    then show ?thesis using step.IH by (cases rule: maintain_step.cases) (auto simp: mutex_ok_def stop_owns_def)
  qed
qed

text \<open>The deadlock: \<^verbatim>\<open>Stop\<close> holds the mutex and waits for the thread, the thread waits for the mutex.\<close>

definition deadlocked :: "stopping \<Rightarrow> bool" where
  "deadlocked s \<longleftrightarrow> stopper s = JoinThread \<and> mutex s = Some Stopper \<and> maintainer s = RestartLock"

lemma maintainer_moves:
  assumes "maintainer s \<noteq> ThreadExited" and "maintainer s \<noteq> RestartLock \<or> mutex s = None" and "maintainer s \<noteq> InContext \<or> context_stopped s"
  shows "\<exists>s'. maintain_step s s'"
  using assms by (cases "maintainer s") (blast intro: maintain_step.intros)+

lemma stopper_moves:
  assumes "stopper s \<noteq> Stopped" and "stopper s \<noteq> StopLock \<or> mutex s = None" and "stopper s \<noteq> JoinThread \<or> maintainer s = ThreadExited"
  shows "\<exists>s'. stop_step s s'"
  using assms by (cases "stopper s") (blast intro: stop_step.intros)+

text \<open>
  The only reachable state from which neither thread can go on before \<^verbatim>\<open>Stop\<close> has returned is the one where \<^verbatim>\<open>Stop\<close> joins the
  maintenance thread while that thread waits, in \<^verbatim>\<open>ReStartListen\<close>, for the mutex that \<^verbatim>\<open>Stop\<close> holds.
\<close>

lemma stop_stuck_only_by_deadlock:
  assumes "stopping_reach s" and "\<nexists>s'. stopping_step s s'"
  shows "stopper s = Stopped \<and> maintainer s = ThreadExited \<or> deadlocked s"
proof -
  have ok: "mutex_ok s" by (rule stopping_reach_mutex [OF assms(1)])
  have stop: "\<nexists>s'. stop_step s s'" and main: "\<nexists>s'. maintain_step s s'" using assms(2) stopping_step.intros by blast+
  consider "stopper s = Stopped" | "stopper s = StopLock" "mutex s \<noteq> None" | "stopper s = JoinThread" "maintainer s \<noteq> ThreadExited"
    using stop stopper_moves [of s] by blast
  then show ?thesis
  proof cases
    case 2
    then have "mutex s = Some Maintainer" using ok by (cases "mutex s"; cases "the (mutex s)") (auto simp: mutex_ok_def stop_owns_def)
    then show ?thesis using main ok maintainer_moves [of s] by (auto simp: mutex_ok_def)
  next
    case 3
    then have "maintainer s = RestartLock" using ok main maintainer_moves [of s] by (auto simp: mutex_ok_def)
    then show ?thesis using 3 ok by (simp add: deadlocked_def mutex_ok_def stop_owns_def)
  qed (use ok in \<open>simp add: mutex_ok_def\<close>)
qed

definition deadlock_state :: stopping where
  "deadlock_state = \<lparr>stopper = JoinThread, maintainer = RestartLock, mutex = Some Stopper, server_running = False, timer_running = False,
     listener_is_closed = True, context_stopped = True\<rparr>"

lemma reach_stop: "stopping_reach s \<Longrightarrow> stop_step s s' \<Longrightarrow> stopping_reach s'"
  by (blast intro: stopping_reach.step stopping_step.by_stopper)

lemma reach_maintain: "stopping_reach s \<Longrightarrow> maintain_step s s' \<Longrightarrow> stopping_reach s'"
  by (blast intro: stopping_reach.step stopping_step.by_maintainer)

lemma deadlock_reached: "stopping_reach deadlock_state"
proof -
  have "stopping_reach (started\<lparr>maintainer := MaintainTest\<rparr>)"
    by (rule reach_maintain [OF stopping_reach.init], rule maintain_step.tick) (simp_all add: started_def)
  from reach_stop [OF this stop_step.call_stop]
  have "stopping_reach (started\<lparr>maintainer := MaintainTest, stopper := StopLock\<rparr>)" by (simp add: started_def)
  from reach_stop [OF this stop_step.lock]
  have "stopping_reach (started\<lparr>maintainer := MaintainTest, stopper := StopTest, mutex := Some Stopper\<rparr>)" by (simp add: started_def)
  from reach_stop [OF this stop_step.test]
  have "stopping_reach (started\<lparr>maintainer := MaintainTest, stopper := StopTimer, mutex := Some Stopper, server_running := False\<rparr>)"
    by (simp add: started_def)
  from reach_stop [OF this stop_step.timer]
  have "stopping_reach (started\<lparr>maintainer := MaintainTest, stopper := CloseListener, mutex := Some Stopper, server_running := False,
      timer_running := False\<rparr>)" by (simp add: started_def)
  from reach_stop [OF this stop_step.close]
  have "stopping_reach (started\<lparr>maintainer := MaintainTest, stopper := StopContext, mutex := Some Stopper, server_running := False,
      timer_running := False, listener_is_closed := True\<rparr>)" by (simp add: started_def)
  from reach_maintain [OF this maintain_step.test_listener [where late = True]]
  have "stopping_reach (started\<lparr>maintainer := RestartLock, stopper := StopContext, mutex := Some Stopper, server_running := False,
      timer_running := False, listener_is_closed := True\<rparr>)" by (simp add: started_def)
  from reach_stop [OF this stop_step.stop_context] show ?thesis by (simp add: started_def deadlock_state_def)
qed

lemma deadlock_stuck: "\<nexists>s. stopping_step deadlock_state s"
  by (auto simp: deadlock_state_def elim!: stopping_step.cases stop_stepE maintain_stepE)

text \<open>
  The deadlock happens: \<^verbatim>\<open>Stop\<close> has closed the listener when the timer's routine, already running, looks at it.
\<close>

lemma stop_can_deadlock: "stopping_reach deadlock_state \<and> deadlocked deadlock_state \<and> (\<nexists>s. stopping_step deadlock_state s)"
  using deadlock_reached deadlock_stuck by (simp add: deadlocked_def deadlock_state_def)

text \<open>Once \<^verbatim>\<open>Stop\<close> has stopped the context every step of either thread lowers the work that is left.\<close>

fun stop_left :: "stop_pc \<Rightarrow> nat" where
  "stop_left JoinThread = 2"
| "stop_left StopUnlock = 1"
| "stop_left _ = 0"

fun maintain_left :: "maintain_pc \<Rightarrow> nat" where
  "maintain_left MaintainTest = 6"
| "maintain_left RestartLock = 5"
| "maintain_left Restart = 4"
| "maintain_left RestartUnlock = 3"
| "maintain_left MaintainRest = 2"
| "maintain_left InContext = 1"
| "maintain_left ThreadExited = 0"

definition joining :: "stopping \<Rightarrow> bool" where
  "joining s \<longleftrightarrow> stopper s = JoinThread \<or> stopper s = StopUnlock \<or> stopper s = Stopped"

lemma joining_step:
  assumes "mutex_ok s" and "joining s" and "stopping_step s s'"
  shows "joining s' \<and> stop_left (stopper s') + maintain_left (maintainer s') < stop_left (stopper s) + maintain_left (maintainer s)"
  using assms(3)
proof (cases rule: stopping_step.cases)
  case by_stopper
  then show ?thesis using assms(1,2) by (cases rule: stop_step.cases) (auto simp: joining_def mutex_ok_def)
next
  case by_maintainer
  then show ?thesis using assms(1,2) by (cases rule: maintain_step.cases) (auto simp: joining_def mutex_ok_def)
qed

lemma joining_run:
  "(stopping_step ^^ n) s s' \<Longrightarrow> stopping_reach s \<Longrightarrow> joining s \<Longrightarrow>
     n + stop_left (stopper s') + maintain_left (maintainer s') \<le> stop_left (stopper s) + maintain_left (maintainer s) \<and>
     stopping_reach s' \<and> joining s'"
proof (induction n arbitrary: s')
  case (Suc n)
  then obtain m where m: "(stopping_step ^^ n) s m" "stopping_step m s'" by auto
  from Suc.IH [OF m(1) Suc.prems(2,3)] joining_step [OF stopping_reach_mutex _ m(2)] stopping_reach.step [OF _ m(2)]
  show ?case by force
qed simp

lemma work_left_bound: "stop_left p + maintain_left q \<le> 8"
  by (cases p; cases q) simp_all

text \<open>Before it joins, \<^verbatim>\<open>Stop\<close> waits at most for the two steps in which the other thread holds the mutex.\<close>

lemma stop_goes_on:
  assumes "mutex_ok s" and "\<not> joining s"
  shows "\<exists>k s1 s2. k \<le> 2 \<and> (maintain_step ^^ k) s s1 \<and> stop_step s1 s2"
proof (cases "stopper s = StopLock \<and> mutex s \<noteq> None")
  case False
  then obtain s2 where "stop_step s s2" using assms(2) stopper_moves [of s] by (auto simp: joining_def)
  then have "(0::nat) \<le> 2 \<and> (maintain_step ^^ 0) s s \<and> stop_step s s2" by simp
  then show ?thesis by blast
next
  case True
  then have m: "maintainer s = Restart \<or> maintainer s = RestartUnlock"
    using assms(1) by (cases "mutex s"; cases "the (mutex s)") (auto simp: mutex_ok_def stop_owns_def)
  have unlock: "\<exists>s1 s2. maintain_step u s1 \<and> stop_step s1 s2" if "maintainer u = RestartUnlock" "stopper u = StopLock" for u
    using maintain_step.unlock_restart [OF that(1)] stop_step.lock [of "u\<lparr>maintainer := MaintainRest, mutex := None\<rparr>"] that(2) by auto
  from m show ?thesis
  proof
    assume "maintainer s = RestartUnlock"
    then obtain s1 s2 where "(maintain_step ^^ 1) s s1" "stop_step s1 s2" using unlock [of s] True by auto
    then show ?thesis by (meson one_le_numeral)
  next
    assume r: "maintainer s = Restart"
    define u where "u = s\<lparr>maintainer := RestartUnlock, listener_is_closed := (if server_running s then False else listener_is_closed s)\<rparr>"
    have "maintain_step s u" using maintain_step.restart [OF r, of True] unfolding u_def not_True_eq_False .
    moreover obtain s1 s2 where "maintain_step u s1" "stop_step s1 s2" using unlock [of u] True by (auto simp: u_def)
    ultimately have "(maintain_step ^^ 2) s s1 \<and> stop_step s1 s2" by (auto simp: numeral_2_eq_2)
    then show ?thesis by blast
  qed
qed

text \<open>
  C19. A server that has been told to stop finishes or deadlocks. Until \<^verbatim>\<open>Stop\<close> joins the maintenance thread it can always go on, at
  once or after at most two steps in which that thread gives the mutex back; from the join on, every run of the two threads ends within
  eight steps; and where neither can go on, either \<^verbatim>\<open>Stop\<close> has returned and the thread has exited, or \<^verbatim>\<open>Stop\<close> joins the
  maintenance thread while that thread waits, in \<^verbatim>\<open>ReStartListen\<close>, for the mutex that \<^verbatim>\<open>Stop\<close> holds.
\<close>

theorem stop_ends_or_deadlocks:
  assumes "stopping_reach s" and "stopper s \<noteq> BeforeStop"
  shows "(\<not> joining s \<longrightarrow> (\<exists>k s1 s2. k \<le> 2 \<and> (maintain_step ^^ k) s s1 \<and> stop_step s1 s2)) \<and>
    (\<forall>n s'. joining s \<and> (stopping_step ^^ n) s s' \<longrightarrow> n \<le> 8) \<and>
    ((\<nexists>s'. stopping_step s s') \<longrightarrow> stopper s = Stopped \<and> maintainer s = ThreadExited \<or> deadlocked s)"
proof (intro conjI allI impI)
  assume "\<not> joining s"
  then show "\<exists>k s1 s2. k \<le> 2 \<and> (maintain_step ^^ k) s s1 \<and> stop_step s1 s2"
    by (rule stop_goes_on [OF stopping_reach_mutex [OF assms(1)]])
next
  fix n s' assume "joining s \<and> (stopping_step ^^ n) s s'"
  then show "n \<le> 8" using joining_run [of n s s'] assms(1) work_left_bound [of "stopper s" "maintainer s"] by fastforce
next
  assume "\<nexists>s'. stopping_step s s'"
  then show "stopper s = Stopped \<and> maintainer s = ThreadExited \<or> deadlocked s" by (rule stop_stuck_only_by_deadlock [OF assms(1)])
qed

theorem stop_ends_or_deadlocks_witness:
  "(\<exists>k s1 s2. k \<le> 2 \<and> (maintain_step ^^ k) (started\<lparr>stopper := StopLock\<rparr>) s1 \<and> stop_step s1 s2) \<and>
   joining deadlock_state \<and> deadlocked deadlock_state"
proof -
  have r: "stopping_reach (started\<lparr>stopper := StopLock\<rparr>)"
    using reach_stop [OF stopping_reach.init stop_step.call_stop] by (simp add: started_def)
  have "\<exists>k s1 s2. k \<le> 2 \<and> (maintain_step ^^ k) (started\<lparr>stopper := StopLock\<rparr>) s1 \<and> stop_step s1 s2"
    using stop_ends_or_deadlocks [OF r] by (simp add: joining_def)
  moreover have "stopper deadlock_state \<noteq> BeforeStop" "joining deadlock_state" "stopper deadlock_state \<noteq> Stopped"
    by (simp_all add: deadlock_state_def joining_def)
  ultimately show ?thesis using stop_ends_or_deadlocks [OF deadlock_reached] deadlock_stuck by blast
qed

end
