(* ===== verification/Await_State.thy ===== *)
theory Await_State
  imports Gb_Prelude
begin

text \<open>
  Waiting for a result in a coroutine: \<^verbatim>\<open>RpcAwaitState\<close> and \<^verbatim>\<open>RpcCallAwaiter\<close>
  (\<^verbatim>\<open>src/network/rpc/rpc_coro.h\<close>), \<^verbatim>\<open>ThreadPoolAwaitState\<close> and \<^verbatim>\<open>ThreadPoolAwaiter\<close>
  (\<^verbatim>\<open>src/async/thread_pool_scheduler.h\<close>); \<^verbatim>\<open>HttpAwaitState\<close> (\<^verbatim>\<open>src/network/http/http_coro.h\<close>) has the same
  protocol with a response and an error code as its result. A step is one access to an atomic flag. The
  coroutine's worker runs \<^verbatim>\<open>await_suspend\<close>, and any number of threads may call \<^verbatim>\<open>Complete\<close>. The theorems: a
  completed wait is never forgotten; when the completion runs on the worker itself the coroutine goes on exactly once;
  when it runs on another thread it may be resumed a second time.
\<close>

section \<open>The shared state\<close>

record 'v await_state =
  result :: "'v option"
  suspend_finished :: bool
  completed :: bool

definition RpcAwaitState :: "'v await_state" where
  "RpcAwaitState = \<lparr>result = None, suspend_finished = False, completed = False\<rparr>"

definition emplace :: "'v \<Rightarrow> 'v await_state \<Rightarrow> 'v await_state" where
  "emplace v s = s\<lparr>result := Some v\<rparr>"

text \<open>\<^verbatim>\<open>completed_.exchange(true)\<close>: the old value and the new state.\<close>

definition exchange_completed :: "'v await_state \<Rightarrow> bool \<times> 'v await_state" where
  "exchange_completed s = (completed s, s\<lparr>completed := True\<rparr>)"

text \<open>
  \<^verbatim>\<open>TakeResult\<close> moves the value out: a second call finds what the move has left (\<open>mv v\<close>); without a result it gives
  the value \<open>d\<close> of \<^verbatim>\<open>T{}\<close>.
\<close>

definition TakeResult :: "('v \<Rightarrow> 'v) \<Rightarrow> 'v \<Rightarrow> 'v await_state \<Rightarrow> 'v \<times> 'v await_state" where
  "TakeResult mv d s = (case result s of Some v \<Rightarrow> (v, s\<lparr>result := Some (mv v)\<rparr>) | None \<Rightarrow> (d, s))"

text \<open>
  For the thread pool the stored value is what the task returned or threw; \<^verbatim>\<open>TakeResult\<close> then throws the exception
  again.
\<close>

datatype ('v, 'e) task_result = Value 'v | Thrown 'e

definition ExecuteOnPool :: "(unit \<Rightarrow> ('v, 'e) task_result) \<Rightarrow> ('v, 'e) task_result await_state \<Rightarrow>
    ('v, 'e) task_result await_state" where
  "ExecuteOnPool task s = emplace (task ()) s"

definition rethrow :: "('v, 'e) task_result \<Rightarrow> 'e + 'v" where
  "rethrow r = (case r of Value v \<Rightarrow> Inr v | Thrown e \<Rightarrow> Inl e)"

text \<open>
  \<^verbatim>\<open>ThreadPoolAwaiter::await_suspend\<close> outside of a worker thread runs the task at once and does not suspend.
\<close>

definition pool_await_inline :: "('e + 'v) \<Rightarrow> (unit \<Rightarrow> ('v, 'e) task_result) \<Rightarrow> 'e + 'v" where
  "pool_await_inline d task =
     (case result (snd (exchange_completed (ExecuteOnPool task RpcAwaitState))) of
        None \<Rightarrow> d
      | Some r \<Rightarrow> rethrow r)"

section \<open>The threads\<close>

datatype await_pc =
    Binding        \<comment> \<open>before \<^verbatim>\<open>Bind\<close>: nobody else knows the state yet\<close>
  | Storing        \<comment> \<open>\<^verbatim>\<open>binder_\<close> runs or has run; next, \<^verbatim>\<open>suspend_finished_.store(true)\<close>\<close>
  | Loading        \<comment> \<open>\<^verbatim>\<open>completed_.load()\<close>\<close>
  | Suspended
  | Continued

datatype 'v complete_pc =
    Absent
  | Emplace 'v
  | Exchange
  | LoadSuspend    \<comment> \<open>\<^verbatim>\<open>suspend_finished_.load()\<close>\<close>
  | Schedule       \<comment> \<open>\<^verbatim>\<open>executor_.schedule(...)\<close>, \<^verbatim>\<open>w->Post(...)\<close>\<close>
  | Returned

text \<open>
  \<open>winner\<close> is the completer whose exchange came first; the last fields record what became of the
  coroutine: resumptions queued at the worker and refused by it (a worker that is shutting down refuses them), how often
  the coroutine went on by itself and by a queued resumption, and the results it saw.
\<close>

record 'v awaiting =
  ast :: "'v await_state"
  apc :: await_pc
  cpc :: "nat \<Rightarrow> 'v complete_pc"
  winner :: "nat option"
  given :: "'v set"
  posted :: nat
  refused :: nat
  direct :: nat
  by_post :: nat
  taken :: "'v list"

definition await_init :: "'v awaiting" where
  "await_init = \<lparr>ast = RpcAwaitState, apc = Binding, cpc = (\<lambda>_. Absent), winner = None, given = {}, posted = 0, refused = 0,
     direct = 0, by_post = 0, taken = []\<rparr>"

abbreviation resumes :: "'v awaiting \<Rightarrow> nat" where
  "resumes s \<equiv> direct s + by_post s"

text \<open>\<^verbatim>\<open>await_resume\<close>.\<close>

definition go_on :: "('v \<Rightarrow> 'v) \<Rightarrow> 'v \<Rightarrow> 'v awaiting \<Rightarrow> 'v awaiting" where
  "go_on mv d s = (let (v, a) = TakeResult mv d (ast s) in s\<lparr>ast := a, apc := Continued, taken := taken s @ [v]\<rparr>)"

fun run_awaiter :: "('v \<Rightarrow> 'v) \<Rightarrow> 'v \<Rightarrow> await_pc \<Rightarrow> 'v awaiting \<Rightarrow> 'v awaiting" where
  "run_awaiter mv d Binding s = s\<lparr>apc := Storing\<rparr>"
| "run_awaiter mv d Storing s = s\<lparr>apc := Loading, ast := (ast s)\<lparr>suspend_finished := True\<rparr>\<rparr>"
| "run_awaiter mv d Loading s =
     (if completed (ast s) then go_on mv d (s\<lparr>direct := direct s + 1\<rparr>) else s\<lparr>apc := Suspended\<rparr>)"
| "run_awaiter mv d Suspended s = s"
| "run_awaiter mv d Continued s = s"

definition at_pc :: "nat \<Rightarrow> 'v complete_pc \<Rightarrow> 'v awaiting \<Rightarrow> 'v awaiting" where
  "at_pc i p s = s\<lparr>cpc := (cpc s)(i := p)\<rparr>"

text \<open>\<^verbatim>\<open>Complete\<close> and \<^verbatim>\<open>NotifyCompleted\<close>; \<open>ok\<close> says whether the worker accepts the resumption.\<close>

fun run_completer :: "bool \<Rightarrow> nat \<Rightarrow> 'v complete_pc \<Rightarrow> 'v awaiting \<Rightarrow> 'v awaiting" where
  "run_completer ok i Absent s = s"
| "run_completer ok i (Emplace v) s = at_pc i Exchange (s\<lparr>ast := emplace v (ast s)\<rparr>)"
| "run_completer ok i Exchange s =
     (let (old, a) = exchange_completed (ast s)
      in if old then at_pc i Returned (s\<lparr>ast := a\<rparr>) else at_pc i LoadSuspend (s\<lparr>ast := a, winner := Some i\<rparr>))"
| "run_completer ok i LoadSuspend s = at_pc i (if suspend_finished (ast s) then Schedule else Returned) s"
| "run_completer ok i Schedule s =
     at_pc i Returned (if ok then s\<lparr>posted := posted s + 1\<rparr> else s\<lparr>refused := refused s + 1\<rparr>)"
| "run_completer ok i Returned s = s"

text \<open>
  Every interleaving: the awaiter's thread, calls of \<^verbatim>\<open>Complete\<close> on other threads from the moment the state is bound,
  and the worker running a queued resumption, which it can do only after it has left \<^verbatim>\<open>await_suspend\<close>.
\<close>

inductive await_step :: "('v \<Rightarrow> 'v) \<Rightarrow> 'v \<Rightarrow> 'v awaiting \<Rightarrow> 'v awaiting \<Rightarrow> bool" for mv d where
  awaiter: "apc s \<in> {Binding, Storing, Loading} \<Longrightarrow> await_step mv d s (run_awaiter mv d (apc s) s)"
| call: "apc s \<noteq> Binding \<Longrightarrow> cpc s i = Absent \<Longrightarrow>
    await_step mv d s (at_pc i (Emplace v) (s\<lparr>given := insert v (given s)\<rparr>))"
| completer: "cpc s i \<notin> {Absent, Returned} \<Longrightarrow> await_step mv d s (run_completer ok i (cpc s i) s)"
| resume: "apc s \<in> {Suspended, Continued} \<Longrightarrow> posted s > 0 \<Longrightarrow>
    await_step mv d s (go_on mv d (s\<lparr>posted := posted s - 1, by_post := by_post s + 1\<rparr>))"

inductive await_reach :: "('v \<Rightarrow> 'v) \<Rightarrow> 'v \<Rightarrow> 'v awaiting \<Rightarrow> bool" for mv d where
  init: "await_reach mv d await_init"
| step: "await_reach mv d s \<Longrightarrow> await_step mv d s s' \<Longrightarrow> await_reach mv d s'"

text \<open>
  When \<^verbatim>\<open>Complete\<close> runs on the worker's own thread it runs as a whole: inside \<^verbatim>\<open>binder_\<close>, or as a task of the worker
  once \<^verbatim>\<open>await_suspend\<close> is over, and then \<^verbatim>\<open>schedule\<close> resumes the coroutine at once (\<^verbatim>\<open>IsCurrent()\<close>).
\<close>

definition complete_here :: "('v \<Rightarrow> 'v) \<Rightarrow> 'v \<Rightarrow> 'v \<Rightarrow> 'v awaiting \<Rightarrow> 'v awaiting" where
  "complete_here mv d v s =
     (let (old, a) = exchange_completed (emplace v (ast s));
          s1 = s\<lparr>ast := a, given := insert v (given s)\<rparr>
      in if old then s1
         else if suspend_finished a then go_on mv d (s1\<lparr>by_post := by_post s1 + 1\<rparr>)
         else s1)"

inductive local_step :: "('v \<Rightarrow> 'v) \<Rightarrow> 'v \<Rightarrow> 'v awaiting \<Rightarrow> 'v awaiting \<Rightarrow> bool" for mv d where
  awaiter: "apc s \<in> {Binding, Storing, Loading} \<Longrightarrow> local_step mv d s (run_awaiter mv d (apc s) s)"
| complete: "apc s \<in> {Storing, Suspended, Continued} \<Longrightarrow> local_step mv d s (complete_here mv d v s)"

inductive local_reach :: "('v \<Rightarrow> 'v) \<Rightarrow> 'v \<Rightarrow> 'v awaiting \<Rightarrow> bool" for mv d where
  init: "local_reach mv d await_init"
| step: "local_reach mv d s \<Longrightarrow> local_step mv d s s' \<Longrightarrow> local_reach mv d s'"

section \<open>What always holds\<close>

text \<open>How far the winner has come.\<close>

definition phase :: "'v awaiting \<Rightarrow> 'v complete_pc" where
  "phase s = (case winner s of None \<Rightarrow> Absent | Some i \<Rightarrow> cpc s i)"

definition only_winner :: "'v awaiting \<Rightarrow> bool" where
  "only_winner s \<longleftrightarrow> (\<forall>i. cpc s i = LoadSuspend \<or> cpc s i = Schedule \<longrightarrow> winner s = Some i)"

definition flags_inv :: "'v awaiting \<Rightarrow> bool" where
  "flags_inv s \<longleftrightarrow>
     (completed (ast s) \<longleftrightarrow> winner s \<noteq> None) \<and>
     (suspend_finished (ast s) \<longleftrightarrow> apc s = Loading \<or> apc s = Suspended \<or> apc s = Continued) \<and>
     (winner s \<noteq> None \<longrightarrow> phase s = LoadSuspend \<or> phase s = Schedule \<or> phase s = Returned) \<and>
     (phase s = Schedule \<longrightarrow> apc s = Loading \<or> apc s = Suspended \<or> apc s = Continued)"

text \<open>A resumption is handed out at most once, and only by the winner.\<close>

definition resume_inv :: "'v awaiting \<Rightarrow> bool" where
  "resume_inv s \<longleftrightarrow>
     (apc s \<noteq> Continued \<longrightarrow> direct s = 0 \<and> by_post s = 0) \<and> direct s \<le> 1 \<and> posted s + refused s + by_post s \<le> 1 \<and>
     (apc s = Continued \<longrightarrow> direct s + by_post s > 0) \<and>
     (phase s \<noteq> Returned \<longrightarrow> posted s = 0 \<and> refused s = 0 \<and> by_post s = 0) \<and>
     (apc s = Suspended \<and> phase s = Returned \<longrightarrow> posted s + refused s > 0)"

definition result_inv :: "'v awaiting \<Rightarrow> bool" where
  "result_inv s \<longleftrightarrow>
     (completed (ast s) \<longrightarrow> result (ast s) \<noteq> None) \<and> (\<forall>i. cpc s i = Exchange \<longrightarrow> result (ast s) \<noteq> None) \<and>
     (\<forall>i. cpc s i = Returned \<longrightarrow> completed (ast s)) \<and>
     (\<forall>i v. cpc s i = Emplace v \<longrightarrow> v \<in> given s) \<and> length (taken s) = direct s + by_post s \<and>
     (taken s = [] \<longrightarrow> set_option (result (ast s)) \<subseteq> given s) \<and> (taken s \<noteq> [] \<longrightarrow> hd (taken s) \<in> given s)"

definition await_inv :: "'v awaiting \<Rightarrow> bool" where
  "await_inv s \<longleftrightarrow> only_winner s \<and> flags_inv s \<and> resume_inv s \<and> result_inv s"

lemma phase_at_pc: "phase (at_pc i p s) = (if winner s = Some i then p else phase s)"
  by (simp add: phase_def at_pc_def split: option.splits)

lemma at_pc_simps [simp]:
  "ast (at_pc i p s) = ast s" "apc (at_pc i p s) = apc s" "cpc (at_pc i p s) = (cpc s)(i := p)"
  "winner (at_pc i p s) = winner s" "given (at_pc i p s) = given s" "posted (at_pc i p s) = posted s"
  "refused (at_pc i p s) = refused s" "direct (at_pc i p s) = direct s" "by_post (at_pc i p s) = by_post s"
  "taken (at_pc i p s) = taken s"
  by (simp_all add: at_pc_def)

lemma phase_frame [simp]:
  "phase (s\<lparr>ast := a\<rparr>) = phase s" "phase (s\<lparr>apc := p\<rparr>) = phase s" "phase (s\<lparr>given := g\<rparr>) = phase s"
  "phase (s\<lparr>posted := n\<rparr>) = phase s" "phase (s\<lparr>refused := n\<rparr>) = phase s" "phase (s\<lparr>direct := n\<rparr>) = phase s"
  "phase (s\<lparr>by_post := n\<rparr>) = phase s" "phase (s\<lparr>taken := t\<rparr>) = phase s"
  by (simp_all add: phase_def split: option.splits)

lemma go_on_simps [simp]:
  "apc (go_on mv d s) = Continued" "cpc (go_on mv d s) = cpc s" "winner (go_on mv d s) = winner s" "given (go_on mv d s) = given s"
  "posted (go_on mv d s) = posted s" "refused (go_on mv d s) = refused s" "direct (go_on mv d s) = direct s"
  "by_post (go_on mv d s) = by_post s" "completed (ast (go_on mv d s)) = completed (ast s)"
  "suspend_finished (ast (go_on mv d s)) = suspend_finished (ast s)" "phase (go_on mv d s) = phase s"
  "length (taken (go_on mv d s)) = Suc (length (taken s))"
  "(result (ast (go_on mv d s)) = None) = (result (ast s) = None)"
  by (simp_all add: go_on_def TakeResult_def phase_def split: option.splits prod.splits)

lemma go_on_taken:
  "result (ast s) \<noteq> None \<Longrightarrow> (taken s = [] \<longrightarrow> set_option (result (ast s)) \<subseteq> g) \<Longrightarrow> (taken s \<noteq> [] \<longrightarrow> hd (taken s) \<in> g) \<Longrightarrow>
     taken (go_on mv d s) \<noteq> [] \<and> hd (taken (go_on mv d s)) \<in> g"
  by (cases "taken s") (auto simp: go_on_def TakeResult_def)

text \<open>Where the winner stands when completer \<open>i\<close> is the one that moves.\<close>

lemma phase_of_mover:
  assumes "only_winner s" "flags_inv s"
  shows "cpc s i = LoadSuspend \<Longrightarrow> winner s = Some i \<and> phase s = LoadSuspend"
    and "cpc s i = Schedule \<Longrightarrow> winner s = Some i \<and> phase s = Schedule"
    and "cpc s i = Emplace v \<Longrightarrow> winner s \<noteq> Some i"
    and "cpc s i = Exchange \<Longrightarrow> winner s \<noteq> Some i"
    and "cpc s i = Absent \<Longrightarrow> winner s \<noteq> Some i"
  using assms unfolding only_winner_def flags_inv_def phase_def by (force split: option.splits)+

lemma await_init_inv: "await_inv await_init"
  by (simp add: await_inv_def only_winner_def flags_inv_def resume_inv_def result_inv_def await_init_def RpcAwaitState_def phase_def)

text \<open>The coroutine goes on: once by itself, or with a resumption that was posted.\<close>

lemma go_on_result:
  assumes "result_inv s" and "completed (ast s)" and "taken s' = taken s" "ast s' = ast s" "cpc s' = cpc s" "given s' = given s"
    and "direct s' + by_post s' = Suc (direct s + by_post s)"
  shows "result_inv (go_on mv d s')"
proof -
  have "taken (go_on mv d s') \<noteq> [] \<and> hd (taken (go_on mv d s')) \<in> given s"
    by (rule go_on_taken) (use assms in \<open>simp_all add: result_inv_def\<close>)
  then show ?thesis using assms by (simp add: result_inv_def)
qed

lemma run_awaiter_inv:
  assumes inv: "await_inv s" and pc: "apc s \<in> {Binding, Storing, Loading}"
  shows "await_inv (run_awaiter mv d (apc s) s)"
proof (cases "apc s")
  case Loading
  let ?s = "s\<lparr>direct := direct s + 1\<rparr>"
  have "await_inv (go_on mv d ?s)" if c: "completed (ast s)"
  proof -
    have "result_inv (go_on mv d ?s)" by (rule go_on_result [of s]) (use inv c in \<open>simp_all add: await_inv_def\<close>)
    then show ?thesis using inv Loading c by (simp add: await_inv_def only_winner_def flags_inv_def resume_inv_def)
  qed
  moreover have "await_inv (s\<lparr>apc := Suspended\<rparr>)" if "\<not> completed (ast s)"
  proof -
    have "winner s = None" using inv that by (simp add: await_inv_def flags_inv_def)
    then have "phase s = Absent" by (simp add: phase_def)
    then show ?thesis using inv Loading that by (simp add: await_inv_def only_winner_def flags_inv_def resume_inv_def result_inv_def) auto
  qed
  ultimately show ?thesis by (simp add: Loading)
next
  case Binding
  then show ?thesis using inv
    by (simp add: await_inv_def only_winner_def flags_inv_def resume_inv_def result_inv_def) blast
next
  case Storing
  then show ?thesis using inv
    by (simp add: await_inv_def only_winner_def flags_inv_def resume_inv_def result_inv_def) blast
qed (use pc in simp_all)

lemma run_completer_inv:
  assumes inv: "await_inv s" and pc: "cpc s i \<notin> {Absent, Returned}"
  shows "await_inv (run_completer ok i (cpc s i) s)"
proof -
  have f: "only_winner s" "flags_inv s" using inv by (simp_all add: await_inv_def)
  show ?thesis
  proof (cases "cpc s i")
    case (Emplace v)
    have "winner s \<noteq> Some i" by (rule phase_of_mover(3) [OF f Emplace])
    moreover have "v \<in> given s" using inv Emplace by (simp add: await_inv_def result_inv_def)
    moreover have "result_inv (at_pc i Exchange (s\<lparr>ast := emplace v (ast s)\<rparr>))"
      using inv \<open>v \<in> given s\<close> by (auto simp: await_inv_def result_inv_def emplace_def)
    ultimately show ?thesis using inv
      by (simp add: Emplace await_inv_def only_winner_def flags_inv_def resume_inv_def emplace_def phase_at_pc)
  next
    case Exchange
    have w: "winner s \<noteq> Some i" by (rule phase_of_mover(4) [OF f Exchange])
    show ?thesis
    proof (cases "completed (ast s)")
      case True
      then show ?thesis using inv w
        by (simp add: Exchange await_inv_def only_winner_def flags_inv_def resume_inv_def result_inv_def exchange_completed_def phase_at_pc)
    next
      case False
      then have n: "winner s = None" "phase s = Absent" using f by (auto simp: flags_inv_def phase_def)
      let ?s = "at_pc i LoadSuspend (s\<lparr>ast := (ast s)\<lparr>completed := True\<rparr>, winner := Some i\<rparr>)"
      have p: "phase ?s = LoadSuspend" by (simp add: phase_def)
      have "only_winner ?s" using f(1) n by (simp add: only_winner_def)
      moreover have "flags_inv ?s" using f(2) p by (simp add: flags_inv_def)
      moreover have "resume_inv ?s" using inv n p by (auto simp: await_inv_def resume_inv_def)
      moreover have "result_inv ?s" using inv Exchange unfolding await_inv_def result_inv_def by simp blast
      ultimately show ?thesis using False by (simp add: Exchange await_inv_def exchange_completed_def)
    qed
  next
    case LoadSuspend
    then have "winner s = Some i" "phase s = LoadSuspend" using phase_of_mover(1) [OF f] by auto
    then show ?thesis using inv
      by (auto simp add: LoadSuspend await_inv_def only_winner_def flags_inv_def resume_inv_def result_inv_def phase_at_pc)
  next
    case Schedule
    then have "winner s = Some i" "phase s = Schedule" using phase_of_mover(2) [OF f] by auto
    then show ?thesis using inv
      by (simp add: Schedule await_inv_def only_winner_def flags_inv_def resume_inv_def result_inv_def phase_at_pc) auto
  qed (use pc in simp_all)
qed

lemma new_call_inv:
  assumes inv: "await_inv s" and new: "cpc s i = Absent"
  shows "await_inv (at_pc i (Emplace v) (s\<lparr>given := insert v (given s)\<rparr>))"
proof -
  have f: "only_winner s" "flags_inv s" using inv by (simp_all add: await_inv_def)
  have w: "winner s \<noteq> Some i" by (rule phase_of_mover(5) [OF f new])
  have "result_inv (at_pc i (Emplace v) (s\<lparr>given := insert v (given s)\<rparr>))"
    using inv unfolding await_inv_def result_inv_def by simp blast
  then show ?thesis using inv w
    by (simp add: await_inv_def only_winner_def flags_inv_def resume_inv_def phase_at_pc)
qed

lemma posted_resume_inv:
  assumes inv: "await_inv s" and pc: "apc s \<in> {Suspended, Continued}" and n: "posted s > 0"
  shows "await_inv (go_on mv d (s\<lparr>posted := posted s - 1, by_post := by_post s + 1\<rparr>))"
proof -
  let ?s = "s\<lparr>posted := posted s - 1, by_post := by_post s + 1\<rparr>"
  have p: "phase s = Returned" using inv n by (auto simp: await_inv_def resume_inv_def)
  then have c: "completed (ast s)" using inv by (auto simp: await_inv_def flags_inv_def phase_def split: option.splits)
  have "result_inv (go_on mv d ?s)" by (rule go_on_result [of s]) (use inv c in \<open>simp_all add: await_inv_def\<close>)
  moreover have "direct s \<le> 1 \<and> posted s + refused s + by_post s \<le> 1" using inv by (simp add: await_inv_def resume_inv_def)
  moreover have "suspend_finished (ast s)" using inv pc by (auto simp: await_inv_def flags_inv_def)
  ultimately show ?thesis using inv n p c
    by (simp add: await_inv_def only_winner_def flags_inv_def resume_inv_def)
qed

lemma await_step_inv:
  assumes "await_step mv d s s'" and inv: "await_inv s"
  shows "await_inv s'"
  using assms(1)
proof cases
  case awaiter
  then show ?thesis using run_awaiter_inv [OF inv] by simp
next
  case (call i v)
  then show ?thesis using new_call_inv [OF inv] by simp
next
  case (completer i ok)
  then show ?thesis using run_completer_inv [OF inv] by simp
next
  case resume
  then show ?thesis using posted_resume_inv [OF inv] by simp
qed

lemma await_reach_inv: "await_reach mv d s \<Longrightarrow> await_inv s"
  by (induction rule: await_reach.induct) (auto intro: await_init_inv await_step_inv)

section \<open>A completed wait is not forgotten\<close>

text \<open>Some \<^verbatim>\<open>Complete\<close> is still on its way.\<close>

definition completing :: "'v awaiting \<Rightarrow> bool" where
  "completing s \<longleftrightarrow> (\<exists>i. cpc s i \<noteq> Absent \<and> cpc s i \<noteq> Returned)"

text \<open>
  Whatever the interleaving of a coroutine that waits and of the calls of \<^verbatim>\<open>Complete\<close>: once some call has returned and none
  is under way, a coroutine that is suspended has had exactly one resumption handed to its worker, which has queued it or, when it is
  stopping, refused it (then the coroutine stays suspended); one that has gone on saw first a value that was passed to \<^verbatim>\<open>Complete\<close>;
  and resumptions run and queued together are at most two.
\<close>

theorem await_not_forgotten:
  assumes "await_reach mv d s" and "cpc s i = Returned" and "\<not> completing s"
  shows "(apc s = Suspended \<longrightarrow> posted s + refused s = 1) \<and> (apc s = Continued \<longrightarrow> resumes s > 0 \<and> hd (taken s) \<in> given s) \<and>
     resumes s + posted s \<le> 2"
proof -
  have inv: "await_inv s" by (rule await_reach_inv [OF assms(1)])
  have "completed (ast s)" using inv assms(2) unfolding await_inv_def result_inv_def by blast
  then obtain w where w: "winner s = Some w" using inv by (auto simp: await_inv_def flags_inv_def)
  then have "phase s = cpc s w" "phase s \<noteq> Absent" using inv by (auto simp: await_inv_def flags_inv_def phase_def)
  then have p: "phase s = Returned" using assms(3) by (auto simp: completing_def)
  have r: "resume_inv s" using inv by (simp add: await_inv_def)
  have "apc s = Continued \<Longrightarrow> hd (taken s) \<in> given s"
    using inv by (cases "taken s") (auto simp: await_inv_def result_inv_def resume_inv_def)
  then show ?thesis using r p by (auto simp: resume_inv_def)
qed

section \<open>Completions on the worker's own thread\<close>

definition local_inv :: "'v awaiting \<Rightarrow> bool" where
  "local_inv s \<longleftrightarrow>
     (suspend_finished (ast s) \<longleftrightarrow> apc s = Loading \<or> apc s = Suspended \<or> apc s = Continued) \<and>
     (apc s = Suspended \<longrightarrow> \<not> completed (ast s)) \<and> (apc s = Binding \<longrightarrow> \<not> completed (ast s)) \<and>
     (completed (ast s) \<longrightarrow> result (ast s) \<noteq> None) \<and>
     (if apc s = Continued then completed (ast s) \<and> resumes s = 1 \<and> (\<exists>v \<in> given s. taken s = [v])
      else resumes s = 0 \<and> taken s = [] \<and> set_option (result (ast s)) \<subseteq> given s)"

lemma go_on_local:
  assumes "suspend_finished (ast s)" "completed (ast s)" "taken s = []" "resumes s = 1" "result (ast s) \<noteq> None"
    and "set_option (result (ast s)) \<subseteq> given s"
  shows "local_inv (go_on mv d s)"
  using assms by (auto simp: local_inv_def go_on_def TakeResult_def)

lemma complete_here_inv:
  assumes inv: "local_inv s" and pc: "apc s \<in> {Storing, Suspended, Continued}"
  shows "local_inv (complete_here mv d v s)"
proof (cases "completed (ast s)")
  case True
  then show ?thesis using inv by (auto simp: local_inv_def complete_here_def exchange_completed_def emplace_def split: if_splits)
next
  case False
  then have n: "apc s = Storing \<or> apc s = Suspended" "resumes s = 0" "taken s = []" using inv pc by (auto simp: local_inv_def)
  show ?thesis
  proof (cases "apc s = Suspended")
    case True
    then have sf: "suspend_finished (ast s)" using inv by (simp add: local_inv_def)
    have "complete_here mv d v s = go_on mv d (s\<lparr>ast := (ast s)\<lparr>result := Some v, completed := True\<rparr>,
        given := insert v (given s), by_post := by_post s + 1\<rparr>)"
      using False sf by (simp add: complete_here_def exchange_completed_def emplace_def)
    then show ?thesis using go_on_local [of "s\<lparr>ast := (ast s)\<lparr>result := Some v, completed := True\<rparr>,
        given := insert v (given s), by_post := by_post s + 1\<rparr>"] n sf by simp
  next
    case False2: False
    then show ?thesis using inv n False
      by (simp add: local_inv_def complete_here_def exchange_completed_def emplace_def)
  qed
qed

lemma local_reach_inv: "local_reach mv d s \<Longrightarrow> local_inv s"
proof (induction rule: local_reach.induct)
  case init
  then show ?case by (simp add: local_inv_def await_init_def RpcAwaitState_def)
next
  case (step s s')
  from step(2) show ?case
  proof cases
    case awaiter
    then consider "apc s = Binding" | "apc s = Storing" | "apc s = Loading" by auto
    then show ?thesis
    proof cases
      case 3
      have "local_inv (go_on mv d (s\<lparr>direct := direct s + 1\<rparr>))" if "completed (ast s)"
        by (rule go_on_local) (use step.IH 3 that in \<open>simp_all add: local_inv_def\<close>)
      moreover have "local_inv (s\<lparr>apc := Suspended\<rparr>)" if "\<not> completed (ast s)"
        using step.IH 3 that by (simp add: local_inv_def)
      ultimately show ?thesis using awaiter 3 by simp
    qed (use awaiter step.IH in \<open>simp_all add: local_inv_def\<close>)
  next
    case (complete v)
    then show ?thesis using complete_here_inv [OF step.IH] by simp
  qed
qed

text \<open>
  When every \<^verbatim>\<open>Complete\<close> runs on the worker that waits (a response or a posted timeout of an RPC), the coroutine goes on
  exactly once, with a value that was passed to \<^verbatim>\<open>Complete\<close>, as soon as there has been a completion and \<^verbatim>\<open>await_suspend\<close>
  is over.
\<close>

theorem local_completion_resumes_once:
  assumes "local_reach mv d s" and "apc s = Suspended \<or> apc s = Continued"
  shows "if completed (ast s) then apc s = Continued \<and> resumes s = 1 \<and> (\<exists>v. v \<in> given s \<and> taken s = [v])
     else apc s = Suspended \<and> resumes s = 0 \<and> taken s = []"
  using local_reach_inv [OF assms(1)] assms(2) by (auto simp: local_inv_def)

section \<open>The second resumption\<close>

text \<open>
  The completer exchanges its flag, the awaiter then stores and loads the two flags and goes on, and the completer,
  which now sees that the suspension is over, posts a resumption of a coroutine that is already running.
\<close>

definition twice :: "'v \<Rightarrow> 'v option \<Rightarrow> bool \<Rightarrow> bool \<Rightarrow> await_pc \<Rightarrow> 'v complete_pc \<Rightarrow> nat \<Rightarrow> nat \<Rightarrow> nat \<Rightarrow> 'v list \<Rightarrow> 'v awaiting" where
  "twice v r sf c p q n dr bp tk = \<lparr>ast = \<lparr>result = r, suspend_finished = sf, completed = c\<rparr>, apc = p,
     cpc = (\<lambda>_. Absent)(0 := q), winner = (if c then Some 0 else None), given = (if q = Absent then {} else {v}), posted = n,
     refused = 0, direct = dr, by_post = bp, taken = tk\<rparr>"

lemma twice_run:
  "await_init = twice v None False False Binding Absent 0 0 0 []"
  "run_awaiter id v Binding (twice v None False False Binding Absent 0 0 0 []) = twice v None False False Storing Absent 0 0 0 []"
  "at_pc 0 (Emplace v) (twice v None False False Storing Absent 0 0 0 []
     \<lparr>given := insert v (given (twice v None False False Storing Absent 0 0 0 []))\<rparr>) =
     twice v None False False Storing (Emplace v) 0 0 0 []"
  "run_completer True 0 (Emplace v) (twice v None False False Storing (Emplace v) 0 0 0 []) =
     twice v (Some v) False False Storing Exchange 0 0 0 []"
  "run_completer True 0 Exchange (twice v (Some v) False False Storing Exchange 0 0 0 []) =
     twice v (Some v) False True Storing LoadSuspend 0 0 0 []"
  "run_awaiter id v Storing (twice v (Some v) False True Storing LoadSuspend 0 0 0 []) =
     twice v (Some v) True True Loading LoadSuspend 0 0 0 []"
  "run_awaiter id v Loading (twice v (Some v) True True Loading LoadSuspend 0 0 0 []) =
     twice v (Some v) True True Continued LoadSuspend 0 1 0 [v]"
  "run_completer True 0 LoadSuspend (twice v (Some v) True True Continued LoadSuspend 0 1 0 [v]) =
     twice v (Some v) True True Continued Schedule 0 1 0 [v]"
  "run_completer True 0 Schedule (twice v (Some v) True True Continued Schedule 0 1 0 [v]) =
     twice v (Some v) True True Continued Returned 1 1 0 [v]"
  "go_on id v (twice v (Some v) True True Continued Returned 1 1 0 [v]\<lparr>posted := 0, by_post := 1\<rparr>) =
     twice v (Some v) True True Continued Returned 0 1 1 [v, v]"
  by (simp_all add: twice_def await_init_def RpcAwaitState_def at_pc_def emplace_def exchange_completed_def go_on_def TakeResult_def
      fun_eq_iff)

lemma twice_sel:
  "apc (twice v r sf c p q n dr bp tk) = p" "cpc (twice v r sf c p q n dr bp tk) = (\<lambda>_. Absent)(0 := q)"
  "posted (twice v r sf c p q n dr bp tk) = n" "direct (twice v r sf c p q n dr bp tk) = dr"
  "by_post (twice v r sf c p q n dr bp tk) = bp"
  by (simp_all add: twice_def)

lemma twice_reach: "await_reach id v (twice v (Some v) True True Continued Returned 0 1 1 [v, v])"
proof -
  note st = await_reach.step [of id v]
  have a: "await_reach id v (run_awaiter id v (apc s) s)" if "await_reach id v s" "apc s \<in> {Binding, Storing, Loading}" for s
    by (rule st [OF that(1) await_step.awaiter [OF that(2)]])
  have c: "await_reach id v (run_completer True 0 (cpc s 0) s)" if "await_reach id v s" "cpc s 0 \<notin> {Absent, Returned}" for s
    by (rule st [OF that(1) await_step.completer [OF that(2)]])
  have 1: "await_reach id v (twice v None False False Storing Absent 0 0 0 [])"
    using a [OF await_reach.init] by (simp only: twice_run(1) [of v] twice_run(2) twice_sel) simp
  have "await_reach id v (twice v None False False Storing (Emplace v) 0 0 0 [])"
    using st [OF 1 await_step.call [of _ 0 id v v]] by (simp only: twice_run(3) twice_sel fun_upd_same) simp
  from c [OF this] have "await_reach id v (twice v (Some v) False False Storing Exchange 0 0 0 [])"
    by (simp only: twice_run(4) twice_sel fun_upd_same) simp
  from c [OF this] have "await_reach id v (twice v (Some v) False True Storing LoadSuspend 0 0 0 [])"
    by (simp only: twice_run(5) twice_sel fun_upd_same) simp
  from a [OF this] have "await_reach id v (twice v (Some v) True True Loading LoadSuspend 0 0 0 [])"
    by (simp only: twice_run(6) twice_sel) simp
  from a [OF this] have "await_reach id v (twice v (Some v) True True Continued LoadSuspend 0 1 0 [v])"
    by (simp only: twice_run(7) twice_sel) simp
  from c [OF this] have "await_reach id v (twice v (Some v) True True Continued Schedule 0 1 0 [v])"
    by (simp only: twice_run(8) twice_sel fun_upd_same) simp
  from c [OF this] have 2: "await_reach id v (twice v (Some v) True True Continued Returned 1 1 0 [v])"
    by (simp only: twice_run(9) twice_sel fun_upd_same) simp
  have "await_reach id v (go_on id v (twice v (Some v) True True Continued Returned 1 1 0 [v]\<lparr>posted := 1 - 1, by_post := 0 + 1\<rparr>))"
    using st [OF 2 await_step.resume [of _ id v]] by (simp only: twice_sel) simp
  then show ?thesis by (simp only: diff_self_eq_0 add_0 twice_run(10))
qed

lemma twice_end:
  "\<forall>i. i = 0 \<or> cpc (twice v (Some v) True True Continued Returned 0 1 1 [v, v]) i = Absent"
  "resumes (twice v (Some v) True True Continued Returned 0 1 1 [v, v]) = 2"
  by (simp only: twice_sel, simp) (simp add: twice_sel)

text \<open>
  A completion on another thread (every task of the thread pool, a cancelled RPC) can resume the coroutine twice: some
  interleaving of one waiting coroutine and a single \<^verbatim>\<open>Complete\<close> runs its continuation two times.
\<close>

theorem coroutine_resumed_twice:
  "\<exists>s. await_reach id v s \<and> (\<forall>i. i = 0 \<or> cpc s i = Absent) \<and> resumes s = 2"
  using twice_reach [of v] twice_end [of v] by blast

theorem await_not_forgotten_witness:
  "hd (taken (twice (7::nat) (Some 7) True True Continued Returned 0 1 1 [7, 7])) \<in>
     given (twice (7::nat) (Some 7) True True Continued Returned 0 1 1 [7, 7])"
  using await_not_forgotten [OF twice_reach, of "7::nat" 0]
  unfolding completing_def twice_sel by simp

lemma local_waits: "local_reach id v (twice v None True False Suspended Absent 0 0 0 [])"
proof -
  have a: "local_reach id v (run_awaiter id v (apc s) s)" if "local_reach id v s" "apc s \<in> {Binding, Storing, Loading}" for s
    by (rule local_reach.step [OF that(1) local_step.awaiter [OF that(2)]])
  have w: "run_awaiter id v Storing (twice v None False False Storing Absent 0 0 0 []) = twice v None True False Loading Absent 0 0 0 []"
    "run_awaiter id v Loading (twice v None True False Loading Absent 0 0 0 []) = twice v None True False Suspended Absent 0 0 0 []"
    by (simp_all add: twice_def)
  have "local_reach id v (twice v None False False Storing Absent 0 0 0 [])"
    using a [OF local_reach.init] by (simp only: twice_run(1) [of v] twice_run(2) twice_sel) simp
  from a [OF this] have "local_reach id v (twice v None True False Loading Absent 0 0 0 [])"
    by (simp only: w twice_sel) simp
  from a [OF this] show ?thesis by (simp only: w twice_sel) simp
qed

theorem local_completion_resumes_once_witness:
  "taken (complete_here id (7::nat) 7 (twice 7 None True False Suspended Absent 0 0 0 [])) = [7]"
proof -
  let ?s = "complete_here id (7::nat) 7 (twice 7 None True False Suspended Absent 0 0 0 [])"
  have s: "completed (ast ?s)" "apc ?s = Continued" "given ?s = {7}"
    by (simp_all add: complete_here_def twice_def exchange_completed_def emplace_def go_on_def TakeResult_def)
  have "local_reach id 7 ?s"
    by (rule local_reach.step [OF local_waits local_step.complete]) (simp add: twice_sel)
  from local_completion_resumes_once [OF this] s show ?thesis by auto
qed

end
