(* ===== verification/Thread_Pool.thy ===== *)
theory Thread_Pool
  imports Workers "HOL-Library.Multiset"
begin

text \<open>
  \<^verbatim>\<open>ThreadPool\<close> (\<^verbatim>\<open>src/async/thread_pool.h\<close>) and the callback style of \<^verbatim>\<open>ThreadPoolScheduler\<close>
  (\<^verbatim>\<open>src/async/thread_pool_scheduler.h\<close>): any number of threads call \<^verbatim>\<open>Execute\<close>, one calls \<^verbatim>\<open>Stop\<close>, and the pool's
  threads run \<^verbatim>\<open>WorkerLoop\<close>. The queue of \<^verbatim>\<open>moodycamel\<close> gives no order between producers, and several threads take from
  it, so it is a multiset here. The theorems: every accepted task is started exactly once, the counter of pending tasks is
  right while the pool runs, and what \<^verbatim>\<open>Stop\<close> leaves behind came in after it.
\<close>

section \<open>Threads and callers\<close>

datatype 't pool_pc =
    LoopTop            \<comment> \<open>\<^verbatim>\<open>while (running_)\<close>\<close>
  | TryDequeue
  | Taken 't           \<comment> \<open>\<^verbatim>\<open>pending_.fetch_sub(1)\<close>\<close>
  | RunTask 't
  | WaitForTask
  | DrainQueue         \<comment> \<open>after the loop: \<^verbatim>\<open>while (queue_.try_dequeue(task))\<close>\<close>
  | RunDrained 't
  | LoopExited

datatype 't execute_pc =
    NoCall
  | CheckRunning 't    \<comment> \<open>\<^verbatim>\<open>if (!running_)\<close>\<close>
  | CountTask 't       \<comment> \<open>\<^verbatim>\<open>pending_.fetch_add(1)\<close>\<close>
  | EnqueueCall 't

text \<open>
  \<open>accepted\<close>, \<open>pool_done\<close> and \<open>late\<close> (enqueued after \<^verbatim>\<open>running_\<close> was cleared) record what happened to the tasks.
\<close>

record 't pool =
  pool_running :: bool
  pending_count :: int
  task_queue :: "'t multiset"
  tpc :: "nat \<Rightarrow> 't pool_pc"
  epc :: "nat \<Rightarrow> 't execute_pc"
  pool_accepted :: "'t multiset"
  pool_done :: "'t multiset"
  late :: "'t multiset"

text \<open>After the first \<^verbatim>\<open>Init\<close> (which leaves \<^verbatim>\<open>pending_\<close> as it is: 0 then, whatever an earlier run has left later); the number of threads is \<open>pool_threads n h\<close> for an argument \<open>n\<close> and \<open>h\<close> hardware threads.\<close>

definition pool_threads :: "nat \<Rightarrow> nat \<Rightarrow> nat" where
  "pool_threads thread_count hardware =
     (let c = if thread_count = 0 then hardware else thread_count in if c = 0 then 1 else c)"

definition PoolInit :: "'t pool" where
  "PoolInit = \<lparr>pool_running = True, pending_count = 0, task_queue = {#}, tpc = (\<lambda>_. LoopTop), epc = (\<lambda>_. NoCall),
     pool_accepted = {#}, pool_done = {#}, late = {#}\<rparr>"

definition goto_pool :: "nat \<Rightarrow> 't pool_pc \<Rightarrow> 't pool \<Rightarrow> 't pool" where
  "goto_pool i c s = s\<lparr>tpc := (tpc s)(i := c)\<rparr>"

definition goto_call :: "nat \<Rightarrow> 't execute_pc \<Rightarrow> 't pool \<Rightarrow> 't pool" where
  "goto_call p c s = s\<lparr>epc := (epc s)(p := c)\<rparr>"

text \<open>One step of \<^verbatim>\<open>WorkerLoop\<close>; \<open>t\<close> is the task the queue hands out when it has one.\<close>

fun pool_thread :: "nat \<Rightarrow> 't \<Rightarrow> 't pool_pc \<Rightarrow> 't pool \<Rightarrow> 't pool" where
  "pool_thread i t LoopTop s = goto_pool i (if pool_running s then TryDequeue else DrainQueue) s"
| "pool_thread i t TryDequeue s =
     (if task_queue s = {#} then goto_pool i WaitForTask s
      else goto_pool i (Taken t) (s\<lparr>task_queue := task_queue s - {#t#}\<rparr>))"
| "pool_thread i t (Taken u) s = goto_pool i (RunTask u) (s\<lparr>pending_count := pending_count s - 1\<rparr>)"
| "pool_thread i t (RunTask u) s = goto_pool i LoopTop (s\<lparr>pool_done := add_mset u (pool_done s)\<rparr>)"
| "pool_thread i t WaitForTask s = goto_pool i LoopTop s"
| "pool_thread i t DrainQueue s =
     (if task_queue s = {#} then goto_pool i LoopExited s
      else goto_pool i (RunDrained t) (s\<lparr>task_queue := task_queue s - {#t#}\<rparr>))"
| "pool_thread i t (RunDrained u) s = goto_pool i DrainQueue (s\<lparr>pool_done := add_mset u (pool_done s)\<rparr>)"
| "pool_thread i t LoopExited s = s"

fun pool_call :: "nat \<Rightarrow> 't execute_pc \<Rightarrow> 't pool \<Rightarrow> 't pool" where
  "pool_call p NoCall s = s"
| "pool_call p (CheckRunning t) s = goto_call p (if pool_running s then CountTask t else NoCall) s"
| "pool_call p (CountTask t) s = goto_call p (EnqueueCall t) (s\<lparr>pending_count := pending_count s + 1\<rparr>)"
| "pool_call p (EnqueueCall t) s =
     goto_call p NoCall (s\<lparr>task_queue := add_mset t (task_queue s), pool_accepted := add_mset t (pool_accepted s),
       late := (if pool_running s then late s else add_mset t (late s))\<rparr>)"

inductive pool_step :: "nat \<Rightarrow> nat \<Rightarrow> 't pool \<Rightarrow> 't pool \<Rightarrow> bool" for n callers where
  thread: "i < n \<Longrightarrow> task_queue s = {#} \<or> t \<in># task_queue s \<Longrightarrow> pool_step n callers s (pool_thread i t (tpc s i) s)"
| execute: "p < callers \<Longrightarrow> epc s p = NoCall \<Longrightarrow> pool_step n callers s (goto_call p (CheckRunning t) s)"
| call: "p < callers \<Longrightarrow> pool_step n callers s (pool_call p (epc s p) s)"
| stop: "pool_step n callers s (s\<lparr>pool_running := False\<rparr>)"

inductive pool_reach :: "nat \<Rightarrow> nat \<Rightarrow> 't pool \<Rightarrow> bool" for n callers where
  init: "pool_reach n callers PoolInit"
| step: "pool_reach n callers s \<Longrightarrow> pool_step n callers s s' \<Longrightarrow> pool_reach n callers s'"

section \<open>Every task once\<close>

fun in_hand :: "'t pool_pc \<Rightarrow> 't multiset" where
  "in_hand (Taken t) = {#t#}" | "in_hand (RunTask t) = {#t#}" | "in_hand (RunDrained t) = {#t#}" | "in_hand _ = {#}"

definition held :: "nat \<Rightarrow> 't pool \<Rightarrow> 't multiset" where
  "held n s = (\<Sum>i<n. in_hand (tpc s i))"

fun counted :: "'t execute_pc \<Rightarrow> int" where
  "counted (EnqueueCall t) = 1" | "counted _ = 0"

fun uncounted :: "'t pool_pc \<Rightarrow> int" where
  "uncounted (Taken t) = 1" | "uncounted _ = 0"

fun draining :: "'t pool_pc \<Rightarrow> bool" where
  "draining DrainQueue = True" | "draining (RunDrained t) = True" | "draining LoopExited = True" | "draining _ = False"

lemma goto_pool_simps [simp]:
  "pool_running (goto_pool i c s) = pool_running s" "pending_count (goto_pool i c s) = pending_count s"
  "task_queue (goto_pool i c s) = task_queue s" "tpc (goto_pool i c s) = (tpc s)(i := c)" "epc (goto_pool i c s) = epc s"
  "pool_accepted (goto_pool i c s) = pool_accepted s" "pool_done (goto_pool i c s) = pool_done s" "late (goto_pool i c s) = late s"
  by (simp_all add: goto_pool_def)

lemma goto_call_simps [simp]:
  "pool_running (goto_call i c s) = pool_running s" "pending_count (goto_call i c s) = pending_count s"
  "task_queue (goto_call i c s) = task_queue s" "tpc (goto_call i c s) = tpc s" "epc (goto_call i c s) = (epc s)(i := c)"
  "pool_accepted (goto_call i c s) = pool_accepted s" "pool_done (goto_call i c s) = pool_done s" "late (goto_call i c s) = late s"
  by (simp_all add: goto_call_def)

text \<open>Moving one thread changes a sum over the threads in one place.\<close>

lemma sum_move:
  fixes f :: "'c \<Rightarrow> 'a :: cancel_comm_monoid_add" and n :: nat
  assumes "i < n"
  shows "(\<Sum>j<n. f ((g(i := c)) j)) + f (g i) = (\<Sum>j<n. f (g j)) + f c"
proof -
  have "(\<Sum>j\<in>{..<n} - {i}. f ((g(i := c)) j)) = (\<Sum>j\<in>{..<n} - {i}. f (g j))" by (rule sum.cong) auto
  then show ?thesis using assms sum.remove [of "{..<n}" i "\<lambda>j. f ((g(i := c)) j)"] sum.remove [of "{..<n}" i "\<lambda>j. f (g j)"]
    by (simp add: ac_simps fun_upd_same del: fun_upd_apply)
qed

text \<open>What the threads other than \<open>i\<close> hold stays.\<close>

lemma held_others:
  assumes "i < n"
  obtains H where "held n s = H + in_hand (tpc s i)" "\<And>c s'. tpc s' = tpc s \<Longrightarrow> held n (goto_pool i c s') = H + in_hand c"
proof
  let ?H = "held n (goto_pool i LoopTop s)"
  have e: "held n (goto_pool i c s') + in_hand (tpc s i) = held n s + in_hand c" if "tpc s' = tpc s" for c s'
    using sum_move [OF assms, of in_hand "tpc s" c] that by (simp add: held_def)
  show "held n s = ?H + in_hand (tpc s i)" using e [of s LoopTop] by simp
  then show "held n (goto_pool i c s') = ?H + in_hand c" if "tpc s' = tpc s" for c s'
    using e [OF that, of c] by simp
qed

definition pending_right :: "nat \<Rightarrow> nat \<Rightarrow> 't pool \<Rightarrow> bool" where
  "pending_right n callers s \<longleftrightarrow>
     ((\<forall>i. \<not> draining (tpc s i)) \<longrightarrow>
        pending_count s = int (size (task_queue s)) + (\<Sum>i<n. uncounted (tpc s i)) + (\<Sum>p<callers. counted (epc s p)))"

definition tasks_right :: "nat \<Rightarrow> 't pool \<Rightarrow> bool" where
  "tasks_right n s \<longleftrightarrow> pool_accepted s = task_queue s + held n s + pool_done s \<and> late s \<subseteq># pool_accepted s"

definition exit_right :: "nat \<Rightarrow> 't pool \<Rightarrow> bool" where
  "exit_right n s \<longleftrightarrow> (\<forall>i. draining (tpc s i) \<longrightarrow> \<not> pool_running s) \<and>
     ((\<exists>i<n. tpc s i = LoopExited) \<longrightarrow> task_queue s \<subseteq># late s) \<and> (pool_running s \<longrightarrow> late s = {#})"

lemma thread_tasks_right:
  assumes inv: "tasks_right n s" and i: "i < n" and t: "task_queue s = {#} \<or> t \<in># task_queue s"
  shows "tasks_right n (pool_thread i t (tpc s i) s)"
proof -
  obtain H where "held n s = H + in_hand (tpc s i)" "\<And>c s'. tpc s' = tpc s \<Longrightarrow> held n (goto_pool i c s') = H + in_hand c"
    using held_others [OF i] by metis
  then show ?thesis using inv t by (cases "tpc s i") (auto simp: tasks_right_def)
qed

lemma call_tasks_right: "tasks_right n s \<Longrightarrow> tasks_right n (pool_call p (epc s p) s)"
  by (cases "epc s p") (auto simp: tasks_right_def held_def subseteq_mset_def le_SucI)

lemma thread_exit_right:
  assumes inv: "exit_right n s" and i: "i < n" and t: "task_queue s = {#} \<or> t \<in># task_queue s"
  shows "exit_right n (pool_thread i t (tpc s i) s)"
proof -
  have "draining (tpc s i) \<longrightarrow> \<not> pool_running s" using inv by (auto simp: exit_right_def)
  then show ?thesis using inv i t
    by (cases "tpc s i") (auto simp: exit_right_def intro: subset_mset.trans [OF diff_subset_eq_self])
qed

lemma call_exit_right:
  assumes inv: "exit_right n s"
  shows "exit_right n (pool_call p (epc s p) s)"
proof -
  have "tpc s i = LoopExited \<longrightarrow> \<not> pool_running s" for i using inv unfolding exit_right_def by (metis draining.simps(3))
  then show ?thesis using inv by (cases "epc s p") (auto simp: exit_right_def)
qed

lemma thread_pending_right:
  assumes inv: "pending_right n callers s" and i: "i < n" and t: "task_queue s = {#} \<or> t \<in># task_queue s"
  shows "pending_right n callers (pool_thread i t (tpc s i) s)"
proof (cases "(\<forall>j. \<not> draining (tpc (pool_thread i t (tpc s i) s) j)) \<and> \<not> draining (tpc s i)")
  case True
  have u: "(\<Sum>j<n. uncounted (((tpc s)(i := c)) j)) = (\<Sum>j<n. uncounted (tpc s j)) + uncounted c - uncounted (tpc s i)" for c
    using sum_move [OF i, of uncounted "tpc s" c] by simp
  have "tpc (pool_thread i t (tpc s i) s) j = tpc s j" if "j \<noteq> i" for j
    using that by (cases "tpc s i") auto
  then have "\<forall>j. \<not> draining (tpc s j)" using True by metis
  then have e: "pending_count s = int (size (task_queue s)) + (\<Sum>i<n. uncounted (tpc s i)) + (\<Sum>p<callers. counted (epc s p))"
    using inv by (simp add: pending_right_def)
  have z: "int (size (task_queue s - {#t#})) = int (size (task_queue s)) - 1" if "t \<in># task_queue s"
    using that by (cases "size (task_queue s)") (auto simp: size_Diff_singleton)
  show ?thesis
    using e t True u z by (cases "tpc s i") (auto simp: pending_right_def simp del: fun_upd_apply)
next
  case False
  have "draining (tpc (pool_thread i t (tpc s i) s) i)" if "draining (tpc s i)" using that by (cases "tpc s i") auto
  then show ?thesis using False unfolding pending_right_def by blast
qed

lemma call_pending_right:
  assumes inv: "pending_right n callers s" and p: "p < callers"
  shows "pending_right n callers (pool_call p (epc s p) s)"
proof -
  have u: "(\<Sum>j<callers. counted (((epc s)(p := c)) j)) = (\<Sum>j<callers. counted (epc s j)) + counted c - counted (epc s p)" for c
    using sum_move [OF p, of counted "epc s" c] by simp
  have e: "pending_right n callers (goto_call p c s')"
    if "pending_count s' - int (size (task_queue s')) - counted c = pending_count s - int (size (task_queue s)) - counted (epc s p)"
      "tpc s' = tpc s" "epc s' = epc s" for c s'
  proof (unfold pending_right_def, intro impI)
    assume "\<forall>i. \<not> draining (tpc (goto_call p c s') i)"
    then have "pending_count s = int (size (task_queue s)) + (\<Sum>i<n. uncounted (tpc s i)) + (\<Sum>p<callers. counted (epc s p))"
      using inv that by (simp add: pending_right_def)
    then show "pending_count (goto_call p c s') = int (size (task_queue (goto_call p c s'))) +
        (\<Sum>i<n. uncounted (tpc (goto_call p c s') i)) + (\<Sum>q<callers. counted (epc (goto_call p c s') q))"
      using that u [of c] by (simp del: fun_upd_apply)
  qed
  show ?thesis using inv by (cases "epc s p") (simp_all add: e)
qed

lemma pool_reach_inv: "pool_reach n callers s \<Longrightarrow> tasks_right n s \<and> exit_right n s \<and> pending_right n callers s"
proof (induction rule: pool_reach.induct)
  case init
  then show ?case by (simp add: tasks_right_def exit_right_def pending_right_def PoolInit_def held_def)
next
  case (step s s')
  from step(2) show ?case
  proof cases
    case (thread i t)
    note u = thread(2,3)
    from step.IH have "tasks_right n s" "exit_right n s" "pending_right n callers s" by simp_all
    then show ?thesis unfolding thread(1)
      by (intro conjI thread_tasks_right [OF _ u] thread_exit_right [OF _ u] thread_pending_right [OF _ u])
  next
    case (execute p t)
    have "(\<Sum>j<callers. counted (((epc s)(p := CheckRunning t)) j)) = (\<Sum>j<callers. counted (epc s j))"
      using sum_move [OF execute(2), of counted "epc s" "CheckRunning t"] execute(3) by simp
    then show ?thesis using step.IH execute(1)
      by (simp add: tasks_right_def exit_right_def pending_right_def held_def del: fun_upd_apply) metis
  next
    case (call p)
    then show ?thesis using step.IH by (simp add: call_tasks_right call_exit_right call_pending_right)
  next
    case stop
    then show ?thesis using step.IH by (simp add: tasks_right_def exit_right_def pending_right_def held_def) metis
  qed
qed

text \<open>
  C25. In every run of the pool each accepted task is queued, held by one thread, or finished, exactly once; while no
  thread has left its loop the counter of pending tasks is their number (up to the calls and threads between the queue and
  the counter); and once all threads have left, every task accepted before \<^verbatim>\<open>Stop\<close> has been run.
\<close>

theorem pool_runs_tasks_once:
  assumes "pool_reach n callers s"
  shows "pool_accepted s = task_queue s + held n s + pool_done s \<and>
     ((\<forall>i. \<not> draining (tpc s i)) \<longrightarrow>
        pending_count s = int (size (task_queue s)) + (\<Sum>i<n. uncounted (tpc s i)) + (\<Sum>p<callers. counted (epc s p))) \<and>
     (0 < n \<and> (\<forall>i<n. tpc s i = LoopExited) \<longrightarrow> pool_accepted s - late s \<subseteq># pool_done s)"
proof -
  have inv: "tasks_right n s" "exit_right n s" "pending_right n callers s" using pool_reach_inv [OF assms] by auto
  have "pool_accepted s - late s \<subseteq># pool_done s" if "0 < n" "\<forall>i<n. tpc s i = LoopExited"
  proof -
    have "held n s = {#}" using that by (simp add: held_def)
    moreover have "task_queue s \<subseteq># late s" using inv(2) that by (auto simp: exit_right_def)
    ultimately show ?thesis using inv(1) by (simp add: tasks_right_def subset_eq_diff_conv)
  qed
  then show ?thesis using inv by (simp add: tasks_right_def pending_right_def)
qed

text \<open>One thread, one call: the task is enqueued, the pool stopped, and the thread drains the queue.\<close>

definition one_task :: "bool \<Rightarrow> int \<Rightarrow> nat multiset \<Rightarrow> nat pool_pc \<Rightarrow> nat execute_pc \<Rightarrow> nat multiset \<Rightarrow> nat multiset \<Rightarrow> nat pool" where
  "one_task r c q t e a d = \<lparr>pool_running = r, pending_count = c, task_queue = q, tpc = (\<lambda>_. LoopTop)(0 := t),
     epc = (\<lambda>_. NoCall)(0 := e), pool_accepted = a, pool_done = d, late = {#}\<rparr>"

lemma one_task_moves:
  "PoolInit = one_task True 0 {#} LoopTop NoCall {#} {#}"
  "goto_pool 0 t (one_task r c q t' e a d) = one_task r c q t e a d"
  "goto_call 0 e (one_task r c q t e' a d) = one_task r c q t e a d"
  "one_task r c q t e a d\<lparr>pool_running := False\<rparr> = one_task False c q t e a d"
  "one_task r c q t e a d\<lparr>pending_count := n\<rparr> = one_task r n q t e a d"
  "one_task r c q t e a d\<lparr>pool_accepted := a'\<rparr> = one_task r c q t e a' d"
  "one_task r c q t e a d\<lparr>late := {#}\<rparr> = one_task r c q t e a d"
  "one_task r c q t e a d\<lparr>task_queue := q'\<rparr> = one_task r c q' t e a d"
  "one_task r c q t e a d\<lparr>pool_done := d'\<rparr> = one_task r c q t e a d'"
  "tpc (one_task r c q t e a d) 0 = t" "epc (one_task r c q t e a d) 0 = e" "task_queue (one_task r c q t e a d) = q"
  "pending_count (one_task r c q t e a d) = c" "pool_accepted (one_task r c q t e a d) = a" "pool_done (one_task r c q t e a d) = d"
  "pool_running (one_task r c q t e a d) = r" "late (one_task r c q t e a d) = {#}"
  by (simp_all add: one_task_def PoolInit_def goto_pool_def goto_call_def fun_eq_iff)

lemma one_task_reach: "pool_reach 1 1 (one_task False 1 {#} LoopExited NoCall {#5#} {#5#})"
proof -
  have c: "pool_reach 1 1 (pool_call 0 (epc s 0) s)" if "pool_reach 1 1 s" for s :: "nat pool"
    by (rule pool_reach.step [OF that pool_step.call]) simp
  have t: "pool_reach 1 1 (pool_thread 0 5 (tpc s 0) s)" if "pool_reach 1 1 s" "task_queue s = {#} \<or> 5 \<in># task_queue s" for s :: "nat pool"
    by (rule pool_reach.step [OF that(1) pool_step.thread [OF _ that(2)]]) simp
  have "pool_reach 1 1 (one_task True 0 {#} LoopTop (CheckRunning 5) {#} {#})"
    using pool_reach.step [OF pool_reach.init pool_step.execute [of 0 1 "PoolInit :: nat pool" 1 5]]
    by (simp add: one_task_moves(1)) (simp add: one_task_moves(2-))
  from c [OF this] have "pool_reach 1 1 (one_task True 0 {#} LoopTop (CountTask 5) {#} {#})" by (simp add: one_task_moves)
  from c [OF this] have "pool_reach 1 1 (one_task True 1 {#} LoopTop (EnqueueCall 5) {#} {#})" by (simp add: one_task_moves)
  from c [OF this] have "pool_reach 1 1 (one_task True 1 {#5#} LoopTop NoCall {#5#} {#})" by (simp add: one_task_moves)
  from pool_reach.step [OF this pool_step.stop] have "pool_reach 1 1 (one_task False 1 {#5#} LoopTop NoCall {#5#} {#})"
    by (simp add: one_task_moves)
  from t [OF this] have "pool_reach 1 1 (one_task False 1 {#5#} DrainQueue NoCall {#5#} {#})" by (simp add: one_task_moves)
  from t [OF this] have "pool_reach 1 1 (one_task False 1 {#} (RunDrained 5) NoCall {#5#} {#})" by (simp add: one_task_moves)
  from t [OF this] have "pool_reach 1 1 (one_task False 1 {#} DrainQueue NoCall {#5#} {#5#})" by (simp add: one_task_moves)
  from t [OF this] show ?thesis by (simp add: one_task_moves)
qed

theorem pool_runs_tasks_once_witness:
  "\<exists>s :: nat pool. pool_reach 1 1 s \<and> pool_accepted s = {#5#} \<and> pool_accepted s - late s \<subseteq># pool_done s"
  using pool_runs_tasks_once [OF one_task_reach] one_task_reach
  by (intro exI [of _ "one_task False 1 {#} LoopExited NoCall {#5#} {#5#}"]) (simp add: one_task_moves)

text \<open>
  The drained tasks are not taken off the counter: after \<^verbatim>\<open>Stop\<close> the pool reports a pending task although its queue is empty
  and every thread has left; when it is started again, the condition of \<^verbatim>\<open>WaitForTask\<close> (\<^verbatim>\<open>pending_ > 0\<close>) always holds.
\<close>

lemma drained_tasks_stay_pending:
  "\<exists>s :: nat pool. pool_reach 1 1 s \<and> tpc s 0 = LoopExited \<and> task_queue s = {#} \<and> pending_count s = 1"
  using one_task_reach by (intro exI [of _ "one_task False 1 {#} LoopExited NoCall {#5#} {#5#}"]) (simp add: one_task_moves)

section \<open>Going back to the worker\<close>

text \<open>
  \<^verbatim>\<open>Dispatch\<close>: the task and the callback, with the index of the worker that calls (none outside of a worker thread: then
  both run at once). A pool thread that runs the job posts the callback with the task's result to that worker; \<open>p\<close> is
  the pool thread's own queue of that worker.
\<close>

datatype ('r, 'c) pool_job = DispatchJob nat "unit \<Rightarrow> 'r" "'r \<Rightarrow> 'c"

definition SchedulerDispatch :: "nat option \<Rightarrow> (unit \<Rightarrow> 'r) \<Rightarrow> ('r \<Rightarrow> 'c) \<Rightarrow> 'c + ('r, 'c) pool_job" where
  "SchedulerDispatch cur task callback =
     (case cur of None \<Rightarrow> Inl (callback (task ())) | Some w \<Rightarrow> Inr (DispatchJob w task callback))"

fun run_job :: "nat \<Rightarrow> ('r, 'c) pool_job \<Rightarrow> 'c worker_manager \<Rightarrow> 'c worker_manager" where
  "run_job p (DispatchJob w task callback) m = upd_worker w (Post p (Some (callback (task ())))) m"

text \<open>The callback runs once, with the task's result, on the worker that dispatched the job, after what it already had queued.\<close>

theorem dispatch_returns_to_worker:
  assumes "SchedulerDispatch (Some i) task callback = Inr j" and "GetWorker i m = Some w" and "running w" and "\<not> shutting_down w"
  shows "(\<exists>w'. GetWorker i (run_job p j m) = Some w' \<and> events w' p = events w p @ [callback (task ())]) \<and>
     (\<forall>k. k = i \<or> GetWorker k (run_job p j m) = GetWorker k m)"
proof -
  have j: "j = DispatchJob i task callback" using assms(1) by (simp add: SchedulerDispatch_def)
  show ?thesis using assms(2-) unfolding j
    by (auto simp: GetWorker_upd_worker Post_def EnqueueTask_def enqueue_def)
qed

end
