(* ===== verification/Graceful_Shutdown.thy ===== *)
theory Graceful_Shutdown
  imports Main
begin

text \<open>
  \<^verbatim>\<open>ShutdownManager\<close> (\<^verbatim>\<open>src/async/shutdown.h\<close>, \<^verbatim>\<open>src/async/shutdown.cpp\<close>): any number of threads call \<^verbatim>\<open>NextPhase\<close>,
  \<^verbatim>\<open>Shutdown\<close>, \<^verbatim>\<open>ForceShutdown\<close> or wait; a step is one access to an atomic, and the callback of a phase, which may
  itself call \<^verbatim>\<open>NextPhase\<close>. The theorems: without \<^verbatim>\<open>ForceShutdown\<close> the phases are entered in order and each
  callback runs once; a request made at the wrong moment is dropped; a forced shutdown can be undone; a wait can miss the end.
\<close>

section \<open>Phases and threads\<close>

datatype shutdown_phase = Normal | StoppingIO | CompletingTimers | ProcessingTasks | Cleaning | Done

fun next_phase :: "shutdown_phase \<Rightarrow> shutdown_phase" where
  "next_phase Normal = StoppingIO"
| "next_phase StoppingIO = CompletingTimers"
| "next_phase CompletingTimers = ProcessingTasks"
| "next_phase ProcessingTasks = Cleaning"
| "next_phase Cleaning = Done"
| "next_phase Done = Done"

text \<open>Leaving \<^verbatim>\<open>Cleaning\<close> has no callback.\<close>

definition phase_callback :: "shutdown_phase \<Rightarrow> shutdown_phase list" where
  "phase_callback current = (if current = Cleaning \<or> current = Done then [] else [next_phase current])"

datatype advance_pc =
    Away
  | TryEnter                          \<comment> \<open>\<^verbatim>\<open>is_advancing_.exchange(true)\<close>\<close>
  | LeaveRequest                      \<comment> \<open>\<^verbatim>\<open>pending_advance_.store(true)\<close>\<close>
  | LoadPhase
  | StorePhase shutdown_phase         \<comment> \<open>\<^verbatim>\<open>current_phase_.store(next)\<close> and \<^verbatim>\<open>notify_all\<close>\<close>
  | RunCallback shutdown_phase
  | TakeRequest                       \<comment> \<open>\<^verbatim>\<open>has_pending = pending_advance_.exchange(false)\<close>\<close>
  | Release                           \<comment> \<open>the guard: \<^verbatim>\<open>flag.store(false)\<close>\<close>
  | DropRequest                       \<comment> \<open>the guard: \<^verbatim>\<open>pending.exchange(false)\<close>\<close>

datatype wait_pc = NotWaiting | CheckDone | AboutToBlock | Blocked | WaitOver

record shutdown_manager =
  current_phase :: shutdown_phase
  shutdown_requested :: bool
  is_advancing :: bool
  pending_advance :: bool
  adv_pcs :: "nat \<Rightarrow> advance_pc"
  waiter :: wait_pc
  callbacks_run :: "shutdown_phase list"
  requests :: nat                     \<comment> \<open>calls of \<^verbatim>\<open>AdvancePhase\<close>\<close>

definition ShutdownManager :: shutdown_manager where
  "ShutdownManager = \<lparr>current_phase = Normal, shutdown_requested = False, is_advancing = False, pending_advance = False,
     adv_pcs = (\<lambda>_. Away), waiter = NotWaiting, callbacks_run = [], requests = 0\<rparr>"

definition goto_adv :: "nat \<Rightarrow> advance_pc \<Rightarrow> shutdown_manager \<Rightarrow> shutdown_manager" where
  "goto_adv t p s = s\<lparr>adv_pcs := (adv_pcs s)(t := p)\<rparr>"

definition notify_all :: "shutdown_manager \<Rightarrow> shutdown_manager" where
  "notify_all s = (if waiter s = Blocked then s\<lparr>waiter := CheckDone\<rparr> else s)"

text \<open>One step of \<^verbatim>\<open>AdvancePhase\<close>; \<open>again\<close>: the callback calls \<^verbatim>\<open>NextPhase\<close>, which finds the flag set.\<close>

fun run_advance :: "bool \<Rightarrow> nat \<Rightarrow> advance_pc \<Rightarrow> shutdown_manager \<Rightarrow> shutdown_manager" where
  "run_advance again t Away s = s"
| "run_advance again t TryEnter s =
     (if is_advancing s then goto_adv t LeaveRequest s else goto_adv t LoadPhase (s\<lparr>is_advancing := True\<rparr>))"
| "run_advance again t LeaveRequest s = goto_adv t Away (s\<lparr>pending_advance := True\<rparr>)"
| "run_advance again t LoadPhase s = goto_adv t (if current_phase s = Done then Release else StorePhase (current_phase s)) s"
| "run_advance again t (StorePhase c) s = goto_adv t (RunCallback c) (notify_all (s\<lparr>current_phase := next_phase c\<rparr>))"
| "run_advance again t (RunCallback c) s =
     goto_adv t TakeRequest (s\<lparr>callbacks_run := callbacks_run s @ phase_callback c,
       pending_advance := (pending_advance s \<or> again \<and> phase_callback c \<noteq> []),
       requests := requests s + (if again \<and> phase_callback c \<noteq> [] then 1 else 0)\<rparr>)"
| "run_advance again t TakeRequest s =
     goto_adv t (if pending_advance s then LoadPhase else Release) (s\<lparr>pending_advance := False\<rparr>)"
| "run_advance again t Release s = goto_adv t DropRequest (s\<lparr>is_advancing := False\<rparr>)"
| "run_advance again t DropRequest s = goto_adv t Away (s\<lparr>pending_advance := False\<rparr>)"

text \<open>\<^verbatim>\<open>Shutdown\<close> starts one \<^verbatim>\<open>AdvancePhase\<close>, the first time only.\<close>

definition Shutdown :: "nat \<Rightarrow> shutdown_manager \<Rightarrow> shutdown_manager" where
  "Shutdown t s =
     (if shutdown_requested s then s
      else goto_adv t TryEnter (s\<lparr>shutdown_requested := True, requests := requests s + 1\<rparr>))"

definition NextPhase :: "nat \<Rightarrow> shutdown_manager \<Rightarrow> shutdown_manager" where
  "NextPhase t s = goto_adv t TryEnter (s\<lparr>requests := requests s + 1\<rparr>)"

definition ForceShutdown :: "shutdown_manager \<Rightarrow> shutdown_manager" where
  "ForceShutdown s = notify_all (s\<lparr>current_phase := Done\<rparr>)"

text \<open>\<^verbatim>\<open>WaitForShutdown(-1)\<close>: the predicate is tested under the mutex, and then the thread blocks.\<close>

fun run_waiter :: "wait_pc \<Rightarrow> shutdown_manager \<Rightarrow> shutdown_manager" where
  "run_waiter NotWaiting s = s\<lparr>waiter := CheckDone\<rparr>"
| "run_waiter CheckDone s = s\<lparr>waiter := (if current_phase s = Done then WaitOver else AboutToBlock)\<rparr>"
| "run_waiter AboutToBlock s = s\<lparr>waiter := Blocked\<rparr>"
| "run_waiter Blocked s = s"
| "run_waiter WaitOver s = s"

text \<open>\<open>force\<close>: the program also calls \<^verbatim>\<open>ForceShutdown\<close>.\<close>

inductive shutdown_step :: "bool \<Rightarrow> shutdown_manager \<Rightarrow> shutdown_manager \<Rightarrow> bool" for force where
  advance: "shutdown_step force s (run_advance again t (adv_pcs s t) s)"
| shutdown: "adv_pcs s t = Away \<Longrightarrow> shutdown_step force s (Shutdown t s)"
| next_phase: "adv_pcs s t = Away \<Longrightarrow> shutdown_step force s (NextPhase t s)"
| waiting: "shutdown_step force s (run_waiter (waiter s) s)"
| forced: "force \<Longrightarrow> waiter s \<noteq> AboutToBlock \<Longrightarrow> shutdown_step force s (ForceShutdown s)"

inductive shutdown_reach :: "bool \<Rightarrow> shutdown_manager \<Rightarrow> bool" for force where
  init: "shutdown_reach force ShutdownManager"
| step: "shutdown_reach force s \<Longrightarrow> shutdown_step force s s' \<Longrightarrow> shutdown_reach force s'"

section \<open>Phases in order\<close>

fun advancing_pc :: "advance_pc \<Rightarrow> bool" where
  "advancing_pc Away = False" | "advancing_pc TryEnter = False" | "advancing_pc LeaveRequest = False"
| "advancing_pc DropRequest = False" | "advancing_pc _ = True"

fun phase_no :: "shutdown_phase \<Rightarrow> nat" where
  "phase_no Normal = 0" | "phase_no StoppingIO = 1" | "phase_no CompletingTimers = 2" | "phase_no ProcessingTasks = 3"
| "phase_no Cleaning = 4" | "phase_no Done = 5"

text \<open>The callbacks that belong to the phases up to \<open>p\<close>.\<close>

definition callbacks_until :: "shutdown_phase \<Rightarrow> shutdown_phase list" where
  "callbacks_until p = take (phase_no p) [StoppingIO, CompletingTimers, ProcessingTasks, Cleaning]"

definition one_inside :: "shutdown_manager \<Rightarrow> bool" where
  "one_inside s \<longleftrightarrow>
     (\<forall>t u. advancing_pc (adv_pcs s t) \<and> advancing_pc (adv_pcs s u) \<longrightarrow> t = u) \<and>
     (\<forall>t. advancing_pc (adv_pcs s t) \<longrightarrow> is_advancing s)"

definition phases_ok :: "shutdown_manager \<Rightarrow> bool" where
  "phases_ok s \<longleftrightarrow>
     (\<forall>t c. adv_pcs s t = StorePhase c \<longrightarrow> current_phase s = c \<and> c \<noteq> Done) \<and>
     (\<forall>t c. adv_pcs s t = RunCallback c \<longrightarrow> current_phase s = next_phase c \<and> c \<noteq> Done \<and> callbacks_run s = callbacks_until c) \<and>
     ((\<forall>t c. adv_pcs s t \<noteq> RunCallback c) \<longrightarrow> callbacks_run s = callbacks_until (current_phase s))"

lemma goto_adv_simps [simp]:
  "current_phase (goto_adv t p s) = current_phase s" "is_advancing (goto_adv t p s) = is_advancing s"
  "pending_advance (goto_adv t p s) = pending_advance s" "adv_pcs (goto_adv t p s) = (adv_pcs s)(t := p)"
  "callbacks_run (goto_adv t p s) = callbacks_run s" "waiter (goto_adv t p s) = waiter s" "requests (goto_adv t p s) = requests s"
  "shutdown_requested (goto_adv t p s) = shutdown_requested s"
  by (simp_all add: goto_adv_def)

lemma notify_all_simps [simp]:
  "current_phase (notify_all s) = current_phase s" "is_advancing (notify_all s) = is_advancing s"
  "pending_advance (notify_all s) = pending_advance s" "adv_pcs (notify_all s) = adv_pcs s"
  "callbacks_run (notify_all s) = callbacks_run s"
  by (simp_all add: notify_all_def)

lemma run_waiter_simps [simp]:
  "current_phase (run_waiter p s) = current_phase s" "is_advancing (run_waiter p s) = is_advancing s"
  "adv_pcs (run_waiter p s) = adv_pcs s" "callbacks_run (run_waiter p s) = callbacks_run s"
  by (cases p; simp)+

lemma callbacks_step: "c \<noteq> Done \<Longrightarrow> callbacks_until (next_phase c) = callbacks_until c @ phase_callback c"
  by (cases c) (simp_all add: callbacks_until_def phase_callback_def)

lemma advance_one_inside:
  assumes "one_inside s"
  shows "one_inside (run_advance again t (adv_pcs s t) s)"
proof -
  have "advancing_pc (adv_pcs s t) \<longrightarrow> is_advancing s" using assms by (auto simp: one_inside_def)
  moreover have "advancing_pc (adv_pcs s t) \<longrightarrow> (\<forall>u. u \<noteq> t \<longrightarrow> \<not> advancing_pc (adv_pcs s u))" using assms by (auto simp: one_inside_def)
  ultimately show ?thesis using assms by (cases "adv_pcs s t") (auto simp: one_inside_def)
qed

text \<open>A thread that is not inside changes nothing that matters.\<close>

lemma outside_phases_ok:
  assumes "phases_ok s" and "current_phase s' = current_phase s" "callbacks_run s' = callbacks_run s"
    and "adv_pcs s' = (adv_pcs s)(t := p)" and "\<And>c. adv_pcs s t \<noteq> RunCallback c" and "\<And>c. p \<noteq> RunCallback c"
    and "\<And>c. p = StorePhase c \<Longrightarrow> current_phase s = c \<and> c \<noteq> Done"
  shows "phases_ok s'"
  unfolding phases_ok_def
proof (intro conjI allI impI)
  fix u c
  show "adv_pcs s' u = StorePhase c \<Longrightarrow> current_phase s' = c" "adv_pcs s' u = StorePhase c \<Longrightarrow> c \<noteq> Done"
    using assms by (auto simp: phases_ok_def split: if_splits)
  show "adv_pcs s' u = RunCallback c \<Longrightarrow> current_phase s' = next_phase c" "adv_pcs s' u = RunCallback c \<Longrightarrow> c \<noteq> Done"
       "adv_pcs s' u = RunCallback c \<Longrightarrow> callbacks_run s' = callbacks_until c"
    using assms(1-4,6) by (auto simp: phases_ok_def split: if_splits)
next
  assume "\<forall>u c. adv_pcs s' u \<noteq> RunCallback c"
  then have "\<forall>u c. adv_pcs s u \<noteq> RunCallback c" using assms(4,5) by (metis fun_upd_other)
  then show "callbacks_run s' = callbacks_until (current_phase s')" using assms(1-3) by (auto simp: phases_ok_def)
qed

lemma alone:
  assumes "one_inside s" and "adv_pcs s t = p" and "advancing_pc p" and "u \<noteq> t"
  shows "adv_pcs s u \<noteq> StorePhase d \<and> adv_pcs s u \<noteq> RunCallback d"
proof -
  have "\<not> advancing_pc (adv_pcs s u)" using assms unfolding one_inside_def by blast
  then show ?thesis by auto
qed

lemma store_phases_ok:
  assumes "phases_ok s" and "one_inside s" and t: "adv_pcs s t = StorePhase c"
  shows "phases_ok (run_advance again t (StorePhase c) s)"
proof -
  have o: "u \<noteq> t \<Longrightarrow> adv_pcs s u \<noteq> StorePhase d \<and> adv_pcs s u \<noteq> RunCallback d" for u d
    by (rule alone [OF assms(2) t]) simp_all
  then have "adv_pcs s u \<noteq> RunCallback d" for u d using t by (cases "u = t") auto
  then have "current_phase s = c \<and> c \<noteq> Done" "callbacks_run s = callbacks_until c" using assms(1) t by (auto simp: phases_ok_def)
  then show ?thesis using o by (auto simp: phases_ok_def)
qed

lemma callback_phases_ok:
  assumes "phases_ok s" and "one_inside s" and t: "adv_pcs s t = RunCallback c"
  shows "phases_ok (run_advance again t (RunCallback c) s)"
proof -
  have o: "u \<noteq> t \<Longrightarrow> adv_pcs s u \<noteq> StorePhase d \<and> adv_pcs s u \<noteq> RunCallback d" for u d
    by (rule alone [OF assms(2) t]) simp_all
  have "current_phase s = next_phase c" "callbacks_run s = callbacks_until c" "c \<noteq> Done" using assms(1) t by (auto simp: phases_ok_def)
  then show ?thesis using o callbacks_step [of c] by (auto simp: phases_ok_def)
qed

lemma advance_phases_ok:
  assumes ok: "phases_ok s" and one: "one_inside s"
  shows "phases_ok (run_advance again t (adv_pcs s t) s)"
proof (cases "adv_pcs s t")
  case (StorePhase c)
  then show ?thesis using store_phases_ok [OF ok one] by simp
next
  case (RunCallback c)
  then show ?thesis using callback_phases_ok [OF ok one] by simp
qed (use ok in \<open>auto intro!: outside_phases_ok [OF ok]\<close>)

lemma shutdown_reach_ok: "shutdown_reach False s \<Longrightarrow> one_inside s \<and> phases_ok s"
proof (induction rule: shutdown_reach.induct)
  case init
  then show ?case by (simp add: one_inside_def phases_ok_def ShutdownManager_def callbacks_until_def)
next
  case (step s s')
  then have ok: "one_inside s" "phases_ok s" by simp_all
  from step(2) show ?case
  proof cases
    case advance
    then show ?thesis using advance_one_inside [OF ok(1)] advance_phases_ok [OF ok(2,1)] by simp
  next
    case (shutdown t)
    then show ?thesis using ok
      by (auto simp: Shutdown_def one_inside_def intro!: outside_phases_ok [OF ok(2)])
  next
    case (next_phase t)
    then show ?thesis using ok
      by (auto simp: NextPhase_def one_inside_def intro!: outside_phases_ok [OF ok(2)])
  next
    case waiting
    then show ?thesis using ok by (simp add: one_inside_def phases_ok_def)
  qed simp
qed

text \<open>
  C26. As long as \<^verbatim>\<open>ForceShutdown\<close> is not used, one thread at a time advances, and the callbacks that have run are those
  of the phases entered so far, in order and once each (the last one may still be running): IO is stopped before the
  timers are completed, the timers before the tasks are processed, the tasks before the cleaning.
\<close>

theorem shutdown_phases_in_order:
  assumes "shutdown_reach False s"
  shows "(\<forall>t u. advancing_pc (adv_pcs s t) \<and> advancing_pc (adv_pcs s u) \<longrightarrow> t = u) \<and>
    ((\<exists>c. (\<exists>t. adv_pcs s t = RunCallback c) \<and> current_phase s = next_phase c \<and> callbacks_run s = callbacks_until c) \<or>
     callbacks_run s = callbacks_until (current_phase s))"
  using shutdown_reach_ok [OF assms] unfolding phases_ok_def one_inside_def by blast

section \<open>Requests, forced shutdowns and waits that are lost\<close>

definition sd_state :: "shutdown_phase \<Rightarrow> bool \<Rightarrow> bool \<Rightarrow> advance_pc \<Rightarrow> advance_pc \<Rightarrow> wait_pc \<Rightarrow> shutdown_phase list \<Rightarrow> nat \<Rightarrow>
    shutdown_manager" where
  "sd_state p adv pend a b w log n = \<lparr>current_phase = p, shutdown_requested = False, is_advancing = adv, pending_advance = pend,
     adv_pcs = (\<lambda>_. Away)(0 := a, 1 := b), waiter = w, callbacks_run = log, requests = n\<rparr>"

lemma sd_moves:
  "ShutdownManager = sd_state Normal False False Away Away NotWaiting [] 0"
  "adv_pcs (sd_state p adv pend a b w log n) 0 = a" "adv_pcs (sd_state p adv pend a b w log n) (Suc 0) = b"
  "goto_adv 0 a' (sd_state p adv pend a b w log n) = sd_state p adv pend a' b w log n"
  "goto_adv (Suc 0) b' (sd_state p adv pend a b w log n) = sd_state p adv pend a b' w log n"
  "sd_state p adv pend a b w log n\<lparr>is_advancing := v\<rparr> = sd_state p v pend a b w log n"
  "sd_state p adv pend a b w log n\<lparr>pending_advance := v\<rparr> = sd_state p adv v a b w log n"
  "sd_state p adv pend a b w log n\<lparr>current_phase := q\<rparr> = sd_state q adv pend a b w log n"
  "sd_state p adv pend a b w log n\<lparr>waiter := w'\<rparr> = sd_state p adv pend a b w' log n"
  "sd_state p adv pend a b w log n\<lparr>callbacks_run := l'\<rparr> = sd_state p adv pend a b w l' n"
  "sd_state p adv pend a b w log n\<lparr>requests := m\<rparr> = sd_state p adv pend a b w log m"
  "is_advancing (sd_state p adv pend a b w log n) = adv" "pending_advance (sd_state p adv pend a b w log n) = pend"
  "current_phase (sd_state p adv pend a b w log n) = p" "waiter (sd_state p adv pend a b w log n) = w"
  "callbacks_run (sd_state p adv pend a b w log n) = log" "requests (sd_state p adv pend a b w log n) = n"
  by (simp_all add: sd_state_def ShutdownManager_def goto_adv_def fun_eq_iff)

lemma sd_run:
  assumes "shutdown_reach f s"
  shows "shutdown_reach f (run_advance False 0 (adv_pcs s 0) s)" "shutdown_reach f (run_advance False (Suc 0) (adv_pcs s (Suc 0)) s)"
    "shutdown_reach f (run_waiter (waiter s) s)"
    "adv_pcs s 0 = Away \<Longrightarrow> shutdown_reach f (NextPhase 0 s)" "adv_pcs s (Suc 0) = Away \<Longrightarrow> shutdown_reach f (NextPhase (Suc 0) s)"
  using shutdown_reach.step [OF assms] shutdown_step.intros by blast+

lemmas sd_simps = sd_moves NextPhase_def notify_all_def

text \<open>Thread 0 advances by one phase while nobody else moves.\<close>

lemma sd_enter:
  assumes "shutdown_reach f (sd_state p False False Away Away w log n)" and "p \<noteq> Done"
  shows "shutdown_reach f (sd_state p True False (StorePhase p) Away w log (Suc n))"
proof -
  from sd_run(4) [OF assms(1)] have "shutdown_reach f (sd_state p False False TryEnter Away w log (Suc n))" by (simp add: sd_simps)
  from sd_run(1) [OF this] have "shutdown_reach f (sd_state p True False LoadPhase Away w log (Suc n))" by (simp add: sd_simps)
  from sd_run(1) [OF this] show ?thesis using assms(2) by (simp add: sd_simps)
qed

lemma sd_store:
  assumes "shutdown_reach f (sd_state q True False (StorePhase p) Away w log n)" and "w \<noteq> Blocked"
  shows "shutdown_reach f (sd_state (next_phase p) True False TakeRequest Away w (log @ phase_callback p) n)"
proof -
  from sd_run(1) [OF assms(1)] have "shutdown_reach f (sd_state (next_phase p) True False (RunCallback p) Away w log n)"
    using assms(2) by (simp add: sd_simps)
  from sd_run(1) [OF this] show ?thesis by (simp add: sd_simps)
qed

lemma sd_leave:
  assumes "shutdown_reach f (sd_state p True False TakeRequest Away w log n)"
  shows "shutdown_reach f (sd_state p False False Away Away w log n)"
proof -
  from sd_run(1) [OF assms] have "shutdown_reach f (sd_state p True False Release Away w log n)" by (simp add: sd_simps)
  from sd_run(1) [OF this] have "shutdown_reach f (sd_state p False False DropRequest Away w log n)" by (simp add: sd_simps)
  from sd_run(1) [OF this] show ?thesis by (simp add: sd_simps)
qed

lemma sd_start: "shutdown_reach f (sd_state Normal False False Away Away NotWaiting [] 0)"
  using shutdown_reach.init by (simp add: sd_moves(1))

lemma sd_phase:
  assumes "shutdown_reach f (sd_state p False False Away Away w log n)" and "p \<noteq> Done" and "w \<noteq> Blocked"
  shows "shutdown_reach f (sd_state (next_phase p) False False Away Away w (log @ phase_callback p) (Suc n))"
  by (rule sd_leave sd_store sd_enter assms)+

lemma sd_cleaning:
  "shutdown_reach f (sd_state Cleaning False False Away Away NotWaiting [StoppingIO, CompletingTimers, ProcessingTasks, Cleaning] 4)"
proof -
  note p = phase_callback_def numeral_eq_Suc
  have "shutdown_reach f (sd_state StoppingIO False False Away Away NotWaiting [StoppingIO] 1)"
    using sd_phase [OF sd_start] by (simp add: p)
  from sd_phase [OF this] have "shutdown_reach f (sd_state CompletingTimers False False Away Away NotWaiting [StoppingIO, CompletingTimers] 2)"
    by (simp add: p)
  from sd_phase [OF this] have "shutdown_reach f (sd_state ProcessingTasks False False Away Away NotWaiting
      [StoppingIO, CompletingTimers, ProcessingTasks] 3)" by (simp add: p)
  from sd_phase [OF this] show ?thesis by (simp add: p)
qed

text \<open>
  A request is lost when it is left after \<^verbatim>\<open>TakeRequest\<close> and before the guard clears the flag for good.
\<close>

lemma request_lost: "shutdown_reach f (sd_state StoppingIO False False Away Away NotWaiting [StoppingIO] 2)"
proof -
  have "shutdown_reach f (sd_state StoppingIO True False TakeRequest Away NotWaiting [StoppingIO] 1)"
    using sd_store [OF sd_enter [OF sd_start]] by (simp add: phase_callback_def)
  from sd_run(1) [OF this] have "shutdown_reach f (sd_state StoppingIO True False Release Away NotWaiting [StoppingIO] 1)"
    by (simp add: sd_simps)
  from sd_run(5) [OF this] have "shutdown_reach f (sd_state StoppingIO True False Release TryEnter NotWaiting [StoppingIO] 2)"
    by (simp add: sd_simps numeral_eq_Suc)
  from sd_run(2) [OF this] have "shutdown_reach f (sd_state StoppingIO True False Release LeaveRequest NotWaiting [StoppingIO] 2)"
    by (simp add: sd_simps)
  from sd_run(1) [OF this] have "shutdown_reach f (sd_state StoppingIO False False DropRequest LeaveRequest NotWaiting [StoppingIO] 2)"
    by (simp add: sd_simps)
  from sd_run(2) [OF this] have "shutdown_reach f (sd_state StoppingIO False True DropRequest Away NotWaiting [StoppingIO] 2)"
    by (simp add: sd_simps)
  from sd_run(1) [OF this] show ?thesis by (simp add: sd_simps)
qed

text \<open>
  \<^verbatim>\<open>ForceShutdown\<close> between the load and the store of the phase is overwritten.
\<close>

lemma forced_undone:
  "shutdown_reach True (sd_state Done True False (StorePhase Normal) Away NotWaiting [] 1)"
  "shutdown_reach True (sd_state StoppingIO False False Away Away NotWaiting [StoppingIO] 1)"
proof -
  have e: "shutdown_reach True (sd_state Normal True False (StorePhase Normal) Away NotWaiting [] 1)"
    using sd_enter [OF sd_start] by simp
  have f: "waiter s \<noteq> AboutToBlock \<Longrightarrow> shutdown_step True s (ForceShutdown s)" for s by (rule shutdown_step.forced) simp_all
  show d: "shutdown_reach True (sd_state Done True False (StorePhase Normal) Away NotWaiting [] 1)"
    using shutdown_reach.step [OF e f] by (simp add: ForceShutdown_def sd_simps)
  show "shutdown_reach True (sd_state StoppingIO False False Away Away NotWaiting [StoppingIO] 1)"
    using sd_leave [OF sd_store [OF d]] by (simp add: phase_callback_def)
qed

text \<open>
  \<^verbatim>\<open>AdvancePhase\<close> stores the phase and notifies without the mutex of \<^verbatim>\<open>WaitForShutdown\<close>: a waiter that has tested the
  phase and not yet blocked misses the notification and is never woken again.
\<close>

lemma wakeup_missed: "shutdown_reach f (sd_state Done False False Away Away Blocked [StoppingIO, CompletingTimers, ProcessingTasks, Cleaning] 5)"
proof -
  let ?l = "[StoppingIO, CompletingTimers, ProcessingTasks, Cleaning]"
  from sd_run(3) [OF sd_cleaning] have "shutdown_reach f (sd_state Cleaning False False Away Away CheckDone ?l 4)" by (simp add: sd_simps)
  from sd_run(3) [OF this] have "shutdown_reach f (sd_state Cleaning False False Away Away AboutToBlock ?l 4)" by (simp add: sd_simps)
  from sd_phase [OF this] have "shutdown_reach f (sd_state Done False False Away Away AboutToBlock ?l 5)"
    by (simp add: phase_callback_def numeral_eq_Suc)
  from sd_run(3) [OF this] show ?thesis by (simp add: sd_simps)
qed

text \<open>
  Three ways in which the shutdown goes wrong: two calls of \<^verbatim>\<open>NextPhase\<close> have returned and only one phase was entered,
  with nothing left to do; after \<^verbatim>\<open>ForceShutdown\<close> the phase is no longer \<^verbatim>\<open>Done\<close>; the shutdown is done and the waiting
  thread blocks forever.
\<close>

theorem shutdown_can_be_lost:
  "(\<exists>s. shutdown_reach False s \<and> requests s = 2 \<and> (\<forall>t. adv_pcs s t = Away) \<and> current_phase s = StoppingIO \<and> \<not> pending_advance s) \<and>
   (\<exists>s. shutdown_reach True s \<and> current_phase s = Done \<and> current_phase (run_advance False 0 (adv_pcs s 0) s) = StoppingIO) \<and>
   (\<exists>s. shutdown_reach False s \<and> current_phase s = Done \<and> waiter s = Blocked \<and> (\<forall>t. adv_pcs s t = Away))"
proof (intro conjI)
  show "\<exists>s. shutdown_reach False s \<and> requests s = 2 \<and> (\<forall>t. adv_pcs s t = Away) \<and> current_phase s = StoppingIO \<and> \<not> pending_advance s"
    using request_lost [of False] by (intro exI [of _ "sd_state StoppingIO False False Away Away NotWaiting [StoppingIO] 2"])
      (simp add: sd_state_def)
  show "\<exists>s. shutdown_reach True s \<and> current_phase s = Done \<and> current_phase (run_advance False 0 (adv_pcs s 0) s) = StoppingIO"
    using forced_undone(1) by (intro exI [of _ "sd_state Done True False (StorePhase Normal) Away NotWaiting [] 1"])
      (simp add: sd_simps)
  show "\<exists>s. shutdown_reach False s \<and> current_phase s = Done \<and> waiter s = Blocked \<and> (\<forall>t. adv_pcs s t = Away)"
    using wakeup_missed [of False]
    by (intro exI [of _ "sd_state Done False False Away Away Blocked [StoppingIO, CompletingTimers, ProcessingTasks, Cleaning] 5"])
      (simp add: sd_state_def)
qed

theorem shutdown_phases_in_order_witness:
  "\<exists>s. shutdown_reach False s \<and> current_phase s = Cleaning \<and> callbacks_run s = [StoppingIO, CompletingTimers, ProcessingTasks, Cleaning]"
  using shutdown_phases_in_order [OF sd_cleaning] sd_cleaning [of False]
  by (intro exI [of _ "sd_state Cleaning False False Away Away NotWaiting [StoppingIO, CompletingTimers, ProcessingTasks, Cleaning] 4"])
    (simp add: sd_moves)

end
