(* ===== verification/Db_Pool.thy ===== *)
theory Db_Pool
  imports Gb_Prelude "HOL-Library.Multiset"
begin

text \<open>
  \<^verbatim>\<open>DbConnectionPool\<close> (\<^verbatim>\<open>src/db/postgres/db_pool.h\<close>, \<^verbatim>\<open>src/db/postgres/db_pool.cpp\<close>). Its operations run one after
  the other on the pool's IO thread. Connections are numbered in the order in which they are created; whether one is
  connected when it is looked at (\<open>up\<close>), and whether \<^verbatim>\<open>CreateConnectionSync\<close> succeeds, is given with each operation. The
  theorems: a connection is lent to one user at a time, the limit on connections is kept, every \<^verbatim>\<open>Acquire\<close> is answered at
  most once and in turn; the counter of active connections goes wrong, and waiters can be forgotten.
\<close>

section \<open>State and operations\<close>

record db_config =
  min_pool_size :: nat
  max_pool_size :: nat

text \<open>\<open>lent\<close>, \<open>asked\<close>, \<open>answers\<close> and \<open>handovers\<close> record what the pool did; \<open>next_conn\<close> numbers the connections.\<close>

record db_pool =
  db_cfg :: db_config
  idle :: "nat list"
  total_connections :: u64
  idle_count :: u64
  active_count :: u64
  db_running :: bool
  waiters :: "nat list"
  heartbeat_armed :: bool
  next_conn :: nat
  lent :: "nat list"
  asked :: "nat list"
  answers :: "(nat \<times> nat option) list"
  handovers :: nat

definition DbConnectionPool :: "db_config \<Rightarrow> db_pool" where
  "DbConnectionPool cfg =
     \<lparr>db_cfg = \<lparr>min_pool_size = (if min_pool_size cfg = 0 then 4 else min_pool_size cfg),
                max_pool_size = (if max_pool_size cfg = 0 then 32 else max_pool_size cfg)\<rparr>,
      idle = [], total_connections = 0, idle_count = 0, active_count = 0, db_running = False, waiters = [],
      heartbeat_armed = False, next_conn = 0, lent = [], asked = [], answers = [], handovers = 0\<rparr>"

text \<open>A new connection goes to the idle queue.\<close>

definition add_idle :: "db_pool \<Rightarrow> db_pool" where
  "add_idle s = s\<lparr>idle := idle s @ [next_conn s], next_conn := next_conn s + 1, idle_count := idle_count s + 1,
     total_connections := total_connections s + 1\<rparr>"

text \<open>\<^verbatim>\<open>Start\<close>: \<open>oks\<close> are the results of the attempts to connect, in order.\<close>

definition Start :: "(nat \<Rightarrow> bool) \<Rightarrow> db_pool \<Rightarrow> bool \<times> db_pool" where
  "Start oks s =
     (let to_create = min (min_pool_size (db_cfg s)) (max_pool_size (db_cfg s));
          created = length (filter oks [0..<to_create]);
          s1 = fold (\<lambda>i s. if oks i then add_idle s else s) [0..<to_create] (s\<lparr>db_running := True\<rparr>)
      in (created > 0 \<or> to_create = 0, s1\<lparr>heartbeat_armed := True\<rparr>))"

definition answer :: "nat \<Rightarrow> nat option \<Rightarrow> db_pool \<Rightarrow> db_pool" where
  "answer promise conn s = s\<lparr>answers := answers s @ [(promise, conn)],
     lent := (case conn of None \<Rightarrow> lent s | Some c \<Rightarrow> lent s @ [c])\<rparr>"

text \<open>\<^verbatim>\<open>Stop\<close>: every idle connection is closed, every waiter gets a null connection.\<close>

definition Stop :: "db_pool \<Rightarrow> db_pool" where
  "Stop s =
     (let n = of_nat (length (idle s));
          s1 = s\<lparr>db_running := False, heartbeat_armed := False, idle := [], idle_count := idle_count s - n,
                 total_connections := total_connections s - n, waiters := []\<rparr>
      in fold (\<lambda>w. answer w None) (waiters s) s1)"

text \<open>\<^verbatim>\<open>DoAcquire\<close>; \<open>ok\<close> is the result of \<^verbatim>\<open>CreateConnectionSync\<close>, if it is called.\<close>

definition acquire_new :: "bool \<Rightarrow> nat \<Rightarrow> db_pool \<Rightarrow> db_pool" where
  "acquire_new ok promise s =
     (if unat (total_connections s) < max_pool_size (db_cfg s) \<and> ok
      then answer promise (Some (next_conn s))
             (s\<lparr>next_conn := next_conn s + 1, total_connections := total_connections s + 1, active_count := active_count s + 1\<rparr>)
      else s\<lparr>waiters := waiters s @ [promise]\<rparr>)"

definition DoAcquire :: "(nat \<Rightarrow> bool) \<Rightarrow> bool \<Rightarrow> nat \<Rightarrow> db_pool \<Rightarrow> db_pool" where
  "DoAcquire up ok promise s0 =
     (let s = s0\<lparr>asked := asked s0 @ [promise]\<rparr>
      in case idle s of
           [] \<Rightarrow> acquire_new ok promise s
         | c # cs \<Rightarrow>
             (let s1 = s\<lparr>idle := cs, idle_count := idle_count s - 1\<rparr>
              in if up c then answer promise (Some c) (s1\<lparr>active_count := active_count s1 + 1\<rparr>)
                 else acquire_new ok promise (s1\<lparr>total_connections := total_connections s1 - 1\<rparr>)))"

definition DoRelease :: "(nat \<Rightarrow> bool) \<Rightarrow> nat \<Rightarrow> db_pool \<Rightarrow> db_pool" where
  "DoRelease up conn s0 =
     (let s = s0\<lparr>lent := remove1 conn (lent s0)\<rparr>
      in if \<not> up conn
         then s\<lparr>total_connections := total_connections s - 1, active_count := active_count s - 1\<rparr>
         else case waiters s of
           w # ws \<Rightarrow> answer w (Some conn) (s\<lparr>waiters := ws, active_count := active_count s - 1, handovers := handovers s + 1\<rparr>)
         | [] \<Rightarrow> s\<lparr>idle := idle s @ [conn], idle_count := idle_count s + 1, active_count := active_count s - 1\<rparr>)"

text \<open>
  \<^verbatim>\<open>OnHeartbeat\<close>: drop the idle connections that are down, then connect until \<^verbatim>\<open>min_pool_size\<close>, giving up at the first
  failure: the attempt with the number \<open>k\<close> succeeds if \<open>oks k\<close>.
\<close>

fun refill :: "(nat \<Rightarrow> bool) \<Rightarrow> nat \<Rightarrow> nat \<Rightarrow> db_pool \<Rightarrow> db_pool" where
  "refill oks k 0 s = s"
| "refill oks k (Suc missing) s = (if oks k then refill oks (k + 1) missing (add_idle s) else s)"

definition OnHeartbeat :: "bool \<Rightarrow> (nat \<Rightarrow> bool) \<Rightarrow> (nat \<Rightarrow> bool) \<Rightarrow> db_pool \<Rightarrow> db_pool" where
  "OnHeartbeat ec up oks s =
     (if ec \<or> \<not> db_running s then s\<lparr>heartbeat_armed := False\<rparr>
      else (let checked = filter up (idle s);
                dropped = length (idle s) - length checked;
                s1 = s\<lparr>idle := checked, idle_count := idle_count s - of_nat (length (idle s)) + of_nat (length checked),
                       total_connections := total_connections s - of_nat dropped\<rparr>
            in refill oks 0 (min_pool_size (db_cfg s1) - unat (total_connections s1)) s1))"

text \<open>
  The operations in any order, after one \<^verbatim>\<open>Start\<close>. A promise is new, and a user gives back a connection it holds (\<^verbatim>\<open>Release\<close> ignores a
  null connection). What a second \<^verbatim>\<open>Start\<close> and a second \<^verbatim>\<open>Release\<close> do is shown at the end.
\<close>

inductive db_step :: "db_pool \<Rightarrow> db_pool \<Rightarrow> bool" where
  acquire: "promise \<notin> set (asked s) \<Longrightarrow> db_step s (DoAcquire up ok promise s)"
| release: "conn \<in> set (lent s) \<Longrightarrow> db_step s (DoRelease up conn s)"
| stop: "db_step s (Stop s)"
| heartbeat: "heartbeat_armed s \<Longrightarrow> db_step s (OnHeartbeat ec up oks s)"

inductive db_reach :: "db_config \<Rightarrow> db_pool \<Rightarrow> bool" for cfg where
  start: "db_reach cfg (snd (Start oks (DbConnectionPool cfg)))"
| step: "db_reach cfg s \<Longrightarrow> db_step s s' \<Longrightarrow> db_reach cfg s'"

section \<open>What always holds\<close>

definition pool_limit :: "db_pool \<Rightarrow> nat" where
  "pool_limit s = max (min_pool_size (db_cfg s)) (max_pool_size (db_cfg s))"

definition owners_ok :: "db_pool \<Rightarrow> bool" where
  "owners_ok s \<longleftrightarrow> distinct (idle s @ lent s) \<and> (\<forall>c \<in> set (idle s @ lent s). c < next_conn s)"

definition counts_ok :: "db_pool \<Rightarrow> bool" where
  "counts_ok s \<longleftrightarrow>
     length (idle s) + length (lent s) \<le> pool_limit s \<and> pool_limit s < 2 ^ 64 \<and>
     idle_count s = of_nat (length (idle s)) \<and> total_connections s = of_nat (length (idle s) + length (lent s)) \<and>
     active_count s = of_nat (length (lent s)) - of_nat (handovers s)"

definition promises_ok :: "db_pool \<Rightarrow> bool" where
  "promises_ok s \<longleftrightarrow> distinct (asked s) \<and> mset (asked s) = mset (map fst (answers s)) + mset (waiters s)"

definition db_inv :: "db_pool \<Rightarrow> bool" where
  "db_inv s \<longleftrightarrow> owners_ok s \<and> counts_ok s \<and> promises_ok s"

lemma answer_simps [simp]:
  "idle (answer p c s) = idle s" "waiters (answer p c s) = waiters s" "asked (answer p c s) = asked s"
  "answers (answer p c s) = answers s @ [(p, c)]" "lent (answer p c s) = (case c of None \<Rightarrow> lent s | Some c \<Rightarrow> lent s @ [c])"
  "idle_count (answer p c s) = idle_count s" "total_connections (answer p c s) = total_connections s"
  "active_count (answer p c s) = active_count s" "next_conn (answer p c s) = next_conn s" "db_cfg (answer p c s) = db_cfg s"
  "handovers (answer p c s) = handovers s" "pool_limit (answer p c s) = pool_limit s"
  "db_running (answer p c s) = db_running s" "heartbeat_armed (answer p c s) = heartbeat_armed s"
  by (simp_all add: answer_def pool_limit_def)

lemma answers_null:
  "fold (\<lambda>w. answer w None) ws s = s\<lparr>answers := answers s @ map (\<lambda>w. (w, None)) ws\<rparr>"
  by (induction ws arbitrary: s) (simp_all add: answer_def)

lemma total_small: "counts_ok s \<Longrightarrow> unat (total_connections s) = length (idle s) + length (lent s)"
  by (simp add: counts_ok_def unsigned_of_nat take_bit_nat_eq_self del: of_nat_add)

lemma add_idle_inv:
  assumes "owners_ok s" "counts_ok s" and "length (idle s) + length (lent s) < pool_limit s"
  shows "owners_ok (add_idle s) \<and> counts_ok (add_idle s) \<and> pool_limit (add_idle s) = pool_limit s"
  using assms by (auto simp: owners_ok_def counts_ok_def add_idle_def pool_limit_def less_Suc_eq)

lemma acquire_new_inv:
  assumes o: "owners_ok s" and c: "counts_ok s"
    and p: "distinct (asked s)" "mset (asked s) = add_mset promise (mset (map fst (answers s)) + mset (waiters s))"
  shows "db_inv (acquire_new ok promise s)"
proof (cases "unat (total_connections s) < max_pool_size (db_cfg s) \<and> ok")
  case True
  then have "length (idle s) + length (lent s) < pool_limit s" using total_small [OF c] by (simp add: pool_limit_def less_max_iff_disj)
  then show ?thesis using True assms
    by (auto simp: acquire_new_def db_inv_def owners_ok_def counts_ok_def promises_ok_def pool_limit_def less_Suc_eq)
next
  case False
  then have "acquire_new ok promise s = s\<lparr>waiters := waiters s @ [promise]\<rparr>" by (auto simp: acquire_new_def)
  then show ?thesis using assms by (simp add: db_inv_def owners_ok_def counts_ok_def promises_ok_def pool_limit_def)
qed

lemma DoAcquire_inv:
  assumes inv: "db_inv s" and new: "promise \<notin> set (asked s)"
  shows "db_inv (DoAcquire up ok promise s)"
proof (cases "idle s")
  case Nil
  then have "DoAcquire up ok promise s = acquire_new ok promise (s\<lparr>asked := asked s @ [promise]\<rparr>)"
    by (simp add: DoAcquire_def)
  moreover have "db_inv (acquire_new ok promise (s\<lparr>asked := asked s @ [promise]\<rparr>))"
    by (rule acquire_new_inv) (use inv new in \<open>auto simp: db_inv_def owners_ok_def counts_ok_def promises_ok_def pool_limit_def\<close>)
  ultimately show ?thesis by simp
next
  case (Cons c cs)
  let ?s = "s\<lparr>asked := asked s @ [promise], idle := cs, idle_count := idle_count s - 1\<rparr>"
  show ?thesis
  proof (cases "up c")
    case True
    then have "DoAcquire up ok promise s = answer promise (Some c) (?s\<lparr>active_count := active_count s + 1\<rparr>)"
      using Cons by (simp add: DoAcquire_def)
    then show ?thesis using inv new Cons
      by (auto simp: db_inv_def owners_ok_def counts_ok_def promises_ok_def pool_limit_def)
  next
    case False
    then have "DoAcquire up ok promise s = acquire_new ok promise (?s\<lparr>total_connections := total_connections s - 1\<rparr>)"
      using Cons by (simp add: DoAcquire_def)
    moreover have "db_inv (acquire_new ok promise (?s\<lparr>total_connections := total_connections s - 1\<rparr>))"
      by (rule acquire_new_inv) (use inv new Cons in \<open>auto simp: db_inv_def owners_ok_def counts_ok_def promises_ok_def pool_limit_def\<close>)
    ultimately show ?thesis by simp
  qed
qed

lemma DoRelease_inv:
  assumes inv: "db_inv s" and c: "conn \<in> set (lent s)"
  shows "db_inv (DoRelease up conn s)"
proof -
  obtain xs ys where l: "lent s = xs @ conn # ys" "conn \<notin> set xs" using split_list_first [OF c] by blast
  then have r: "remove1 conn (lent s) = xs @ ys" by (simp add: remove1_append)
  show ?thesis
    using inv l unfolding DoRelease_def r
    by (cases "up conn"; cases "waiters s")
       (auto simp: Let_def db_inv_def owners_ok_def counts_ok_def promises_ok_def pool_limit_def algebra_simps)
qed

lemma Stop_inv: "db_inv s \<Longrightarrow> db_inv (Stop s)"
  by (auto simp: Stop_def Let_def answers_null db_inv_def owners_ok_def counts_ok_def promises_ok_def pool_limit_def comp_def)

lemma refill_inv:
  assumes "owners_ok s" "counts_ok s" "length (idle s) + length (lent s) + missing \<le> pool_limit s" "promises_ok s"
  shows "db_inv (refill oks k missing s)"
  using assms
proof (induction missing arbitrary: k s)
  case (Suc missing)
  then show ?case using add_idle_inv [of s] by (auto simp: db_inv_def add_idle_def promises_ok_def)
qed (simp add: db_inv_def)

lemma OnHeartbeat_inv:
  assumes inv: "db_inv s"
  shows "db_inv (OnHeartbeat ec up oks s)"
proof (cases "ec \<or> \<not> db_running s")
  case True
  then show ?thesis using inv by (simp add: OnHeartbeat_def db_inv_def owners_ok_def counts_ok_def promises_ok_def pool_limit_def)
next
  case False
  define checked where "checked = filter up (idle s)"
  define s1 where "s1 = s\<lparr>idle := checked, idle_count := idle_count s - of_nat (length (idle s)) + of_nat (length checked),
    total_connections := total_connections s - of_nat (length (idle s) - length checked)\<rparr>"
  have le: "length checked \<le> length (idle s)" by (simp add: checked_def)
  have sub: "set checked \<subseteq> set (idle s)" "distinct (idle s) \<longrightarrow> distinct checked" by (auto simp: checked_def)
  have o: "owners_ok s1" using inv sub by (auto simp: db_inv_def owners_ok_def s1_def)
  have "of_nat (length (idle s) - length checked) = (of_nat (length (idle s)) - of_nat (length checked) :: u64)"
    using le by (simp add: of_nat_diff)
  then have c: "counts_ok s1" using inv le by (simp add: db_inv_def counts_ok_def s1_def pool_limit_def)
  have lim: "length (idle s1) + length (lent s1) \<le> pool_limit s1" using c by (simp add: counts_ok_def)
  have "db_inv (refill oks 0 (min_pool_size (db_cfg s1) - unat (total_connections s1)) s1)"
    by (rule refill_inv) (use o c inv total_small [OF c] lim in \<open>auto simp: db_inv_def promises_ok_def s1_def pool_limit_def\<close>)
  then show ?thesis using False by (simp add: OnHeartbeat_def Let_def checked_def s1_def)
qed

lemma start_idle:
  assumes "db_inv s" and "length (idle s) + length (lent s) + length js \<le> pool_limit s"
  shows "db_inv (fold (\<lambda>i s. if oks i then add_idle s else s) js s)"
  using assms
proof (induction js arbitrary: s)
  case (Cons j js)
  have "db_inv (add_idle s)" "pool_limit (add_idle s) = pool_limit s" "length (idle (add_idle s)) = Suc (length (idle s))"
    "lent (add_idle s) = lent s"
    using add_idle_inv [of s] Cons.prems by (auto simp: db_inv_def add_idle_def promises_ok_def)
  then show ?case using Cons.IH [of "add_idle s"] Cons.IH [of s] Cons.prems by simp
qed simp

lemma Start_inv:
  assumes "min_pool_size cfg < 2 ^ 64" "max_pool_size cfg < 2 ^ 64"
  shows "db_inv (snd (Start oks (DbConnectionPool cfg)))"
proof -
  let ?s = "(DbConnectionPool cfg)\<lparr>db_running := True\<rparr>"
  let ?n = "min (min_pool_size (db_cfg ?s)) (max_pool_size (db_cfg ?s))"
  have "db_inv (fold (\<lambda>i s. if oks i then add_idle s else s) [0..<?n] ?s)"
    by (rule start_idle)
       (use assms in \<open>auto simp: DbConnectionPool_def db_inv_def owners_ok_def counts_ok_def promises_ok_def pool_limit_def\<close>)
  then show ?thesis
    by (simp add: Start_def Let_def DbConnectionPool_def db_inv_def owners_ok_def counts_ok_def promises_ok_def pool_limit_def)
qed

lemma db_reach_inv:
  assumes "min_pool_size cfg < 2 ^ 64" "max_pool_size cfg < 2 ^ 64"
  shows "db_reach cfg s \<Longrightarrow> db_inv s"
proof (induction rule: db_reach.induct)
  case start
  show ?case by (rule Start_inv [OF assms])
next
  case (step s s')
  from step(2) step.IH show ?case
    by cases (simp_all add: DoAcquire_inv DoRelease_inv Stop_inv OnHeartbeat_inv)
qed

lemma cfg_kept [simp]:
  "db_cfg (add_idle s) = db_cfg s" "db_cfg (acquire_new ok promise s) = db_cfg s" "db_cfg (DoAcquire up ok promise s) = db_cfg s"
  "db_cfg (DoRelease up conn s) = db_cfg s" "db_cfg (Stop s) = db_cfg s" "db_cfg (refill oks k n s) = db_cfg s"
  "db_cfg (OnHeartbeat ec up oks s) = db_cfg s"
proof -
  show a: "db_cfg (add_idle s) = db_cfg s" for s by (simp add: add_idle_def)
  show b: "db_cfg (acquire_new ok promise s) = db_cfg s" for s by (simp add: acquire_new_def)
  show r: "db_cfg (refill oks k n s) = db_cfg s" for k n s by (induction n arbitrary: k s) (simp_all add: a)
  show "db_cfg (DoAcquire up ok promise s) = db_cfg s" by (simp add: DoAcquire_def Let_def b split: list.split)
  show "db_cfg (DoRelease up conn s) = db_cfg s" by (simp add: DoRelease_def Let_def split: list.split)
  show "db_cfg (Stop s) = db_cfg s" by (simp add: Stop_def Let_def answers_null)
  show "db_cfg (OnHeartbeat ec up oks s) = db_cfg s" by (simp add: OnHeartbeat_def r Let_def)
qed

lemma fold_cfg: "db_cfg (fold (\<lambda>i s. if oks i then add_idle s else s) js s) = db_cfg s"
  by (induction js arbitrary: s) simp_all

lemma limit_const: "db_reach cfg s \<Longrightarrow> db_cfg s = db_cfg (DbConnectionPool cfg)"
proof (induction rule: db_reach.induct)
  case start
  show ?case by (simp add: Start_def Let_def fold_cfg)
next
  case (step s s')
  from step(2) step.IH show ?case by cases simp_all
qed

text \<open>
  In every history of a pool that is started once and whose users give back only what they hold, and once: no connection is idle and lent, or lent twice, at
  the same time; \<^verbatim>\<open>IdleCount\<close> and \<^verbatim>\<open>TotalCount\<close> are right, and the total never exceeds the larger of the two
  configured sizes; a request is waiting or has been answered, once.
\<close>

theorem db_pool_lends_once:
  assumes "min_pool_size cfg < 2 ^ 64" "max_pool_size cfg < 2 ^ 64" and "db_reach cfg s"
  shows "distinct (idle s @ lent s) \<and> unat (idle_count s) = length (idle s) \<and>
     unat (total_connections s) = length (idle s) + length (lent s) \<and> unat (total_connections s) \<le> pool_limit (DbConnectionPool cfg) \<and>
     distinct (map fst (answers s) @ waiters s) \<and> set (map fst (answers s) @ waiters s) = set (asked s)"
proof -
  have inv: "db_inv s" by (rule db_reach_inv [OF assms])
  then have c: "counts_ok s" by (simp add: db_inv_def)
  have p: "mset (asked s) = mset (map fst (answers s) @ waiters s)" "distinct (asked s)" using inv by (simp_all add: db_inv_def promises_ok_def)
  then have "distinct (map fst (answers s) @ waiters s) \<and> set (map fst (answers s) @ waiters s) = set (asked s)"
    by (metis mset_eq_imp_distinct_iff mset_eq_setD)
  moreover have "unat (idle_count s) = length (idle s)"
    using c by (simp add: counts_ok_def unsigned_of_nat take_bit_nat_eq_self)
  moreover have "pool_limit s = pool_limit (DbConnectionPool cfg)" using limit_const [OF assms(3)] by (simp add: pool_limit_def)
  ultimately show ?thesis using inv total_small [OF c] c by (simp add: db_inv_def owners_ok_def counts_ok_def)
qed

section \<open>What goes wrong\<close>

text \<open>A pool of at most one connection; two users take turns: the second waits until the first gives its connection back.\<close>

definition one_conn :: db_config where
  "one_conn = \<lparr>min_pool_size = 1, max_pool_size = 1\<rparr>"

definition handed_over :: db_pool where
  "handed_over = DoRelease (\<lambda>_. True) 0 (DoRelease (\<lambda>_. True) 0 (DoAcquire (\<lambda>_. True) True 2 (DoAcquire (\<lambda>_. True) True 1
     (snd (Start (\<lambda>_. True) (DbConnectionPool one_conn))))))"

lemmas db_ops = Start_def DbConnectionPool_def one_conn_def DoAcquire_def DoRelease_def answer_def add_idle_def acquire_new_def Let_def

lemma handed_over_reach: "db_reach one_conn handed_over"
proof -
  have 0: "db_reach one_conn (snd (Start (\<lambda>_. True) (DbConnectionPool one_conn)))" by (rule db_reach.start)
  have 1: "db_reach one_conn (DoAcquire (\<lambda>_. True) True 1 (snd (Start (\<lambda>_. True) (DbConnectionPool one_conn))))"
    by (rule db_reach.step [OF 0 db_step.acquire]) (simp add: db_ops)
  have 2: "db_reach one_conn (DoAcquire (\<lambda>_. True) True 2 (DoAcquire (\<lambda>_. True) True 1
      (snd (Start (\<lambda>_. True) (DbConnectionPool one_conn)))))"
    by (rule db_reach.step [OF 1 db_step.acquire]) (simp add: db_ops)
  have 3: "db_reach one_conn (DoRelease (\<lambda>_. True) 0 (DoAcquire (\<lambda>_. True) True 2 (DoAcquire (\<lambda>_. True) True 1
      (snd (Start (\<lambda>_. True) (DbConnectionPool one_conn))))))"
    by (rule db_reach.step [OF 2 db_step.release]) (simp add: db_ops)
  show ?thesis unfolding handed_over_def by (rule db_reach.step [OF 3 db_step.release]) (simp add: db_ops)
qed

theorem db_pool_lends_once_witness:
  "\<exists>s. db_reach one_conn s \<and> handovers s = 1 \<and> unat (total_connections s) = length (idle s) + length (lent s)"
  using db_pool_lends_once [OF _ _ handed_over_reach] handed_over_reach
  by (intro exI [of _ handed_over]) (simp add: one_conn_def handed_over_def db_ops)

text \<open>
  \<^verbatim>\<open>Start\<close> counts the connections it opens and not those that are lent: when the pool is stopped and started while a connection is lent, it
  has more than its limit. And \<^verbatim>\<open>DoRelease\<close> does not look who gives a connection back: given back twice, it is idle twice.
\<close>

theorem restart_exceeds_limit:
  "let s = snd (Start (\<lambda>_. True) (Stop (DoAcquire (\<lambda>_. True) True 1 (snd (Start (\<lambda>_. True) (DbConnectionPool one_conn))))))
   in idle s = [1] \<and> lent s = [0] \<and> total_connections s = 2 \<and> pool_limit s = 1"
  by (simp add: db_ops Stop_def pool_limit_def)

theorem double_release_idle_twice:
  "idle (DoRelease (\<lambda>_. True) 0 (DoRelease (\<lambda>_. True) 0 (DoAcquire (\<lambda>_. True) True 1
     (snd (Start (\<lambda>_. True) (DbConnectionPool one_conn)))))) = [0, 0]"
  by (simp add: db_ops)

text \<open>
  Handing a connection from one user to a waiter counts one active connection less and never one more: after both have
  given it back nobody holds a connection, and \<^verbatim>\<open>ActiveCount\<close> is the largest \<^verbatim>\<open>size_t\<close>.
\<close>

theorem active_count_underflows:
  "\<exists>s. db_reach one_conn s \<and> lent s = [] \<and> active_count s = 2 ^ 64 - 1"
  using handed_over_reach by (intro exI [of _ handed_over]) (simp add: handed_over_def db_ops)

text \<open>
  Nobody is woken when a broken connection is given back: the second user waits although the pool is empty and may open a
  connection; and the connection that the next heartbeat opens lies idle while that user goes on waiting.
\<close>

definition forgotten :: db_pool where
  "forgotten = DoRelease (\<lambda>_. False) 0 (DoAcquire (\<lambda>_. True) True 2 (DoAcquire (\<lambda>_. True) True 1
     (snd (Start (\<lambda>_. True) (DbConnectionPool one_conn)))))"

lemma waiter_forgotten:
  "\<exists>s. db_reach one_conn s \<and> waiters s = [2] \<and> lent s = [] \<and> total_connections s = 0 \<and>
     (let s' = OnHeartbeat False (\<lambda>_. True) (\<lambda>_. True) s in db_step s s' \<and> waiters s' = [2] \<and> idle s' = [1])"
proof -
  have 0: "db_reach one_conn (snd (Start (\<lambda>_. True) (DbConnectionPool one_conn)))" by (rule db_reach.start)
  have 1: "db_reach one_conn (DoAcquire (\<lambda>_. True) True 1 (snd (Start (\<lambda>_. True) (DbConnectionPool one_conn))))"
    by (rule db_reach.step [OF 0 db_step.acquire]) (simp add: db_ops)
  have 2: "db_reach one_conn (DoAcquire (\<lambda>_. True) True 2 (DoAcquire (\<lambda>_. True) True 1
      (snd (Start (\<lambda>_. True) (DbConnectionPool one_conn)))))"
    by (rule db_reach.step [OF 1 db_step.acquire]) (simp add: db_ops)
  have r: "db_reach one_conn forgotten"
    unfolding forgotten_def by (rule db_reach.step [OF 2 db_step.release]) (simp add: db_ops)
  have "heartbeat_armed forgotten" by (simp add: forgotten_def db_ops)
  then have "db_step forgotten (OnHeartbeat False (\<lambda>_. True) (\<lambda>_. True) forgotten)" by (rule db_step.heartbeat)
  moreover have "waiters forgotten = [2] \<and> lent forgotten = [] \<and> total_connections forgotten = 0" by (simp add: forgotten_def db_ops)
  moreover have "waiters (OnHeartbeat False (\<lambda>_. True) (\<lambda>_. True) forgotten) = [2] \<and>
      idle (OnHeartbeat False (\<lambda>_. True) (\<lambda>_. True) forgotten) = [1]"
    by (simp add: forgotten_def OnHeartbeat_def db_ops)
  ultimately show ?thesis using r by (auto simp: Let_def)
qed

end
