(* ===== verification/Decimal.thy ===== *)
theory Decimal
  imports Gb_Prelude
begin

text \<open>
  What the code uses of the C++ library for decimal numbers and searching in strings: \<^verbatim>\<open>std::to_string\<close>,
  \<^verbatim>\<open>strtoll\<close>, \<^verbatim>\<open>std::stoul\<close> and \<^verbatim>\<open>std::string::find\<close>. Strings are lists of characters without a null character.
\<close>

definition digit :: "nat \<Rightarrow> char" where
  "digit n = char_of (48 + n)"

definition is_digit :: "char \<Rightarrow> bool" where
  "is_digit c \<longleftrightarrow> 48 \<le> (of_char c :: nat) \<and> (of_char c :: nat) \<le> 57"

definition digit_val :: "char \<Rightarrow> nat" where
  "digit_val c = of_char c - 48"

fun to_dec :: "nat \<Rightarrow> string" where
  "to_dec n = (if n < 10 then [digit n] else to_dec (n div 10) @ [digit (n mod 10)])"

declare to_dec.simps [simp del]

definition to_string :: "int \<Rightarrow> string" where
  "to_string n = (if n < 0 then CHR ''-'' # to_dec (nat (- n)) else to_dec (nat n))"

definition dec_val :: "string \<Rightarrow> nat" where
  "dec_val s = foldl (\<lambda>a c. 10 * a + digit_val c) 0 s"

text \<open>\<^verbatim>\<open>isspace\<close> in the C locale.\<close>

definition is_space :: "char \<Rightarrow> bool" where
  "is_space c \<longleftrightarrow> (of_char c :: nat) = 32 \<or> (9 \<le> (of_char c :: nat) \<and> (of_char c :: nat) \<le> 13)"

text \<open>
  \<^verbatim>\<open>strtoll(s, &end, 10)\<close>: white space, a sign, digits; \<open>None\<close> when there is no digit (\<^verbatim>\<open>end == s\<close>), else the value,
  clamped to the range of \<^verbatim>\<open>long long\<close>.
\<close>

definition strtoll :: "string \<Rightarrow> int option" where
  "strtoll s =
     (let t = dropWhile is_space s;
          neg = (case t of c # _ \<Rightarrow> c = CHR ''-'' | [] \<Rightarrow> False);
          u = (case t of c # cs \<Rightarrow> if c = CHR ''-'' \<or> c = CHR ''+'' then cs else t | [] \<Rightarrow> []);
          ds = takeWhile is_digit u;
          v = (if neg then - int (dec_val ds) else int (dec_val ds))
      in if ds = [] then None else Some (max (- (2 ^ 63)) (min (2 ^ 63 - 1) v)))"

text \<open>\<^verbatim>\<open>std::stoul\<close>: as \<^verbatim>\<open>strtoul\<close>, a minus sign negates modulo \<open>2 ^ 64\<close>; \<open>None\<close> for the two exceptions.\<close>

definition stoul :: "string \<Rightarrow> nat option" where
  "stoul s =
     (let t = dropWhile is_space s;
          neg = (case t of c # _ \<Rightarrow> c = CHR ''-'' | [] \<Rightarrow> False);
          u = (case t of c # cs \<Rightarrow> if c = CHR ''-'' \<or> c = CHR ''+'' then cs else t | [] \<Rightarrow> []);
          ds = takeWhile is_digit u
      in if ds = [] \<or> dec_val ds \<ge> 2 ^ 64 then None
         else Some (if neg then (2 ^ 64 - dec_val ds) mod 2 ^ 64 else dec_val ds))"

text \<open>
  Doubles are a type of their own, with what the code uses of them as a parameter: \<^verbatim>\<open>strtod\<close> (\<open>None\<close> when it converts
  nothing), \<^verbatim>\<open>std::to_string\<close>, and the casts to and from integers and to \<^verbatim>\<open>float\<close>.
\<close>

record 'd floats =
  strtod :: "string \<Rightarrow> 'd option"
  d_to_string :: "'d \<Rightarrow> string"
  d_to_int :: "'d \<Rightarrow> int"
  d_of_int :: "int \<Rightarrow> 'd"
  d_to_float :: "'d \<Rightarrow> 'd"

text \<open>Integers in the place of doubles, to run the definitions.\<close>

definition int_floats :: "int floats" where
  "int_floats = \<lparr>strtod = strtoll, d_to_string = to_string, d_to_int = id, d_of_int = id, d_to_float = id\<rparr>"

fun find_sub :: "string \<Rightarrow> string \<Rightarrow> nat option" where
  "find_sub pat [] = (if pat = [] then Some 0 else None)"
| "find_sub pat (c # cs) = (if take (length pat) (c # cs) = pat then Some 0 else map_option Suc (find_sub pat cs))"

definition find_string :: "string \<Rightarrow> string \<Rightarrow> nat \<Rightarrow> nat option" where
  "find_string s pat pos = map_option (\<lambda>i. pos + i) (find_sub pat (drop pos s))"

section \<open>Printing and reading\<close>

lemma digit_facts: "n < 10 \<Longrightarrow> is_digit (digit n) \<and> digit_val (digit n) = n"
  by (simp add: is_digit_def digit_def digit_val_def)

lemma dec_val_snoc: "dec_val (s @ [c]) = 10 * dec_val s + digit_val c"
  by (simp add: dec_val_def)

lemma to_dec_digits: "\<forall>c \<in> set (to_dec n). is_digit c"
proof (induction n rule: to_dec.induct)
  case (1 n)
  then show ?case by (subst to_dec.simps) (auto simp: digit_facts)
qed

lemma to_dec_nonempty: "to_dec n \<noteq> []"
  by (subst to_dec.simps) simp

lemma dec_val_to_dec [simp]: "dec_val (to_dec n) = n"
proof (induction n rule: to_dec.induct)
  case (1 n)
  show ?case
  proof (cases "n < 10")
    case True
    then show ?thesis by (subst to_dec.simps) (simp add: dec_val_def digit_facts)
  next
    case False
    then show ?thesis using 1 by (subst to_dec.simps) (simp add: dec_val_snoc digit_facts)
  qed
qed

lemma to_dec_inj: "to_dec m = to_dec n \<longleftrightarrow> m = n"
  by (metis dec_val_to_dec)

lemma takeWhile_digits: "takeWhile is_digit (to_dec n @ s) = to_dec n @ takeWhile is_digit s"
  by (simp add: takeWhile_append2 to_dec_digits)

lemma takeWhile_to_dec: "takeWhile is_digit (to_dec n) = to_dec n"
  using takeWhile_digits [of n "[]"] by simp

lemma digit_not_space: "is_digit c \<Longrightarrow> \<not> is_space c \<and> c \<noteq> CHR ''-'' \<and> c \<noteq> CHR ''+'' \<and> c \<noteq> CHR ''.''"
  by (auto simp: is_digit_def is_space_def)

lemma to_dec_split:
  obtains c cs where "to_dec n = c # cs" "is_digit c" "takeWhile is_digit cs = cs" "dec_val (c # cs) = n"
proof -
  obtain c cs where d: "to_dec n = c # cs" using to_dec_nonempty by (cases "to_dec n") auto
  then show thesis using that to_dec_digits [of n] dec_val_to_dec [of n] by (simp add: takeWhile_eq_all_conv)
qed

lemma stoul_to_dec:
  assumes "n < 2 ^ 64"
  shows "stoul (to_dec n) = Some n"
proof -
  obtain c cs where d: "to_dec n = c # cs" "is_digit c" "takeWhile is_digit cs = cs" "dec_val (c # cs) = n"
    by (rule to_dec_split)
  show ?thesis using assms digit_not_space [OF d(2)] by (simp add: stoul_def Let_def d)
qed

lemma strtoll_to_string:
  assumes "- (2 ^ 63) \<le> n" and "n < 2 ^ 63"
  shows "strtoll (to_string n) = Some n"
proof (cases "n < 0")
  case True
  then show ?thesis using assms
    by (simp add: strtoll_def to_string_def to_dec_nonempty is_space_def takeWhile_to_dec Let_def)
next
  case False
  obtain c cs where d: "to_dec (nat n) = c # cs" "is_digit c" "takeWhile is_digit cs = cs" "dec_val (c # cs) = nat n"
    by (rule to_dec_split)
  show ?thesis using False assms digit_not_space [OF d(2)] by (simp add: strtoll_def to_string_def Let_def d)
qed

end
