(* ===== verification/Nats.thy ===== *)
theory Nats
  imports Decimal Message_Meta
begin

text \<open>
  \<^verbatim>\<open>NatsManager\<close> (\<^verbatim>\<open>src/network/nats/nats_manager.h\<close>, \<^verbatim>\<open>src/network/nats/nats_manager.cpp\<close>): matching of subjects,
  and inbox names. The theorems: the wildcard loop is the matching of NATS tokens, and an inbox name leads back to its
  worker. The tables of subscriptions and requests that use them are in \<^verbatim>\<open>Nats_Requests\<close>.
\<close>

section \<open>Matching subjects\<close>

fun nats_loop :: "string \<Rightarrow> string \<Rightarrow> bool" where
  "nats_loop (p # ps) (s # ss) =
     (if p = CHR ''*'' then nats_loop ps (dropWhile (\<lambda>c. c \<noteq> CHR ''.'') (s # ss))
      else if p = CHR ''>'' then True
      else if p = s then nats_loop ps ss
      else False)"
| "nats_loop ps ss \<longleftrightarrow> ps = [] \<and> ss = [] \<or> ps = ''>''"

definition NatsWildcardMatch :: "string \<Rightarrow> string \<Rightarrow> bool" where
  "NatsWildcardMatch pattern subject \<longleftrightarrow> pattern = ''>'' \<or> nats_loop pattern subject"

definition MatchSub :: "string \<Rightarrow> string \<Rightarrow> bool" where
  "MatchSub pattern subject \<longleftrightarrow> pattern = subject \<or> NatsWildcardMatch pattern subject"

text \<open>
  What a subscription means to NATS: subjects are tokens separated by dots; \<^verbatim>\<open>*\<close> stands for one token, \<^verbatim>\<open>>\<close>, at the end, for
  one or more.
\<close>

fun match_tokens :: "string list \<Rightarrow> string list \<Rightarrow> bool" where
  "match_tokens [] [] = True"
| "match_tokens (p # ps) (t # ts) = (p = ''>'' \<or> (p = ''*'' \<or> p = t) \<and> match_tokens ps ts)"
| "match_tokens _ _ = False"

fun dotted :: "string list \<Rightarrow> string" where
  "dotted [] = []"
| "dotted [t] = t"
| "dotted (t # ts) = t @ CHR ''.'' # dotted ts"

definition plain_token :: "string \<Rightarrow> bool" where
  "plain_token t \<longleftrightarrow> t \<noteq> [] \<and> CHR ''.'' \<notin> set t \<and> CHR ''*'' \<notin> set t \<and> CHR ''>'' \<notin> set t"

fun nats_pattern :: "string list \<Rightarrow> bool" where
  "nats_pattern [] = False"
| "nats_pattern [t] \<longleftrightarrow> plain_token t \<or> t = ''*'' \<or> t = ''>''"
| "nats_pattern (t # ts) \<longleftrightarrow> (plain_token t \<or> t = ''*'') \<and> nats_pattern ts"

definition nats_subject :: "string list \<Rightarrow> bool" where
  "nats_subject ts \<longleftrightarrow> ts \<noteq> [] \<and> list_all plain_token ts"

lemma dotted_Cons: "ts \<noteq> [] \<Longrightarrow> dotted (t # ts) = t @ CHR ''.'' # dotted ts"
  by (cases ts) simp_all

lemma nats_pattern_Cons: "ts \<noteq> [] \<Longrightarrow> nats_pattern (t # ts) \<longleftrightarrow> (plain_token t \<or> t = ''*'') \<and> nats_pattern ts"
  by (cases ts) simp_all

lemma nats_loop_Nil: "nats_loop [] s \<longleftrightarrow> s = []" "nats_loop p [] \<longleftrightarrow> p = [] \<or> p = ''>''"
  by (cases s; simp) (cases p; simp)

lemma drop_token:
  assumes "plain_token t"
  shows "dropWhile (\<lambda>c. c \<noteq> CHR ''.'') (t @ CHR ''.'' # s) = CHR ''.'' # s" "dropWhile (\<lambda>c. c \<noteq> CHR ''.'') t = []"
  using assms by (auto simp: plain_token_def dropWhile_append dropWhile_eq_Nil_conv)

text \<open>The loop against one token: a plain token of the pattern must be equal to the token of the subject.\<close>

definition ends_token :: "string \<Rightarrow> bool" where
  "ends_token s \<longleftrightarrow> s = [] \<or> (\<exists>u. s = CHR ''.'' # u)"

lemma loop_plain:
  assumes "plain_token p \<or> p = []" and "CHR ''.'' \<notin> set t" and "ends_token pr" and "ends_token sr"
  shows "nats_loop (p @ pr) (t @ sr) \<longleftrightarrow> p = t \<and> nats_loop pr sr"
  using assms
proof (induction p arbitrary: t)
  case Nil
  show ?case
  proof (cases t)
    case (Cons c cs)
    then have "c \<noteq> CHR ''.''" using Nil.prems by auto
    then show ?thesis using Nil.prems Cons by (auto simp: ends_token_def nats_loop_Nil)
  qed simp
next
  case (Cons c cs)
  then have c: "c \<noteq> CHR ''*''" "c \<noteq> CHR ''>''" "c \<noteq> CHR ''.''" "plain_token cs \<or> cs = []" by (auto simp: plain_token_def)
  show ?case
  proof (cases t)
    case Nil
    then show ?thesis using Cons.prems c by (auto simp: ends_token_def nats_loop_Nil)
  next
    case (Cons d ds)
    then show ?thesis using Cons.prems Cons.IH [of ds] c by auto
  qed
qed

lemma loop_star:
  assumes "plain_token t" and "ends_token sr"
  shows "nats_loop (CHR ''*'' # pr) (t @ sr) \<longleftrightarrow> nats_loop pr sr"
proof -
  obtain c cs where t: "t = c # cs" using assms(1) by (cases t) (auto simp: plain_token_def)
  have "dropWhile (\<lambda>c. c \<noteq> CHR ''.'') (t @ sr) = sr"
    using assms(2) drop_token [OF assms(1)] unfolding ends_token_def by (elim disjE exE) simp_all
  then show ?thesis by (simp add: t)
qed

lemma nats_loop_tokens: "nats_pattern ps \<Longrightarrow> nats_subject ts \<Longrightarrow> nats_loop (dotted ps) (dotted ts) \<longleftrightarrow> match_tokens ps ts"
proof (induction ps arbitrary: ts)
  case (Cons p ps)
  then obtain t us where ts: "ts = t # us" and t: "plain_token t" and us: "us = [] \<or> nats_subject us"
    by (cases ts) (auto simp: nats_subject_def)
  define sr where "sr = (if us = [] then [] else CHR ''.'' # dotted us)"
  define pr where "pr = (if ps = [] then [] else CHR ''.'' # dotted ps)"
  have e: "ends_token sr" "ends_token pr" by (auto simp: sr_def pr_def ends_token_def)
  have d: "dotted ts = t @ sr" "dotted (p # ps) = p @ pr" by (simp_all add: ts sr_def pr_def dotted_Cons)
  have nodot: "CHR ''.'' \<notin> set t" using t by (simp add: plain_token_def)
  have rest: "nats_loop pr sr \<longleftrightarrow> match_tokens ps us"
  proof (cases "ps = []")
    case True
    then show ?thesis by (cases us) (auto simp: pr_def sr_def nats_loop_Nil)
  next
    case False
    then show ?thesis using Cons us by (cases us) (auto simp: pr_def sr_def nats_pattern_Cons neq_Nil_conv)
  qed
  from Cons.prems(1) consider "plain_token p" | "p = ''*''" | "p = ''>''" "ps = []"
    by (cases "ps = []") (auto simp: nats_pattern_Cons)
  then show ?case
  proof cases
    case 1
    then have "p \<noteq> ''>''" "p \<noteq> ''*''" by (auto simp: plain_token_def)
    then show ?thesis using loop_plain [of p t pr sr] 1 nodot e rest unfolding d by (simp add: ts)
  next
    case 2
    then show ?thesis using loop_star [OF t e(1), of pr] rest unfolding d by (simp add: ts)
  next
    case 3
    obtain c cs where "t = c # cs" using t by (cases t) (auto simp: plain_token_def)
    then show ?thesis using 3 unfolding d by (simp add: ts pr_def)
  qed
qed simp

text \<open>
  C37. On well-formed patterns and subjects \<^verbatim>\<open>MatchSub\<close>, which walks over characters, is the matching of tokens that NATS
  defines.
\<close>

theorem match_sub_tokens:
  assumes "nats_pattern ps" and "nats_subject ts"
  shows "MatchSub (dotted ps) (dotted ts) \<longleftrightarrow> match_tokens ps ts"
proof -
  have "match_tokens ps ts" if "dotted ps = ''>''"
  proof -
    obtain t us where ts: "ts = t # us" using assms(2) by (cases ts) (auto simp: nats_subject_def)
    have "nats_loop (dotted ps) (dotted ts)" using that assms(2)
      by (cases "dotted ts") (auto simp: nats_loop_Nil)
    then show ?thesis using nats_loop_tokens [OF assms] by simp
  qed
  moreover have "match_tokens ps ts" if "dotted ps = dotted ts"
  proof -
    have "nats_loop s s" if "CHR ''*'' \<notin> set s" "CHR ''>'' \<notin> set s" for s using that by (induction s) auto
    moreover have "CHR ''*'' \<notin> set (dotted ts) \<and> CHR ''>'' \<notin> set (dotted ts)" if "list_all plain_token ts" for ts
      using that by (induction ts rule: dotted.induct) (auto simp: plain_token_def)
    ultimately show ?thesis using that assms nats_loop_tokens [OF assms] by (metis nats_subject_def)
  qed
  ultimately show ?thesis using nats_loop_tokens [OF assms] unfolding MatchSub_def NatsWildcardMatch_def by blast
qed

theorem match_sub_tokens_witness:
  "MatchSub (dotted [''a'', ''*'', ''>'']) (dotted [''a'', ''b'', ''c'', ''d''])"
  using match_sub_tokens [of "[''a'', ''*'', ''>'']" "[''a'', ''b'', ''c'', ''d'']"]
  by (simp add: nats_subject_def plain_token_def)

section \<open>Inbox names\<close>

definition IsNatsInbox :: "string \<Rightarrow> bool" where
  "IsNatsInbox subject \<longleftrightarrow> length subject > 6 \<and> subject ! 0 = CHR ''_'' \<and> take 6 subject = ''_INBOX''"

definition inbox_name :: "nat \<Rightarrow> u64 \<Rightarrow> string" where
  "inbox_name wi seq = ''_INBOX.W'' @ to_dec wi @ ''.N'' @ to_dec (unat seq)"

text \<open>\<open>None\<close> where \<^verbatim>\<open>std::stoul\<close> throws.\<close>

definition ParseInboxWorkerIndex :: "string \<Rightarrow> nat option" where
  "ParseInboxWorkerIndex inbox =
     (case find_string inbox ''.W'' 0 of
        None \<Rightarrow> Some 0
      | Some w \<Rightarrow>
          (let wpos = w + 2
           in case find_string inbox ''.N'' wpos of
                None \<Rightarrow> Some 0
              | Some npos \<Rightarrow> map_option (\<lambda>v. v mod 2 ^ 32) (stoul (take (npos - wpos) (drop wpos inbox)))))"

lemma find_sub_digits: "find_sub ''.N'' (to_dec n @ CHR ''.'' # CHR ''N'' # s) = Some (length (to_dec n))"
proof -
  have "find_sub ''.N'' (ds @ CHR ''.'' # CHR ''N'' # s) = Some (length ds)" if "\<forall>c \<in> set ds. is_digit c" for ds
    using that by (induction ds) (auto simp: digit_not_space)
  then show ?thesis using to_dec_digits by blast
qed

lemma inbox_name_inj: "inbox_name wi seq = inbox_name wj seq' \<longleftrightarrow> wi = wj \<and> seq = seq'"
proof -
  have t: "takeWhile is_digit (to_dec n @ CHR ''.'' # s) = to_dec n" for n s using takeWhile_digits [of n "CHR ''.'' # s"]
    by (simp add: is_digit_def)
  have "wi = wj \<and> seq = seq'" if e: "inbox_name wi seq = inbox_name wj seq'"
  proof -
    have "to_dec wi @ CHR ''.'' # CHR ''N'' # to_dec (unat seq) = to_dec wj @ CHR ''.'' # CHR ''N'' # to_dec (unat seq')"
      using e by (simp add: inbox_name_def)
    then have "to_dec wi = to_dec wj" by (metis t)
    then show ?thesis using e by (simp add: inbox_name_def to_dec_inj word_unat_eq_iff)
  qed
  then show ?thesis by blast
qed

lemma ParseInboxWorkerIndex_inbox:
  assumes "wi < 2 ^ 32"
  shows "ParseInboxWorkerIndex (inbox_name wi seq) = Some wi"
proof -
  have f: "find_string (inbox_name wi seq) ''.W'' 0 = Some 6" by (simp add: find_string_def inbox_name_def)
  have d: "drop 8 (inbox_name wi seq) = to_dec wi @ CHR ''.'' # CHR ''N'' # to_dec (unat seq)" by (simp add: inbox_name_def)
  have "find_string (inbox_name wi seq) ''.N'' 8 = Some (8 + length (to_dec wi))"
    by (simp add: find_string_def d find_sub_digits)
  then show ?thesis using assms f d stoul_to_dec [of wi] by (simp add: ParseInboxWorkerIndex_def)
qed

text \<open>
  The name of an inbox leads back to the worker that asked, and inboxes with different workers or numbers have
  different names.
\<close>

theorem inbox_roundtrip:
  assumes "wi < 2 ^ 32"
  shows "ParseInboxWorkerIndex (inbox_name wi seq) = Some wi \<and> IsNatsInbox (inbox_name wi seq) \<and>
     (inbox_name wi seq = inbox_name wj seq' \<longleftrightarrow> wi = wj \<and> seq = seq')"
  using assms by (simp add: ParseInboxWorkerIndex_inbox inbox_name_inj) (simp add: IsNatsInbox_def inbox_name_def)

theorem inbox_roundtrip_witness:
  "ParseInboxWorkerIndex (inbox_name 12 7) = Some 12 \<and> IsNatsInbox (inbox_name 12 7) \<and>
     (inbox_name 12 7 = inbox_name 12 8 \<longleftrightarrow> (12::nat) = 12 \<and> (7::u64) = 8)"
  using inbox_roundtrip [of 12 7 12 8] by simp

end
