(* ===== verification/Nats_Requests.thy ===== *)
theory Nats_Requests
  imports Nats
begin

text \<open>
  The tables of \<^verbatim>\<open>NatsManager\<close> (\<^verbatim>\<open>src/network/nats/nats_manager.cpp\<close>): each thread's subscriptions and pending requests, and
  the handlers that change them. The nats.c library is outside: its results come as arguments of the operations, its
  messages and the expiry of timers are steps, in any order. The theorems: a request is answered exactly once or is
  waiting, with a timer if a worker made it; a message runs the handler of the one subscription of its worker that
  matches. The counterexamples: a request made outside the workers, and overlapping subscriptions.
\<close>

section \<open>State\<close>

text \<open>\<^verbatim>\<open>tlsNats()\<close> belongs to a thread: a worker, or any other thread of the process.\<close>

datatype nats_thread = NatsWorker nat | NatsOther nat

fun worker_index :: "nats_thread \<Rightarrow> nat" where
  "worker_index (NatsWorker i) = i"
| "worker_index (NatsOther _) = 0"

text \<open>The promise or callback of a request is its number.\<close>

record PendingRequest =
  request :: nat
  timer_id :: int

record nats_tls =
  subs :: "string \<rightharpoonup> nat"
  pending :: "string \<rightharpoonup> PendingRequest"
  inbox_seq :: u64

definition OK :: int where "OK = 0"
definition TimeoutError :: int where "TimeoutError = -1"
definition Disconnected :: int where "Disconnected = -2"
definition SubscribeFailed :: int where "SubscribeFailed = -4"
definition RequestFailed :: int where "RequestFailed = -5"

text \<open>
  What a worker has to run (\<^verbatim>\<open>PostToWorker\<close>): a reply for an inbox, or a message of a subscription with its reply
  subject. \<open>nats_timers\<close> are the timers that requests have armed, \<open>timers_ending\<close> whether the thread's timer manager is in shutdown mode; \<open>published\<close> records what was given to nats.c (subject, reply
  subject, payload), \<open>answers\<close> and \<open>handled\<close> the calls of callbacks and handlers.
\<close>

datatype nats_task = InboxTask string "byte list" | SubTask string string "byte list"

record nats =
  connected :: bool
  tls :: "nats_thread \<Rightarrow> nats_tls"
  nats_timers :: "nats_thread \<Rightarrow> (int \<times> string) list"
  timers_ending :: "nats_thread \<Rightarrow> bool"
  nats_tasks :: "nat \<Rightarrow> nats_task list"
  issued :: nat
  answers :: "nat \<Rightarrow> (int \<times> byte list) list"
  published :: "(string \<times> string \<times> byte list) list"
  handled :: "(nat \<times> nat \<times> meta \<times> byte list \<times> string) list"

definition NatsManager :: nats where
  "NatsManager = \<lparr>connected = False, tls = (\<lambda>_. \<lparr>subs = Map.empty, pending = Map.empty, inbox_seq = 0\<rparr>),
     nats_timers = (\<lambda>_. []), timers_ending = (\<lambda>_. False), nats_tasks = (\<lambda>_. []), issued = 0, answers = (\<lambda>_. []), published = [],
     handled = []\<rparr>"

definition upd_tls :: "nats_thread \<Rightarrow> (nats_tls \<Rightarrow> nats_tls) \<Rightarrow> nats \<Rightarrow> nats" where
  "upd_tls t f s = s\<lparr>tls := (tls s)(t := f (tls s t))\<rparr>"

definition erase_pending :: "nats_thread \<Rightarrow> string \<Rightarrow> nats \<Rightarrow> nats" where
  "erase_pending t inbox = upd_tls t (\<lambda>l. l\<lparr>pending := (pending l)(inbox := None)\<rparr>)"

definition answer :: "nat \<Rightarrow> int \<Rightarrow> byte list \<Rightarrow> nats \<Rightarrow> nats" where
  "answer r code body s = s\<lparr>answers := (answers s)(r := answers s r @ [(code, body)])\<rparr>"

section \<open>Payload\<close>

definition BuildPayload :: "meta \<Rightarrow> byte list \<Rightarrow> byte list" where
  "BuildPayload mt body = meta_bytes mt @ body"

definition parse_payload :: "byte list \<Rightarrow> meta \<times> byte list" where
  "parse_payload payload =
     (if length payload \<ge> sizeof_meta then (bytes_meta payload, drop sizeof_meta payload) else (Meta, []))"

lemma parse_BuildPayload: "parse_payload (BuildPayload mt body) = (mt, body)"
  by (simp add: parse_payload_def BuildPayload_def bytes_meta_bytes)

interpretation payload: codec "\<lambda>(mt, body). BuildPayload mt body" parse_payload
  by unfold_locales (simp add: parse_BuildPayload split: prod.split)

section \<open>Operations\<close>

definition Connect :: "bool \<Rightarrow> nats \<Rightarrow> int \<times> nats" where
  "Connect ok s = (if connected s then (0, s) else if ok then (0, s\<lparr>connected := True\<rparr>) else (-1, s))"

definition Disconnect :: "nats \<Rightarrow> nats" where
  "Disconnect s = s\<lparr>connected := False\<rparr>"

definition Publish :: "string \<Rightarrow> meta \<Rightarrow> byte list \<Rightarrow> bool \<Rightarrow> nats \<Rightarrow> nats" where
  "Publish subject mt data pub_ok s =
     (if connected s \<and> pub_ok then s\<lparr>published := published s @ [(subject, [], BuildPayload mt data)]\<rparr> else s)"

definition Reply :: "string \<Rightarrow> meta \<Rightarrow> byte list \<Rightarrow> bool \<Rightarrow> nats \<Rightarrow> nats" where
  "Reply reply_to mt data pub_ok s =
     (if connected s \<and> pub_ok then s\<lparr>published := published s @ [(reply_to, [], BuildPayload mt data)]\<rparr> else s)"

definition publish_request :: "string \<Rightarrow> string \<Rightarrow> meta \<Rightarrow> byte list \<Rightarrow> nats \<Rightarrow> nats" where
  "publish_request subject inbox mt data s = s\<lparr>published := published s @ [(subject, inbox, BuildPayload mt data)]\<rparr>"

definition GenInbox :: "nats_thread \<Rightarrow> nats \<Rightarrow> string \<times> nats" where
  "GenInbox t s =
     (inbox_name (worker_index t) (inbox_seq (tls s t)), upd_tls t (\<lambda>l. l\<lparr>inbox_seq := inbox_seq l + 1\<rparr>) s)"

definition store_pending :: "nats_thread \<Rightarrow> string \<Rightarrow> nat \<Rightarrow> nats \<Rightarrow> nats" where
  "store_pending t inbox r = upd_tls t (\<lambda>l. l\<lparr>pending := (pending l)(inbox \<mapsto> \<lparr>request = r, timer_id = -1\<rparr>)\<rparr>)"

text \<open>\<open>tid\<close> is what \<^verbatim>\<open>RegisterTimer\<close> returns: a new number, or -1 when the worker shuts down.\<close>

definition arm_timeout :: "nats_thread \<Rightarrow> string \<Rightarrow> int \<Rightarrow> nats \<Rightarrow> nats" where
  "arm_timeout t inbox tid s =
     (let s = (if tid < 0 then s else s\<lparr>nats_timers := (nats_timers s)(t := nats_timers s t @ [(tid, inbox)])\<rparr>)
      in case pending (tls s t) inbox of
           None \<Rightarrow> s
         | Some pr \<Rightarrow> upd_tls t (\<lambda>l. l\<lparr>pending := (pending l)(inbox \<mapsto> pr\<lparr>timer_id := tid\<rparr>)\<rparr>) s)"

definition AsyncRequest ::
  "nats_thread \<Rightarrow> string \<Rightarrow> meta \<Rightarrow> byte list \<Rightarrow> bool \<Rightarrow> bool \<Rightarrow> int \<Rightarrow> nats \<Rightarrow> nats" where
  "AsyncRequest t subject mt data sub_ok pub_ok tid s =
     (let r = issued s; s = s\<lparr>issued := Suc r\<rparr>
      in if \<not> connected s then answer r Disconnected [] s
         else (let (inbox, s) = GenInbox t s
               in if \<not> sub_ok then answer r SubscribeFailed [] s
                  else (let s = store_pending t inbox r s
                        in if \<not> pub_ok
                           then (case pending (tls s t) inbox of
                                   None \<Rightarrow> s
                                 | Some pr \<Rightarrow> answer (request pr) RequestFailed [] (erase_pending t inbox s))
                           else (let s = publish_request subject inbox mt data s
                                 in case t of NatsWorker _ \<Rightarrow> arm_timeout t inbox tid s | NatsOther _ \<Rightarrow> s))))"

text \<open>In the coroutine the errors are returned and not set through the promise.\<close>

definition RequestRaw ::
  "nats_thread \<Rightarrow> string \<Rightarrow> meta \<Rightarrow> byte list \<Rightarrow> bool \<Rightarrow> bool \<Rightarrow> int \<Rightarrow> nats \<Rightarrow> nats" where
  "RequestRaw t subject mt data sub_ok pub_ok tid s =
     (let r = issued s; s = s\<lparr>issued := Suc r\<rparr>
      in if \<not> connected s then answer r Disconnected [] s
         else (let (inbox, s) = GenInbox t s
               in if \<not> sub_ok then answer r SubscribeFailed [] s
                  else (let s = store_pending t inbox r s
                        in if \<not> pub_ok
                           then answer r RequestFailed []
                                  (if pending (tls s t) inbox = None then s else erase_pending t inbox s)
                           else (let s = publish_request subject inbox mt data s
                                 in case t of NatsWorker _ \<Rightarrow> arm_timeout t inbox tid s | NatsOther _ \<Rightarrow> s))))"

definition timeout_request :: "nats_thread \<Rightarrow> string \<Rightarrow> nats \<Rightarrow> nats" where
  "timeout_request t inbox s =
     (case pending (tls s t) inbox of
        None \<Rightarrow> s
      | Some pr \<Rightarrow> answer (request pr) TimeoutError [] (erase_pending t inbox s))"

definition unregister_timer :: "nats_thread \<Rightarrow> int \<Rightarrow> nats \<Rightarrow> nats" where
  "unregister_timer t tid s = s\<lparr>nats_timers := (nats_timers s)(t := filter (\<lambda>x. fst x \<noteq> tid) (nats_timers s t))\<rparr>"

text \<open>
  \<^verbatim>\<open>TimerManager::EnterShutdownMode\<close> (\<^verbatim>\<open>src/timer/timer_manager.cpp\<close>), as it concerns the timers of requests: those that have not
  expired are cancelled, and no new one is registered.
\<close>

definition end_timers :: "nats_thread \<Rightarrow> (int \<times> string \<Rightarrow> bool) \<Rightarrow> nats \<Rightarrow> nats" where
  "end_timers t expired s = s\<lparr>timers_ending := (timers_ending s)(t := True), nats_timers := (nats_timers s)(t := filter expired (nats_timers s t))\<rparr>"

definition inbox_task :: "nats_thread \<Rightarrow> string \<Rightarrow> byte list \<Rightarrow> nats \<Rightarrow> nats" where
  "inbox_task t inbox payload s =
     (case pending (tls s t) inbox of
        None \<Rightarrow> s
      | Some pr \<Rightarrow>
          (let s = (if timer_id pr \<ge> 0 then unregister_timer t (timer_id pr) s else s)
           in answer (request pr) OK (snd (parse_payload payload)) (erase_pending t inbox s)))"

definition post_task :: "nat \<Rightarrow> nats_task \<Rightarrow> nats \<Rightarrow> nats" where
  "post_task i tk s = s\<lparr>nats_tasks := (nats_tasks s)(i := nats_tasks s i @ [tk])\<rparr>"

text \<open>\<open>posted\<close>: whether there is such a worker and it takes the task. \<open>None\<close>: \<^verbatim>\<open>std::stoul\<close> throws.\<close>

definition OnNatsInboxMsg :: "string \<Rightarrow> byte list \<Rightarrow> bool \<Rightarrow> nats \<Rightarrow> nats option" where
  "OnNatsInboxMsg inbox payload posted s =
     map_option (\<lambda>i. if posted then post_task i (InboxTask inbox payload) s else s) (ParseInboxWorkerIndex inbox)"

definition Subscribe :: "nats_thread \<Rightarrow> string \<Rightarrow> nat \<Rightarrow> bool \<Rightarrow> nats \<Rightarrow> nats" where
  "Subscribe t subject h sub_ok s =
     (if \<not> connected s then s
      else (let s = upd_tls t (\<lambda>l. l\<lparr>subs := (subs l)(subject \<mapsto> h)\<rparr>) s
            in if sub_ok then s else upd_tls t (\<lambda>l. l\<lparr>subs := (subs l)(subject := None)\<rparr>) s))"

text \<open>\<open>i\<close> is the worker index that \<^verbatim>\<open>Subscribe\<close> put into the \<^verbatim>\<open>NatsSubCtx\<close>.\<close>

definition OnNatsSubMsg :: "nat \<Rightarrow> string \<Rightarrow> string \<Rightarrow> byte list \<Rightarrow> bool \<Rightarrow> nats \<Rightarrow> nats" where
  "OnNatsSubMsg i subject reply_to payload posted s =
     (if posted then post_task i (SubTask subject reply_to payload) s else s)"

text \<open>The order in which an \<^verbatim>\<open>unordered_map\<close> is iterated is not specified: it is the parameter \<open>ord\<close>.\<close>

definition find_handler :: "((string \<rightharpoonup> nat) \<Rightarrow> string list) \<Rightarrow> (string \<rightharpoonup> nat) \<Rightarrow> string \<Rightarrow> nat option" where
  "find_handler ord m subject =
     (case m subject of
        Some h \<Rightarrow> Some h
      | None \<Rightarrow> Option.bind (find (\<lambda>p. MatchSub p subject) (ord m)) m)"

definition sub_task ::
  "((string \<rightharpoonup> nat) \<Rightarrow> string list) \<Rightarrow> nat \<Rightarrow> string \<Rightarrow> string \<Rightarrow> byte list \<Rightarrow> nats \<Rightarrow> nats" where
  "sub_task ord i subject reply_to payload s =
     (case find_handler ord (subs (tls s (NatsWorker i))) subject of
        None \<Rightarrow> s
      | Some h \<Rightarrow>
          (let (mt, body) = parse_payload payload in s\<lparr>handled := handled s @ [(i, h, mt, body, reply_to)]\<rparr>))"

definition run_nats_task :: "((string \<rightharpoonup> nat) \<Rightarrow> string list) \<Rightarrow> nat \<Rightarrow> nats \<Rightarrow> nats" where
  "run_nats_task ord i s =
     (case nats_tasks s i of
        [] \<Rightarrow> s
      | tk # tks \<Rightarrow>
          (let s = s\<lparr>nats_tasks := (nats_tasks s)(i := tks)\<rparr>
           in case tk of
                InboxTask inbox payload \<Rightarrow> inbox_task (NatsWorker i) inbox payload s
              | SubTask subject reply_to payload \<Rightarrow> sub_task ord i subject reply_to payload s))"


lemma RequestRaw_AsyncRequest: "RequestRaw t subject mt data a b tid s = AsyncRequest t subject mt data a b tid s"
  by (simp add: RequestRaw_def AsyncRequest_def Let_def GenInbox_def store_pending_def upd_tls_def)

section \<open>Every run\<close>

text \<open>
  What any thread does, one handler at a time: a thread's own tables are touched by that thread only, and what handlers
  share is the connection and the queues of the workers.
\<close>

inductive nats_step :: "((string \<rightharpoonup> nat) \<Rightarrow> string list) \<Rightarrow> nats \<Rightarrow> nats \<Rightarrow> bool" for ord where
  connect: "nats_step ord s (snd (Connect ok s))"
| disconnect: "nats_step ord s (Disconnect s)"
| publish: "nats_step ord s (Publish subject mt data ok s)"
| reply: "nats_step ord s (Reply subject mt data ok s)"
| request: "tid < 0 \<or> tid \<notin> fst ` set (nats_timers s t) \<and> \<not> timers_ending s t \<Longrightarrow>
    nats_step ord s (AsyncRequest t subject mt data sub_ok pub_ok tid s)"
| request_raw: "tid < 0 \<or> tid \<notin> fst ` set (nats_timers s t) \<and> \<not> timers_ending s t \<Longrightarrow>
    nats_step ord s (RequestRaw t subject mt data sub_ok pub_ok tid s)"
| subscribe: "nats_step ord s (Subscribe t subject h ok s)"
| inbox_msg: "OnNatsInboxMsg inbox payload posted s = Some s' \<Longrightarrow> nats_step ord s s'"
| sub_msg: "nats_step ord s (OnNatsSubMsg i subject reply_to payload posted s)"
| task: "nats_step ord s (run_nats_task ord i s)"
| timer: "nats_timers s t = xs @ (tid, inbox) # ys \<Longrightarrow>
    nats_step ord s (timeout_request t inbox (s\<lparr>nats_timers := (nats_timers s)(t := xs @ ys)\<rparr>))"
| shutdown: "nats_step ord s (end_timers t expired s)"

abbreviation nats_reach :: "((string \<rightharpoonup> nat) \<Rightarrow> string list) \<Rightarrow> nats \<Rightarrow> bool" where
  "nats_reach ord \<equiv> (nats_step ord)\<^sup>*\<^sup>* NatsManager"

definition waiting :: "nats \<Rightarrow> nat \<Rightarrow> (nats_thread \<times> string) set" where
  "waiting s r = {(t, inbox). \<exists>pr. pending (tls s t) inbox = Some pr \<and> request pr = r}"

text \<open>The request has been answered once, or waits in one table.\<close>

definition served :: "nats \<Rightarrow> nat \<Rightarrow> bool" where
  "served s r \<longleftrightarrow>
     (if r < issued s then waiting s r = {} \<and> length (answers s r) = 1 \<or> is_singleton (waiting s r) \<and> answers s r = []
      else waiting s r = {} \<and> answers s r = [])"

definition numbered :: "nats \<Rightarrow> nats_thread \<Rightarrow> bool" where
  "numbered s t \<longleftrightarrow> unat (inbox_seq (tls s t)) \<le> issued s \<and>
     (\<forall>inbox \<in> dom (pending (tls s t)). \<exists>k. inbox = inbox_name (worker_index t) k \<and> k < inbox_seq (tls s t))"

definition timed :: "nats \<Rightarrow> nats_thread \<Rightarrow> bool" where
  "timed s t \<longleftrightarrow> distinct (map fst (nats_timers s t)) \<and>
     (\<not> timers_ending s t \<longrightarrow> (\<forall>inbox pr. pending (tls s t) inbox = Some pr \<longrightarrow> timer_id pr \<ge> 0 \<longrightarrow>
        (timer_id pr, inbox) \<in> set (nats_timers s t)))"

lemma waiting_erase: "waiting (erase_pending t inbox s) r = waiting s r - {(t, inbox)}"
  by (auto simp: waiting_def erase_pending_def upd_tls_def split: if_splits)

lemma waiting_store:
  "pending (tls s t) inbox = None \<Longrightarrow>
     waiting (store_pending t inbox r s) r' = (if r' = r then insert (t, inbox) (waiting s r) else waiting s r')"
  by (auto simp: waiting_def store_pending_def upd_tls_def split: if_splits)

lemma waiting_arm: "waiting (arm_timeout t inbox tid s) r = waiting s r"
  by (auto simp: waiting_def arm_timeout_def upd_tls_def Let_def split: if_splits option.splits)

lemma waiting_cong: "(\<And>t. pending (tls s' t) = pending (tls s t)) \<Longrightarrow> waiting s' = waiting s"
  by (simp add: waiting_def fun_eq_iff)

lemma waiting_answer [simp]: "waiting (answer r c b s) = waiting s"
  by (rule waiting_cong) (simp add: answer_def)

lemma waiting_pending: "pending (tls s t) inbox = Some pr \<Longrightarrow> (t, inbox) \<in> waiting s (request pr)"
  by (simp add: waiting_def)

lemma answers_simps [simp]:
  "answers (erase_pending t inbox s) = answers s" "answers (store_pending t inbox r s) = answers s"
  "answers (arm_timeout t inbox tid s) = answers s" "answers (publish_request sj inbox mt data s) = answers s"
  "answers (snd (GenInbox t s)) = answers s"
  "answers (answer r c b s) = (answers s)(r := answers s r @ [(c, b)])"
  by (simp_all add: erase_pending_def store_pending_def upd_tls_def arm_timeout_def publish_request_def GenInbox_def
      answer_def Let_def split: option.split)

lemma issued_simps [simp]:
  "issued (erase_pending t inbox s) = issued s" "issued (store_pending t inbox r s) = issued s"
  "issued (arm_timeout t inbox tid s) = issued s" "issued (publish_request sj inbox mt data s) = issued s"
  "issued (snd (GenInbox t s)) = issued s" "issued (answer r c b s) = issued s"
  by (simp_all add: erase_pending_def store_pending_def upd_tls_def arm_timeout_def publish_request_def GenInbox_def
      answer_def Let_def split: option.split)

lemma served_finish:
  assumes "\<And>r. served s r" "pending (tls s t) inbox = Some pr"
  shows "served (answer (request pr) c b (erase_pending t inbox s)) r"
proof -
  have w: "(t, inbox) \<in> waiting s (request pr)" using waiting_pending [of s t inbox pr] assms(2) by simp
  have q: "request pr < issued s" "waiting s (request pr) = {(t, inbox)}" "answers s (request pr) = []"
    using assms(1) [of "request pr"] w by (auto simp: served_def is_singleton_def split: if_splits)
  show ?thesis
  proof (cases "r = request pr")
    case True
    then show ?thesis using q by (simp add: served_def waiting_erase)
  next
    case False
    then have "(t, inbox) \<notin> waiting s r" using assms(2) by (auto simp: waiting_def)
    then show ?thesis using False assms(1) [of r] by (auto simp: served_def waiting_erase split: if_splits)
  qed
qed

lemma served_cong:
  "waiting s' r = waiting s r \<Longrightarrow> answers s' r = answers s r \<Longrightarrow> issued s' = issued s \<Longrightarrow> served s' r = served s r"
  by (simp add: served_def)

text \<open>Between the start of a request and its end, the request itself is the only one that is not served.\<close>

lemma served_start:
  assumes "\<And>r. served s r"
  shows "r \<noteq> issued s \<Longrightarrow> served (s\<lparr>issued := Suc (issued s)\<rparr>) r" "waiting s (issued s) = {}" "answers s (issued s) = []"
proof -
  have w: "waiting (s\<lparr>issued := Suc (issued s)\<rparr>) = waiting s" by (rule waiting_cong) simp
  show "r \<noteq> issued s \<Longrightarrow> served (s\<lparr>issued := Suc (issued s)\<rparr>) r"
    using assms [of r] by (simp add: served_def w split: if_splits)
  show "waiting s (issued s) = {}" "answers s (issued s) = []" using assms [of "issued s"] by (auto simp: served_def)
qed

lemma served_request:
  assumes s: "\<And>r. served s r" and new: "pending (tls s t) (inbox_name (worker_index t) (inbox_seq (tls s t))) = None"
  shows "served (AsyncRequest t subject mt data a b tid s) r"
proof -
  let ?inbox = "inbox_name (worker_index t) (inbox_seq (tls s t))"
  define s1 where "s1 = s\<lparr>issued := Suc (issued s)\<rparr>"
  define s2 where "s2 = snd (GenInbox t s1)"
  define s3 where "s3 = store_pending t ?inbox (issued s) s2"
  have w1: "waiting s1 = waiting s" and w2: "waiting s2 = waiting s"
    by (rule waiting_cong, simp add: s1_def s2_def GenInbox_def upd_tls_def)+
  have n2: "pending (tls s2 t) ?inbox = None" using new by (simp add: s1_def s2_def GenInbox_def upd_tls_def)
  have p3: "pending (tls s3 t) ?inbox = Some \<lparr>request = issued s, timer_id = -1\<rparr>"
    by (simp add: s3_def store_pending_def upd_tls_def)
  note st = served_start [OF s]
  have i: "issued s1 = Suc (issued s)" "issued s2 = Suc (issued s)" "issued s3 = Suc (issued s)"
    "answers s1 = answers s" "answers s2 = answers s" "answers s3 = answers s"
    by (simp_all add: s1_def s2_def s3_def)
  have a1: "served (answer (issued s) c [] s1) r" "served (answer (issued s) c [] s2) r" for c
    using s [of r] st by (auto simp: served_def i w1 w2)
  have s3: "served s3 r" for r
    using s [of r] st(2,3)
    by (cases "r = issued s") (auto simp: s3_def served_def waiting_store [OF n2] w2 i is_singleton_def split: if_splits)
  have f3: "served (answer (issued s) RequestFailed [] (erase_pending t ?inbox s3)) r"
    using served_finish [OF s3 p3] by simp
  have "waiting (publish_request subject ?inbox mt data s3) = waiting s3" by (rule waiting_cong) (simp add: publish_request_def)
  then have e3: "served (publish_request subject ?inbox mt data s3) r"
    "served (arm_timeout t ?inbox tid (publish_request subject ?inbox mt data s3)) r"
    using s3 [of r] by (auto simp: served_def waiting_arm split: if_splits)
  have g: "GenInbox t s1 = (?inbox, s2)" by (simp add: s1_def s2_def GenInbox_def)
  have "AsyncRequest t subject mt data a b tid s =
      (if \<not> connected s then answer (issued s) Disconnected [] s1
       else if \<not> a then answer (issued s) SubscribeFailed [] s2
       else if \<not> b then answer (issued s) RequestFailed [] (erase_pending t ?inbox s3)
       else case t of NatsWorker _ \<Rightarrow> arm_timeout t ?inbox tid (publish_request subject ?inbox mt data s3)
            | NatsOther _ \<Rightarrow> publish_request subject ?inbox mt data s3)"
    using p3 by (simp add: AsyncRequest_def Let_def s1_def [symmetric] g s3_def [symmetric])
  then show ?thesis using a1 f3 e3 by (cases t) auto
qed

lemma numbered_mono:
  assumes "numbered s t" "inbox_seq (tls s' t) = inbox_seq (tls s t)" "issued s \<le> issued s'"
    "dom (pending (tls s' t)) \<subseteq> dom (pending (tls s t))"
  shows "numbered s' t"
proof -
  have "unat (inbox_seq (tls s' t)) \<le> issued s'" using assms by (auto simp: numbered_def)
  moreover have "\<exists>k. inbox = inbox_name (worker_index t) k \<and> k < inbox_seq (tls s' t)" if "inbox \<in> dom (pending (tls s' t))" for inbox
    using assms that unfolding numbered_def by (metis subsetD)
  ultimately show ?thesis by (simp add: numbered_def)
qed

lemma numbered_bump:
  assumes "numbered s t" "inbox_seq (tls s' t) = inbox_seq (tls s t) + 1" "issued s' = Suc (issued s)" "issued s' < 2 ^ 64"
    "dom (pending (tls s' t)) \<subseteq> insert (inbox_name (worker_index t) (inbox_seq (tls s t))) (dom (pending (tls s t)))"
  shows "numbered s' t"
proof -
  let ?k = "inbox_seq (tls s t)"
  have le: "unat ?k \<le> issued s" using assms(1) by (simp add: numbered_def)
  then have u: "unat (?k + 1) = unat ?k + 1" using assms(3,4) by (simp add: unat_add_lem [THEN iffD1])
  then have lt: "?k < ?k + 1" by (simp add: word_less_nat_alt)
  have "\<exists>k. inbox = inbox_name (worker_index t) k \<and> k < ?k + 1" if i: "inbox \<in> dom (pending (tls s' t))" for inbox
  proof (cases "inbox = inbox_name (worker_index t) ?k")
    case True
    then show ?thesis using lt by blast
  next
    case False
    then obtain k where "inbox = inbox_name (worker_index t) k" "k < ?k"
      using i assms(1,5) unfolding numbered_def by blast
    then show ?thesis using lt less_trans by blast
  qed
  then show ?thesis using u le assms(2,3) by (simp add: numbered_def)
qed

lemma numbered_new: "numbered s t \<Longrightarrow> pending (tls s t) (inbox_name (worker_index t) (inbox_seq (tls s t))) = None"
  unfolding numbered_def by (metis domI inbox_name_inj less_irrefl not_None_eq)

lemmas request_ops = GenInbox_def store_pending_def erase_pending_def arm_timeout_def publish_request_def answer_def
  upd_tls_def Let_def

lemma issued_AsyncRequest [simp]: "issued (AsyncRequest t subject mt data a b tid s) = Suc (issued s)"
  by (auto simp: AsyncRequest_def request_ops split: option.split nats_thread.split)

lemma tls_AsyncRequest:
  "t' \<noteq> t \<Longrightarrow> tls (AsyncRequest t subject mt data a b tid s) t' = tls s t'"
  "t' \<noteq> t \<Longrightarrow> nats_timers (AsyncRequest t subject mt data a b tid s) t' = nats_timers s t'"
  "timers_ending (AsyncRequest t subject mt data a b tid s) = timers_ending s"
  by (auto simp: AsyncRequest_def request_ops split: option.split nats_thread.split)

lemma numbered_request:
  assumes n: "numbered s t'" and b: "Suc (issued s) < 2 ^ 64"
  shows "numbered (AsyncRequest t subject mt data x y tid s) t'"
proof (cases "t' = t \<and> connected s")
  case True
  show ?thesis
    by (rule numbered_bump [OF n])
      (use True b in \<open>auto simp: AsyncRequest_def request_ops split: option.split nats_thread.split if_splits\<close>)
next
  case False
  then have "tls (AsyncRequest t subject mt data x y tid s) t' = tls s t'"
    by (cases "t' = t") (simp_all add: tls_AsyncRequest, simp add: AsyncRequest_def answer_def Let_def)
  then show ?thesis by (intro numbered_mono [OF n]) simp_all
qed

lemma timed_request:
  assumes n: "timed s t'" and f: "tid < 0 \<or> tid \<notin> fst ` set (nats_timers s t) \<and> \<not> timers_ending s t"
    and new: "pending (tls s t) (inbox_name (worker_index t) (inbox_seq (tls s t))) = None"
  shows "timed (AsyncRequest t subject mt data x y tid s) t'"
proof (cases "t' = t")
  case True
  then show ?thesis using assms
    by (auto simp: timed_def AsyncRequest_def request_ops image_iff split: option.split nats_thread.split if_splits)
next
  case False
  then show ?thesis using n by (simp add: timed_def tls_AsyncRequest)
qed

lemma timed_erase: "timed s t' \<Longrightarrow> timed (erase_pending t inbox s) t'"
  by (auto simp: timed_def erase_pending_def upd_tls_def split: if_splits)

lemma distinct_filter_fst: "distinct (map fst xs) \<Longrightarrow> distinct (map fst (filter P xs))"
  by (induction xs) auto

lemma timed_end_timers: "timed s t' \<Longrightarrow> timed (end_timers t expired s) t'"
  by (cases "t' = t") (simp_all add: timed_def end_timers_def distinct_filter_fst)

lemma timed_unregister:
  assumes "timed s t'" "pending (tls s t) inbox = Some pr" "timer_id pr \<ge> 0"
  shows "timed (erase_pending t inbox (unregister_timer t (timer_id pr) s)) t'"
proof (cases "t' = t")
  case True
  have d: "distinct (map fst (nats_timers s t))" using assms(1) True by (simp add: timed_def)
  have "(timer_id q, ib) \<in> set (nats_timers s t) \<and> timer_id q \<noteq> timer_id pr"
    if q: "ib \<noteq> inbox" "pending (tls s t) ib = Some q" "timer_id q \<ge> 0" and e: "\<not> timers_ending s t" for ib q
  proof -
    have m: "(timer_id pr, inbox) \<in> set (nats_timers s t)" "(timer_id q, ib) \<in> set (nats_timers s t)"
      using assms q e True by (simp_all add: timed_def)
    then show ?thesis using d q(1) by (metis eq_key_imp_eq_value)
  qed
  then show ?thesis using True distinct_filter_fst [OF d]
    by (auto simp: timed_def erase_pending_def upd_tls_def unregister_timer_def split: if_splits)
next
  case False
  then show ?thesis using assms(1) by (simp add: timed_def erase_pending_def upd_tls_def unregister_timer_def)
qed

definition nats_ok :: "nats \<Rightarrow> bool" where
  "nats_ok s \<longleftrightarrow> (\<forall>r. served s r) \<and> (\<forall>t. numbered s t) \<and> (\<forall>t. timed s t)"

lemma nats_ok_frame:
  assumes "nats_ok s" "\<And>t. pending (tls s' t) = pending (tls s t)" "\<And>t. inbox_seq (tls s' t) = inbox_seq (tls s t)"
    "nats_timers s' = nats_timers s" "timers_ending s' = timers_ending s" "issued s' = issued s" "answers s' = answers s"
  shows "nats_ok s'"
  proof -
  have "served s' = served s" using assms waiting_cong [of s' s] by (intro ext served_cong) simp_all
  then show ?thesis using assms by (simp add: nats_ok_def numbered_def timed_def)
qed

lemmas frame_ops = Connect_def Disconnect_def Publish_def Reply_def Subscribe_def OnNatsSubMsg_def OnNatsInboxMsg_def
  post_task_def sub_task_def upd_tls_def

lemma frame_steps:
  assumes "nats_ok s"
  shows "nats_ok (snd (Connect ok s))" "nats_ok (Disconnect s)" "nats_ok (Publish sj mt data ok s)"
    "nats_ok (Reply sj mt data ok s)" "nats_ok (Subscribe t sj h ok s)" "nats_ok (OnNatsSubMsg i sj rt payload ok s)"
    "OnNatsInboxMsg inbox payload ok s = Some s' \<Longrightarrow> nats_ok s'" "nats_ok (sub_task ord i sj rt payload s)"
    "nats_ok (s\<lparr>nats_tasks := q\<rparr>)"
  by (rule nats_ok_frame [OF assms];
      auto simp: frame_ops Let_def split: if_splits option.splits prod.splits)+

lemma finish_ok:
  assumes ok: "\<And>r. served s r" "\<And>t'. numbered s t'" and p: "pending (tls s t) inbox = Some pr"
    and td: "\<And>t'. timed (erase_pending t inbox s) t'"
  shows "nats_ok (answer (request pr) c b (erase_pending t inbox s))"
proof -
  let ?s = "answer (request pr) c b (erase_pending t inbox s)"
  have "numbered ?s t'" for t'
    by (rule numbered_mono [OF ok(2) [of t']]) (auto simp: erase_pending_def upd_tls_def answer_def)
  moreover have "timed ?s t'" for t' using td [of t'] by (simp add: timed_def answer_def)
  ultimately show ?thesis using served_finish [OF ok(1) p] by (simp add: nats_ok_def)
qed

lemma request_ok:
  assumes "nats_ok s" "tid < 0 \<or> tid \<notin> fst ` set (nats_timers s t) \<and> \<not> timers_ending s t" "Suc (issued s) < 2 ^ 64"
  shows "nats_ok (AsyncRequest t subject mt data a b tid s)"
proof -
  have i: "\<And>r. served s r" "\<And>t. numbered s t" "\<And>t. timed s t" using assms(1) by (simp_all add: nats_ok_def)
  show ?thesis
    using served_request [OF i(1) numbered_new [OF i(2)]] numbered_request [OF i(2) assms(3)]
      timed_request [OF i(3) assms(2) numbered_new [OF i(2)]] by (simp add: nats_ok_def)
qed

lemma inbox_task_ok:
  assumes "nats_ok s"
  shows "nats_ok (inbox_task t inbox payload s)"
proof (cases "pending (tls s t) inbox")
  case None
  then show ?thesis using assms by (simp add: inbox_task_def)
next
  case (Some pr)
  have i: "\<And>r. served s r" "\<And>t. numbered s t" "\<And>t. timed s t" using assms by (simp_all add: nats_ok_def)
  show ?thesis
  proof (cases "timer_id pr \<ge> 0")
    case True
    let ?s = "unregister_timer t (timer_id pr) s"
    have f: "tls ?s = tls s" "issued ?s = issued s" "answers ?s = answers s" by (simp_all add: unregister_timer_def)
    have "waiting ?s = waiting s" by (rule waiting_cong) (simp add: f)
    then have "served ?s = served s" by (intro ext served_cong) (simp_all add: f)
    then have "served ?s r" "numbered ?s t'" for r t' using i by (simp_all add: numbered_def f)
    then have "nats_ok (answer (request pr) c b (erase_pending t inbox ?s))" for c b
      using finish_ok [of ?s t inbox pr] Some timed_unregister [OF i(3) Some True] by (simp add: f)
    then show ?thesis using Some True by (simp add: inbox_task_def)
  next
    case False
    then show ?thesis using Some finish_ok [OF i(1,2) Some timed_erase [OF i(3)]] by (simp add: inbox_task_def)
  qed
qed

lemma timer_ok:
  assumes ok: "nats_ok s" and tm: "nats_timers s t = xs @ (tid, inbox) # ys"
  shows "nats_ok (timeout_request t inbox (s\<lparr>nats_timers := (nats_timers s)(t := xs @ ys)\<rparr>))"
proof -
  let ?s = "s\<lparr>nats_timers := (nats_timers s)(t := xs @ ys)\<rparr>"
  have i: "\<And>r. served s r" "\<And>t. numbered s t" "\<And>t. timed s t" using ok by (simp_all add: nats_ok_def)
  have w: "waiting ?s = waiting s" by (rule waiting_cong) simp
  have "served ?s = served s" using w by (intro ext served_cong) simp_all
  then have s: "served ?s r" "numbered ?s t'" for r t' using i by (simp_all add: numbered_def)
  have d: "distinct (map fst (xs @ ys))" using i(3) [of t] tm by (simp add: timed_def)
  have td: "timed (erase_pending t inbox ?s) t'" for t'
  proof (cases "t' = t")
    case True
    have "(timer_id pr, ib) \<in> set (xs @ ys)" if "ib \<noteq> inbox" "pending (tls s t) ib = Some pr" "timer_id pr \<ge> 0" "\<not> timers_ending s t" for ib pr
      using i(3) [of t] that tm unfolding timed_def by fastforce
    then show ?thesis using True d by (simp add: timed_def erase_pending_def upd_tls_def)
  next
    case False
    then show ?thesis using i(3) [of t'] by (simp add: timed_def erase_pending_def upd_tls_def)
  qed
  show ?thesis
  proof (cases "pending (tls s t) inbox")
    case None
    then have "erase_pending t inbox ?s = ?s" by (simp add: erase_pending_def upd_tls_def fun_upd_idem)
    then show ?thesis using None s td by (simp add: timeout_request_def nats_ok_def)
  next
    case (Some pr)
    then show ?thesis using finish_ok [OF s _ td] by (simp add: timeout_request_def)
  qed
qed

lemma step_ok:
  assumes "nats_step ord s s'"
  shows "issued s \<le> issued s' \<and> (issued s' < 2 ^ 64 \<longrightarrow> nats_ok s \<longrightarrow> nats_ok s')"
  using assms
proof cases
  case (task i)
  show ?thesis
  proof (cases "nats_tasks s i")
    case Nil
    then show ?thesis using task by (simp add: run_nats_task_def)
  next
    case (Cons tk tks)
    let ?s = "s\<lparr>nats_tasks := (nats_tasks s)(i := tks)\<rparr>"
    have "issued (inbox_task t inbox payload ?s) = issued s" for t inbox payload
      by (simp add: inbox_task_def unregister_timer_def Let_def split: option.split)
    moreover have "issued (sub_task ord i sj rt payload ?s) = issued s" for sj rt payload
      by (simp add: sub_task_def split: option.split prod.split)
    moreover have "nats_ok (inbox_task t inbox payload ?s)" "nats_ok (sub_task ord i sj rt payload ?s)"
      if "nats_ok s" for t inbox sj rt payload
      using that by (simp_all add: inbox_task_ok frame_steps(8,9))
    ultimately show ?thesis unfolding task run_nats_task_def Cons list.case Let_def by (cases tk) simp_all
  qed
next
  case (timer t xs tid inbox ys)
  have "issued s' = issued s" by (simp add: timer timeout_request_def split: option.split)
  then show ?thesis using timer_ok [of s t xs tid inbox ys] timer by simp
next
  case (shutdown t expired)
  have f: "tls s' = tls s" "issued s' = issued s" "answers s' = answers s" by (simp_all add: shutdown end_timers_def)
  have "waiting s' = waiting s" by (rule waiting_cong) (simp add: f)
  then have "served s' = served s" by (intro ext served_cong) (simp_all add: f)
  moreover have "\<forall>u. timed s u \<Longrightarrow> \<forall>u. timed s' u" using timed_end_timers by (simp add: shutdown)
  ultimately show ?thesis by (simp add: nats_ok_def numbered_def f)
next
  case (request tid t subject mt data a b)
  then show ?thesis using request_ok [of s tid t] by simp
next
  case (request_raw tid t subject mt data a b)
  then show ?thesis using request_ok [of s tid t] by (simp add: RequestRaw_AsyncRequest)
next
  case (inbox_msg inbox payload posted)
  then have "issued s' = issued s" by (auto simp: OnNatsInboxMsg_def post_task_def)
  then show ?thesis using frame_steps(7) [OF _ inbox_msg] by simp
qed (use frame_steps(1-6) in \<open>auto simp: frame_ops Let_def\<close>)

interpretation nats_run: kept_invariant "nats_step ord" NatsManager "\<lambda>s. issued s < 2 ^ 64 \<longrightarrow> nats_ok s" for ord
proof
  have "waiting NatsManager r = {}" for r by (simp add: waiting_def NatsManager_def)
  then have "nats_ok NatsManager"
    by (simp add: nats_ok_def served_def numbered_def timed_def) (simp add: NatsManager_def)
  then show "issued NatsManager < 2 ^ 64 \<longrightarrow> nats_ok NatsManager" ..
next
  fix s s' assume "nats_step ord s s'" "issued s < 2 ^ 64 \<longrightarrow> nats_ok s"
  then show "issued s' < 2 ^ 64 \<longrightarrow> nats_ok s'" using step_ok [of ord s s'] by auto
qed

lemma nats_reach_ok: "nats_reach ord s \<Longrightarrow> issued s < 2 ^ 64 \<Longrightarrow> nats_ok s"
  using nats_run.reach_inv by blast

text \<open>
  C21. However threads, messages, timers and the shutdown of timers interleave, a request that has been made has exactly one answer or
  waits in exactly one table; and while it waits, a timer registered for it is armed unless its thread's timer manager has entered
  shutdown mode, which cancels the timers of waiting requests (for fewer than \<open>2 ^ 64\<close> requests).
\<close>

theorem request_answered_once:
  assumes "nats_reach ord s" "issued s < 2 ^ 64"
  shows "(if r < issued s
       then waiting s r = {} \<and> length (answers s r) = 1 \<or> is_singleton (waiting s r) \<and> answers s r = []
       else waiting s r = {} \<and> answers s r = []) \<and>
     (case pending (tls s t) inbox of
        None \<Rightarrow> True
      | Some pr \<Rightarrow> timer_id pr < 0 \<or> timers_ending s t \<or> (timer_id pr, inbox) \<in> set (nats_timers s t))"
proof -
  have ok: "served s r" "timed s t" using nats_reach_ok [OF assms] by (simp_all add: nats_ok_def)
  from ok(2) have "case pending (tls s t) inbox of None \<Rightarrow> True
     | Some pr \<Rightarrow> timer_id pr < 0 \<or> timers_ending s t \<or> (timer_id pr, inbox) \<in> set (nats_timers s t)"
    unfolding timed_def by (cases "pending (tls s t) inbox") (simp_all, meson not_le)
  then show ?thesis using ok(1) unfolding served_def by blast
qed

text \<open>A worker asks, the reply comes back.\<close>

definition replied :: nats where
  "replied = run_nats_task (\<lambda>_. []) 1 (post_task 1 (InboxTask (inbox_name 1 0) (BuildPayload Meta [7]))
     (AsyncRequest (NatsWorker 1) ''a'' Meta [5] True True 0 (snd (Connect True NatsManager))))"

lemma replied_reach: "nats_reach (\<lambda>_. []) replied"
proof -
  let ?c = "snd (Connect True NatsManager)"
  let ?r = "AsyncRequest (NatsWorker 1) ''a'' Meta [5] True True 0 ?c"
  let ?p = "post_task 1 (InboxTask (inbox_name 1 0) (BuildPayload Meta [7])) ?r"
  have c: "nats_step (\<lambda>_. []) NatsManager ?c" by (rule nats_step.connect)
  have r: "nats_step (\<lambda>_. []) ?c ?r" by (rule nats_step.request) (simp add: Connect_def NatsManager_def)
  have p: "nats_step (\<lambda>_. []) ?r ?p"
    by (rule nats_step.inbox_msg [of "inbox_name 1 0" _ True]) (simp add: OnNatsInboxMsg_def ParseInboxWorkerIndex_inbox)
  have "nats_step (\<lambda>_. []) ?p replied" unfolding replied_def by (rule nats_step.task)
  with p have "(nats_step (\<lambda>_. []))\<^sup>*\<^sup>* ?r replied" by (meson r_into_rtranclp rtranclp.rtrancl_into_rtrancl)
  with c r show ?thesis by (meson converse_rtranclp_into_rtranclp)
qed

lemmas replied_ops = run_nats_task_def post_task_def AsyncRequest_def request_ops Connect_def NatsManager_def
  inbox_task_def unregister_timer_def parse_BuildPayload

lemma replied_state: "issued replied = 1" "answers replied 0 = [(OK, [7])]" "nats_timers replied (NatsWorker 1) = []"
  by (simp_all add: replied_def replied_ops)

theorem request_answered_once_witness:
  "length (answers replied 0) = 1 \<and> waiting replied 0 = {}"
  using request_answered_once [OF replied_reach, of 0 "NatsWorker 1" "''a''"] replied_state by simp

section \<open>Requests made outside the workers\<close>

lemma timers_other:
  assumes "nats_reach ord s"
  shows "nats_timers s (NatsOther j) = []"
  using assms
proof (induction rule: rtranclp_induct)
  case base
  show ?case by (simp add: NatsManager_def)
next
  case (step s s')
  from step.hyps(2) show ?case
  proof cases
    case (request tid t subject mt data a b)
    then show ?thesis using step.IH
      by (auto simp: AsyncRequest_def request_ops split: option.split nats_thread.split)
  next
    case (request_raw tid t subject mt data a b)
    then show ?thesis using step.IH
      by (auto simp: RequestRaw_AsyncRequest AsyncRequest_def request_ops split: option.split nats_thread.split)
  next
    case (task i)
    then show ?thesis using step.IH
      by (auto simp: run_nats_task_def inbox_task_def sub_task_def request_ops unregister_timer_def
          split: option.split nats_task.split list.split prod.split)
  next
    case (timer t xs tid inbox ys)
    then have "t \<noteq> NatsOther j" using step.IH by auto
    then show ?thesis using step.IH timer by (auto simp: timeout_request_def request_ops split: option.split)
  qed (use step.IH in \<open>auto simp: frame_ops Let_def end_timers_def\<close>)
qed

lemma pending_other:
  assumes "nats_step ord s s'" and ok: "nats_ok s" and tm: "nats_timers s (NatsOther j) = []"
    and p: "pending (tls s (NatsOther j)) inbox = Some pr"
  shows "pending (tls s' (NatsOther j)) inbox = Some pr"
proof -
  have new: "inbox \<noteq> inbox_name 0 (inbox_seq (tls s (NatsOther j)))"
    using numbered_new [of s "NatsOther j"] ok p by (auto simp: nats_ok_def)
  have r: "pending (tls (AsyncRequest t subject mt data a b tid s) (NatsOther j)) inbox = Some pr" for t subject mt data a b tid
  proof (cases "t = NatsOther j")
    case True
    then show ?thesis using p new by (simp add: AsyncRequest_def request_ops split: option.split)
  next
    case False
    then show ?thesis using p by (simp add: tls_AsyncRequest)
  qed
  from assms(1) show ?thesis
  proof cases
    case (request tid t subject mt data a b)
    then show ?thesis using r by simp
  next
    case (request_raw tid t subject mt data a b)
    then show ?thesis using r by (simp add: RequestRaw_AsyncRequest)
  next
    case (task i)
    then show ?thesis using p
      by (auto simp: run_nats_task_def inbox_task_def sub_task_def request_ops unregister_timer_def
          split: option.split nats_task.split list.split prod.split)
  next
    case (timer t xs tid inbox ys)
    then have "t \<noteq> NatsOther j" using tm by auto
    then show ?thesis using p timer by (auto simp: timeout_request_def request_ops split: option.split)
  qed (use p in \<open>auto simp: frame_ops Let_def end_timers_def split: if_splits\<close>)
qed

text \<open>
  A request made on a thread that is not a worker is never answered once it has been sent: its reply goes to worker 0,
  and it has no timer.
\<close>

theorem outside_request_never_answered:
  assumes "nats_reach ord s" "pending (tls s (NatsOther j)) inbox = Some pr"
    and "(nats_step ord)\<^sup>*\<^sup>* s s'" "issued s' < 2 ^ 64"
  shows "answers s' (request pr) = []"
proof -
  have "nats_reach ord s' \<and> (issued s' < 2 ^ 64 \<longrightarrow> pending (tls s' (NatsOther j)) inbox = Some pr)"
    using assms(3)
  proof (induction rule: rtranclp_induct)
    case base
    then show ?case using assms by simp
  next
    case (step u v)
    then have r: "nats_reach ord u" "nats_reach ord v" by (auto intro: rtranclp.rtrancl_into_rtrancl)
    have "pending (tls v (NatsOther j)) inbox = Some pr" if "issued v < 2 ^ 64"
    proof -
      have "issued u < 2 ^ 64" using step_ok [OF step.hyps(2)] that by simp
      then show ?thesis
        using pending_other [OF step.hyps(2) nats_reach_ok [OF r(1)] timers_other [OF r(1)]] step.IH by blast
    qed
    then show ?case using r by blast
  qed
  then have "served s' (request pr)" "pending (tls s' (NatsOther j)) inbox = Some pr"
    using nats_reach_ok assms(4) by (auto simp: nats_ok_def)
  then show ?thesis using waiting_pending by (fastforce simp: served_def split: if_splits)
qed

text \<open>A thread outside and worker 0 ask; both inboxes have the same name, and worker 0 takes the first reply.\<close>

definition outside_asked :: nats where
  "outside_asked = AsyncRequest (NatsOther 0) ''a'' Meta [] True True 0 (snd (Connect True NatsManager))"

definition outside_replied :: nats where
  "outside_replied = run_nats_task (\<lambda>_. []) 0 (post_task 0 (InboxTask (inbox_name 0 0) (BuildPayload Meta [7]))
     (AsyncRequest (NatsWorker 0) ''b'' Meta [] True True 0 outside_asked))"

lemma outside_reach:
  "nats_reach (\<lambda>_. []) outside_asked" "(nats_step (\<lambda>_. []))\<^sup>*\<^sup>* outside_asked outside_replied"
proof -
  let ?c = "snd (Connect True NatsManager)"
  let ?r = "AsyncRequest (NatsWorker 0) ''b'' Meta [] True True 0 outside_asked"
  let ?p = "post_task 0 (InboxTask (inbox_name 0 0) (BuildPayload Meta [7])) ?r"
  have c: "nats_step (\<lambda>_. []) NatsManager ?c" by (rule nats_step.connect)
  have "nats_step (\<lambda>_. []) ?c outside_asked" unfolding outside_asked_def
    by (rule nats_step.request) (simp add: Connect_def NatsManager_def)
  with c show "nats_reach (\<lambda>_. []) outside_asked" by (meson r_into_rtranclp rtranclp.rtrancl_into_rtrancl)
  have r: "nats_step (\<lambda>_. []) outside_asked ?r"
    by (rule nats_step.request) (simp add: outside_asked_def replied_ops)
  have p: "nats_step (\<lambda>_. []) ?r ?p"
    by (rule nats_step.inbox_msg [of "inbox_name 0 0" _ True]) (simp add: OnNatsInboxMsg_def ParseInboxWorkerIndex_inbox)
  have "nats_step (\<lambda>_. []) ?p outside_replied" unfolding outside_replied_def by (rule nats_step.task)
  with p r show "(nats_step (\<lambda>_. []))\<^sup>*\<^sup>* outside_asked outside_replied"
    by (meson converse_rtranclp_into_rtranclp r_into_rtranclp)
qed

theorem outside_request_never_answered_witness:
  "answers outside_replied 0 = [] \<and> answers outside_replied 1 = [(OK, [7])] \<and>
     map fst (published outside_replied) = [''a'', ''b''] \<and>
     map (fst \<circ> snd) (published outside_replied) = [inbox_name 0 0, inbox_name 0 0]"
proof -
  have "pending (tls outside_asked (NatsOther 0)) (inbox_name 0 0) = Some \<lparr>request = 0, timer_id = -1\<rparr>"
    by (simp add: outside_asked_def replied_ops)
  moreover have "issued outside_replied < 2 ^ 64"
    by (simp add: outside_replied_def outside_asked_def replied_ops)
  ultimately have "answers outside_replied 0 = []"
    using outside_request_never_answered [OF outside_reach(1) _ outside_reach(2)] by fastforce
  then show ?thesis by (simp add: outside_replied_def outside_asked_def replied_ops)
qed

section \<open>Handlers of subscriptions\<close>

text \<open>
  When one subscription of a worker matches the subject of a message, its handler is called, whatever the order in which
  the table is searched.
\<close>

theorem subscription_handler:
  assumes "set (ord m) = dom m" "p \<in> dom m" "MatchSub p subject" "\<forall>q \<in> dom m. MatchSub q subject \<longrightarrow> q = p"
  shows "find_handler ord m subject = m p"
proof (cases "m subject")
  case None
  obtain q where q: "find (\<lambda>p. MatchSub p subject) (ord m) = Some q"
    using assms(1-3) by (cases "find (\<lambda>p. MatchSub p subject) (ord m)") (auto simp: find_None_iff)
  then have "q \<in> dom m" "MatchSub q subject" using assms(1) by (auto simp: find_Some_iff)
  then have "q = p" using assms(4) by blast
  then show ?thesis using None q by (simp add: find_handler_def)
next
  case (Some h)
  then have "subject = p" using assms(4) by (auto simp: MatchSub_def)
  then show ?thesis using Some by (simp add: find_handler_def)
qed

theorem subscription_handler_witness:
  "find_handler (\<lambda>_. [''b'', ''a.>'']) [''a.>'' \<mapsto> 3, ''b'' \<mapsto> 4] ''a.x'' = Some 3"
  using subscription_handler [of "\<lambda>_. [''b'', ''a.>'']" "[''a.>'' \<mapsto> 3, ''b'' \<mapsto> 4]" "''a.>''" "''a.x''"]
  by (simp add: MatchSub_def NatsWildcardMatch_def)

text \<open>
  With an overlapping pattern on the same worker, the message arrives once for each subscription, and both times the
  handler of the exact subject is called.
\<close>

theorem overlapping_handler_twice:
  "map (\<lambda>(i, h, _). h)
     (handled (run_nats_task ord 1 (run_nats_task ord 1
        (OnNatsSubMsg 1 ''a.b'' [] [] True (OnNatsSubMsg 1 ''a.b'' [] [] True
           (Subscribe (NatsWorker 1) ''a.b'' 9 True (Subscribe (NatsWorker 1) ''a.*'' 8 True
              (snd (Connect True NatsManager)))))))))
   = [9, 9]"
  by (simp add: run_nats_task_def sub_task_def find_handler_def frame_ops NatsManager_def parse_payload_def sizeof_meta_def)

end
