(* ===== verification/Kcp_Transport.thy ===== *)
theory Kcp_Transport
  imports Gb_Prelude
begin

text \<open>
  \<^verbatim>\<open>KcpTransport\<close> (\<^verbatim>\<open>src/message_stream/transport/kcp_transport.cpp\<close>): the buffers between the byte stream and \<^verbatim>\<open>ikcp\<close>. The \<^verbatim>\<open>ikcp\<close>
  library is outside: what \<^verbatim>\<open>ikcp_send\<close> returns is a parameter, what \<^verbatim>\<open>ikcp_recv\<close> yields an argument. The theorems: received
  bytes reach the reads in order; a write that is accepted goes out once; one that is refused half way goes out twice.
\<close>

section \<open>State\<close>

text \<open>
  \<open>segments\<close> records what \<^verbatim>\<open>ikcp_send\<close> has taken, \<open>written\<close> the calls of \<^verbatim>\<open>on_write_some\<close>, \<open>received\<close> what \<^verbatim>\<open>ikcp_recv\<close> has given and
  \<open>delivered\<close> what \<^verbatim>\<open>on_read_some\<close> was called with; of a pending read only its size matters.
\<close>

record kcp_transport =
  closed :: bool
  has_kcp :: bool
  in_buffer :: "byte list"
  in_head :: nat
  pending_read :: "nat option"
  out_buffer :: "byte list"
  out_head :: nat
  flushing :: bool
  segments :: "byte list list"
  written :: "nat list"
  received :: "byte list"
  delivered :: "byte list list"

definition KcpTransport :: kcp_transport where
  "KcpTransport = \<lparr>closed = False, has_kcp = False, in_buffer = [], in_head = 0, pending_read = None, out_buffer = [], out_head = 0,
     flushing = False, segments = [], written = [], received = [], delivered = []\<rparr>"

definition kKcpMaxSegment :: nat where
  "kKcpMaxSegment = 1376"

text \<open>\<^verbatim>\<open>Setup\<close>, and \<^verbatim>\<open>DoConnect\<close> once the socket is open; \<open>created\<close>: \<^verbatim>\<open>ikcp_create\<close> returned a pointer.\<close>

definition Setup :: "bool \<Rightarrow> kcp_transport \<Rightarrow> bool \<times> kcp_transport" where
  "Setup created s =
     (if closed s then (False, s) else if \<not> created then (False, s\<lparr>has_kcp := False\<rparr>) else (True, s\<lparr>has_kcp := True\<rparr>))"

definition close_kcp :: "kcp_transport \<Rightarrow> kcp_transport" where
  "close_kcp s = (if closed s then s else s\<lparr>closed := True, has_kcp := False\<rparr>)"

section \<open>Reading\<close>

text \<open>Hands the next bytes, at most \<open>want\<close>, to \<^verbatim>\<open>on_read_some\<close>.\<close>

definition deliver_bytes :: "nat \<Rightarrow> kcp_transport \<Rightarrow> kcp_transport" where
  "deliver_bytes want s =
     (let n = min (length (in_buffer s) - in_head s) want;
          s1 = s\<lparr>in_head := in_head s + n, delivered := delivered s @ [take n (drop (in_head s) (in_buffer s))]\<rparr>
      in if in_head s1 = length (in_buffer s) then s1\<lparr>in_buffer := [], in_head := 0\<rparr> else s1)"

definition async_read_some :: "nat \<Rightarrow> kcp_transport \<Rightarrow> kcp_transport" where
  "async_read_some want s =
     (if in_head s < length (in_buffer s) then deliver_bytes want s else s\<lparr>pending_read := Some want\<rparr>)"

definition TryDeliverRead :: "kcp_transport \<Rightarrow> kcp_transport" where
  "TryDeliverRead s =
     (case pending_read s of
        Some want \<Rightarrow> if in_head s < length (in_buffer s) then deliver_bytes want (s\<lparr>pending_read := None\<rparr>) else s
      | None \<Rightarrow> s)"

text \<open>\<open>msgs\<close> are the messages that \<^verbatim>\<open>ikcp_recv\<close> yields until it has none.\<close>

definition DrainInput :: "byte list list \<Rightarrow> kcp_transport \<Rightarrow> kcp_transport" where
  "DrainInput msgs s =
     TryDeliverRead (s\<lparr>in_buffer := in_buffer s @ concat msgs, received := received s @ concat msgs\<rparr>)"

definition HandleInput :: "byte list list \<Rightarrow> kcp_transport \<Rightarrow> kcp_transport" where
  "HandleInput msgs s = (if closed s \<or> \<not> has_kcp s then s else DrainInput msgs s)"

inductive kcp_read_step :: "kcp_transport \<Rightarrow> kcp_transport \<Rightarrow> bool" where
  begin_kcp: "kcp_read_step s (snd (Setup created s))"
| read: "pending_read s = None \<Longrightarrow> kcp_read_step s (async_read_some want s)"
| input: "kcp_read_step s (HandleInput msgs s)"
| close: "kcp_read_step s (close_kcp s)"

definition reads_ok :: "kcp_transport \<Rightarrow> bool" where
  "reads_ok s \<longleftrightarrow> in_head s \<le> length (in_buffer s) \<and> concat (delivered s) @ drop (in_head s) (in_buffer s) = received s \<and>
     (pending_read s = None \<or> in_head s = length (in_buffer s))"

lemma deliver_bytes_ok:
  assumes "in_head s < length (in_buffer s)" "concat (delivered s) @ drop (in_head s) (in_buffer s) = received s"
    "pending_read s = None"
  shows "reads_ok (deliver_bytes want s)"
proof -
  define n where "n = min (length (in_buffer s) - in_head s) want"
  have "take n (drop (in_head s) (in_buffer s)) @ drop (in_head s + n) (in_buffer s) = drop (in_head s) (in_buffer s)"
    by (metis add.commute append_take_drop_id drop_drop)
  then have c: "concat (delivered s) @ take n (drop (in_head s) (in_buffer s)) @ drop (in_head s + n) (in_buffer s) = received s"
    using assms(2) by simp
  have "in_head s + n \<le> length (in_buffer s)" using assms(1) by (simp add: n_def)
  moreover have "concat (delivered s) @ take n (drop (in_head s) (in_buffer s)) = received s" if "in_head s + n = length (in_buffer s)"
    using c that by simp
  ultimately show ?thesis
    using c assms(3) unfolding reads_ok_def deliver_bytes_def n_def [symmetric] Let_def by (simp del: take_all_iff)
qed

lemma reads_ok_step:
  assumes "kcp_read_step s s'" "reads_ok s"
  shows "reads_ok s'"
  using assms(1)
proof cases
  case (begin_kcp created)
  then show ?thesis using assms(2) by (simp add: Setup_def reads_ok_def)
next
  case (read want)
  then show ?thesis using assms(2) deliver_bytes_ok [of s want] by (auto simp: async_read_some_def reads_ok_def)
next
  case (input msgs)
  let ?s = "s\<lparr>in_buffer := in_buffer s @ concat msgs, received := received s @ concat msgs\<rparr>"
  have d: "concat (delivered s) @ drop (in_head s) (in_buffer s @ concat msgs) = received s @ concat msgs"
    using assms(2) by (simp add: reads_ok_def)
  have "reads_ok (TryDeliverRead ?s)"
  proof (cases "pending_read s")
    case None
    then show ?thesis using assms(2) d by (simp add: TryDeliverRead_def reads_ok_def)
  next
    case (Some want)
    show ?thesis
    proof (cases "in_head s < length (in_buffer s @ concat msgs)")
      case True
      then show ?thesis using Some d deliver_bytes_ok [of "?s\<lparr>pending_read := None\<rparr>" want] by (simp add: TryDeliverRead_def)
    next
      case False
      then show ?thesis using Some d assms(2) by (simp add: TryDeliverRead_def reads_ok_def)
    qed
  qed
  then show ?thesis using input assms(2) by (simp add: HandleInput_def DrainInput_def)
next
  case close
  then show ?thesis using assms(2) by (simp add: close_kcp_def reads_ok_def)
qed

interpretation kcp_reads: kept_invariant kcp_read_step KcpTransport reads_ok
proof
  show "reads_ok KcpTransport" by (simp add: reads_ok_def KcpTransport_def)
qed (rule reads_ok_step)

text \<open>
  C27. However datagrams arrive and whatever sizes are asked for, the reads get the received bytes in order: delivered ones, then the
  rest of the buffer. A read is kept waiting only while there is nothing to deliver.
\<close>

theorem kcp_reads_in_order:
  assumes "kcp_read_step\<^sup>*\<^sup>* KcpTransport s"
  shows "concat (delivered s) @ drop (in_head s) (in_buffer s) = received s \<and>
     (pending_read s = None \<or> drop (in_head s) (in_buffer s) = [])"
  using kcp_reads.reach_inv [OF assms] by (auto simp: reads_ok_def)

definition read_demo :: kcp_transport where
  "read_demo = async_read_some 2 (HandleInput [[1, 2, 3], [4, 5]] (async_read_some 4 (snd (Setup True KcpTransport))))"

lemma read_demo_reach: "kcp_read_step\<^sup>*\<^sup>* KcpTransport read_demo"
proof -
  let ?a = "snd (Setup True KcpTransport)" let ?b = "async_read_some 4 ?a" let ?c = "HandleInput [[1, 2, 3], [4, 5]] ?b"
  have "kcp_read_step KcpTransport ?a" by (rule kcp_read_step.begin_kcp)
  moreover have "kcp_read_step ?a ?b" by (rule kcp_read_step.read) (simp add: Setup_def KcpTransport_def)
  moreover have "kcp_read_step ?b ?c" by (rule kcp_read_step.input)
  moreover have "kcp_read_step ?c read_demo" unfolding read_demo_def
    by (rule kcp_read_step.read)
      (simp add: Setup_def KcpTransport_def async_read_some_def HandleInput_def DrainInput_def TryDeliverRead_def deliver_bytes_def)
  ultimately show ?thesis by (meson rtranclp.rtrancl_into_rtrancl rtranclp.rtrancl_refl)
qed

theorem kcp_reads_in_order_witness:
  "delivered read_demo = [[1, 2, 3, 4], [5]] \<and> concat (delivered read_demo) = received read_demo"
  using kcp_reads_in_order [OF read_demo_reach]
  by (simp add: read_demo_def Setup_def KcpTransport_def async_read_some_def HandleInput_def DrainInput_def TryDeliverRead_def
      deliver_bytes_def)

section \<open>Writing\<close>

text \<open>
  The loop of \<^verbatim>\<open>FlushOutput\<close>: \<open>ret k n\<close> is what the \<open>k\<close>-th call of \<^verbatim>\<open>ikcp_send\<close> returns for \<open>n\<close> bytes. It yields the buffer, its
  head, the number of bytes sent and the segments taken, and does not end when \<^verbatim>\<open>ikcp_send\<close> keeps returning 0.
\<close>

partial_function (option) flush_loop ::
  "(nat \<Rightarrow> nat \<Rightarrow> int) \<Rightarrow> nat \<Rightarrow> byte list \<Rightarrow> nat \<Rightarrow> nat \<Rightarrow> byte list list \<Rightarrow> (byte list \<times> nat \<times> nat \<times> byte list list) option" where
  "flush_loop ret k buf head tot segs =
     (if head < length buf then
        (let chunk = min (length buf - head) kKcpMaxSegment; r = ret k chunk
         in if r < 0 then Some (buf, head, tot, segs)
            else (let segs' = segs @ [take chunk (drop head buf)]; head' = head + nat r
                  in if head' = length buf then flush_loop ret (Suc k) [] 0 (tot + nat r) segs'
                     else flush_loop ret (Suc k) buf head' (tot + nat r) segs'))
      else Some (buf, head, tot, segs))"

definition FlushOutput :: "(nat \<Rightarrow> nat \<Rightarrow> int) \<Rightarrow> kcp_transport \<Rightarrow> kcp_transport option" where
  "FlushOutput ret s =
     (if flushing s \<or> closed s \<or> \<not> has_kcp s then Some s
      else map_option
        (\<lambda>(buf, head, tot, segs).
           s\<lparr>out_buffer := buf, out_head := head, segments := segs,
             written := (if tot > 0 then written s @ [tot] else written s)\<rparr>)
        (flush_loop ret 0 (out_buffer s) (out_head s) 0 (segments s)))"

definition async_write_some :: "(nat \<Rightarrow> nat \<Rightarrow> int) \<Rightarrow> byte list \<Rightarrow> kcp_transport \<Rightarrow> kcp_transport option" where
  "async_write_some ret data s = FlushOutput ret (s\<lparr>out_buffer := out_buffer s @ data\<rparr>)"

definition OnUpdate :: "(nat \<Rightarrow> nat \<Rightarrow> int) \<Rightarrow> kcp_transport \<Rightarrow> kcp_transport option" where
  "OnUpdate ret s =
     (if closed s then Some s else if out_head s < length (out_buffer s) then FlushOutput ret s else Some s)"

text \<open>The bytes in segments of at most 1376.\<close>

function pieces :: "byte list \<Rightarrow> byte list list" where
  "pieces bs = (if bs = [] then [] else take kKcpMaxSegment bs # pieces (drop kKcpMaxSegment bs))"
  by pat_completeness auto
termination by (relation "measure length") (auto simp: kKcpMaxSegment_def)

declare pieces.simps [simp del]

lemma pieces_pos: "0 < kKcpMaxSegment"
  by (simp add: kKcpMaxSegment_def)

lemma pieces_props: "concat (pieces bs) = bs \<and> list_all (\<lambda>p. p \<noteq> [] \<and> length p \<le> kKcpMaxSegment) (pieces bs)"
proof (induction bs rule: pieces.induct)
  case (1 bs)
  then show ?case using pieces_pos by (subst (1 2) pieces.simps) auto
qed

lemma flush_loop_accepted:
  assumes "\<forall>k n. ret k n = int n" "head < length buf"
  shows "flush_loop ret k buf head tot segs = Some ([], 0, tot + (length buf - head), segs @ pieces (drop head buf))"
  using assms(2)
proof (induction "length buf - head" arbitrary: k head tot segs rule: less_induct)
  case less
  let ?c = "min (length buf - head) kKcpMaxSegment"
  have c: "0 < ?c" using less.prems pieces_pos by simp
  have p: "pieces (drop head buf) = take ?c (drop head buf) # pieces (drop (head + ?c) buf)"
    using less.prems by (subst pieces.simps) (auto simp: min_def add.commute)
  show ?case
  proof (cases "head + ?c = length buf")
    case True
    have e: "flush_loop ret (Suc k) [] 0 t g = Some ([], 0, t, g)" for t g by (subst flush_loop.simps) simp
    have q: "pieces (drop (head + ?c) buf) = []" using True by (subst pieces.simps) simp
    show ?thesis using True less.prems assms(1) p q by (subst flush_loop.simps) (simp add: Let_def e)
  next
    case False
    then have l: "head + ?c < length buf" using less.prems by simp
    then have "flush_loop ret (Suc k) buf (head + ?c) (tot + ?c) (segs @ [take ?c (drop head buf)]) =
        Some ([], 0, tot + ?c + (length buf - (head + ?c)), (segs @ [take ?c (drop head buf)]) @ pieces (drop (head + ?c) buf))"
      using less.hyps [of "head + ?c"] c by simp
    then show ?thesis using False less.prems assms(1) p l by (subst flush_loop.simps) (simp add: Let_def)
  qed
qed

text \<open>
  When \<^verbatim>\<open>ikcp_send\<close> takes all it is given, a write goes out at once and once, in segments that fit into a datagram, and
  is reported with its full size.
\<close>

theorem kcp_write_goes_out:
  assumes "\<forall>k n. ret k n = int n" and "has_kcp s" "\<not> closed s" "\<not> flushing s" "out_buffer s = []" "out_head s = 0" and "data \<noteq> []"
  shows "\<exists>s' ps. async_write_some ret data s = Some s' \<and> segments s' = segments s @ ps \<and> concat ps = data \<and>
     list_all (\<lambda>p. p \<noteq> [] \<and> length p \<le> 1376) ps \<and> written s' = written s @ [length data] \<and> out_buffer s' = []"
proof -
  have "flush_loop ret 0 data 0 0 (segments s) = Some ([], 0, length data, segments s @ pieces data)"
    using flush_loop_accepted [OF assms(1), of 0 data 0 0 "segments s"] assms(7) by simp
  then show ?thesis using assms pieces_props [of data]
    by (intro exI [of _ "s\<lparr>out_buffer := [], out_head := 0, segments := segments s @ pieces data, written := written s @ [length data]\<rparr>"]
        exI [of _ "pieces data"])
      (simp add: async_write_some_def FlushOutput_def kKcpMaxSegment_def)
qed

definition open_kcp :: kcp_transport where
  "open_kcp = snd (Setup True KcpTransport)"

lemma open_kcp_simps:
  "has_kcp open_kcp" "\<not> closed open_kcp" "\<not> flushing open_kcp" "out_buffer open_kcp = []" "out_head open_kcp = 0"
  "segments open_kcp = []" "written open_kcp = []"
  by (simp_all add: open_kcp_def Setup_def KcpTransport_def)

theorem kcp_write_goes_out_witness:
  "\<exists>s' ps. async_write_some (\<lambda>k n. int n) [1, 2, 3] open_kcp = Some s' \<and> segments s' = ps \<and> concat ps = [1, 2, 3] \<and>
     written s' = [3]"
proof -
  have "\<forall>k n. (\<lambda>(k::nat) n. int n) k n = int n" by simp
  from kcp_write_goes_out [OF this open_kcp_simps(1-5), of "[1, 2, 3]"] obtain s' ps where
    "async_write_some (\<lambda>k n. int n) [1, 2, 3] open_kcp = Some s'" "segments s' = ps" "concat ps = [1, 2, 3]" "written s' = [3]"
    by (auto simp: open_kcp_simps)
  then show ?thesis by blast
qed

text \<open>
  When \<^verbatim>\<open>ikcp_send\<close> refuses after the first segment, the write is reported as partly done and its rest kept; the
  stream writes the rest again, and it goes out twice.
\<close>

theorem kcp_refused_write_duplicated:
  assumes "length d1 = 1376" "0 < length d2" "length d2 \<le> 1376"
  shows "\<exists>s1 s2. async_write_some (\<lambda>k n. if k = 0 then int n else -1) (d1 @ d2) open_kcp = Some s1 \<and> written s1 = [1376] \<and>
     async_write_some (\<lambda>k n. int n) d2 s1 = Some s2 \<and> concat (segments s2) = d1 @ d2 @ d2"
proof -
  let ?ret = "\<lambda>k n. if k = 0 then int n else -1 :: int"
  have "flush_loop ?ret 1 (d1 @ d2) 1376 1376 [d1] = Some (d1 @ d2, 1376, 1376, [d1])"
    using assms by (subst flush_loop.simps) (simp add: Let_def)
  then have f: "flush_loop ?ret 0 (d1 @ d2) 0 0 [] = Some (d1 @ d2, 1376, 1376, [d1])"
    using assms by (subst flush_loop.simps) (simp add: Let_def kKcpMaxSegment_def)
  define s1 where "s1 = open_kcp\<lparr>out_buffer := d1 @ d2, out_head := 1376, segments := [d1], written := [1376]\<rparr>"
  have 1: "async_write_some ?ret (d1 @ d2) open_kcp = Some s1"
    using f by (simp add: async_write_some_def FlushOutput_def open_kcp_def Setup_def KcpTransport_def s1_def)
  have "flush_loop (\<lambda>k n. int n) 0 (d1 @ d2 @ d2) 1376 0 [d1] = Some ([], 0, length (d2 @ d2), [d1] @ pieces (d2 @ d2))"
    using flush_loop_accepted [of "\<lambda>k n. int n" 1376 "d1 @ d2 @ d2" 0 0 "[d1]"] assms by simp
  then have "\<exists>s2. async_write_some (\<lambda>k n. int n) d2 s1 = Some s2 \<and> segments s2 = [d1] @ pieces (d2 @ d2)"
    by (simp add: async_write_some_def FlushOutput_def s1_def open_kcp_def Setup_def KcpTransport_def)
  then obtain s2 where "async_write_some (\<lambda>k n. int n) d2 s1 = Some s2" "segments s2 = [d1] @ pieces (d2 @ d2)" by blast
  then show ?thesis using 1 pieces_props [of "d2 @ d2"] by (intro exI [of _ s1] exI [of _ s2]) (simp add: s1_def)
qed

theorem kcp_refused_write_duplicated_witness:
  "\<exists>s1 s2. async_write_some (\<lambda>k n. if k = 0 then int n else -1) (replicate 1376 0 @ [1]) open_kcp = Some s1 \<and>
     async_write_some (\<lambda>k n. int n) [1] s1 = Some s2 \<and> concat (segments s2) = replicate 1376 0 @ [1, 1]"
  using kcp_refused_write_duplicated [of "replicate 1376 0" "[1]"] by auto

text \<open>An \<^verbatim>\<open>ikcp_send\<close> that returns 0 for success, as older versions of the library do, keeps the loop going for ever.\<close>

lemma kcp_zero_return_hangs:
  assumes "data \<noteq> []"
  shows "flush_loop (\<lambda>k n. 0) k data 0 tot segs = None"
proof -
  have "\<not> (ret = (\<lambda>k n. 0) \<and> buf \<noteq> [] \<and> head = 0)" if "flush_loop ret k buf head tot segs = Some y" for ret k buf head tot segs y
  proof (rule flush_loop.raw_induct [OF _ that], goal_cases)
    case (1 loop ret k buf head tot segs y)
    then show ?case by (fastforce simp: Let_def split: if_splits)
  qed
  then show ?thesis using assms by (metis not_None_eq)
qed

end
