(* ===== verification/Pg_Pipeline.thy ===== *)
theory Pg_Pipeline
  imports Pg_Connection
begin

text \<open>
  The requests of \<^verbatim>\<open>PgConnection\<close> (\<^verbatim>\<open>src/db/postgres/pg_connection.cpp\<close>): connection string, results, and the pipeline
  that runs one request at a time. A function that throws is \<open>None\<close>. The theorems: the result of a request with
  several statements; requests are answered once each, in the order in which they were made.
\<close>

section \<open>Connecting\<close>

record pg_config =
  host :: string
  port :: nat
  user :: string
  password :: string
  database :: string
  use_ssl :: bool
  connect_timeout_sec :: int

definition BuildConnString :: "pg_config \<Rightarrow> string" where
  "BuildConnString cfg =
     ''host='' @ host cfg @ '' port='' @ to_dec (if port cfg > 0 then port cfg else 5432) @ '' user='' @ user cfg @
     '' password='' @ password cfg @ '' dbname='' @ database cfg @
     '' connect_timeout='' @ to_string (connect_timeout_sec cfg) @
     (if use_ssl cfg then '' sslmode=require'' else '' sslmode=disable'')"

text \<open>The pointer \<^verbatim>\<open>conn_\<close> and the flag; \<open>good\<close> is what \<^verbatim>\<open>PQstatus\<close> says of the connection.\<close>

record pg_link =
  conn :: bool
  link_connected :: bool

text \<open>\<open>made\<close>: \<^verbatim>\<open>PQconnectdb\<close> returned a pointer.\<close>

definition ConnectSync :: "bool \<Rightarrow> bool \<Rightarrow> pg_link \<Rightarrow> bool \<times> pg_link" where
  "ConnectSync made good l =
     (if made \<and> good then (True, l\<lparr>conn := True, link_connected := True\<rparr>)
      else (False, l\<lparr>conn := made, link_connected := False\<rparr>))"

definition CloseSync :: "pg_link \<Rightarrow> pg_link" where
  "CloseSync l = l\<lparr>conn := False, link_connected := False\<rparr>"

definition IsConnected :: "bool \<Rightarrow> pg_link \<Rightarrow> bool" where
  "IsConnected good l \<longleftrightarrow> conn l \<and> link_connected l \<and> good"

text \<open>Values are not quoted: different settings can give the same string.\<close>

lemma conn_string_ambiguous:
  "BuildConnString (c\<lparr>user := u @ '' password='' @ p, password := q\<rparr>) =
   BuildConnString (c\<lparr>user := u, password := p @ '' password='' @ q\<rparr>)"
  by (simp add: BuildConnString_def)

section \<open>Results\<close>

text \<open>A \<^verbatim>\<open>PGresult\<close>: names and types of the columns with the rows, the text of \<^verbatim>\<open>PQcmdTuples\<close> with the oid, or an error.\<close>

datatype PGresult =
    TuplesOk "(string \<times> nat) list" "string option list list"
  | CommandOk "string option" nat
  | OtherStatus int string

fun ParseResult :: "'d floats \<Rightarrow> PGresult \<Rightarrow> 'd DbResult option" where
  "ParseResult F (TuplesOk cols rows) =
     Some (Rows (map (\<lambda>row. map (\<lambda>((name, oid), v). (name, ToDbValue F v oid)) (zip cols row)) rows) (length cols))"
| "ParseResult F (CommandOk affected oid) =
     (case affected of
        None \<Rightarrow> Some (AffectedRows 0 oid)
      | Some s \<Rightarrow> if s = [] then Some (AffectedRows 0 oid) else map_option (\<lambda>n. AffectedRows n oid) (stoul s))"
| "ParseResult F (OtherStatus status msg) = Some (DbError status msg)"

definition no_result :: "'d DbResult" where
  "no_result = DbError (-1) ''no result''"

fun collect_results :: "'d floats \<Rightarrow> 'd DbResult \<Rightarrow> PGresult list \<Rightarrow> 'd DbResult option" where
  "collect_results F final [] = Some final"
| "collect_results F final (res # rs) =
     (case ParseResult F res of
        None \<Rightarrow> None
      | Some parsed \<Rightarrow>
          collect_results F (if is_ok parsed then parsed else if \<not> is_ok final then parsed else final) rs)"

lemma collect_results_parsed:
  "map (ParseResult F) rs = map Some ds \<Longrightarrow>
     collect_results F final rs =
       Some (if is_ok final \<or> filter is_ok ds \<noteq> [] then last (final # filter is_ok ds) else last (final # ds))"
proof (induction rs arbitrary: final ds)
  case Nil
  then show ?case by simp
next
  case (Cons r rs)
  then obtain d ds' where d: "ds = d # ds'" "ParseResult F r = Some d" "map (ParseResult F) rs = map Some ds'"
    by (cases ds) auto
  show ?case
    using Cons.IH [OF d(3), of "if is_ok d then d else if \<not> is_ok final then d else final"] d(1,2) by auto
qed

text \<open>
  The result of a request whose statements have the results \<open>ds\<close>: the last one without error, and when there is none the last
  error. An error next to a good result is not reported.
\<close>

theorem request_result:
  assumes "map (ParseResult F) rs = map Some ds"
  shows "collect_results F no_result rs =
     Some (if filter is_ok ds = [] then last (no_result # ds) else last (filter is_ok ds))"
  using collect_results_parsed [OF assms, of no_result] by (auto simp: no_result_def)

theorem request_result_witness:
  "collect_results int_floats no_result
     [CommandOk (Some ''3'') 0, OtherStatus 7 ''duplicate'', OtherStatus 8 ''aborted''] = Some (AffectedRows 3 0)"
proof -
  have "map (ParseResult int_floats) [CommandOk (Some ''3'') 0, OtherStatus 7 ''duplicate'', OtherStatus 8 ''aborted''] =
      map Some [AffectedRows 3 0, DbError 7 ''duplicate'', DbError 8 ''aborted'']"
    by (simp add: stoul_def is_space_def is_digit_def dec_val_def digit_val_def)
  from request_result [OF this] show ?thesis by simp
qed

text \<open>The first error is not the one that is kept.\<close>

lemma last_error_kept:
  "collect_results F no_result [OtherStatus 7 ''first'', OtherStatus 8 ''second''] = Some (DbError 8 ''second'')"
  by (simp add: no_result_def)

section \<open>The pipeline\<close>

text \<open>What libpq answers while a request is worked on.\<close>

record libpq =
  pq_available :: bool
  pq_sent :: bool
  pq_flush :: int
  pq_socket :: bool
  pq_consumed :: bool
  pq_busy :: bool
  pq_results :: "PGresult list"
  pq_message :: string

text \<open>\<^verbatim>\<open>ContinueOp\<close> ends with a wait for the socket (with \<open>flushing\<close> as it is then) or with the request's result.\<close>

datatype socket_wait = WaitWrite | WaitRead

definition finish_op :: "'d DbResult \<Rightarrow> (socket_wait + 'd DbResult) option" where
  "finish_op r = Some (Inr r)"

definition wait_op :: "libpq \<Rightarrow> socket_wait \<Rightarrow> (socket_wait + 'd DbResult) option" where
  "wait_op pq w = (if pq_socket pq then Some (Inl w) else finish_op (DbError (-1) ''PQsocket failed''))"

definition consume_op :: "'d floats \<Rightarrow> libpq \<Rightarrow> (socket_wait + 'd DbResult) option" where
  "consume_op F pq =
     (if \<not> pq_consumed pq then finish_op (DbError (-1) (pq_message pq))
      else if pq_busy pq then wait_op pq WaitRead
      else map_option Inr (collect_results F no_result (pq_results pq)))"

definition ContinueOp :: "'d floats \<Rightarrow> libpq \<Rightarrow> bool \<Rightarrow> (socket_wait + 'd DbResult) option" where
  "ContinueOp F pq flushing =
     (if flushing
      then (if pq_flush pq = -1 then finish_op (DbError (-1) (pq_message pq))
            else if pq_flush pq = 1 then wait_op pq WaitWrite
            else consume_op F pq)
      else consume_op F pq)"

definition begin_op :: "'d floats \<Rightarrow> libpq \<Rightarrow> (socket_wait + 'd DbResult) option" where
  "begin_op F pq =
     (if \<not> pq_available pq then finish_op (DbError (-1) ''Connection not available'')
      else if \<not> pq_sent pq then finish_op (DbError (-1) (pq_message pq))
      else ContinueOp F pq True)"

text \<open>
  Requests are numbered as they come; \<open>op\<close> is the one that waits for the socket (\<^verbatim>\<open>op_active_\<close>), \<open>answers\<close> the calls of callbacks.
\<close>

record 'd pg_pipeline =
  op :: "(nat \<times> socket_wait) option"
  pending_ops :: "nat list"
  answers :: "(nat \<times> 'd DbResult) list"
  submitted :: nat

definition PgPipeline :: "'d pg_pipeline" where
  "PgPipeline = \<lparr>op = None, pending_ops = [], answers = [], submitted = 0\<rparr>"

text \<open>\<^verbatim>\<open>StartNext\<close> and \<^verbatim>\<open>StartSend\<close> call each other until a request has to wait or the queue is empty; \<open>env n\<close> is what
  libpq answers for request \<open>n\<close>.\<close>

fun start_requests :: "'d floats \<Rightarrow> (nat \<Rightarrow> libpq) \<Rightarrow> nat list \<Rightarrow> 'd pg_pipeline \<Rightarrow> 'd pg_pipeline option" where
  "start_requests F env [] s = Some (s\<lparr>op := None, pending_ops := []\<rparr>)"
| "start_requests F env (n # q) s =
     (case begin_op F (env n) of
        None \<Rightarrow> None
      | Some (Inl w) \<Rightarrow> Some (s\<lparr>op := Some (n, w), pending_ops := q\<rparr>)
      | Some (Inr r) \<Rightarrow> start_requests F env q (s\<lparr>answers := answers s @ [(n, r)]\<rparr>))"

definition StartSend :: "'d floats \<Rightarrow> (nat \<Rightarrow> libpq) \<Rightarrow> nat \<Rightarrow> 'd pg_pipeline \<Rightarrow> 'd pg_pipeline option" where
  "StartSend F env n s =
     (if op s \<noteq> None then Some (s\<lparr>pending_ops := pending_ops s @ [n]\<rparr>)
      else start_requests F env (n # pending_ops s) s)"

definition StartNext :: "'d floats \<Rightarrow> (nat \<Rightarrow> libpq) \<Rightarrow> 'd pg_pipeline \<Rightarrow> 'd pg_pipeline option" where
  "StartNext F env s = start_requests F env (pending_ops s) s"

text \<open>The socket is ready, or the wait failed with a message.\<close>

definition on_socket :: "'d floats \<Rightarrow> (nat \<Rightarrow> libpq) \<Rightarrow> string option \<Rightarrow> 'd pg_pipeline \<Rightarrow> 'd pg_pipeline option" where
  "on_socket F env ec s =
     (case op s of
        None \<Rightarrow> Some s
      | Some (n, w) \<Rightarrow>
          (case ec of
             Some m \<Rightarrow>
               StartNext F env (s\<lparr>answers := answers s @ [(n, DbError (-1)
                 ((case w of WaitWrite \<Rightarrow> ''socket write: '' | WaitRead \<Rightarrow> ''socket read: '') @ m))]\<rparr>)
           | None \<Rightarrow>
               (case ContinueOp F (env n) (w = WaitWrite) of
                  None \<Rightarrow> None
                | Some (Inl w') \<Rightarrow> Some (s\<lparr>op := Some (n, w')\<rparr>)
                | Some (Inr r) \<Rightarrow> StartNext F env (s\<lparr>answers := answers s @ [(n, r)]\<rparr>))))"

inductive pg_step :: "'d floats \<Rightarrow> 'd pg_pipeline \<Rightarrow> 'd pg_pipeline \<Rightarrow> bool" for F where
  submit: "StartSend F env (submitted s) (s\<lparr>submitted := Suc (submitted s)\<rparr>) = Some s' \<Longrightarrow> pg_step F s s'"
| ready: "op s \<noteq> None \<Longrightarrow> on_socket F env ec s = Some s' \<Longrightarrow> pg_step F s s'"

abbreviation pg_reach :: "'d floats \<Rightarrow> 'd pg_pipeline \<Rightarrow> bool" where
  "pg_reach F \<equiv> (pg_step F)\<^sup>*\<^sup>* PgPipeline"

definition current :: "'d pg_pipeline \<Rightarrow> nat list" where
  "current s = (case op s of None \<Rightarrow> [] | Some (n, _) \<Rightarrow> [n])"

definition in_turn :: "'d pg_pipeline \<Rightarrow> bool" where
  "in_turn s \<longleftrightarrow> map fst (answers s) @ current s @ pending_ops s = [0..<submitted s] \<and> (op s = None \<longrightarrow> pending_ops s = [])"

lemma start_requests_order:
  "start_requests F env q s = Some s' \<Longrightarrow>
     map fst (answers s') @ current s' @ pending_ops s' = map fst (answers s) @ q \<and> submitted s' = submitted s \<and>
     (op s' = None \<longrightarrow> pending_ops s' = [])"
  by (induction F env q s rule: start_requests.induct) (auto simp: current_def split: option.splits sum.splits)

lemma pg_step_in_turn:
  assumes "pg_step F s s'" "in_turn s"
  shows "in_turn s'"
  using assms(1)
proof cases
  case (submit env)
  show ?thesis
  proof (cases "op s")
    case None
    then have p: "pending_ops s = []" "map fst (answers s) = [0..<submitted s]"
      using assms(2) by (auto simp: in_turn_def current_def)
    have "start_requests F env [submitted s] (s\<lparr>submitted := Suc (submitted s)\<rparr>) = Some s'"
      using submit None p(1) unfolding StartSend_def by (simp del: start_requests.simps)
    from start_requests_order [OF this] show ?thesis using p(2) by (simp add: in_turn_def)
  next
    case (Some a)
    then show ?thesis using submit assms(2) by (auto simp: StartSend_def in_turn_def current_def)
  qed
next
  case (ready env ec)
  then obtain n w where o: "op s = Some (n, w)" by auto
  have nx: "in_turn s'" if "StartNext F env (s\<lparr>answers := answers s @ [(n, r)]\<rparr>) = Some s'" for r
    using start_requests_order [OF that [unfolded StartNext_def]] assms(2) o by (simp add: in_turn_def current_def)
  show ?thesis
  proof (cases ec)
    case None
    then consider w' where "s' = s\<lparr>op := Some (n, w')\<rparr>"
      | r where "StartNext F env (s\<lparr>answers := answers s @ [(n, r)]\<rparr>) = Some s'"
      using ready(2) o by (auto simp: on_socket_def split: option.splits sum.splits)
    then show ?thesis
    proof cases
      case 1
      then show ?thesis using o assms(2) by (simp add: in_turn_def current_def)
    next
      case 2
      then show ?thesis by (rule nx)
    qed
  next
    case (Some m)
    then show ?thesis using ready o nx by (simp add: on_socket_def)
  qed
qed

interpretation pg_order: kept_invariant "pg_step F" PgPipeline in_turn for F
proof
  show "in_turn PgPipeline" by (simp add: in_turn_def PgPipeline_def current_def)
qed (rule pg_step_in_turn)

text \<open>
  C22. Whatever libpq and the socket do, requests are answered in the order in which they were made, each once: the answered
  ones, then the one at work, then the waiting ones are all the requests; and nothing waits while nothing is at work.
\<close>

theorem requests_answered_in_order:
  assumes "pg_reach F s"
  shows "map fst (answers s) @ current s @ pending_ops s = [0..<submitted s] \<and> (op s \<noteq> None \<or> pending_ops s = [])"
  using pg_order.reach_inv [OF assms] by (auto simp: in_turn_def)


text \<open>Two requests: the first waits for its answer, the second for its turn, and then fails.\<close>

definition reading :: libpq where
  "reading = \<lparr>pq_available = True, pq_sent = True, pq_flush = 0, pq_socket = True, pq_consumed = True, pq_busy = True,
     pq_results = [], pq_message = []\<rparr>"

definition two_requests :: "int pg_pipeline" where
  "two_requests = \<lparr>op = Some (0, WaitRead), pending_ops = [1], answers = [], submitted = 2\<rparr>"

definition first_done :: "int pg_pipeline" where
  "first_done = \<lparr>op = Some (1, WaitRead), pending_ops = [], answers = [(0, no_result)], submitted = 2\<rparr>"

lemma first_done_reach: "pg_reach int_floats first_done"
proof -
  let ?one = "\<lparr>op = Some (0, WaitRead), pending_ops = [], answers = [], submitted = 1\<rparr> :: int pg_pipeline"
  have a: "pg_step int_floats PgPipeline ?one"
    by (rule pg_step.submit [of _ "\<lambda>_. reading"])
      (simp add: PgPipeline_def StartSend_def begin_op_def ContinueOp_def consume_op_def wait_op_def reading_def)
  have b: "pg_step int_floats ?one two_requests"
    by (rule pg_step.submit [of _ "\<lambda>_. reading"]) (simp add: StartSend_def two_requests_def)
  have "pg_step int_floats two_requests first_done"
    by (rule pg_step.ready [of _ _ "\<lambda>n. if n = 0 then reading\<lparr>pq_busy := False\<rparr> else reading" None])
      (simp_all add: two_requests_def first_done_def on_socket_def StartNext_def begin_op_def ContinueOp_def consume_op_def
        wait_op_def reading_def)
  with a b show ?thesis by (meson rtranclp.rtrancl_into_rtrancl rtranclp.rtrancl_refl)
qed

theorem requests_answered_in_order_witness:
  "map fst (answers first_done) @ current first_done @ pending_ops first_done = [0, 1]"
  using requests_answered_in_order [OF first_done_reach] by (simp add: first_done_def upt_rec)

section \<open>The kinds of requests\<close>

text \<open>What is sent, and what the callback is given for the result.\<close>

datatype pg_send = SendQuery string | SendQueryParams string "string option list"

definition AsyncQuery :: "string \<Rightarrow> pg_send \<times> ('d DbResult \<Rightarrow> 'd DbResult)" where
  "AsyncQuery sql = (SendQuery sql, id)"

definition AsyncQueryParams :: "'d floats \<Rightarrow> string \<Rightarrow> 'd DbValue list \<Rightarrow> pg_send \<times> ('d DbResult \<Rightarrow> 'd DbResult)" where
  "AsyncQueryParams F sql params = (SendQueryParams sql (map (param_text F) params), id)"

definition AsyncExecute :: "string \<Rightarrow> pg_send \<times> ('d DbResult \<Rightarrow> nat)" where
  "AsyncExecute sql = (SendQuery sql, \<lambda>r. if is_ok r then affected_rows r else 0)"

definition AsyncBegin :: "pg_send \<times> ('d DbResult \<Rightarrow> bool)" where
  "AsyncBegin = (SendQuery ''BEGIN'', is_ok)"

definition AsyncCommit :: "pg_send \<times> ('d DbResult \<Rightarrow> bool)" where
  "AsyncCommit = (SendQuery ''COMMIT'', is_ok)"

definition AsyncRollback :: "pg_send \<times> ('d DbResult \<Rightarrow> bool)" where
  "AsyncRollback = (SendQuery ''ROLLBACK'', is_ok)"

text \<open>The coroutines: those of transactions return nothing.\<close>

definition CoQuery :: "string \<Rightarrow> pg_send \<times> ('d DbResult \<Rightarrow> 'd DbResult)" where
  "CoQuery sql = (SendQuery sql, id)"

definition CoQueryParams :: "'d floats \<Rightarrow> string \<Rightarrow> 'd DbValue list \<Rightarrow> pg_send \<times> ('d DbResult \<Rightarrow> 'd DbResult)" where
  "CoQueryParams F sql params = (SendQueryParams sql (map (param_text F) params), id)"

definition CoExecute :: "string \<Rightarrow> pg_send \<times> ('d DbResult \<Rightarrow> nat)" where
  "CoExecute sql = (SendQuery sql, \<lambda>r. if is_ok r then affected_rows r else 0)"

definition CoBegin :: "pg_send \<times> ('d DbResult \<Rightarrow> unit)" where
  "CoBegin = (SendQuery ''BEGIN'', \<lambda>_. ())"

definition CoCommit :: "pg_send \<times> ('d DbResult \<Rightarrow> unit)" where
  "CoCommit = (SendQuery ''COMMIT'', \<lambda>_. ())"

definition CoRollback :: "pg_send \<times> ('d DbResult \<Rightarrow> unit)" where
  "CoRollback = (SendQuery ''ROLLBACK'', \<lambda>_. ())"

text \<open>A failed commit cannot be told from a good one by the coroutine.\<close>

lemma failed_commit_unnoticed:
  "fst CoCommit = fst AsyncCommit \<and> \<not> snd AsyncCommit (DbError c m) \<and> snd CoCommit (DbError c m) = snd CoCommit (AffectedRows 0 0)"
  by (simp add: CoCommit_def AsyncCommit_def)

end
