(* ===== verification/Redis_Value.thy ===== *)
theory Redis_Value
  imports Decimal
begin

text \<open>
  \<^verbatim>\<open>RedisValue\<close> and the conversions of replies (\<^verbatim>\<open>src/db/redis/redis_value.h\<close>, \<^verbatim>\<open>src/db/redis/redis_value.cpp\<close> and the helpers
  of \<^verbatim>\<open>src/db/redis/redis_connection.cpp\<close>). A hiredis reply is the C structure the library documents. Doubles are a type
  of their own with the C++ conversions that the code uses as a parameter. The theorem: scored members are read alike
  from a flat RESP2 and a nested RESP3 reply.
\<close>

section \<open>Values\<close>

record RedisError =
  err_code :: int
  err_message :: string

definition no_error :: RedisError where
  "no_error = \<lparr>err_code = 0, err_message = []\<rparr>"

definition ok_error :: "RedisError \<Rightarrow> bool" where
  "ok_error e \<longleftrightarrow> err_code e = 0"

datatype 'd RedisValue =
    VNil
  | VBool bool
  | VInt int
  | VDouble 'd
  | VStr string
  | VArray "'d RedisValue list"
  | VMap "(string \<times> 'd RedisValue) list"
  | VError string

fun is_error :: "'d RedisValue \<Rightarrow> bool" where
  "is_error (VError _) = True"
| "is_error _ = False"

fun is_array :: "'d RedisValue \<Rightarrow> bool" where
  "is_array (VArray _) = True"
| "is_array _ = False"

fun value_err :: "'d RedisValue \<Rightarrow> RedisError" where
  "value_err (VError m) = \<lparr>err_code = -1, err_message = m\<rparr>"
| "value_err _ = no_error"

definition SafeStod :: "'d floats \<Rightarrow> string \<Rightarrow> 'd" where
  "SafeStod F s = (if s = [] then d_of_int F 0 else case strtod F s of None \<Rightarrow> d_of_int F 0 | Some v \<Rightarrow> v)"

definition SafeStoll :: "string \<Rightarrow> int" where
  "SafeStoll s = (if s = [] then 0 else case strtoll s of None \<Rightarrow> 0 | Some v \<Rightarrow> v)"

fun as_str :: "'d floats \<Rightarrow> 'd RedisValue \<Rightarrow> string" where
  "as_str F (VStr s) = s"
| "as_str F (VInt n) = to_string n"
| "as_str F (VDouble d) = d_to_string F d"
| "as_str F (VBool b) = (if b then ''1'' else ''0'')"
| "as_str F _ = []"

fun as_int :: "'d floats \<Rightarrow> 'd RedisValue \<Rightarrow> int" where
  "as_int F (VInt n) = n"
| "as_int F (VBool b) = (if b then 1 else 0)"
| "as_int F (VDouble d) = d_to_int F d"
| "as_int F (VStr s) = SafeStoll s"
| "as_int F _ = 0"

fun as_double :: "'d floats \<Rightarrow> 'd RedisValue \<Rightarrow> 'd" where
  "as_double F (VDouble d) = d"
| "as_double F (VInt n) = d_of_int F n"
| "as_double F (VStr s) = SafeStod F s"
| "as_double F _ = d_of_int F 0"

fun as_bool :: "'d RedisValue \<Rightarrow> bool" where
  "as_bool (VBool b) = b"
| "as_bool (VInt n) \<longleftrightarrow> n \<noteq> 0"
| "as_bool (VStr s) \<longleftrightarrow> s = ''1'' \<or> s = ''true''"
| "as_bool _ = False"

fun item_str :: "'d RedisValue \<Rightarrow> string" where
  "item_str (VStr s) = s"
| "item_str (VInt n) = to_string n"
| "item_str _ = []"

fun as_str_array :: "'d RedisValue \<Rightarrow> string list" where
  "as_str_array (VArray vs) = map item_str vs"
| "as_str_array _ = []"

fun flat_pairs :: "'d floats \<Rightarrow> 'd RedisValue list \<Rightarrow> (string \<times> 'd) list" where
  "flat_pairs F (m # s # vs) = (as_str F m, SafeStod F (as_str F s)) # flat_pairs F vs"
| "flat_pairs F _ = []"

fun as_pairs :: "'d floats \<Rightarrow> 'd RedisValue \<Rightarrow> (string \<times> 'd) list" where
  "as_pairs F (VArray vs) = flat_pairs F vs"
| "as_pairs F _ = []"

section \<open>Replies\<close>

text \<open>The fields of a \<^verbatim>\<open>redisReply\<close>; \<open>NullReply\<close> is the null pointer, an absent string the null pointer of \<^verbatim>\<open>str\<close>.\<close>

datatype reply_type =
  ReplyNil | ReplyInteger | ReplyDouble | ReplyBool | ReplyString | ReplyStatus | ReplyVerb | ReplyBignum
| ReplyError | ReplyArray | ReplySet | ReplyPush | ReplyMap | ReplyAttr | ReplyOther

datatype 'd redisReply =
  NullReply
| Reply (reply_kind: reply_type) (reply_integer: int) (reply_dval: 'd) (reply_str: "string option")
    (reply_elements: "'d redisReply list")

definition str_of :: "string option \<Rightarrow> string" where
  "str_of s = (case s of None \<Rightarrow> [] | Some t \<Rightarrow> t)"

definition map_key :: "'d redisReply \<Rightarrow> string" where
  "map_key k = (case k of
      NullReply \<Rightarrow> []
    | Reply t n d s es \<Rightarrow>
        (case s of Some key \<Rightarrow> key | None \<Rightarrow> if t = ReplyInteger then to_string n else []))"

fun FromReply :: "'d redisReply \<Rightarrow> 'd RedisValue"
  and map_entries :: "'d redisReply list \<Rightarrow> (string \<times> 'd RedisValue) list" where
  "FromReply NullReply = VError ''connection closed''"
| "FromReply (Reply t n d s es) =
     (if t = ReplyNil then VNil
      else if t = ReplyInteger then VInt n
      else if t = ReplyDouble then VDouble d
      else if t = ReplyBool then VBool (n \<noteq> 0)
      else if t \<in> {ReplyString, ReplyStatus, ReplyVerb, ReplyBignum} then VStr (str_of s)
      else if t = ReplyError then VError (str_of s)
      else if t \<in> {ReplyArray, ReplySet, ReplyPush} then VArray (map FromReply es)
      else if t \<in> {ReplyMap, ReplyAttr} then VMap (map_entries es)
      else VNil)"
| "map_entries (k # v # es) = (map_key k, FromReply v) # map_entries es"
| "map_entries _ = []"

section \<open>Conversions of replies\<close>

definition elem_str :: "'d floats \<Rightarrow> 'd RedisValue \<Rightarrow> string" where
  "elem_str F v = (case v of VNil \<Rightarrow> [] | _ \<Rightarrow> as_str F v)"

definition elem_strs :: "'d floats \<Rightarrow> 'd RedisValue \<Rightarrow> string list" where
  "elem_strs F v = (case v of VArray vs \<Rightarrow> map (elem_str F) vs | _ \<Rightarrow> [elem_str F v])"

fun ToStrArray :: "'d floats \<Rightarrow> 'd RedisValue \<Rightarrow> string list" where
  "ToStrArray F (VArray vs) = concat (map (elem_strs F) vs)"
| "ToStrArray F _ = []"

definition nested_pair :: "'d floats \<Rightarrow> 'd RedisValue \<Rightarrow> (string \<times> 'd) list" where
  "nested_pair F v = (case v of VArray (m # s # _) \<Rightarrow> [(as_str F m, as_double F s)] | _ \<Rightarrow> [])"

fun ToPairs :: "'d floats \<Rightarrow> 'd RedisValue \<Rightarrow> (string \<times> 'd) list" where
  "ToPairs F (VArray vs) =
     (if vs \<noteq> [] \<and> is_array (hd vs) then concat (map (nested_pair F) vs) else flat_pairs F vs)"
| "ToPairs F _ = []"

fun ToInt :: "'d floats \<Rightarrow> 'd RedisValue \<Rightarrow> int" where
  "ToInt F (VInt n) = n"
| "ToInt F (VBool b) = (if b then 1 else 0)"
| "ToInt F (VDouble d) = d_to_int F d"
| "ToInt F (VStr s) = SafeStoll s"
| "ToInt F _ = 0"

fun ToDouble :: "'d floats \<Rightarrow> 'd RedisValue \<Rightarrow> 'd" where
  "ToDouble F (VDouble d) = d"
| "ToDouble F (VInt n) = d_of_int F n"
| "ToDouble F (VBool b) = d_of_int F (if b then 1 else 0)"
| "ToDouble F (VStr s) = SafeStod F s"
| "ToDouble F _ = d_of_int F 0"

fun ToString :: "'d floats \<Rightarrow> 'd RedisValue \<Rightarrow> string" where
  "ToString F (VStr s) = s"
| "ToString F (VInt n) = to_string n"
| "ToString F (VDouble d) = d_to_string F d"
| "ToString F (VBool b) = (if b then ''1'' else ''0'')"
| "ToString F _ = []"

section \<open>Scored members in the two protocols\<close>

definition bulk :: "string \<Rightarrow> 'd floats \<Rightarrow> 'd redisReply" where
  "bulk s F = Reply ReplyString 0 (d_of_int F 0) (Some s) []"

definition resp2_pairs :: "'d floats \<Rightarrow> ('d \<Rightarrow> string) \<Rightarrow> (string \<times> 'd) list \<Rightarrow> 'd redisReply" where
  "resp2_pairs F text ps =
     Reply ReplyArray 0 (d_of_int F 0) None (concat (map (\<lambda>(m, d). [bulk m F, bulk (text d) F]) ps))"

definition resp3_pairs :: "'d floats \<Rightarrow> (string \<times> 'd) list \<Rightarrow> 'd redisReply" where
  "resp3_pairs F ps =
     Reply ReplyArray 0 (d_of_int F 0) None
       (map (\<lambda>(m, d). Reply ReplyArray 0 (d_of_int F 0) None [bulk m F, Reply ReplyDouble 0 d None []]) ps)"

lemma FromReply_bulk [simp]: "FromReply (bulk s F) = VStr s"
  by (simp add: bulk_def str_of_def)

text \<open>
  \<^verbatim>\<open>ToPairs\<close> reads members with their scores alike from the flat reply of RESP2, where \<^verbatim>\<open>strtod\<close> reads the text of each
  score, and from the nested reply of RESP3.
\<close>

theorem scored_members_both_protocols:
  assumes "\<forall>d \<in> snd ` set ps. text d \<noteq> [] \<and> strtod F (text d) = Some d"
  shows "ToPairs F (FromReply (resp2_pairs F text ps)) = ps \<and> ToPairs F (FromReply (resp3_pairs F ps)) = ps"
proof
  have f: "flat_pairs F (map FromReply (concat (map (\<lambda>(m, d). [bulk m F, bulk (text d) F]) ps))) = ps"
    using assms by (induction ps) (auto simp: SafeStod_def)
  then show "ToPairs F (FromReply (resp2_pairs F text ps)) = ps" by (cases ps) (auto simp: resp2_pairs_def)
  have "concat (map (nested_pair F) (map FromReply
      (map (\<lambda>(m, d). Reply ReplyArray 0 (d_of_int F 0) None [bulk m F, Reply ReplyDouble 0 d None []]) ps))) = ps"
    by (induction ps) (auto simp: nested_pair_def)
  then show "ToPairs F (FromReply (resp3_pairs F ps)) = ps" by (cases ps) (auto simp: resp3_pairs_def)
qed

theorem scored_members_both_protocols_witness:
  "ToPairs int_floats (FromReply (resp2_pairs int_floats to_string [(''a'', 7), (''b'', -3)])) = [(''a'', 7), (''b'', -3)]"
proof -
  have t: "to_string n \<noteq> []" for n by (simp add: to_string_def to_dec_nonempty)
  have "strtod int_floats (to_string 7) = Some 7" "strtod int_floats (to_string (-3)) = Some (-3)"
    by (simp_all add: int_floats_def strtoll_to_string)
  then have "\<forall>d \<in> snd ` set [(''a'', 7), (''b'', -3)]. to_string d \<noteq> [] \<and> strtod int_floats (to_string d) = Some d"
    using t by simp
  from scored_members_both_protocols [OF this] show ?thesis by blast
qed

text \<open>\<^verbatim>\<open>RedisValue::as_pairs\<close> knows only the flat form, although the connection asks for RESP3.\<close>

lemma as_pairs_loses_nested:
  "as_pairs F (FromReply (resp3_pairs F [(m, d), (m', d')])) = [([], d_of_int F 0)]"
  by (simp add: resp3_pairs_def SafeStod_def)

end
