(* ===== verification/Redis_Commands.thy ===== *)
theory Redis_Commands
  imports Redis_Value
begin

text \<open>
  The commands of \<^verbatim>\<open>RedisConnection\<close> (\<^verbatim>\<open>src/db/redis/redis_connection.cpp\<close>): the arguments that each function sends and
  what it makes of the reply, for the callback functions \<^verbatim>\<open>Async...\<close> and the coroutines \<^verbatim>\<open>Co...\<close>. The theorems: an error
  reply always reaches the callback as an error and never the coroutine; a member without rank is reported as the first.
\<close>

section \<open>Commands\<close>

text \<open>The arguments, and the arguments of the callback for each reply.\<close>

type_synonym ('d, 'a) redis_command = "string list \<times> ('d RedisValue \<Rightarrow> RedisError \<times> 'a)"

definition unit_reply :: "'d RedisValue \<Rightarrow> RedisError \<times> unit" where
  "unit_reply v = (value_err v, ())"

definition str_reply :: "'d floats \<Rightarrow> 'd RedisValue \<Rightarrow> RedisError \<times> string" where
  "str_reply F v = (if is_error v then (value_err v, []) else (no_error, ToString F v))"

definition int_reply :: "'d floats \<Rightarrow> int \<Rightarrow> 'd RedisValue \<Rightarrow> RedisError \<times> int" where
  "int_reply F d v = (if is_error v then (value_err v, d) else (no_error, ToInt F v))"

definition bool_reply :: "'d floats \<Rightarrow> 'd RedisValue \<Rightarrow> RedisError \<times> bool" where
  "bool_reply F v = (if is_error v then (value_err v, False) else (no_error, ToInt F v > 0))"

definition double_reply :: "'d floats \<Rightarrow> 'd \<Rightarrow> 'd RedisValue \<Rightarrow> RedisError \<times> 'd" where
  "double_reply F d v = (if is_error v then (value_err v, d) else (no_error, ToDouble F v))"

definition strs_reply :: "'d floats \<Rightarrow> 'd RedisValue \<Rightarrow> RedisError \<times> string list" where
  "strs_reply F v = (if is_error v then (value_err v, []) else (no_error, ToStrArray F v))"

definition pairs_reply :: "'d floats \<Rightarrow> 'd RedisValue \<Rightarrow> RedisError \<times> (string \<times> 'd) list" where
  "pairs_reply F v = (if is_error v then (value_err v, []) else (no_error, ToPairs F v))"

definition AsyncSet :: "'d floats \<Rightarrow> string \<Rightarrow> string \<Rightarrow> ('d, unit) redis_command" where
  "AsyncSet F key value =
     ([''SET'', key, value],
      unit_reply)"

definition AsyncSetEx :: "'d floats \<Rightarrow> string \<Rightarrow> string \<Rightarrow> int \<Rightarrow> ('d, unit) redis_command" where
  "AsyncSetEx F key value ttl_seconds =
     ([''SETEX'', key, to_string ttl_seconds, value],
      unit_reply)"

definition AsyncGet :: "'d floats \<Rightarrow> string \<Rightarrow> ('d, string) redis_command" where
  "AsyncGet F key =
     ([''GET'', key],
      str_reply F)"

definition AsyncDel :: "'d floats \<Rightarrow> string \<Rightarrow> ('d, int) redis_command" where
  "AsyncDel F key =
     ([''DEL'', key],
      int_reply F 0)"

definition AsyncExists :: "'d floats \<Rightarrow> string \<Rightarrow> ('d, bool) redis_command" where
  "AsyncExists F key =
     ([''EXISTS'', key],
      bool_reply F)"

definition AsyncIncr :: "'d floats \<Rightarrow> string \<Rightarrow> ('d, int) redis_command" where
  "AsyncIncr F key =
     ([''INCR'', key],
      int_reply F 0)"

definition AsyncIncrBy :: "'d floats \<Rightarrow> string \<Rightarrow> int \<Rightarrow> ('d, int) redis_command" where
  "AsyncIncrBy F key delta =
     ([''INCRBY'', key, to_string delta],
      int_reply F 0)"

definition AsyncHSet :: "'d floats \<Rightarrow> string \<Rightarrow> string \<Rightarrow> string \<Rightarrow> ('d, int) redis_command" where
  "AsyncHSet F key field value =
     ([''HSET'', key, field, value],
      int_reply F 0)"

definition AsyncHGet :: "'d floats \<Rightarrow> string \<Rightarrow> string \<Rightarrow> ('d, string) redis_command" where
  "AsyncHGet F key field =
     ([''HGET'', key, field],
      str_reply F)"

definition AsyncHDel :: "'d floats \<Rightarrow> string \<Rightarrow> string \<Rightarrow> ('d, int) redis_command" where
  "AsyncHDel F key field =
     ([''HDEL'', key, field],
      int_reply F 0)"

definition AsyncHKeys :: "'d floats \<Rightarrow> string \<Rightarrow> ('d, string list) redis_command" where
  "AsyncHKeys F key =
     ([''HKEYS'', key],
      strs_reply F)"

definition AsyncHVals :: "'d floats \<Rightarrow> string \<Rightarrow> ('d, string list) redis_command" where
  "AsyncHVals F key =
     ([''HVALS'', key],
      strs_reply F)"

definition AsyncHLen :: "'d floats \<Rightarrow> string \<Rightarrow> ('d, int) redis_command" where
  "AsyncHLen F key =
     ([''HLEN'', key],
      int_reply F 0)"

definition AsyncLPush :: "'d floats \<Rightarrow> string \<Rightarrow> string \<Rightarrow> ('d, int) redis_command" where
  "AsyncLPush F key value =
     ([''LPUSH'', key, value],
      int_reply F 0)"

definition AsyncRPush :: "'d floats \<Rightarrow> string \<Rightarrow> string \<Rightarrow> ('d, int) redis_command" where
  "AsyncRPush F key value =
     ([''RPUSH'', key, value],
      int_reply F 0)"

definition AsyncLPop :: "'d floats \<Rightarrow> string \<Rightarrow> ('d, string) redis_command" where
  "AsyncLPop F key =
     ([''LPOP'', key],
      str_reply F)"

definition AsyncRPop :: "'d floats \<Rightarrow> string \<Rightarrow> ('d, string) redis_command" where
  "AsyncRPop F key =
     ([''RPOP'', key],
      str_reply F)"

definition AsyncLLen :: "'d floats \<Rightarrow> string \<Rightarrow> ('d, int) redis_command" where
  "AsyncLLen F key =
     ([''LLEN'', key],
      int_reply F 0)"

definition AsyncZAdd :: "'d floats \<Rightarrow> string \<Rightarrow> 'd \<Rightarrow> string \<Rightarrow> ('d, int) redis_command" where
  "AsyncZAdd F key score member =
     ([''ZADD'', key, d_to_string F score, member],
      int_reply F 0)"

definition AsyncZRange :: "'d floats \<Rightarrow> string \<Rightarrow> int \<Rightarrow> int \<Rightarrow> bool \<Rightarrow> ('d, string list) redis_command" where
  "AsyncZRange F key start stop with_scores =
     ((if with_scores then [''ZRANGE'', key, to_string start, to_string stop, ''WITHSCORES'']
      else [''ZRANGE'', key, to_string start, to_string stop]),
      strs_reply F)"

definition AsyncZRevRange :: "'d floats \<Rightarrow> string \<Rightarrow> int \<Rightarrow> int \<Rightarrow> bool \<Rightarrow> ('d, string list) redis_command" where
  "AsyncZRevRange F key start stop with_scores =
     ((if with_scores then [''ZREVRANGE'', key, to_string start, to_string stop, ''WITHSCORES'']
      else [''ZREVRANGE'', key, to_string start, to_string stop]),
      strs_reply F)"

definition AsyncZCard :: "'d floats \<Rightarrow> string \<Rightarrow> ('d, int) redis_command" where
  "AsyncZCard F key =
     ([''ZCARD'', key],
      int_reply F 0)"

definition AsyncZRem :: "'d floats \<Rightarrow> string \<Rightarrow> string \<Rightarrow> ('d, int) redis_command" where
  "AsyncZRem F key member =
     ([''ZREM'', key, member],
      int_reply F 0)"

definition AsyncZScore :: "'d floats \<Rightarrow> string \<Rightarrow> string \<Rightarrow> ('d, 'd) redis_command" where
  "AsyncZScore F key member =
     ([''ZSCORE'', key, member],
      double_reply F (d_of_int F (-1)))"

definition AsyncZRank :: "'d floats \<Rightarrow> string \<Rightarrow> string \<Rightarrow> ('d, int) redis_command" where
  "AsyncZRank F key member =
     ([''ZRANK'', key, member],
      int_reply F (-1))"

definition AsyncZRevRank :: "'d floats \<Rightarrow> string \<Rightarrow> string \<Rightarrow> ('d, int) redis_command" where
  "AsyncZRevRank F key member =
     ([''ZREVRANK'', key, member],
      int_reply F (-1))"

definition AsyncZCount :: "'d floats \<Rightarrow> string \<Rightarrow> 'd \<Rightarrow> 'd \<Rightarrow> ('d, int) redis_command" where
  "AsyncZCount F key lo hi =
     ([''ZCOUNT'', key, d_to_string F lo, d_to_string F hi],
      int_reply F 0)"

definition AsyncZIncrBy :: "'d floats \<Rightarrow> string \<Rightarrow> string \<Rightarrow> 'd \<Rightarrow> ('d, 'd) redis_command" where
  "AsyncZIncrBy F key member delta =
     ([''ZINCRBY'', key, d_to_string F delta, member],
      double_reply F (d_of_int F 0))"

definition AsyncZRangeByScore :: "'d floats \<Rightarrow> string \<Rightarrow> 'd \<Rightarrow> 'd \<Rightarrow> bool \<Rightarrow> ('d, string list) redis_command" where
  "AsyncZRangeByScore F key lo hi with_scores =
     ((if with_scores then [''ZRANGEBYSCORE'', key, d_to_string F lo, d_to_string F hi, ''WITHSCORES'']
      else [''ZRANGEBYSCORE'', key, d_to_string F lo, d_to_string F hi]),
      strs_reply F)"

definition AsyncZRevRangeByScore :: "'d floats \<Rightarrow> string \<Rightarrow> 'd \<Rightarrow> 'd \<Rightarrow> bool \<Rightarrow> ('d, string list) redis_command" where
  "AsyncZRevRangeByScore F key lo hi with_scores =
     ((if with_scores then [''ZREVRANGEBYSCORE'', key, d_to_string F hi, d_to_string F lo, ''WITHSCORES'']
      else [''ZREVRANGEBYSCORE'', key, d_to_string F hi, d_to_string F lo]),
      strs_reply F)"

definition AsyncZRemRangeByRank :: "'d floats \<Rightarrow> string \<Rightarrow> int \<Rightarrow> int \<Rightarrow> ('d, int) redis_command" where
  "AsyncZRemRangeByRank F key start stop =
     ([''ZREMRANGEBYRANK'', key, to_string start, to_string stop],
      int_reply F 0)"

definition AsyncZRemRangeByScore :: "'d floats \<Rightarrow> string \<Rightarrow> 'd \<Rightarrow> 'd \<Rightarrow> ('d, int) redis_command" where
  "AsyncZRemRangeByScore F key lo hi =
     ([''ZREMRANGEBYSCORE'', key, d_to_string F lo, d_to_string F hi],
      int_reply F 0)"

definition AsyncZRangeWithScores :: "'d floats \<Rightarrow> string \<Rightarrow> int \<Rightarrow> int \<Rightarrow> ('d, (string \<times> 'd) list) redis_command" where
  "AsyncZRangeWithScores F key start stop =
     ([''ZRANGE'', key, to_string start, to_string stop, ''WITHSCORES''],
      pairs_reply F)"

definition AsyncZRevRangeWithScores :: "'d floats \<Rightarrow> string \<Rightarrow> int \<Rightarrow> int \<Rightarrow> ('d, (string \<times> 'd) list) redis_command" where
  "AsyncZRevRangeWithScores F key start stop =
     ([''ZREVRANGE'', key, to_string start, to_string stop, ''WITHSCORES''],
      pairs_reply F)"

definition AsyncExpire :: "'d floats \<Rightarrow> string \<Rightarrow> int \<Rightarrow> ('d, bool) redis_command" where
  "AsyncExpire F key seconds =
     ([''EXPIRE'', key, to_string seconds],
      bool_reply F)"

definition AsyncTTL :: "'d floats \<Rightarrow> string \<Rightarrow> ('d, int) redis_command" where
  "AsyncTTL F key =
     ([''TTL'', key],
      int_reply F (-2))"

definition AsyncPing :: "('d, bool) redis_command" where
  "AsyncPing = ([''PING''], \<lambda>v. (value_err v, \<not> is_error v))"

definition AsyncCall :: "string \<Rightarrow> string list \<Rightarrow> ('d, 'd RedisValue) redis_command" where
  "AsyncCall cmd args = (cmd # args, \<lambda>v. (value_err v, v))"

definition AsyncEval :: "string \<Rightarrow> string list \<Rightarrow> string list \<Rightarrow> ('d, 'd RedisValue) redis_command" where
  "AsyncEval script keys args = AsyncCall ''EVAL'' (script # to_string (int (length keys)) # keys @ args)"

section \<open>Coroutines\<close>

text \<open>What the coroutine returns when \<open>v\<close> is the reply.\<close>

definition CbToLazyBool :: "('d, unit) redis_command \<Rightarrow> 'd RedisValue \<Rightarrow> bool" where
  "CbToLazyBool c v = ok_error (fst (snd c v))"

definition CbToLazy :: "('d, 'a) redis_command \<Rightarrow> 'd RedisValue \<Rightarrow> 'a" where
  "CbToLazy c v = snd (snd c v)"

definition CoSet :: "'d floats \<Rightarrow> string \<Rightarrow> string \<Rightarrow> 'd RedisValue \<Rightarrow> bool" where
  "CoSet F key value v = CbToLazyBool (AsyncSet F key value) v"

definition CoSetEx :: "'d floats \<Rightarrow> string \<Rightarrow> string \<Rightarrow> int \<Rightarrow> 'd RedisValue \<Rightarrow> bool" where
  "CoSetEx F key value ttl_seconds v = CbToLazyBool (AsyncSetEx F key value ttl_seconds) v"

definition CoGet :: "'d floats \<Rightarrow> string \<Rightarrow> 'd RedisValue \<Rightarrow> string" where
  "CoGet F key v = CbToLazy (AsyncGet F key) v"

definition CoDel :: "'d floats \<Rightarrow> string \<Rightarrow> 'd RedisValue \<Rightarrow> int" where
  "CoDel F key v = CbToLazy (AsyncDel F key) v"

definition CoExists :: "'d floats \<Rightarrow> string \<Rightarrow> 'd RedisValue \<Rightarrow> bool" where
  "CoExists F key v = CbToLazy (AsyncExists F key) v"

definition CoIncr :: "'d floats \<Rightarrow> string \<Rightarrow> 'd RedisValue \<Rightarrow> int" where
  "CoIncr F key v = CbToLazy (AsyncIncr F key) v"

definition CoIncrBy :: "'d floats \<Rightarrow> string \<Rightarrow> int \<Rightarrow> 'd RedisValue \<Rightarrow> int" where
  "CoIncrBy F key delta v = CbToLazy (AsyncIncrBy F key delta) v"

definition CoHSet :: "'d floats \<Rightarrow> string \<Rightarrow> string \<Rightarrow> string \<Rightarrow> 'd RedisValue \<Rightarrow> int" where
  "CoHSet F key field value v = CbToLazy (AsyncHSet F key field value) v"

definition CoHGet :: "'d floats \<Rightarrow> string \<Rightarrow> string \<Rightarrow> 'd RedisValue \<Rightarrow> string" where
  "CoHGet F key field v = CbToLazy (AsyncHGet F key field) v"

definition CoHDel :: "'d floats \<Rightarrow> string \<Rightarrow> string \<Rightarrow> 'd RedisValue \<Rightarrow> int" where
  "CoHDel F key field v = CbToLazy (AsyncHDel F key field) v"

definition CoHKeys :: "'d floats \<Rightarrow> string \<Rightarrow> 'd RedisValue \<Rightarrow> string list" where
  "CoHKeys F key v = CbToLazy (AsyncHKeys F key) v"

definition CoHVals :: "'d floats \<Rightarrow> string \<Rightarrow> 'd RedisValue \<Rightarrow> string list" where
  "CoHVals F key v = CbToLazy (AsyncHVals F key) v"

definition CoHLen :: "'d floats \<Rightarrow> string \<Rightarrow> 'd RedisValue \<Rightarrow> int" where
  "CoHLen F key v = CbToLazy (AsyncHLen F key) v"

definition CoLPush :: "'d floats \<Rightarrow> string \<Rightarrow> string \<Rightarrow> 'd RedisValue \<Rightarrow> int" where
  "CoLPush F key value v = CbToLazy (AsyncLPush F key value) v"

definition CoRPush :: "'d floats \<Rightarrow> string \<Rightarrow> string \<Rightarrow> 'd RedisValue \<Rightarrow> int" where
  "CoRPush F key value v = CbToLazy (AsyncRPush F key value) v"

definition CoLPop :: "'d floats \<Rightarrow> string \<Rightarrow> 'd RedisValue \<Rightarrow> string" where
  "CoLPop F key v = CbToLazy (AsyncLPop F key) v"

definition CoRPop :: "'d floats \<Rightarrow> string \<Rightarrow> 'd RedisValue \<Rightarrow> string" where
  "CoRPop F key v = CbToLazy (AsyncRPop F key) v"

definition CoLLen :: "'d floats \<Rightarrow> string \<Rightarrow> 'd RedisValue \<Rightarrow> int" where
  "CoLLen F key v = CbToLazy (AsyncLLen F key) v"

definition CoZAdd :: "'d floats \<Rightarrow> string \<Rightarrow> 'd \<Rightarrow> string \<Rightarrow> 'd RedisValue \<Rightarrow> int" where
  "CoZAdd F key score member v = CbToLazy (AsyncZAdd F key score member) v"

definition CoZRange :: "'d floats \<Rightarrow> string \<Rightarrow> int \<Rightarrow> int \<Rightarrow> bool \<Rightarrow> 'd RedisValue \<Rightarrow> string list" where
  "CoZRange F key start stop with_scores v = CbToLazy (AsyncZRange F key start stop with_scores) v"

definition CoZRevRange :: "'d floats \<Rightarrow> string \<Rightarrow> int \<Rightarrow> int \<Rightarrow> bool \<Rightarrow> 'd RedisValue \<Rightarrow> string list" where
  "CoZRevRange F key start stop with_scores v = CbToLazy (AsyncZRevRange F key start stop with_scores) v"

definition CoZCard :: "'d floats \<Rightarrow> string \<Rightarrow> 'd RedisValue \<Rightarrow> int" where
  "CoZCard F key v = CbToLazy (AsyncZCard F key) v"

definition CoZRem :: "'d floats \<Rightarrow> string \<Rightarrow> string \<Rightarrow> 'd RedisValue \<Rightarrow> int" where
  "CoZRem F key member v = CbToLazy (AsyncZRem F key member) v"

definition CoZScore :: "'d floats \<Rightarrow> string \<Rightarrow> string \<Rightarrow> 'd RedisValue \<Rightarrow> 'd" where
  "CoZScore F key member v = CbToLazy (AsyncZScore F key member) v"

definition CoZRank :: "'d floats \<Rightarrow> string \<Rightarrow> string \<Rightarrow> 'd RedisValue \<Rightarrow> int" where
  "CoZRank F key member v = CbToLazy (AsyncZRank F key member) v"

definition CoZRevRank :: "'d floats \<Rightarrow> string \<Rightarrow> string \<Rightarrow> 'd RedisValue \<Rightarrow> int" where
  "CoZRevRank F key member v = CbToLazy (AsyncZRevRank F key member) v"

definition CoZCount :: "'d floats \<Rightarrow> string \<Rightarrow> 'd \<Rightarrow> 'd \<Rightarrow> 'd RedisValue \<Rightarrow> int" where
  "CoZCount F key lo hi v = CbToLazy (AsyncZCount F key lo hi) v"

definition CoZIncrBy :: "'d floats \<Rightarrow> string \<Rightarrow> string \<Rightarrow> 'd \<Rightarrow> 'd RedisValue \<Rightarrow> 'd" where
  "CoZIncrBy F key member delta v = CbToLazy (AsyncZIncrBy F key member delta) v"

definition CoZRangeByScore :: "'d floats \<Rightarrow> string \<Rightarrow> 'd \<Rightarrow> 'd \<Rightarrow> bool \<Rightarrow> 'd RedisValue \<Rightarrow> string list" where
  "CoZRangeByScore F key lo hi with_scores v = CbToLazy (AsyncZRangeByScore F key lo hi with_scores) v"

definition CoZRevRangeByScore :: "'d floats \<Rightarrow> string \<Rightarrow> 'd \<Rightarrow> 'd \<Rightarrow> bool \<Rightarrow> 'd RedisValue \<Rightarrow> string list" where
  "CoZRevRangeByScore F key lo hi with_scores v = CbToLazy (AsyncZRevRangeByScore F key lo hi with_scores) v"

definition CoZRemRangeByRank :: "'d floats \<Rightarrow> string \<Rightarrow> int \<Rightarrow> int \<Rightarrow> 'd RedisValue \<Rightarrow> int" where
  "CoZRemRangeByRank F key start stop v = CbToLazy (AsyncZRemRangeByRank F key start stop) v"

definition CoZRemRangeByScore :: "'d floats \<Rightarrow> string \<Rightarrow> 'd \<Rightarrow> 'd \<Rightarrow> 'd RedisValue \<Rightarrow> int" where
  "CoZRemRangeByScore F key lo hi v = CbToLazy (AsyncZRemRangeByScore F key lo hi) v"

definition CoZRangeWithScores :: "'d floats \<Rightarrow> string \<Rightarrow> int \<Rightarrow> int \<Rightarrow> 'd RedisValue \<Rightarrow> (string \<times> 'd) list" where
  "CoZRangeWithScores F key start stop v = CbToLazy (AsyncZRangeWithScores F key start stop) v"

definition CoZRevRangeWithScores :: "'d floats \<Rightarrow> string \<Rightarrow> int \<Rightarrow> int \<Rightarrow> 'd RedisValue \<Rightarrow> (string \<times> 'd) list" where
  "CoZRevRangeWithScores F key start stop v = CbToLazy (AsyncZRevRangeWithScores F key start stop) v"

definition CoExpire :: "'d floats \<Rightarrow> string \<Rightarrow> int \<Rightarrow> 'd RedisValue \<Rightarrow> bool" where
  "CoExpire F key seconds v = CbToLazy (AsyncExpire F key seconds) v"

definition CoTTL :: "'d floats \<Rightarrow> string \<Rightarrow> 'd RedisValue \<Rightarrow> int" where
  "CoTTL F key v = CbToLazy (AsyncTTL F key) v"

definition CoPing :: "'d RedisValue \<Rightarrow> bool" where
  "CoPing v = CbToLazy AsyncPing v"

section \<open>Errors and absent values\<close>

lemmas command_replies = unit_reply_def str_reply_def int_reply_def bool_reply_def double_reply_def strs_reply_def
  pairs_reply_def CbToLazy_def CbToLazyBool_def no_error_def

text \<open>
  A member that is not in the sorted set has no rank: Redis answers nil. The callback gets no error and rank 0, as for
  the first member, where an error would give -1.
\<close>

theorem missing_member_ranks_first:
  "snd (AsyncZRank F key member) (FromReply (Reply ReplyNil 0 d None [])) = (no_error, 0) \<and>
   snd (AsyncZRank F key first) (FromReply (Reply ReplyInteger 0 d None [])) = (no_error, 0) \<and>
   snd (AsyncZRank F key member) (VError e) = (\<lparr>err_code = -1, err_message = e\<rparr>, -1)"
  by (simp add: AsyncZRank_def command_replies)

text \<open>
  A failed command reaches its callback as an error; the coroutine returns the same as for a missing key.
\<close>

theorem coroutine_hides_errors:
  "fst (snd (AsyncGet F key) (VError e)) = \<lparr>err_code = -1, err_message = e\<rparr> \<and> CoGet F key (VError e) = CoGet F key VNil \<and>
   CoExists F key (VError e) = CoExists F key (VInt 0) \<and> CoTTL F key (VError e) = CoTTL F key (VInt (-2)) \<and>
   CoHKeys F key (VError e) = CoHKeys F key (VArray []) \<and> \<not> CoSet F key v (VError e) \<and> \<not> CoPing (VError e)"
  by (simp add: AsyncGet_def CoGet_def AsyncExists_def CoExists_def AsyncTTL_def CoTTL_def AsyncHKeys_def CoHKeys_def
      AsyncSet_def CoSet_def AsyncPing_def CoPing_def command_replies ok_error_def)

end
