(* ===== verification/Redis_Connection.thy ===== *)
theory Redis_Connection
  imports Redis_Commands "HOL-Library.Monad_Syntax"
begin

text \<open>
  \<^verbatim>\<open>RedisConnection\<close>: connecting, the handshake and the sending of commands
  (\<^verbatim>\<open>src/db/redis/redis_connection.cpp\<close>), and \<^verbatim>\<open>RedisConnectionPool\<close> (\<^verbatim>\<open>src/db/redis/redis_pool.cpp\<close>). hiredis and the sockets are outside: their
  callbacks are steps. A function that throws is \<open>None\<close>. The theorems: no connection is ever established; with one, a
  second command takes away the callback of the first; the pool hands out a healthy connection whenever it has one.
\<close>

section \<open>State\<close>

record connect_chain =
  promise :: "bool option"
  chain_done :: bool
  chain_step :: nat

text \<open>The closures stored in \<^verbatim>\<open>pending_cb_\<close>: a user's callback, by its number, or a step of a handshake.\<close>

datatype reply_cb = UserCb nat | PingStep nat | HelloStep nat | SelectStep nat

datatype io_task = StartChain nat | RunDisconnect | RunFail

text \<open>
  \<open>sent\<close> records the commands given to hiredis, \<open>replied\<close> the calls of user callbacks, \<open>returned\<close> what \<^verbatim>\<open>Connect\<close> has returned;
  \<open>waiting_on\<close> is the handshake that a caller of \<^verbatim>\<open>Connect\<close> waits for.
\<close>

record 'd redis =
  async_ctx :: bool
  connected :: bool
  ctx_alive :: bool
  db_index :: int
  connect_state :: "nat option"
  pending_cb :: "reply_cb option"
  chains :: "nat \<Rightarrow> connect_chain"
  chain_count :: nat
  io_tasks :: "io_task list"
  waiting_on :: "nat option"
  returned :: "bool list"
  sent :: "string list list"
  replied :: "(nat \<times> 'd RedisValue) list"

definition ConnectChain :: connect_chain where
  "ConnectChain = \<lparr>promise = None, chain_done = False, chain_step = 0\<rparr>"

definition RedisConnection :: "'d redis" where
  "RedisConnection = \<lparr>async_ctx = False, connected = False, ctx_alive = False, db_index = 0, connect_state = None, pending_cb = None,
     chains = (\<lambda>_. ConnectChain), chain_count = 0, io_tasks = [], waiting_on = None, returned = [], sent = [], replied = []\<rparr>"

definition upd_chain :: "nat \<Rightarrow> (connect_chain \<Rightarrow> connect_chain) \<Rightarrow> 'd redis \<Rightarrow> 'd redis" where
  "upd_chain c f s = s\<lparr>chains := (chains s)(c := f (chains s c))\<rparr>"

text \<open>A promise that is set twice throws.\<close>

definition set_promise :: "nat \<Rightarrow> bool \<Rightarrow> 'd redis \<Rightarrow> 'd redis option" where
  "set_promise c b s =
     (if promise (chains s c) = None then Some (upd_chain c (\<lambda>h. h\<lparr>promise := Some b\<rparr>) s) else None)"

definition finish_chain :: "nat \<Rightarrow> bool \<Rightarrow> 'd redis \<Rightarrow> 'd redis option" where
  "finish_chain c b s = do { s \<leftarrow> set_promise c b s; Some (upd_chain c (\<lambda>h. h\<lparr>chain_done := True\<rparr>) s) }"

definition connect_done :: "nat \<Rightarrow> 'd redis \<Rightarrow> 'd redis option" where
  "connect_done c s = do { s \<leftarrow> finish_chain c True s; Some (s\<lparr>connected := True\<rparr>) }"

section \<open>Commands and the handshake\<close>

definition refused :: "'d redis \<Rightarrow> bool" where
  "refused s \<longleftrightarrow> \<not> async_ctx s \<or> \<not> connected s"

definition not_connected :: "'d RedisValue" where
  "not_connected = VError ''not connected''"

text \<open>\<open>ok\<close>: \<^verbatim>\<open>redisAsyncCommandArgv\<close> takes the command.\<close>

definition send_command :: "bool \<Rightarrow> string list \<Rightarrow> reply_cb \<Rightarrow> 'd redis \<Rightarrow> 'd redis" where
  "send_command ok argv cb s =
     (if ok then s\<lparr>pending_cb := Some cb, sent := sent s @ [argv]\<rparr> else s\<lparr>pending_cb := None\<rparr>)"

definition select_reply :: "nat \<Rightarrow> 'd RedisValue \<Rightarrow> 'd redis \<Rightarrow> 'd redis option" where
  "select_reply c v s = (if is_error v then finish_chain c False s else connect_done c s)"

definition select_step :: "bool \<Rightarrow> nat \<Rightarrow> 'd redis \<Rightarrow> 'd redis option" where
  "select_step ok c s =
     (if db_index s > 0
      then (if refused s then select_reply c not_connected s
            else Some (send_command ok [''SELECT'', to_string (db_index s)] (SelectStep c) s))
      else connect_done c s)"

definition hello_reply :: "bool \<Rightarrow> nat \<Rightarrow> 'd RedisValue \<Rightarrow> 'd redis \<Rightarrow> 'd redis option" where
  "hello_reply ok c v s =
     (let s = upd_chain c (\<lambda>h. h\<lparr>chain_step := 2\<rparr>) s
      in if chain_done (chains s c) then Some s else select_step ok c s)"

definition hello_step :: "bool \<Rightarrow> nat \<Rightarrow> 'd redis \<Rightarrow> 'd redis option" where
  "hello_step ok c s =
     (if refused s then hello_reply ok c not_connected s
      else Some (send_command ok [''HELLO'', ''3''] (HelloStep c) s))"

definition ping_reply :: "bool \<Rightarrow> nat \<Rightarrow> 'd RedisValue \<Rightarrow> 'd redis \<Rightarrow> 'd redis option" where
  "ping_reply ok c v s =
     (if is_error v then finish_chain c False s
      else (let s = upd_chain c (\<lambda>h. h\<lparr>chain_step := 1\<rparr>) s
            in if chain_done (chains s c) then Some s else hello_step ok c s))"

definition ping_step :: "bool \<Rightarrow> nat \<Rightarrow> 'd redis \<Rightarrow> 'd redis option" where
  "ping_step ok c s =
     (if refused s then ping_reply ok c not_connected s else Some (send_command ok [''PING''] (PingStep c) s))"

definition OnConnectStep :: "bool \<Rightarrow> nat \<Rightarrow> 'd redis \<Rightarrow> 'd redis option" where
  "OnConnectStep ok c s =
     (if chain_done (chains s c) then Some s
      else if chain_step (chains s c) = 0 then ping_step ok c s
      else if chain_step (chains s c) = 1 then hello_step ok c s
      else if chain_step (chains s c) = 2 then select_step ok c s
      else connect_done c s)"

fun run_cb :: "bool \<Rightarrow> reply_cb \<Rightarrow> 'd RedisValue \<Rightarrow> 'd redis \<Rightarrow> 'd redis option" where
  "run_cb ok (UserCb n) v s = Some (s\<lparr>replied := replied s @ [(n, v)]\<rparr>)"
| "run_cb ok (PingStep c) v s = ping_reply ok c v s"
| "run_cb ok (HelloStep c) v s = hello_reply ok c v s"
| "run_cb ok (SelectStep c) v s = select_reply c v s"

definition PostCommand :: "bool \<Rightarrow> string list \<Rightarrow> nat \<Rightarrow> 'd redis \<Rightarrow> 'd redis option" where
  "PostCommand ok argv n s =
     (if refused s then run_cb ok (UserCb n) not_connected s else Some (send_command ok argv (UserCb n) s))"

text \<open>Calling an empty \<^verbatim>\<open>std::function\<close> throws; a null reply becomes the error of \<^verbatim>\<open>FromReply\<close>.\<close>

definition CommandCallback :: "bool \<Rightarrow> 'd redisReply \<Rightarrow> 'd redis \<Rightarrow> 'd redis option" where
  "CommandCallback ok r s =
     (case pending_cb s of
        None \<Rightarrow> None
      | Some cb \<Rightarrow> do { s \<leftarrow> run_cb ok cb (FromReply r) s; Some (s\<lparr>pending_cb := None\<rparr>) })"

section \<open>Connecting\<close>

datatype connect_outcome = NullContext | ContextError | NoFd | Started

definition StartConnectChain :: "connect_outcome \<Rightarrow> nat \<Rightarrow> 'd redis \<Rightarrow> 'd redis option" where
  "StartConnectChain out c s =
     (case out of
        NullContext \<Rightarrow> set_promise c False (s\<lparr>async_ctx := False\<rparr>)
      | ContextError \<Rightarrow> set_promise c False (s\<lparr>async_ctx := True\<rparr>)
      | NoFd \<Rightarrow> set_promise c False (s\<lparr>async_ctx := False\<rparr>)
      | Started \<Rightarrow> Some (s\<lparr>async_ctx := True, ctx_alive := True\<rparr>))"

definition FailConnect_task :: "'d redis \<Rightarrow> 'd redis" where
  "FailConnect_task s = s\<lparr>async_ctx := False, ctx_alive := False, connect_state := None\<rparr>"

definition DisconnectInternal :: "'d redis \<Rightarrow> 'd redis" where
  "DisconnectInternal s = s\<lparr>async_ctx := False, ctx_alive := False, connect_state := None, connected := False\<rparr>"

definition RedisDisconnect :: "'d redis \<Rightarrow> 'd redis" where
  "RedisDisconnect s = s\<lparr>connected := False, io_tasks := io_tasks s @ [RunDisconnect]\<rparr>"

definition OnConnectStatus :: "bool \<Rightarrow> bool \<Rightarrow> 'd redis \<Rightarrow> 'd redis option" where
  "OnConnectStatus ok status_ok s =
     (case connect_state s of
        None \<Rightarrow> Some s
      | Some c \<Rightarrow> if status_ok then OnConnectStep ok c s else set_promise c False s)"

definition OnDisconnectStatus :: "'d redis \<Rightarrow> 'd redis option" where
  "OnDisconnectStatus s =
     (let s = s\<lparr>connected := False, ctx_alive := False\<rparr>
      in case connect_state s of
           None \<Rightarrow> Some s
         | Some c \<Rightarrow> if chain_done (chains s c) then Some s else finish_chain c False s)"

text \<open>\<^verbatim>\<open>Connect\<close> up to its wait, and its two ends.\<close>

definition connect_begin :: "int \<Rightarrow> 'd redis \<Rightarrow> 'd redis" where
  "connect_begin db s =
     (let s = s\<lparr>db_index := db, connected := False\<rparr>;
          s = (if ctx_alive s then RedisDisconnect s else s);
          c = chain_count s
      in s\<lparr>chains := (chains s)(c := ConnectChain), chain_count := Suc c, connect_state := Some c,
           io_tasks := io_tasks s @ [StartChain c], waiting_on := Some c\<rparr>)"

definition connect_end :: "bool \<Rightarrow> 'd redis \<Rightarrow> 'd redis" where
  "connect_end b s = s\<lparr>connected := b, waiting_on := None, returned := returned s @ [b]\<rparr>"

definition connect_timeout :: "'d redis \<Rightarrow> 'd redis" where
  "connect_timeout s = s\<lparr>io_tasks := io_tasks s @ [RunFail], waiting_on := None, returned := returned s @ [False]\<rparr>"

fun run_io :: "connect_outcome \<Rightarrow> io_task \<Rightarrow> 'd redis \<Rightarrow> 'd redis option" where
  "run_io out (StartChain c) s = StartConnectChain out c s"
| "run_io out RunDisconnect s = Some (DisconnectInternal s)"
| "run_io out RunFail s = Some (FailConnect_task s)"

text \<open>Users, the thread that connects, the posted tasks of the IO thread and the callbacks of hiredis, in any order.\<close>

inductive redis_step :: "'d redis \<Rightarrow> 'd redis \<Rightarrow> bool" where
  begin_connect: "waiting_on s = None \<Longrightarrow> redis_step s (connect_begin db s)"
| end_connect: "waiting_on s = Some c \<Longrightarrow> promise (chains s c) = Some b \<Longrightarrow> redis_step s (connect_end b s)"
| time_out: "waiting_on s = Some c \<Longrightarrow> promise (chains s c) = None \<Longrightarrow> redis_step s (connect_timeout s)"
| disconnect: "redis_step s (RedisDisconnect s)"
| command: "PostCommand ok argv n s = Some s' \<Longrightarrow> redis_step s s'"
| io: "io_tasks s = t # ts \<Longrightarrow> run_io out t (s\<lparr>io_tasks := ts\<rparr>) = Some s' \<Longrightarrow> redis_step s s'"
| connect_event: "async_ctx s \<Longrightarrow> OnConnectStatus ok status_ok s = Some s' \<Longrightarrow> redis_step s s'"
| disconnect_event: "async_ctx s \<Longrightarrow> OnDisconnectStatus s = Some s' \<Longrightarrow> redis_step s s'"
| reply: "async_ctx s \<Longrightarrow> CommandCallback ok r s = Some s' \<Longrightarrow> redis_step s s'"

abbreviation redis_reach :: "'d redis \<Rightarrow> bool" where
  "redis_reach \<equiv> redis_step\<^sup>*\<^sup>* RedisConnection"

section \<open>No connection is established\<close>

definition never_up :: "'d redis \<Rightarrow> bool" where
  "never_up s \<longleftrightarrow> \<not> connected s \<and> pending_cb s = None \<and> sent s = [] \<and> True \<notin> set (returned s) \<and>
     list_all (\<lambda>x. snd x = not_connected) (replied s) \<and>
     (\<forall>c. promise (chains s c) \<noteq> Some True \<and> chain_step (chains s c) = 0)"

lemma up_chain: "never_up s \<Longrightarrow> promise (chains s c) \<noteq> Some True \<and> chain_step (chains s c) = 0"
  by (simp add: never_up_def)

lemma set_promise_up: "set_promise c False s = Some s' \<Longrightarrow> never_up s \<Longrightarrow> never_up s'"
  by (auto simp: set_promise_def never_up_def upd_chain_def split: if_splits)

lemma finish_chain_up: "finish_chain c False s = Some s' \<Longrightarrow> never_up s \<Longrightarrow> never_up s'"
  by (auto simp: finish_chain_def set_promise_def never_up_def upd_chain_def split: if_splits bind_splits)

lemma StartConnectChain_up:
  assumes "StartConnectChain out c s = Some s'" "never_up s"
  shows "never_up s'"
proof -
  have u: "never_up (s\<lparr>async_ctx := a, ctx_alive := b\<rparr>)" "never_up (s\<lparr>async_ctx := a\<rparr>)" for a b
    using assms(2) by (simp_all add: never_up_def)
  show ?thesis
    using assms(1) u set_promise_up [OF _ u(2)] by (cases out) (auto simp: StartConnectChain_def)
qed

lemma OnConnectStep_up: "OnConnectStep ok c s = Some s' \<Longrightarrow> never_up s \<Longrightarrow> never_up s'"
  using finish_chain_up [of c s s'] up_chain [of s c]
  by (auto simp: OnConnectStep_def ping_step_def ping_reply_def refused_def not_connected_def never_up_def split: if_splits)

lemma redis_step_up:
  assumes "redis_step s s'" "never_up s"
  shows "never_up s'"
  using assms(1)
proof cases
  case (begin_connect db)
  then show ?thesis using assms(2)
    by (auto simp: connect_begin_def RedisDisconnect_def never_up_def ConnectChain_def Let_def)
next
  case (end_connect c b)
  then show ?thesis using assms(2) up_chain [of s c] by (auto simp: connect_end_def never_up_def)
next
  case (command ok argv n)
  then show ?thesis using assms(2) by (auto simp: PostCommand_def refused_def never_up_def)
next
  case (io t ts out)
  have u: "never_up (s\<lparr>io_tasks := ts\<rparr>)" using assms(2) by (simp add: never_up_def)
  show ?thesis
  proof (cases t)
    case (StartChain c)
    then show ?thesis using io StartConnectChain_up [OF _ u] by simp
  qed (use io assms(2) in \<open>auto simp: DisconnectInternal_def FailConnect_task_def never_up_def\<close>)
next
  case (connect_event ok status_ok)
  then show ?thesis using assms(2) OnConnectStep_up set_promise_up
    by (auto simp: OnConnectStatus_def split: option.splits if_splits)
next
  case disconnect_event
  have "never_up (s\<lparr>connected := False, ctx_alive := False\<rparr>)" using assms(2) by (simp add: never_up_def)
  then show ?thesis using disconnect_event finish_chain_up
    by (auto simp: OnDisconnectStatus_def Let_def split: option.splits if_splits)
next
  case (reply ok r)
  then show ?thesis using assms(2) by (auto simp: CommandCallback_def never_up_def)
qed (use assms(2) in \<open>auto simp: connect_timeout_def RedisDisconnect_def never_up_def\<close>)

interpretation redis_down: kept_invariant redis_step RedisConnection never_up
proof
  show "never_up RedisConnection" by (simp add: never_up_def RedisConnection_def ConnectChain_def)
qed (rule redis_step_up)

text \<open>
  C38. Whatever the server does, \<^verbatim>\<open>Connect\<close> returns false: its handshake sends \<^verbatim>\<open>PING\<close> through \<^verbatim>\<open>PostCommand\<close>, which refuses every
  command until \<^verbatim>\<open>connected_\<close> has been set, which is done only after the handshake. So no command ever reaches hiredis,
  and every callback gets the error.
\<close>

theorem redis_never_connects:
  assumes "redis_reach s"
  shows "\<not> connected s \<and> True \<notin> set (returned s) \<and> sent s = [] \<and> list_all (\<lambda>x. snd x = VError ''not connected'') (replied s)"
  using redis_down.reach_inv [OF assms] by (simp add: never_up_def not_connected_def)


text \<open>A server that answers: the connect event arrives, and \<^verbatim>\<open>Connect\<close> returns false.\<close>

definition failed_connect :: "int redis" where
  "failed_connect =
     (let s = connect_begin 0 RedisConnection; s = s\<lparr>io_tasks := [], async_ctx := True, ctx_alive := True\<rparr>
      in connect_end False (upd_chain 0 (\<lambda>h. h\<lparr>promise := Some False, chain_done := True\<rparr>) s))"

lemma failed_connect_reach: "redis_reach failed_connect"
proof -
  let ?b = "connect_begin 0 RedisConnection :: int redis"
  let ?s = "?b\<lparr>io_tasks := [], async_ctx := True, ctx_alive := True\<rparr>"
  let ?e = "upd_chain 0 (\<lambda>h. h\<lparr>promise := Some False, chain_done := True\<rparr>) ?s"
  have b: "redis_step RedisConnection ?b" by (rule redis_step.begin_connect) (simp add: RedisConnection_def)
  have s: "redis_step ?b ?s"
    by (rule redis_step.io [of _ "StartChain 0" "[]" Started])
      (simp_all add: connect_begin_def RedisConnection_def StartConnectChain_def Let_def)
  have e: "redis_step ?s ?e"
    by (rule redis_step.connect_event [of _ True True])
      (simp_all add: connect_begin_def RedisConnection_def OnConnectStatus_def OnConnectStep_def ping_step_def ping_reply_def
        refused_def not_connected_def finish_chain_def set_promise_def upd_chain_def ConnectChain_def Let_def)
  have "redis_step ?e (connect_end False ?e)"
    by (rule redis_step.end_connect [of _ 0]) (simp_all add: connect_begin_def RedisConnection_def upd_chain_def Let_def)
  then have "redis_step ?e failed_connect" by (simp add: failed_connect_def Let_def)
  with b s e show ?thesis by (meson rtranclp.rtrancl_into_rtrancl rtranclp.rtrancl_refl)
qed

theorem redis_never_connects_witness:
  "\<not> connected failed_connect \<and> returned failed_connect = [False] \<and> async_ctx failed_connect"
  using redis_never_connects [OF failed_connect_reach]
  by (simp add: failed_connect_def connect_end_def upd_chain_def connect_begin_def RedisConnection_def Let_def)

section \<open>One callback for all commands\<close>

text \<open>If the connection were up, a command on its own would get its reply.\<close>

lemma single_command_replied:
  assumes "\<not> refused s"
  shows "Option.bind (PostCommand True argv n s) (CommandCallback True r) =
     Some (s\<lparr>sent := sent s @ [argv], pending_cb := None, replied := replied s @ [(n, FromReply r)]\<rparr>)"
  using assms by (simp add: PostCommand_def send_command_def CommandCallback_def)

text \<open>
  Of two commands under way the second takes the slot of the first: the first reply goes to the second callback, and
  the second reply calls an empty function, which throws.
\<close>

theorem overlapping_commands_mixed:
  assumes "async_ctx s" "connected s"
  shows "\<exists>s2 s3. Option.bind (PostCommand True argv1 n1 s) (PostCommand True argv2 n2) = Some s2 \<and>
     sent s2 = sent s @ [argv1, argv2] \<and> CommandCallback True r1 s2 = Some s3 \<and>
     replied s3 = replied s @ [(n2, FromReply r1)] \<and> CommandCallback True r2 s3 = None"
  using assms by (simp add: PostCommand_def refused_def send_command_def CommandCallback_def)

theorem overlapping_commands_mixed_witness:
  "\<exists>s2 s3. Option.bind (PostCommand True [''GET'', ''a''] 1 ((RedisConnection :: int redis)\<lparr>async_ctx := True, connected := True\<rparr>))
     (PostCommand True [''GET'', ''b''] 2) = Some s2 \<and> CommandCallback True (bulk ''x'' int_floats) s2 = Some s3 \<and>
     replied s3 = [(2, VStr ''x'')] \<and> CommandCallback True (bulk ''y'' int_floats) s3 = None"
  using overlapping_commands_mixed [of "RedisConnection\<lparr>async_ctx := True, connected := True\<rparr>" "[''GET'', ''a'']" 1
      "[''GET'', ''b'']" 2 "bulk ''x'' int_floats" "bulk ''y'' int_floats"]
  by (simp add: RedisConnection_def) metis

section \<open>The pool\<close>

text \<open>Whether each connection is up, and the next index.\<close>

record redis_pool =
  healthy :: "bool list"
  next_index :: u64

definition Init :: "int \<Rightarrow> (nat \<Rightarrow> bool) \<Rightarrow> redis_pool \<Rightarrow> bool \<times> redis_pool" where
  "Init pool_size up p =
     (let n = (if pool_size > 0 then nat pool_size else 1); p = p\<lparr>healthy := map up [0..<n]\<rparr> in (healthy p \<noteq> [], p))"

definition probes :: "nat \<Rightarrow> nat \<Rightarrow> nat list" where
  "probes n idx = map (\<lambda>i. (idx + 1 + i) mod n) [0..<n]"

definition GetConnection :: "redis_pool \<Rightarrow> nat option \<times> redis_pool" where
  "GetConnection p =
     (if healthy p = [] then (None, p)
      else (let n = length (healthy p); idx = unat (next_index p) mod n; p' = p\<lparr>next_index := next_index p + 1\<rparr>
            in if healthy p ! idx then (Some idx, p')
               else (find (\<lambda>i. healthy p ! i) (probes n idx), p')))"

definition CountHealthy :: "redis_pool \<Rightarrow> nat" where
  "CountHealthy p = length (filter id (healthy p))"

definition IsHealthy :: "redis_pool \<Rightarrow> bool" where
  "IsHealthy p \<longleftrightarrow> CountHealthy p > 0"

definition CloseAll :: "redis_pool \<Rightarrow> redis_pool" where
  "CloseAll p = p\<lparr>healthy := []\<rparr>"

lemma set_probes:
  assumes "n > 0"
  shows "set (probes n idx) = {..<n}"
proof
  show "set (probes n idx) \<subseteq> {..<n}" using assms by (auto simp: probes_def)
  show "{..<n} \<subseteq> set (probes n idx)"
  proof
    fix i assume i: "i \<in> {..<n}"
    let ?y = "i + n - (idx + 1) mod n"
    have "(idx + 1 + ?y mod n) mod n = ((idx + 1) mod n + ?y) mod n" by (metis mod_add_left_eq mod_add_right_eq)
    also have "(idx + 1) mod n + ?y = i + n" using mod_less_divisor [OF assms, of "idx + 1"] by linarith
    also have "(i + n) mod n = i" using i by simp
    finally have "(idx + 1 + ?y mod n) mod n = i" .
    moreover have "?y mod n \<in> set [0..<n]" using assms by simp
    ultimately show "i \<in> set (probes n idx)" unfolding probes_def set_map by (metis image_eqI)
  qed
qed

text \<open>The pool finds a healthy connection exactly when it has one.\<close>

theorem pool_finds_healthy:
  "case fst (GetConnection p) of
     None \<Rightarrow> \<not> IsHealthy p
   | Some i \<Rightarrow> i < length (healthy p) \<and> healthy p ! i"
proof (cases "healthy p = []")
  case True
  then show ?thesis by (simp add: GetConnection_def IsHealthy_def CountHealthy_def)
next
  case False
  let ?n = "length (healthy p)"
  let ?idx = "unat (next_index p) mod ?n"
  have n: "?n > 0" using False by simp
  have idx: "?idx < ?n" using n by simp
  have g: "fst (GetConnection p) = (if healthy p ! ?idx then Some ?idx else find (\<lambda>i. healthy p ! i) (probes ?n ?idx))"
    using False by (simp add: GetConnection_def Let_def)
  show ?thesis
  proof (cases "find (\<lambda>i. healthy p ! i) (probes ?n ?idx)")
    case None
    then have "\<forall>i < ?n. \<not> healthy p ! i" using set_probes [OF n] by (auto simp: find_None_iff)
    then have "filter id (healthy p) = []" "\<not> healthy p ! ?idx" using idx by (auto simp: filter_empty_conv in_set_conv_nth)
    then show ?thesis using g None by (simp add: IsHealthy_def CountHealthy_def)
  next
    case (Some i)
    then have "i \<in> set (probes ?n ?idx)" "healthy p ! i" by (auto simp: find_Some_iff)
    then show ?thesis using g Some idx set_probes [OF n] by simp
  qed
qed

lemma pool_round_robin:
  assumes "\<forall>b \<in> set (healthy p). b" "healthy p \<noteq> []"
  shows "fst (GetConnection p) = Some (unat (next_index p) mod length (healthy p))"
proof -
  have "unat (next_index p) mod length (healthy p) < length (healthy p)" using assms(2) by simp
  then have "healthy p ! (unat (next_index p) mod length (healthy p))" using assms(1) nth_mem by blast
  then show ?thesis using assms(2) by (simp add: GetConnection_def Let_def)
qed

end
