(* ===== verification/Http_Util.thy ===== *)
theory Http_Util
  imports Decimal
begin

text \<open>
  Percent encoding, query strings, header fields and the first lines of HTTP messages (\<^verbatim>\<open>src/network/http/utility.hpp\<close>).
  A multimap is the list of its entries in the order of insertion; positions in strings are natural numbers. The theorems:
  what is encoded is decoded; a query string and a header are parsed back into the fields they were made from; parsing
  a header returns exactly when some line has no colon.
\<close>

section \<open>Characters and positions\<close>

definition find_char :: "char \<Rightarrow> string \<Rightarrow> nat option" where
  "find_char c s = (if c \<in> set s then Some (length (takeWhile (\<lambda>d. d \<noteq> c) s)) else None)"

definition substr :: "string \<Rightarrow> nat \<Rightarrow> nat \<Rightarrow> string" where
  "substr s pos n = take n (drop pos s)"

definition in_range :: "char \<Rightarrow> char \<Rightarrow> char \<Rightarrow> bool" where
  "in_range lo hi c \<longleftrightarrow> (of_char lo :: nat) \<le> of_char c \<and> (of_char c :: nat) \<le> of_char hi"

definition tolower :: "char \<Rightarrow> char" where
  "tolower c = (if in_range (CHR ''A'') (CHR ''Z'') c then char_of (of_char c + 32 :: nat) else c)"

definition case_insensitive_equal :: "string \<Rightarrow> string \<Rightarrow> bool" where
  "case_insensitive_equal s t \<longleftrightarrow> length s = length t \<and> list_all2 (\<lambda>a b. tolower a = tolower b) s t"

lemma substr_mid: "length xs = pos \<Longrightarrow> length ys = n \<Longrightarrow> substr (xs @ ys @ zs) pos n = ys"
  by (auto simp: substr_def)

section \<open>Percent encoding\<close>

definition unreserved :: "char \<Rightarrow> bool" where
  "unreserved c \<longleftrightarrow> in_range (CHR ''0'') (CHR ''9'') c \<or> in_range (CHR ''A'') (CHR ''Z'') c \<or>
     in_range (CHR ''a'') (CHR ''z'') c \<or> c \<in> {CHR ''-'', CHR ''.'', CHR ''_'', CHR ''~''}"

definition hex_char :: "nat \<Rightarrow> char" where
  "hex_char n = ''0123456789ABCDEF'' ! n"

definition percent_escape :: "char \<Rightarrow> string" where
  "percent_escape c = [CHR ''%'', hex_char (of_char c div 16), hex_char (of_char c mod 16)]"

definition percent_encode :: "string \<Rightarrow> string" where
  "percent_encode s = concat (map (\<lambda>c. if \<not> unreserved c then percent_escape c else [c]) s)"

definition hex_val :: "char \<Rightarrow> nat option" where
  "hex_val c =
     (if in_range (CHR ''0'') (CHR ''9'') c then Some (of_char c - 48)
      else if in_range (CHR ''a'') (CHR ''f'') (tolower c) then Some (of_char (tolower c) - 87)
      else None)"

definition is_hex :: "char \<Rightarrow> bool" where
  "is_hex c \<longleftrightarrow> hex_val c \<noteq> None"

text \<open>The magnitude that \<^verbatim>\<open>strtol\<close> and \<^verbatim>\<open>stoul\<close> read in base 16, and whether they see a digit.\<close>

definition hex_digits :: "string \<Rightarrow> string" where
  "hex_digits u =
     (case u of
        z # x # d # ds \<Rightarrow> if z = CHR ''0'' \<and> tolower x = CHR ''x'' \<and> is_hex d then takeWhile is_hex (d # ds) else takeWhile is_hex u
      | _ \<Rightarrow> takeWhile is_hex u)"

definition hex_number :: "string \<Rightarrow> nat" where
  "hex_number ds = foldl (\<lambda>a c. 16 * a + the (hex_val c)) 0 ds"

definition strtol16 :: "string \<Rightarrow> int" where
  "strtol16 s =
     (let t = dropWhile is_space s;
          neg = (case t of c # _ \<Rightarrow> c = CHR ''-'' | [] \<Rightarrow> False);
          u = (case t of c # cs \<Rightarrow> if c = CHR ''-'' \<or> c = CHR ''+'' then cs else t | [] \<Rightarrow> []);
          v = (if neg then - int (hex_number (hex_digits u)) else int (hex_number (hex_digits u)))
      in max (- (2 ^ 63)) (min (2 ^ 63 - 1) v))"

fun percent_decode :: "string \<Rightarrow> string" where
  "percent_decode [] = []"
| "percent_decode (c # cs) =
     (if c = CHR ''%'' \<and> length cs \<ge> 2
      then char_of (nat (strtol16 (take 2 cs) mod 256)) # percent_decode (drop 2 cs)
      else (if c = CHR ''+'' then CHR '' '' else c) # percent_decode cs)"

lemma hex_char_all:
  "list_all (\<lambda>n. hex_val (hex_char n) = Some n \<and> \<not> is_space (hex_char n) \<and> unreserved (hex_char n) \<and>
     hex_char n \<noteq> CHR ''-'' \<and> tolower (hex_char n) \<noteq> CHR ''x'') [0..<16]"
  by code_simp

lemma hex_char_facts:
  assumes "n < 16"
  shows "hex_val (hex_char n) = Some n" "\<not> is_space (hex_char n)" "unreserved (hex_char n)" "hex_char n \<noteq> CHR ''-''"
  using hex_char_all assms by (auto simp: list_all_iff)

lemma unreserved_plain:
  assumes "unreserved c"
  shows "c \<noteq> CHR ''%'' \<and> c \<noteq> CHR ''+'' \<and> c \<noteq> CHR ''&'' \<and> c \<noteq> CHR ''='' \<and> c \<noteq> CHR '' '' \<and> c \<noteq> CHR ''\<newline>''"
  using assms by (auto simp: unreserved_def in_range_def)

lemma strtol16_pair:
  assumes "h < 16" "l < 16"
  shows "strtol16 [hex_char h, hex_char l] = int (16 * h + l)"
proof -
  have p: "hex_char h \<noteq> CHR ''+''" using hex_char_facts(3) [OF assms(1)] unreserved_plain by blast
  have "is_hex (hex_char h)" "is_hex (hex_char l)" using hex_char_facts(1) assms by (simp_all add: is_hex_def)
  then have "hex_number (hex_digits [hex_char h, hex_char l]) = 16 * h + l"
    using hex_char_facts(1) assms by (simp add: hex_digits_def hex_number_def)
  then show ?thesis using hex_char_facts(2,4) [OF assms(1)] p assms by (simp add: strtol16_def Let_def)
qed

lemma percent_decode_escape: "percent_decode (percent_escape c @ r) = c # percent_decode r"
proof -
  have "(of_char c :: nat) div 16 < 16" using nat_of_char_less_256 [of c] by (simp add: less_mult_imp_div_less)
  then have "strtol16 [hex_char (of_char c div 16), hex_char (of_char c mod 16)] = int (of_char c)"
    by (simp add: strtol16_pair)
  moreover have "int (of_char c) mod 256 = int (of_char c)" using nat_of_char_less_256 [of c] by simp
  ultimately show ?thesis by (simp add: percent_escape_def numeral_2_eq_2)
qed

lemma percent_decode_encode_append: "percent_decode (percent_encode s @ r) = s @ percent_decode r"
proof (induction s)
  case (Cons c s)
  then show ?case
    using percent_decode_escape [of c "percent_encode s @ r"] unreserved_plain [of c] by (auto simp: percent_encode_def)
qed (simp add: percent_encode_def)

text \<open>Every string is read back from its percent encoding, which has no character with a meaning in a query string.\<close>

theorem percent_roundtrip: "percent_decode (percent_encode s) = s"
  using percent_decode_encode_append [of s "[]"] by simp

interpretation percent: codec percent_encode percent_decode
  by unfold_locales (rule percent_decode_encode_append [where r = "[]", simplified])

section \<open>Query strings\<close>

type_synonym fields = "(string \<times> string) list"

fun create_loop :: "bool \<Rightarrow> fields \<Rightarrow> string" where
  "create_loop first [] = []"
| "create_loop first ((name, value) # fs) =
     (if first then [] else ''&'') @ name @ ''='' @ percent_encode value @ create_loop False fs"

definition query_create :: "fields \<Rightarrow> string" where
  "query_create fs = create_loop True fs"

text \<open>A name with its value, as one pass of the loop adds it (\<open>None\<close> is \<^verbatim>\<open>npos\<close>).\<close>

definition query_field :: "string \<Rightarrow> nat \<Rightarrow> nat \<Rightarrow> nat option \<Rightarrow> nat option \<Rightarrow> fields" where
  "query_field q name_pos c name_end value_pos =
     (let name = substr q name_pos ((case name_end of None \<Rightarrow> c | Some e \<Rightarrow> e) - name_pos);
          value = (case value_pos of None \<Rightarrow> [] | Some v \<Rightarrow> substr q v (c - v))
      in if name = [] then [] else [(name, percent_decode value)])"

text \<open>The loop over the characters from position \<open>c\<close>, then the field that the end closes.\<close>

fun query_loop :: "string \<Rightarrow> nat \<Rightarrow> string \<Rightarrow> nat \<Rightarrow> nat option \<Rightarrow> nat option \<Rightarrow> fields \<Rightarrow> fields" where
  "query_loop q c [] name_pos name_end value_pos result =
     (if name_pos < length q then result @ query_field q name_pos (length q) name_end value_pos else result)"
| "query_loop q c (x # xs) name_pos name_end value_pos result =
     (if x = CHR ''&'' then query_loop q (c + 1) xs (c + 1) None None (result @ query_field q name_pos c name_end value_pos)
      else if x = CHR ''='' then query_loop q (c + 1) xs name_pos (Some c) (Some (c + 1)) result
      else query_loop q (c + 1) xs name_pos name_end value_pos result)"

definition query_parse :: "string \<Rightarrow> fields" where
  "query_parse q = (if q = [] then [] else query_loop q 0 q 0 None None [])"

lemma query_loop_plain:
  "CHR ''&'' \<notin> set s \<Longrightarrow> CHR ''='' \<notin> set s \<Longrightarrow>
     query_loop q c (s @ r) np ne vp res = query_loop q (c + length s) r np ne vp res"
  by (induction s arbitrary: c) auto

lemma query_loop_name:
  "CHR ''&'' \<notin> set s \<Longrightarrow>
     \<exists>ne' vp'. query_loop q c (s @ r) np ne vp res = query_loop q (c + length s) r np ne' vp' res"
proof (induction s arbitrary: c ne vp)
  case (Cons x s)
  then show ?case using Cons.IH [of "c + 1"] by (cases "x = CHR ''=''") auto
qed auto

lemma percent_encode_plain: "c \<in> set (percent_encode s) \<Longrightarrow> unreserved c \<or> c = CHR ''%''"
proof (induction s)
  case (Cons d s)
  have "(of_char d :: nat) div 16 < 16" using nat_of_char_less_256 [of d] by (simp add: less_mult_imp_div_less)
  then show ?case using Cons hex_char_facts(3)
    by (auto simp: percent_encode_def percent_escape_def split: if_splits)
qed (simp add: percent_encode_def)

lemma percent_encode_no_sep: "CHR ''&'' \<notin> set (percent_encode s) \<and> CHR ''='' \<notin> set (percent_encode s)"
  using percent_encode_plain [of _ s] unreserved_plain by blast

text \<open>One field \<open>name=value\<close> of the string, up to where it ends.\<close>

lemma query_loop_field:
  assumes "q = pre @ name @ ''='' @ percent_encode v @ rest" "CHR ''&'' \<notin> set name" "name \<noteq> []"
  shows "\<exists>ne vp. query_loop q (length pre) (name @ ''='' @ percent_encode v @ rest) (length pre) None None res =
           query_loop q (length pre + length (name @ ''='' @ percent_encode v)) rest (length pre) ne vp res \<and>
         query_field q (length pre) (length pre + length (name @ ''='' @ percent_encode v)) ne vp = [(name, v)]"
proof -
  obtain ne vp where "query_loop q (length pre) (name @ ''='' @ percent_encode v @ rest) (length pre) None None res =
      query_loop q (length pre + length name) (''='' @ percent_encode v @ rest) (length pre) ne vp res"
    using query_loop_name [OF assms(2)] by blast
  also have "\<dots> = query_loop q (length pre + length name + 1 + length (percent_encode v)) rest (length pre)
      (Some (length pre + length name)) (Some (length pre + length name + 1)) res"
    using query_loop_plain [of "percent_encode v"] percent_encode_no_sep by simp
  finally have 1: "query_loop q (length pre) (name @ ''='' @ percent_encode v @ rest) (length pre) None None res =
      query_loop q (length pre + length (name @ ''='' @ percent_encode v)) rest (length pre)
      (Some (length pre + length name)) (Some (length pre + length name + 1)) res" by (simp add: add.assoc)
  have "query_field q (length pre) (length pre + length (name @ ''='' @ percent_encode v))
      (Some (length pre + length name)) (Some (length pre + length name + 1)) = [(name, v)]"
    using assms(1,3) by (simp add: query_field_def substr_def percent_roundtrip Let_def)
  with 1 show ?thesis by blast
qed

lemma query_loop_create:
  "q = pre @ create_loop True fs \<Longrightarrow> fs \<noteq> [] \<Longrightarrow> \<forall>(name, v) \<in> set fs. name \<noteq> [] \<and> CHR ''&'' \<notin> set name \<Longrightarrow>
     query_loop q (length pre) (create_loop True fs) (length pre) None None res = res @ fs"
proof (induction fs arbitrary: pre res)
  case (Cons f fs)
  obtain name v where f: "f = (name, v)" by (cases f)
  have nm: "CHR ''&'' \<notin> set name" "name \<noteq> []" using Cons.prems(3) f by auto
  have q: "q = pre @ name @ ''='' @ percent_encode v @ create_loop False fs" using Cons.prems(1) f by simp
  obtain ne vp where
    run: "query_loop q (length pre) (create_loop True (f # fs)) (length pre) None None res =
      query_loop q (length pre + length (name @ ''='' @ percent_encode v)) (create_loop False fs) (length pre) ne vp res" and
    fld: "query_field q (length pre) (length pre + length (name @ ''='' @ percent_encode v)) ne vp = [(name, v)]"
    using query_loop_field [OF q nm, of res] by (auto simp: f)
  show ?case
  proof (cases "fs = []")
    case True
    then show ?thesis using run fld q f by simp
  next
    case False
    let ?pre = "pre @ name @ ''='' @ percent_encode v @ ''&''"
    have amp: "create_loop False fs = ''&'' @ create_loop True fs" using False by (cases fs) auto
    have "query_loop q (length ?pre) (create_loop True fs) (length ?pre) None None (res @ [(name, v)]) = (res @ [(name, v)]) @ fs"
      using Cons.IH [of ?pre "res @ [(name, v)]"] False Cons.prems(3) q amp by simp
    then show ?thesis using run fld f by (simp add: amp)
  qed
qed simp

text \<open>
  Fields with names that are not empty and have no \<open>&\<close> are parsed back, in order, whatever their values; even a \<open>=\<close> in a
  name does no harm.
\<close>

theorem query_roundtrip:
  assumes "\<forall>(name, v) \<in> set fs. name \<noteq> [] \<and> CHR ''&'' \<notin> set name"
  shows "query_parse (query_create fs) = fs"
proof (cases "fs = []")
  case False
  then have "query_create fs \<noteq> []" by (cases fs) (auto simp: query_create_def)
  then show ?thesis using query_loop_create [of "query_create fs" "[]" fs "[]"] False assms
    by (simp add: query_parse_def query_create_def)
qed (simp add: query_parse_def query_create_def)

theorem query_roundtrip_witness:
  "query_parse (query_create [(''a'', ''x y''), (''b'', ''1&2=3'')]) = [(''a'', ''x y''), (''b'', ''1&2=3'')]"
  by (rule query_roundtrip) simp

text \<open>A value that is not encoded loses all before its last \<open>=\<close> to the name.\<close>

lemma query_last_equals: "query_parse ''token=abc=='' = [(''token=abc='', [])]"
  by code_simp

section \<open>Streams and header fields\<close>

text \<open>
  An input stream: the characters left in its buffer, and whether it is still good. \<^verbatim>\<open>getline\<close> leaves the line as it was when
  the stream is not good.
\<close>

record istream =
  chars :: string
  good :: bool

definition istream :: "string \<Rightarrow> istream" where
  "istream s = \<lparr>chars = s, good = True\<rparr>"

definition getline :: "istream \<Rightarrow> string \<Rightarrow> istream \<times> string" where
  "getline st line =
     (if \<not> good st then (st, line)
      else (case find_char (CHR ''\<newline>'') (chars st) of
              Some n \<Rightarrow> (st\<lparr>chars := drop (n + 1) (chars st)\<rparr>, take n (chars st))
            | None \<Rightarrow> (st\<lparr>chars := [], good := False\<rparr>, chars st)))"

function skip_blanks :: "string \<Rightarrow> nat \<Rightarrow> nat" where
  "skip_blanks line i = (if i + 1 < length line \<and> line ! i = CHR '' '' then skip_blanks line (i + 1) else i)"
  by pat_completeness auto
termination by (relation "measure (\<lambda>(line, i). length line - i)") auto

declare skip_blanks.simps [simp del]

definition header_field :: "string \<Rightarrow> nat \<Rightarrow> fields" where
  "header_field line param_end =
     (let value_start = skip_blanks line (param_end + 1)
      in if value_start < length line
         then [(substr line 0 param_end, substr line value_start (length line - value_start - 1))] else [])"

partial_function (option) header_loop :: "istream \<Rightarrow> string \<Rightarrow> fields \<Rightarrow> (fields \<times> istream) option" where
  "header_loop st line result =
     (case find_char (CHR '':'') line of
        None \<Rightarrow> Some (result, st)
      | Some param_end \<Rightarrow>
          (let result' = result @ header_field line param_end
           in header_loop (fst (getline st line)) (snd (getline st line)) result'))"

definition HttpHeader_parse :: "istream \<Rightarrow> (fields \<times> istream) option" where
  "HttpHeader_parse st = header_loop (fst (getline st [])) (snd (getline st [])) []"

lemma find_char_append: "c \<notin> set s \<Longrightarrow> find_char c (s @ c # r) = Some (length s)"
  by (induction s) (auto simp: find_char_def)

lemma find_char_None [simp]: "c \<notin> set s \<Longrightarrow> find_char c s = None"
  by (simp add: find_char_def)

lemma find_char_found: "c \<in> set s \<Longrightarrow> \<exists>e. find_char c s = Some e"
  by (simp add: find_char_def)

lemma getline_line:
  "CHR ''\<newline>'' \<notin> set s \<Longrightarrow> getline (istream (s @ CHR ''\<newline>'' # r)) line = (istream r, s)"
  by (simp add: getline_def istream_def find_char_append)

lemma getline_end: "CHR ''\<newline>'' \<notin> set s \<Longrightarrow> getline (istream s) line = (\<lparr>chars = [], good = False\<rparr>, s)"
  by (simp add: getline_def istream_def)

lemma header_loop_done [simp]: "CHR '':'' \<notin> set line \<Longrightarrow> header_loop st line result = Some (result, st)"
  by (subst header_loop.simps) simp

lemma header_loop_next:
  "find_char (CHR '':'') line = Some e \<Longrightarrow>
     header_loop st line result = header_loop (fst (getline st line)) (snd (getline st line)) (result @ header_field line e)"
  by (subst header_loop.simps) simp

text \<open>A stream that is not good and a line with a colon: the loop goes on with the same line for ever.\<close>

lemma header_loop_stuck:
  assumes "CHR '':'' \<in> set line"
  shows "header_loop \<lparr>chars = [], good = False\<rparr> line result = None"
proof -
  have "\<not> (\<not> good st \<and> CHR '':'' \<in> set line)" if "header_loop st line result = Some r" for st line result r
  proof (rule header_loop.raw_induct [OF _ that], goal_cases)
    case (1 loop st line result r)
    then show ?case by (fastforce simp: getline_def find_char_def Let_def)
  qed
  then show ?thesis using assms by (metis istream.select_convs(2) option.exhaust)
qed

text \<open>The lines of a text; the last one has no line end.\<close>

definition colon_lines :: "string list \<Rightarrow> bool" where
  "colon_lines ls \<longleftrightarrow> (\<forall>l \<in> set ls. CHR '':'' \<in> set l)"

definition unlines :: "string list \<Rightarrow> string" where
  "unlines ls = concat (map (\<lambda>l. l @ [CHR ''\<newline>'']) ls)"

lemma header_loop_lines:
  "\<forall>l \<in> set ls. CHR ''\<newline>'' \<notin> set l \<Longrightarrow> CHR ''\<newline>'' \<notin> set last_line \<Longrightarrow>
     (header_loop (istream (unlines ls @ last_line)) line result \<noteq> None \<longleftrightarrow> (\<exists>l \<in> set (line # ls @ [last_line]). CHR '':'' \<notin> set l))"
proof (induction ls arbitrary: line result)
  case Nil
  show ?case
  proof (cases "CHR '':'' \<in> set line")
    case True
    then obtain e where "find_char (CHR '':'') line = Some e" using find_char_found by blast
    then show ?thesis using Nil True header_loop_stuck [of last_line "result @ header_field line e"]
      by (cases "CHR '':'' \<in> set last_line") (simp_all add: unlines_def getline_end header_loop_next)
  qed simp
next
  case (Cons l ls)
  have g: "getline (istream (unlines (l # ls) @ last_line)) x = (istream (unlines ls @ last_line), l)" for x
    using getline_line [of l "unlines ls @ last_line"] Cons.prems(1) by (simp add: unlines_def)
  show ?case
  proof (cases "CHR '':'' \<in> set line")
    case True
    then obtain e where "find_char (CHR '':'') line = Some e" using find_char_found by blast
    then show ?thesis using Cons.IH [of l "result @ header_field line e"] Cons.prems True
      by (simp add: g header_loop_next del: not_None_eq)
  qed simp
qed

text \<open>
  Parsing the header of a text returns exactly when one of its lines (the last, unfinished one included) has no colon;
  otherwise it never ends.
\<close>

theorem header_parse_returns:
  assumes "\<forall>l \<in> set (ls @ [last_line]). CHR ''\<newline>'' \<notin> set l"
  shows "HttpHeader_parse (istream (unlines ls @ last_line)) \<noteq> None \<longleftrightarrow> (\<exists>l \<in> set (ls @ [last_line]). CHR '':'' \<notin> set l)"
proof (cases ls)
  case Nil
  then show ?thesis using assms header_loop_stuck [of last_line "[]"]
    by (cases "CHR '':'' \<in> set last_line") (simp_all add: HttpHeader_parse_def unlines_def getline_end)
next
  case (Cons l ls')
  then have "getline (istream (unlines ls @ last_line)) [] = (istream (unlines ls' @ last_line), l)"
    using getline_line [of l "unlines ls' @ last_line" "[]"] assms by (simp add: unlines_def)
  then show ?thesis using header_loop_lines [of ls' last_line l "[]"] assms Cons by (simp add: HttpHeader_parse_def)
qed

theorem header_parse_returns_witness:
  "HttpHeader_parse (istream (unlines [''a: 1''] @ ''b: 2'')) = None \<and> HttpHeader_parse (istream (unlines [''a: 1'', []] @ ''b: 2'')) \<noteq> None"
  using header_parse_returns [of "[''a: 1'']" "''b: 2''"] header_parse_returns [of "[''a: 1'', []]" "''b: 2''"]
  by (simp del: not_None_eq)

text \<open>The line of a field as it is sent.\<close>

definition field_line :: "string \<times> string \<Rightarrow> string" where
  "field_line f = fst f @ '': '' @ snd f @ [CHR 0x0D]"

definition sendable :: "string \<times> string \<Rightarrow> bool" where
  "sendable f \<longleftrightarrow> CHR '':'' \<notin> set (fst f) \<and> CHR ''\<newline>'' \<notin> set (fst f) \<and> CHR ''\<newline>'' \<notin> set (snd f) \<and>
     (snd f = [] \<or> hd (snd f) \<noteq> CHR '' '')"

lemma header_field_line:
  assumes "sendable f"
  shows "find_char (CHR '':'') (field_line f) = Some (length (fst f)) \<and> header_field (field_line f) (length (fst f)) = [f]"
proof -
  let ?l = "field_line f" and ?n = "length (fst f)"
  have len: "length ?l = ?n + length (snd f) + 3" by (simp add: field_line_def)
  have at: "?l ! (?n + 1) = CHR '' ''" "?l ! (?n + 2) = (snd f @ [CHR 0x0D]) ! 0"
    by (simp_all add: field_line_def nth_append)
  have "skip_blanks ?l (?n + 2) = ?n + 2"
    using at(2) assms len by (subst skip_blanks.simps) (cases "snd f", auto simp: sendable_def)
  then have "skip_blanks ?l (?n + 1) = ?n + 2" using at(1) len by (subst skip_blanks.simps) simp
  then have "header_field ?l ?n = [(substr ?l 0 ?n, substr ?l (?n + 2) (length (snd f)))]"
    by (simp add: header_field_def len)
  moreover have "substr ?l 0 ?n = fst f" "substr ?l (?n + 2) (length (snd f)) = snd f"
    by (simp_all add: substr_def field_line_def)
  ultimately show ?thesis using assms find_char_append [of "CHR '':''" "fst f"] by (simp add: sendable_def field_line_def)
qed

lemma getline_field:
  assumes "sendable f"
  shows "getline (istream (unlines (map field_line (f # fs)) @ r)) x = (istream (unlines (map field_line fs) @ r), field_line f)"
proof -
  have "CHR ''\<newline>'' \<notin> set (field_line f)" using assms by (auto simp: sendable_def field_line_def)
  then show ?thesis using getline_line [of "field_line f" "unlines (map field_line fs) @ r" x] by (simp add: unlines_def)
qed

lemma header_loop_fields:
  "sendable f0 \<Longrightarrow> \<forall>f \<in> set fs. sendable f \<Longrightarrow>
     header_loop (istream (unlines (map field_line fs) @ CHR 0x0D # CHR ''\<newline>'' # r)) (field_line f0) result =
       Some (result @ f0 # fs, istream r)"
proof (induction fs arbitrary: f0 result)
  case Nil
  then show ?case using header_field_line [of f0] getline_line [of "[CHR 0x0D]" r]
    by (simp add: unlines_def header_loop_next)
next
  case (Cons f fs)
  then show ?case using header_field_line [of f0] getline_field [of f fs]
    by (simp add: header_loop_next)
qed

text \<open>A header as it is sent is parsed back; what follows its blank line stays in the stream.\<close>

theorem header_roundtrip:
  assumes "\<forall>f \<in> set fs. sendable f"
  shows "HttpHeader_parse (istream (unlines (map field_line fs) @ CHR 0x0D # CHR ''\<newline>'' # r)) = Some (fs, istream r)"
proof (cases fs)
  case Nil
  then show ?thesis using getline_line [of "[CHR 0x0D]" r "[]"] by (simp add: HttpHeader_parse_def unlines_def)
next
  case (Cons f fs')
  then show ?thesis using header_loop_fields [of f fs' r "[]"] getline_field [of f fs'] assms
    by (simp add: HttpHeader_parse_def)
qed

theorem header_roundtrip_witness:
  "HttpHeader_parse (istream (unlines (map field_line [(''Host'', ''a:80''), (''X'', [])]) @ CHR 0x0D # CHR ''\<newline>'' # ''body'')) =
     Some ([(''Host'', ''a:80''), (''X'', [])], istream ''body'')"
  by (rule header_roundtrip) (simp add: sendable_def)

section \<open>First lines\<close>

definition find_char_from :: "char \<Rightarrow> string \<Rightarrow> nat \<Rightarrow> nat option" where
  "find_char_from c s pos = map_option (\<lambda>i. pos + i) (find_char c (drop pos s))"

text \<open>What a message is parsed into; the variables of the caller keep what was assigned before a failure.\<close>

record http_request =
  http_method :: string
  path :: string
  query_string :: string
  http_version :: string
  header :: fields

definition http_request :: http_request where
  "http_request = \<lparr>http_method = [], path = [], query_string = [], http_version = [], header = []\<rparr>"

text \<open>The search for the start of the query and the end of the path; a later question mark wins.\<close>

fun scan_path :: "nat \<Rightarrow> nat \<Rightarrow> string \<Rightarrow> nat option \<Rightarrow> nat option \<times> nat option" where
  "scan_path len i [] query_start = (query_start, None)"
| "scan_path len i (c # cs) query_start =
     (if c = CHR ''?'' \<and> i + 1 < len then scan_path len (i + 1) cs (Some (i + 1))
      else if c = CHR '' '' then (query_start, Some i)
      else scan_path len (i + 1) cs query_start)"

definition RequestMessage_parse :: "istream \<Rightarrow> http_request \<Rightarrow> (bool \<times> http_request \<times> istream) option" where
  "RequestMessage_parse st0 rq0 =
     (let (st, line) = getline st0 []; rq0 = rq0\<lparr>header := []\<rparr>
      in case find_char (CHR '' '') line of
           None \<Rightarrow> Some (False, rq0, st)
         | Some method_end \<Rightarrow>
             (let rq = rq0\<lparr>http_method := substr line 0 method_end\<rparr>
              in case scan_path (length line) (method_end + 1) (drop (method_end + 1) line) None of
                   (_, None) \<Rightarrow> Some (False, rq, st)
                 | (query_start, Some path_end) \<Rightarrow>
                     (let rq = (case query_start of
                                  Some q \<Rightarrow> rq\<lparr>path := substr line (method_end + 1) (q - method_end - 2),
                                               query_string := substr line q (path_end - q)\<rparr>
                                | None \<Rightarrow> rq\<lparr>path := substr line (method_end + 1) (path_end - method_end - 1)\<rparr>)
                      in case find_char_from (CHR ''/'') line (path_end + 1) of
                           None \<Rightarrow> Some (False, rq, st)
                         | Some protocol_end \<Rightarrow>
                             if substr line (path_end + 1) (protocol_end - path_end - 1) \<noteq> ''HTTP'' then Some (False, rq, st)
                             else map_option
                               (\<lambda>(hs, st'). (True, rq\<lparr>http_version := substr line (protocol_end + 1) (length line - protocol_end - 2),
                                                        header := hs\<rparr>, st'))
                               (HttpHeader_parse st))))"

text \<open>A difference below zero is a huge count, and \<^verbatim>\<open>substr\<close> takes all that is left.\<close>

definition ResponseMessage_parse :: "istream \<Rightarrow> string \<times> string \<times> fields \<Rightarrow> (bool \<times> (string \<times> string \<times> fields) \<times> istream) option" where
  "ResponseMessage_parse st0 r0 =
     (let (st, line) = getline st0 []; (version, status, _) = r0
      in case find_char (CHR '' '') line of
           None \<Rightarrow> Some (False, (version, status, []), st)
         | Some version_end \<Rightarrow>
             if \<not> 5 < length line then Some (False, (version, status, []), st)
             else (let version = substr line 5 (if version_end < 5 then length line else version_end - 5)
                   in if \<not> version_end + 1 < length line then Some (False, (version, status, []), st)
                      else map_option
                        (\<lambda>(hs, st'). (True, (version, substr line (version_end + 1) (length line - (version_end + 1) - 1), hs), st'))
                        (HttpHeader_parse st)))"

section \<open>Messages are parsed back\<close>

definition crlf :: string where
  "crlf = [CHR 0x0D, CHR ''\<newline>'']"

text \<open>A header with its end, as it is sent.\<close>

definition header_text :: "fields \<Rightarrow> string" where
  "header_text fs = concat (map (\<lambda>f. fst f @ '': '' @ snd f @ crlf) fs) @ crlf"

lemma header_text_parse:
  assumes "\<forall>f \<in> set fs. sendable f"
  shows "HttpHeader_parse (istream (header_text fs @ r)) = Some (fs, istream r)"
proof -
  have "header_text fs @ r = unlines (map field_line fs) @ CHR 0x0D # CHR ''\<newline>'' # r"
    by (simp add: header_text_def unlines_def field_line_def crlf_def comp_def)
  then show ?thesis using header_roundtrip [OF assms] by simp
qed

definition word :: "string \<Rightarrow> bool" where
  "word s \<longleftrightarrow> CHR '' '' \<notin> set s \<and> CHR ''\<newline>'' \<notin> set s"

lemma scan_path_word:
  "CHR '' '' \<notin> set p \<Longrightarrow> CHR ''?'' \<notin> set p \<Longrightarrow> scan_path len i (p @ r) q = scan_path len (i + length p) r q"
  by (induction p arbitrary: i) auto

definition target_text :: "http_request \<Rightarrow> string" where
  "target_text rq = path rq @ (if query_string rq = [] then [] else CHR ''?'' # query_string rq)"

definition request_text :: "http_request \<Rightarrow> string" where
  "request_text rq =
     http_method rq @ '' '' @ target_text rq @ '' HTTP/'' @ http_version rq @ crlf @ header_text (header rq)"

definition request_ok :: "http_request \<Rightarrow> bool" where
  "request_ok rq \<longleftrightarrow> word (http_method rq) \<and> word (path rq) \<and> CHR ''?'' \<notin> set (path rq) \<and>
     word (query_string rq) \<and> CHR ''?'' \<notin> set (query_string rq) \<and> CHR ''\<newline>'' \<notin> set (http_version rq) \<and>
     (\<forall>f \<in> set (header rq). sendable f)"

lemma scan_target:
  assumes "word (path rq)" "word (query_string rq)" "CHR ''?'' \<notin> set (path rq)" "CHR ''?'' \<notin> set (query_string rq)"
    and "i + length (target_text rq) < len"
  shows "scan_path len i (target_text rq @ CHR '' '' # r) None =
     (if query_string rq = [] then None else Some (i + length (path rq) + 1), Some (i + length (target_text rq)))"
  using assms by (cases "query_string rq = []") (simp_all add: target_text_def word_def scan_path_word)

text \<open>
  A request is parsed back from its text, with what follows the header left in the stream, when neither path nor
  query has a further question mark.
\<close>

theorem request_roundtrip:
  assumes "request_ok rq"
  shows "RequestMessage_parse (istream (request_text rq @ body)) rq0 =
     Some (True, (if query_string rq = [] then rq\<lparr>query_string := query_string rq0\<rparr> else rq), istream body)"
proof -
  let ?m = "http_method rq" and ?t = "target_text rq" and ?v = "http_version rq"
  let ?line = "?m @ CHR '' '' # ?t @ CHR '' '' # ''HTTP/'' @ ?v @ [CHR 0x0D]"
  let ?rest = "header_text (header rq) @ body"
  have "CHR ''\<newline>'' \<notin> set ?line" using assms by (auto simp: request_ok_def word_def target_text_def)
  then have g: "getline (istream (request_text rq @ body)) [] = (istream ?rest, ?line)"
    using getline_line [of ?line ?rest] by (simp add: request_text_def crlf_def)
  have m: "find_char (CHR '' '') ?line = Some (length ?m)"
    using assms by (intro find_char_append) (simp add: request_ok_def word_def)
  have dm: "drop (length ?m + 1) ?line = ?t @ CHR '' '' # ''HTTP/'' @ ?v @ [CHR 0x0D]" by simp
  have sc: "scan_path (length ?line) (length ?m + 1) (drop (length ?m + 1) ?line) None =
      (if query_string rq = [] then None else Some (length ?m + 1 + length (path rq) + 1), Some (length ?m + 1 + length ?t))"
    unfolding dm using assms by (intro scan_target) (auto simp: request_ok_def)
  have dp: "drop (length ?m + 1 + length ?t + 1) ?line = ''HTTP/'' @ ?v @ [CHR 0x0D]" by simp
  have p: "find_char_from (CHR ''/'') ?line (length ?m + 1 + length ?t + 1) = Some (length ?m + 1 + length ?t + 5)"
    unfolding find_char_from_def dp using find_char_append [of "CHR ''/''" "''HTTP''"] by simp
  have proto: "substr ?line (length ?m + 1 + length ?t + 1) (length ?m + 1 + length ?t + 5 - (length ?m + 1 + length ?t) - 1) = ''HTTP''"
    unfolding substr_def dp by simp
  have h: "HttpHeader_parse (istream ?rest) = Some (header rq, istream body)"
    using assms by (intro header_text_parse) (simp add: request_ok_def)
  have ver: "substr ?line (length ?m + 1 + length ?t + 5 + 1) (length ?line - (length ?m + 1 + length ?t + 5) - 2) = ?v"
    using substr_mid [of "?m @ CHR '' '' # ?t @ CHR '' '' # ''HTTP/''" _ ?v _ "[CHR 0x0D]"] by simp
  have pth: "substr ?line (length ?m + 1) (length (path rq)) = path rq"
    and qry: "query_string rq \<noteq> [] \<Longrightarrow>
        substr ?line (length ?m + 1 + length (path rq) + 1) (length (query_string rq)) = query_string rq"
    and met: "substr ?line 0 (length ?m) = ?m"
    by (simp_all add: substr_def target_text_def)
  have tl: "length ?t = length (path rq) + (if query_string rq = [] then 0 else 1 + length (query_string rq))"
    by (simp add: target_text_def)
  show ?thesis
  proof (cases "query_string rq = []")
    case True
    have e: "length ?m + 1 + length ?t - length ?m - 1 = length (path rq)" using True tl by simp
    show ?thesis unfolding RequestMessage_parse_def g Let_def prod.case m option.case sc p proto ver met
      using True h e pth by (simp del: append.simps)
  next
    case False
    have e: "length ?m + 1 + length (path rq) + 1 - length ?m - 2 = length (path rq)"
      "length ?m + 1 + length ?t - (length ?m + 1 + length (path rq) + 1) = length (query_string rq)" using False tl by simp_all
    show ?thesis unfolding RequestMessage_parse_def g Let_def prod.case m option.case sc p proto ver met
      using False h e pth qry by (simp del: append.simps)
  qed
qed

theorem request_roundtrip_witness:
  "RequestMessage_parse (istream (request_text \<lparr>http_method = ''POST'', path = ''/a'', query_string = ''x=1'', http_version = ''1.1'',
       header = [(''Host'', ''h'')]\<rparr> @ ''body'')) http_request =
     Some (True, \<lparr>http_method = ''POST'', path = ''/a'', query_string = ''x=1'', http_version = ''1.1'', header = [(''Host'', ''h'')]\<rparr>,
       istream ''body'')"
  by (subst request_roundtrip) (simp_all add: request_ok_def word_def sendable_def)

text \<open>Of several question marks the last one starts the query.\<close>

lemma query_after_last_mark: "scan_path 21 4 (drop 4 ''GET /a?x=?y HTTP/1.1'') None = (Some 10, Some 11)"
  by code_simp

definition response_text :: "string \<Rightarrow> string \<Rightarrow> fields \<Rightarrow> string" where
  "response_text version status hs = ''HTTP/'' @ version @ '' '' @ status @ crlf @ header_text hs"

text \<open>A response is parsed back from its text.\<close>

theorem response_roundtrip:
  assumes "word version" and "CHR ''\<newline>'' \<notin> set status" and "\<forall>f \<in> set hs. sendable f"
  shows "ResponseMessage_parse (istream (response_text version status hs @ body)) r0 =
     Some (True, (version, status, hs), istream body)"
proof -
  let ?line = "(''HTTP/'' @ version) @ CHR '' '' # status @ [CHR 0x0D]"
  have "CHR ''\<newline>'' \<notin> set ?line" using assms by (auto simp: word_def)
  then have g: "getline (istream (response_text version status hs @ body)) [] = (istream (header_text hs @ body), ?line)"
    using getline_line [of ?line "header_text hs @ body"] by (simp add: response_text_def crlf_def)
  have f: "find_char (CHR '' '') ?line = Some (5 + length version)"
    using assms find_char_append [of "CHR '' ''" "''HTTP/'' @ version" "status @ [CHR 0x0D]"] by (simp add: word_def)
  have v: "substr ?line 5 (5 + length version - 5) = version"
    using substr_mid [of "''HTTP/''" 5 version "5 + length version - 5" "CHR '' '' # status @ [CHR 0x0D]"] by simp
  have st: "substr ?line (5 + length version + 1) (length ?line - (5 + length version + 1) - 1) = status"
    using substr_mid [of "''HTTP/'' @ version @ '' ''" _ status _ "[CHR 0x0D]"] by simp
  have h: "HttpHeader_parse (istream (header_text hs @ body)) = Some (hs, istream body)"
    using assms(3) by (rule header_text_parse)
  have l: "5 < length ?line" "5 + length version + 1 < length ?line" "\<not> 5 + length version < 5" by simp_all
  show ?thesis
    unfolding ResponseMessage_parse_def g Let_def prod.case f option.case
    using v st h l by (simp add: split_def del: append.simps)
qed

theorem response_roundtrip_witness:
  "ResponseMessage_parse (istream (response_text ''1.1'' ''200 OK'' [(''Content-Length'', ''2'')] @ ''ok'')) ([], [], []) =
     Some (True, (''1.1'', ''200 OK'', [(''Content-Length'', ''2'')]), istream ''ok'')"
  by (rule response_roundtrip) (simp_all add: word_def sendable_def)

section \<open>Attributes\<close>

text \<open>\<^verbatim>\<open>SemicolonSeparatedAttributes::parse\<close>: the starts of name and value and the end of the name, while one is under way.\<close>

fun attr_loop :: "string \<Rightarrow> nat \<Rightarrow> string \<Rightarrow> nat option \<Rightarrow> nat option \<Rightarrow> nat option \<Rightarrow> fields \<Rightarrow> fields" where
  "attr_loop str c [] name_start name_end value_start result =
     (case name_start of
        None \<Rightarrow> result
      | Some n \<Rightarrow>
          (case name_end of
             None \<Rightarrow> result @ [(drop n str, [])]
           | Some e \<Rightarrow>
               (case value_start of
                  None \<Rightarrow> result
                | Some v \<Rightarrow> result @ [(substr str n (e - n), percent_decode (substr str v
                    (if last str = CHR 0x22 then length str - 1 else length str)))])))"
| "attr_loop str c (x # xs) name_start name_end value_start result =
     (case name_start of
        None \<Rightarrow> attr_loop str (c + 1) xs (if x \<noteq> CHR '' '' \<and> x \<noteq> CHR '';'' then Some c else None) name_end value_start result
      | Some n \<Rightarrow>
          (case name_end of
             None \<Rightarrow>
               if x = CHR '';'' then attr_loop str (c + 1) xs None None value_start (result @ [(substr str n (c - n), [])])
               else if x = CHR ''='' then attr_loop str (c + 1) xs name_start (Some c) value_start result
               else attr_loop str (c + 1) xs name_start None value_start result
           | Some e \<Rightarrow>
               (case value_start of
                  None \<Rightarrow>
                    attr_loop str (c + 1) xs name_start name_end
                      (Some (if x = CHR 0x22 \<and> c + 1 < length str then c + 1 else c)) result
                | Some v \<Rightarrow>
                    if x = CHR 0x22 \<or> x = CHR '';''
                    then attr_loop str (c + 1) xs None None None
                      (result @ [(substr str n (e - n), percent_decode (substr str v (c - v)))])
                    else attr_loop str (c + 1) xs name_start name_end value_start result)))"

definition attributes_parse :: "string \<Rightarrow> fields" where
  "attributes_parse str = attr_loop str 0 str None None None []"

text \<open>An empty value takes the rest of the attributes, and a semicolon ends a quoted value.\<close>

lemma empty_attribute_swallows: "attributes_parse ''a=; b=c'' = [(''a'', ''; b=c'')]"
  by code_simp

lemma quoted_semicolon_splits:
  "attributes_parse (''f='' @ [CHR 0x22] @ ''x;y'' @ [CHR 0x22]) = [(''f'', ''x''), (''y'' @ [CHR 0x22], [])]"
  by code_simp

end
