(* ===== verification/Http_Status.thy ===== *)
theory Http_Status
  imports Http_Util
begin

text \<open>
  The status codes of HTTP and their texts (\<^verbatim>\<open>src/network/http/status_code.hpp\<close>). The enumeration and the table are given
  by the names of the enumerators; an enumerator without a value has the one after that of its predecessor. The
  theorem: every enumerator has exactly one text, which begins with its number and leads back to it.
\<close>

definition status_enum :: "(string \<times> nat option) list" where
  "status_enum = [
    (''unknown'', Some 0), (''information_continue'', Some 100), (''information_switching_protocols'', None),
    (''information_processing'', None), (''success_ok'', Some 200), (''success_created'', None),
    (''success_accepted'', None), (''success_non_authoritative_information'', None), (''success_no_content'', None),
    (''success_reset_content'', None), (''success_partial_content'', None), (''success_multi_status'', None),
    (''success_already_reported'', None), (''success_im_used'', Some 226),
    (''redirection_multiple_choices'', Some 300), (''redirection_moved_permanently'', None),
    (''redirection_found'', None), (''redirection_see_other'', None), (''redirection_not_modified'', None),
    (''redirection_use_proxy'', None), (''redirection_switch_proxy'', None),
    (''redirection_temporary_redirect'', None), (''redirection_permanent_redirect'', None),
    (''client_error_bad_request'', Some 400), (''client_error_unauthorized'', None),
    (''client_error_payment_required'', None), (''client_error_forbidden'', None), (''client_error_not_found'', None),
    (''client_error_method_not_allowed'', None), (''client_error_not_acceptable'', None),
    (''client_error_proxy_authentication_required'', None), (''client_error_request_timeout'', None),
    (''client_error_conflict'', None), (''client_error_gone'', None), (''client_error_length_required'', None),
    (''client_error_precondition_failed'', None), (''client_error_payload_too_large'', None),
    (''client_error_uri_too_long'', None), (''client_error_unsupported_media_type'', None),
    (''client_error_range_not_satisfiable'', None), (''client_error_expectation_failed'', None),
    (''client_error_im_a_teapot'', None), (''client_error_misdirection_required'', Some 421),
    (''client_error_unprocessable_entity'', None), (''client_error_locked'', None),
    (''client_error_failed_dependency'', None), (''client_error_upgrade_required'', Some 426),
    (''client_error_precondition_required'', Some 428), (''client_error_too_many_requests'', None),
    (''client_error_request_header_fields_too_large'', Some 431),
    (''client_error_unavailable_for_legal_reasons'', Some 451), (''server_error_internal_server_error'', Some 500),
    (''server_error_not_implemented'', None), (''server_error_bad_gateway'', None),
    (''server_error_service_unavailable'', None), (''server_error_gateway_timeout'', None),
    (''server_error_http_version_not_supported'', None), (''server_error_variant_also_negotiates'', None),
    (''server_error_insufficient_storage'', None), (''server_error_loop_detected'', None),
    (''server_error_not_extended'', Some 510), (''server_error_network_authentication_required'', None)]"

fun enum_values :: "nat \<Rightarrow> (string \<times> nat option) list \<Rightarrow> (string \<times> nat) list" where
  "enum_values n [] = []"
| "enum_values n ((e, v) # es) = (let k = (case v of Some k \<Rightarrow> k | None \<Rightarrow> n) in (e, k) # enum_values (k + 1) es)"

definition StatusCode :: "(string \<times> nat) list" where
  "StatusCode = enum_values 0 status_enum"

definition status_texts :: "(string \<times> string) list" where
  "status_texts = [
    (''unknown'', []), (''information_continue'', ''100 Continue''),
    (''information_switching_protocols'', ''101 Switching Protocols''),
    (''information_processing'', ''102 Processing''), (''success_ok'', ''200 OK''),
    (''success_created'', ''201 Created''), (''success_accepted'', ''202 Accepted''),
    (''success_non_authoritative_information'', ''203 Non-Authoritative Information''),
    (''success_no_content'', ''204 No Content''), (''success_reset_content'', ''205 Reset Content''),
    (''success_partial_content'', ''206 Partial Content''), (''success_multi_status'', ''207 Multi-Status''),
    (''success_already_reported'', ''208 Already Reported''), (''success_im_used'', ''226 IM Used''),
    (''redirection_multiple_choices'', ''300 Multiple Choices''),
    (''redirection_moved_permanently'', ''301 Moved Permanently''), (''redirection_found'', ''302 Found''),
    (''redirection_see_other'', ''303 See Other''), (''redirection_not_modified'', ''304 Not Modified''),
    (''redirection_use_proxy'', ''305 Use Proxy''), (''redirection_switch_proxy'', ''306 Switch Proxy''),
    (''redirection_temporary_redirect'', ''307 Temporary Redirect''),
    (''redirection_permanent_redirect'', ''308 Permanent Redirect''),
    (''client_error_bad_request'', ''400 Bad Request''), (''client_error_unauthorized'', ''401 Unauthorized''),
    (''client_error_payment_required'', ''402 Payment Required''), (''client_error_forbidden'', ''403 Forbidden''),
    (''client_error_not_found'', ''404 Not Found''),
    (''client_error_method_not_allowed'', ''405 Method Not Allowed''),
    (''client_error_not_acceptable'', ''406 Not Acceptable''),
    (''client_error_proxy_authentication_required'', ''407 Proxy Authentication Required''),
    (''client_error_request_timeout'', ''408 Request Timeout''), (''client_error_conflict'', ''409 Conflict''),
    (''client_error_gone'', ''410 Gone''), (''client_error_length_required'', ''411 Length Required''),
    (''client_error_precondition_failed'', ''412 Precondition Failed''),
    (''client_error_payload_too_large'', ''413 Payload Too Large''),
    (''client_error_uri_too_long'', ''414 URI Too Long''),
    (''client_error_unsupported_media_type'', ''415 Unsupported Media Type''),
    (''client_error_range_not_satisfiable'', ''416 Range Not Satisfiable''),
    (''client_error_expectation_failed'', ''417 Expectation Failed''),
    (''client_error_im_a_teapot'', ''418 I'' @ [CHR 0x27] @ ''m a teapot''),
    (''client_error_misdirection_required'', ''421 Misdirected Request''),
    (''client_error_unprocessable_entity'', ''422 Unprocessable Entity''), (''client_error_locked'', ''423 Locked''),
    (''client_error_failed_dependency'', ''424 Failed Dependency''),
    (''client_error_upgrade_required'', ''426 Upgrade Required''),
    (''client_error_precondition_required'', ''428 Precondition Required''),
    (''client_error_too_many_requests'', ''429 Too Many Requests''),
    (''client_error_request_header_fields_too_large'', ''431 Request Header Fields Too Large''),
    (''client_error_unavailable_for_legal_reasons'', ''451 Unavailable For Legal Reasons''),
    (''server_error_internal_server_error'', ''500 Internal Server Error''),
    (''server_error_not_implemented'', ''501 Not Implemented''), (''server_error_bad_gateway'', ''502 Bad Gateway''),
    (''server_error_service_unavailable'', ''503 Service Unavailable''),
    (''server_error_gateway_timeout'', ''504 Gateway Timeout''),
    (''server_error_http_version_not_supported'', ''505 HTTP Version Not Supported''),
    (''server_error_variant_also_negotiates'', ''506 Variant Also Negotiates''),
    (''server_error_insufficient_storage'', ''507 Insufficient Storage''),
    (''server_error_loop_detected'', ''508 Loop Detected''), (''server_error_not_extended'', ''510 Not Extended''),
    (''server_error_network_authentication_required'', ''511 Network Authentication Required'')]"

definition status_code_strings :: "(nat \<times> string) list" where
  "status_code_strings = map (\<lambda>(e, t). (the (map_of StatusCode e), t)) status_texts"

text \<open>\<^verbatim>\<open>status_code\<close> of a text and of a code.\<close>

definition status_of_string :: "string \<Rightarrow> nat" where
  "status_of_string s = (case map_of (map (\<lambda>(c, t). (t, c)) status_code_strings) s of None \<Rightarrow> 0 | Some c \<Rightarrow> c)"

definition string_of_status :: "nat \<Rightarrow> string" where
  "string_of_status c = (case map_of status_code_strings c of None \<Rightarrow> [] | Some t \<Rightarrow> t)"

section \<open>The two tables agree\<close>

lemma status_values:
  "map snd StatusCode = [
     0, 100, 101, 102, 200, 201, 202, 203, 204, 205, 206, 207, 208, 226, 300, 301, 302, 303, 304, 305, 306, 307,
     308, 400, 401, 402, 403, 404, 405, 406, 407, 408, 409, 410, 411, 412, 413, 414, 415, 416, 417, 418, 421, 422,
     423, 424, 426, 428, 429, 431, 451, 500, 501, 502, 503, 504, 505, 506, 507, 508, 510, 511]"
  by (simp add: StatusCode_def status_enum_def)

lemma status_names: "map fst status_texts = map fst StatusCode"
  by (simp add: StatusCode_def status_enum_def status_texts_def)

text \<open>The names are distinct, since their checksums are.\<close>

definition checksum :: "string \<Rightarrow> nat" where
  "checksum s = foldl (\<lambda>a c. 3 * a + of_char c) 0 s"

lemma status_names_distinct: "distinct (map fst StatusCode)"
proof -
  have "distinct (map checksum (map fst StatusCode))"
    by (simp add: StatusCode_def status_enum_def checksum_def)
  then show ?thesis by (rule distinct_map [THEN iffD1, THEN conjunct1])
qed

lemma map_of_names:
  "distinct (map fst xs) \<Longrightarrow> map fst ys = map fst xs \<Longrightarrow>
     map (\<lambda>(e, t). (the (map_of xs e), t)) ys = zip (map snd xs) (map snd ys)"
proof (induction xs ys rule: list_induct2')
  case (4 x xs y ys)
  have "set (map fst ys) = set (map fst xs)" using 4(3) by simp
  then have "fst x \<notin> fst ` set ys" using 4(2) by simp
  then have "map (\<lambda>(e, t). (the (map_of (x # xs) e), t)) ys = map (\<lambda>(e, t). (the (map_of xs e), t)) ys"
    by (intro map_cong) force+
  then show ?case using 4 by (cases x; cases y) simp
qed auto

lemma status_code_strings_zip: "status_code_strings = zip (map snd StatusCode) (map snd status_texts)"
  unfolding status_code_strings_def using status_names_distinct status_names by (rule map_of_names)

definition text_of_code :: "nat \<times> string \<Rightarrow> bool" where
  "text_of_code x \<longleftrightarrow> (if fst x = 0 then snd x = [] else take 4 (snd x) = to_dec (fst x) @ '' '')"

lemma digit_chars:
  "digit 0 = CHR ''0''" "digit 1 = CHR ''1''" "digit 2 = CHR ''2''" "digit 3 = CHR ''3''" "digit 4 = CHR ''4''"
  "digit 5 = CHR ''5''" "digit 6 = CHR ''6''" "digit 7 = CHR ''7''" "digit 8 = CHR ''8''" "digit 9 = CHR ''9''"
  by (simp_all add: digit_def char_of_def bit_Suc_0_iff)

lemma status_texts_begin: "list_all text_of_code (zip (map snd StatusCode) (map snd status_texts))"
  unfolding status_values status_texts_def by (simp add: text_of_code_def to_dec.simps digit_chars digit_chars(2) [simplified])

lemma status_codes_ascending: "sorted_wrt (<) (map snd StatusCode)"
  unfolding status_values by simp

lemma status_distinct:
  "distinct (map fst status_code_strings)" "distinct (map snd status_code_strings)"
proof -
  have l: "length status_texts = length StatusCode" using status_names by (metis length_map)
  then have f: "map fst status_code_strings = map snd StatusCode" by (simp add: status_code_strings_zip)
  show d: "distinct (map fst status_code_strings)"
    unfolding f using status_codes_ascending by (simp add: strict_sorted_iff)
  have "inj_on snd (set status_code_strings)"
  proof (rule inj_onI)
    fix x y assume xy: "x \<in> set status_code_strings" "y \<in> set status_code_strings" "snd x = snd y"
    then have "text_of_code x" "text_of_code y" using status_texts_begin by (auto simp: status_code_strings_zip list_all_iff)
    then have "fst x = fst y" using xy(3) by (auto simp: text_of_code_def to_dec_inj split: if_splits)
    then show "x = y" using xy(3) by (simp add: prod_eq_iff)
  qed
  then show "distinct (map snd status_code_strings)" using d by (simp add: distinct_map)
qed

text \<open>Every enumerator leads to a text and the text back to it; but for \<open>unknown\<close> the text begins with the code.\<close>

theorem status_roundtrip:
  assumes "c \<in> set (map snd StatusCode)"
  shows "status_of_string (string_of_status c) = c \<and> (c = 0 \<or> take 4 (string_of_status c) = to_dec c @ '' '')"
proof -
  have "length status_texts = length StatusCode" using status_names by (metis length_map)
  then have "map snd StatusCode = map fst status_code_strings" by (simp add: status_code_strings_zip)
  then obtain t where t: "(c, t) \<in> set status_code_strings" using assms by auto
  then have s: "string_of_status c = t" using status_distinct(1) by (simp add: string_of_status_def map_of_is_SomeI)
  have "(t, c) \<in> set (map (\<lambda>(c, t). (t, c)) status_code_strings)" using t by force
  then have "status_of_string t = c"
    using status_distinct(2) by (simp add: status_of_string_def map_of_is_SomeI comp_def case_prod_unfold)
  moreover have "text_of_code (c, t)" using t status_texts_begin by (simp add: status_code_strings_zip list_all_iff)
  ultimately show ?thesis using s by (auto simp: text_of_code_def split: if_splits)
qed

theorem status_roundtrip_witness:
  "status_of_string (string_of_status 404) = 404 \<and> ((404::nat) = 0 \<or> take 4 (string_of_status 404) = to_dec 404 @ '' '')"
proof (rule status_roundtrip)
  show "404 \<in> set (map snd StatusCode)" unfolding status_values by simp
qed

end
