(* ===== verification/Http_Server.thy ===== *)
theory Http_Server
  imports Http_Status
begin

text \<open>
  How the HTTP server reads a request, finds its handler and writes the response (\<^verbatim>\<open>src/network/http/server_http.hpp\<close>).
  What the socket delivers is a list of pieces of any size, followed by the end of the stream. The function \<open>read_request\<close> is
  the chain of the completion handlers of \<^verbatim>\<open>read\<close>, \<^verbatim>\<open>read_chunked_transfer_encoded\<close> and
  \<^verbatim>\<open>read_chunked_transfer_encoded_chunk\<close>; \<open>limit\<close> is \<^verbatim>\<open>max_request_streambuf_size\<close>. Timeouts, sockets and regular expressions
  are outside. The theorems: a request is read completely however it is cut into pieces, with a length or in
  chunks; reading always comes to an end; a response is read back by the client's parser; a chunk size near \<open>2 ^ 64\<close>
  throws out of the handler.
\<close>

section \<open>Numbers in base 16\<close>

text \<open>\<^verbatim>\<open>stoul(line, 0, 16)\<close>; \<open>None\<close> for its exceptions.\<close>

definition stoul16 :: "string \<Rightarrow> nat option" where
  "stoul16 s =
     (let t = dropWhile is_space s;
          neg = (case t of c # _ \<Rightarrow> c = CHR ''-'' | [] \<Rightarrow> False);
          u = (case t of c # cs \<Rightarrow> if c = CHR ''-'' \<or> c = CHR ''+'' then cs else t | [] \<Rightarrow> []);
          ds = hex_digits u
      in if ds = [] \<or> hex_number ds \<ge> 2 ^ 64 then None
         else Some (if neg then (2 ^ 64 - hex_number ds) mod 2 ^ 64 else hex_number ds))"

section \<open>Reading from the socket\<close>

text \<open>
  The stream buffer with the pieces that are still to come. \<^verbatim>\<open>async_read_until\<close> ends with the number of characters up to the end of
  the first delimiter, or because the buffer is full, or with the end of the stream.
\<close>

datatype until_result = Until nat | BufferFull | StreamEnd

function read_until :: "nat \<Rightarrow> string \<Rightarrow> string \<Rightarrow> string list \<Rightarrow> until_result \<times> string \<times> string list" where
  "read_until limit delim buf pieces =
     (case find_sub delim buf of
        Some i \<Rightarrow> (Until (i + length delim), buf, pieces)
      | None \<Rightarrow>
          if length buf \<ge> limit then (BufferFull, buf, pieces)
          else (case pieces of
                  [] \<Rightarrow> (StreamEnd, buf, [])
                | p # ps \<Rightarrow>
                    if length buf + length p \<le> limit then read_until limit delim (buf @ p) ps
                    else read_until limit delim (buf @ take (limit - length buf) p) (drop (limit - length buf) p # ps)))"
  by pat_completeness auto
termination
  by (relation "measures [\<lambda>(limit, delim, buf, pieces). limit - length buf, \<lambda>(limit, delim, buf, pieces). length pieces]") auto

declare read_until.simps [simp del]

text \<open>\<^verbatim>\<open>async_read\<close> with \<^verbatim>\<open>transfer_exactly(n)\<close>, which also ends when the buffer is full; \<open>False\<close> is the end of the stream.\<close>

fun read_exactly :: "nat \<Rightarrow> nat \<Rightarrow> string \<Rightarrow> string list \<Rightarrow> bool \<times> string \<times> string list" where
  "read_exactly limit n buf [] = (n = 0 \<or> length buf \<ge> limit, buf, [])"
| "read_exactly limit n buf (p # ps) =
     (let k = min n (limit - length buf)
      in if length p \<le> k then read_exactly limit (n - length p) (buf @ p) ps
         else (True, buf @ take k p, drop k p # ps))"

section \<open>Reading a request\<close>

text \<open>How reading ends: the message goes on with the content that is in the buffer, or \<^verbatim>\<open>on_error\<close> is called, or the handler throws.\<close>

datatype read_outcome =
    Content string
  | PayloadTooLarge
  | ProtocolError
  | ReadFailed
  | Thrown

definition field_value :: "string \<Rightarrow> fields \<Rightarrow> string option" where
  "field_value name hs = map_option snd (find (\<lambda>f. case_insensitive_equal (fst f) name) hs)"

text \<open>
  A chunk with its line end: \<open>Inr\<close> goes on with the buffer and the chunks read so far. \<open>alloc n\<close>: \<^verbatim>\<open>new char[n]\<close> succeeds, which it
  never does from \<open>2 ^ 63\<close> on.
\<close>

definition read_chunk ::
  "(nat \<Rightarrow> bool) \<Rightarrow> nat \<Rightarrow> nat \<Rightarrow> string \<Rightarrow> string \<Rightarrow> read_outcome + string \<times> string" where
  "read_chunk alloc limit n buf chunks =
     (if n > 0
      then (if n \<ge> 2 ^ 63 \<or> \<not> alloc n then Inl Thrown
            else (let chunks = take limit (chunks @ take n buf)
                  in if length chunks = limit then Inl PayloadTooLarge else Inr (drop 2 (drop n buf), chunks)))
      else (let buf = drop 2 buf
            in Inl (Content (if chunks = [] then buf else take limit (buf @ chunks)))))"

text \<open>
  The line with the size of a chunk, taken from a buffer whose first delimiter ends at \<open>till\<close>: the size, how much more has
  to be read, and the rest of the buffer. \<^verbatim>\<open>pop_back\<close> on an empty line is undefined.
\<close>

definition chunk_size :: "nat \<Rightarrow> string \<Rightarrow> read_outcome + nat \<times> nat \<times> string" where
  "chunk_size till buf =
     (case find_char (CHR ''\<newline>'') buf of
        None \<Rightarrow> Inl Thrown
      | Some e \<Rightarrow>
          (let line = take e buf; rest = drop (e + 1) buf
           in if line = [] then Inl Thrown
              else (case stoul16 (butlast line) of
                      None \<Rightarrow> Inl ProtocolError
                    | Some n \<Rightarrow>
                        (let additional = length rest - (till - (e + 1)); need = (2 + n) mod 2 ^ 64
                         in Inr (n, (if need > additional then need - additional else 0), rest)))))"

text \<open>Reading \<open>n\<close> more characters.\<close>

definition read_more :: "nat \<Rightarrow> nat \<Rightarrow> string \<Rightarrow> string list \<Rightarrow> read_outcome + string \<times> string list" where
  "read_more limit n buf pieces =
     (if n = 0 then Inr (buf, pieces)
      else (let (ok, buf, pieces) = read_exactly limit n buf pieces
            in if \<not> ok then Inl ReadFailed else if length buf = limit then Inl PayloadTooLarge else Inr (buf, pieces)))"

text \<open>What the handler of \<^verbatim>\<open>async_read_until\<close> does before it looks at the text.\<close>

definition check_until :: "nat \<Rightarrow> until_result \<times> string \<times> string list \<Rightarrow> read_outcome + nat \<times> string \<times> string list" where
  "check_until limit r =
     (case r of
        (StreamEnd, buf, pieces) \<Rightarrow> Inl ReadFailed
      | (BufferFull, buf, pieces) \<Rightarrow> Inl (if length buf = limit then PayloadTooLarge else ReadFailed)
      | (Until till, buf, pieces) \<Rightarrow> if length buf = limit then Inl PayloadTooLarge else Inr (till, buf, pieces))"

subsection \<open>Nothing is lost between buffer and socket\<close>

lemma read_until_whole: "read_until limit delim buf pieces = (r, buf', pieces') \<Longrightarrow> buf' @ concat pieces' = buf @ concat pieces"
proof (induction limit delim buf pieces rule: read_until.induct)
  case (1 limit delim buf pieces)
  note run = 1(3) [unfolded read_until.simps [of limit delim buf pieces]]
  show ?case
  proof (cases "find_sub delim buf = None \<and> \<not> limit \<le> length buf \<and> pieces \<noteq> []")
    case True
    then obtain p ps where p: "pieces = p # ps" by (cases pieces) auto
    show ?thesis
    proof (cases "length buf + length p \<le> limit")
      case True
      then show ?thesis using 1(1) [of p ps] run p \<open>find_sub delim buf = None \<and> _\<close> by simp
    next
      case False
      then have "buf' @ concat pieces' = (buf @ take (limit - length buf) p) @ concat (drop (limit - length buf) p # ps)"
        using 1(2) [of p ps] run p \<open>find_sub delim buf = None \<and> _\<close> by simp
      then show ?thesis using p by simp
    qed
  next
    case False
    then show ?thesis using run by (auto split: option.splits if_splits list.splits)
  qed
qed

lemma read_exactly_whole: "read_exactly limit n buf pieces = (ok, buf', pieces') \<Longrightarrow> buf' @ concat pieces' = buf @ concat pieces"
proof (induction limit n buf pieces rule: read_exactly.induct)
  case (2 limit n buf p ps)
  then show ?case by (auto simp: Let_def split: if_splits)
qed simp

lemma check_until_whole:
  "check_until limit (read_until limit delim buf pieces) = Inr (till, buf', pieces') \<Longrightarrow> buf' @ concat pieces' = buf @ concat pieces"
  using read_until_whole [of limit delim buf pieces "Until till"]
  by (auto simp: check_until_def split: prod.splits until_result.splits if_splits)

lemma read_more_whole: "read_more limit n buf pieces = Inr (buf', pieces') \<Longrightarrow> buf' @ concat pieces' = buf @ concat pieces"
  using read_exactly_whole [of limit n buf pieces] by (auto simp: read_more_def split: prod.splits if_splits)

lemma chunk_size_shorter: "chunk_size till buf = Inr (n, needed, rest) \<Longrightarrow> length rest < length buf"
  by (auto simp: chunk_size_def find_char_def Let_def split: option.splits if_splits)

lemma read_chunk_shorter: "read_chunk alloc limit n buf chunks = Inr (buf', chunks') \<Longrightarrow> length buf' \<le> length buf"
  by (auto simp: read_chunk_def Let_def split: if_splits)

subsection \<open>Chunks and requests\<close>

function read_chunks :: "(nat \<Rightarrow> bool) \<Rightarrow> nat \<Rightarrow> string \<Rightarrow> string list \<Rightarrow> string \<Rightarrow> read_outcome" where
  "read_chunks alloc limit buf pieces chunks =
     (case check_until limit (read_until limit crlf buf pieces) of
        Inl out \<Rightarrow> out
      | Inr (till, buf1, pieces1) \<Rightarrow>
          (case chunk_size till buf1 of
             Inl out \<Rightarrow> out
           | Inr (n, needed, rest) \<Rightarrow>
               (case read_more limit needed rest pieces1 of
                  Inl out \<Rightarrow> out
                | Inr (buf2, pieces2) \<Rightarrow>
                    (case read_chunk alloc limit n buf2 chunks of
                       Inl out \<Rightarrow> out
                     | Inr (buf3, chunks3) \<Rightarrow> read_chunks alloc limit buf3 pieces2 chunks3))))"
  by pat_completeness auto
termination
proof (relation "measure (\<lambda>(alloc, limit, buf, pieces, chunks). length buf + length (concat pieces))", simp, goal_cases)
  case (1 alloc limit buf pieces chunks x till y buf1 pieces1 z n w needed rest v buf2 pieces2 u buf3 chunks3)
  have "length (buf1 @ concat pieces1) = length (buf @ concat pieces)" using check_until_whole [of limit crlf buf pieces] 1 by metis
  moreover have "length (buf2 @ concat pieces2) = length (rest @ concat pieces1)" using read_more_whole [of limit needed rest pieces1] 1 by metis
  moreover have "length rest < length buf1" using chunk_size_shorter 1 by blast
  moreover have "length buf3 \<le> length buf2" using read_chunk_shorter 1 by blast
  ultimately show ?case by simp
qed

declare read_chunks.simps [simp del]

definition read_request :: "(nat \<Rightarrow> bool) \<Rightarrow> nat \<Rightarrow> string list \<Rightarrow> (http_request \<times> read_outcome) option" where
  "read_request alloc limit pieces =
     (case check_until limit (read_until limit (crlf @ crlf) [] pieces) of
        Inl out \<Rightarrow> Some (http_request, out)
      | Inr (till, buf, pieces1) \<Rightarrow>
          (case RequestMessage_parse (istream buf) http_request of
             None \<Rightarrow> None
           | Some (ok, rq, st) \<Rightarrow>
               if \<not> ok then Some (rq, ProtocolError)
               else (case field_value ''Content-Length'' (header rq) of
                       Some v \<Rightarrow>
                         (case stoul v of
                            None \<Rightarrow> Some (rq, ProtocolError)
                          | Some n \<Rightarrow>
                              (case read_more limit (n - (length buf - till)) (chars st) pieces1 of
                                 Inl out \<Rightarrow> Some (rq, out)
                               | Inr (content, _) \<Rightarrow> Some (rq, Content content)))
                     | None \<Rightarrow>
                         if field_value ''Transfer-Encoding'' (header rq) = Some ''chunked''
                         then Some (rq, read_chunks alloc limit (chars st) pieces1 [])
                         else Some (rq, Content (chars st)))))"

section \<open>Delimiters\<close>

lemma prefix_split: "a @ b = c @ d \<Longrightarrow> length c \<le> length a \<Longrightarrow> \<exists>u. a = c @ u \<and> u @ b = d"
  by (auto simp: append_eq_append_conv2)

lemma find_sub_bound: "find_sub pat s = Some i \<Longrightarrow> i + length pat \<le> length s"
proof (induction s arbitrary: i)
  case (Cons c cs)
  then show ?case
    by (cases "take (length pat) (c # cs) = pat") (auto dest: arg_cong [of _ _ length] split: if_splits)
qed (simp split: if_splits)

lemma find_sub_append: "find_sub pat s = Some i \<Longrightarrow> find_sub pat (s @ t) = Some i"
proof (induction s arbitrary: i)
  case Nil
  then show ?case by (cases t) (auto split: if_splits)
next
  case (Cons c cs)
  show ?case
  proof (cases "take (length pat) (c # cs) = pat")
    case True
    then have "length pat \<le> length (c # cs)" by (metis length_take min.cobounded1)
    then have "take (length pat) ((c # cs) @ t) = take (length pat) (c # cs)" by (subst take_append) simp
    then show ?thesis using True Cons.prems by simp
  next
    case False
    then obtain k where k: "find_sub pat cs = Some k" "i = Suc k" using Cons.prems by auto
    have "length pat \<le> length cs" using find_sub_bound [OF k(1)] by simp
    then have "take (length pat) ((c # cs) @ t) = take (length pat) (c # cs)" by (subst take_append) simp
    then show ?thesis using False Cons.IH [OF k(1)] k(2) by simp
  qed
qed

lemma find_sub_skip:
  "\<forall>k<n. take (length pat) (drop k s) \<noteq> pat \<Longrightarrow> n \<le> length s \<Longrightarrow> find_sub pat s = map_option ((+) n) (find_sub pat (drop n s))"
proof (induction n arbitrary: s)
  case 0
  show ?case by (simp add: option.map_ident)
next
  case (Suc n)
  then obtain c cs where s: "s = c # cs" by (cases s) auto
  have "take (length pat) s \<noteq> pat" using Suc.prems(1) by (metis drop_0 zero_less_Suc)
  moreover have "\<forall>k<n. take (length pat) (drop k cs) \<noteq> pat" using Suc.prems(1) s by fastforce
  ultimately show ?case using Suc.IH [of cs] Suc.prems(2) s by (simp add: option.map_comp comp_def)
qed

text \<open>Whatever the pieces, the first delimiter of the whole text is found, and reading stops no earlier than there.\<close>

lemma read_until_finds:
  "find_sub delim (buf @ concat pieces) = Some i \<Longrightarrow> length (buf @ concat pieces) < limit \<Longrightarrow>
     \<exists>buf' pieces'. read_until limit delim buf pieces = (Until (i + length delim), buf', pieces') \<and>
       buf' @ concat pieces' = buf @ concat pieces \<and> i + length delim \<le> length buf'"
proof (induction limit delim buf pieces rule: read_until.induct)
  case (1 limit delim buf pieces)
  show ?case
  proof (cases "find_sub delim buf")
    case (Some j)
    then show ?thesis using find_sub_append [OF Some, of "concat pieces"] find_sub_bound [OF Some] 1(3)
      by (simp add: read_until.simps)
  next
    case None
    then obtain p ps where p: "pieces = p # ps" using 1(3) by (cases pieces) auto
    then show ?thesis using 1(1) [OF None _ p] 1(3,4) None by (subst read_until.simps) simp
  qed
qed

lemma check_until_finds:
  assumes "find_sub delim (buf @ concat pieces) = Some i" "length (buf @ concat pieces) < limit"
  obtains buf' pieces' where "check_until limit (read_until limit delim buf pieces) = Inr (i + length delim, buf', pieces')"
    "buf' @ concat pieces' = buf @ concat pieces" "i + length delim \<le> length buf'"
proof -
  obtain buf' pieces' where r: "read_until limit delim buf pieces = (Until (i + length delim), buf', pieces')"
    "buf' @ concat pieces' = buf @ concat pieces" "i + length delim \<le> length buf'"
    using read_until_finds [OF assms] by blast
  have "length buf' < limit" using r(2) assms(2) by (metis length_append le_add1 order.strict_trans1)
  then show thesis using that r by (simp add: check_until_def)
qed

lemma read_exactly_enough:
  "n \<le> length (concat pieces) \<Longrightarrow> length buf + n < limit \<Longrightarrow>
     \<exists>pieces'. read_exactly limit n buf pieces = (True, buf @ take n (concat pieces), pieces')"
proof (induction limit n buf pieces rule: read_exactly.induct)
  case (2 limit n buf p ps)
  then show ?case by (auto simp: Let_def min_def)
qed simp

text \<open>Enough characters in the buffer afterwards, and still those of the whole text.\<close>

lemma read_more_enough:
  assumes "n \<le> length (concat pieces)" "length (buf @ concat pieces) < limit"
  obtains buf' pieces' where "read_more limit n buf pieces = Inr (buf', pieces')" "buf' @ concat pieces' = buf @ concat pieces"
    "length buf' = length buf + n"
proof (cases "n = 0")
  case True
  then show thesis using that [of buf pieces] by (simp add: read_more_def)
next
  case False
  obtain pieces' where r: "read_exactly limit n buf pieces = (True, buf @ take n (concat pieces), pieces')"
    using read_exactly_enough [of n pieces buf limit] assms by auto
  have l: "length (buf @ take n (concat pieces)) < limit" using assms by simp
  show thesis
  proof (rule that)
    show "read_more limit n buf pieces = Inr (buf @ take n (concat pieces), pieces')"
      using False r l by (simp add: read_more_def)
    show "(buf @ take n (concat pieces)) @ concat pieces' = buf @ concat pieces" by (rule read_exactly_whole [OF r])
    show "length (buf @ take n (concat pieces)) = length buf + n" using assms(1) by simp
  qed
qed

section \<open>Chunked content\<close>

fun to_hex :: "nat \<Rightarrow> string" where
  "to_hex n = (if n < 16 then [hex_char n] else to_hex (n div 16) @ [hex_char (n mod 16)])"

declare to_hex.simps [simp del]

definition plain_hex :: "char \<Rightarrow> bool" where
  "plain_hex c \<longleftrightarrow> is_hex c \<and> \<not> is_space c \<and> c \<noteq> CHR ''-'' \<and> c \<noteq> CHR ''+'' \<and> tolower c \<noteq> CHR ''x'' \<and> c \<noteq> CHR 0x0D \<and> c \<noteq> CHR ''\<newline>''"

lemma hex_char_plain: "n < 16 \<Longrightarrow> plain_hex (hex_char n)"
proof -
  have "list_all (\<lambda>n. plain_hex (hex_char n)) [0..<16]" by code_simp
  then show "n < 16 \<Longrightarrow> plain_hex (hex_char n)" by (simp add: list_all_iff)
qed

lemma to_hex_plain: "\<forall>c \<in> set (to_hex n). plain_hex c"
proof (induction n rule: to_hex.induct)
  case (1 n)
  then show ?case by (subst to_hex.simps) (auto simp: hex_char_plain)
qed

lemma hex_number_to_hex: "hex_number (to_hex n) = n"
proof (induction n rule: to_hex.induct)
  case (1 n)
  then show ?case by (subst to_hex.simps) (auto simp: hex_number_def hex_char_facts(1))
qed

lemma to_hex_nonempty: "to_hex n \<noteq> []"
  by (subst to_hex.simps) simp

lemma hex_digits_plain:
  assumes "\<forall>c \<in> set s. plain_hex c"
  shows "hex_digits s = s"
proof -
  have "takeWhile is_hex s = s" using assms by (auto simp: takeWhile_eq_all_conv plain_hex_def)
  then show ?thesis using assms by (auto simp: hex_digits_def plain_hex_def split: list.splits)
qed

lemma stoul16_to_hex:
  assumes "n < 2 ^ 64"
  shows "stoul16 (to_hex n) = Some n"
proof -
  obtain c cs where c: "to_hex n = c # cs" using to_hex_nonempty by (cases "to_hex n") auto
  then have "plain_hex c" using to_hex_plain [of n] by simp
  then show ?thesis using assms c hex_digits_plain [OF to_hex_plain, of n] hex_number_to_hex [of n]
    by (simp add: stoul16_def Let_def plain_hex_def)
qed

text \<open>A chunk as it is sent; the empty one ends the content.\<close>

definition chunk_text :: "string \<Rightarrow> string" where
  "chunk_text c = to_hex (length c) @ crlf @ c @ crlf"

definition chunked_text :: "string list \<Rightarrow> string" where
  "chunked_text cs = concat (map chunk_text (cs @ [[]]))"

lemma find_crlf: "CHR 0x0D \<notin> set s \<Longrightarrow> find_sub crlf (s @ crlf @ r) = Some (length s)"
  by (induction s) (auto simp: crlf_def)

lemma chunk_size_text:
  assumes "n < 2 ^ 63"
  shows "chunk_size (length (to_hex n) + 2) (to_hex n @ crlf @ rest) =
     Inr (n, (if 2 + n > length rest then 2 + n - length rest else 0), rest)"
proof -
  have "CHR ''\<newline>'' \<notin> set (to_hex n @ [CHR 0x0D])" using to_hex_plain [of n] by (auto simp: plain_hex_def)
  then have "find_char (CHR ''\<newline>'') (to_hex n @ crlf @ rest) = Some (length (to_hex n) + 1)"
    using find_char_append [of "CHR ''\<newline>''" "to_hex n @ [CHR 0x0D]" rest] by (simp add: crlf_def)
  then show ?thesis using assms by (simp add: chunk_size_def crlf_def stoul16_to_hex butlast_append)
qed

text \<open>The first chunk of the text, with its line end, gets into the buffer.\<close>

lemma chunk_received:
  assumes "buf @ concat pieces = chunk_text c @ r" "length c < 2 ^ 63" "length (buf @ concat pieces) < limit"
  obtains till buf1 pieces1 needed rest buf2 pieces2 where
    "check_until limit (read_until limit crlf buf pieces) = Inr (till, buf1, pieces1)"
    "chunk_size till buf1 = Inr (length c, needed, rest)" "read_more limit needed rest pieces1 = Inr (c @ crlf @ buf2, pieces2)"
    "buf2 @ concat pieces2 = r"
proof -
  let ?h = "to_hex (length c)"
  have h: "CHR 0x0D \<notin> set ?h" using to_hex_plain [of "length c"] by (auto simp: plain_hex_def)
  have "find_sub crlf (buf @ concat pieces) = Some (length ?h)" unfolding assms(1) chunk_text_def using find_crlf [OF h] by simp
  then obtain buf1 pieces1 where b1: "check_until limit (read_until limit crlf buf pieces) = Inr (length ?h + length crlf, buf1, pieces1)"
    "buf1 @ concat pieces1 = buf @ concat pieces" "length ?h + length crlf \<le> length buf1"
    using assms(3) by (rule check_until_finds)
  obtain rest where rest: "buf1 = ?h @ crlf @ rest" and r1: "rest @ concat pieces1 = c @ crlf @ r"
    using prefix_split [of buf1 "concat pieces1" "?h @ crlf" "c @ crlf @ r"] b1(2,3) assms(1) by (auto simp: chunk_text_def)
  let ?n = "if 2 + length c > length rest then 2 + length c - length rest else 0"
  have cs: "chunk_size (length ?h + length crlf) buf1 = Inr (length c, ?n, rest)"
    using chunk_size_text [OF assms(2), of rest] by (simp add: rest crlf_def)
  have "length (rest @ concat pieces1) = length c + 2 + length r" unfolding r1 by (simp add: crlf_def)
  then have n: "?n \<le> length (concat pieces1)" by auto
  have "length (rest @ concat pieces1) < limit" using b1(2) assms(3) rest by (metis (no_types, lifting) append.assoc length_append le_add2 order.strict_trans1)
  then obtain b pieces2 where b: "read_more limit ?n rest pieces1 = Inr (b, pieces2)" "b @ concat pieces2 = rest @ concat pieces1"
    "length b = length rest + ?n" using read_more_enough [OF n] by blast
  have "length (c @ crlf) \<le> length b" using b(3) by (simp add: crlf_def)
  then obtain buf2 where "b = c @ crlf @ buf2" using prefix_split [of b "concat pieces2" "c @ crlf" r] b(2) r1 by auto
  then show thesis using that [OF b1(1) cs] b(1,2) r1 by simp
qed

lemma read_chunks_text:
  "buf @ concat pieces = chunked_text cs @ extra \<Longrightarrow> \<forall>c \<in> set cs. c \<noteq> [] \<and> length c < 2 ^ 63 \<and> alloc (length c) \<Longrightarrow>
     length chunks + length (buf @ concat pieces) < limit \<Longrightarrow>
     \<exists>pre post. extra = pre @ post \<and> read_chunks alloc limit buf pieces chunks = Content (pre @ chunks @ concat cs)"
proof (induction cs arbitrary: buf pieces chunks)
  case Nil
  have t: "buf @ concat pieces = chunk_text [] @ extra" using Nil.prems(1) by (simp add: chunked_text_def)
  have l0: "length (buf @ concat pieces) < limit" using Nil.prems(3) by simp
  have z: "length ([] :: string) < 2 ^ 63" by simp
  obtain till buf1 pieces1 needed rest buf2 pieces2 where r:
    "check_until limit (read_until limit crlf buf pieces) = Inr (till, buf1, pieces1)"
    "chunk_size till buf1 = Inr (0, needed, rest)" "read_more limit needed rest pieces1 = Inr (crlf @ buf2, pieces2)"
    "buf2 @ concat pieces2 = extra"
    by (rule chunk_received [OF t z l0]) (use that in simp)
  have "length (buf2 @ concat pieces2) \<le> length (buf @ concat pieces)" using t r(4) by simp
  then have "length chunks + length buf2 < limit" using Nil.prems(3) by simp
  then have "read_chunks alloc limit buf pieces chunks = Content (buf2 @ chunks)"
    using r(1-3) by (subst read_chunks.simps) (simp add: read_chunk_def crlf_def)
  then show ?case using r(4) by auto
next
  case (Cons c cs)
  have c: "c \<noteq> []" "length c < 2 ^ 63" "alloc (length c)" using Cons.prems(2) by auto
  have t: "buf @ concat pieces = chunk_text c @ chunked_text cs @ extra" using Cons.prems(1) by (simp add: chunked_text_def)
  have l0: "length (buf @ concat pieces) < limit" using Cons.prems(3) by simp
  obtain till buf1 pieces1 needed rest buf2 pieces2 where r:
    "check_until limit (read_until limit crlf buf pieces) = Inr (till, buf1, pieces1)"
    "chunk_size till buf1 = Inr (length c, needed, rest)" "read_more limit needed rest pieces1 = Inr (c @ crlf @ buf2, pieces2)"
    "buf2 @ concat pieces2 = chunked_text cs @ extra"
    by (rule chunk_received [OF t c(2) l0])
  have len: "length (buf @ concat pieces) = length (chunk_text c) + length (buf2 @ concat pieces2)" using t r(4) by simp
  have l: "length (chunks @ c) + length (buf2 @ concat pieces2) < limit"
    using Cons.prems(3) len by (simp add: chunk_text_def)
  then have "read_chunks alloc limit buf pieces chunks = read_chunks alloc limit buf2 pieces2 (chunks @ c)"
    using r(1-3) c by (subst read_chunks.simps) (simp add: read_chunk_def crlf_def)
  then show ?case using Cons.IH [OF r(4) _ l] Cons.prems(2) by simp
qed

section \<open>Requests are read completely\<close>

lemma skip_line:
  "CHR ''\<newline>'' \<notin> set l \<Longrightarrow> \<forall>t. r \<noteq> CHR 0x0D # CHR ''\<newline>'' # t \<Longrightarrow>
     find_sub (crlf @ crlf) (l @ CHR ''\<newline>'' # r) = map_option ((+) (length l + 1)) (find_sub (crlf @ crlf) r)"
proof (induction l)
  case Nil
  then show ?case by (simp add: crlf_def)
next
  case (Cons c l)
  have "take (length (crlf @ crlf)) (c # l @ CHR ''\<newline>'' # r) \<noteq> crlf @ crlf"
  proof
    assume m: "take (length (crlf @ crlf)) (c # l @ CHR ''\<newline>'' # r) = crlf @ crlf"
    then have "l = []" using Cons.prems(1) by (cases l) (auto simp: crlf_def numeral_eq_Suc)
    then show False using m Cons.prems(2) by (cases r; cases "tl r") (auto simp: crlf_def numeral_eq_Suc)
  qed
  then show ?case unfolding append_Cons find_sub.simps(2) using Cons by (simp add: option.map_comp comp_def)
qed

lemma skip_last:
  "CHR ''\<newline>'' \<notin> set l \<Longrightarrow> find_sub (crlf @ crlf) (l @ crlf @ crlf @ r) = Some (length l)"
proof (induction l)
  case (Cons c l)
  have "take (length (crlf @ crlf)) (c # l @ crlf @ crlf @ r) \<noteq> crlf @ crlf"
    using Cons.prems by (cases l) (auto simp: crlf_def numeral_eq_Suc)
  then show ?case unfolding append_Cons find_sub.simps(2) using Cons by simp
qed (simp add: crlf_def)

definition sent_line :: "string \<Rightarrow> bool" where
  "sent_line l \<longleftrightarrow> CHR ''\<newline>'' \<notin> set l \<and> l \<noteq> [CHR 0x0D] \<and> (\<exists>k. l = k @ [CHR 0x0D])"

lemma find_header_end:
  "ls \<noteq> [] \<Longrightarrow> \<forall>l \<in> set ls. sent_line l \<Longrightarrow>
     \<exists>i. find_sub (crlf @ crlf) (unlines ls @ crlf @ r) = Some i \<and> i + 2 = length (unlines ls)"
proof (induction ls)
  case (Cons l ls)
  obtain k where k: "l = k @ [CHR 0x0D]" "CHR ''\<newline>'' \<notin> set k" using Cons.prems(2) by (auto simp: sent_line_def)
  show ?case
  proof (cases ls)
    case Nil
    then show ?thesis using skip_last [OF k(2), of r] k(1) by (simp add: unlines_def crlf_def)
  next
    case (Cons m ms)
    then obtain i where i: "find_sub (crlf @ crlf) (unlines ls @ crlf @ r) = Some i" "i + 2 = length (unlines ls)"
      using Cons.IH Cons.prems by auto
    have m: "sent_line m" using Cons Cons.prems(2) by simp
    have "\<forall>t. unlines ls @ crlf @ r \<noteq> CHR 0x0D # CHR ''\<newline>'' # t"
    proof (intro allI notI)
      fix t assume "unlines ls @ crlf @ r = CHR 0x0D # CHR ''\<newline>'' # t"
      then have "m @ CHR ''\<newline>'' # unlines ms @ crlf @ r = [CHR 0x0D] @ CHR ''\<newline>'' # t" by (simp add: Cons unlines_def)
      then have "m = [CHR 0x0D]" using m by (cases m; cases "tl m") (auto simp: sent_line_def)
      then show False using m by (simp add: sent_line_def)
    qed
    then have "find_sub (crlf @ crlf) (l @ CHR ''\<newline>'' # unlines ls @ crlf @ r) = Some (length l + 1 + i)"
      using skip_line [of l "unlines ls @ crlf @ r"] i(1) Cons.prems(2) by (simp add: sent_line_def)
    then show ?thesis using i(2) by (simp add: unlines_def)
  qed
qed simp

lemma find_request_end:
  assumes "request_ok rq"
  shows "\<exists>i. find_sub (crlf @ crlf) (request_text rq @ r) = Some i \<and> i + length (crlf @ crlf) = length (request_text rq)"
proof -
  let ?first = "http_method rq @ '' '' @ target_text rq @ '' HTTP/'' @ http_version rq @ [CHR 0x0D]"
  let ?ls = "?first # map field_line (header rq)"
  have "sent_line ?first"
    using assms by (auto simp: sent_line_def request_ok_def word_def target_text_def append_eq_Cons_conv)
  moreover have "sent_line (field_line f)" if "sendable f" for f
    using that by (auto simp: sent_line_def field_line_def sendable_def append_eq_Cons_conv)
  ultimately have "\<forall>l \<in> set ?ls. sent_line l" using assms by (auto simp: request_ok_def)
  then obtain i where i: "find_sub (crlf @ crlf) (unlines ?ls @ crlf @ r) = Some i" "i + 2 = length (unlines ?ls)"
    using find_header_end [of ?ls r] by blast
  have t: "request_text rq = unlines ?ls @ crlf"
    by (simp add: request_text_def header_text_def unlines_def field_line_def crlf_def comp_def)
  have "length (request_text rq) = length (unlines ?ls) + 2" unfolding t by (simp add: crlf_def)
  then have "i + length (crlf @ crlf) = length (request_text rq)" using i(2) by (simp add: crlf_def)
  then show ?thesis using i(1) t by auto
qed

text \<open>The first line and the header get into the buffer and are parsed; what follows them is the content so far.\<close>

lemma request_received:
  assumes "request_ok rq" "concat pieces = request_text rq @ r" "length (concat pieces) < limit"
  obtains rest pieces1 where
    "check_until limit (read_until limit (crlf @ crlf) [] pieces) = Inr (length (request_text rq), request_text rq @ rest, pieces1)"
    "RequestMessage_parse (istream (request_text rq @ rest)) http_request = Some (True, rq, istream rest)"
    "rest @ concat pieces1 = r"
proof -
  obtain i where i: "find_sub (crlf @ crlf) ([] @ concat pieces) = Some i" "i + length (crlf @ crlf) = length (request_text rq)"
    using find_request_end [OF assms(1), of r] assms(2) by auto
  have l: "length ([] @ concat pieces) < limit" using assms(3) by simp
  obtain buf pieces1 where b: "check_until limit (read_until limit (crlf @ crlf) [] pieces) = Inr (length (request_text rq), buf, pieces1)"
    "buf @ concat pieces1 = request_text rq @ r" "length (request_text rq) \<le> length buf"
    using check_until_finds [OF i(1) l] i(2) assms(2) by (metis append_Nil)
  obtain rest where rest: "buf = request_text rq @ rest" using prefix_split [OF b(2,3)] by blast
  have "RequestMessage_parse (istream (request_text rq @ rest)) http_request = Some (True, rq, istream rest)"
    using request_roundtrip [OF assms(1), of rest http_request] by (cases rq) (simp add: http_request_def)
  then show thesis using that b(1,2) rest by simp
qed

text \<open>
  A request with chunked content that arrives in pieces of any size is handed over with the whole content. Characters that
  follow it and have already been received come first in the content.
\<close>

theorem chunked_request_read:
  assumes "request_ok rq" "field_value ''Content-Length'' (header rq) = None" "field_value ''Transfer-Encoding'' (header rq) = Some ''chunked''"
    and "\<forall>c \<in> set cs. c \<noteq> [] \<and> length c < 2 ^ 63 \<and> alloc (length c)"
    and "concat pieces = request_text rq @ chunked_text cs @ extra" "length (concat pieces) < limit"
  shows "\<exists>pre post. extra = pre @ post \<and> read_request alloc limit pieces = Some (rq, Content (pre @ concat cs))"
proof -
  obtain rest pieces1 where r:
    "check_until limit (read_until limit (crlf @ crlf) [] pieces) = Inr (length (request_text rq), request_text rq @ rest, pieces1)"
    "RequestMessage_parse (istream (request_text rq @ rest)) http_request = Some (True, rq, istream rest)"
    "rest @ concat pieces1 = chunked_text cs @ extra"
    using assms(1,5,6) by (rule request_received)
  have "length ([] :: string) + length (rest @ concat pieces1) < limit" using assms(5,6) r(3) by simp
  then obtain pre post where "extra = pre @ post" "read_chunks alloc limit rest pieces1 [] = Content (pre @ concat cs)"
    using read_chunks_text [OF r(3) assms(4), of "[]" limit] by auto
  then show ?thesis using r(1,2) assms(2,3) by (auto simp: read_request_def istream_def)
qed

theorem request_read:
  assumes "request_ok rq" "field_value ''Content-Length'' (header rq) = Some (to_dec (length body))"
    and "concat pieces = request_text rq @ body @ extra" "length (concat pieces) < limit" "length (concat pieces) < 2 ^ 64"
  shows "\<exists>pre post. extra = pre @ post \<and> read_request alloc limit pieces = Some (rq, Content (body @ pre))"
proof -
  obtain rest pieces1 where r:
    "check_until limit (read_until limit (crlf @ crlf) [] pieces) = Inr (length (request_text rq), request_text rq @ rest, pieces1)"
    "RequestMessage_parse (istream (request_text rq @ rest)) http_request = Some (True, rq, istream rest)"
    "rest @ concat pieces1 = body @ extra"
    using assms(1,3,4) by (rule request_received)
  let ?n = "length body - length rest"
  have "length (rest @ concat pieces1) = length body + length extra" unfolding r(3) by simp
  then have n: "?n \<le> length (concat pieces1)" by simp
  have l: "length (rest @ concat pieces1) < limit" using assms(3,4) r(3) by simp
  obtain b pieces2 where b: "read_more limit ?n rest pieces1 = Inr (b, pieces2)" "b @ concat pieces2 = rest @ concat pieces1"
    "length b = length rest + ?n" using read_more_enough [OF n l] by blast
  have "length body < 2 ^ 64" using assms(3,5) by simp
  then have "read_request alloc limit pieces = Some (rq, Content b)"
    using r(1,2) assms(2) b(1) by (simp add: read_request_def istream_def stoul_to_dec)
  moreover have "b @ concat pieces2 = body @ extra" "length body \<le> length b" using b(2,3) r(3) by simp_all
  then obtain pre where "b = body @ pre" "pre @ concat pieces2 = extra" using prefix_split by blast
  ultimately show ?thesis by blast
qed

text \<open>Two chunks, cut after ten characters.\<close>

definition demo_request :: http_request where
  "demo_request = \<lparr>http_method = ''POST'', path = ''/x'', query_string = [], http_version = ''1.1'',
     header = [(''Transfer-Encoding'', ''chunked'')]\<rparr>"

definition demo_text :: string where
  "demo_text = request_text demo_request @ chunked_text [''ab'', ''c'']"

lemma demo_request_ok: "request_ok demo_request"
  by (simp add: demo_request_def request_ok_def word_def sendable_def)

lemma demo_request_fields:
  "field_value ''Content-Length'' (header demo_request) = None" "field_value ''Transfer-Encoding'' (header demo_request) = Some ''chunked''"
  by (simp_all add: demo_request_def field_value_def case_insensitive_equal_def)

theorem chunked_request_read_witness:
  "read_request (\<lambda>_. True) (length demo_text + 1) [take 10 demo_text, drop 10 demo_text] = Some (demo_request, Content ''abc'')"
proof -
  have w: "concat [take 10 demo_text, drop 10 demo_text] = request_text demo_request @ chunked_text [''ab'', ''c''] @ []"
    unfolding demo_text_def [symmetric] append_Nil2 by simp
  have l: "length (concat [take 10 demo_text, drop 10 demo_text]) < length demo_text + 1" by simp
  have c: "\<forall>c \<in> set [''ab'', ''c'']. c \<noteq> [] \<and> length c < 2 ^ 63 \<and> (\<lambda>_. True) (length c)" by simp
  show ?thesis using chunked_request_read [OF demo_request_ok demo_request_fields c w l] by simp
qed

definition plain_request :: http_request where
  "plain_request = \<lparr>http_method = ''POST'', path = ''/x'', query_string = ''y'', http_version = ''1.0'', header = [(''content-length'', ''2'')]\<rparr>"

theorem request_read_witness:
  "\<exists>pre post. ''GET'' = pre @ post \<and> read_request (\<lambda>_. True) 1000 [request_text plain_request @ ''ab'' @ ''GET''] =
     Some (plain_request, Content (''ab'' @ pre))"
proof (rule request_read)
  show "request_ok plain_request" by (simp add: plain_request_def request_ok_def word_def sendable_def)
  show "field_value ''Content-Length'' (header plain_request) = Some (to_dec (length ''ab''))"
    by code_simp
qed (simp_all add: plain_request_def request_text_def target_text_def header_text_def crlf_def)

section \<open>Reading comes to an end\<close>

lemma split_lines: "\<exists>ls last_line. s = unlines ls @ last_line \<and> (\<forall>l \<in> set (ls @ [last_line]). CHR ''\<newline>'' \<notin> set l)"
proof (induction s)
  case Nil
  show ?case by (intro exI [of _ "[]"]) (simp add: unlines_def)
next
  case (Cons c s)
  then obtain ls last_line where s: "s = unlines ls @ last_line" "\<forall>l \<in> set (ls @ [last_line]). CHR ''\<newline>'' \<notin> set l" by blast
  show ?case
  proof (cases "c = CHR ''\<newline>''")
    case True
    then show ?thesis using s by (intro exI [of _ "[] # ls"] exI [of _ last_line]) (auto simp: unlines_def)
  next
    case False
    show ?thesis
    proof (cases ls)
      case Nil
      then show ?thesis using s False by (intro exI [of _ "[]"] exI [of _ "c # last_line"]) (auto simp: unlines_def)
    next
      case (Cons l ls')
      then show ?thesis using s False by (intro exI [of _ "(c # l) # ls'"] exI [of _ last_line]) (auto simp: unlines_def)
    qed
  qed
qed

lemma split_lines_ended:
  assumes "a = [] \<or> last a = CHR ''\<newline>''"
  shows "\<exists>ls. a = unlines ls \<and> (\<forall>l \<in> set ls. CHR ''\<newline>'' \<notin> set l)"
proof -
  obtain ls k where a: "a = unlines ls @ k" "\<forall>l \<in> set (ls @ [k]). CHR ''\<newline>'' \<notin> set l" using split_lines by blast
  have "k = []" using a assms by (cases k rule: rev_cases) auto
  then show ?thesis using a by auto
qed

lemma header_with_blank_line:
  assumes "a = [] \<or> last a = CHR ''\<newline>''"
  shows "HttpHeader_parse (istream (a @ crlf @ b)) \<noteq> None"
proof -
  obtain la where la: "a = unlines la" "\<forall>l \<in> set la. CHR ''\<newline>'' \<notin> set l" using split_lines_ended [OF assms] by blast
  obtain lb k where lb: "b = unlines lb @ k" "\<forall>l \<in> set (lb @ [k]). CHR ''\<newline>'' \<notin> set l" using split_lines by blast
  have "a @ crlf @ b = unlines (la @ [CHR 0x0D] # lb) @ k" using la lb by (simp add: unlines_def crlf_def)
  moreover have "\<forall>l \<in> set ((la @ [CHR 0x0D] # lb) @ [k]). CHR ''\<newline>'' \<notin> set l" using la(2) lb(2) by auto
  ultimately show ?thesis using header_parse_returns [of "la @ [CHR 0x0D] # lb" k] by auto
qed

lemma find_sub_split: "find_sub pat s = Some i \<Longrightarrow> \<exists>y. s = take i s @ pat @ y"
proof (induction s arbitrary: i)
  case (Cons c cs)
  show ?case
  proof (cases "take (length pat) (c # cs) = pat")
    case True
    then show ?thesis using Cons.prems by (metis append_Nil append_take_drop_id find_sub.simps(2) option.inject take_0)
  qed (use Cons in auto)
qed (auto split: if_splits)

lemma read_until_at: "read_until limit delim buf pieces = (Until till, buf', pieces') \<Longrightarrow> \<exists>i. find_sub delim buf' = Some i \<and> till = i + length delim"
proof (induction limit delim buf pieces rule: read_until.induct)
  case (1 limit delim buf pieces)
  note run = 1(3) [unfolded read_until.simps [of limit delim buf pieces]]
  show ?case
  proof (cases "find_sub delim buf = None \<and> \<not> limit \<le> length buf \<and> pieces \<noteq> []")
    case True
    then obtain p ps where p: "pieces = p # ps" by (cases pieces) auto
    then show ?thesis using 1(1,2) [of p ps] run True by (cases "length buf + length p \<le> limit") simp_all
  next
    case False
    then show ?thesis using run by (auto split: option.splits if_splits list.splits)
  qed
qed

lemma request_parse_returns:
  assumes "find_sub (crlf @ crlf) buf = Some i"
  shows "RequestMessage_parse (istream buf) rq0 \<noteq> None"
proof -
  obtain x y where b: "buf = x @ crlf @ crlf @ y" using find_sub_split [OF assms] by auto
  then obtain l r where l: "buf = l @ CHR ''\<newline>'' # r" "CHR ''\<newline>'' \<notin> set l"
    using split_list_first [of "CHR ''\<newline>''" buf] by (auto simp: crlf_def)
  have "HttpHeader_parse (istream r) \<noteq> None"
  proof (cases "length l < length x")
    case True
    then obtain u where "x = (l @ [CHR ''\<newline>'']) @ u" "u @ crlf @ crlf @ y = r"
      using prefix_split [of x "crlf @ crlf @ y" "l @ [CHR ''\<newline>'']" r] b l(1) by auto
    then show ?thesis using header_with_blank_line [of "u @ crlf" y] by (simp add: crlf_def)
  next
    case False
    then obtain u where u: "l = x @ u" "u @ CHR ''\<newline>'' # r = crlf @ crlf @ y"
      using prefix_split [of l "CHR ''\<newline>'' # r" x "crlf @ crlf @ y"] b l(1) by auto
    then have "u = [CHR 0x0D]" "r = crlf @ y" using l(2) by (cases u; cases "tl u"; auto simp: crlf_def)+
    then show ?thesis using header_with_blank_line [of "[]" y] by simp
  qed
  moreover have "getline (istream buf) [] = (istream r, l)" using getline_line [OF l(2), of r "[]"] l(1) by simp
  ultimately show ?thesis by (auto simp: RequestMessage_parse_def Let_def split: option.splits prod.splits)
qed

text \<open>Whatever arrives, reading a request comes to an end.\<close>

theorem read_request_returns: "\<exists>out. read_request alloc limit pieces = Some out"
proof (cases "check_until limit (read_until limit (crlf @ crlf) [] pieces)")
  case (Inr r)
  then obtain till buf pieces1 where r: "r = (till, buf, pieces1)" by (cases r)
  then have "read_until limit (crlf @ crlf) [] pieces = (Until till, buf, pieces1)"
    using Inr by (auto simp: check_until_def split: prod.splits until_result.splits if_splits)
  then have "RequestMessage_parse (istream buf) http_request \<noteq> None" using read_until_at request_parse_returns by blast
  then show ?thesis using Inr r
    by (auto simp: read_request_def split: option.splits sum.splits prod.splits)
qed (simp add: read_request_def)

section \<open>A chunk size that overflows\<close>

text \<open>
  \<open>2 + length\<close> wraps round for the last two sizes, so the handler goes on at once to allocate the chunk, and the exception leaves the
  handler: one request is enough to end the thread that runs the IO service.
\<close>

theorem huge_chunk_throws:
  assumes "request_ok rq" "field_value ''Content-Length'' (header rq) = None" "field_value ''Transfer-Encoding'' (header rq) = Some ''chunked''"
    and "2 ^ 64 - 2 \<le> n" "n < 2 ^ 64" "x \<noteq> []"
    and "concat pieces = request_text rq @ to_hex n @ crlf @ x" "length (concat pieces) < limit"
  shows "read_request alloc limit pieces = Some (rq, Thrown)"
proof -
  obtain rest pieces1 where r:
    "check_until limit (read_until limit (crlf @ crlf) [] pieces) = Inr (length (request_text rq), request_text rq @ rest, pieces1)"
    "RequestMessage_parse (istream (request_text rq @ rest)) http_request = Some (True, rq, istream rest)"
    "rest @ concat pieces1 = to_hex n @ crlf @ x"
    using assms(1,7,8) by (rule request_received)
  have h: "CHR 0x0D \<notin> set (to_hex n)" "CHR ''\<newline>'' \<notin> set (to_hex n @ [CHR 0x0D])" using to_hex_plain [of n] by (auto simp: plain_hex_def)
  have f: "find_sub crlf (rest @ concat pieces1) = Some (length (to_hex n))" unfolding r(3) using find_crlf [OF h(1)] by simp
  have l: "length (rest @ concat pieces1) < limit" using r(3) assms(7,8) by simp
  obtain buf2 pieces2 where b: "check_until limit (read_until limit crlf rest pieces1) = Inr (length (to_hex n) + length crlf, buf2, pieces2)"
    "buf2 @ concat pieces2 = rest @ concat pieces1" "length (to_hex n) + length crlf \<le> length buf2"
    using f l by (rule check_until_finds)
  obtain u where u: "buf2 = to_hex n @ crlf @ u" "u @ concat pieces2 = x"
    using prefix_split [of buf2 "concat pieces2" "to_hex n @ crlf" x] b(2,3) r(3) by auto
  have e: "find_char (CHR ''\<newline>'') buf2 = Some (length (to_hex n) + 1)"
    using find_char_append [OF h(2), of u] by (simp add: u(1) crlf_def)
  define needed where "needed = (if (2 + n) mod 2 ^ 64 > length u then (2 + n) mod 2 ^ 64 - length u else 0)"
  have cs: "chunk_size (length (to_hex n) + length crlf) buf2 = Inr (n, needed, u)"
    using e assms(5) by (simp add: chunk_size_def u(1) crlf_def stoul16_to_hex butlast_append needed_def)
  have "(2 + n) mod 2 ^ 64 \<le> 1" using assms(4,5) by (simp add: mod_if le_diff_conv)
  moreover have "length x = length u + length (concat pieces2)" "length x > 0" using assms(6) by (simp_all flip: u(2))
  moreover have "m \<le> 1 \<Longrightarrow> l = a + b \<Longrightarrow> 0 < l \<Longrightarrow> (if a < m then m - a else 0) \<le> b" for m l a b :: nat by auto
  ultimately have n: "needed \<le> length (concat pieces2)" unfolding needed_def by blast
  have "length (u @ concat pieces2) < limit" unfolding u(2) using l r(3) by simp
  then obtain buf3 pieces3 where "read_more limit needed u pieces2 = Inr (buf3, pieces3)" using read_more_enough [OF n] by blast
  then have "read_chunks alloc limit rest pieces1 [] = Thrown"
    using b(1) cs assms(4) by (subst read_chunks.simps) (simp add: read_chunk_def)
  then show ?thesis using r(1,2) assms(2,3) by (simp add: read_request_def istream_def)
qed

theorem huge_chunk_throws_witness:
  "read_request (\<lambda>_. True) (length (request_text demo_request @ to_hex (2 ^ 64 - 1) @ crlf @ ''x'') + 1)
     [request_text demo_request @ to_hex (2 ^ 64 - 1) @ crlf @ ''x''] = Some (demo_request, Thrown)"
  by (rule huge_chunk_throws [OF demo_request_ok demo_request_fields, of "2 ^ 64 - 1" "''x''"]) simp_all

section \<open>Finding the handler\<close>

text \<open>
  Handlers are numbers; the resources are in the order of the map, and \<open>matches\<close> says whether a path matches a regular expression.
\<close>

record http_server =
  upgrades :: bool
  resources :: "(string \<times> (string \<times> nat) list) list"
  default_resource :: "(string \<times> nat) list"

datatype resource_found = Upgraded | Handler nat "string option" | NoHandler

fun find_in :: "(string \<Rightarrow> string \<Rightarrow> bool) \<Rightarrow> http_request \<Rightarrow> (string \<times> (string \<times> nat) list) list \<Rightarrow> (string \<times> nat) option" where
  "find_in matches rq [] = None"
| "find_in matches rq ((regex, methods) # rs) =
     (case map_of methods (http_method rq) of
        Some h \<Rightarrow> if matches regex (path rq) then Some (regex, h) else find_in matches rq rs
      | None \<Rightarrow> find_in matches rq rs)"

definition find_resource :: "(string \<Rightarrow> string \<Rightarrow> bool) \<Rightarrow> http_server \<Rightarrow> http_request \<Rightarrow> resource_found" where
  "find_resource matches v rq =
     (if upgrades v \<and> field_value ''Upgrade'' (header rq) \<noteq> None then Upgraded
      else (case find_in matches rq (resources v) of
              Some (regex, h) \<Rightarrow> Handler h (Some regex)
            | None \<Rightarrow> (case map_of (default_resource v) (http_method rq) of Some h \<Rightarrow> Handler h None | None \<Rightarrow> NoHandler)))"

section \<open>Responses\<close>

definition chunked_encoding :: "string \<times> string \<Rightarrow> bool" where
  "chunked_encoding f \<longleftrightarrow> case_insensitive_equal (fst f) ''transfer-encoding'' \<and> case_insensitive_equal (snd f) ''chunked''"

text \<open>Whether \<^verbatim>\<open>write_header\<close> adds the length itself.\<close>

definition adds_length :: "bool \<Rightarrow> fields \<Rightarrow> bool" where
  "adds_length close_connection_after_response hs \<longleftrightarrow>
     \<not> list_ex (\<lambda>f. case_insensitive_equal (fst f) ''content-length'') hs \<and> \<not> list_ex chunked_encoding hs \<and> \<not> close_connection_after_response"

definition write_header :: "bool \<Rightarrow> fields \<Rightarrow> nat \<Rightarrow> string" where
  "write_header close_after hs n =
     concat (map (\<lambda>f. fst f @ '': '' @ snd f @ crlf) hs) @
     (if adds_length close_after hs then ''Content-Length: '' @ to_dec n @ crlf @ crlf else crlf)"

definition response_write :: "bool \<Rightarrow> nat \<Rightarrow> string \<Rightarrow> fields \<Rightarrow> string" where
  "response_write close_after status content hs =
     ''HTTP/1.1 '' @ string_of_status status @ crlf @ write_header close_after hs (length content) @ content"

definition response_fields :: "bool \<Rightarrow> fields \<Rightarrow> nat \<Rightarrow> fields" where
  "response_fields close_after hs n = hs @ (if adds_length close_after hs then [(''Content-Length'', to_dec n)] else [])"

lemma status_text_plain:
  assumes "c \<in> set (map snd StatusCode)"
  shows "CHR ''\<newline>'' \<notin> set (string_of_status c)"
proof -
  have "list_all (\<lambda>t. CHR ''\<newline>'' \<notin> set t) (map snd status_texts)" by (simp add: status_texts_def)
  then have "\<forall>x \<in> set status_code_strings. CHR ''\<newline>'' \<notin> set (snd x)"
    by (auto simp: status_code_strings_zip list_all_iff dest!: set_zip_rightD)
  then show ?thesis by (cases "map_of status_code_strings c") (force simp: string_of_status_def dest: map_of_SomeD)+
qed

lemma to_dec_sendable: "sendable (''Content-Length'', to_dec n)"
proof -
  have "\<forall>c \<in> set (to_dec n). is_digit c" by (rule to_dec_digits)
  then have "CHR ''\<newline>'' \<notin> set (to_dec n)" "\<forall>c \<in> set (to_dec n). c \<noteq> CHR '' ''" by (auto simp: is_digit_def)
  then show ?thesis using to_dec_nonempty [of n] by (auto simp: sendable_def)
qed

text \<open>
  A response is read back by the parser of the client: its status, the fields it was given, a \<open>Content-Length\<close> of the content when
  there is no other way to tell its end, and then the content.
\<close>

theorem response_read_back:
  assumes "status \<in> set (map snd StatusCode)" "\<forall>f \<in> set hs. sendable f"
  shows "ResponseMessage_parse (istream (response_write close_after status content hs)) r0 =
     Some (True, (''1.1'', string_of_status status, response_fields close_after hs (length content)), istream content)"
proof -
  have t: "response_write close_after status content hs =
      response_text ''1.1'' (string_of_status status) (response_fields close_after hs (length content)) @ content"
    by (simp add: response_write_def response_text_def write_header_def response_fields_def header_text_def crlf_def)
  have "\<forall>f \<in> set (response_fields close_after hs (length content)). sendable f"
    using assms(2) to_dec_sendable by (auto simp: response_fields_def)
  then show ?thesis unfolding t using status_text_plain [OF assms(1)] by (intro response_roundtrip) (simp_all add: word_def)
qed

theorem response_read_back_witness:
  "ResponseMessage_parse (istream (response_write False 404 ''gone'' [(''A'', ''b'')])) ([], [], []) =
     Some (True, (''1.1'', string_of_status 404, response_fields False [(''A'', ''b'')] (length ''gone'')), istream ''gone'')"
proof (rule response_read_back)
  show "404 \<in> set (map snd StatusCode)" unfolding status_values by simp
qed (simp add: sendable_def)

section \<open>The next request on a connection\<close>

fun connection_verdict :: "string list \<Rightarrow> bool option" where
  "connection_verdict [] = None"
| "connection_verdict (v # vs) =
     (if case_insensitive_equal v ''close'' then Some False
      else if case_insensitive_equal v ''keep-alive'' then Some True
      else connection_verdict vs)"

text \<open>The order of \<^verbatim>\<open>std::string\<close>.\<close>

fun string_le :: "string \<Rightarrow> string \<Rightarrow> bool" where
  "string_le [] t = True"
| "string_le (c # s) [] = False"
| "string_le (c # s) (d # t) \<longleftrightarrow> (of_char c :: nat) < of_char d \<or> c = d \<and> string_le s t"

text \<open>Whether the server reads another request once the response has been sent.\<close>

definition reads_again :: "bool \<Rightarrow> http_request \<Rightarrow> bool" where
  "reads_again close_after rq =
     (\<not> close_after \<and>
      (case connection_verdict (map snd (filter (\<lambda>f. case_insensitive_equal (fst f) ''Connection'') (header rq))) of
         Some b \<Rightarrow> b
       | None \<Rightarrow> string_le ''1.1'' (http_version rq)))"

lemma reads_again_versions:
  assumes "\<forall>f \<in> set (header rq). \<not> case_insensitive_equal (fst f) ''Connection''"
  shows "http_version rq = ''1.1'' \<Longrightarrow> reads_again False rq" and "http_version rq = ''1.0'' \<Longrightarrow> \<not> reads_again False rq"
  using assms by (simp_all add: reads_again_def filter_False)

end
