(* ===== verification/Http_Client.thy ===== *)
theory Http_Client
  imports Http_Server
begin

text \<open>
  The HTTP client (\<^verbatim>\<open>src/network/http/client_http.hpp\<close>): the text of a request, the reading of the response, and the
  connections it keeps. The theorems span client and server: a request is read by the server as it was made, a response
  is read by the client as it was written, however the socket cuts them into pieces; a response that the
  server ends by closing the connection is cut off; a connection serves one request at a time and at most one is kept.
\<close>

section \<open>Requests\<close>

record http_target =
  target_host :: string
  target_port :: nat
  default_port :: nat
  proxy_server :: string
  plain_socket :: bool

text \<open>\<^verbatim>\<open>parse_host_port\<close>; \<open>None\<close>: an exception leaves a function that is \<^verbatim>\<open>noexcept\<close>.\<close>

definition parse_host_port :: "string \<Rightarrow> nat \<Rightarrow> (string \<times> nat) option" where
  "parse_host_port host_port dflt =
     (case find_char (CHR '':'') host_port of
        None \<Rightarrow> Some (host_port, dflt)
      | Some e \<Rightarrow> map_option (\<lambda>n. (substr host_port 0 e, n mod 2 ^ 16)) (stoul (drop (e + 1) host_port)))"

definition create_request_header :: "http_target \<Rightarrow> string \<Rightarrow> string \<Rightarrow> fields \<Rightarrow> string" where
  "create_request_header t meth p hs =
     (let p = (if p = [] then ''/'' else p);
          p = (if proxy_server t \<noteq> [] \<and> plain_socket t then ''http://'' @ target_host t @ '':'' @ to_dec (target_port t) @ p else p)
      in meth @ '' '' @ p @ '' HTTP/1.1'' @ crlf @
         ''Host: '' @ target_host t @ (if target_port t \<noteq> default_port t then '':'' @ to_dec (target_port t) else []) @ crlf @
         concat (map (\<lambda>f. fst f @ '': '' @ snd f @ crlf) hs))"

definition needs_length :: "string \<Rightarrow> fields \<Rightarrow> bool" where
  "needs_length content hs \<longleftrightarrow> content \<noteq> [] \<and> field_value ''Content-Length'' hs = None \<and>
     field_value ''Transfer-Encoding'' hs \<noteq> Some ''chunked''"

definition client_request :: "http_target \<Rightarrow> string \<Rightarrow> string \<Rightarrow> string \<Rightarrow> fields \<Rightarrow> string" where
  "client_request t meth p content hs =
     create_request_header t meth p hs @
     (if needs_length content hs then ''Content-Length: '' @ to_dec (length content) @ crlf else []) @ crlf @ content"

text \<open>The request that the server is to see.\<close>

definition host_value :: "http_target \<Rightarrow> string" where
  "host_value t = target_host t @ (if target_port t \<noteq> default_port t then '':'' @ to_dec (target_port t) else [])"

definition request_of :: "http_target \<Rightarrow> string \<Rightarrow> string \<Rightarrow> string \<Rightarrow> string \<Rightarrow> fields \<Rightarrow> http_request" where
  "request_of t meth p q content hs =
     \<lparr>http_method = meth, path = p, query_string = q, http_version = ''1.1'',
      header = (''Host'', host_value t) # hs @ (if content = [] then [] else [(''Content-Length'', to_dec (length content))])\<rparr>"

definition no_framing :: "fields \<Rightarrow> bool" where
  "no_framing hs \<longleftrightarrow> field_value ''Content-Length'' hs = None \<and> field_value ''Transfer-Encoding'' hs = None"

lemma field_value_append: "field_value n (hs @ ks) = (case field_value n hs of None \<Rightarrow> field_value n ks | Some v \<Rightarrow> Some v)"
  by (induction hs) (auto simp: field_value_def)

lemma field_value_other: "length (fst f) \<noteq> length n \<Longrightarrow> field_value n (f # hs) = field_value n hs"
  by (simp add: field_value_def case_insensitive_equal_def)

lemma field_value_same: "field_value n ((n, v) # hs) = Some v"
  by (simp add: field_value_def case_insensitive_equal_def list_all2_refl)

lemma client_request_text:
  assumes "target = p @ (if q = [] then [] else CHR ''?'' # q)" "p \<noteq> []" "proxy_server t = []" "no_framing hs"
  shows "client_request t meth target content hs = request_text (request_of t meth p q content hs) @ content"
  using assms
  by (simp add: client_request_def create_request_header_def request_text_def target_text_def request_of_def header_text_def
      needs_length_def no_framing_def host_value_def)

text \<open>
  C23. A request that the client makes (without a proxy, with a header that does not itself say how long the content is) is read by
  the server with its method, path, query, fields and content, however the text is cut into pieces. The method, the path and the query
  are words without a question mark, the fields can be sent (\<open>request_ok\<close>), and the text is below the server's limit.
\<close>

theorem client_request_reaches_server:
  assumes "target = p @ (if q = [] then [] else CHR ''?'' # q)" "p \<noteq> []" "proxy_server t = []" "no_framing hs"
    and "request_ok (request_of t meth p q content hs)"
    and "concat pieces = client_request t meth target content hs" "length (concat pieces) < limit" "length (concat pieces) < 2 ^ 64"
  shows "read_request alloc limit pieces = Some (request_of t meth p q content hs, Content content)"
proof -
  let ?rq = "request_of t meth p q content hs"
  have c: "concat pieces = request_text ?rq @ content @ []" using client_request_text [OF assms(1-4)] assms(6) by simp
  have cl: "field_value ''Content-Length'' (header ?rq) = (if content = [] then None else Some (to_dec (length content)))"
    "field_value ''Transfer-Encoding'' (header ?rq) = None"
    using assms(4) by (simp_all add: request_of_def field_value_other field_value_append no_framing_def field_value_same)
      (simp_all add: field_value_def)
  show ?thesis
  proof (cases "content = []")
    case False
    then show ?thesis using request_read [OF assms(5) _ c assms(7,8)] cl(1) by simp
  next
    case True
    have c0: "concat pieces = request_text ?rq @ []" using c True by simp
    show ?thesis
      by (rule request_received [OF assms(5) c0 assms(7)]) (use cl True in \<open>simp add: read_request_def istream_def\<close>)
  qed
qed

definition demo_target :: http_target where
  "demo_target = \<lparr>target_host = ''h'', target_port = 8080, default_port = 80, proxy_server = [], plain_socket = True\<rparr>"

lemma demo_host: "host_value demo_target = ''h:8080''"
  by (simp add: host_value_def demo_target_def to_dec.simps digit_chars)

theorem client_request_reaches_server_witness:
  "read_request (\<lambda>_. True) 1000
     [take 9 (client_request demo_target ''PUT'' ''/a?b=1'' ''xyz'' [(''A'', ''v'')]), drop 9 (client_request demo_target ''PUT'' ''/a?b=1'' ''xyz'' [(''A'', ''v'')])] =
   Some (request_of demo_target ''PUT'' ''/a'' ''b=1'' ''xyz'' [(''A'', ''v'')], Content ''xyz'')"
proof (rule client_request_reaches_server)
  let ?c = "client_request demo_target ''PUT'' ''/a?b=1'' ''xyz'' [(''A'', ''v'')]"
  have l: "length ?c < 1000"
    by (simp add: client_request_def create_request_header_def demo_target_def crlf_def to_dec.simps)
  show "concat [take 9 ?c, drop 9 ?c] = ?c" by simp
  show "length (concat [take 9 ?c, drop 9 ?c]) < 1000" using l by simp
  show "length (concat [take 9 ?c, drop 9 ?c]) < 2 ^ 64" using l by simp
  show "request_ok (request_of demo_target ''PUT'' ''/a'' ''b=1'' ''xyz'' [(''A'', ''v'')])"
    using to_dec_sendable [of "Suc (Suc (Suc 0))"] by (simp add: request_ok_def request_of_def word_def demo_host) (simp add: sendable_def)
  show "no_framing [(''A'', ''v'')]" by (simp add: no_framing_def field_value_def case_insensitive_equal_def)
qed (simp_all add: demo_target_def)

section \<open>Responses\<close>

text \<open>Reading until the server closes the connection.\<close>

definition read_rest :: "nat \<Rightarrow> string \<Rightarrow> string list \<Rightarrow> read_outcome" where
  "read_rest limit buf pieces =
     (let b = buf @ concat pieces in if length b \<ge> limit then PayloadTooLarge else Content b)"

text \<open>
  The chain of the handlers of \<^verbatim>\<open>read\<close>; chunks are read as by the server. A length that is no number throws, and the field that is looked
  up for \<open>close\<close> is \<^verbatim>\<open>Session\<close>.
\<close>

definition read_response_chunks :: "(nat \<Rightarrow> bool) \<Rightarrow> nat \<Rightarrow> string \<Rightarrow> string list \<Rightarrow> string \<Rightarrow> read_outcome" where
  "read_response_chunks = read_chunks"

definition read_response :: "(nat \<Rightarrow> bool) \<Rightarrow> nat \<Rightarrow> string list \<Rightarrow> ((string \<times> string \<times> fields) \<times> read_outcome) option" where
  "read_response alloc limit pieces =
     (case check_until limit (read_until limit (crlf @ crlf) [] pieces) of
        Inl out \<Rightarrow> Some (([], [], []), out)
      | Inr (till, buf, pieces1) \<Rightarrow>
          (case ResponseMessage_parse (istream buf) ([], [], []) of
             None \<Rightarrow> None
           | Some (ok, (version, status, hs), st) \<Rightarrow>
               Some ((version, status, hs),
                 if \<not> ok then ProtocolError
                 else (case field_value ''Content-Length'' hs of
                         Some v \<Rightarrow>
                           (case stoul v of
                              None \<Rightarrow> Thrown
                            | Some n \<Rightarrow>
                                (case read_more limit (n - (length buf - till)) (chars st) pieces1 of
                                   Inl out \<Rightarrow> out
                                 | Inr (content, _) \<Rightarrow> Content content))
                       | None \<Rightarrow>
                           if field_value ''Transfer-Encoding'' hs = Some ''chunked''
                           then read_response_chunks alloc limit (chars st) pieces1 []
                           else if \<not> string_le ''1.1'' version \<or> field_value ''Session'' hs = Some ''close''
                           then read_rest limit (chars st) pieces1
                           else Content (chars st)))))"

lemma find_response_end:
  assumes "word version" "CHR ''\<newline>'' \<notin> set status" "\<forall>f \<in> set hs. sendable f"
  shows "\<exists>i. find_sub (crlf @ crlf) (response_text version status hs @ r) = Some i \<and>
     i + length (crlf @ crlf) = length (response_text version status hs)"
proof -
  let ?ls = "(''HTTP/'' @ version @ '' '' @ status @ [CHR 0x0D]) # map field_line hs"
  have "\<forall>l \<in> set ?ls. sent_line l"
    using assms by (auto simp: sent_line_def word_def field_line_def sendable_def append_eq_Cons_conv)
  then obtain i where i: "find_sub (crlf @ crlf) (unlines ?ls @ crlf @ r) = Some i" "i + 2 = length (unlines ?ls)"
    using find_header_end [of ?ls r] by blast
  have t: "response_text version status hs = unlines ?ls @ crlf"
    by (simp add: response_text_def header_text_def unlines_def field_line_def crlf_def comp_def)
  have "length (response_text version status hs) = length (unlines ?ls) + 2" unfolding t by (simp add: crlf_def)
  then have "i + length (crlf @ crlf) = length (response_text version status hs)" using i(2) by (simp add: crlf_def)
  then show ?thesis using i(1) t by auto
qed

lemma response_received:
  assumes "word version" "CHR ''\<newline>'' \<notin> set status" "\<forall>f \<in> set hs. sendable f"
    and "concat pieces = response_text version status hs @ r" "length (concat pieces) < limit"
  obtains rest pieces1 where
    "check_until limit (read_until limit (crlf @ crlf) [] pieces) =
       Inr (length (response_text version status hs), response_text version status hs @ rest, pieces1)"
    "ResponseMessage_parse (istream (response_text version status hs @ rest)) ([], [], []) =
       Some (True, (version, status, hs), istream rest)"
    "rest @ concat pieces1 = r"
proof -
  let ?t = "response_text version status hs"
  obtain i where i: "find_sub (crlf @ crlf) ([] @ concat pieces) = Some i" "i + length (crlf @ crlf) = length ?t"
    using find_response_end [OF assms(1-3), of r] assms(4) by auto
  have l: "length ([] @ concat pieces) < limit" using assms(5) by simp
  obtain buf pieces1 where b: "check_until limit (read_until limit (crlf @ crlf) [] pieces) = Inr (length ?t, buf, pieces1)"
    "buf @ concat pieces1 = ?t @ r" "length ?t \<le> length buf"
    using check_until_finds [OF i(1) l] i(2) assms(4) by (metis append_Nil)
  obtain rest where "buf = ?t @ rest" using prefix_split [OF b(2,3)] by blast
  then show thesis using that b(1,2) response_roundtrip [OF assms(1-3)] by simp
qed

lemma response_write_text:
  "response_write close_after status content hs =
     response_text ''1.1'' (string_of_status status) (response_fields close_after hs (length content)) @ content"
  by (simp add: response_write_def response_text_def write_header_def response_fields_def header_text_def crlf_def)

lemma response_fields_sendable: "\<forall>f \<in> set hs. sendable f \<Longrightarrow> \<forall>f \<in> set (response_fields close_after hs n). sendable f"
  using to_dec_sendable by (auto simp: response_fields_def)

text \<open>
  C24. A response that the server writes with a length of its own making, with an enumerated status and fields that can be sent, is read by
  the client with its status, fields and content, however the text is cut into pieces, while it stays below the client's limit; what
  follows it and has already been received is taken for content too.
\<close>

theorem server_response_reaches_client:
  assumes "status \<in> set (map snd StatusCode)" "\<forall>f \<in> set hs. sendable f" "adds_length False hs" "field_value ''Content-Length'' hs = None"
    and "concat pieces = response_write False status content hs @ extra" "length (concat pieces) < limit" "length (concat pieces) < 2 ^ 64"
  shows "\<exists>pre post. extra = pre @ post \<and> read_response alloc limit pieces =
     Some ((''1.1'', string_of_status status, hs @ [(''Content-Length'', to_dec (length content))]), Content (content @ pre))"
proof -
  let ?hs = "hs @ [(''Content-Length'', to_dec (length content))]"
  have f: "response_fields False hs (length content) = ?hs" using assms(3) by (simp add: response_fields_def)
  have c: "concat pieces = response_text ''1.1'' (string_of_status status) ?hs @ content @ extra"
    using assms(5) by (simp add: response_write_text f)
  have s: "\<forall>f \<in> set ?hs. sendable f" using response_fields_sendable [OF assms(2), of False "length content"] f by simp
  have w: "word ''1.1''" by (simp add: word_def)
  let ?t = "response_text ''1.1'' (string_of_status status) ?hs"
  obtain rest pieces1 where r:
    "check_until limit (read_until limit (crlf @ crlf) [] pieces) = Inr (length ?t, ?t @ rest, pieces1)"
    "ResponseMessage_parse (istream (?t @ rest)) ([], [], []) = Some (True, (''1.1'', string_of_status status, ?hs), istream rest)"
    "rest @ concat pieces1 = content @ extra"
    using w status_text_plain [OF assms(1)] s c assms(6) by (rule response_received)
  let ?n = "length content - length rest"
  have "length (rest @ concat pieces1) = length content + length extra" unfolding r(3) by simp
  then have n: "?n \<le> length (concat pieces1)" by simp
  have l: "length (rest @ concat pieces1) < limit" unfolding r(3) using c assms(6) by simp
  obtain b pieces2 where b: "read_more limit ?n rest pieces1 = Inr (b, pieces2)" "b @ concat pieces2 = rest @ concat pieces1"
    "length b = length rest + ?n" using read_more_enough [OF n l] by blast
  have v: "field_value ''Content-Length'' ?hs = Some (to_dec (length content))"
    using assms(4) by (simp add: field_value_append field_value_same)
  have "length content < 2 ^ 64" using c assms(7) by simp
  then have "read_response alloc limit pieces = Some ((''1.1'', string_of_status status, ?hs), Content b)"
    using r(1,2) v b(1) by (simp add: read_response_def istream_def stoul_to_dec)
  moreover have "b @ concat pieces2 = content @ extra" "length content \<le> length b" using b(2,3) r(3) by simp_all
  then obtain pre where "b = content @ pre" "pre @ concat pieces2 = extra" using prefix_split by blast
  ultimately show ?thesis by blast
qed

lemma status_length:
  assumes "list_all (\<lambda>x. length (snd x) < n) (zip (map snd StatusCode) (map snd status_texts))" "0 < n"
  shows "length (string_of_status c) < n"
  using assms by (cases "map_of status_code_strings c")
    (auto simp: string_of_status_def status_code_strings_zip list_all_iff dest!: map_of_SomeD)

theorem server_response_reaches_client_witness:
  "\<exists>pre post. [] = pre @ post \<and> read_response (\<lambda>_. True) (length (response_write False 200 ''ok'' [(''A'', ''b'')]) + 1)
     [response_write False 200 ''ok'' [(''A'', ''b'')]] =
     Some ((''1.1'', string_of_status 200, [(''A'', ''b''), (''Content-Length'', to_dec (length ''ok''))]), Content (''ok'' @ pre))"
proof -
  have st: "(200::nat) \<in> set (map snd StatusCode)" unfolding status_values by simp
  let ?w = "response_write False 200 ''ok'' [(''A'', ''b'')]"
  have a: "adds_length False [(''A'', ''b'')]" by (simp add: adds_length_def chunked_encoding_def case_insensitive_equal_def)
  have "list_all (\<lambda>x. length (snd x) < 100) (zip (map snd StatusCode) (map snd status_texts))"
    unfolding status_values status_texts_def by simp
  then have "length (string_of_status 200) < 100" by (rule status_length) simp
  then have l: "length ?w < 2 ^ 64" by (simp add: response_write_def write_header_def crlf_def to_dec.simps)
  have "field_value ''Content-Length'' [(''A'', ''b'')] = None" by (simp add: field_value_other) (simp add: field_value_def)
  then show ?thesis
    using server_response_reaches_client [OF st _ a, of "[?w]" "''ok''" "[]" "length ?w + 1" "\<lambda>_. True"] l by (simp add: sendable_def)
qed

text \<open>
  When the server marks the end of a response by closing the connection it writes no length, and the client, which takes the response
  for complete at the end of the header, hands over only what has arrived with it.
\<close>

theorem closing_response_truncated:
  assumes "status \<in> set (map snd StatusCode)" "\<forall>f \<in> set hs. sendable f" "no_framing hs" "field_value ''Session'' hs = None"
    and "response_write True status (a @ b) hs = first @ b" "length first < limit"
  shows "read_response alloc limit [first, b] = Some ((''1.1'', string_of_status status, hs), Content a)"
proof -
  let ?t = "response_text ''1.1'' (string_of_status status) hs"
  have f: "first = ?t @ a" using assms(5) by (simp add: response_write_text response_fields_def adds_length_def)
  obtain i where i: "find_sub (crlf @ crlf) (?t @ a) = Some i" "i + length (crlf @ crlf) = length ?t"
    using find_response_end [of "''1.1''" "string_of_status status" hs a] status_text_plain [OF assms(1)] assms(2) by (auto simp: word_def)
  have e: "length ([] :: string) < limit" "length first \<le> limit" using assms(6) by auto
  have "find_sub (crlf @ crlf) [] = None" by (simp add: crlf_def)
  then have "read_until limit (crlf @ crlf) [] [first, b] = (Until (length ?t), first, [b])"
    using i f e by (simp add: read_until.simps)
  then have "check_until limit (read_until limit (crlf @ crlf) [] [first, b]) = Inr (length ?t, first, [b])"
    using assms(6) by (simp add: check_until_def)
  moreover have "ResponseMessage_parse (istream first) ([], [], []) = Some (True, (''1.1'', string_of_status status, hs), istream a)"
    unfolding f using status_text_plain [OF assms(1)] assms(2) by (intro response_roundtrip) (simp_all add: word_def)
  ultimately show ?thesis using assms(3,4) by (simp add: read_response_def istream_def no_framing_def)
qed

theorem closing_response_truncated_witness:
  "read_response (\<lambda>_. True) (length (response_write True 200 ''half'' []) + 1)
     [response_write True 200 ''half'' [], ''and half''] = Some ((''1.1'', string_of_status 200, []), Content ''half'')"
proof -
  have st: "(200::nat) \<in> set (map snd StatusCode)" unfolding status_values by simp
  show ?thesis
    using closing_response_truncated [OF st, of "[]" "''half''" "''and half''" "response_write True 200 ''half'' []"
        "length (response_write True 200 ''half'' []) + 1" "\<lambda>_. True"]
    by (simp add: no_framing_def field_value_def response_write_def write_header_def adds_length_def crlf_def)
qed

section \<open>Connections\<close>

text \<open>
  Connections are numbers; \<open>conns\<close> is the set of the client, in any order (\<open>order\<close> is the order in which a loop walks over
  it). \<open>sessions\<close> are the connections that a request under way holds.
\<close>

record http_client =
  conns :: "nat list"
  in_use :: "nat \<Rightarrow> bool"
  attempt_reconnect :: "nat \<Rightarrow> bool"
  next_conn :: nat
  sessions :: "nat list"

definition http_client :: http_client where
  "http_client = \<lparr>conns = [], in_use = (\<lambda>_. False), attempt_reconnect = (\<lambda>_. True), next_conn = 0, sessions = []\<rparr>"

definition create_connection :: "http_client \<Rightarrow> nat \<times> http_client" where
  "create_connection c =
     (next_conn c, c\<lparr>conns := conns c @ [next_conn c], in_use := (in_use c)(next_conn c := False),
        attempt_reconnect := (attempt_reconnect c)(next_conn c := True), next_conn := Suc (next_conn c)\<rparr>)"

definition get_connection :: "nat list \<Rightarrow> http_client \<Rightarrow> nat \<times> http_client" where
  "get_connection order c =
     (let (i, c) = (case find (\<lambda>i. \<not> in_use c i) order of Some i \<Rightarrow> (i, c) | None \<Rightarrow> create_connection c)
      in (i, c\<lparr>attempt_reconnect := (attempt_reconnect c)(i := True), in_use := (in_use c)(i := True)\<rparr>))"

definition begin_request :: "nat list \<Rightarrow> http_client \<Rightarrow> http_client" where
  "begin_request order c = (let (i, c) = get_connection order c in c\<lparr>sessions := i # sessions c\<rparr>)"

text \<open>The loop of the callback: what remains of the set; \<open>failed\<close>: the request ended with an error.\<close>

fun keep_connections :: "bool \<Rightarrow> nat \<Rightarrow> (nat \<Rightarrow> bool) \<Rightarrow> nat \<Rightarrow> nat list \<Rightarrow> nat list" where
  "keep_connections failed i busy unused [] = []"
| "keep_connections failed i busy unused (k # ks) =
     (if failed \<and> k = i then keep_connections failed i busy unused ks
      else if busy k then k # keep_connections failed i busy unused ks
      else if unused + 1 > 1 then keep_connections failed i busy (unused + 1) ks
      else k # keep_connections failed i busy (unused + 1) ks)"

definition end_request :: "bool \<Rightarrow> nat \<Rightarrow> nat list \<Rightarrow> http_client \<Rightarrow> http_client" where
  "end_request failed i order c =
     (let busy = (in_use c)(i := False)
      in c\<lparr>in_use := busy, conns := keep_connections failed i busy 0 order, sessions := remove1 i (sessions c)\<rparr>)"

text \<open>A read that failed: the request is made again on a new connection, once, if the old one is still in the set.\<close>

definition read_failed :: "bool \<Rightarrow> nat \<Rightarrow> nat list \<Rightarrow> http_client \<Rightarrow> http_client" where
  "read_failed aborted i order c =
     (if attempt_reconnect c i \<and> \<not> aborted \<and> i \<in> set (conns c)
      then (let (k, c) = create_connection (c\<lparr>conns := remove1 i (conns c)\<rparr>)
            in c\<lparr>attempt_reconnect := (attempt_reconnect c)(k := False), in_use := (in_use c)(k := True),
                 sessions := k # remove1 i (sessions c)\<rparr>)
      else end_request True i order c)"

definition stop_client :: "http_client \<Rightarrow> http_client" where
  "stop_client c = c\<lparr>conns := []\<rparr>"

inductive client_step :: "http_client \<Rightarrow> http_client \<Rightarrow> bool" where
  request: "set order = set (conns c) \<Longrightarrow> distinct order \<Longrightarrow> client_step c (begin_request order c)"
| finished: "i \<in> set (sessions c) \<Longrightarrow> set order = set (conns c) \<Longrightarrow> distinct order \<Longrightarrow> client_step c (end_request failed i order c)"
| failed: "i \<in> set (sessions c) \<Longrightarrow> set order = set (conns c) \<Longrightarrow> distinct order \<Longrightarrow> client_step c (read_failed aborted i order c)"
| stopped: "client_step c (stop_client c)"

definition idle_conns :: "http_client \<Rightarrow> nat set" where
  "idle_conns c = {i \<in> set (conns c). \<not> in_use c i}"

definition client_ok :: "http_client \<Rightarrow> bool" where
  "client_ok c \<longleftrightarrow> distinct (conns c) \<and> distinct (sessions c) \<and> (\<forall>i \<in> set (conns c) \<union> set (sessions c). i < next_conn c) \<and>
     (\<forall>i \<in> set (sessions c). in_use c i) \<and> (\<forall>i \<in> set (conns c). in_use c i \<longrightarrow> i \<in> set (sessions c)) \<and>
     card (idle_conns c) \<le> 1"

lemma keep_connections_subset: "set (keep_connections failed i busy u ks) \<subseteq> set ks"
  by (induction failed i busy u ks rule: keep_connections.induct) auto

lemma keep_connections_distinct: "distinct ks \<Longrightarrow> distinct (keep_connections failed i busy u ks)"
proof (induction failed i busy u ks rule: keep_connections.induct)
  case (2 failed i busy u k ks)
  then show ?case using keep_connections_subset [of failed i busy u ks] keep_connections_subset [of failed i busy "u + 1" ks] by auto
qed simp

lemma keep_connections_idle: "length (filter (\<lambda>k. \<not> busy k) (keep_connections failed i busy u ks)) \<le> 1 - u"
proof (induction failed i busy u ks rule: keep_connections.induct)
  case (2 failed i busy u k ks)
  then show ?case by (cases "u = 0") auto
qed simp

lemma end_request_ok:
  assumes "client_ok c" "i \<in> set (sessions c)" "set order = set (conns c)" "distinct order"
  shows "client_ok (end_request f i order c)"
proof -
  define busy where "busy = (in_use c)(i := False)"
  define kept where "kept = keep_connections f i busy 0 order"
  have e: "end_request f i order c = c\<lparr>in_use := busy, conns := kept, sessions := remove1 i (sessions c)\<rparr>"
    by (simp add: end_request_def kept_def busy_def Let_def)
  have sub: "set kept \<subseteq> set (conns c)" using keep_connections_subset [of f i busy 0 order] assms(3) by (simp add: kept_def)
  have d: "distinct kept" using keep_connections_distinct [OF assms(4)] by (simp add: kept_def)
  have "card {j \<in> set kept. \<not> busy j} \<le> length (filter (\<lambda>j. \<not> busy j) kept)" by (metis card_length set_filter)
  also have "\<dots> \<le> 1" using keep_connections_idle [of busy f i 0 order] by (simp add: kept_def)
  finally have i: "card {j \<in> set kept. \<not> busy j} \<le> 1" .
  have b: "busy j \<longleftrightarrow> j \<noteq> i \<and> in_use c j" for j by (simp add: busy_def)
  show ?thesis using assms(1,2) sub d i
    unfolding client_ok_def idle_conns_def e by (auto simp: b set_remove1_eq)
qed

lemma idle_card_mono:
  assumes "idle_conns c' \<subseteq> idle_conns c" "client_ok c"
  shows "card (idle_conns c') \<le> 1"
proof -
  have "finite (idle_conns c)" by (simp add: idle_conns_def)
  then have "card (idle_conns c') \<le> card (idle_conns c)" using assms(1) by (rule card_mono)
  also have "\<dots> \<le> 1" using assms(2) by (simp add: client_ok_def)
  finally show ?thesis .
qed

lemma begin_request_ok:
  assumes "client_ok c" "set order = set (conns c)"
  shows "client_ok (begin_request order c)"
proof (cases "find (\<lambda>i. \<not> in_use c i) order")
  case None
  then have "\<forall>i \<in> set (conns c). in_use c i" using assms(2) by (auto simp: find_None_iff)
  then have "idle_conns (begin_request order c) = {}" using assms(1) None
    by (auto simp: idle_conns_def begin_request_def get_connection_def create_connection_def)
  then show ?thesis using assms(1) None
    by (auto simp: client_ok_def begin_request_def get_connection_def create_connection_def ball_Un intro: less_SucI)
next
  case (Some i)
  then have i: "i \<in> set (conns c)" "\<not> in_use c i" using assms(2) by (auto simp: find_Some_iff dest: nth_mem)
  have "idle_conns (begin_request order c) \<subseteq> idle_conns c" using Some
    by (auto simp: idle_conns_def begin_request_def get_connection_def)
  then have "card (idle_conns (begin_request order c)) \<le> 1"
    using assms(1) by (rule idle_card_mono)
  then show ?thesis using assms(1) Some i
    by (auto simp: client_ok_def begin_request_def get_connection_def)
qed

lemma read_failed_ok:
  assumes "client_ok c" "i \<in> set (sessions c)" "set order = set (conns c)" "distinct order"
  shows "client_ok (read_failed aborted i order c)"
proof (cases "attempt_reconnect c i \<and> \<not> aborted \<and> i \<in> set (conns c)")
  case True
  then have "idle_conns (read_failed aborted i order c) \<subseteq> idle_conns c"
    by (auto simp: idle_conns_def read_failed_def create_connection_def dest: set_remove1_subset [THEN subsetD])
  then have "card (idle_conns (read_failed aborted i order c)) \<le> 1"
    using assms(1) by (rule idle_card_mono)
  then show ?thesis using assms(1) True
    by (auto simp: client_ok_def read_failed_def create_connection_def set_remove1_eq ball_Un less_Suc_eq)
next
  case False
  then show ?thesis using end_request_ok [OF assms] by (simp only: read_failed_def if_False)
qed

lemma client_step_ok: "client_step c c' \<Longrightarrow> client_ok c \<Longrightarrow> client_ok c'"
proof (induction rule: client_step.induct)
  case (stopped c)
  then show ?case by (auto simp: stop_client_def client_ok_def idle_conns_def)
qed (simp_all add: begin_request_ok end_request_ok read_failed_ok)

interpretation client_pool: kept_invariant client_step http_client client_ok
proof
  show "client_ok http_client" by (simp add: client_ok_def http_client_def idle_conns_def)
qed (rule client_step_ok)

text \<open>
  In every history no connection serves two requests at a time, every busy connection of the client serves one, and at most one
  connection is kept idle.
\<close>

theorem client_connections_exclusive:
  assumes "client_step\<^sup>*\<^sup>* http_client c"
  shows "distinct (sessions c) \<and> (\<forall>i. i \<in> set (conns c) \<and> in_use c i \<longleftrightarrow> i \<in> set (conns c) \<inter> set (sessions c)) \<and>
     card {i \<in> set (conns c). \<not> in_use c i} \<le> 1"
  using client_pool.reach_inv [OF assms] by (auto simp: client_ok_def idle_conns_def)

text \<open>Two requests at once; the first one ends, and then the second.\<close>

definition two_done :: http_client where
  "two_done = end_request False 1 [0, 1] (end_request False 0 [0, 1] (begin_request [0] (begin_request [] http_client)))"

theorem client_connections_exclusive_witness:
  "conns two_done = [0] \<and> distinct (sessions two_done) \<and> card {i \<in> set (conns two_done). \<not> in_use two_done i} \<le> 1"
proof -
  let ?a = "begin_request [] http_client"
  let ?b = "begin_request [0] ?a"
  let ?c = "end_request False 0 [0, 1] ?b"
  note defs = http_client_def begin_request_def get_connection_def create_connection_def end_request_def
  have "client_step http_client ?a" by (rule request) (simp_all add: http_client_def)
  moreover have "client_step ?a ?b" by (rule request) (simp_all add: defs)
  moreover have "client_step ?b ?c" by (rule finished) (auto simp: defs)
  moreover have "client_step ?c two_done" unfolding two_done_def by (rule finished) (auto simp: defs)
  ultimately have "client_step\<^sup>*\<^sup>* http_client two_done" by (meson converse_rtranclp_into_rtranclp rtranclp.rtrancl_refl)
  from client_connections_exclusive [OF this] show ?thesis by (simp add: two_done_def defs)
qed

end
