(* ===== verification/Scope_Runner.thy ===== *)
theory Scope_Runner
  imports Gb_Prelude
begin

text \<open>
  \<^verbatim>\<open>ScopeRunner\<close> (\<^verbatim>\<open>src/network/http/utility.hpp\<close>), which keeps the handlers of asio from running once their owner is
  gone: the atomic steps of any number of threads that take the shared lock, release it and stop the runner. A weak
  compare-and-swap may fail without reason. The theorem: after a \<^verbatim>\<open>stop\<close> has returned nobody holds the lock, then and ever after.
\<close>

datatype scope_pc = ScopeIdle | LockCas int | Holding | Refused | StopCas | StopReturned

record scope_runner =
  scope_count :: int
  spc :: "nat \<Rightarrow> scope_pc"

definition ScopeRunner :: scope_runner where
  "ScopeRunner = \<lparr>scope_count = 0, spc = (\<lambda>_. ScopeIdle)\<rparr>"

definition go_to :: "nat \<Rightarrow> scope_pc \<Rightarrow> scope_runner \<Rightarrow> scope_runner" where
  "go_to t p s = s\<lparr>spc := (spc s)(t := p)\<rparr>"

text \<open>\<^verbatim>\<open>continue_lock\<close>: one pass of its loop; \<open>strong\<close> says that the compare-and-swap does not fail without reason.\<close>

definition continue_lock :: "bool \<Rightarrow> nat \<Rightarrow> int \<Rightarrow> scope_runner \<Rightarrow> scope_runner" where
  "continue_lock strong t expected s =
     (if expected < 0 then go_to t Refused s
      else if strong \<and> scope_count s = expected then go_to t Holding (s\<lparr>scope_count := expected + 1\<rparr>)
      else go_to t (LockCas (scope_count s)) s)"

text \<open>The destructor of the lock.\<close>

definition release_lock :: "nat \<Rightarrow> scope_runner \<Rightarrow> scope_runner" where
  "release_lock t s = go_to t ScopeIdle (s\<lparr>scope_count := scope_count s - 1\<rparr>)"

text \<open>One pass of the loop of \<^verbatim>\<open>stop\<close>.\<close>

definition stop_runner :: "bool \<Rightarrow> nat \<Rightarrow> scope_runner \<Rightarrow> scope_runner" where
  "stop_runner strong t s =
     (if strong \<and> scope_count s = 0 then go_to t StopReturned (s\<lparr>scope_count := -1\<rparr>)
      else if scope_count s < 0 then go_to t StopReturned s
      else s)"

inductive scope_step :: "scope_runner \<Rightarrow> scope_runner \<Rightarrow> bool" where
  begin_lock: "spc s t = ScopeIdle \<Longrightarrow> scope_step s (go_to t (LockCas (scope_count s)) s)"
| lock: "spc s t = LockCas e \<Longrightarrow> scope_step s (continue_lock strong t e s)"
| unlock: "spc s t = Holding \<Longrightarrow> scope_step s (release_lock t s)"
| give_up: "spc s t = Refused \<Longrightarrow> scope_step s (go_to t ScopeIdle s)"
| begin_stop: "spc s t = ScopeIdle \<Longrightarrow> scope_step s (go_to t StopCas s)"
| stop: "spc s t = StopCas \<Longrightarrow> scope_step s (stop_runner strong t s)"

definition holders :: "scope_runner \<Rightarrow> nat set" where
  "holders s = {t. spc s t = Holding}"

definition scope_ok :: "scope_runner \<Rightarrow> bool" where
  "scope_ok s \<longleftrightarrow> finite (holders s) \<and> (scope_count s = -1 \<and> holders s = {} \<or> scope_count s = int (card (holders s))) \<and>
     ((\<exists>t. spc s t = StopReturned) \<longrightarrow> scope_count s = -1)"

lemma holders_go_to:
  "holders (go_to t p s) = (if p = Holding then insert t (holders s) else holders s - {t})"
  by (auto simp: holders_def go_to_def)

lemma go_to_sel [simp]: "scope_count (go_to t p s) = scope_count s" "spc (go_to t p s) = (spc s)(t := p)"
  by (simp_all add: go_to_def)

lemma holders_count [simp]: "holders (s\<lparr>scope_count := n\<rparr>) = holders s"
  by (simp add: holders_def)

text \<open>A thread that neither holds nor gets the lock may go where it likes.\<close>

lemma scope_ok_go_to:
  assumes "scope_ok s" "spc s t \<noteq> Holding" "p \<noteq> Holding" "p = StopReturned \<longrightarrow> scope_count s = -1"
  shows "scope_ok (go_to t p s)"
proof -
  have "holders (go_to t p s) = holders s" using assms(2,3) by (auto simp: holders_go_to) (simp add: holders_def)
  then show ?thesis using assms(1,4) by (auto simp: scope_ok_def)
qed

lemma scope_step_ok:
  assumes "scope_step s s'" "scope_ok s"
  shows "scope_ok s'"
  using assms(1)
proof cases
  case (lock t e strong)
  show ?thesis
  proof (cases "e \<ge> 0 \<and> strong \<and> scope_count s = e")
    case True
    have "t \<notin> holders s" "\<not> (\<exists>t. spc s t = StopReturned)" "scope_count s = int (card (holders s))"
      using lock(2) True assms(2) by (auto simp: holders_def scope_ok_def)
    then show ?thesis using lock(1) True assms(2) by (auto simp: continue_lock_def scope_ok_def holders_go_to)
  next
    case False
    then show ?thesis using lock assms(2) by (auto simp: continue_lock_def intro!: scope_ok_go_to)
  qed
next
  case (unlock t)
  have "t \<in> holders s" using unlock(2) by (simp add: holders_def)
  then have "card (holders s) > 0" "scope_count s = int (card (holders s))" "finite (holders s)"
    using assms(2) by (auto simp: scope_ok_def card_gt_0_iff)
  then show ?thesis using unlock \<open>t \<in> holders s\<close> assms(2)
    by (auto simp: release_lock_def scope_ok_def holders_go_to of_nat_diff)
next
  case (stop t strong)
  show ?thesis
  proof (cases "strong \<and> scope_count s = 0")
    case True
    then have "holders s = {}" using assms(2) by (auto simp: scope_ok_def)
    then show ?thesis using stop(1) True by (auto simp: stop_runner_def scope_ok_def holders_go_to)
  next
    case False
    then show ?thesis using stop assms(2) by (auto simp: stop_runner_def scope_ok_def holders_go_to)
  qed
qed (use assms(2) in \<open>auto intro!: scope_ok_go_to\<close>)

interpretation scope: kept_invariant scope_step ScopeRunner scope_ok
proof
  show "scope_ok ScopeRunner" by (simp add: scope_ok_def ScopeRunner_def holders_def)
qed (rule scope_step_ok)

lemma stop_is_final:
  "scope_step\<^sup>*\<^sup>* s s' \<Longrightarrow> spc s t = StopReturned \<Longrightarrow> spc s' t = StopReturned"
proof (induction rule: rtranclp_induct)
  case (step s1 s2)
  from step(2) step(3) [OF step(4)] show ?case
    by cases (auto simp: continue_lock_def release_lock_def stop_runner_def)
qed

text \<open>
  From the return of any \<^verbatim>\<open>stop\<close> on, no thread holds the shared lock or gets it; and without holders \<^verbatim>\<open>stop\<close> returns in its next
  pass (if the compare-and-swap does not fail without reason).
\<close>

theorem no_handler_after_stop:
  assumes "scope_step\<^sup>*\<^sup>* ScopeRunner s" "spc s t = StopReturned" "scope_step\<^sup>*\<^sup>* s s'"
  shows "spc s' u \<noteq> Holding \<and> spc (continue_lock strong u (scope_count s') s') u = Refused \<and>
     spc (stop_runner True u s') u = StopReturned"
proof -
  have "scope_ok s'" using scope.reach_inv rtranclp_trans [OF assms(1,3)] by blast
  moreover have "spc s' t = StopReturned" using stop_is_final [OF assms(3,2)] .
  ultimately have "scope_count s' = -1" "holders s' = {}" by (auto simp: scope_ok_def)
  then show ?thesis by (auto simp: holders_def continue_lock_def stop_runner_def)
qed

text \<open>One thread holds the lock and releases it, and then another stops the runner.\<close>

definition stopped_runner :: scope_runner where
  "stopped_runner = stop_runner True 1 (go_to 1 StopCas (release_lock 0 (continue_lock True 0 0 (go_to 0 (LockCas 0) ScopeRunner))))"

theorem no_handler_after_stop_witness:
  "spc stopped_runner 0 \<noteq> Holding \<and> spc (continue_lock True 0 (scope_count stopped_runner) stopped_runner) 0 = Refused"
proof -
  let ?a = "go_to 0 (LockCas 0) ScopeRunner"
  let ?b = "continue_lock True 0 0 ?a"
  let ?c = "release_lock 0 ?b"
  let ?d = "go_to 1 StopCas ?c"
  note defs = continue_lock_def release_lock_def stop_runner_def ScopeRunner_def
  have a: "scope_step ScopeRunner ?a" using begin_lock [of ScopeRunner 0] by (simp add: ScopeRunner_def)
  have b: "scope_step ?a ?b" using lock [of ?a 0 0 True] by simp
  have c: "scope_step ?b ?c" using unlock [of ?b 0] by (simp add: defs)
  have d: "scope_step ?c ?d" using begin_stop [of ?c 1] by (simp add: defs)
  have e: "scope_step ?d stopped_runner" unfolding stopped_runner_def using stop [of ?d 1 True] by simp
  have "scope_step\<^sup>*\<^sup>* ScopeRunner stopped_runner" using a b c d e by (meson converse_rtranclp_into_rtranclp rtranclp.rtrancl_refl)
  moreover have "spc stopped_runner 1 = StopReturned" by (simp add: stopped_runner_def defs)
  ultimately show ?thesis using no_handler_after_stop [of stopped_runner 1 stopped_runner 0 True] by simp
qed

end
