(* ===== verification/Client_Sessions.thy ===== *)
theory Client_Sessions
  imports Server_Sessions
begin

text \<open>
  \<^verbatim>\<open>ClientImpl\<close> (\<^verbatim>\<open>src/network/io/client.cpp\<close>): the sessions a client has opened, by endpoint and by type, its options and its
  maintenance timer, first as the sequential operations and then as the steps of any number of threads between the two mutexes.
  An \<^verbatim>\<open>Endpoint\<close> is a number, in the order of \<^verbatim>\<open>std::map\<close>, and 0 is \<^verbatim>\<open>Endpoint()\<close>; a \<^verbatim>\<open>CONNECT_TYPE\<close> is a number too.
  The resolver of asio is a parameter.
\<close>

section \<open>State\<close>

text \<open>\<^verbatim>\<open>std::map\<close>: entries in the order of the keys.\<close>

fun map_put :: "nat \<Rightarrow> 'v \<Rightarrow> (nat \<times> 'v) list \<Rightarrow> (nat \<times> 'v) list" where
  "map_put k v [] = [(k, v)]"
| "map_put k v ((k', v') # xs) =
     (if k < k' then (k, v) # (k', v') # xs else if k = k' then (k, v) # xs else (k', v') # map_put k v xs)"

definition map_erase :: "nat \<Rightarrow> (nat \<times> 'v) list \<Rightarrow> (nat \<times> 'v) list" where
  "map_erase k xs = filter (\<lambda>p. fst p \<noteq> k) xs"

lemma map_of_put [simp]: "map_of (map_put k v xs) = (map_of xs)(k \<mapsto> v)"
  by (induction k v xs rule: map_put.induct) auto

lemma map_of_erase [simp]: "map_of (map_erase k xs) = (map_of xs)(k := None)"
  by (induction xs) (auto simp: map_erase_def)

record client_options =
  co_keep_alive_time :: int
  co_max_pending_buffer_size :: int
  co_max_throughput_in :: int
  co_max_throughput_out :: int
  co_connect_timeout :: int
  co_no_delay :: bool

definition ClientOptions :: client_options where
  "ClientOptions = \<lparr>co_keep_alive_time = -1, co_max_pending_buffer_size = 100, co_max_throughput_in = -1, co_max_throughput_out = -1,
     co_connect_timeout = -1, co_no_delay = True\<rparr>"

datatype client_pc =
    Idle
  | StartConnect nat nat     \<comment> \<open>before \<^verbatim>\<open>session->async_connect()\<close>, for a type\<close>
  | StoreType nat nat        \<comment> \<open>before the type map's mutex in \<^verbatim>\<open>Connect\<close>\<close>
  | EraseEndpoint nat        \<comment> \<open>at the start of \<^verbatim>\<open>OnClosed\<close>\<close>
  | EraseType nat            \<comment> \<open>before the type map's mutex in \<^verbatim>\<open>OnClosed\<close>\<close>
  | NotifyClosed nat         \<comment> \<open>before the close callback\<close>

record client =
  cl_options :: client_options
  cl_running :: bool
  cl_slice_count :: int
  cl_quota_in :: int
  cl_quota_out :: int
  cl_max_pending :: int
  cl_keep_alive_ticks :: int
  cl_last_maintain_ticks :: int
  cl_controller :: "flow_controller option"
  session_map :: "(nat \<times> nat) list"
  session_type_map :: "(nat \<times> nat) list"
  cl_sessions :: "nat \<Rightarrow> session"     \<comment> \<open>the session objects, numbered as they are made\<close>
  cl_remote :: "nat \<Rightarrow> nat"           \<comment> \<open>their \<^verbatim>\<open>remote_endpoint()\<close>\<close>
  cl_next :: nat
  close_calls :: "nat list"           \<comment> \<open>the calls of the close callback\<close>
  cl_threads :: "nat \<Rightarrow> client_pc"

definition CLIENT_INTERVAL_IN_MS :: int where "CLIENT_INTERVAL_IN_MS = 500"

definition ClientImpl :: "client_options \<Rightarrow> client" where
  "ClientImpl opts =
     (let slices = max 1 (1000 div CLIENT_INTERVAL_IN_MS)
      in \<lparr>cl_options = opts, cl_running = False, cl_slice_count = slices, cl_quota_in = quota_of (co_max_throughput_in opts) slices,
          cl_quota_out = quota_of (co_max_throughput_out opts) slices, cl_max_pending = max 0 (co_max_pending_buffer_size opts * 1024 * 1024),
          cl_keep_alive_ticks = keep_alive_of (co_keep_alive_time opts), cl_last_maintain_ticks = 0, cl_controller = None,
          session_map = [], session_type_map = [], cl_sessions = (\<lambda>_. Session NT_CLIENT mem0), cl_remote = (\<lambda>_. 0), cl_next = 0,
          close_calls = [], cl_threads = (\<lambda>_. Idle)\<rparr>)"

definition upd_cl :: "nat \<Rightarrow> (session \<Rightarrow> session) \<Rightarrow> client \<Rightarrow> client" where
  "upd_cl i f c = c\<lparr>cl_sessions := (cl_sessions c)(i := f (cl_sessions c i))\<rparr>"

definition StartClient :: "client \<Rightarrow> client" where
  "StartClient c =
     (if cl_running c then c
      else c\<lparr>cl_controller := Some (FlowController (cl_quota_in c = -1) (cl_quota_in c) (cl_quota_out c = -1) (cl_quota_out c)),
             cl_running := True\<rparr>)"

section \<open>Connecting\<close>

text \<open>\<^verbatim>\<open>ResolveAddress\<close> (\<^verbatim>\<open>src/base/endpoint_help.cpp\<close>); the resolver gives an error or the endpoints it has found.\<close>

definition ResolveAddress :: "(string \<Rightarrow> string \<Rightarrow> nat list option) \<Rightarrow> string \<Rightarrow> nat option" where
  "ResolveAddress resolve address =
     (if CHR '':'' \<notin> set address then None
      else case resolve (takeWhile (\<lambda>ch. ch \<noteq> CHR '':'') address) (tl (dropWhile (\<lambda>ch. ch \<noteq> CHR '':'') address)) of
             Some (e # _) \<Rightarrow> Some e
           | _ \<Rightarrow> None)"

text \<open>The part of \<^verbatim>\<open>FindOrCreateStream\<close> under the mutex: the session and whether it is new.\<close>

definition new_session :: "int \<Rightarrow> client \<Rightarrow> session" where
  "new_session now c =
     (let s = Session NT_CLIENT mem0;
          s1 = (case cl_controller c of Some fc \<Rightarrow> s\<lparr>flow_ctl := fc\<rparr> | None \<Rightarrow> s);
          s2 = reset_ticks now True (s1\<lparr>max_pending_buffer_size := cl_max_pending c\<rparr>)
      in (set_connect_timeout (co_connect_timeout (cl_options c)) s2)\<lparr>no_delay := co_no_delay (cl_options c)\<rparr>)"

definition FindOrCreateStream :: "int \<Rightarrow> nat \<Rightarrow> client \<Rightarrow> (nat \<times> bool) \<times> client" where
  "FindOrCreateStream now e c =
     (case map_of (session_map c) e of
        Some i \<Rightarrow> if \<not> is_closed (cl_sessions c i) then ((i, False), c)
                  else ((cl_next c, True), c\<lparr>cl_sessions := (cl_sessions c)(cl_next c := new_session now c),
                         cl_remote := (cl_remote c)(cl_next c := e), session_map := map_put e (cl_next c) (session_map c),
                         cl_next := cl_next c + 1\<rparr>)
      | None \<Rightarrow> ((cl_next c, True), c\<lparr>cl_sessions := (cl_sessions c)(cl_next c := new_session now c),
                         cl_remote := (cl_remote c)(cl_next c := e), session_map := map_put e (cl_next c) (session_map c),
                         cl_next := cl_next c + 1\<rparr>))"

definition store_type :: "nat \<Rightarrow> nat \<Rightarrow> client \<Rightarrow> client" where
  "store_type type i c = c\<lparr>session_type_map := map_put type i (session_type_map c)\<rparr>"

text \<open>\<^verbatim>\<open>Connect\<close> does not look at the result of \<^verbatim>\<open>ResolveAddressByStr\<close>.\<close>

definition ClientConnect :: "(string \<Rightarrow> string \<Rightarrow> nat list option) \<Rightarrow> int \<Rightarrow> nat \<Rightarrow> string \<Rightarrow> client \<Rightarrow> client" where
  "ClientConnect resolve now type address c =
     (let e = (case ResolveAddress resolve address of Some e \<Rightarrow> e | None \<Rightarrow> 0);
          ((i, create), c1) = FindOrCreateStream now e c;
          c2 = (if create then upd_cl i async_connect c1 else c1)
      in store_type type i c2)"

definition GetSession :: "nat \<Rightarrow> client \<Rightarrow> nat option" where
  "GetSession type c = map_of (session_type_map c) type"

definition ClientConnectionCount :: "client \<Rightarrow> int" where
  "ClientConnectionCount c = int (length (session_map c))"

text \<open>Every \<^verbatim>\<open>Client::Send\<close> looks the session up and calls its \<^verbatim>\<open>Send\<close>, or logs that there is none.\<close>

definition ClientSend :: "nat \<Rightarrow> (session \<Rightarrow> session option) \<Rightarrow> client \<Rightarrow> client option" where
  "ClientSend type send c =
     (case GetSession type c of
        Some i \<Rightarrow> map_option (\<lambda>s. upd_cl i (\<lambda>_. s) c) (send (cl_sessions c i))
      | None \<Rightarrow> Some c)"

section \<open>Closing\<close>

text \<open>The two halves of \<^verbatim>\<open>OnClosed\<close>; the result of the first is whether the second follows.\<close>

definition erase_endpoint :: "nat \<Rightarrow> client \<Rightarrow> bool \<times> client" where
  "erase_endpoint i c =
     (case map_of (session_map c) (cl_remote c i) of
        Some j \<Rightarrow> if \<not> is_closed (cl_sessions c j) then (False, c)
                  else (True, c\<lparr>session_map := map_erase (cl_remote c i) (session_map c)\<rparr>)
      | None \<Rightarrow> (True, c\<lparr>session_map := map_erase (cl_remote c i) (session_map c)\<rparr>))"

definition erase_type :: "nat \<Rightarrow> client \<Rightarrow> client" where
  "erase_type i c =
     (case find (\<lambda>(_, j). cl_remote c j = cl_remote c i) (session_type_map c) of
        Some (type, _) \<Rightarrow> c\<lparr>session_type_map := map_erase type (session_type_map c)\<rparr>
      | None \<Rightarrow> c)"

definition notify_closed :: "nat \<Rightarrow> client \<Rightarrow> client" where
  "notify_closed i c = c\<lparr>close_calls := close_calls c @ [i]\<rparr>"

definition ClientOnClosed :: "nat \<Rightarrow> client \<Rightarrow> client" where
  "ClientOnClosed i c =
     (if \<not> cl_running c then c
      else let (go, c1) = erase_endpoint i c in if go then notify_closed i (erase_type i c1) else c1)"

definition client_close :: "string \<Rightarrow> nat \<Rightarrow> client \<Rightarrow> client" where
  "client_close reason i c =
     (let c1 = upd_cl i (close_stream (\<lambda>_ t. t) reason) c in if is_closed (cl_sessions c i) then c1 else ClientOnClosed i c1)"

definition StopSessions :: "client \<Rightarrow> client" where
  "StopSessions c =
     fold (\<lambda>i c. let c1 = upd_cl i (ShutDown (\<lambda>_ t. t)) c in if is_closed (cl_sessions c i) then c1 else ClientOnClosed i c1)
       (map snd (session_map c)) c"

definition ClearSessions :: "client \<Rightarrow> client" where
  "ClearSessions c = c\<lparr>session_map := [], session_type_map := []\<rparr>"

definition StopClient :: "client \<Rightarrow> client" where
  "StopClient c = (if \<not> cl_running c then c else (ClearSessions (StopSessions (c\<lparr>cl_running := False\<rparr>)))\<lparr>cl_controller := None\<rparr>)"

definition ClientResetOptions :: "client_options \<Rightarrow> client \<Rightarrow> client" where
  "ClientResetOptions opts c =
     (let c1 = c\<lparr>cl_options := (cl_options c)\<lparr>co_max_throughput_in := co_max_throughput_in opts,
                  co_max_throughput_out := co_max_throughput_out opts, co_max_pending_buffer_size := co_max_pending_buffer_size opts,
                  co_keep_alive_time := co_keep_alive_time opts\<rparr>,
                cl_quota_in := quota_of (co_max_throughput_in opts) (cl_slice_count c),
                cl_quota_out := quota_of (co_max_throughput_out opts) (cl_slice_count c),
                cl_max_pending := max 0 (co_max_pending_buffer_size opts * 1024 * 1024),
                cl_keep_alive_ticks := keep_alive_of (co_keep_alive_time opts)\<rparr>
      in if cl_max_pending c1 \<noteq> cl_max_pending c
         then fold (\<lambda>i. upd_cl i (\<lambda>s. s\<lparr>max_pending_buffer_size := cl_max_pending c1\<rparr>)) (map snd (session_map c1)) c1
         else c1)"

section \<open>Maintenance\<close>

definition cl_keep_alive_one :: "int \<Rightarrow> nat \<Rightarrow> client \<Rightarrow> client" where
  "cl_keep_alive_one now_ticks i c =
     (if is_closed (cl_sessions c i) then c
      else if now_ticks - last_rw_ticks (cl_sessions c i) \<ge> cl_keep_alive_ticks c then client_close ''keep alive timeout'' i c
      else upd_cl i (reset_ticks now_ticks False) c)"

definition cl_with_controller :: "nat \<Rightarrow> (session \<Rightarrow> session option) \<Rightarrow> client \<Rightarrow> client option" where
  "cl_with_controller i f c =
     (case cl_controller c of
        None \<Rightarrow> None
      | Some fc \<Rightarrow> map_option (\<lambda>s. (upd_cl i (\<lambda>_. s) c)\<lparr>cl_controller := Some (flow_ctl s)\<rparr>) (f ((cl_sessions c i)\<lparr>flow_ctl := fc\<rparr>)))"

definition cl_trigger_list :: "(session \<Rightarrow> int) \<Rightarrow> nat list \<Rightarrow> client \<Rightarrow> nat list" where
  "cl_trigger_list token ss c =
     sort_key (\<lambda>i. - token (cl_sessions c i)) (filter (\<lambda>i. \<not> is_closed (cl_sessions c i) \<and> token (cl_sessions c i) \<le> 0) ss)"

fun cl_trigger_all :: "(session \<Rightarrow> session option) \<Rightarrow> nat list \<Rightarrow> client \<Rightarrow> client option" where
  "cl_trigger_all f [] c = Some c"
| "cl_trigger_all f (i # is) c = Option.bind (cl_with_controller i f c) (cl_trigger_all f is)"

definition cl_recharge_in :: "nat list \<Rightarrow> client \<Rightarrow> client option" where
  "cl_recharge_in ss c =
     (if cl_quota_in c = -1 then Some c
      else case cl_controller c of
             None \<Rightarrow> None
           | Some fc \<Rightarrow>
               (let c1 = c\<lparr>cl_controller := Some (recharge_read_quota (cl_quota_in c) fc)\<rparr>
                in cl_trigger_all (\<lambda>s. Some (snd (trigger_receive s))) (cl_trigger_list read_quota_token ss c1) c1))"

definition cl_recharge_out :: "nat list \<Rightarrow> client \<Rightarrow> client option" where
  "cl_recharge_out ss c =
     (if cl_quota_out c = -1 then Some c
      else case cl_controller c of
             None \<Rightarrow> None
           | Some fc \<Rightarrow>
               (let c1 = c\<lparr>cl_controller := Some (recharge_write_quota (cl_quota_out c) fc)\<rparr>
                in cl_trigger_all (\<lambda>s. map_option snd (trigger_send s)) (cl_trigger_list write_quota_token ss c1) c1))"

definition ClientTimerMaintain :: "int \<Rightarrow> client \<Rightarrow> client option" where
  "ClientTimerMaintain now_ticks c =
     (let ss = map snd (session_map c);
          c1 = (if cl_keep_alive_ticks c \<noteq> -1 then fold (cl_keep_alive_one now_ticks) ss c else c)
      in map_option (\<lambda>c2. c2\<lparr>cl_last_maintain_ticks := now_ticks\<rparr>)
           (if cl_keep_alive_ticks c \<noteq> -1 \<or> cl_quota_in c \<noteq> -1 \<or> cl_quota_out c \<noteq> -1
            then Option.bind (cl_recharge_in ss c1) (cl_recharge_out ss) else Some c))"

section \<open>Threads\<close>

text \<open>
  The steps of the threads that use a client: each is one stay under a mutex, or one change of a session. A session is not
  closed before \<^verbatim>\<open>async_connect\<close> has been called on it, and \<^verbatim>\<open>Stop\<close> comes when no \<^verbatim>\<open>Connect\<close> is under way. A step of
  \<open>works\<close> is anything that a session does by itself and that leaves it open or closed.
\<close>

definition set_thread :: "nat \<Rightarrow> client_pc \<Rightarrow> client \<Rightarrow> client" where
  "set_thread t pc c = c\<lparr>cl_threads := (cl_threads c)(t := pc)\<rparr>"

definition connect_started :: "nat \<Rightarrow> client \<Rightarrow> bool" where
  "connect_started i c \<longleftrightarrow> (\<forall>t type. cl_threads c t \<noteq> StartConnect type i)"

inductive conn_step :: "client \<Rightarrow> client \<Rightarrow> bool" where
  start: "conn_step c (StartClient c)"
| find: "cl_threads c t = Idle \<Longrightarrow> cl_running c \<Longrightarrow> FindOrCreateStream now e c = ((i, create), c') \<Longrightarrow>
    conn_step c (set_thread t (if create then StartConnect type i else StoreType type i) c')"
| connect: "cl_threads c t = StartConnect type i \<Longrightarrow> conn_step c (set_thread t (StoreType type i) (upd_cl i async_connect c))"
| store: "cl_threads c t = StoreType type i \<Longrightarrow> conn_step c (set_thread t Idle (store_type type i c))"
| close: "cl_threads c t = Idle \<Longrightarrow> i < cl_next c \<Longrightarrow> \<not> is_closed (cl_sessions c i) \<Longrightarrow> connect_started i c \<Longrightarrow>
    conn_step c (set_thread t (EraseEndpoint i) (upd_cl i (close_stream (\<lambda>_ t. t) reason) c))"
| not_running: "cl_threads c t = EraseEndpoint i \<Longrightarrow> \<not> cl_running c \<Longrightarrow> conn_step c (set_thread t Idle c)"
| erase_endpoint: "cl_threads c t = EraseEndpoint i \<Longrightarrow> cl_running c \<Longrightarrow> erase_endpoint i c = (go, c') \<Longrightarrow>
    conn_step c (set_thread t (if go then EraseType i else Idle) c')"
| erase_type: "cl_threads c t = EraseType i \<Longrightarrow> conn_step c (set_thread t (NotifyClosed i) (erase_type i c))"
| notify: "cl_threads c t = NotifyClosed i \<Longrightarrow> conn_step c (set_thread t Idle (notify_closed i c))"
| works: "is_closed (f (cl_sessions c i)) = is_closed (cl_sessions c i) \<Longrightarrow> conn_step c (upd_cl i f c)"
| reset: "conn_step c (ClientResetOptions opts c)"
| stop: "cl_running c \<Longrightarrow> \<forall>t type i. cl_threads c t \<noteq> StartConnect type i \<Longrightarrow> conn_step c (StopClient c)"

inductive_cases conn_stepE: "conn_step c c'"

section \<open>One open session per endpoint\<close>

definition client_inv :: "client \<Rightarrow> bool" where
  "client_inv c \<longleftrightarrow> (\<forall>i < cl_next c. \<not> is_closed (cl_sessions c i) \<longrightarrow> map_of (session_map c) (cl_remote c i) = Some i) \<and>
     (\<forall>t type i. cl_threads c t = StartConnect type i \<longrightarrow> i < cl_next c \<and> \<not> is_closed (cl_sessions c i))"

lemma upd_cl_simps [simp]:
  "cl_sessions (upd_cl i f c) = (cl_sessions c)(i := f (cl_sessions c i))" "cl_remote (upd_cl i f c) = cl_remote c"
  "session_map (upd_cl i f c) = session_map c" "session_type_map (upd_cl i f c) = session_type_map c" "cl_next (upd_cl i f c) = cl_next c"
  "cl_threads (upd_cl i f c) = cl_threads c" "cl_running (upd_cl i f c) = cl_running c" "cl_controller (upd_cl i f c) = cl_controller c"
  "cl_quota_in (upd_cl i f c) = cl_quota_in c" "cl_quota_out (upd_cl i f c) = cl_quota_out c"
  "cl_keep_alive_ticks (upd_cl i f c) = cl_keep_alive_ticks c" "close_calls (upd_cl i f c) = close_calls c"
  by (simp_all add: upd_cl_def)

lemma set_thread_simps [simp]:
  "cl_sessions (set_thread t pc c) = cl_sessions c" "cl_remote (set_thread t pc c) = cl_remote c"
  "session_map (set_thread t pc c) = session_map c" "session_type_map (set_thread t pc c) = session_type_map c"
  "cl_next (set_thread t pc c) = cl_next c" "cl_threads (set_thread t pc c) = (cl_threads c)(t := pc)"
  "cl_running (set_thread t pc c) = cl_running c"
  by (simp_all add: set_thread_def)

lemma async_connect_open [simp]: "\<not> is_closed (async_connect s)"
  by (simp add: async_connect_def is_closed_def emit_def Let_def)

lemma new_session_open [simp]: "\<not> is_closed (new_session now c)"
  by (simp add: new_session_def is_closed_def Session_def Let_def set_connect_timeout_def reset_ticks_def split: option.splits)

lemma erase_type_simps [simp]:
  "cl_sessions (erase_type i c) = cl_sessions c" "cl_remote (erase_type i c) = cl_remote c" "session_map (erase_type i c) = session_map c"
  "cl_next (erase_type i c) = cl_next c" "cl_threads (erase_type i c) = cl_threads c" "cl_running (erase_type i c) = cl_running c"
  "cl_controller (erase_type i c) = cl_controller c" "cl_keep_alive_ticks (erase_type i c) = cl_keep_alive_ticks c"
  "cl_quota_in (erase_type i c) = cl_quota_in c" "cl_quota_out (erase_type i c) = cl_quota_out c"
  by (auto simp: erase_type_def split: option.splits)

lemma notify_closed_simps [simp]:
  "cl_sessions (notify_closed i c) = cl_sessions c" "cl_remote (notify_closed i c) = cl_remote c" "session_map (notify_closed i c) = session_map c"
  "cl_next (notify_closed i c) = cl_next c" "cl_threads (notify_closed i c) = cl_threads c" "cl_running (notify_closed i c) = cl_running c"
  "cl_controller (notify_closed i c) = cl_controller c" "cl_keep_alive_ticks (notify_closed i c) = cl_keep_alive_ticks c"
  "cl_quota_in (notify_closed i c) = cl_quota_in c" "cl_quota_out (notify_closed i c) = cl_quota_out c"
  "session_type_map (notify_closed i c) = session_type_map c"
  by (simp_all add: notify_closed_def)

text \<open>What a change of the sessions and of the map keeps when open sessions were open before and stay in the map.\<close>

lemma client_inv_change:
  assumes "client_inv c" and "cl_next c' = cl_next c" and "cl_remote c' = cl_remote c"
    and "\<And>i. i < cl_next c \<Longrightarrow> \<not> is_closed (cl_sessions c' i) \<Longrightarrow> \<not> is_closed (cl_sessions c i) \<and>
           map_of (session_map c') (cl_remote c i) = map_of (session_map c) (cl_remote c i)"
    and "\<And>t type i. cl_threads c' t = StartConnect type i \<Longrightarrow> cl_threads c t = StartConnect type i \<and>
           (is_closed (cl_sessions c' i) \<longrightarrow> is_closed (cl_sessions c i))"
  shows "client_inv c'"
proof -
  have "map_of (session_map c') (cl_remote c' i) = Some i" if "i < cl_next c'" "\<not> is_closed (cl_sessions c' i)" for i
    using that assms(1) assms(4) [of i] by (simp add: client_inv_def assms(2,3))
  moreover have "i < cl_next c' \<and> \<not> is_closed (cl_sessions c' i)" if "cl_threads c' t = StartConnect type i" for t type i
    using assms(5) [OF that] assms(1) assms(2) by (auto simp: client_inv_def)
  ultimately show ?thesis by (simp add: client_inv_def)
qed

lemma client_inv_find:
  assumes "client_inv c" and "FindOrCreateStream now e c = ((i, create), c')"
  shows "client_inv (set_thread t (if create then StartConnect type i else StoreType type i) c')"
  using assms
  by (force simp: client_inv_def FindOrCreateStream_def split: option.splits if_splits)

lemma reset_fold:
  "cl_next (fold (\<lambda>i. upd_cl i f) is c) = cl_next c \<and> cl_remote (fold (\<lambda>i. upd_cl i f) is c) = cl_remote c \<and>
   session_map (fold (\<lambda>i. upd_cl i f) is c) = session_map c \<and> cl_threads (fold (\<lambda>i. upd_cl i f) is c) = cl_threads c \<and>
   cl_controller (fold (\<lambda>i. upd_cl i f) is c) = cl_controller c \<and> cl_quota_in (fold (\<lambda>i. upd_cl i f) is c) = cl_quota_in c \<and>
   cl_quota_out (fold (\<lambda>i. upd_cl i f) is c) = cl_quota_out c \<and>
   ((\<forall>s. is_closed (f s) = is_closed s) \<longrightarrow> (\<forall>j. is_closed (cl_sessions (fold (\<lambda>i. upd_cl i f) is c) j) = is_closed (cl_sessions c j)))"
  by (induction "is" arbitrary: c) auto

lemma set_pending_closed [simp]: "is_closed (s\<lparr>max_pending_buffer_size := n\<rparr>) = is_closed s"
  by (simp add: is_closed_def)

lemma client_inv_reset: "client_inv c \<Longrightarrow> client_inv (ClientResetOptions opts c)"
  by (rule client_inv_change, assumption)
    (auto simp: ClientResetOptions_def Let_def reset_fold set_pending_closed split: if_splits)

text \<open>While the client is not running, \<^verbatim>\<open>OnClosed\<close> does nothing, and \<^verbatim>\<open>StopSessions\<close> only closes.\<close>

lemma stop_fold:
  fixes g :: "nat \<Rightarrow> client \<Rightarrow> client"
  assumes "\<not> cl_running c" and g: "\<And>i c. g i c = (let c1 = upd_cl i (ShutDown (\<lambda>_ t. t)) c in if is_closed (cl_sessions c i) then c1 else ClientOnClosed i c1)"
  shows "cl_next (fold g is c) = cl_next c \<and> cl_remote (fold g is c) = cl_remote c \<and> cl_threads (fold g is c) = cl_threads c \<and>
    (\<forall>j. is_closed (cl_sessions (fold g is c) j) \<longleftrightarrow> j \<in> set is \<or> is_closed (cl_sessions c j))"
  using assms(1)
proof (induction "is" arbitrary: c)
  case (Cons i "is")
  have "g i c = upd_cl i (ShutDown (\<lambda>_ t. t)) c" using Cons.prems by (simp add: g ClientOnClosed_def Let_def)
  then show ?case using Cons.IH [of "g i c"] Cons.prems by (auto simp: ShutDown_def)
qed simp

lemma client_inv_stop:
  assumes "client_inv c" and "cl_running c" and "\<forall>t type i. cl_threads c t \<noteq> StartConnect type i"
  shows "client_inv (StopClient c)"
proof -
  let ?c = "c\<lparr>cl_running := False\<rparr>"
  have f: "cl_next (StopSessions ?c) = cl_next c" "cl_remote (StopSessions ?c) = cl_remote c" "cl_threads (StopSessions ?c) = cl_threads c"
      "\<And>j. is_closed (cl_sessions (StopSessions ?c) j) \<longleftrightarrow> j \<in> snd ` set (session_map c) \<or> is_closed (cl_sessions c j)"
    using stop_fold [of ?c _ "map snd (session_map c)", OF _ refl] by (simp_all add: StopSessions_def)
  have "is_closed (cl_sessions (StopSessions ?c) j)" if "j < cl_next c" for j
    using assms(1) that f(4) [of j] by (force simp: client_inv_def dest: map_of_SomeD)
  then show ?thesis using assms f by (simp add: StopClient_def ClearSessions_def client_inv_def)
qed

lemma client_inv_erase:
  assumes "client_inv c" and "erase_endpoint i c = (go, c')"
  shows "client_inv (set_thread t (if go then EraseType i else Idle) c')"
proof -
  have gone: "is_closed (cl_sessions c k)"
    if "\<not> (\<exists>j. map_of (session_map c) (cl_remote c i) = Some j \<and> \<not> is_closed (cl_sessions c j))" "cl_remote c k = cl_remote c i" "k < cl_next c" for k
    using assms(1) that by (metis client_inv_def)
  have "c' = c \<or> \<not> (\<exists>j. map_of (session_map c) (cl_remote c i) = Some j \<and> \<not> is_closed (cl_sessions c j)) \<and>
      c' = c\<lparr>session_map := map_erase (cl_remote c i) (session_map c)\<rparr>"
    using assms(2) by (auto simp: erase_endpoint_def split: option.splits if_splits)
  then show ?thesis
  proof (elim disjE conjE)
    assume c': "c' = c"
    show ?thesis by (rule client_inv_change [OF assms(1)]) (simp_all add: c' split: if_splits)
  next
    assume n: "\<not> (\<exists>j. map_of (session_map c) (cl_remote c i) = Some j \<and> \<not> is_closed (cl_sessions c j))"
      and c': "c' = c\<lparr>session_map := map_erase (cl_remote c i) (session_map c)\<rparr>"
    show ?thesis by (rule client_inv_change [OF assms(1)]) (use gone [OF n] in \<open>auto simp: c' split: if_splits\<close>)
  qed
qed

lemma client_inv_step: "conn_step c c' \<Longrightarrow> client_inv c \<Longrightarrow> client_inv c'"
proof (induction rule: conn_step.induct)
  case (start c)
  show ?case by (rule client_inv_change [OF start]) (simp_all add: StartClient_def split: if_splits)
next
  case (find c t now e i create c' type)
  then show ?case using client_inv_find by blast
next
  case (connect c t type i)
  then have i: "i < cl_next c" "\<not> is_closed (cl_sessions c i)" by (simp_all add: client_inv_def)
  show ?case by (rule client_inv_change [OF connect.prems]) (use i in \<open>simp_all split: if_splits\<close>)
next
  case (store c t type i)
  show ?case by (rule client_inv_change [OF store.prems]) (simp_all add: store_type_def split: if_splits)
next
  case (close c t i reason)
  show ?case
    by (rule client_inv_change [OF close.prems]) (use close.hyps(4) in \<open>auto simp: connect_started_def split: if_splits\<close>)
next
  case (not_running c t i)
  show ?case by (rule client_inv_change [OF not_running.prems]) (simp_all split: if_splits)
next
  case (erase_endpoint c t i go c')
  then show ?case by (rule_tac client_inv_erase)
next
  case (erase_type c t i)
  show ?case by (rule client_inv_change [OF erase_type.prems]) (simp_all split: if_splits)
next
  case (notify c t i)
  show ?case by (rule client_inv_change [OF notify.prems]) (simp_all split: if_splits)
next
  case (works f c i)
  show ?case by (rule client_inv_change [OF works.prems]) (use works.hyps in \<open>auto split: if_splits\<close>)
next
  case (reset c opts)
  then show ?case by (rule client_inv_reset)
next
  case (stop c)
  then show ?case by (rule_tac client_inv_stop)
qed

interpretation client_tables: kept_invariant conn_step "ClientImpl opts" client_inv for opts
proof
  show "client_inv (ClientImpl opts)" by (simp add: client_inv_def ClientImpl_def Let_def)
qed (rule client_inv_step)

text \<open>
  C18. However the threads of a client are interleaved, it never has two open sessions to one endpoint: every open session is the
  one its endpoint leads to. (No session is closed before \<^verbatim>\<open>async_connect\<close> has been called on it, and \<^verbatim>\<open>Stop\<close> does not overlap a
  \<^verbatim>\<open>Connect\<close>: both are conditions of the steps above.)
\<close>

theorem one_open_session_per_endpoint:
  assumes "conn_step\<^sup>*\<^sup>* (ClientImpl opts) c" and "i < cl_next c" and "\<not> is_closed (cl_sessions c i)"
  shows "map_of (session_map c) (cl_remote c i) = Some i \<and>
    (\<forall>j < cl_next c. \<not> is_closed (cl_sessions c j) \<longrightarrow> cl_remote c j = cl_remote c i \<longrightarrow> j = i)"
proof -
  have "client_inv c" using client_tables.reach_inv assms(1) .
  then show ?thesis using assms(2,3) unfolding client_inv_def by (metis option.inject)
qed

theorem one_open_session_per_endpoint_witness:
  "\<exists>c. conn_step\<^sup>*\<^sup>* (ClientImpl ClientOptions) c \<and> cl_next c = 1 \<and> map_of (session_map c) 7 = Some 0"
proof -
  let ?c1 = "StartClient (ClientImpl ClientOptions)"
  obtain i create c2 where f: "FindOrCreateStream 0 7 ?c1 = ((i, create), c2)" by (metis prod.exhaust)
  have idle: "cl_threads ?c1 0 = Idle" "cl_running ?c1" by (simp_all add: StartClient_def ClientImpl_def Let_def)
  have made: "cl_next c2 = 1" "cl_remote c2 0 = 7" "\<not> is_closed (cl_sessions c2 0)"
    using f by (auto simp: FindOrCreateStream_def StartClient_def ClientImpl_def Let_def)
  have "conn_step\<^sup>*\<^sup>* (ClientImpl ClientOptions) (set_thread 0 (if create then StartConnect 3 i else StoreType 3 i) c2)"
    using conn_step.start conn_step.find [OF idle f] by (meson converse_rtranclp_into_rtranclp rtranclp.rtrancl_refl)
  then show ?thesis using one_open_session_per_endpoint [of ClientOptions _ 0] made by (metis set_thread_simps(1-5) zero_less_one)
qed

section \<open>The table of types\<close>

text \<open>\<^verbatim>\<open>OnClosed\<close> takes only the first type of an endpoint out of its table.\<close>

lemma first_type_erased:
  assumes "find (\<lambda>(_, j). cl_remote c j = cl_remote c i) (session_type_map c) = Some (type, k)"
  shows "GetSession other (erase_type i c) = (if other = type then None else GetSession other c)"
  using assms by (simp add: erase_type_def GetSession_def)

text \<open>
  A session that serves two types and closes is taken away from the first of them only: for the other, \<^verbatim>\<open>GetSession\<close> goes on
  to return the closed session, and everything sent through it fails.
\<close>

theorem second_type_keeps_closed_session:
  assumes "session_type_map c = [(a, i), (b, i)]" and "a < b" and "cl_running c" and "\<not> is_closed (cl_sessions c i)"
    and "map_of (session_map c) (cl_remote c i) = Some i"
  shows "let c' = client_close reason i c in
    GetSession a c' = None \<and> GetSession b c' = Some i \<and> is_closed (cl_sessions c' i) \<and> map_of (session_map c') (cl_remote c i) = None \<and>
    close_calls c' = close_calls c @ [i] \<and>
    (\<forall>message. ClientSend b (async_send_message message) c'
       = Some (upd_cl i (emit (SendFailed ''status is close'' (Some message))) c'))"
proof -
  let ?c1 = "upd_cl i (close_stream (\<lambda>_ t. t) reason) c"
  have "erase_endpoint i ?c1 = (True, ?c1\<lparr>session_map := map_erase (cl_remote c i) (session_map c)\<rparr>)"
    using assms(5) by (simp add: erase_endpoint_def)
  then have c': "client_close reason i c = notify_closed i (?c1\<lparr>session_map := map_erase (cl_remote c i) (session_map c),
      session_type_map := [(b, i)]\<rparr>)"
    using assms(1-4) by (simp add: client_close_def ClientOnClosed_def Let_def erase_type_def map_erase_def)
  then show ?thesis using assms(1,2)
    by (simp add: Let_def GetSession_def ClientSend_def async_send_message_def notify_closed_def upd_cl_def)
qed

theorem second_type_keeps_closed_session_witness:
  "\<exists>c. GetSession 1 c = None \<and> GetSession 2 c = Some 0 \<and> is_closed (cl_sessions c 0)"
proof -
  let ?c = "(StartClient (ClientImpl ClientOptions))\<lparr>session_map := [(7, 0)], session_type_map := [(1, 0), (2, 0)],
    cl_remote := (\<lambda>_. 7), cl_next := 1\<rparr>"
  have "cl_running ?c" "\<not> is_closed (cl_sessions ?c 0)"
    by (simp_all add: StartClient_def ClientImpl_def Let_def is_closed_def Session_def)
  then show ?thesis
    using second_type_keeps_closed_session [of ?c 1 0 2 "''keep alive timeout''"] unfolding Let_def by auto
qed

text \<open>A whole \<^verbatim>\<open>Connect\<close> of one thread to an endpoint without an open session.\<close>

definition connected_client :: "int \<Rightarrow> nat \<Rightarrow> nat \<Rightarrow> client \<Rightarrow> client" where
  "connected_client now type e c = store_type type (cl_next c) (upd_cl (cl_next c) async_connect (snd (FindOrCreateStream now e c)))"

lemma connect_steps:
  assumes "cl_threads c t = Idle" and "cl_running c" and "map_of (session_map c) e = None"
  shows "conn_step\<^sup>*\<^sup>* c (set_thread t Idle (connected_client now type e c))"
proof -
  obtain c1 where f: "FindOrCreateStream now e c = ((cl_next c, True), c1)"
    using assms(3) by (simp add: FindOrCreateStream_def)
  let ?c2 = "set_thread t (StartConnect type (cl_next c)) c1"
  let ?c3 = "set_thread t (StoreType type (cl_next c)) (upd_cl (cl_next c) async_connect ?c2)"
  have "conn_step c ?c2" using conn_step.find [OF assms(1,2) f, of type] by simp
  moreover have "conn_step ?c2 ?c3" by (rule conn_step.connect) simp
  moreover have "conn_step ?c3 (set_thread t Idle (store_type type (cl_next c) ?c3))" by (rule conn_step.store) simp
  moreover have "set_thread t Idle (store_type type (cl_next c) ?c3) = set_thread t Idle (connected_client now type e c)"
    using f by (simp add: connected_client_def set_thread_def store_type_def upd_cl_def)
  ultimately show ?thesis by (metis converse_rtranclp_into_rtranclp rtranclp.rtrancl_refl)
qed

lemma connected_client_simps:
  assumes "map_of (session_map c) e = None"
  shows "map_of (session_map (connected_client now type e c)) = (map_of (session_map c))(e \<mapsto> cl_next c)"
    "session_type_map (connected_client now type e c) = map_put type (cl_next c) (session_type_map c)"
    "cl_remote (connected_client now type e c) = (cl_remote c)(cl_next c := e)" "cl_next (connected_client now type e c) = Suc (cl_next c)"
    "cl_threads (connected_client now type e c) = cl_threads c" "cl_running (connected_client now type e c) = cl_running c"
    "\<not> is_closed (cl_sessions (connected_client now type e c) (cl_next c))"
  using assms by (simp_all add: connected_client_def FindOrCreateStream_def store_type_def)

text \<open>
  \<^verbatim>\<open>OnClosed\<close> lets the first mutex go before it takes the second, and looks for the endpoint only: when a client connects again
  in between, the type of the new session is taken out, so that \<^verbatim>\<open>GetSession\<close> finds nothing although the session is open.
\<close>

theorem reconnect_loses_type:
  "\<exists>c. conn_step\<^sup>*\<^sup>* (ClientImpl opts) c \<and> (\<forall>t. cl_threads c t = Idle) \<and> cl_running c \<and>
     map_of (session_map c) e = Some 1 \<and> \<not> is_closed (cl_sessions c 1) \<and> cl_remote c 1 = e \<and> GetSession type c = None"
proof -
  let ?c1 = "StartClient (ClientImpl opts)"
  let ?c2 = "set_thread 0 Idle (connected_client 0 type e ?c1)"
  let ?c3 = "set_thread 1 (EraseEndpoint 0) (upd_cl 0 (close_stream (\<lambda>_ t. t) []) ?c2)"
  let ?c4 = "set_thread 1 (EraseType 0) (?c3\<lparr>session_map := map_erase e (session_map ?c3)\<rparr>)"
  let ?c5 = "set_thread 0 Idle (connected_client 0 type e ?c4)"
  let ?c6 = "set_thread 1 (NotifyClosed 0) (erase_type 0 ?c5)"
  let ?c7 = "set_thread 1 Idle (notify_closed 0 ?c6)"
  have c1: "cl_threads ?c1 = (\<lambda>_. Idle)" "cl_running ?c1" "session_map ?c1 = []" "session_type_map ?c1 = []" "cl_next ?c1 = 0"
    by (simp_all add: StartClient_def ClientImpl_def Let_def)
  note s2 = connected_client_simps [of ?c1 e 0 type]
  have c2: "cl_threads ?c2 = (\<lambda>_. Idle)" "cl_running ?c2" "map_of (session_map ?c2) e = Some 0" "session_type_map ?c2 = [(type, 0)]"
      "cl_next ?c2 = 1" "cl_remote ?c2 0 = e" "\<not> is_closed (cl_sessions ?c2 0)"
    using s2 c1 by (simp_all add: fun_eq_iff)
  have c4: "map_of (session_map ?c4) e = None" "cl_threads ?c4 0 = Idle" "cl_running ?c4" "cl_next ?c4 = 1"
      "cl_remote ?c4 0 = e" "session_type_map ?c4 = [(type, 0)]" "cl_threads ?c4 = (\<lambda>_. Idle)(1 := EraseType 0)"
    using c2 by (simp_all add: fun_eq_iff)
  note s5 = connected_client_simps [OF c4(1), of 0 type]
  have c5: "cl_threads ?c5 = (\<lambda>_. Idle)(1 := EraseType 0)" "cl_running ?c5" "map_of (session_map ?c5) e = Some 1"
      "session_type_map ?c5 = [(type, 1)]" "cl_remote ?c5 0 = e" "cl_remote ?c5 1 = e" "\<not> is_closed (cl_sessions ?c5 1)"
    using s5 c4 by (simp_all add: fun_eq_iff)
  have "conn_step\<^sup>*\<^sup>* ?c1 ?c2" by (rule connect_steps) (simp_all add: c1)
  moreover have "conn_step ?c2 ?c3" by (rule conn_step.close) (use c2 in \<open>simp_all add: connect_started_def\<close>)
  moreover have "conn_step ?c3 (set_thread 1 (if True then EraseType 0 else Idle) (?c3\<lparr>session_map := map_erase e (session_map ?c3)\<rparr>))"
    by (rule conn_step.erase_endpoint) (use c2 in \<open>simp_all add: erase_endpoint_def\<close>)
  moreover have "conn_step\<^sup>*\<^sup>* ?c4 ?c5" by (rule connect_steps) (use c4 in simp_all)
  moreover have "conn_step ?c5 ?c6" by (rule conn_step.erase_type) (use c5 in simp)
  moreover have "conn_step ?c6 ?c7" by (rule conn_step.notify) simp
  moreover have "conn_step (ClientImpl opts) ?c1" by (rule conn_step.start)
  ultimately have "conn_step\<^sup>*\<^sup>* (ClientImpl opts) ?c7"
    unfolding if_True by (meson rtranclp.rtrancl_into_rtrancl converse_rtranclp_into_rtranclp rtranclp_trans)
  moreover have "session_type_map ?c7 = []" using c5 by (simp add: erase_type_def map_erase_def)
  ultimately show ?thesis using c5
    by (intro exI [of _ ?c7]) (simp add: GetSession_def)
qed

section \<open>Options\<close>

text \<open>
  \<^verbatim>\<open>ResetOptions\<close> leaves the flow controller as it is: when a client that has used up its quota lifts its limits, the
  maintenance runs no longer recharge it, and nothing is ever received or sent again.
\<close>

theorem lifted_limit_starves:
  assumes "cl_controller c = Some fc" and "\<not> read_no_limit fc" and "read_quota fc \<le> 0" and "\<not> write_no_limit fc" and "write_quota fc \<le> 0"
    and "co_max_throughput_in opts = -1" and "co_max_throughput_out opts = -1" and "co_keep_alive_time opts = -1"
  shows "let c0 = ClientResetOptions opts c in
    \<exists>c'. foldl (\<lambda>r now. Option.bind r (ClientTimerMaintain now)) (Some c0) nows = Some c' \<and>
      cl_quota_in c' = -1 \<and> cl_quota_out c' = -1 \<and>
      (\<exists>fc'. cl_controller c' = Some fc' \<and> fst (acquire_read_quota n fc') \<le> 0 \<and> fst (acquire_write_quota n fc') \<le> 0)"
proof -
  have run: "\<exists>c'. foldl (\<lambda>r now. Option.bind r (ClientTimerMaintain now)) (Some d) nows = Some c' \<and>
      cl_quota_in c' = -1 \<and> cl_quota_out c' = -1 \<and> cl_controller c' = Some fc"
    if "cl_quota_in d = -1" "cl_quota_out d = -1" "cl_keep_alive_ticks d = -1" "cl_controller d = Some fc" for d
    using that by (induction nows arbitrary: d) (simp_all add: ClientTimerMaintain_def Let_def)
  have "cl_keep_alive_ticks (fold (\<lambda>i. upd_cl i f) is u) = cl_keep_alive_ticks u" for f "is" u
    by (induction "is" arbitrary: u) simp_all
  then have "\<exists>c'. foldl (\<lambda>r now. Option.bind r (ClientTimerMaintain now)) (Some (ClientResetOptions opts c)) nows = Some c' \<and>
      cl_quota_in c' = -1 \<and> cl_quota_out c' = -1 \<and> cl_controller c' = Some fc"
    using assms by (intro run) (simp_all add: ClientResetOptions_def Let_def quota_of_def keep_alive_of_def reset_fold)
  moreover have "fst (acquire_read_quota n fc) \<le> 0" "fst (acquire_write_quota n fc) \<le> 0"
    using assms(2-5) by (simp_all add: acquire_read_quota_def acquire_write_quota_def atomic_comp_swap_def Let_def split: prod.splits)
  ultimately show ?thesis unfolding Let_def by blast
qed

theorem lifted_limit_starves_witness:
  "\<exists>c c'. cl_quota_in c = 524288 \<and> ClientTimerMaintain 1 (ClientResetOptions ClientOptions c) = Some c' \<and>
     (\<exists>fc'. cl_controller c' = Some fc' \<and> fst (acquire_write_quota 1 fc') \<le> 0)"
proof -
  let ?c = "(StartClient (ClientImpl (ClientOptions\<lparr>co_max_throughput_in := 1, co_max_throughput_out := 1\<rparr>)))
    \<lparr>cl_controller := Some (FlowController False 0 False 0)\<rparr>"
  have "cl_quota_in ?c = 524288"
    by (simp add: StartClient_def ClientImpl_def Let_def quota_of_def ClientOptions_def CLIENT_INTERVAL_IN_MS_def)
  moreover have "\<exists>c'. ClientTimerMaintain 1 (ClientResetOptions ClientOptions ?c) = Some c' \<and>
     (\<exists>fc'. cl_controller c' = Some fc' \<and> fst (acquire_write_quota 1 fc') \<le> 0)"
    using lifted_limit_starves [of ?c "FlowController False 0 False 0" ClientOptions "[1]" 1]
    unfolding Let_def by (auto simp: FlowController_def ClientOptions_def)
  ultimately show ?thesis by blast
qed

end
