(* ===== verification/Kcp_Listener.thy ===== *)
theory Kcp_Listener
  imports Server_Sessions
begin

text \<open>
  \<^verbatim>\<open>KcpListener\<close> (\<^verbatim>\<open>src/network/io/kcp_listener.cpp\<close>): one UDP socket whose datagrams are handed to sessions by their
  conversation number. The listener runs on its own IO thread and posts the work of a session to the context of that session,
  whose thread runs its tasks in order. \<^verbatim>\<open>ikcp_getconv\<close> is a parameter, as is whether \<^verbatim>\<open>SetupKcp\<close> succeeds.
\<close>

section \<open>State\<close>

datatype kcp_task =
    SetupTask nat nat u32 "byte list"     \<comment> \<open>session, sender, conversation, first datagram\<close>
  | InputTask nat "byte list"

datatype kcp_call =
    FlowControllerSet
  | SetupCalled nat u32
  | SetupFailed
  | RemoteUpdated
  | CreateCalled
  | AcceptCalled
  | KcpInput "byte list"

record kcp_listener =
  kl_closed :: bool
  kl_controller :: bool                   \<comment> \<open>whether there is a flow controller\<close>
  kl_receiving :: bool                    \<comment> \<open>whether a receive is under way\<close>
  kcp_map :: "u32 \<rightharpoonup> nat"
  kl_pool :: io_service_pool
  kl_next :: nat                          \<comment> \<open>the number of the next session object\<close>
  kl_io :: "nat \<Rightarrow> nat"                   \<comment> \<open>the context of a session\<close>
  kl_dead :: "nat \<Rightarrow> bool"                \<comment> \<open>\<^verbatim>\<open>is_closed()\<close> of a session\<close>
  io_tasks :: "nat \<Rightarrow> kcp_task list"      \<comment> \<open>what has been posted to a context\<close>
  kl_calls :: "nat \<Rightarrow> kcp_call list"      \<comment> \<open>the calls a session has seen\<close>
  kl_got :: "nat \<Rightarrow> byte list list"       \<comment> \<open>the datagrams that were handed to a session\<close>

definition KcpListener :: "io_service_pool \<Rightarrow> kcp_listener" where
  "KcpListener pl = \<lparr>kl_closed = True, kl_controller = False, kl_receiving = False, kcp_map = Map.empty, kl_pool = pl, kl_next = 0,
     kl_io = (\<lambda>_. 0), kl_dead = (\<lambda>_. False), io_tasks = (\<lambda>_. []), kl_calls = (\<lambda>_. []), kl_got = (\<lambda>_. [])\<rparr>"

section \<open>Operations\<close>

definition kcp_close :: "kcp_listener \<Rightarrow> kcp_listener" where
  "kcp_close k = (if kl_closed k then k else k\<lparr>kl_closed := True, kl_receiving := False, kcp_map := Map.empty\<rparr>)"

definition StartReceive :: "kcp_listener \<Rightarrow> kcp_listener" where
  "StartReceive k = (if kl_closed k then k else k\<lparr>kl_receiving := True\<rparr>)"

definition start_listen :: "bool \<Rightarrow> bool \<Rightarrow> kcp_listener \<Rightarrow> bool \<times> kcp_listener" where
  "start_listen opened bound k =
     (if \<not> opened then (False, k) else if \<not> bound then (False, k) else (True, StartReceive (k\<lparr>kl_closed := False\<rparr>)))"

definition post_io :: "nat \<Rightarrow> kcp_task \<Rightarrow> kcp_listener \<Rightarrow> kcp_listener" where
  "post_io io t k = k\<lparr>io_tasks := (io_tasks k)(io := io_tasks k io @ [t])\<rparr>"

definition note_datagram :: "nat \<Rightarrow> byte list \<Rightarrow> kcp_listener \<Rightarrow> kcp_listener" where
  "note_datagram i d k = k\<lparr>kl_got := (kl_got k)(i := kl_got k i @ [d])\<rparr>"

text \<open>A datagram, after the test of the closed flag; \<open>d\<close> is what was received of the buffer.\<close>

definition take_datagram :: "(byte list \<Rightarrow> u32) \<Rightarrow> nat \<Rightarrow> byte list \<Rightarrow> kcp_listener \<Rightarrow> kcp_listener" where
  "take_datagram getconv sender d k =
     (let conv = getconv d
      in case kcp_map k conv of
           Some i \<Rightarrow> if \<not> kl_dead k i then post_io (kl_io k i) (InputTask i d) (note_datagram i d k)
                     else k\<lparr>kcp_map := (kcp_map k)(conv := None)\<rparr>
         | None \<Rightarrow>
             (let (io, pl) = GetIoService (kl_pool k); i = kl_next k;
                  k1 = k\<lparr>kl_pool := pl, kl_next := i + 1, kl_io := (kl_io k)(i := io), kcp_map := (kcp_map k)(conv \<mapsto> i)\<rparr>
              in post_io io (SetupTask i sender conv d) (note_datagram i d k1)))"

definition OnReceive :: "(byte list \<Rightarrow> u32) \<Rightarrow> bool \<Rightarrow> nat \<Rightarrow> byte list \<Rightarrow> kcp_listener \<Rightarrow> kcp_listener" where
  "OnReceive getconv failed sender d k =
     (let k0 = k\<lparr>kl_receiving := False\<rparr>
      in if kl_closed k then k0
         else StartReceive (if \<not> failed \<and> d \<noteq> [] then take_datagram getconv sender d k0 else k0))"

definition log_calls :: "nat \<Rightarrow> kcp_call list \<Rightarrow> kcp_listener \<Rightarrow> kcp_listener" where
  "log_calls i cs k = k\<lparr>kl_calls := (kl_calls k)(i := kl_calls k i @ cs)\<rparr>"

definition setup_calls :: "bool \<Rightarrow> bool \<Rightarrow> nat \<Rightarrow> u32 \<Rightarrow> kcp_call list" where
  "setup_calls ctl ok sender conv =
     (if ctl then [FlowControllerSet] else []) @ SetupCalled sender conv # (if ok then [RemoteUpdated, CreateCalled, AcceptCalled] else [SetupFailed])"

text \<open>The thread of a context runs its first task; \<open>ok\<close> is the result of \<^verbatim>\<open>SetupKcp\<close>. A failure closes the session.\<close>

definition run_kcp_task :: "nat \<Rightarrow> bool \<Rightarrow> kcp_listener \<Rightarrow> kcp_listener" where
  "run_kcp_task io ok k =
     (case io_tasks k io of
        [] \<Rightarrow> k
      | InputTask i d # ts \<Rightarrow> log_calls i [KcpInput d] (k\<lparr>io_tasks := (io_tasks k)(io := ts)\<rparr>)
      | SetupTask i sender conv d # ts \<Rightarrow>
          (let k1 = log_calls i (setup_calls (kl_controller k) ok sender conv) (k\<lparr>io_tasks := (io_tasks k)(io := ts)\<rparr>)
           in if ok then log_calls i [KcpInput d] k1 else k1\<lparr>kl_dead := (kl_dead k1)(i := True)\<rparr>))"

inductive kcp_step :: "(byte list \<Rightarrow> u32) \<Rightarrow> kcp_listener \<Rightarrow> kcp_listener \<Rightarrow> bool" for getconv where
  set_controller: "kcp_step getconv k (k\<lparr>kl_controller := True\<rparr>)"
| listen: "kcp_step getconv k (snd (start_listen opened bound k))"
| receive: "kl_receiving k \<Longrightarrow> kcp_step getconv k (OnReceive getconv failed sender d k)"
| run: "kcp_step getconv k (run_kcp_task io ok k)"
| session_closes: "kcp_step getconv k (k\<lparr>kl_dead := (kl_dead k)(i := True)\<rparr>)"
| close: "kcp_step getconv k (kcp_close k)"

section \<open>What a session sees\<close>

fun task_session :: "kcp_task \<Rightarrow> nat" where
  "task_session (SetupTask i _ _ _) = i"
| "task_session (InputTask i _) = i"

abbreviation session_tasks :: "nat \<Rightarrow> kcp_listener \<Rightarrow> kcp_task list" where
  "session_tasks i k \<equiv> filter (\<lambda>t. task_session t = i) (io_tasks k (kl_io k i))"

text \<open>Before its set-up, and after one that worked or failed.\<close>

definition session_ok :: "(byte list \<Rightarrow> u32) \<Rightarrow> nat \<Rightarrow> kcp_listener \<Rightarrow> bool" where
  "session_ok getconv i k \<longleftrightarrow> kl_got k i \<noteq> [] \<and>
     (\<exists>sender.
       kl_calls k i = [] \<and> session_tasks i k = SetupTask i sender (getconv (kl_got k i ! 0)) (kl_got k i ! 0) # map (InputTask i) (tl (kl_got k i)) \<or>
       (\<exists>ctl ok n. kl_calls k i = setup_calls ctl ok sender (getconv (kl_got k i ! 0)) @
          map KcpInput (take n (if ok then kl_got k i else tl (kl_got k i))) \<and>
          (ok \<longrightarrow> 0 < n) \<and> n \<le> length (if ok then kl_got k i else tl (kl_got k i)) \<and> (\<not> ok \<longrightarrow> kl_dead k i) \<and>
          session_tasks i k = map (InputTask i) (drop n (if ok then kl_got k i else tl (kl_got k i)))))"

definition kl_inv :: "(byte list \<Rightarrow> u32) \<Rightarrow> kcp_listener \<Rightarrow> bool" where
  "kl_inv getconv k \<longleftrightarrow> (\<forall>i < kl_next k. session_ok getconv i k) \<and> (\<forall>conv i. kcp_map k conv = Some i \<longrightarrow> i < kl_next k) \<and>
     (\<forall>io. \<forall>t \<in> set (io_tasks k io). task_session t < kl_next k \<and> kl_io k (task_session t) = io) \<and>
     (\<forall>i \<ge> kl_next k. kl_calls k i = [] \<and> kl_got k i = [])"

lemma kl_invD:
  assumes "kl_inv getconv k"
  shows "i < kl_next k \<Longrightarrow> session_ok getconv i k" "kcp_map k conv = Some i \<Longrightarrow> i < kl_next k"
    "t \<in> set (io_tasks k io) \<Longrightarrow> task_session t < kl_next k \<and> kl_io k (task_session t) = io"
    "kl_next k \<le> i \<Longrightarrow> kl_calls k i = [] \<and> kl_got k i = []"
  using assms unfolding kl_inv_def by blast+

lemma session_ok_change:
  assumes "session_ok getconv i k" and "kl_calls k' i = kl_calls k i" and "kl_got k' i = kl_got k i" and "session_tasks i k' = session_tasks i k"
    and "kl_dead k i \<Longrightarrow> kl_dead k' i"
  shows "session_ok getconv i k'"
  using assms unfolding session_ok_def by metis

lemma GetIoService_pair: "GetIoService pl = (fst (GetIoService pl), snd (GetIoService pl))"
  by simp

text \<open>A datagram for a session that lives already.\<close>

lemma session_ok_input:
  assumes "session_ok getconv i k"
  shows "session_ok getconv i (post_io (kl_io k i) (InputTask i d) (note_datagram i d k))"
proof -
  let ?k = "post_io (kl_io k i) (InputTask i d) (note_datagram i d k)"
  have k: "kl_calls ?k i = kl_calls k i" "kl_got ?k i = kl_got k i @ [d]" "session_tasks i ?k = session_tasks i k @ [InputTask i d]"
      "kl_dead ?k i = kl_dead k i"
    by (simp_all add: post_io_def note_datagram_def)
  have got: "kl_got k i \<noteq> []" using assms by (simp add: session_ok_def)
  from assms obtain sender where
    "kl_calls k i = [] \<and> session_tasks i k = SetupTask i sender (getconv (kl_got k i ! 0)) (kl_got k i ! 0) # map (InputTask i) (tl (kl_got k i)) \<or>
       (\<exists>ctl ok n. kl_calls k i = setup_calls ctl ok sender (getconv (kl_got k i ! 0)) @
          map KcpInput (take n (if ok then kl_got k i else tl (kl_got k i))) \<and>
          (ok \<longrightarrow> 0 < n) \<and> n \<le> length (if ok then kl_got k i else tl (kl_got k i)) \<and> (\<not> ok \<longrightarrow> kl_dead k i) \<and>
          session_tasks i k = map (InputTask i) (drop n (if ok then kl_got k i else tl (kl_got k i))))"
    unfolding session_ok_def by blast
  then show ?thesis
  proof (elim disjE exE conjE)
    assume a: "kl_calls k i = []"
      "session_tasks i k = SetupTask i sender (getconv (kl_got k i ! 0)) (kl_got k i ! 0) # map (InputTask i) (tl (kl_got k i))"
    show ?thesis unfolding session_ok_def k
      by (intro conjI exI [of _ sender] disjI1) (use got a in \<open>simp_all add: nth_append\<close>)
  next
    fix ctl ok n
    assume a: "kl_calls k i = setup_calls ctl ok sender (getconv (kl_got k i ! 0)) @
        map KcpInput (take n (if ok then kl_got k i else tl (kl_got k i)))"
      "ok \<longrightarrow> 0 < n" "n \<le> length (if ok then kl_got k i else tl (kl_got k i))" "\<not> ok \<longrightarrow> kl_dead k i"
      "session_tasks i k = map (InputTask i) (drop n (if ok then kl_got k i else tl (kl_got k i)))"
    show ?thesis unfolding session_ok_def k
      by (intro conjI exI [of _ sender] disjI2 exI [of _ ctl] exI [of _ ok] exI [of _ n])
        (use got a in \<open>auto simp: nth_append split: if_splits\<close>)
  qed
qed

lemma kl_inv_datagram:
  assumes "kl_inv getconv k"
  shows "kl_inv getconv (take_datagram getconv sender d k)"
proof (cases "kcp_map k (getconv d)")
  case None
  obtain io pl where g: "GetIoService (kl_pool k) = (io, pl)" by fastforce
  define k' where "k' = take_datagram getconv sender d k"
  have k': "kl_next k' = Suc (kl_next k)" "kl_calls k' = kl_calls k" "kl_got k' = (kl_got k)(kl_next k := kl_got k (kl_next k) @ [d])"
      "kl_io k' = (kl_io k)(kl_next k := io)" "kcp_map k' = (kcp_map k)(getconv d \<mapsto> kl_next k)" "kl_dead k' = kl_dead k"
      "io_tasks k' = (io_tasks k)(io := io_tasks k io @ [SetupTask (kl_next k) sender (getconv d) d])"
    using None g by (simp_all add: k'_def take_datagram_def Let_def post_io_def note_datagram_def)
  have fresh: "filter (\<lambda>t. task_session t = kl_next k) (io_tasks k io') = []" for io'
    using kl_invD(3) [OF assms] unfolding filter_empty_conv by (metis less_irrefl)
  have "kl_calls k (kl_next k) = []" "kl_got k (kl_next k) = []" using assms by (simp_all add: kl_inv_def)
  then have new: "session_ok getconv (kl_next k) k'" using fresh [of io] by (simp add: session_ok_def k')
  have "session_ok getconv i k'" if "i < kl_next k" for i
  proof (rule session_ok_change [of getconv i k])
    show "session_ok getconv i k" using assms that by (simp add: kl_inv_def)
  qed (use that in \<open>simp_all add: k'\<close>)
  then have all: "\<forall>i < kl_next k'. session_ok getconv i k'" using new by (auto simp: k' less_Suc_eq)
  have "\<forall>conv i. kcp_map k' conv = Some i \<longrightarrow> i < kl_next k'"
    using kl_invD(2) [OF assms] by (auto simp: k' intro: less_SucI)
  moreover have "task_session t < kl_next k' \<and> kl_io k' (task_session t) = io'" if "t \<in> set (io_tasks k' io')" for t io'
    using that kl_invD(3) [OF assms, of t io'] by (auto simp: k' split: if_splits)
  moreover have "\<forall>i \<ge> kl_next k'. kl_calls k' i = [] \<and> kl_got k' i = []"
    using kl_invD(4) [OF assms] by (simp add: k')
  ultimately show ?thesis using all unfolding kl_inv_def k'_def by blast
next
  case (Some i)
  then have i: "i < kl_next k" using assms by (simp add: kl_inv_def)
  show ?thesis
  proof (cases "kl_dead k i")
    case True
    have "session_ok getconv j (k\<lparr>kcp_map := m\<rparr>)" if "j < kl_next k" for j m
      by (rule session_ok_change [of getconv j k]) (use assms that in \<open>simp_all add: kl_inv_def\<close>)
    then show ?thesis using assms Some True by (simp add: take_datagram_def kl_inv_def)
  next
    case False
    define k' where "k' = post_io (kl_io k i) (InputTask i d) (note_datagram i d k)"
    have k': "kl_next k' = kl_next k" "kl_calls k' = kl_calls k" "kl_got k' = (kl_got k)(i := kl_got k i @ [d])" "kl_io k' = kl_io k"
        "kcp_map k' = kcp_map k" "kl_dead k' = kl_dead k" "io_tasks k' = (io_tasks k)(kl_io k i := io_tasks k (kl_io k i) @ [InputTask i d])"
      by (simp_all add: k'_def post_io_def note_datagram_def)
    have "session_ok getconv j k'" if "j < kl_next k" for j
    proof (cases "j = i")
      case True
      then show ?thesis using session_ok_input [of getconv i k d] assms i by (simp add: k'_def kl_inv_def)
    next
      case False
      then show ?thesis by (intro session_ok_change [of getconv j k k']) (use assms that in \<open>simp_all add: k' kl_inv_def\<close>)
    qed
    moreover have "task_session t < kl_next k' \<and> kl_io k' (task_session t) = io'" if "t \<in> set (io_tasks k' io')" for t io'
      using that i kl_invD(3) [OF assms, of t io'] by (auto simp: k' split: if_splits)
    moreover have "\<forall>j \<ge> kl_next k'. kl_calls k' j = [] \<and> kl_got k' j = []"
      using i kl_invD(4) [OF assms] by (auto simp: k')
    ultimately have "kl_inv getconv k'" using kl_invD(2) [OF assms] unfolding kl_inv_def k'(1,5) by blast
    then show ?thesis using Some False by (simp add: take_datagram_def k'_def)
  qed
qed

lemma session_ok_setup:
  assumes "session_ok getconv i k" and "session_tasks i k = SetupTask i sender conv d # ts" and "session_tasks i k' = ts"
    and "kl_got k' i = kl_got k i"
    and "kl_calls k' i = kl_calls k i @ setup_calls ctl ok sender conv @ (if ok then [KcpInput d] else [])" and "\<not> ok \<longrightarrow> kl_dead k' i"
  shows "session_ok getconv i k'"
proof -
  obtain g gs where got: "kl_got k i = g # gs" using assms(1) by (cases "kl_got k i") (simp_all add: session_ok_def)
  have "kl_calls k i = [] \<and> conv = getconv g \<and> d = g \<and> ts = map (InputTask i) gs"
    using assms(1,2) got by (auto simp: session_ok_def map_eq_Cons_conv Cons_eq_map_conv)
  then show ?thesis unfolding session_ok_def assms(4) got
    by (intro conjI exI [of _ sender] disjI2 exI [of _ ctl] exI [of _ ok] exI [of _ "if ok then 1 else 0"])
      (use assms(3,5,6) in auto)
qed

lemma session_ok_run_input:
  assumes "session_ok getconv i k" and "session_tasks i k = InputTask i d # ts" and "session_tasks i k' = ts" and "kl_got k' i = kl_got k i"
    and "kl_calls k' i = kl_calls k i @ [KcpInput d]" and "kl_dead k' i = kl_dead k i"
  shows "session_ok getconv i k'"
proof -
  from assms(1,2) obtain sender ctl ok n where a:
      "kl_calls k i = setup_calls ctl ok sender (getconv (kl_got k i ! 0)) @ map KcpInput (take n (if ok then kl_got k i else tl (kl_got k i)))"
      "ok \<longrightarrow> 0 < n" "\<not> ok \<longrightarrow> kl_dead k i"
      "InputTask i d # ts = map (InputTask i) (drop n (if ok then kl_got k i else tl (kl_got k i)))" "kl_got k i \<noteq> []"
    unfolding session_ok_def by fastforce
  define ds where "ds = (if ok then kl_got k i else tl (kl_got k i))"
  have n: "n < length ds" using a(4) unfolding ds_def [symmetric]
    by (metis drop_all list.distinct(1) list.simps(8) not_le)
  have d: "drop n ds = ds ! n # drop (Suc n) ds" "take (Suc n) ds = take n ds @ [ds ! n]"
    using n by (simp_all add: Cons_nth_drop_Suc take_Suc_conv_app_nth)
  show ?thesis unfolding session_ok_def assms(3-6)
    by (intro conjI exI [of _ sender] disjI2 exI [of _ ctl] exI [of _ ok] exI [of _ "Suc n"])
      (use a n d in \<open>simp_all add: ds_def [symmetric]\<close>)
qed

lemma kl_inv_run:
  assumes "kl_inv getconv k"
  shows "kl_inv getconv (run_kcp_task io ok k)"
proof (cases "io_tasks k io")
  case Nil
  then show ?thesis using assms by (simp add: run_kcp_task_def)
next
  case (Cons t ts)
  define i where "i = task_session t"
  define k' where "k' = run_kcp_task io ok k"
  have "t \<in> set (io_tasks k io)" using Cons by simp
  then have i: "i < kl_next k" "kl_io k i = io" using assms unfolding kl_inv_def i_def by blast+
  have k': "kl_next k' = kl_next k" "kl_got k' = kl_got k" "kl_io k' = kl_io k" "kcp_map k' = kcp_map k"
      "io_tasks k' = (io_tasks k)(io := ts)" "\<And>j. j \<noteq> i \<Longrightarrow> kl_calls k' j = kl_calls k j \<and> kl_dead k' j = kl_dead k j"
    using Cons by (auto simp: k'_def run_kcp_task_def log_calls_def i_def Let_def split: kcp_task.splits)
  have first: "session_tasks i k = t # session_tasks i k'" using Cons i by (simp add: k' i_def)
  have ok_i: "session_ok getconv i k" using assms i by (simp add: kl_inv_def)
  have "session_ok getconv i k'"
  proof (cases t)
    case (SetupTask j sender conv d)
    then have t: "t = SetupTask i sender conv d" by (simp add: i_def)
    show ?thesis
      by (rule session_ok_setup [OF ok_i, where ctl = "kl_controller k" and ok = ok])
        (use first t k' Cons in \<open>auto simp: k'_def run_kcp_task_def log_calls_def Let_def\<close>)
  next
    case (InputTask j d)
    then have t: "t = InputTask i d" by (simp add: i_def)
    show ?thesis
      by (rule session_ok_run_input [OF ok_i])
        (use first t k' Cons in \<open>auto simp: k'_def run_kcp_task_def log_calls_def Let_def\<close>)
  qed
  moreover have "session_ok getconv j k'" if "j < kl_next k" "j \<noteq> i" for j
  proof (rule session_ok_change [of getconv j k])
    show "session_ok getconv j k" using assms that by (simp add: kl_inv_def)
    show "session_tasks j k' = session_tasks j k" using that(2) Cons by (auto simp: k' i_def)
  qed (use k' that in simp_all)
  ultimately have "\<forall>j < kl_next k'. session_ok getconv j k'" using k'(1) by metis
  moreover have "task_session t' < kl_next k' \<and> kl_io k' (task_session t') = io'" if "t' \<in> set (io_tasks k' io')" for t' io'
    using that Cons kl_invD(3) [OF assms, of t' io'] by (auto simp: k' split: if_splits)
  moreover have "\<forall>j \<ge> kl_next k'. kl_calls k' j = [] \<and> kl_got k' j = []"
    using i(1) k'(1,2,6) kl_invD(4) [OF assms] by (metis not_le)
  ultimately show ?thesis using kl_invD(2) [OF assms] k'(1,4) unfolding kl_inv_def k'_def [symmetric] by metis
qed

lemma kl_inv_same:
  assumes "kl_inv getconv k" and "kl_next k' = kl_next k" and "kl_calls k' = kl_calls k" and "kl_got k' = kl_got k" and "kl_io k' = kl_io k"
    and "io_tasks k' = io_tasks k" and "\<And>i. kl_dead k i \<Longrightarrow> kl_dead k' i"
    and "\<And>conv i. kcp_map k' conv = Some i \<Longrightarrow> kcp_map k conv = Some i"
  shows "kl_inv getconv k'"
proof -
  have "session_ok getconv i k'" if "i < kl_next k" for i
    by (rule session_ok_change [of getconv i k]) (use assms that in \<open>simp_all add: kl_inv_def\<close>)
  moreover have "\<forall>conv i. kcp_map k' conv = Some i \<longrightarrow> i < kl_next k'"
    using assms(1,2,8) unfolding kl_inv_def by metis
  ultimately show ?thesis using assms by (simp add: kl_inv_def)
qed

lemma kl_inv_step: "kcp_step getconv k k' \<Longrightarrow> kl_inv getconv k \<Longrightarrow> kl_inv getconv k'"
proof (induction rule: kcp_step.induct)
  case (set_controller k)
  then show ?case by (rule kl_inv_same) simp_all
next
  case (listen k opened bound)
  then show ?case by (rule kl_inv_same) (simp_all add: start_listen_def StartReceive_def split: if_splits)
next
  case (receive k failed sender d)
  have 0: "kl_inv getconv (k\<lparr>kl_receiving := False\<rparr>)" by (rule kl_inv_same [OF receive.prems]) simp_all
  have "kl_inv getconv (StartReceive u)" if "kl_inv getconv u" for u
    by (rule kl_inv_same [OF that]) (simp_all add: StartReceive_def split: if_splits)
  then show ?case using 0 kl_inv_datagram [OF 0] by (simp add: OnReceive_def Let_def)
next
  case (run k io ok)
  then show ?case by (rule kl_inv_run)
next
  case (session_closes k i)
  then show ?case by (rule kl_inv_same) simp_all
next
  case (close k)
  then show ?case by (rule kl_inv_same) (simp_all add: kcp_close_def split: if_splits)
qed

interpretation kcp_listening: kept_invariant "kcp_step getconv" "KcpListener pl" "kl_inv getconv" for getconv pl
proof
  show "kl_inv getconv (KcpListener pl)" by (simp add: kl_inv_def KcpListener_def)
qed (rule kl_inv_step)

text \<open>
  C28. Whatever the listener and the IO threads do, a session first sees its set-up, for the conversation of its first datagram, and only
  then the datagrams that were posted to it, in the order in which they came, none lost or repeated; after a failed set-up it is closed
  and misses the first. (A datagram whose session is found closed is dropped and not posted.)
\<close>

theorem kcp_datagrams_in_order:
  assumes "(kcp_step getconv)\<^sup>*\<^sup>* (KcpListener pl) k" and "i < kl_next k"
  shows "kl_calls k i = [] \<or> (\<exists>ctl ok sender n. kl_calls k i = setup_calls ctl ok sender (getconv (kl_got k i ! 0)) @
    map KcpInput (take n (if ok then kl_got k i else tl (kl_got k i))) \<and> (\<not> ok \<longrightarrow> kl_dead k i) \<and>
    session_tasks i k = map (InputTask i) (drop n (if ok then kl_got k i else tl (kl_got k i))))"
proof -
  have "kl_inv getconv k" using kcp_listening.reach_inv assms(1) .
  then have "session_ok getconv i k" using assms(2) by (simp add: kl_inv_def)
  then show ?thesis unfolding session_ok_def by metis
qed

text \<open>
  The first datagram for a closed session is dropped: only the one after it makes a new session, although the source says that the
  entry is removed and the datagram treated as a new connection.
\<close>

theorem closed_session_drops_datagram:
  assumes "\<not> kl_closed k" and "kcp_map k (getconv d) = Some i" and "kl_dead k i" and "d \<noteq> []"
  shows "let k1 = OnReceive getconv False sender d k in
    kl_next k1 = kl_next k \<and> io_tasks k1 = io_tasks k \<and> kcp_map k1 (getconv d) = None \<and>
    kl_next (OnReceive getconv False sender d k1) = Suc (kl_next k)"
  using assms
  by (simp add: OnReceive_def Let_def take_datagram_def StartReceive_def post_io_def note_datagram_def split: prod.splits)

section \<open>Witnesses\<close>

definition demo_listener :: kcp_listener where
  "demo_listener = snd (start_listen True True (KcpListener (IoServicePool 2)))"

definition demo_conv :: "byte list \<Rightarrow> u32" where
  "demo_conv d = (if d = [] then 0 else ucast (hd d))"

theorem kcp_datagrams_in_order_witness:
  "\<exists>k n ok. (kcp_step demo_conv)\<^sup>*\<^sup>* (KcpListener (IoServicePool 2)) k \<and>
     session_tasks 0 k = map (InputTask 0) (drop n (if ok then kl_got k 0 else tl (kl_got k 0))) \<and> kl_got k 0 = [[5], [5, 6]]"
proof -
  let ?k1 = "OnReceive demo_conv False 9 [5] demo_listener"
  let ?k2 = "OnReceive demo_conv False 9 [5, 6] ?k1"
  let ?k3 = "run_kcp_task 0 True ?k2"
  note ops = demo_listener_def start_listen_def StartReceive_def KcpListener_def OnReceive_def take_datagram_def Let_def demo_conv_def
    post_io_def note_datagram_def IoServicePool_def GetIoService_def
  have "kcp_step demo_conv (KcpListener (IoServicePool 2)) demo_listener" unfolding demo_listener_def by (rule kcp_step.listen)
  moreover have "kcp_step demo_conv demo_listener ?k1" by (rule kcp_step.receive) (simp add: ops)
  moreover have "kcp_step demo_conv ?k1 ?k2" by (rule kcp_step.receive) (simp add: ops)
  moreover have "kcp_step demo_conv ?k2 ?k3" by (rule kcp_step.run)
  ultimately have run: "(kcp_step demo_conv)\<^sup>*\<^sup>* (KcpListener (IoServicePool 2)) ?k3"
    by (meson rtranclp.rtrancl_into_rtrancl rtranclp.rtrancl_refl)
  have k2: "io_tasks ?k2 0 = [SetupTask 0 9 5 [5], InputTask 0 [5, 6]]" "kl_next ?k2 = 1" "kl_got ?k2 0 = [[5], [5, 6]]"
    by (simp_all add: ops)
  then have "kl_next ?k3 = 1" "kl_calls ?k3 0 \<noteq> []" "kl_got ?k3 0 = [[5], [5, 6]]"
    by (simp_all add: run_kcp_task_def log_calls_def Let_def setup_calls_def)
  then show ?thesis using kcp_datagrams_in_order [OF run, of 0] run by (metis zero_less_one)
qed

theorem closed_session_drops_datagram_witness:
  "\<exists>k. kcp_map (OnReceive demo_conv False 9 [5, 6] k) 5 = None \<and> kcp_map k 5 = Some 0"
proof -
  let ?k = "(OnReceive demo_conv False 9 [5] demo_listener)\<lparr>kl_dead := (\<lambda>_. True)\<rparr>"
  have "\<not> kl_closed ?k" "kcp_map ?k (demo_conv [5, 6]) = Some 0" "kl_dead ?k 0"
    by (simp_all add: demo_listener_def start_listen_def StartReceive_def KcpListener_def OnReceive_def take_datagram_def Let_def demo_conv_def
      post_io_def note_datagram_def IoServicePool_def GetIoService_def)
  then show ?thesis
    using closed_session_drops_datagram [of ?k demo_conv "[5, 6]" 0 9] unfolding Let_def by (auto simp: demo_conv_def)
qed

end
