(* ===== verification/Block_Compression.thy ===== *)
theory Block_Compression
  imports Buffers Byte_Order
begin

text \<open>
  The block streams of \<^verbatim>\<open>src/buffer/block_wrappers.cpp\<close>, on which the LZ4 streams are built: the output stream collects
  blocks of 64 KiB, compresses each and writes its compressed size and bytes; the input stream undoes it. The coded streams of
  protobuf below and above them are given by what they have been told to write and by what they can read; \<open>wv\<close> and \<open>rv\<close>
  write and read a varint. The compressor \<open>cmp\<close> and the result and output \<open>uncomp\<close> of the decompressor are parameters.
\<close>

definition BLOCKSIZE :: int where "BLOCKSIZE = 65536"

text \<open>What is asked of \<^verbatim>\<open>WriteVarint32\<close> and \<^verbatim>\<open>ReadVarint32\<close>.\<close>

definition varint_ok :: "(nat \<Rightarrow> byte list) \<Rightarrow> (byte list \<Rightarrow> (nat \<times> byte list) option) \<Rightarrow> bool" where
  "varint_ok wv rv \<longleftrightarrow> (\<forall>n rest. n < 2 ^ 32 \<longrightarrow> rv (wv n @ rest) = Some (n, rest)) \<and> rv [] = None"

section \<open>Output\<close>

record block_out =
  ob_buffer :: "byte list option"
  ob_backed_up :: int
  ob_byte_count :: int
  ob_sub :: "byte list"

definition BlockOut :: block_out where
  "BlockOut = \<lparr>ob_buffer = None, ob_backed_up = 0, ob_byte_count = 0, ob_sub = []\<rparr>"

definition ob_flush :: "(byte list \<Rightarrow> byte list) \<Rightarrow> (nat \<Rightarrow> byte list) \<Rightarrow> block_out \<Rightarrow> block_out" where
  "ob_flush cmp wv s =
     (case ob_buffer s of
        None \<Rightarrow> s
      | Some b \<Rightarrow>
          if BLOCKSIZE - ob_backed_up s = 0 then s
          else let c = cmp (take (nat (BLOCKSIZE - ob_backed_up s)) b)
               in s\<lparr>ob_sub := ob_sub s @ wv (length c) @ c, ob_backed_up := 0, ob_buffer := None\<rparr>)"

text \<open>\<^verbatim>\<open>Next\<close>: where the chunk starts in the buffer and its size. A new buffer is filled with the bytes \<open>raw\<close>.\<close>

definition ob_next :: "(byte list \<Rightarrow> byte list) \<Rightarrow> (nat \<Rightarrow> byte list) \<Rightarrow> byte list \<Rightarrow> block_out \<Rightarrow> (int \<times> int) \<times> block_out" where
  "ob_next cmp wv raw s =
     (if ob_backed_up s \<noteq> 0
      then ((BLOCKSIZE - ob_backed_up s, ob_backed_up s), s\<lparr>ob_backed_up := 0, ob_byte_count := ob_byte_count s + ob_backed_up s\<rparr>)
      else let s1 = ob_flush cmp wv s
           in ((0, BLOCKSIZE), s1\<lparr>ob_buffer := Some raw, ob_byte_count := ob_byte_count s1 + BLOCKSIZE\<rparr>))"

definition ob_backup :: "int \<Rightarrow> block_out \<Rightarrow> block_out" where
  "ob_backup n s =
     (if n \<le> 0 then s else s\<lparr>ob_backed_up := ob_backed_up s + n, ob_byte_count := ob_byte_count s - n\<rparr>)"

text \<open>
  A user of the stream: it writes to the chunks that \<^verbatim>\<open>Next\<close> hands out and gives back what is left of the last.
\<close>

definition ob_fill :: "int \<Rightarrow> byte list \<Rightarrow> block_out \<Rightarrow> block_out" where
  "ob_fill off bs s = s\<lparr>ob_buffer := map_option (overwrite (nat off) bs) (ob_buffer s)\<rparr>"

function (sequential) ob_put :: "(byte list \<Rightarrow> byte list) \<Rightarrow> (nat \<Rightarrow> byte list) \<Rightarrow> byte list \<Rightarrow> byte list \<Rightarrow> block_out \<Rightarrow> block_out" where
  "ob_put cmp wv raw [] s = s"
| "ob_put cmp wv raw data s =
     (let ((off, sz), s1) = ob_next cmp wv raw s
      in if sz \<le> 0 then s1
         else if length data \<le> nat sz
              then ob_backup (sz - int (length data)) (ob_fill off data s1)
              else ob_put cmp wv raw (drop (nat sz) data) (ob_fill off (take (nat sz) data) s1))"
  by pat_completeness auto
termination by (relation "measure (\<lambda>(cmp, wv, raw, data, s). length data)") auto

section \<open>Input\<close>

record block_in =
  ib_buffer :: "byte list"
  ib_size :: u64
  ib_backed_up :: int
  ib_byte_count :: u64
  ib_sub :: "byte list"

definition BlockIn :: "byte list \<Rightarrow> block_in" where
  "BlockIn bs = \<lparr>ib_buffer = [], ib_size = 0, ib_backed_up = 0, ib_byte_count = 0, ib_sub = bs\<rparr>"

text \<open>
  \<^verbatim>\<open>Next\<close>. The result of the decompressor is an \<^verbatim>\<open>int\<close>, stored as a \<^verbatim>\<open>size_t\<close> and given out as an \<^verbatim>\<open>int\<close> again. Replacing
  the coded stream gives back what it has not read.
\<close>

definition ib_next :: "(byte list \<Rightarrow> (nat \<times> byte list) option) \<Rightarrow> (byte list \<Rightarrow> int \<times> byte list) \<Rightarrow> block_in \<Rightarrow>
    (int \<times> int) option \<times> block_in" where
  "ib_next rv uncomp s =
     (if ib_backed_up s \<noteq> 0
      then (Some (uint (ib_size s - word_of_int (ib_backed_up s)), ib_backed_up s),
            s\<lparr>ib_backed_up := 0, ib_byte_count := ib_byte_count s + word_of_int (ib_backed_up s)\<rparr>)
      else case rv (ib_sub s) of
             None \<Rightarrow> (None, s)
           | Some (n, rest) \<Rightarrow>
               if int n > 2 * BLOCKSIZE then (None, s\<lparr>ib_sub := rest\<rparr>)
               else if length rest < n then (None, s\<lparr>ib_sub := []\<rparr>)
               else let (r, out) = uncomp (take n rest); sz = word_of_int r :: u64
                    in (Some (0, i32 (uint sz)),
                        s\<lparr>ib_sub := drop n rest, ib_buffer := out, ib_size := sz,
                          ib_byte_count := ib_byte_count s + word_of_int (i32 (uint sz))\<rparr>))"

definition ib_backup :: "int \<Rightarrow> block_in \<Rightarrow> block_in" where
  "ib_backup n s =
     (if n \<le> 0 then s
      else s\<lparr>ib_backed_up := ib_backed_up s + n, ib_byte_count := ib_byte_count s - word_of_int n\<rparr>)"

text \<open>A reader that takes whole chunks until \<^verbatim>\<open>Next\<close> fails, with fuel for the chunks.\<close>

fun ib_drain :: "(byte list \<Rightarrow> (nat \<times> byte list) option) \<Rightarrow> (byte list \<Rightarrow> int \<times> byte list) \<Rightarrow> nat \<Rightarrow> block_in \<Rightarrow> byte list option" where
  "ib_drain rv uncomp 0 s = None"
| "ib_drain rv uncomp (Suc fuel) s =
     (case ib_next rv uncomp s of
        (None, _) \<Rightarrow> Some []
      | (Some (off, sz), s1) \<Rightarrow>
          map_option (\<lambda>bs. take (nat sz) (drop (nat off) (ib_buffer s1)) @ bs) (ib_drain rv uncomp fuel s1))"

section \<open>Round trip\<close>

definition block_bytes :: "(byte list \<Rightarrow> byte list) \<Rightarrow> (nat \<Rightarrow> byte list) \<Rightarrow> byte list \<Rightarrow> byte list" where
  "block_bytes cmp wv b = wv (length (cmp b)) @ cmp b"

text \<open>What has been written: whole blocks, and the part of the buffer that is not backed up.\<close>

definition ob_holds :: "(byte list \<Rightarrow> byte list) \<Rightarrow> (nat \<Rightarrow> byte list) \<Rightarrow> block_out \<Rightarrow> byte list \<Rightarrow> bool" where
  "ob_holds cmp wv s written \<longleftrightarrow>
     (\<exists>bks. ob_sub s = concat (map (block_bytes cmp wv) bks) \<and> (\<forall>b \<in> set bks. int (length b) \<le> BLOCKSIZE) \<and>
        written = concat bks @ (case ob_buffer s of None \<Rightarrow> [] | Some b \<Rightarrow> take (nat (BLOCKSIZE - ob_backed_up s)) b) \<and>
        0 \<le> ob_backed_up s \<and> ob_backed_up s < BLOCKSIZE \<and>
        (case ob_buffer s of None \<Rightarrow> ob_backed_up s = 0 | Some b \<Rightarrow> int (length b) = BLOCKSIZE))"

lemma ob_flush_holds:
  assumes "ob_holds cmp wv s written"
  shows "ob_holds cmp wv (ob_flush cmp wv s) written \<and> ob_buffer (ob_flush cmp wv s) = None"
proof (cases "ob_buffer s")
  case None
  then show ?thesis using assms by (simp add: ob_flush_def)
next
  case (Some b)
  let ?last = "take (nat (BLOCKSIZE - ob_backed_up s)) b"
  from assms Some obtain bks where h: "ob_sub s = concat (map (block_bytes cmp wv) bks)"
      "\<forall>b \<in> set bks. int (length b) \<le> BLOCKSIZE" "written = concat bks @ ?last" "0 \<le> ob_backed_up s" "ob_backed_up s < BLOCKSIZE"
      "int (length b) = BLOCKSIZE"
    by (auto simp: ob_holds_def)
  have f: "ob_flush cmp wv s = s\<lparr>ob_sub := ob_sub s @ block_bytes cmp wv ?last, ob_backed_up := 0, ob_buffer := None\<rparr>"
    using Some h(5) by (simp add: ob_flush_def Let_def block_bytes_def)
  show ?thesis unfolding ob_holds_def f
    by (intro conjI exI [of _ "bks @ [?last]"]) (use h in \<open>auto simp: BLOCKSIZE_def\<close>)
qed

text \<open>After \<^verbatim>\<open>Next\<close> the chunk is the end of the buffer, and what comes before it has been written.\<close>

lemma ob_next_holds:
  assumes "ob_holds cmp wv s written" and "int (length raw) = BLOCKSIZE"
  shows "\<exists>off sz s1 b bks. ob_next cmp wv raw s = ((off, sz), s1) \<and> ob_buffer s1 = Some b \<and> ob_backed_up s1 = 0 \<and>
    int (length b) = BLOCKSIZE \<and> 0 \<le> off \<and> 0 < sz \<and> off + sz = BLOCKSIZE \<and>
    ob_sub s1 = concat (map (block_bytes cmp wv) bks) \<and> (\<forall>b \<in> set bks. int (length b) \<le> BLOCKSIZE) \<and>
    written = concat bks @ take (nat off) b"
proof (cases "ob_backed_up s = 0")
  case False
  then obtain b bks where b: "ob_buffer s = Some b" "int (length b) = BLOCKSIZE" "0 \<le> ob_backed_up s" "ob_backed_up s < BLOCKSIZE"
      "ob_sub s = concat (map (block_bytes cmp wv) bks)" "\<forall>b \<in> set bks. int (length b) \<le> BLOCKSIZE"
      "written = concat bks @ take (nat (BLOCKSIZE - ob_backed_up s)) b"
    using assms(1) by (auto simp: ob_holds_def split: option.splits)
  then show ?thesis using False
    by (intro exI [of _ "BLOCKSIZE - ob_backed_up s"] exI [of _ "ob_backed_up s"] exI [of _ b] exI [of _ bks])
      (auto simp: ob_next_def)
next
  case True
  let ?s1 = "ob_flush cmp wv s"
  have "ob_holds cmp wv ?s1 written" "ob_buffer ?s1 = None" using ob_flush_holds [OF assms(1)] by auto
  then obtain bks where b: "ob_sub ?s1 = concat (map (block_bytes cmp wv) bks)" "\<forall>b \<in> set bks. int (length b) \<le> BLOCKSIZE"
      "written = concat bks" "ob_backed_up ?s1 = 0"
    by (auto simp: ob_holds_def)
  then show ?thesis using True assms(2)
    by (intro exI [of _ 0] exI [of _ BLOCKSIZE] exI [of _ raw] exI [of _ bks]) (auto simp: ob_next_def Let_def BLOCKSIZE_def)
qed

lemma ob_put_holds:
  assumes "ob_holds cmp wv s written" and "int (length raw) = BLOCKSIZE"
  shows "ob_holds cmp wv (ob_put cmp wv raw data s) (written @ data)"
  using assms
proof (induction cmp wv raw data s arbitrary: written rule: ob_put.induct)
  case (2 cmp wv raw d ds s)
  let ?data = "d # ds"
  from ob_next_holds [OF 2(2,3)] obtain off sz s1 b bks where n: "ob_next cmp wv raw s = ((off, sz), s1)" "ob_buffer s1 = Some b"
      "ob_backed_up s1 = 0" "int (length b) = BLOCKSIZE" "0 \<le> off" "0 < sz" "off + sz = BLOCKSIZE"
      "ob_sub s1 = concat (map (block_bytes cmp wv) bks)" "\<forall>b \<in> set bks. int (length b) \<le> BLOCKSIZE"
      "written = concat bks @ take (nat off) b"
    by blast
  show ?case
  proof (cases "length ?data \<le> nat sz")
    case True
    let ?s2 = "ob_backup (sz - int (length ?data)) (ob_fill off ?data s1)"
    have put: "ob_put cmp wv raw ?data s = ?s2" using n(1,6) True by (simp add: Let_def)
    have backed: "ob_backed_up ?s2 = sz - int (length ?data)" using n(3,6) True by (auto simp: ob_backup_def ob_fill_def)
    have "int (length ?data) \<le> sz" using n(6) True by simp
    then have "nat off + length ?data \<le> length b" using n(4,5,7) by linarith
    moreover have "nat (BLOCKSIZE - ob_backed_up ?s2) = nat off + length ?data" using n(5,7) \<open>int (length ?data) \<le> sz\<close>
      unfolding backed by linarith
    ultimately have "take (nat (BLOCKSIZE - ob_backed_up ?s2)) (overwrite (nat off) ?data b) = take (nat off) b @ ?data"
      by (simp only: overwrite_def) simp
    then show ?thesis unfolding put ob_holds_def
      by (intro exI [of _ bks]) (use n True backed in \<open>auto simp: ob_backup_def ob_fill_def overwrite_def\<close>)
  next
    case False
    let ?s2 = "ob_fill off (take (nat sz) ?data) s1"
    have "nat off + nat sz = length b" using n(4-7) by linarith
    then have "overwrite (nat off) (take (nat sz) ?data) b = take (nat off) b @ take (nat sz) ?data"
      using False by (simp add: overwrite_def min_def)
    moreover have "nat BLOCKSIZE - nat off = nat sz" using n(5,7) by linarith
    ultimately have "ob_holds cmp wv ?s2 (written @ take (nat sz) ?data)" unfolding ob_holds_def
      by (intro exI [of _ bks]) (use n False in \<open>simp_all add: ob_fill_def\<close>)
    from 2(1) [OF n(1) [symmetric] refl refl _ False this 2(3)] n(6)
    have "ob_holds cmp wv (ob_put cmp wv raw (drop (nat sz) ?data) ?s2) ((written @ take (nat sz) ?data) @ drop (nat sz) ?data)"
      by simp
    then show ?thesis using n(1,6) False by (simp add: Let_def)
  qed
qed simp

text \<open>What the compressor and the decompressor owe each other.\<close>

definition blocks_ok :: "(byte list \<Rightarrow> byte list) \<Rightarrow> (byte list \<Rightarrow> int \<times> byte list) \<Rightarrow> bool" where
  "blocks_ok cmp uncomp \<longleftrightarrow> (\<forall>b. int (length b) \<le> BLOCKSIZE \<longrightarrow> uncomp (cmp b) = (int (length b), b) \<and>
     int (length (cmp b)) \<le> 2 * BLOCKSIZE)"

lemma ib_next_block:
  assumes "varint_ok wv rv" and "blocks_ok cmp uncomp" and "int (length b) \<le> BLOCKSIZE" and "ib_backed_up s = 0"
    and "ib_sub s = block_bytes cmp wv b @ rest"
  shows "\<exists>s1. ib_next rv uncomp s = (Some (0, int (length b)), s1) \<and> ib_buffer s1 = b \<and> ib_backed_up s1 = 0 \<and> ib_sub s1 = rest"
proof -
  have c: "uncomp (cmp b) = (int (length b), b)" "int (length (cmp b)) \<le> 2 * BLOCKSIZE"
    using assms(2,3) by (simp_all add: blocks_ok_def)
  have "length (cmp b) < 2 ^ 32" using c(2) by (simp add: BLOCKSIZE_def)
  then have "rv (ib_sub s) = Some (length (cmp b), cmp b @ rest)"
    using assms(1,5) by (simp add: varint_ok_def block_bytes_def)
  moreover have "uint (word_of_int (int (length b)) :: u64) = int (length b)"
    using assms(3) by (simp add: BLOCKSIZE_def unsigned_of_nat take_bit_nat_eq_self)
  moreover have "i32 (int (length b)) = int (length b)" using assms(3) by (simp add: BLOCKSIZE_def i32_id)
  ultimately show ?thesis using c assms(4) by (simp add: ib_next_def Let_def)
qed

lemma ib_drain_blocks:
  assumes "varint_ok wv rv" and "blocks_ok cmp uncomp" and "\<forall>b \<in> set bks. int (length b) \<le> BLOCKSIZE" and "ib_backed_up s = 0"
    and "ib_sub s = concat (map (block_bytes cmp wv) bks)"
  shows "ib_drain rv uncomp (Suc (length bks)) s = Some (concat bks)"
  using assms(3-5)
proof (induction bks arbitrary: s)
  case Nil
  then have "rv (ib_sub s) = None" using assms(1) by (simp add: varint_ok_def)
  then show ?case using Nil by (simp add: ib_next_def)
next
  case (Cons b bks)
  have "ib_sub s = block_bytes cmp wv b @ concat (map (block_bytes cmp wv) bks)" using Cons.prems(3) by simp
  from ib_next_block [OF assms(1,2) _ Cons.prems(2) this] Cons.prems(1) obtain s1 where
    s1: "ib_next rv uncomp s = (Some (0, int (length b)), s1)" "ib_buffer s1 = b" "ib_backed_up s1 = 0"
      "ib_sub s1 = concat (map (block_bytes cmp wv) bks)"
    by auto
  have "ib_drain rv uncomp (Suc (length bks)) s1 = Some (concat bks)" using Cons.IH s1 Cons.prems(1) by simp
  then show ?case using s1(1,2) by simp
qed

lemma fold_put_holds:
  assumes "ob_holds cmp wv s written" and "int (length raw) = BLOCKSIZE"
  shows "ob_holds cmp wv (fold (ob_put cmp wv raw) pieces s) (written @ concat pieces)"
  using assms(1)
proof (induction pieces arbitrary: s written)
  case (Cons p pieces)
  show ?case using Cons.IH [OF ob_put_holds [OF Cons.prems assms(2)]] by simp
qed simp

text \<open>What a stream gives for data that is written to it in pieces and flushed, and what a reader makes of it.\<close>

definition block_compress :: "(byte list \<Rightarrow> byte list) \<Rightarrow> (nat \<Rightarrow> byte list) \<Rightarrow> byte list \<Rightarrow> byte list list \<Rightarrow> byte list" where
  "block_compress cmp wv raw pieces = ob_sub (ob_flush cmp wv (fold (ob_put cmp wv raw) pieces BlockOut))"

lemma block_compress_blocks:
  assumes "int (length raw) = BLOCKSIZE"
  shows "\<exists>bks. block_compress cmp wv raw pieces = concat (map (block_bytes cmp wv) bks) \<and>
    (\<forall>b \<in> set bks. int (length b) \<le> BLOCKSIZE) \<and> concat pieces = concat bks"
proof -
  have "ob_holds cmp wv BlockOut []" unfolding ob_holds_def by (rule exI [of _ "[]"]) (simp add: BlockOut_def BLOCKSIZE_def)
  from fold_put_holds [OF this assms] have "ob_holds cmp wv (fold (ob_put cmp wv raw) pieces BlockOut) (concat pieces)" by simp
  from ob_flush_holds [OF this] show ?thesis by (auto simp: ob_holds_def block_compress_def)
qed

lemma block_compress_drain:
  assumes "varint_ok wv rv" and "blocks_ok cmp uncomp" and "int (length raw) = BLOCKSIZE"
  shows "\<exists>fuel0. ib_drain rv uncomp fuel0 (BlockIn (block_compress cmp wv raw pieces)) = Some (concat pieces)"
proof -
  obtain bks where b: "block_compress cmp wv raw pieces = concat (map (block_bytes cmp wv) bks)"
      "\<forall>b \<in> set bks. int (length b) \<le> BLOCKSIZE" "concat pieces = concat bks"
    using block_compress_blocks [OF assms(3)] by blast
  have "ib_drain rv uncomp (Suc (length bks)) (BlockIn (block_compress cmp wv raw pieces)) = Some (concat bks)"
    by (rule ib_drain_blocks [OF assms(1,2) b(2)]) (simp_all add: b(1) BlockIn_def)
  then show ?thesis unfolding b(3) by (rule exI)
qed

text \<open>More fuel does not change what a reader gets.\<close>

lemma ib_drain_mono: "ib_drain rv uncomp fuel0 s = Some bs \<Longrightarrow> fuel0 \<le> fuel1 \<Longrightarrow> ib_drain rv uncomp fuel1 s = Some bs"
proof (induction fuel0 arbitrary: s bs fuel1)
  case (Suc f)
  then obtain f1 where f1: "fuel1 = Suc f1" "f \<le> f1" by (cases fuel1) auto
  obtain c s1 where n: "ib_next rv uncomp s = (c, s1)" by fastforce
  show ?case
  proof (cases c)
    case None
    then show ?thesis using Suc.prems(1) n f1(1) by simp
  next
    case (Some p)
    obtain off sz where p: "p = (off, sz)" by fastforce
    obtain bs1 where "ib_drain rv uncomp f s1 = Some bs1" "bs = take (nat sz) (drop (nat off) (ib_buffer s1)) @ bs1"
      using Suc.prems(1) n Some p by auto
    then show ?thesis using Suc.IH [of s1 bs1 f1] f1 n Some p by simp
  qed
qed simp

text \<open>
  C32. Whatever is written to a compressed block stream, in pieces of any size, and flushed into its coded stream, comes out of the input
  stream that reads those bytes, complete and in order: neither the 64 KiB blocks nor the parts given back are lost or repeated. (The
  decompressor undoes the compressor on blocks, as \<open>blocks_ok\<close> says, and varints are read as they were written.)
\<close>

theorem block_stream_roundtrip:
  assumes "varint_ok wv rv" and "blocks_ok cmp uncomp" and "int (length raw) = BLOCKSIZE"
  shows "\<exists>fuel0. \<forall>fuel1 \<ge> fuel0. ib_drain rv uncomp fuel1 (BlockIn (block_compress cmp wv raw pieces)) = Some (concat pieces)"
  using block_compress_drain [OF assms, of pieces] ib_drain_mono by blast

text \<open>
  The result of the decompressor is not looked at: for a malformed block, for which it is negative, \<^verbatim>\<open>Next\<close> reports success with a
  chunk of a negative size.
\<close>

theorem malformed_block_accepted:
  assumes "varint_ok wv rv" and "int (length c) \<le> 2 * BLOCKSIZE" and "uncomp c = (r, out)" and "- (2 ^ 31) \<le> r" and "r < 0"
  shows "fst (ib_next rv uncomp (BlockIn (wv (length c) @ c))) = Some (0, r)"
proof -
  have "length c < 2 ^ 32" using assms(2) by (simp add: BLOCKSIZE_def)
  then have "rv (wv (length c) @ c) = Some (length c, c)" using assms(1) by (simp add: varint_ok_def)
  moreover have "i32 (uint (word_of_int r :: u64)) = r"
  proof -
    have "signed_take_bit 31 (take_bit 64 r) = signed_take_bit 31 r" by (simp add: signed_take_bit_take_bit)
    then show ?thesis using assms(4,5) by (simp add: uint_word_of_int_eq i32_def signed_take_bit_int_eq_self)
  qed
  ultimately show ?thesis using assms(2,3) by (simp add: ib_next_def BlockIn_def Let_def)
qed

section \<open>Witnesses\<close>

text \<open>Four big-endian bytes as the varint, and a copy as the compression; a copy of no bytes counts as malformed.\<close>

definition plain_wv :: "nat \<Rightarrow> byte list" where
  "plain_wv n = be_bytes 4 (of_nat n :: u32)"

definition plain_rv :: "byte list \<Rightarrow> (nat \<times> byte list) option" where
  "plain_rv bs = (if length bs < 4 then None else Some (be_val (take 4 bs), drop 4 bs))"

lemma plain_varint_ok: "varint_ok plain_wv plain_rv"
proof -
  have "be_val (be_bytes 4 (of_nat n :: u32)) = n" if "n < 2 ^ 32" for n
    using that by (simp add: be_val_be_bytes unat_of_nat)
  then show ?thesis by (simp add: varint_ok_def plain_wv_def plain_rv_def)
qed

definition copy_uncomp :: "byte list \<Rightarrow> int \<times> byte list" where
  "copy_uncomp bs = (int (length bs), bs)"

lemma copy_blocks_ok: "blocks_ok (\<lambda>b. b) copy_uncomp"
  by (simp add: blocks_ok_def copy_uncomp_def BLOCKSIZE_def)

theorem block_stream_roundtrip_witness:
  "\<exists>fuel0. \<forall>fuel1 \<ge> fuel0. ib_drain plain_rv copy_uncomp fuel1
     (BlockIn (block_compress (\<lambda>b. b) plain_wv (replicate 65536 0) [replicate 70000 1, [2, 3]])) = Some (replicate 70000 1 @ [2, 3])"
  using block_stream_roundtrip [OF plain_varint_ok copy_blocks_ok, of "replicate 65536 0" "[replicate 70000 1, [2, 3]]"]
  by (simp add: BLOCKSIZE_def)

theorem malformed_block_accepted_witness:
  "fst (ib_next plain_rv (\<lambda>_. (- 3, [])) (BlockIn (plain_wv 1 @ [9]))) = Some (0, - 3)"
  using malformed_block_accepted [OF plain_varint_ok, of "[9]" "\<lambda>_. (- 3, [])" "- 3"] by (simp add: BLOCKSIZE_def)

end
