(* ===== verification/Rpc_Functions.thy ===== *)
theory Rpc_Functions
  imports Rpc Session_Send Message_Stream Msgpack_Roundtrip Block_Compression
begin

text \<open>
  How the data of a message gets to a handler and back: \<^verbatim>\<open>GetMsgData\<close> (\<^verbatim>\<open>src/network/rpc/rpc_function_help.cpp\<close>), the handlers
  that \<^verbatim>\<open>MakeRpcHandler\<close> (\<^verbatim>\<open>rpc_function.hpp\<close>) and \<^verbatim>\<open>MakeNetHandler\<close> (\<^verbatim>\<open>function.hpp\<close>) wrap around a function, \<^verbatim>\<open>RpcReply\<close>
  (\<^verbatim>\<open>rpc_reply.cpp\<close>) and the result callbacks of \<^verbatim>\<open>RpcCall::SetCallBack\<close> (\<^verbatim>\<open>rpc_call.h\<close>). Parameters: \<open>plain c bs\<close>, the bytes that
  the compressed input stream for \<open>c\<close> gives for \<open>bs\<close>; \<open>rv\<close>, which reads a varint; \<open>parse\<close>, whether a protobuf message can be
  parsed from some bytes. A handler is described by its parameter types, its call by the values it gets.
\<close>

section \<open>The data of a message\<close>

text \<open>\<^verbatim>\<open>get_compressed_input_stream\<close> gives a null stream for any other type; its user goes through it all the same.\<close>

definition known_compression :: "byte \<Rightarrow> bool" where
  "known_compression c \<longleftrightarrow> c \<in> {1, 2, 3}"

text \<open>
  \<^verbatim>\<open>s.substr(meta_size, data_size)\<close> for \<open>size_t\<close> arguments: an exception when the start lies after the end. Otherwise the stream
  is read: the results of \<^verbatim>\<open>ReadVarint32\<close> and \<^verbatim>\<open>ReadString\<close> are not looked at. \<open>Inl\<close> says why there is no defined string.
\<close>

definition GetMsgData :: "(byte list \<Rightarrow> (nat \<times> byte list) option) \<Rightarrow> (byte \<Rightarrow> byte list \<Rightarrow> byte list) \<Rightarrow> meta \<Rightarrow> byte list option \<Rightarrow>
    int \<Rightarrow> int \<Rightarrow> string + byte list" where
  "GetMsgData rv plain mt buffer ms ds =
     (case buffer of
        None \<Rightarrow> Inl ''null buffer''
      | Some s \<Rightarrow>
          if compress mt = 0
          then (if ms < 0 \<or> int (length s) < ms then Inl ''out_of_range''
                else Inr (if ds < 0 then drop (nat ms) s else take (nat ds) (drop (nat ms) s)))
          else if \<not> known_compression (compress mt) then Inl ''null stream''
          else if ms < 0 \<or> ds < 0 \<or> int (length s) < ms + ds then Inl ''read out of bounds''
          else case rv (plain (compress mt) (take (nat ds) (drop (nat ms) s))) of
                 None \<Rightarrow> Inl ''uninitialised size''
               | Some (n, rest) \<Rightarrow> if 2 ^ 31 \<le> n \<or> length rest < n then Inl ''short string'' else Inr (take n rest))"

section \<open>RpcReply\<close>

definition RpcReply :: "meta \<Rightarrow> meta" where
  "RpcReply mt = mt\<lparr>mode := Response\<rparr>"

definition reply_valid :: "session option \<Rightarrow> bool" where
  "reply_valid ses \<longleftrightarrow> (case ses of None \<Rightarrow> False | Some s \<Rightarrow> \<not> is_closed s \<and> is_connected s)"

text \<open>What a reply gives to \<^verbatim>\<open>Session::Send\<close>, if anything.\<close>

definition reply_send :: "session option \<Rightarrow> meta \<Rightarrow> byte list \<Rightarrow> (meta \<times> byte list) option" where
  "reply_send ses mt data = (if reply_valid ses then Some (mt, data) else None)"

definition reply_invoke :: "session option \<Rightarrow> meta \<Rightarrow> cval list \<Rightarrow> (meta \<times> byte list) option" where
  "reply_invoke ses mt vs = (if \<not> reply_valid ses then None else reply_send ses mt (pack vs))"

definition reply_invoke_empty :: "session option \<Rightarrow> meta \<Rightarrow> (meta \<times> byte list) option" where
  "reply_invoke_empty ses mt = (if \<not> reply_valid ses then None else reply_send ses mt [])"

section \<open>Handlers\<close>

datatype rpc_params = NoArgs | ReplyOnly | ReplyProto | ReplyArgs "cty list" | ProtoArg | Args "cty list"

text \<open>\<open>Called reply vs\<close>: the function is called, with a reply object for its meta or without, and with the values.\<close>

datatype handler_call =
    Called "meta option" "cval list"
  | CalledProto "meta option" "byte list"
  | NotCalled
  | Broken string
  | BrokenUnpack fault

text \<open>\<open>rest\<close> is what the buffer's stream has left after \<^verbatim>\<open>ReadMeta\<close>, \<open>buffer\<close> its whole string.\<close>

definition call_unpacked :: "(nat \<Rightarrow> bool) \<Rightarrow> (byte list \<Rightarrow> (nat \<times> byte list) option) \<Rightarrow> (byte \<Rightarrow> byte list \<Rightarrow> byte list) \<Rightarrow> meta option \<Rightarrow>
    cty list \<Rightarrow> byte list option \<Rightarrow> meta \<Rightarrow> int \<Rightarrow> int \<Rightarrow> handler_call" where
  "call_unpacked cr rv plain reply ts buffer mt ms ds =
     (case GetMsgData rv plain mt buffer ms ds of
        Inl e \<Rightarrow> Broken e
      | Inr s \<Rightarrow> (case unpack cr ts s of Inl f \<Rightarrow> BrokenUnpack f | Inr (vs, _) \<Rightarrow> Called reply vs))"

fun MakeRpcHandler :: "(nat \<Rightarrow> bool) \<Rightarrow> (byte list \<Rightarrow> (nat \<times> byte list) option) \<Rightarrow> (byte \<Rightarrow> byte list \<Rightarrow> byte list) \<Rightarrow> (byte list \<Rightarrow> bool) \<Rightarrow>
    rpc_params \<Rightarrow> byte list \<Rightarrow> byte list option \<Rightarrow> meta \<Rightarrow> int \<Rightarrow> int \<Rightarrow> handler_call" where
  "MakeRpcHandler cr rv plain parse NoArgs rest buffer mt ms ds = Called None []"
| "MakeRpcHandler cr rv plain parse ReplyOnly rest buffer mt ms ds = Called (Some (RpcReply mt)) []"
| "MakeRpcHandler cr rv plain parse ReplyProto rest buffer mt ms ds =
     (if parse rest then CalledProto (Some (RpcReply mt)) rest else NotCalled)"
| "MakeRpcHandler cr rv plain parse (ReplyArgs ts) rest buffer mt ms ds =
     call_unpacked cr rv plain (Some (RpcReply mt)) ts buffer mt ms ds"
| "MakeRpcHandler cr rv plain parse ProtoArg rest buffer mt ms ds = (if parse rest then CalledProto None rest else NotCalled)"
| "MakeRpcHandler cr rv plain parse (Args ts) rest buffer mt ms ds = call_unpacked cr rv plain None ts buffer mt ms ds"

datatype net_params = NetNone | NetSession | NetProto | NetSessionProto | NetProtoProto

text \<open>\<^verbatim>\<open>MakeNetHandler\<close>: with two messages the first is the meta that was received.\<close>

definition net_parse :: "(byte \<Rightarrow> byte list \<Rightarrow> byte list) \<Rightarrow> (byte list \<Rightarrow> bool) \<Rightarrow> meta \<Rightarrow> meta option \<Rightarrow> byte list \<Rightarrow> handler_call" where
  "net_parse plain parse mt with_meta rest =
     (if compress mt = 0 then (if parse rest then CalledProto with_meta rest else NotCalled)
      else if \<not> known_compression (compress mt) then Broken ''null stream''
      else let bs = plain (compress mt) rest in if parse bs then CalledProto with_meta bs else NotCalled)"

fun MakeNetHandler :: "(byte \<Rightarrow> byte list \<Rightarrow> byte list) \<Rightarrow> (byte list \<Rightarrow> bool) \<Rightarrow> net_params \<Rightarrow> byte list \<Rightarrow> meta \<Rightarrow> handler_call" where
  "MakeNetHandler plain parse NetNone rest mt = Called None []"
| "MakeNetHandler plain parse NetSession rest mt = Called None []"
| "MakeNetHandler plain parse NetProto rest mt = net_parse plain parse mt None rest"
| "MakeNetHandler plain parse NetSessionProto rest mt = net_parse plain parse mt None rest"
| "MakeNetHandler plain parse NetProtoProto rest mt = net_parse plain parse mt (Some mt) rest"

section \<open>Result callbacks\<close>

text \<open>
  The C++ callback: on an error the values are value-initialised, which \<open>None\<close> stands for. The Lua callback reads the data before it
  looks at the error.
\<close>

datatype callback_call = CallBack RpcErrorCode "cval list option" | CallBackBroken string | CallBackUnpack fault

definition rpc_callback :: "(nat \<Rightarrow> bool) \<Rightarrow> (byte list \<Rightarrow> (nat \<times> byte list) option) \<Rightarrow> (byte \<Rightarrow> byte list \<Rightarrow> byte list) \<Rightarrow> cty list \<Rightarrow>
    RpcErrorCode \<Rightarrow> byte list option \<Rightarrow> meta \<Rightarrow> int \<Rightarrow> int \<Rightarrow> callback_call" where
  "rpc_callback cr rv plain ts err buffer mt ms ds =
     (if ts = [] then CallBack err (Some [])
      else if err = NoError
      then (case GetMsgData rv plain mt buffer ms ds of
              Inl e \<Rightarrow> CallBackBroken e
            | Inr s \<Rightarrow> (case unpack cr ts s of Inl f \<Rightarrow> CallBackUnpack f | Inr (vs, _) \<Rightarrow> CallBack NoError (Some vs)))
      else CallBack err None)"

text \<open>For Lua the result is the bytes from which the values are made, or none.\<close>

datatype lua_callback_call = LuaCallBack RpcErrorCode "byte list option" | LuaBroken string

definition rpc_lua_callback :: "(byte list \<Rightarrow> (nat \<times> byte list) option) \<Rightarrow> (byte \<Rightarrow> byte list \<Rightarrow> byte list) \<Rightarrow>
    RpcErrorCode \<Rightarrow> byte list option \<Rightarrow> meta \<Rightarrow> int \<Rightarrow> int \<Rightarrow> lua_callback_call" where
  "rpc_lua_callback rv plain err buffer mt ms ds =
     (case GetMsgData rv plain mt buffer ms ds of
        Inl e \<Rightarrow> LuaBroken e
      | Inr s \<Rightarrow> LuaCallBack err (if err = NoError \<and> ds > 0 then Some s else None))"

section \<open>Calls and replies arrive\<close>

text \<open>What the compressing stream makes of the length-prefixed data, and how it is undone.\<close>

definition streams_ok :: "(nat \<Rightarrow> byte list) \<Rightarrow> (byte \<Rightarrow> byte list \<Rightarrow> byte list) \<Rightarrow> (byte \<Rightarrow> byte list \<Rightarrow> byte list) \<Rightarrow> bool" where
  "streams_ok wv plain compressed \<longleftrightarrow>
     (\<forall>c d. known_compression c \<longrightarrow> plain c (compressed c d) = wv (length d) @ d)"

lemma GetMsgData_sent:
  assumes "varint_ok wv rv" and "streams_ok wv plain compressed" and "compress mt = 0 \<or> known_compression (compress mt)"
    and "length data < 2 ^ 31"
  shows "GetMsgData rv plain mt (Some (meta_bytes mt @ send_body compressed mt data)) (int sizeof_meta)
           (int (length (send_body compressed mt data))) = Inr data"
proof (cases "compress mt = 0")
  case True
  then show ?thesis by (simp add: GetMsgData_def send_body_def)
next
  case False
  then have c: "known_compression (compress mt)" using assms(3) by simp
  have "plain (compress mt) (compressed (compress mt) data) = wv (length data) @ data" using assms(2) c by (simp add: streams_ok_def)
  moreover have "rv (wv (length data) @ data) = Some (length data, data)" using assms(1,4) by (simp add: varint_ok_def)
  ultimately show ?thesis using False c assms(4) by (simp add: GetMsgData_def send_body_def)
qed

text \<open>
  C6. A remote call arrives: the message that \<^verbatim>\<open>Session::Send\<close> builds from packed arguments is one frame, and the handler of a function that
  takes an \<^verbatim>\<open>RpcReply\<close> and arguments of those types, given the frame's body, calls the function with exactly those values and a reply
  whose meta is the call's, marked as a response; uncompressed or under a known compression. There is memory for the message, the
  body and the data are shorter than \<open>2 ^ 31\<close> bytes, a compressed body decompresses to the length-prefixed data (\<open>streams_ok\<close>), the
  values are within the limits of the serialiser's round trip (\<open>fits\<close>), and containers of up to 15 elements can be reserved (\<open>cr\<close>).
\<close>

theorem request_reaches_handler:
  assumes "heap_ok m others" and "32768 * (header_size + sizeof_meta + length (send_body compressed mt (pack vs))) \<le> avail m"
    and "int (length (send_body compressed mt (pack vs))) < 2 ^ 31" and "length (pack vs) < 2 ^ 31"
    and "varint_ok wv rv" and "streams_ok wv plain compressed" and "compress mt = 0 \<or> known_compression (compress mt)"
    and "list_all2 fits ts vs" and "\<And>n. n \<le> 15 \<Longrightarrow> cr n"
  shows "\<exists>rb m' ms ds body. send_data compressed mt (pack vs) m = Some (rb, m') \<and> rb_to_string m' rb = Some (enframe (ms, ds, body)) \<and>
    take sizeof_meta body = meta_bytes mt \<and>
    MakeRpcHandler cr rv plain parse (ReplyArgs ts) rest (Some body) mt ms ds = Called (Some (mt\<lparr>mode := Response\<rparr>)) vs"
proof -
  let ?body = "send_body compressed mt (pack vs)"
  obtain rb m' where s: "send_data compressed mt (pack vs) m = Some (rb, m')"
      "rb_fresh m' rb (enframe (int sizeof_meta, int (length ?body), meta_bytes mt @ ?body))"
    using send_data_ok [OF assms(1-3)] by blast
  have "unpack cr ts (pack vs) = Inr (vs, False)"
    using unpack_args_pack [OF assms(8,9), where rest = "[]" and e = False]
    by (simp add: unpack_def pack_def Unpacker_def fold_pack_type)
  then have "MakeRpcHandler cr rv plain parse (ReplyArgs ts) rest (Some (meta_bytes mt @ ?body)) mt (int sizeof_meta) (int (length ?body)) =
      Called (Some (mt\<lparr>mode := Response\<rparr>)) vs"
    using GetMsgData_sent [OF assms(5-7,4)] by (simp add: call_unpacked_def RpcReply_def)
  then show ?thesis using s rb_fresh_to_string [OF s(2)]
    by (intro exI [of _ rb] exI [of _ m'] exI [of _ "int sizeof_meta"] exI [of _ "int (length ?body)"]
        exI [of _ "meta_bytes mt @ ?body"]) simp
qed


text \<open>
  The Lua callback of a call that times out, is cancelled or cannot be made reads the data through the null buffer that all of them
  pass; the C++ callback is called with the error.
\<close>

theorem lua_callback_breaks_on_error:
  "rpc_lua_callback rv plain err None mt ms ds = LuaBroken ''null buffer'' \<and>
   rpc_callback cr rv plain ts err None mt ms ds =
     (if ts = [] then CallBack err (Some []) else if err = NoError then CallBackBroken ''null buffer'' else CallBack err None)"
  by (simp add: rpc_lua_callback_def GetMsgData_def rpc_callback_def)

text \<open>
  The compression type of a message is the sender's: with one that the program does not know, every handler that reads its arguments
  uses a null stream.
\<close>

theorem unknown_compression_breaks:
  assumes "compress mt \<noteq> 0" and "\<not> known_compression (compress mt)"
  shows "MakeRpcHandler cr rv plain parse (ReplyArgs ts) rest (Some s) mt ms ds = Broken ''null stream'' \<and>
    MakeRpcHandler cr rv plain parse (Args ts) rest (Some s) mt ms ds = Broken ''null stream'' \<and>
    MakeNetHandler plain parse NetProto rest mt = Broken ''null stream'' \<and>
    MakeNetHandler plain parse NetSessionProto rest mt = Broken ''null stream'' \<and>
    MakeNetHandler plain parse NetProtoProto rest mt = Broken ''null stream''"
  using assms by (simp add: call_unpacked_def GetMsgData_def net_parse_def)

section \<open>The LZ4 streams\<close>

text \<open>\<^verbatim>\<open>Session::Send\<close> writes the length and the data to the stream and flushes it; the reader takes all that there is.\<close>

definition lz4_compressed :: "(byte list \<Rightarrow> byte list) \<Rightarrow> (nat \<Rightarrow> byte list) \<Rightarrow> byte list \<Rightarrow> byte list \<Rightarrow> byte list" where
  "lz4_compressed cmp wv raw data = block_compress cmp wv raw [wv (length data), data]"

definition lz4_plain :: "(byte list \<Rightarrow> (nat \<times> byte list) option) \<Rightarrow> (byte list \<Rightarrow> int \<times> byte list) \<Rightarrow> byte list \<Rightarrow> byte list" where
  "lz4_plain rv uncomp bs = (case ib_drain rv uncomp (Suc (length bs)) (BlockIn bs) of Some data \<Rightarrow> data | None \<Rightarrow> [])"

lemma lz4_plain_compressed:
  assumes "varint_ok wv rv" and "blocks_ok cmp uncomp" and "int (length raw) = BLOCKSIZE"
  shows "lz4_plain rv uncomp (lz4_compressed cmp wv raw data) = wv (length data) @ data"
proof -
  obtain bks where b: "block_compress cmp wv raw [wv (length data), data] = concat (map (block_bytes cmp wv) bks)"
      "\<forall>b \<in> set bks. int (length b) \<le> BLOCKSIZE" "concat [wv (length data), data] = concat bks"
    using block_compress_blocks [OF assms(3)] by blast
  have "block_bytes cmp wv b \<noteq> []" if "int (length b) \<le> BLOCKSIZE" for b
  proof -
    have "int (length (cmp b)) \<le> 2 * BLOCKSIZE" using assms(2) that by (simp add: blocks_ok_def)
    then have "length (cmp b) < 2 ^ 32" by (simp add: BLOCKSIZE_def)
    then have "rv (wv (length (cmp b)) @ []) = Some (length (cmp b), [])" using assms(1) unfolding varint_ok_def by blast
    then show ?thesis using assms(1) by (auto simp: varint_ok_def block_bytes_def)
  qed
  then have pos: "0 < length (block_bytes cmp wv b)" if "int (length b) \<le> BLOCKSIZE" for b using that by blast
  have "length bks \<le> length (concat (map (block_bytes cmp wv) bks))" using b(2)
  proof (induction bks)
    case (Cons a bks)
    have "0 < length (block_bytes cmp wv a)" using pos Cons.prems by simp
    moreover have "length bks \<le> length (concat (map (block_bytes cmp wv) bks))" using Cons by simp
    ultimately show ?case unfolding list.map concat.simps length_append list.size by linarith
  qed simp
  moreover have "ib_drain rv uncomp (Suc (length bks)) (BlockIn (concat (map (block_bytes cmp wv) bks))) = Some (concat bks)"
    by (rule ib_drain_blocks [OF assms(1,2) b(2)]) (simp_all add: BlockIn_def)
  ultimately have "ib_drain rv uncomp (Suc (length (concat (map (block_bytes cmp wv) bks)))) (BlockIn (concat (map (block_bytes cmp wv) bks)))
      = Some (concat bks)"
    using ib_drain_mono by (metis Suc_le_mono)
  then show ?thesis using b by (simp add: lz4_plain_def lz4_compressed_def)
qed

interpretation lz4: codec "\<lambda>data. lz4_compressed (\<lambda>b. b) plain_wv (replicate 65536 0) data"
  "\<lambda>bs. drop 4 (lz4_plain plain_rv copy_uncomp bs)"
proof
  fix data
  have "length (plain_wv n) = 4" for n by (simp add: plain_wv_def)
  then show "drop 4 (lz4_plain plain_rv copy_uncomp (lz4_compressed (\<lambda>b. b) plain_wv (replicate 65536 0) data)) = data"
    using lz4_plain_compressed [OF plain_varint_ok copy_blocks_ok, of "replicate 65536 0" data] by (simp add: BLOCKSIZE_def)
qed

section \<open>Witnesses\<close>

definition demo_call :: meta where
  "demo_call = Meta\<lparr>mode := Request, compress := 3\<rparr>"

theorem request_reaches_handler_witness:
  "\<exists>rb m' ms ds body. send_data (\<lambda>_ d. plain_wv (length d) @ d) demo_call (pack [VBool True]) mem_big
      = Some (rb, m') \<and> rb_to_string m' rb = Some (enframe (ms, ds, body)) \<and>
    MakeRpcHandler (\<lambda>_. True) plain_rv (\<lambda>_ bs. bs) (\<lambda>_. True) (ReplyArgs [TBool]) [] (Some body)
      demo_call ms ds = Called (Some (demo_call\<lparr>mode := Response\<rparr>)) [VBool True]"
proof -
  have len: "length (send_body (\<lambda>_ d. plain_wv (length d) @ d) demo_call (pack [VBool True])) \<le> 20"
      "length (pack [VBool True]) < 2 ^ 31"
    by (simp_all add: demo_call_def send_body_def pack_def pack_bool_def plain_wv_def)
  have "streams_ok plain_wv (\<lambda>_ bs. bs) (\<lambda>_ d. plain_wv (length d) @ d)" by (simp add: streams_ok_def)
  moreover have "list_all2 fits [TBool] [VBool True]" by simp
  ultimately show ?thesis
    using request_reaches_handler [OF heap_ok_big _ _ len(2) plain_varint_ok, of "\<lambda>_ d. plain_wv (length d) @ d"
        demo_call "\<lambda>_ bs. bs" "[TBool]" "\<lambda>_. True" "\<lambda>_. True" "[]"] len(1)
    unfolding header_size_def sizeof_meta_def
    by (force simp: demo_call_def known_compression_def mem_big_def header_size_def sizeof_meta_def)
qed

definition connected_session :: session where
  "connected_session = (Session NT_SERVER mem0)\<lparr>status := STATUS_CONNECTED\<rparr>"


theorem unknown_compression_breaks_witness:
  "MakeNetHandler (\<lambda>_ bs. bs) (\<lambda>_. True) NetProto [] (Meta\<lparr>compress := 7\<rparr>) = Broken ''null stream''"
  using unknown_compression_breaks [of "Meta\<lparr>compress := 7\<rparr>"] by (simp add: known_compression_def)

end
