(* ===== verification/Spec2Isabelle.thy ===== *)
theory Spec2Isabelle
  imports Flow_Control Route_Table Msgpack_Roundtrip Msgpack_Lua Session_Send Stream_Liveness Send_Race Timer_Manager Rpc
    Server_Sessions Server_Stop Await_State Thread_Pool Graceful_Shutdown Db_Pool Nats_Requests Kcp_Transport Pg_Pipeline
    Redis_Connection Http_Client Scope_Runner Client_Sessions Kcp_Listener Rpc_Functions
begin

text \<open>
  A verification development for \<^verbatim>\<open>gb_server\<close>, a framework for game servers in C++: servers and clients that exchange framed messages
  over asynchronous connections, workers that run the handlers of those messages, remote calls between them, and clients of NATS, HTTP,
  PostgreSQL and Redis. All paths below are relative to the repository; the modelled code lies under \<^verbatim>\<open>src/\<close>.

  The parts and how they act on each other. A \<^verbatim>\<open>Session\<close> (\<^verbatim>\<open>src/network/io/session.cpp\<close>) is a \<^verbatim>\<open>MessageStream\<close> and a
  \<^verbatim>\<open>ByteStream\<close> over a transport. \<^verbatim>\<open>Session::Send\<close> writes a header, a \<^verbatim>\<open>Meta\<close> block and the data into reference-counted blocks and
  queues the message; \<^verbatim>\<open>try_start_send\<close> gives it to the transport as far as the \<^verbatim>\<open>FlowController\<close> allows. What the transport reads is cut
  into messages again, and the owner of the session (\<^verbatim>\<open>ServerImpl\<close>, \<^verbatim>\<open>ClientImpl\<close>, \<^verbatim>\<open>KcpListener\<close>) hands them to
  \<^verbatim>\<open>NetworkManager::Dispatch\<close>, which asks the \<^verbatim>\<open>Router\<close> for a worker and posts a task to its queue. A remote call is a message that
  carries a sequence number, under which the worker that made it finds the call when the response arrives. Workers run their tasks, the
  frame timers and the coroutines that wait for results. \<^verbatim>\<open>ShutdownManager\<close> takes the process through its phases at the end.

  The theories, bottom up, each with the code it models.

  \<^item> \<^verbatim>\<open>Gb_Prelude\<close>: the widths of the integer types, conversions between them, lemmas on lists and options, and the two interfaces that
    most components provide: \<^verbatim>\<open>kept_invariant\<close> (what every step keeps holds in every reachable state) and \<^verbatim>\<open>codec\<close> (what is encoded is
    decoded). \<^verbatim>\<open>Atomics\<close>: \<^verbatim>\<open>base/atomic.h\<close>. \<^verbatim>\<open>Byte_Order\<close>: integers as bytes. \<^verbatim>\<open>Decimal\<close>: \<^verbatim>\<open>std::to_string\<close>, \<^verbatim>\<open>strtoll\<close>,
    \<^verbatim>\<open>strtod\<close>.
  \<^item> Memory: \<^verbatim>\<open>Tran_Buf\<close> (\<^verbatim>\<open>buffer/tran_buf_pool.h\<close>, an explicit heap of blocks whose reference count is shown to be the number
    of owners), \<^verbatim>\<open>Buffers\<close>, \<^verbatim>\<open>Buffers_Read\<close> and \<^verbatim>\<open>Buffers_Write\<close> (\<^verbatim>\<open>buffer/buffer.cpp\<close>: the contracts of a zero-copy input and of a byte
    sink, met by \<^verbatim>\<open>ReadBuffer\<close> and \<^verbatim>\<open>WriteBuffer\<close>), \<^verbatim>\<open>Block_Compression\<close> (\<^verbatim>\<open>buffer/block_wrappers.cpp\<close>,
    \<^verbatim>\<open>buffer/compressed_stream.cpp\<close>: what is written to a block stream is read from it).
  \<^item> Messages: \<^verbatim>\<open>Message_Header\<close> and \<^verbatim>\<open>Message_Meta\<close> (the packed structs), \<^verbatim>\<open>Session_Send\<close> (every \<^verbatim>\<open>Session::Send\<close> up to the queue,
    and \<^verbatim>\<open>ReadMeta\<close>), \<^verbatim>\<open>Message_Receive\<close> (\<^verbatim>\<open>split_and_process_message\<close>, \<^verbatim>\<open>identify_message_header\<close> and the transfer buffer: frames come
    out whole and in order for every way the stream is cut).
  \<^item> Connections: \<^verbatim>\<open>Flow_Control\<close> (the quotas, with their compare-and-swap loops), \<^verbatim>\<open>Message_Stream\<close> (the state of a connection and every
    handler of \<^verbatim>\<open>byte_stream.cpp\<close>, \<^verbatim>\<open>message_stream.cpp\<close> and \<^verbatim>\<open>session.cpp\<close>), \<^verbatim>\<open>Stream_Safety\<close>, \<^verbatim>\<open>Stream_Run\<close> and
    \<^verbatim>\<open>Stream_Liveness\<close> (all runs of these handlers: one transfer of each kind in flight, nothing lost or reordered, everything sent),
    \<^verbatim>\<open>Send_Race\<close> (\<^verbatim>\<open>try_start_send\<close> step by step in several threads), \<^verbatim>\<open>Kcp_Transport\<close> (\<^verbatim>\<open>transport/kcp_transport.cpp\<close>).
  \<^item> Owners of connections: \<^verbatim>\<open>Server_Sessions\<close> and \<^verbatim>\<open>Server_Stop\<close> (\<^verbatim>\<open>network/io/server.cpp\<close>), \<^verbatim>\<open>Client_Sessions\<close>
    (\<^verbatim>\<open>network/io/client.cpp\<close>), \<^verbatim>\<open>Kcp_Listener\<close> (\<^verbatim>\<open>network/io/kcp_listener.cpp\<close>).
  \<^item> Workers and calls: \<^verbatim>\<open>Workers\<close> (\<^verbatim>\<open>worker/\<close>), \<^verbatim>\<open>Routing\<close> (\<^verbatim>\<open>router.cpp\<close>, \<^verbatim>\<open>route_table.h\<close>, \<^verbatim>\<open>executor.h\<close>,
    \<^verbatim>\<open>network_manager.cpp\<close>), \<^verbatim>\<open>Route_Table\<close> (\<^verbatim>\<open>lock_free_route_table.h\<close>, refined to two maps), \<^verbatim>\<open>Rpc\<close> (\<^verbatim>\<open>rpc_call.cpp\<close>,
    \<^verbatim>\<open>rpc_timer_pool.cpp\<close>), \<^verbatim>\<open>Rpc_Functions\<close> (\<^verbatim>\<open>rpc_function.hpp\<close>, \<^verbatim>\<open>function.hpp\<close>, \<^verbatim>\<open>rpc_reply.cpp\<close>), \<^verbatim>\<open>Msgpack\<close>,
    \<^verbatim>\<open>Msgpack_Roundtrip\<close> and \<^verbatim>\<open>Msgpack_Lua\<close> (\<^verbatim>\<open>msgpack/\<close>), \<^verbatim>\<open>Timer_Manager\<close> (\<^verbatim>\<open>timer/\<close>), \<^verbatim>\<open>Await_State\<close>
    (\<^verbatim>\<open>rpc_coro.h\<close>), \<^verbatim>\<open>Thread_Pool\<close> and \<^verbatim>\<open>Graceful_Shutdown\<close> (\<^verbatim>\<open>async/\<close>).
  \<^item> Other services: \<^verbatim>\<open>Nats\<close> and \<^verbatim>\<open>Nats_Requests\<close> (\<^verbatim>\<open>nats_manager.cpp\<close>), \<^verbatim>\<open>Db_Pool\<close>, \<^verbatim>\<open>Pg_Connection\<close> and \<^verbatim>\<open>Pg_Pipeline\<close>
    (\<^verbatim>\<open>db/postgres/\<close>), \<^verbatim>\<open>Redis_Value\<close>, \<^verbatim>\<open>Redis_Commands\<close> and \<^verbatim>\<open>Redis_Connection\<close> (\<^verbatim>\<open>db/redis/\<close>), \<^verbatim>\<open>Http_Util\<close>,
    \<^verbatim>\<open>Http_Status\<close>, \<^verbatim>\<open>Scope_Runner\<close>, \<^verbatim>\<open>Http_Server\<close> and \<^verbatim>\<open>Http_Client\<close> (\<^verbatim>\<open>network/http/\<close>).
  \<^item> This theory joins the two ends of a connection: what one side was given to send is what the other side's callback receives.

  How the code is modelled. An object is a record whose fields bear the names of the members; an operation is a function from its
  arguments and the state to its result and the new state; a throw, an early return or undefined behaviour is a value of an option or a
  sum. Where several threads or an event loop drive an object, the operations or their atomic steps are the clauses of a step relation,
  and the theorems speak of every reachable state. Fields that only record what happened (\<^verbatim>\<open>events\<close>, \<^verbatim>\<open>fired\<close>, \<^verbatim>\<open>requests\<close>) are named
  as such where they are declared. Most components end with theorems that show, on concrete runs, where the code does less than it means to.

  Bounds and fuel. Loops that may not end are partial functions into options (\<^verbatim>\<open>send_loop\<close>, \<^verbatim>\<open>split_and_process_message\<close>,
  \<^verbatim>\<open>unpack_loop\<close>, \<^verbatim>\<open>update_loop\<close>, the readers of HTTP), and the theorems say when they return. Fuel occurs where the recursion follows
  the remaining input (nested values of the serialiser, draining a stream); the length of the input is enough, and is shown to be.
  Unsigned integers are words where they may wrap, and 32 bit sizes pass through the conversions of the prelude; 64 bit counters that
  only grow by sizes of messages are unbounded integers. Memory is finite: the heap has a budget, and an allocation may fail.

  Parameters. Clocks, callbacks, handlers, selectors, results of sockets and of the resolver, the compressors and protobuf's varints and
  messages, the conversions of floating point numbers, the allocator's initial bytes, the order in which an unordered map is walked, and
  what libpq, hiredis, nats.c and ikcp answer are arguments; where a theorem relies on one of them the assumption is part of its
  statement. moodycamel's concurrent queue is one queue per producer, which is its contract. The Lua stack has no limit (the code does not
  check for one).

  Not modelled: the TCP and SSL transports beyond the operations they are given and complete; opening and binding sockets; gzip, the
  vendored lz4 and luasocket; the registration of functions with Lua; the coroutine forms that only wrap a modelled operation; the start-up
  and configuration of the applications; logging, file paths, md5 and the digests of \<^verbatim>\<open>crypto.hpp\<close>; generated protobuf code; timeouts and
  TLS of HTTP and the regular expressions of its resources.
\<close>

section \<open>From Send to the receiver\<close>

text \<open>The byte a transport reads at an address of the sender's memory.\<close>

definition byte_at :: "mem \<Rightarrow> addr \<Rightarrow> byte" where
  "byte_at m a = (case view m (fst a) of Some (_, d) \<Rightarrow> d ! nat (snd a) | None \<Rightarrow> 0)"

lemma byte_at_haddrs:
  assumes "rhandle_ok m h"
  shows "map (byte_at m) (haddrs h) = rbytes m h"
proof -
  obtain n d where v: "view m (hdata h) = Some (n, d)" "0 \<le> hpos h" "hpos h + hsize h \<le> int (length d)"
    using assms by (auto simp: rhandle_ok_def split: option.splits)
  have "map (byte_at m) (haddrs h) = map (\<lambda>i. d ! (nat (hpos h) + i)) [0..<nat (hsize h)]"
    using v by (simp add: haddrs_def span_def byte_at_def nat_add_distrib)
  also have "\<dots> = take (nat (hsize h)) (drop (nat (hpos h)) d)"
    using v by (intro nth_equalityI) auto
  finally show ?thesis using v by (simp add: rbytes_def)
qed

lemma byte_at_message: "rb_fresh m rb bs \<Longrightarrow> map (byte_at m) (rb_addrs rb) = bs"
  by (auto simp: rb_fresh_def rb_addrs_def map_concat byte_at_haddrs comp_def intro!: arg_cong [of _ _ concat])

text \<open>
  C1. From the sender's queue to the receiver's callback: when every message a connection has accepted is a
  well-formed frame and the transport has taken everything, then a receiver that is fed those bytes in reads of any size
  gets exactly the framed messages, in order, unless it runs out of memory.
\<close>

theorem sent_messages_arrive:
  assumes "callbacks_ok cb" and "sess_reach cb s" and "never_closed s" and "outstanding s = []"
    and "Stream_Safety.accepted (session.events s) = concat (map rb_addrs rbs)" and "list_all2 (\<lambda>rb f. rb_fresh ms rb (enframe f)) rbs fs"
    and "list_all frame_ok fs" and "rx_inv m rxs [] others" and "rx_pending m rxs = []" and "factor \<le> 9"
  shows "\<exists>r left rx' m'. receive_stream factor sizes (map (byte_at ms) (wire (session.events s))) rxs m = Some (r, left, rx', m') \<and>
     (case r of
        Inl reason \<Rightarrow> reason = ''out of memory''
      | Inr items \<Rightarrow>
          (\<exists>gs. fs = map (\<lambda>(rb, ms, ds). (ms, ds, the (rb_to_string m' rb))) items @ gs \<and> (left = [] \<longrightarrow> gs = [])) \<and>
          (\<forall>(rb, ms, ds) \<in> set items. rb_to_string m' rb \<noteq> None))"
proof -
  have "Stream_Safety.accepted (session.events s) = wire (session.events s)"
    using sess_reach_ok [OF assms(2,1)] assms(3,4) by (simp add: sess_inv_def)
  moreover have "map (byte_at ms) (concat (map rb_addrs rbs)) = concat (map enframe fs)"
    using assms(6) by (induction rule: list_all2_induct) (simp_all add: byte_at_message)
  ultimately have "map (byte_at ms) (wire (session.events s)) = concat (map enframe fs)" using assms(5) by simp
  then show ?thesis using stream_delivers [OF assms(8-10,7), of sizes] by simp
qed

text \<open>A heartbeat in the memory of a sender.\<close>

definition mem_heartbeat :: mem where
  "mem_heartbeat = mem0\<lparr>blocks := (blocks mem0)(0 \<mapsto>
     \<lparr>blk_size = 64, ref_count = 1, payload = enframe (0, 0, []) @ replicate 32 0\<rparr>), next_ptr := 1\<rparr>"

definition rb_heartbeat :: read_buffer where
  "rb_heartbeat = \<lparr>rbufs = [\<lparr>hdata = 0, hsize = 24, hpos = 0\<rparr>], rb_total_block_size = 64, rb_total_bytes = 24,
     rb_cur_it = 0, rb_cur_pos = 0, rb_last_bytes = 0, rb_read_bytes = 0\<rparr>"

lemma rb_heartbeat_fresh: "rb_fresh mem_heartbeat rb_heartbeat (enframe (0, 0, []))" "fresh_msg rb_heartbeat"
  by (simp_all add: rb_fresh_def rb_heartbeat_def mem_heartbeat_def rhandle_ok_def rbytes_def view_def enframe_def
      header_size_def fresh_msg_def rb_ok_def)

theorem sent_messages_arrive_witness:
  "\<exists>s r left rx' m'. sess_reach (\<lambda>_ t. t) s \<and> Stream_Safety.accepted (session.events s) = rb_addrs rb_heartbeat \<and>
     receive_stream 9 [10, 100] (map (byte_at mem_heartbeat) (wire (session.events s))) rx0 mem1 = Some (r, left, rx', m') \<and>
     (case r of
        Inl reason \<Rightarrow> reason = ''out of memory''
      | Inr items \<Rightarrow> \<exists>gs. [(0, 0, [])] = map (\<lambda>(rb, ms, ds). (ms, ds, the (rb_to_string m' rb))) items @ gs)"
proof -
  obtain s where s: "sess_reach (\<lambda>_ t. t) s" "never_closed s" "outstanding s = []" "Stream_Safety.accepted (session.events s) = rb_addrs rb_heartbeat"
    using demo_sent [OF rb_heartbeat_fresh(2)] by blast
  have "Stream_Safety.accepted (session.events s) = concat (map rb_addrs [rb_heartbeat])" using s(4) by simp
  moreover have "list_all2 (\<lambda>rb f. rb_fresh mem_heartbeat rb (enframe f)) [rb_heartbeat] [(0, 0, [])]"
    using rb_heartbeat_fresh(1) by simp
  moreover have "list_all frame_ok [(0, 0, [])]" by (simp add: frame_ok_def)
  ultimately have "\<exists>r left rx' m'. receive_stream 9 [10, 100] (map (byte_at mem_heartbeat) (wire (session.events s))) rx0 mem1 =
       Some (r, left, rx', m') \<and>
     (case r of
        Inl reason \<Rightarrow> reason = ''out of memory''
      | Inr items \<Rightarrow>
          (\<exists>gs. [(0, 0, [])] = map (\<lambda>(rb, ms, ds). (ms, ds, the (rb_to_string m' rb))) items @ gs \<and> (left = [] \<longrightarrow> gs = [])) \<and>
          (\<forall>(rb, ms, ds) \<in> set items. rb_to_string m' rb \<noteq> None))"
    by (rule sent_messages_arrive [OF callbacks_ok_id s(1-3) _ _ _ rx0_inv]) simp
  with s(1,4) show ?thesis by (fastforce split: sum.splits)
qed

end
